(* ===== verification/Prisma_Prelude.thy ===== *)
theory Prisma_Prelude
  imports Main "HOL-Library.Word" "HOL-Library.Multiset"
begin

text \<open>
  Shared vocabulary of the development: how the Go code's faults, time values and
  slices are represented, and the generic lemmas the component theories use.

  \<^item> \<open>go_fault\<close>: the ways a Go call ends without a normal result. \<open>NilDeref\<close>,
    \<open>OutOfRange\<close> and \<open>Panic\<close> are runtime panics, \<open>Fatal\<close> is \<^verbatim>\<open>log.Fatal\<close>,
    \<open>Err\<close> is a non-nil \<^verbatim>\<open>error\<close> result. A fallible call has type \<open>'a res\<close>.
  \<^item> \<open>time\<close>: a \<^verbatim>\<open>time.Time\<close> as nanoseconds since the Unix epoch, \<open>duration\<close> a
    \<^verbatim>\<open>time.Duration\<close>. \<open>time_sub\<close> saturates at the int64 bounds as \<^verbatim>\<open>Time.Sub\<close> does and
    \<open>neg_duration\<close> wraps as int64 negation does. The int64 seconds count inside a
    \<^verbatim>\<open>time.Time\<close> is taken to be large enough for every time that occurs.
  \<^item> slices: \<open>slice xs i j\<close> is \<^verbatim>\<open>xs[i:j]\<close>, \<open>go_copy xs i ys\<close> is \<^verbatim>\<open>copy(xs[i:], ys)\<close>.
\<close>

section \<open>Automation collections\<close>

named_theorems res_simps \<open>sequencing of fallible calls\<close>
named_theorems codec_simps \<open>reading and writing of fixed binary layouts\<close>

section \<open>Faults and results\<close>

datatype go_fault = NilDeref | OutOfRange | Panic string | Fatal string | Err string

type_synonym 'a res = "go_fault + 'a"

definition rbind :: "'e + 'a \<Rightarrow> ('a \<Rightarrow> 'e + 'b) \<Rightarrow> 'e + 'b" where
  "rbind r f = (case r of Inl e \<Rightarrow> Inl e | Inr x \<Rightarrow> f x)"

lemma rbind_Inr [simp, res_simps]: "rbind (Inr x) f = f x"
  by (simp add: rbind_def)

lemma rbind_Inl [simp, res_simps]: "rbind (Inl e) f = Inl e"
  by (simp add: rbind_def)

lemma rbind_eq_Inr: "rbind r f = Inr y \<longleftrightarrow> (\<exists>x. r = Inr x \<and> f x = Inr y)"
  by (cases r) auto

lemma rbind_eq_Inl: "rbind r f = Inl e \<longleftrightarrow> r = Inl e \<or> (\<exists>x. r = Inr x \<and> f x = Inl e)"
  by (cases r) auto

lemma rbind_split:
  "P (rbind r f) \<longleftrightarrow> (\<forall>e. r = Inl e \<longrightarrow> P (Inl e)) \<and> (\<forall>x. r = Inr x \<longrightarrow> P (f x))"
  by (cases r) auto

text \<open>Dereferencing a Go pointer, nil being \<open>None\<close>.\<close>

definition deref :: "'a option \<Rightarrow> 'a res" where
  "deref p = (case p of None \<Rightarrow> Inl NilDeref | Some x \<Rightarrow> Inr x)"

lemma deref_simps [simp, res_simps]: "deref (Some x) = Inr x" "deref None = Inl NilDeref"
  by (simp_all add: deref_def)

lemma deref_eq_Inr [simp]: "deref p = Inr x \<longleftrightarrow> p = Some x"
  by (cases p) auto

section \<open>Time\<close>

type_synonym time = int
type_synonym duration = int

abbreviation second :: duration where "second \<equiv> 1000000000"
abbreviation minute :: duration where "minute \<equiv> 60 * second"
abbreviation hour :: duration where "hour \<equiv> 60 * minute"

text \<open>The zero \<^verbatim>\<open>time.Time\<close> is 1 January of year 1, UTC.\<close>

definition zero_time :: time where
  "zero_time = - 62135596800 * second"

definition max_duration :: duration where "max_duration = 2 ^ 63 - 1"
definition min_duration :: duration where "min_duration = - (2 ^ 63)"

definition time_sub :: "time \<Rightarrow> time \<Rightarrow> duration" where
  "time_sub a b = max min_duration (min max_duration (a - b))"

definition neg_duration :: "duration \<Rightarrow> duration" where
  "neg_duration d = (if d = min_duration then min_duration else - d)"

lemma time_sub_exact:
  "min_duration \<le> a - b \<Longrightarrow> a - b \<le> max_duration \<Longrightarrow> time_sub a b = a - b"
  by (simp add: time_sub_def)

lemma time_sub_bounds: "min_duration \<le> time_sub a b" "time_sub a b \<le> max_duration"
  by (simp_all add: time_sub_def min_duration_def max_duration_def)

lemma neg_duration_sub:
  "min_duration < a - b \<Longrightarrow> a - b \<le> max_duration \<Longrightarrow> neg_duration (time_sub a b) = b - a"
  by (simp add: time_sub_exact neg_duration_def)

section \<open>Slices\<close>

definition slice :: "'a list \<Rightarrow> nat \<Rightarrow> nat \<Rightarrow> 'a list" where
  "slice xs i j = take (j - i) (drop i xs)"

text \<open>\<^verbatim>\<open>copy(xs[i:], ys)\<close> overwrites as many elements as both sides have.\<close>

definition go_copy :: "'a list \<Rightarrow> nat \<Rightarrow> 'a list \<Rightarrow> 'a list" where
  "go_copy xs i ys =
     (let n = min (length xs - i) (length ys) in take i xs @ take n ys @ drop (i + n) xs)"

lemma length_slice [simp]: "length (slice xs i j) = min (j - i) (length xs - i)"
  by (auto simp: slice_def)

lemma nth_slice [simp]: "i + k < j \<Longrightarrow> j \<le> length xs \<Longrightarrow> slice xs i j ! k = xs ! (i + k)"
  by (simp add: slice_def)

lemma length_go_copy [simp]: "i \<le> length xs \<Longrightarrow> length (go_copy xs i ys) = length xs"
  by (auto simp: go_copy_def Let_def)

text \<open>The insertion idiom: grow by one, shift the tail right, store at the gap.\<close>

lemma append_shift_insert:
  assumes "i \<le> length xs"
  shows "(go_copy (xs @ [z]) (Suc i) (drop i (xs @ [z])))[i := x] = take i xs @ x # drop i xs"
proof (cases "i = length xs")
  case True
  then show ?thesis by (simp add: go_copy_def)
next
  case False
  with assms have lt: "i < length xs" by simp
  then have "go_copy (xs @ [z]) (Suc i) (drop i (xs @ [z]))
      = take (Suc i) xs @ drop i xs"
    by (simp add: go_copy_def)
  moreover have "take (Suc i) xs = take i xs @ [xs ! i]"
    using lt by (simp add: take_Suc_conv_app_nth)
  ultimately show ?thesis
    using lt by (simp add: list_update_append)
qed

section \<open>Maps\<close>

lemma map_eqI_Some: "(\<And>k x. m k = Some x \<longleftrightarrow> m' k = Some x) \<Longrightarrow> m = m'"
  by (rule ext) (metis not_Some_eq)

lemma map_empty_iff_ran: "m = Map.empty \<longleftrightarrow> ran m = {}"
  by (auto simp: ran_def fun_eq_iff) (metis not_Some_eq)

section \<open>Counting list elements\<close>

definition count_if :: "('a \<Rightarrow> bool) \<Rightarrow> 'a list \<Rightarrow> int" where
  "count_if P xs = int (length (filter P xs))"

lemma count_if_simps [simp]:
  "count_if P [] = 0" "count_if P (x # xs) = of_bool (P x) + count_if P xs"
  "count_if P (xs @ ys) = count_if P xs + count_if P ys"
  by (simp_all add: count_if_def)

lemma count_if_nonneg [simp]: "0 \<le> count_if P xs"
  by (simp add: count_if_def)

lemma count_if_pos: "x \<in> set xs \<Longrightarrow> P x \<Longrightarrow> 0 < count_if P xs"
  by (auto simp: count_if_def filter_empty_conv)

lemma count_if_zero: "count_if P xs = 0 \<longleftrightarrow> (\<forall>x\<in>set xs. \<not> P x)"
  by (auto simp: count_if_def filter_empty_conv)

lemma count_if_update:
  "i < length xs \<Longrightarrow> count_if P (xs[i := y]) = count_if P xs - of_bool (P (xs ! i)) + of_bool (P y)"
proof (induction xs arbitrary: i)
  case (Cons x xs)
  then show ?case by (cases i) auto
qed simp

section \<open>Ordered lists\<close>

lemma sorted_wrt_insert:
  "sorted_wrt R (xs @ ys) \<Longrightarrow> (\<And>x. x \<in> set xs \<Longrightarrow> R x t) \<Longrightarrow> (\<And>y. y \<in> set ys \<Longrightarrow> R t y) \<Longrightarrow>
   sorted_wrt R (xs @ t # ys)"
  by (auto simp: sorted_wrt_append)

section \<open>Swapping two list elements\<close>

definition list_swap :: "'a list \<Rightarrow> nat \<Rightarrow> nat \<Rightarrow> 'a list" where
  "list_swap xs i j = xs[i := xs ! j, j := xs ! i]"

lemma length_list_swap [simp]: "length (list_swap xs i j) = length xs"
  by (simp add: list_swap_def)

lemma nth_list_swap:
  "i < length xs \<Longrightarrow> j < length xs \<Longrightarrow> k < length xs \<Longrightarrow>
   list_swap xs i j ! k = (if k = i then xs ! j else if k = j then xs ! i else xs ! k)"
  by (auto simp: list_swap_def nth_list_update)

lemma mset_list_swap [simp]:
  "i < length xs \<Longrightarrow> j < length xs \<Longrightarrow> mset (list_swap xs i j) = mset xs"
  by (simp add: list_swap_def mset_swap)

lemma set_list_swap [simp]:
  "i < length xs \<Longrightarrow> j < length xs \<Longrightarrow> set (list_swap xs i j) = set xs"
  by (metis mset_list_swap set_mset_mset)

section \<open>Numbers as text\<close>

text \<open>\<^verbatim>\<open>strconv.Itoa\<close> and \<^verbatim>\<open>fmt.Sprint\<close> of a number that is not negative.\<close>

fun Itoa :: "nat \<Rightarrow> string" where
  "Itoa n = (if n < 10 then [char_of (48 + n)] else Itoa (n div 10) @ [char_of (48 + n mod 10)])"

declare Itoa.simps [simp del]

fun digits_value :: "nat \<Rightarrow> string \<Rightarrow> nat option" where
  "digits_value v [] = Some v"
| "digits_value v (c # cs) =
     (let d = of_char c in if 48 \<le> d \<and> d \<le> (57 :: nat) then digits_value (10 * v + (d - 48)) cs else None)"

text \<open>\<^verbatim>\<open>strconv.ParseInt(s, 10, w + 1)\<close>: the number, unless the text is no number or out of range.\<close>

definition ParseInt :: "nat \<Rightarrow> string \<Rightarrow> int option" where
  "ParseInt w s =
     (let (neg, ds) = (case s of [] \<Rightarrow> (False, []) | c # cs \<Rightarrow> if c = CHR ''-'' then (True, cs) else if c = CHR ''+'' then (False, cs) else (False, s)) in
      if ds = [] then None
      else
        case digits_value 0 ds of
          None \<Rightarrow> None
        | Some v \<Rightarrow> if neg then (if v \<le> 2 ^ w then Some (- int v) else None) else if v < 2 ^ w then Some (int v) else None)"

abbreviation ParseInt32 :: "string \<Rightarrow> int option" where "ParseInt32 \<equiv> ParseInt 31"
abbreviation Atoi :: "string \<Rightarrow> int option" where "Atoi \<equiv> ParseInt 63"

lemma digits_value_append: "digits_value v (xs @ ys) = (case digits_value v xs of None \<Rightarrow> None | Some w \<Rightarrow> digits_value w ys)"
  by (induction v xs rule: digits_value.induct) (auto simp: Let_def)

lemma Itoa_digits: "c \<in> set (Itoa n) \<Longrightarrow> 48 \<le> (of_char c :: nat) \<and> (of_char c :: nat) \<le> 57"
proof (induction n rule: Itoa.induct)
  case (1 n)
  have small: "48 \<le> (of_char (char_of (48 + k :: nat)) :: nat) \<and> (of_char (char_of (48 + k :: nat)) :: nat) \<le> 57" if "k < 10" for k
    using that by simp
  show ?case using 1 small[of n] small[of "n mod 10"] Itoa.simps[of n] by (cases "n < 10") auto
qed

lemma Itoa_not_Nil [simp]: "Itoa n \<noteq> []"
  by (subst Itoa.simps) simp

lemma digits_value_Itoa: "digits_value 0 (Itoa n) = Some n"
proof (induction n rule: Itoa.induct)
  case (1 n)
  show ?case
  proof (cases "n < 10")
    case True
    then show ?thesis using Itoa.simps[of n] by simp
  next
    case False
    then have "digits_value 0 (Itoa n) = digits_value (n div 10) [char_of (48 + n mod 10)]"
      using 1 Itoa.simps[of n] by (simp add: digits_value_append)
    moreover have "n mod 10 < 10" by simp
    ultimately show ?thesis by simp
  qed
qed

lemma Itoa_inject [simp]: "Itoa a = Itoa b \<longleftrightarrow> a = b"
  by (metis digits_value_Itoa option.inject)

lemma ParseInt_Itoa: "n < 2 ^ w \<Longrightarrow> ParseInt w (Itoa n) = Some (int n)"
proof -
  assume n: "n < 2 ^ w"
  obtain c cs where c: "Itoa n = c # cs" by (meson Itoa_not_Nil list.exhaust)
  then have "c \<noteq> CHR ''-''" "c \<noteq> CHR ''+''" using Itoa_digits[of c n] by auto
  then show ?thesis using n c digits_value_Itoa[of n] by (simp add: ParseInt_def)
qed

text \<open>\<^verbatim>\<open>fmt.Sprint\<close> of a signed number.\<close>

definition Sprint_int :: "int \<Rightarrow> string" where
  "Sprint_int i = (if i < 0 then CHR ''-'' # Itoa (nat (- i)) else Itoa (nat i))"

lemmas ParseInt32_Itoa = ParseInt_Itoa[where w = 31]

lemma ParseInt32_Sprint_int:
  assumes "- (2 ^ 31) \<le> i" "i < 2 ^ 31"
  shows "ParseInt32 (Sprint_int i) = Some i"
proof (cases "i < 0")
  case True
  then show ?thesis using assms by (simp add: Sprint_int_def ParseInt_def digits_value_Itoa)
next
  case False
  then have "nat i < 2 ^ 31" using assms by simp
  then show ?thesis using False ParseInt32_Itoa[of "nat i"] by (simp add: Sprint_int_def)
qed

lemma Itoa_no_minus: "Itoa n \<noteq> CHR ''-'' # cs"
  using Itoa_digits[of "CHR ''-''" n] by force

lemma Sprint_int_inject [simp]: "Sprint_int i = Sprint_int j \<longleftrightarrow> i = j"
  using Itoa_no_minus Itoa_no_minus[symmetric] by (auto simp: Sprint_int_def)

section \<open>Words of a text\<close>

text \<open>\<^verbatim>\<open>strings.Fields\<close> of a text of ASCII characters.\<close>

definition isSpace :: "char \<Rightarrow> bool" where
  "isSpace c \<longleftrightarrow> c \<in> {CHR '' '', CHR 0x09, CHR 0x0A, CHR 0x0B, CHR 0x0C, CHR 0x0D}"

function Fields :: "string \<Rightarrow> string list" where
  "Fields s =
     (let s = dropWhile isSpace s in
      if s = [] then [] else takeWhile (\<lambda>c. \<not> isSpace c) s # Fields (dropWhile (\<lambda>c. \<not> isSpace c) s))"
  by pat_completeness auto

termination
proof (relation "measure length", simp)
  fix s x :: string assume "x = dropWhile isSpace s" "x \<noteq> []"
  then have "\<not> isSpace (hd x)" by (simp add: hd_dropWhile)
  then have "length (dropWhile (\<lambda>c. \<not> isSpace c) x) < length x"
    using \<open>x \<noteq> []\<close> by (cases x) (simp_all add: length_dropWhile_le le_imp_less_Suc)
  also have "length x \<le> length s" using \<open>x = _\<close> by (simp add: length_dropWhile_le)
  finally show "(dropWhile (\<lambda>c. \<not> isSpace c) x, s) \<in> measure length" by simp
qed

declare Fields.simps [simp del]

text \<open>\<^verbatim>\<open>strings.TrimSpace\<close>.\<close>

definition TrimSpace :: "string \<Rightarrow> string" where
  "TrimSpace s = rev (dropWhile isSpace (rev (dropWhile isSpace s)))"

definition is_word :: "string \<Rightarrow> bool" where
  "is_word w \<longleftrightarrow> w \<noteq> [] \<and> (\<forall>c\<in>set w. \<not> isSpace c)"

lemma isSpace_blank [simp]: "isSpace (CHR '' '')" "isSpace (CHR 0x0A)"
  by (simp_all add: isSpace_def)

lemma dropWhile_word: "is_word w \<Longrightarrow> dropWhile isSpace (w @ x) = w @ x"
  by (cases w) (auto simp: is_word_def)

lemma Fields_Nil [simp]: "Fields [] = []"
  by (subst Fields.simps) simp

lemma Fields_space: "isSpace c \<Longrightarrow> Fields (c # s) = Fields s"
  by (subst (1 2) Fields.simps) simp

lemma Fields_word:
  assumes "is_word w" "x = [] \<or> isSpace (hd x)"
  shows "Fields (w @ x) = w # Fields x"
proof -
  have s: "\<forall>c\<in>set w. \<not> isSpace c" using assms(1) by (simp add: is_word_def)
  have "takeWhile (\<lambda>c. \<not> isSpace c) (w @ x) = w" "dropWhile (\<lambda>c. \<not> isSpace c) (w @ x) = x"
    using s assms(2) by (cases x; simp add: takeWhile_append2 dropWhile_append2)+
  then show ?thesis using assms(1) dropWhile_word[OF assms(1), of x]
    by (subst Fields.simps) (auto simp: Let_def is_word_def)
qed

text \<open>Words joined by blanks are split again.\<close>

fun unwords :: "string list \<Rightarrow> string" where
  "unwords [] = []"
| "unwords [w] = w"
| "unwords (w # ws) = w @ '' '' @ unwords ws"

lemma Fields_unwords: "list_all is_word ws \<Longrightarrow> Fields (unwords ws) = ws"
proof (induction ws rule: unwords.induct)
  case (2 w)
  then show ?case using Fields_word[of w "[]"] by simp
next
  case (3 w v ws)
  then show ?case using Fields_word[of w "'' '' @ unwords (v # ws)"] by (simp add: Fields_space)
qed simp

lemma Fields_pair:
  assumes "a \<noteq> []" "b \<noteq> []" "\<forall>c\<in>set a. \<not> isSpace c" "\<forall>c\<in>set b. \<not> isSpace c"
  shows "Fields (a @ '' '' @ b) = [a, b]"
  using Fields_unwords[of "[a, b]"] assms by (simp add: is_word_def)

end
