(* ===== verification/Multicast.thy ===== *)
theory Multicast
  imports Prisma_Prelude
begin

text \<open>
  The multicast stage of \<^verbatim>\<open>tanalyzed\<close> (\<^verbatim>\<open>multicast.go\<close>): incidents are sent to other sites as packets, delivery reports
  decide the state of the packets and of the whole transmission. The collections of transmissions and multicasts, the
  Redis keys and the messages sent are the state; Redis and the database answer, unless an argument says otherwise.
\<close>

section \<open>State\<close>

text \<open>
  An incident with what the transfer reads and writes of it; the times of log entries are left out. Identifiers are those
  of database objects, which the functions of the driver accept.
\<close>

datatype incident_state = Incident_nonstate | Incident_Open | Incident_Closed | Incident_Archived | Incident_Transferring | Incident_Transferred

record attachment =
  at_Id :: string
  at_Name :: string

record log_entry =
  le_Type :: string
  le_Note :: string
  le_Attachment :: "attachment option"
  le_Entity :: "(string \<times> string) option"

record incident =
  in_Id :: string
  IncidentId :: string
  in_State :: incident_state
  Assignee :: string
  Commander :: string
  Outcome :: string
  Synopsis :: string
  in_Log :: "log_entry list"

datatype tstate = Transmission_nonstate | Transmission_Pending | Transmission_Success | Transmission_Failure | Transmission_Partial | Transmission_Retry

datatype dr_status = DeliveryReport_UNKNOWN | DeliveryReport_SENT | DeliveryReport_FAILED | DeliveryReport_PROCESSED

datatype code = Code_Unknown | Code_Acknowledged | Code_BadRequest | Code_Success | Code_Failed

record response_status =
  rs_Code :: code
  rs_Message :: string

record packet =
  pk_Name :: string
  pk_MessageId :: string
  pk_State :: tstate
  pk_Status :: "response_status option"

record transmission =
  tn_Id :: string
  tn_ParentId :: string
  tn_MessageId :: string
  Dest_Type :: string
  Dest_Id :: string
  tn_Packets :: "packet list"
  tn_State :: tstate
  tn_Status :: "response_status option"

text \<open>The payload does not unpack, is an incident, or something else.\<close>

record multicast =
  mc_Id :: string
  mc_Payload :: "incident option res"
  mc_Transmissions :: "transmission list"

datatype rvalue = Sent_at "time option" | Transmission_of string

text \<open>A message carries an attachment or the incident itself.\<close>

datatype mbody = File_body attachment | Incident_body incident

record mc_message =
  ms_Site :: nat
  ms_Body :: mbody
  ms_NotifySent :: int

text \<open>A callback waits until the counter of its wait group is zero.\<close>

record callback =
  cb_Notify :: int
  cb_Wait :: int

record mstate =
  trs :: "string \<rightharpoonup> transmission"
  mcs :: "string \<rightharpoonup> multicast"
  rds :: "string \<rightharpoonup> rvalue"
  outbox :: "mc_message list"
  callbacks :: "callback list"
  incs :: "string \<rightharpoonup> incident"

definition expiration :: duration where
  "expiration = 30 * minute"

section \<open>Delivery reports\<close>

text \<open>A report names a message by its identifier; \<open>notifyId\<close> is that number as text, as in the packets and in Redis.\<close>

definition packetStateUpdate :: "dr_status \<Rightarrow> packet \<Rightarrow> packet" where
  "packetStateUpdate r p =
     (if pk_State p = Transmission_Success then p
      else
        (case r of
           DeliveryReport_SENT \<Rightarrow>
             p\<lparr>pk_State := Transmission_Partial, pk_Status := Some \<lparr>rs_Code = Code_Acknowledged, rs_Message = ''transmission sent''\<rparr>\<rparr>
         | DeliveryReport_FAILED \<Rightarrow>
             p\<lparr>pk_State := Transmission_Failure, pk_Status := Some \<lparr>rs_Code = Code_BadRequest, rs_Message = ''transmission send failure''\<rparr>\<rparr>
         | DeliveryReport_UNKNOWN \<Rightarrow>
             p\<lparr>pk_State := Transmission_Partial, pk_Status := Some \<lparr>rs_Code = Code_Unknown, rs_Message = ''transmission send unknown''\<rparr>\<rparr>
         | DeliveryReport_PROCESSED \<Rightarrow>
             p\<lparr>pk_State := Transmission_Success, pk_Status := Some \<lparr>rs_Code = Code_Success, rs_Message = ''transmission processed''\<rparr>\<rparr>))"

fun find_packet :: "string \<Rightarrow> packet list \<Rightarrow> nat \<Rightarrow> nat option" where
  "find_packet i [] k = None"
| "find_packet i (p # ps) k = (if pk_MessageId p = i then Some k else find_packet i ps (Suc k))"

text \<open>
  \<^verbatim>\<open>PacketStatus\<close> writes one packet of the stored transmission, \<^verbatim>\<open>StatusById\<close> its state; the latter also writes a
  number over the status document, which leaves no status for whoever reads the transmission back.
\<close>

definition PacketStatus :: "string \<Rightarrow> packet \<Rightarrow> mstate \<Rightarrow> mstate" where
  "PacketStatus i p s =
     (case trs s i of
        None \<Rightarrow> s
      | Some t \<Rightarrow>
          (case find_packet (pk_MessageId p) (tn_Packets t) 0 of
             None \<Rightarrow> s
           | Some k \<Rightarrow> s\<lparr>trs := (trs s)(i \<mapsto> t\<lparr>tn_Packets := (tn_Packets t)[k := p]\<rparr>)\<rparr>))"

definition StatusById :: "string \<Rightarrow> tstate \<Rightarrow> mstate \<Rightarrow> mstate" where
  "StatusById i st s = (case trs s i of None \<Rightarrow> s | Some t \<Rightarrow> s\<lparr>trs := (trs s)(i \<mapsto> t\<lparr>tn_State := st, tn_Status := None\<rparr>)\<rparr>)"

text \<open>
  \<^verbatim>\<open>UpdateTransmission\<close> writes a transmission over the first of its identifier in the multicast it belongs to.
\<close>

fun replace_transmission :: "transmission \<Rightarrow> transmission list \<Rightarrow> transmission list" where
  "replace_transmission t [] = []"
| "replace_transmission t (x # xs) = (if tn_Id x = tn_Id t then t # xs else x # replace_transmission t xs)"

definition UpdateTransmission :: "transmission \<Rightarrow> mstate \<Rightarrow> mstate" where
  "UpdateTransmission t s =
     (case mcs s (tn_ParentId t) of
        None \<Rightarrow> s
      | Some mc \<Rightarrow> s\<lparr>mcs := (mcs s)(tn_ParentId t \<mapsto> mc\<lparr>mc_Transmissions := replace_transmission t (mc_Transmissions mc)\<rparr>)\<rparr>)"

datatype attempt = Done mstate | Not_found mstate

text \<open>
  A failed packet reopens the incident. The environment: the name and the number of the local site, the search for the remote
  one, and whether reading and writing an incident succeeds.
\<close>

record fenv =
  f_local :: "string \<times> nat"
  f_remote :: "string \<Rightarrow> (string \<times> nat) res"
  f_get :: bool
  f_upsert :: bool

definition transfer_note :: "string \<times> nat \<Rightarrow> string \<times> nat \<Rightarrow> string \<Rightarrow> string" where
  "transfer_note l r reason =
     ''Transfer from Site '' @ fst l @ ''('' @ Itoa (snd l) @ '') to Site '' @ fst r @ ''('' @ Itoa (snd r) @ '') failed.'' @ [CHR 0x0A] @
     ''Reason: '' @ reason"

definition reopen :: "string \<Rightarrow> string \<Rightarrow> incident \<Rightarrow> incident" where
  "reopen parent note i =
     i\<lparr>in_State := Incident_Open,
       in_Log := in_Log i @
         [\<lparr>le_Type = ''ACTION_TRANSFER_FAIL'', le_Note = note, le_Attachment = None, le_Entity = Some (''multicast'', parent)\<rparr>,
          \<lparr>le_Type = ''ACTION_REOPEN'', le_Note = [], le_Attachment = None, le_Entity = None\<rparr>]\<rparr>"

definition processFailedTransfer :: "fenv \<Rightarrow> transmission \<Rightarrow> nat \<Rightarrow> mstate \<Rightarrow> mstate \<times> unit res" where
  "processFailedTransfer e tr k s =
     (case f_remote e (Dest_Id tr) of
        Inl err \<Rightarrow> (s, Inl (Err ''error for getting info about remote''))
      | Inr remote \<Rightarrow>
          (case mcs s (tn_ParentId tr) of
             None \<Rightarrow> (s, Inl (Err ''not found''))
           | Some mc \<Rightarrow>
               (case mc_Payload mc of
                  Inl err \<Rightarrow> (s, Inl err)
                | Inr None \<Rightarrow> (s, Inl (Err ''currepted data, expected multicast''))
                | Inr (Some i) \<Rightarrow>
                    if \<not> f_get e then (s, Inl (Err ''get''))
                    else
                      (case incs s (in_Id i) of
                         None \<Rightarrow> (s, Inl (Err ''an incident was not found''))
                       | Some i \<Rightarrow>
                           (case pk_Status (tn_Packets tr ! k) of
                              None \<Rightarrow> (s, Inl NilDeref)
                            | Some st \<Rightarrow>
                                let i = reopen (tn_ParentId tr) (transfer_note (f_local e) remote (rs_Message st)) i in
                                if f_upsert e then (s\<lparr>incs := (incs s)(in_Id i \<mapsto> i)\<rparr>, Inr ()) else (s, Inl (Err ''upsert'')))))))"

text \<open>One attempt under the lock.\<close>

definition report_attempt :: "fenv \<Rightarrow> string \<Rightarrow> string \<Rightarrow> dr_status \<Rightarrow> mstate \<Rightarrow> attempt" where
  "report_attempt e n notifyId r s =
     (case trs s n of
        None \<Rightarrow> Done s
      | Some tr \<Rightarrow>
          (case find_packet notifyId (tn_Packets tr) 0 of
             None \<Rightarrow> Not_found s
           | Some i \<Rightarrow>
               let p = packetStateUpdate r (tn_Packets tr ! i);
                   tr = tr\<lparr>tn_Packets := (tn_Packets tr)[i := p]\<rparr>;
                   s = (if pk_State p = Transmission_Failure then fst (processFailedTransfer e tr i s) else s);
                   s = PacketStatus (tn_Id tr) p s in
               if list_all (\<lambda>p. pk_State p = Transmission_Success) (tn_Packets tr)
               then Done (UpdateTransmission (tr\<lparr>tn_State := Transmission_Success\<rparr>)
                      (StatusById (tn_Id tr) Transmission_Success (s\<lparr>rds := (rds s)(tn_Id tr := None)\<rparr>)))
               else Done s))"

text \<open>Up to \<open>left\<close> more attempts; \<open>others\<close> is what the other goroutines do while this one sleeps.\<close>

fun report_retry :: "fenv \<Rightarrow> nat \<Rightarrow> (mstate \<Rightarrow> mstate) list \<Rightarrow> string \<Rightarrow> string \<Rightarrow> dr_status \<Rightarrow> mstate \<Rightarrow> mstate" where
  "report_retry e 0 others n notifyId r s = (case report_attempt e n notifyId r s of Done s \<Rightarrow> s | Not_found s \<Rightarrow> s)"
| "report_retry e (Suc left) others n notifyId r s =
     (case report_attempt e n notifyId r s of
        Done s \<Rightarrow> s
      | Not_found s \<Rightarrow> report_retry e left (tl others) n notifyId r (case others of [] \<Rightarrow> s | f # _ \<Rightarrow> f s))"

definition on_report :: "fenv \<Rightarrow> (mstate \<Rightarrow> mstate) list \<Rightarrow> string \<Rightarrow> dr_status \<Rightarrow> mstate \<Rightarrow> mstate" where
  "on_report e others notifyId r s =
     (case rds s notifyId of Some (Transmission_of n) \<Rightarrow> report_retry e 2 others n notifyId r s | _ \<Rightarrow> s)"

section \<open>Sending\<close>

text \<open>
  The wait group comes by value: the counter \<open>wg\<close> of the caller stays as it is, and the callback holds the copy that
  was decremented once.
\<close>

definition sendMessage :: "int \<Rightarrow> transmission \<Rightarrow> packet \<Rightarrow> nat \<Rightarrow> mbody \<Rightarrow> int \<Rightarrow> mstate \<Rightarrow> transmission \<times> packet \<times> mstate" where
  "sendMessage wg t p site body notifyId s =
     (t\<lparr>tn_State := Transmission_Partial\<rparr>, p\<lparr>pk_MessageId := Sprint_int notifyId\<rparr>,
      s\<lparr>callbacks := callbacks s @ [\<lparr>cb_Notify = notifyId, cb_Wait = wg - 1\<rparr>],
        rds := (rds s)(Sprint_int notifyId \<mapsto> Transmission_of (tn_Id t)),
        outbox := outbox s @ [\<lparr>ms_Site = site, ms_Body = body, ms_NotifySent = notifyId\<rparr>]\<rparr>)"

text \<open>An attachment whose file cannot be opened leaves a pending packet without a message.\<close>

fun send_files :: "(string \<Rightarrow> bool) \<Rightarrow> int \<Rightarrow> nat \<Rightarrow> int list \<Rightarrow> attachment option list \<Rightarrow> transmission \<Rightarrow> mstate \<Rightarrow>
  int list \<times> transmission \<times> mstate" where
  "send_files opens wg site ids [] t s = (ids, t, s)"
| "send_files opens wg site ids (None # es) t s = send_files opens wg site ids es t s"
| "send_files opens wg site ids (Some a # es) t s =
     (let p = \<lparr>pk_Name = at_Name a, pk_MessageId = [], pk_State = Transmission_Pending, pk_Status = None\<rparr> in
      if \<not> opens (at_Id a) then send_files opens wg site ids es (t\<lparr>tn_Packets := tn_Packets t @ [p]\<rparr>) s
      else
        let (t, p, s) = sendMessage wg t p site (File_body a) (hd ids) s in
        send_files opens wg site (tl ids) es (t\<lparr>tn_Packets := tn_Packets t @ [p]\<rparr>) s)"

definition send_all :: "(string \<Rightarrow> bool) \<Rightarrow> nat \<Rightarrow> int list \<Rightarrow> incident \<Rightarrow> transmission \<Rightarrow> mstate \<Rightarrow> transmission \<times> mstate" where
  "send_all opens site ids i t s =
     (let entries = map le_Attachment (in_Log i);
          delta = int (2 + length (filter (\<lambda>e. e \<noteq> None) entries));
          (ids, t, s) = send_files opens delta site ids entries t s;
          p = \<lparr>pk_Name = ''log'', pk_MessageId = [], pk_State = Transmission_Pending, pk_Status = None\<rparr>;
          (t, p, s) = sendMessage delta t p site (Incident_body i) (hd ids) s;
          t = t\<lparr>tn_Packets := tn_Packets t @ [p]\<rparr>;
          t = (if tn_Status t = None \<or> map_option rs_Code (tn_Status t) = Some Code_Unknown
               then t\<lparr>tn_State := Transmission_Partial, tn_Status := Some \<lparr>rs_Code = Code_Acknowledged, rs_Message = ''transmission sent''\<rparr>\<rparr>
               else t) in
      (t, s))"

text \<open>The environment of one pass: the clock, the sites, the files that open and the identifiers of new messages.\<close>

record menv =
  m_now :: time
  m_site :: "string \<Rightarrow> nat res"
  m_opens :: "string \<Rightarrow> bool"
  m_ids :: "string \<Rightarrow> int list"

definition expires :: "time \<Rightarrow> rvalue option \<Rightarrow> bool" where
  "expires now v = (case v of Some (Sent_at (Some sent)) \<Rightarrow> expiration < time_sub now sent | _ \<Rightarrow> True)"

text \<open>
  One transmission of a multicast. The result is the transmission as the multicast holds it afterwards, whether the
  multicast is stored with it, the state, and a fault if the function returns early.
\<close>

definition handle_one :: "menv \<Rightarrow> incident option res \<Rightarrow> transmission \<Rightarrow> mstate \<Rightarrow> transmission \<times> bool \<times> mstate \<times> unit res" where
  "handle_one e payload t s =
     (if tn_State t = Transmission_Failure \<or> tn_State t = Transmission_Success then (t, False, s, Inr ())
      else
        let known = rds s (tn_Id t) \<noteq> None;
            late = (known \<or> tn_State t = Transmission_Partial \<or> tn_State t = Transmission_Retry) \<and> expires (m_now e) (rds s (tn_Id t));
            t = (if late then t\<lparr>tn_MessageId := [], tn_State := Transmission_Failure,
                                tn_Status := Some \<lparr>rs_Code = Code_Failed, rs_Message = ''transmission send failure''\<rparr>\<rparr> else t);
            s = (if late then s\<lparr>trs := (trs s)(tn_Id t \<mapsto> t), rds := (rds s)(tn_Id t := None)\<rparr> else s) in
        if tn_State t \<noteq> Transmission_Pending then (t, late, s, Inr ())
        else
          let s = (if known then s else s\<lparr>rds := (rds s)(tn_Id t \<mapsto> Sent_at (Some (m_now e)))\<rparr>) in
          if Dest_Type t \<noteq> ''prisma.tms.moc.Site'' then (t, False, s, Inr ())
          else
            (case m_site e (Dest_Id t) of
               Inl err \<Rightarrow> (t, False, s, Inl err)
             | Inr site \<Rightarrow>
                 (case payload of
                    Inl err \<Rightarrow> (t, False, s, Inl err)
                  | Inr None \<Rightarrow> (t, False, s, Inl NilDeref)
                  | Inr (Some i) \<Rightarrow>
                      let (t, s) = send_all (m_opens e) site (m_ids e (tn_Id t)) i t s in
                      (t, True, s\<lparr>trs := (trs s)(tn_Id t \<mapsto> t)\<rparr>, Inr ()))))"

text \<open>The loop over the transmissions; each write of the multicast stores the ones handled so far and the rest as they are.\<close>

fun handle_loop :: "menv \<Rightarrow> multicast \<Rightarrow> transmission list \<Rightarrow> transmission list \<Rightarrow> mstate \<Rightarrow> mstate \<times> unit res" where
  "handle_loop e mc dn [] s = (s, Inr ())"
| "handle_loop e mc dn (t # ts) s =
     (let (t', store, s, r) = handle_one e (mc_Payload mc) t s;
          s = (if store then s\<lparr>mcs := (mcs s)(mc_Id mc \<mapsto> mc\<lparr>mc_Transmissions := dn @ t' # ts\<rparr>)\<rparr> else s) in
      case r of Inl err \<Rightarrow> (s, Inl err) | Inr _ \<Rightarrow> handle_loop e mc (dn @ [t']) ts s)"

definition multicastHandle :: "menv \<Rightarrow> multicast \<Rightarrow> mstate \<Rightarrow> mstate \<times> unit res" where
  "multicastHandle e mc s = handle_loop e mc [] (mc_Transmissions mc) s"

section \<open>Reports decide packets and transmissions\<close>

fun reported :: "dr_status \<Rightarrow> tstate" where
  "reported DeliveryReport_SENT = Transmission_Partial"
| "reported DeliveryReport_FAILED = Transmission_Failure"
| "reported DeliveryReport_UNKNOWN = Transmission_Partial"
| "reported DeliveryReport_PROCESSED = Transmission_Success"

lemma packetStateUpdate_State: "pk_State (packetStateUpdate r p) = (if pk_State p = Transmission_Success then Transmission_Success else reported r)"
  by (cases r) (auto simp: packetStateUpdate_def)

lemma packetStateUpdate_Id [simp]: "pk_MessageId (packetStateUpdate r p) = pk_MessageId p"
  by (cases r) (auto simp: packetStateUpdate_def)

lemma reported_success: "reported r = Transmission_Success \<longleftrightarrow> r = DeliveryReport_PROCESSED"
  by (cases r) auto

lemma packet_after:
  "pk_State (fold packetStateUpdate rs p) =
     (if pk_State p = Transmission_Success \<or> DeliveryReport_PROCESSED \<in> set rs then Transmission_Success
      else if rs = [] then pk_State p else reported (last rs))"
  by (induction rs arbitrary: p) (auto simp: packetStateUpdate_State reported_success)

lemma packet_success:
  "pk_State (fold packetStateUpdate rs p) = Transmission_Success \<longleftrightarrow> pk_State p = Transmission_Success \<or> DeliveryReport_PROCESSED \<in> set rs"
  by (induction rs arbitrary: p) (auto simp: packetStateUpdate_State reported_success)

abbreviation all_processed :: "packet list \<Rightarrow> bool" where
  "all_processed ps \<equiv> list_all (\<lambda>p. pk_State p = Transmission_Success) ps"

definition reports_of :: "string \<Rightarrow> (string \<times> dr_status) list \<Rightarrow> dr_status list" where
  "reports_of i rs = map snd (filter (\<lambda>(j, r). j = i) rs)"

definition packets_after :: "(string \<times> dr_status) list \<Rightarrow> packet list \<Rightarrow> packet list" where
  "packets_after rs ps = map (\<lambda>p. fold packetStateUpdate (reports_of (pk_MessageId p) rs) p) ps"

lemma packets_after_Cons:
  "packets_after ((i, r) # rs) ps = packets_after rs (map (\<lambda>p. if pk_MessageId p = i then packetStateUpdate r p else p) ps)"
  by (auto simp: packets_after_def reports_of_def)

lemma packets_after_Nil [simp]: "packets_after [] ps = ps"
  by (simp add: packets_after_def reports_of_def)

lemma processed_stays: "all_processed ps \<Longrightarrow> all_processed (packets_after rs ps)"
  by (auto simp: packets_after_def list_all_iff packet_after)

lemma find_packet_shift: "find_packet i ps k = map_option ((+) k) (find_packet i ps 0)"
proof (induction ps arbitrary: k)
  case (Cons p ps)
  show ?case using Cons[of "Suc k"] Cons[of 1] by (auto simp: option.map_comp comp_def)
qed simp

lemma find_packet_first:
  assumes "i \<in> pk_MessageId ` set ps" "distinct (map pk_MessageId ps)"
  shows "\<exists>k<length ps. find_packet i ps 0 = Some k \<and> pk_MessageId (ps ! k) = i \<and>
    (\<forall>q. ps[k := q] = map (\<lambda>p. if pk_MessageId p = i then q else p) ps)"
  using assms
proof (induction ps)
  case (Cons p ps)
  show ?case
  proof (cases "pk_MessageId p = i")
    case True
    then have "pk_MessageId x \<noteq> i" if "x \<in> set ps" for x using Cons.prems(2) that by (auto simp: image_iff)
    then have "map (\<lambda>p. if pk_MessageId p = i then q else p) ps = ps" for q by (simp add: map_idI)
    then show ?thesis using True by (intro exI[of _ 0]) simp
  next
    case False
    then obtain k where k: "k < length ps" "find_packet i ps 0 = Some k" "pk_MessageId (ps ! k) = i"
        "\<forall>q. ps[k := q] = map (\<lambda>p. if pk_MessageId p = i then q else p) ps" using Cons by auto
    then show ?thesis using False find_packet_shift[of i ps 1] by (intro exI[of _ "Suc k"]) simp
  qed
qed simp

text \<open>A stored transmission whose packets are registered under its identifier.\<close>

definition flying :: "string \<Rightarrow> transmission \<Rightarrow> mstate \<Rightarrow> bool" where
  "flying n t s \<longleftrightarrow> trs s n = Some t \<and> tn_Id t = n \<and> distinct (map pk_MessageId (tn_Packets t)) \<and>
     (\<forall>p\<in>set (tn_Packets t). rds s (pk_MessageId p) = Some (Transmission_of n) \<and> pk_MessageId p \<noteq> n)"

lemma processFailedTransfer_keeps [simp]:
  "trs (fst (processFailedTransfer e tr k s)) = trs s" "rds (fst (processFailedTransfer e tr k s)) = rds s"
  "mcs (fst (processFailedTransfer e tr k s)) = mcs s"
  by (auto simp: processFailedTransfer_def Let_def split: sum.splits option.splits)

lemma on_report_in_flight:
  assumes "flying n t s" "i \<in> pk_MessageId ` set (tn_Packets t)"
    and "ps = map (\<lambda>p. if pk_MessageId p = i then packetStateUpdate r p else p) (tn_Packets t)"
  shows "flying n (t\<lparr>tn_Packets := ps, tn_State := (if all_processed ps then Transmission_Success else tn_State t),
      tn_Status := (if all_processed ps then None else tn_Status t)\<rparr>) (on_report e others i r s)"
proof -
  have f: "trs s n = Some t" "tn_Id t = n" "distinct (map pk_MessageId (tn_Packets t))" "rds s i = Some (Transmission_of n)"
    using assms(1,2) by (auto simp: flying_def)
  obtain k where k: "k < length (tn_Packets t)" "find_packet i (tn_Packets t) 0 = Some k" "pk_MessageId (tn_Packets t ! k) = i"
      "\<forall>q. (tn_Packets t)[k := q] = map (\<lambda>p. if pk_MessageId p = i then q else p) (tn_Packets t)"
    using find_packet_first[OF assms(2) f(3)] by blast
  let ?q = "packetStateUpdate r (tn_Packets t ! k)"
  have same: "p = tn_Packets t ! k" if "p \<in> set (tn_Packets t)" "pk_MessageId p = i" for p
    using that f(3) k(1,3) by (metis distinct_map in_set_conv_nth inj_on_eq_iff nth_mem)
  have ps: "ps = (tn_Packets t)[k := ?q]" unfolding assms(3) k(4)[rule_format] using same by auto
  have qi: "pk_MessageId ?q = i" using k(3) by simp
  have ids: "map pk_MessageId ps = map pk_MessageId (tn_Packets t)" unfolding assms(3) by simp
  define s0 where "s0 = (if pk_State ?q = Transmission_Failure then fst (processFailedTransfer e (t\<lparr>tn_Packets := ps\<rparr>) k s) else s)"
  have s0: "trs s0 = trs s" "rds s0 = rds s" by (simp_all add: s0_def)
  define s1 where "s1 = PacketStatus n ?q s0"
  have s1: "s1 = s0\<lparr>trs := (trs s)(n \<mapsto> t\<lparr>tn_Packets := ps\<rparr>)\<rparr>" "rds s1 = rds s"
    using f(1) k(2) qi ps s0 by (auto simp: s1_def PacketStatus_def)
  let ?s2 = "UpdateTransmission (t\<lparr>tn_Packets := ps, tn_State := Transmission_Success\<rparr>)
      (StatusById n Transmission_Success (s1\<lparr>rds := (rds s1)(n := None)\<rparr>))"
  have a: "report_attempt e n i r s = (if all_processed ps then Done ?s2 else Done s1)"
    using f k(2) unfolding report_attempt_def s1_def s0_def ps Let_def by simp
  have o: "on_report e others i r s = (if all_processed ps then ?s2 else s1)"
    using f(4) a by (simp add: on_report_def numeral_2_eq_2)
  have "distinct (map pk_MessageId ps)" using ids f(3) by simp
  moreover have "set (map pk_MessageId ps) = set (map pk_MessageId (tn_Packets t))" unfolding ids ..
  then have "\<forall>p\<in>set ps. rds s (pk_MessageId p) = Some (Transmission_of n) \<and> pk_MessageId p \<noteq> n"
    using assms(1) unfolding flying_def by (metis (no_types, lifting) image_iff list.set_map)
  ultimately show ?thesis using f(1,2) s1 unfolding o flying_def by (auto simp: UpdateTransmission_def StatusById_def split: option.split)
qed

lemma reports_in_flight:
  assumes "flying n t s" "\<forall>(i, r)\<in>set rs. i \<in> pk_MessageId ` set (tn_Packets t)"
  shows "flying n (t\<lparr>tn_Packets := packets_after rs (tn_Packets t),
      tn_State := (if rs \<noteq> [] \<and> all_processed (packets_after rs (tn_Packets t)) then Transmission_Success else tn_State t),
      tn_Status := (if rs \<noteq> [] \<and> all_processed (packets_after rs (tn_Packets t)) then None else tn_Status t)\<rparr>)
    (fold (\<lambda>(i, r). on_report e others i r) rs s)"
  using assms
proof (induction rs arbitrary: s t)
  case (Cons ir rs)
  obtain i r where ir: "ir = (i, r)" by (cases ir)
  define ps where "ps = map (\<lambda>p. if pk_MessageId p = i then packetStateUpdate r p else p) (tn_Packets t)"
  define t' where "t' = t\<lparr>tn_Packets := ps, tn_State := (if all_processed ps then Transmission_Success else tn_State t),
      tn_Status := (if all_processed ps then None else tn_Status t)\<rparr>"
  have "flying n t' (on_report e others i r s)"
    unfolding t'_def using Cons.prems ir by (intro on_report_in_flight) (auto simp: ps_def)
  moreover have "map pk_MessageId (tn_Packets t') = map pk_MessageId (tn_Packets t)" by (simp add: t'_def ps_def)
  then have "pk_MessageId ` set (tn_Packets t') = pk_MessageId ` set (tn_Packets t)" by (metis list.set_map)
  ultimately have ih: "flying n (t'\<lparr>tn_Packets := packets_after rs ps,
      tn_State := (if rs \<noteq> [] \<and> all_processed (packets_after rs ps) then Transmission_Success else tn_State t'),
      tn_Status := (if rs \<noteq> [] \<and> all_processed (packets_after rs ps) then None else tn_Status t')\<rparr>)
    (fold (\<lambda>(i, r). on_report e others i r) rs (on_report e others i r s))"
    using Cons.IH[of t' "on_report e others i r s"] Cons.prems(2) by (simp add: t'_def)
  have pa: "packets_after (ir # rs) (tn_Packets t) = packets_after rs ps" unfolding ir packets_after_Cons ps_def ..
  have "all_processed ps \<Longrightarrow> all_processed (packets_after rs ps)" by (rule processed_stays)
  then have st: "(if rs \<noteq> [] \<and> all_processed (packets_after rs ps) then Transmission_Success else tn_State t') =
      (if ir # rs \<noteq> [] \<and> all_processed (packets_after rs ps) then Transmission_Success else tn_State t)"
    "(if rs \<noteq> [] \<and> all_processed (packets_after rs ps) then None else tn_Status t') =
      (if ir # rs \<noteq> [] \<and> all_processed (packets_after rs ps) then None else tn_Status t)"
    by (cases rs; auto simp: t'_def)+
  have "t'\<lparr>tn_Packets := a, tn_State := b, tn_Status := c\<rparr> = t\<lparr>tn_Packets := a, tn_State := b, tn_Status := c\<rparr>" for a b c by (simp add: t'_def)
  then show ?case using ih unfolding pa st by (simp add: ir)
qed simp

lemma reports_decide:
  assumes "flying n t s" "\<forall>(i, r)\<in>set rs. i \<in> pk_MessageId ` set (tn_Packets t)" "\<not> all_processed (tn_Packets t)"
  shows "\<exists>t'. trs (fold (\<lambda>(i, r). on_report e others i r) rs s) n = Some t' \<and>
    tn_Packets t' = packets_after rs (tn_Packets t) \<and>
    tn_State t' = (if \<forall>p\<in>set (tn_Packets t). pk_State p = Transmission_Success \<or> (pk_MessageId p, DeliveryReport_PROCESSED) \<in> set rs
      then Transmission_Success else tn_State t)"
proof -
  have "all_processed (packets_after rs (tn_Packets t)) \<longleftrightarrow>
      (\<forall>p\<in>set (tn_Packets t). pk_State p = Transmission_Success \<or> (pk_MessageId p, DeliveryReport_PROCESSED) \<in> set rs)"
    by (auto simp: packets_after_def list_all_iff packet_success reports_of_def image_iff)
  moreover have "rs = [] \<Longrightarrow> \<not> all_processed (packets_after rs (tn_Packets t))" using assms(3) by simp
  ultimately show ?thesis using reports_in_flight[OF assms(1,2), of e others] by (auto simp: flying_def)
qed

text \<open>C10. 
  Over any sequence of delivery reports for the packets of a transmission, each packet has the state its own reports
  give it, processed being final, and the transmission is stored as successful exactly when all packets are.
\<close>

theorem reports_decide_transmission:
  assumes "flying n t s" "\<forall>(i, r)\<in>set rs. i \<in> pk_MessageId ` set (tn_Packets t)" "\<not> all_processed (tn_Packets t)"
  shows "\<exists>t'. trs (fold (\<lambda>(i, r). on_report e others i r) rs s) n = Some t' \<and>
    tn_Packets t' = packets_after rs (tn_Packets t) \<and>
    tn_State t' = (if \<forall>p\<in>set (tn_Packets t). pk_State p = Transmission_Success \<or> (pk_MessageId p, DeliveryReport_PROCESSED) \<in> set rs
      then Transmission_Success else tn_State t)"
  using assms by (rule reports_decide)

theorem reports_decide_transmission_witness:
  "\<exists>t'. trs (fold (\<lambda>(i, r). on_report \<lparr>f_local = ([], 0), f_remote = (\<lambda>_. Inr ([], 0)), f_get = True, f_upsert = True\<rparr> [] i r)
       [(''b'', DeliveryReport_PROCESSED), (''a'', DeliveryReport_SENT), (''b'', DeliveryReport_FAILED), (''a'', DeliveryReport_PROCESSED)]
       \<lparr>trs = [''t'' \<mapsto> \<lparr>tn_Id = ''t'', tn_ParentId = ''m'', tn_MessageId = [], Dest_Type = ''prisma.tms.moc.Site'', Dest_Id = ''s'',
          tn_Packets = [\<lparr>pk_Name = ''f'', pk_MessageId = ''a'', pk_State = Transmission_Pending, pk_Status = None\<rparr>,
                        \<lparr>pk_Name = ''log'', pk_MessageId = ''b'', pk_State = Transmission_Pending, pk_Status = None\<rparr>],
          tn_State = Transmission_Partial, tn_Status = None\<rparr>],
        mcs = Map.empty, rds = [''a'' \<mapsto> Transmission_of ''t'', ''b'' \<mapsto> Transmission_of ''t''], outbox = [], callbacks = [], incs = Map.empty\<rparr>) ''t''
     = Some t' \<and> tn_State t' = Transmission_Success"
  (is "\<exists>t'. trs (fold _ ?rs ?s) _ = Some t' \<and> _")
proof -
  let ?t = "the (trs ?s ''t'')"
  have "flying ''t'' ?t ?s" by (simp add: flying_def)
  moreover have "\<forall>(i, r)\<in>set ?rs. i \<in> pk_MessageId ` set (tn_Packets ?t)" by simp
  moreover have "\<not> all_processed (tn_Packets ?t)" by simp
  moreover have "\<forall>p\<in>set (tn_Packets ?t). pk_State p = Transmission_Success \<or> (pk_MessageId p, DeliveryReport_PROCESSED) \<in> set ?rs" by simp
  ultimately show ?thesis using reports_decide_transmission[of "''t''" ?t ?s ?rs "\<lparr>f_local = ([], 0), f_remote = (\<lambda>_. Inr ([], 0)), f_get = True, f_upsert = True\<rparr>" "[]"] by metis
qed

section \<open>Sending at most once\<close>

text \<open>A transmission that is not to be sent any more.\<close>

definition settled_tr :: "transmission \<Rightarrow> bool" where
  "settled_tr t \<longleftrightarrow> tn_State t \<noteq> Transmission_Pending \<or> Dest_Type t \<noteq> ''prisma.tms.moc.Site''"

lemma send_all_Partial: "tn_State (fst (send_all opens site ids i t s)) = Transmission_Partial"
  by (auto simp: send_all_def sendMessage_def Let_def split: prod.splits)

lemma settled_silent: "settled_tr t \<Longrightarrow> outbox (fst (snd (snd (handle_one e p t s)))) = outbox s"
  by (auto simp: handle_one_def settled_tr_def Let_def)

lemma settled_stays: "settled_tr t \<Longrightarrow> settled_tr (fst (handle_one e p t s)) \<and> snd (snd (snd (handle_one e p t s))) = Inr ()"
  by (auto simp: handle_one_def settled_tr_def Let_def)

lemma handle_one_settles: "handle_one e p t s = (t', st, s', Inr ()) \<Longrightarrow> settled_tr t'"
  using send_all_Partial[of "m_opens e"]
  by (auto simp: handle_one_def settled_tr_def Let_def split: if_splits sum.splits option.splits prod.splits; metis fst_conv tstate.distinct)

lemma not_stored_same: "handle_one e p t s = (t', False, s', r) \<Longrightarrow> t' = t"
  by (auto simp: handle_one_def Let_def split: if_splits sum.splits option.splits prod.splits)

lemma send_files_mcs [simp]: "mcs (snd (snd (send_files opens wg site ids es t s))) = mcs s"
  by (induction opens wg site ids es t s rule: send_files.induct) (auto simp: sendMessage_def Let_def)

lemma send_all_mcs: "mcs (snd (send_all opens site ids i t s)) = mcs s"
  using send_files_mcs[of opens "int (2 + length (filter (\<lambda>e. e \<noteq> None) (map le_Attachment (in_Log i))))" site ids "map le_Attachment (in_Log i)" t s]
  by (auto simp: send_all_def sendMessage_def Let_def simp del: send_files_mcs split: prod.splits)

lemma handle_one_mcs: "mcs (fst (snd (snd (handle_one e p t s)))) = mcs s"
  using send_all_mcs[of "m_opens e"]
  by (auto simp: handle_one_def Let_def split: if_splits sum.splits option.splits prod.splits; metis (no_types, lifting) snd_conv mstate.select_convs(2) mstate.surjective mstate.update_convs)

lemma handle_loop_stored:
  assumes "mcs s (mc_Id mc) = Some (mc\<lparr>mc_Transmissions := dn @ ts\<rparr>)" "list_all settled_tr dn" "handle_loop e mc dn ts s = (s', Inr ())"
  shows "\<exists>ts'. mcs s' (mc_Id mc) = Some (mc\<lparr>mc_Transmissions := ts'\<rparr>) \<and> list_all settled_tr ts'"
  using assms
proof (induction ts arbitrary: dn s)
  case (Cons t ts)
  obtain t' st s1 r where h: "handle_one e (mc_Payload mc) t s = (t', st, s1, r)" by (metis prod_cases4)
  have r: "r = Inr ()" using Cons.prems(3) h by (auto simp: Let_def split: sum.splits)
  have same: "mcs s1 = mcs s" using handle_one_mcs[of e "mc_Payload mc" t s] h by simp
  let ?s = "if st then s1\<lparr>mcs := (mcs s1)(mc_Id mc \<mapsto> mc\<lparr>mc_Transmissions := dn @ t' # ts\<rparr>)\<rparr> else s1"
  have "mcs ?s (mc_Id mc) = Some (mc\<lparr>mc_Transmissions := (dn @ [t']) @ ts\<rparr>)"
    using Cons.prems(1) same not_stored_same[of e "mc_Payload mc" t s t' s1 r] h by (cases st) auto
  moreover have "list_all settled_tr (dn @ [t'])" using Cons.prems(2) handle_one_settles[OF h[unfolded r]] by simp
  moreover have "handle_loop e mc (dn @ [t']) ts ?s = (s', Inr ())" using Cons.prems(3) h r by (simp add: Let_def)
  ultimately show ?case by (rule Cons.IH)
qed auto

lemma settled_loop_silent: "list_all settled_tr ts \<Longrightarrow> outbox (fst (handle_loop e mc dn ts s)) = outbox s"
proof (induction ts arbitrary: dn s)
  case (Cons t ts)
  obtain t' st s1 r where h: "handle_one e (mc_Payload mc) t s = (t', st, s1, r)" by (metis prod_cases4)
  then have "outbox s1 = outbox s" "r = Inr ()"
    using settled_silent[of t e "mc_Payload mc" s] settled_stays[of t e "mc_Payload mc" s] Cons.prems by auto
  then show ?case using Cons h by (simp add: Let_def)
qed simp

text \<open>
  A multicast is sent at most once: when a pass over a stored multicast ends without a fault, the multicast it leaves in
  the collection sends nothing in any later pass, whatever the state, the clock and the sites are then.
\<close>

theorem sent_once:
  assumes "mcs s (mc_Id mc) = Some mc" "multicastHandle e mc s = (s', Inr ())"
  shows "\<exists>mc'. mcs s' (mc_Id mc) = Some mc' \<and> mc_Payload mc' = mc_Payload mc \<and>
    (\<forall>e' s''. outbox (fst (multicastHandle e' mc' s'')) = outbox s'')"
proof -
  obtain ts' where "mcs s' (mc_Id mc) = Some (mc\<lparr>mc_Transmissions := ts'\<rparr>)" "list_all settled_tr ts'"
    using handle_loop_stored[of s mc "[]" "mc_Transmissions mc" e s'] assms by (auto simp: multicastHandle_def)
  then show ?thesis by (auto simp: multicastHandle_def settled_loop_silent)
qed

theorem sent_once_witness:
  "let t = \<lparr>tn_Id = ''t'', tn_ParentId = ''m'', tn_MessageId = [], Dest_Type = ''prisma.tms.moc.Site'', Dest_Id = ''s'',
          tn_Packets = [], tn_State = Transmission_Pending, tn_Status = None\<rparr>;
       mc = \<lparr>mc_Id = ''m'', mc_Payload = Inr (Some \<lparr>in_Id = ''i'', IncidentId = ''INC-1'', in_State = Incident_Transferring, Assignee = [], Commander = [],
          Outcome = [], Synopsis = [], in_Log =
            [\<lparr>le_Type = [], le_Note = [], le_Attachment = Some \<lparr>at_Id = ''f'', at_Name = ''f.txt''\<rparr>, le_Entity = None\<rparr>,
             \<lparr>le_Type = [], le_Note = [], le_Attachment = None, le_Entity = None\<rparr>]\<rparr>), mc_Transmissions = [t]\<rparr>;
       s = \<lparr>trs = [''t'' \<mapsto> t], mcs = [''m'' \<mapsto> mc], rds = Map.empty, outbox = [], callbacks = [], incs = Map.empty\<rparr>;
       s' = fst (multicastHandle \<lparr>m_now = 0, m_site = (\<lambda>_. Inr 7), m_opens = (\<lambda>_. True), m_ids = (\<lambda>_. [5, 6])\<rparr> mc s) in
   map ms_NotifySent (outbox s') = [5, 6] \<and>
   (\<exists>mc'. mcs s' ''m'' = Some mc' \<and> (\<forall>e' s''. outbox (fst (multicastHandle e' mc' s'')) = outbox s''))"
proof -
  define t where "t = \<lparr>tn_Id = ''t'', tn_ParentId = ''m'', tn_MessageId = [], Dest_Type = ''prisma.tms.moc.Site'', Dest_Id = ''s'',
          tn_Packets = [], tn_State = Transmission_Pending, tn_Status = None\<rparr>"
  define mc where "mc = \<lparr>mc_Id = ''m'', mc_Payload = Inr (Some \<lparr>in_Id = ''i'', IncidentId = ''INC-1'', in_State = Incident_Transferring, Assignee = [], Commander = [],
          Outcome = [], Synopsis = [], in_Log =
            [\<lparr>le_Type = [], le_Note = [], le_Attachment = Some \<lparr>at_Id = ''f'', at_Name = ''f.txt''\<rparr>, le_Entity = None\<rparr>,
             \<lparr>le_Type = [], le_Note = [], le_Attachment = None, le_Entity = None\<rparr>]\<rparr>), mc_Transmissions = [t]\<rparr>"
  define s where "s = \<lparr>trs = [''t'' \<mapsto> t], mcs = [''m'' \<mapsto> mc], rds = Map.empty, outbox = [], callbacks = [], incs = Map.empty\<rparr>"
  define e :: menv where "e = \<lparr>m_now = 0, m_site = (\<lambda>_. Inr 7), m_opens = (\<lambda>_. True), m_ids = (\<lambda>_. [5, 6])\<rparr>"
  note defs = t_def mc_def s_def e_def
  have m: "mcs s (mc_Id mc) = Some mc" "mc_Id mc = ''m''" by (simp_all add: s_def mc_def)
  have r: "multicastHandle e mc s = (fst (multicastHandle e mc s), Inr ())" "map ms_NotifySent (outbox (fst (multicastHandle e mc s))) = [5, 6]"
    by (simp_all add: defs multicastHandle_def handle_one_def send_all_def sendMessage_def)
  show ?thesis using sent_once[OF m(1) r(1)] r(2) unfolding m(2) Let_def t_def[symmetric] mc_def[symmetric] s_def[symmetric] e_def[symmetric] by blast
qed

text \<open>
  The wait group is copied at every call of \<^verbatim>\<open>sendMessage\<close>: each callback of a pass waits on a counter
  of at least one that nothing counts down, so no callback gets past its \<^verbatim>\<open>Wait\<close>.
\<close>

lemma send_files_callbacks:
  "\<forall>c\<in>set (callbacks (snd (snd (send_files opens wg site ids es t s)))). c \<in> set (callbacks s) \<or> cb_Wait c = wg - 1"
proof (induction opens wg site ids es t s rule: send_files.induct)
  case (3 opens wg site ids a es t s)
  then show ?case by (cases "opens (at_Id a)") (fastforce simp: sendMessage_def Let_def)+
qed auto

lemma send_all_callbacks:
  "send_all opens site ids i t s = (t', s') \<Longrightarrow> c \<in> set (callbacks s') \<Longrightarrow> c \<in> set (callbacks s) \<or> 1 \<le> cb_Wait c"
  using send_files_callbacks[of opens "int (2 + length (filter (\<lambda>e. e \<noteq> None) (map le_Attachment (in_Log i))))" site ids "map le_Attachment (in_Log i)" t s]
  by (fastforce simp: send_all_def sendMessage_def Let_def split: prod.splits)

lemma handle_one_callbacks:
  "handle_one e p t s = (t', st, s', r) \<Longrightarrow> c \<in> set (callbacks s') \<Longrightarrow> c \<in> set (callbacks s) \<or> 1 \<le> cb_Wait c"
  by (auto simp: handle_one_def Let_def split: if_splits sum.splits option.splits prod.splits dest: send_all_callbacks)

lemma handle_loop_callbacks: "\<forall>c\<in>set (callbacks (fst (handle_loop e mc dn ts s))). c \<in> set (callbacks s) \<or> 1 \<le> cb_Wait c"
proof (induction ts arbitrary: dn s)
  case (Cons t ts)
  obtain t' st s1 r where h: "handle_one e (mc_Payload mc) t s = (t', st, s1, r)" by (metis prod_cases4)
  let ?s = "if st then s1\<lparr>mcs := (mcs s1)(mc_Id mc \<mapsto> mc\<lparr>mc_Transmissions := dn @ t' # ts\<rparr>)\<rparr> else s1"
  have "\<forall>c\<in>set (callbacks ?s). c \<in> set (callbacks s) \<or> 1 \<le> cb_Wait c"
    using handle_one_callbacks[OF h] by simp
  then show ?case using Cons[of "dn @ [t']" ?s] h by (cases r) (auto simp: Let_def)
qed simp

theorem callbacks_blocked:
  "c \<in> set (callbacks (fst (multicastHandle e mc s))) \<Longrightarrow> c \<notin> set (callbacks s) \<Longrightarrow> 1 \<le> cb_Wait c"
  using handle_loop_callbacks[of e mc "[]" "mc_Transmissions mc" s] by (auto simp: multicastHandle_def)

end
