(* ===== verification/Track_Types.thy ===== *)
theory Track_Types
  imports Prisma_Prelude
begin

text \<open>
  The data the track pipeline of \<^verbatim>\<open>tms/db\<close> moves around: stream statuses, timestamps,
  targets, metadata, tracks, track updates and the generic objects of the misc data
  streams. Pointers are options (\<open>None\<close> is nil). A message keeps the fields the modelled
  code reads; the fields it only carries along are one opaque string (\<open>tg_rest\<close>,
  \<open>md_rest\<close>, \<open>ob_Data\<close>).
\<close>

text \<open>The generated enums, less the values no modelled code distinguishes (\<open>OtherDevice\<close>,
  \<open>OtherStatus\<close> carry the number of such a value).\<close>

datatype device_type = DeviceType_Fusion | DeviceType_Manual | OtherDevice nat

datatype status =
    Status_Unknown
  | Status_Current
  | Status_Timeout
  | Status_InitialLoadDone
  | Status_Starting
  | Status_Closing
  | Status_SetupDone
  | OtherStatus nat

record timestamp =
  Seconds :: int
  Nanos :: int

definition FromTimestamp :: "timestamp option \<Rightarrow> time" where
  "FromTimestamp t = (case t of None \<Rightarrow> zero_time | Some ts \<Rightarrow> Seconds ts * second + Nanos ts)"

text \<open>\<^verbatim>\<open>time.Unix(ts.Seconds, int64(ts.Nanos))\<close> on a pointer that must not be nil.\<close>

definition unix_of :: "timestamp option \<Rightarrow> time res" where
  "unix_of p = rbind (deref p) (\<lambda>ts. Inr (Seconds ts * second + Nanos ts))"

lemma unix_of_simps [simp]:
  "unix_of (Some ts) = Inr (Seconds ts * second + Nanos ts)" "unix_of None = Inl NilDeref"
  by (simp_all add: unix_of_def)

record manual_device =
  IssueTimeout :: bool

record ttm =
  ttm_Status :: string

record nmea =
  nm_Ttm :: "ttm option"

record target =
  tg_Type :: device_type
  tg_Time :: "timestamp option"
  tg_UpdateTime :: "timestamp option"
  tg_Repeat :: bool
  tg_Manual :: "manual_device option"
  tg_Nmea :: "nmea option"
  tg_rest :: string

record track_metadata =
  md_Type :: device_type
  md_Time :: "timestamp option"
  md_rest :: string

record track =
  tr_Id :: string
  tr_Targets :: "target option list"
  tr_Metadata :: "track_metadata option list"

record track_update =
  tu_Status :: status
  tu_Track :: "track option"

record go_object =
  ob_ID :: string
  CreationTime :: time
  ExpirationTime :: time
  ob_Data :: string

record go_get_response =
  gr_Status :: status
  gr_Contents :: "go_object option"

text \<open>\<^verbatim>\<open>func (t *Track) Time()\<close>: the latest time of any target or metadata. The two
  loops dereference every element.\<close>

fun latest_time :: "time \<Rightarrow> timestamp option option list \<Rightarrow> time res" where
  "latest_time tm [] = Inr tm"
| "latest_time tm (None # xs) = Inl NilDeref"
| "latest_time tm (Some p # xs) =
     (let t = FromTimestamp p in latest_time (if tm < t then t else tm) xs)"

definition Track_Time :: "track \<Rightarrow> time res" where
  "Track_Time t =
     rbind (latest_time zero_time (map (map_option tg_Time) (tr_Targets t)))
       (\<lambda>tm. latest_time tm (map (map_option md_Time) (tr_Metadata t)))"

text \<open>\<^verbatim>\<open>func (upd TrackUpdate) Time()\<close>: the loops compute the latest time in a local
  variable, but the function returns the zero time and false whatever they found.\<close>

definition TrackUpdate_Time :: "track_update \<Rightarrow> (time \<times> bool) res" where
  "TrackUpdate_Time upd =
     (case tu_Track upd of
        None \<Rightarrow> Inr (zero_time, False)
      | Some tr \<Rightarrow>
          rbind (latest_time zero_time (map (map_option tg_Time) (tr_Targets tr)))
            (\<lambda>t. rbind (latest_time t (map (map_option md_Time) (tr_Metadata tr)))
              (\<lambda>t. Inr (zero_time, False))))"

text \<open>The two implementations of the interface \<^verbatim>\<open>TimeoutInfo\<close>.\<close>

datatype timeout_info =
    TrackTimeoutInfo string track time
  | MiscTimeoutInfo go_object time

fun Deadline :: "timeout_info \<Rightarrow> time" where
  "Deadline (TrackTimeoutInfo i t d) = d"
| "Deadline (MiscTimeoutInfo ob d) = d"

fun ID :: "timeout_info \<Rightarrow> string" where
  "ID (TrackTimeoutInfo i t d) = i"
| "ID (MiscTimeoutInfo ob d) = ob_ID ob"

section \<open>The latest time of a track\<close>

lemma latest_time_ge: "latest_time tm xs = Inr r \<Longrightarrow> tm \<le> r"
  by (induction tm xs rule: latest_time.induct) (auto simp: Let_def split: if_splits)

lemma latest_time_upper: "latest_time tm xs = Inr r \<Longrightarrow> Some p \<in> set xs \<Longrightarrow> FromTimestamp p \<le> r"
  by (induction tm xs rule: latest_time.induct)
    (auto simp: Let_def split: if_splits dest: latest_time_ge)

lemma latest_time_attained:
  "latest_time tm xs = Inr r \<Longrightarrow> r = tm \<or> (\<exists>p. Some p \<in> set xs \<and> r = FromTimestamp p)"
  by (induction tm xs rule: latest_time.induct) (auto simp: Let_def split: if_splits)

lemma latest_time_returns: "None \<notin> set xs \<Longrightarrow> \<exists>r. latest_time tm xs = Inr r"
  by (induction tm xs rule: latest_time.induct) (auto simp: Let_def)

end
