(* ===== verification/Incident_Resource.thy ===== *)
theory Incident_Resource
  imports Multicast Track_Types "HOL-Library.AList"
begin

text \<open>
  \<^verbatim>\<open>twebd/public/incident.go\<close>: the requests that create, change, close and read incidents, with \<^verbatim>\<open>moc/incident_extra.go\<close>,
  the sequence of incident numbers (\<^verbatim>\<open>tms/incident/mongo.go\<close>) and the reading and writing of the misc collections
  (\<^verbatim>\<open>db/mongo/misc.go\<close>). The state of the server is the collection of incidents in the order the database returns it, the
  registry entries with their incidents, the track extension requests sent to \<^verbatim>\<open>tanalyzed\<close>, what was published and the
  audit trail. Identifiers are in the lower case the server writes them in. A request gets an environment with the permissions of its user and what the database, the clock and the
  file store answer. A handler gives the new state and the answer, or a panic.
\<close>

section \<open>Data\<close>

record log_note =
  n_Id :: string
  n_Timestamp :: "timestamp option"
  n_Type :: string
  n_Note :: string
  n_Attachment :: "attachment option"
  n_Entity :: "(string \<times> string) option"
  n_Deleted :: bool
  n_Assigned :: bool

record incident_doc =
  d_Id :: string
  d_IncidentId :: string
  d_Name :: string
  d_Type :: string
  d_Phase :: nat
  d_State :: incident_state
  d_Assignee :: string
  d_Commander :: string
  d_Outcome :: string
  d_Synopsis :: string
  d_Log :: "log_note list"

record web_state =
  incidents :: "(string \<times> incident_doc) list"
  reg_incidents :: "string \<rightharpoonup> string list"
  ext_sent :: "(string \<times> int) list"
  published :: "(string \<times> incident_doc) list"
  audits :: "(string \<times> string) list"

text \<open>
  \<open>fresh\<close> are the identifiers \<^verbatim>\<open>mongo.CreateId\<close> gives, \<open>new_doc_id\<close> the one an insertion gives; \<open>get_fault\<close> and
  \<open>get_again\<close> are the outcomes of the first and second read of an incident; \<open>managers\<close> is the search for users with the
  role of an incident manager.
\<close>

record req_env =
  allowed :: "string \<Rightarrow> bool"
  allowed_class :: bool
  get_fault :: "go_fault option"
  get_again :: "go_fault option"
  upsert_fault :: "go_fault option"
  update_fault :: "go_fault option"
  note_fault :: "go_fault option"
  pack_fault :: "go_fault option"
  managers :: "string \<Rightarrow> string list res"
  open_file :: "attachment \<Rightarrow> attachment res"
  close_valid :: "incident_doc \<Rightarrow> bool"
  reference :: string
  fresh :: "string list"
  new_doc_id :: string
  req_time :: timestamp

type_synonym answer = "nat \<times> incident_doc list"

definition ErrorNotFound :: go_fault where "ErrorNotFound = Err ''not found''"

definition audit :: "string \<Rightarrow> string \<Rightarrow> web_state \<Rightarrow> web_state" where
  "audit action outcome w = w\<lparr>audits := audits w @ [(action, outcome)]\<rparr>"

definition Publish_incident :: "string \<Rightarrow> incident_doc \<Rightarrow> web_state \<Rightarrow> web_state" where
  "Publish_incident action d w = w\<lparr>published := published w @ [(action, d)]\<rparr>"

section \<open>The collections\<close>

definition IsObjectIdHex :: "string \<Rightarrow> bool" where
  "IsObjectIdHex s \<longleftrightarrow> length s = 24 \<and> list_all (\<lambda>c. c \<in> set ''0123456789abcdefABCDEF'') s"

text \<open>\<^verbatim>\<open>Get\<close>: an empty identifier does not restrict the search. Incidents do not expire.\<close>

definition misc_Get :: "go_fault option \<Rightarrow> string \<Rightarrow> web_state \<Rightarrow> (string \<times> incident_doc) list res" where
  "misc_Get fault i w =
     (if i \<noteq> '''' \<and> \<not> IsObjectIdHex i then Inl (Err ''InvalidId'')
      else
        case fault of
          Some f \<Rightarrow> Inl f
        | None \<Rightarrow> Inr (if i = '''' then incidents w else filter (\<lambda>(k, d). k = i) (incidents w)))"

text \<open>\<^verbatim>\<open>Upsert\<close>: an empty identifier inserts a new document.\<close>

definition misc_Upsert :: "req_env \<Rightarrow> string \<Rightarrow> incident_doc \<Rightarrow> web_state \<Rightarrow> web_state \<times> string res" where
  "misc_Upsert e i d w =
     (let key = (if i = '''' then new_doc_id e else i) in
      case upsert_fault e of
        Some f \<Rightarrow> (w, Inl f)
      | None \<Rightarrow> (w\<lparr>incidents := AList.update key d (incidents w)\<rparr>, Inr key))"

text \<open>\<^verbatim>\<open>Delete\<close> of the misc collections knows fleets only.\<close>

definition misc_Delete :: "string \<Rightarrow> (string \<Rightarrow> bool) \<Rightarrow> string \<Rightarrow> unit res" where
  "misc_Delete objectType delete_fleet i =
     (if objectType = ''prisma.tms.moc.Fleet'' \<and> delete_fleet i then Inr () else Inl (Err ''Not found''))"

definition getIncident :: "go_fault option \<Rightarrow> string \<Rightarrow> web_state \<Rightarrow> incident_doc res" where
  "getIncident fault i w =
     rbind (misc_Get fault i w) (\<lambda>found. case found of [] \<Rightarrow> Inl ErrorNotFound | (k, d) # _ \<Rightarrow> Inr (d\<lparr>d_Id := k\<rparr>))"

text \<open>
  The next reference of a prefix, once a session is open: the collection of sequences may hold several documents of a prefix, of
  which the first is incremented; \<open>applied\<close> says whether the database answered. A failure inserts a document.
\<close>

definition Next_id :: "bool \<Rightarrow> string \<Rightarrow> (string \<times> nat) list \<Rightarrow> (string \<times> nat) list \<times> string" where
  "Next_id applied prefix seqs =
     (case (if applied then map_of seqs prefix else None) of
        Some n \<Rightarrow> (AList.update prefix (n + 1) seqs, prefix @ Itoa (n + 1))
      | None \<Rightarrow> (seqs @ [(prefix, 1000)], prefix @ Itoa 1000))"

section \<open>Log entries\<close>

text \<open>\<^verbatim>\<open>HasIncidentLogEntity\<close>: the state of the loop is the latest time and the result.\<close>

fun has_entity :: "log_note list \<Rightarrow> string \<Rightarrow> time \<Rightarrow> bool \<Rightarrow> bool res" where
  "has_entity [] i lastTime result = Inr result"
| "has_entity (n # logs) i lastTime result =
     (if n_Type n \<noteq> ''TRACK'' then has_entity logs i lastTime result
      else if FromTimestamp (n_Timestamp n) > lastTime then
        rbind (deref (n_Entity n)) (\<lambda>(t, k).
          has_entity logs i (FromTimestamp (n_Timestamp n)) (if k = i then \<not> n_Deleted n else result))
      else has_entity logs i lastTime result)"

definition HasIncidentLogEntity :: "log_note list \<Rightarrow> string \<Rightarrow> bool res" where
  "HasIncidentLogEntity logs i = has_entity logs i zero_time False"

definition filterResponseLogEntry :: "incident_doc \<Rightarrow> incident_doc" where
  "filterResponseLogEntry d =
     (if d_State d = Incident_Open then d\<lparr>d_Log := filter (\<lambda>n. \<not> n_Deleted n) (d_Log d)\<rparr> else d)"

text \<open>
  \<open>open_file\<close> is the outcome of \<^verbatim>\<open>OpenId\<close> together with the deferred \<^verbatim>\<open>Close\<close>. The source defers \<^verbatim>\<open>Close\<close> before it looks at the error,
  so that it is called on a nil file when the file cannot be opened; the model takes it that the driver's \<^verbatim>\<open>Close\<close> returns then.
\<close>

definition populateFileMetadata :: "req_env \<Rightarrow> attachment \<Rightarrow> attachment res" where
  "populateFileMetadata e a = (if IsObjectIdHex (at_Id a) then open_file e a else Inl (Err ''invalidId''))"

text \<open>A new log entry gets an identifier, the time and the metadata of its file; the number counts files that failed.\<close>

definition complete_note :: "req_env \<Rightarrow> string \<Rightarrow> log_note \<Rightarrow> log_note \<times> nat" where
  "complete_note e i n =
     (let n' = n\<lparr>n_Id := i, n_Timestamp := Some (req_time e)\<rparr> in
      case n_Attachment n of
        None \<Rightarrow> (n', 0)
      | Some a \<Rightarrow> (case populateFileMetadata e a of Inl f \<Rightarrow> (n', 1) | Inr a' \<Rightarrow> (n'\<lparr>n_Attachment := Some a'\<rparr>, 0)))"

fun complete_notes :: "req_env \<Rightarrow> string list \<Rightarrow> log_note list \<Rightarrow> log_note list \<times> nat" where
  "complete_notes e ids [] = ([], 0)"
| "complete_notes e ids (n # ns) =
     (if n_Id n = '''' then
        let (n', k) = complete_note e (hd ids) n; (ns', k') = complete_notes e (tl ids) ns in (n' # ns', k + k')
      else let (ns', k') = complete_notes e ids ns in (n # ns', k'))"

definition audit_files :: "nat \<Rightarrow> web_state \<Rightarrow> web_state" where
  "audit_files k w = w\<lparr>audits := audits w @ replicate k (''ADD_NOTE_FILE'', ''FAIL_ERROR'')\<rparr>"

definition locked_state :: "incident_state \<Rightarrow> bool" where
  "locked_state s \<longleftrightarrow> s = Incident_Closed \<or> s = Incident_Archived"

definition processLogEntry :: "req_env \<Rightarrow> string list \<Rightarrow> incident_doc \<Rightarrow> web_state \<Rightarrow> incident_doc \<times> web_state" where
  "processLogEntry e ids d w =
     (if locked_state (d_State d) then (d, w)
      else let (ns, k) = complete_notes e ids (d_Log d) in (d\<lparr>d_Log := ns\<rparr>, audit_files k w))"

definition processLogEntryWithOriginal ::
  "req_env \<Rightarrow> string list \<Rightarrow> incident_doc \<Rightarrow> incident_doc \<Rightarrow> web_state \<Rightarrow> incident_doc \<times> web_state"
where
  "processLogEntryWithOriginal e ids d original w =
     (if locked_state (d_State d) then (d, w)
      else
        let existing = {i. i \<noteq> '''' \<and> i \<in> n_Id ` set (d_Log d)};
            (ns, k) = complete_notes e ids (filter (\<lambda>n. n_Id n = '''') (d_Log d)) in
        (d\<lparr>d_Log := map (\<lambda>n. n\<lparr>n_Deleted := n_Id n \<notin> existing\<rparr>) (d_Log original @ ns)\<rparr>, audit_files k w))"

section \<open>Users, registry and track extensions\<close>

definition validateIncidentUserRoleByString :: "req_env \<Rightarrow> string \<Rightarrow> bool" where
  "validateIncidentUserRoleByString e user = (case managers e user of Inl f \<Rightarrow> False | Inr us \<Rightarrow> user \<in> set us)"

text \<open>\<^verbatim>\<open>validateUserRole\<close>: the properties it reports.\<close>

definition validateUserRole :: "req_env \<Rightarrow> incident_doc \<Rightarrow> string list" where
  "validateUserRole e d =
     (case managers e (d_Assignee d @ '','' @ d_Commander d) of
        Inl f \<Rightarrow> []
      | Inr us \<Rightarrow>
          (if d_Assignee d \<in> set us then [] else [''assignee'']) @
          (if d_Commander d = '''' \<or> d_Commander d \<in> set us then [] else [''commander'']))"

definition addToRegistry :: "string \<Rightarrow> string \<Rightarrow> web_state \<Rightarrow> web_state \<times> unit res" where
  "addToRegistry incidentID regID w =
     (case reg_incidents w regID of
        None \<Rightarrow> (w, Inl ErrorNotFound)
      | Some is \<Rightarrow> (w\<lparr>reg_incidents := (reg_incidents w)(regID \<mapsto> (if incidentID \<in> set is then is else is @ [incidentID]))\<rparr>, Inr ()))"

definition removeFromRegistry :: "string \<Rightarrow> string \<Rightarrow> web_state \<Rightarrow> web_state \<times> unit res" where
  "removeFromRegistry incidentID regID w =
     (case reg_incidents w regID of
        None \<Rightarrow> (w, Inl ErrorNotFound)
      | Some is \<Rightarrow> (w\<lparr>reg_incidents := (reg_incidents w)(regID \<mapsto> filter (\<lambda>i. i \<noteq> incidentID) is)\<rparr>, Inr ()))"

text \<open>The request to \<^verbatim>\<open>tanalyzed\<close> as the registry identifier and the count; the last stored track it carries is left out.\<close>

definition sendTrackExReq :: "req_env \<Rightarrow> string \<Rightarrow> int \<Rightarrow> web_state \<Rightarrow> web_state" where
  "sendTrackExReq e i n w = (case pack_fault e of Some f \<Rightarrow> w | None \<Rightarrow> w\<lparr>ext_sent := ext_sent w @ [(i, n)]\<rparr>)"

text \<open>The loops over the tracks of a log; with \<open>Some incident\<close> the registry entry of a track is updated too.\<close>

fun extend_tracks :: "req_env \<Rightarrow> string option \<Rightarrow> int \<Rightarrow> log_note list \<Rightarrow> web_state \<Rightarrow> web_state \<times> unit res" where
  "extend_tracks e reg n [] w = (w, Inr ())"
| "extend_tracks e reg n (entry # es) w =
     (if n_Type entry \<noteq> ''TRACK'' then extend_tracks e reg n es w
      else
        case n_Entity entry of
          None \<Rightarrow> (w, Inl NilDeref)
        | Some (t, i) \<Rightarrow>
            let w1 = (case reg of None \<Rightarrow> w | Some inc \<Rightarrow> fst (addToRegistry inc i w)) in
            extend_tracks e reg n es (sendTrackExReq e i n w1))"

section \<open>Requests\<close>

text \<open>\<open>deny\<close> answers a request without permission, \<open>invalid\<close> one with validation errors, \<open>failed\<close> one whose database call failed.\<close>

definition deny :: "string \<Rightarrow> web_state \<Rightarrow> web_state \<times> answer res" where
  "deny action w = (audit action ''FAIL_PERMISSION'' w, Inr (403, []))"

definition invalid :: "string \<Rightarrow> web_state \<Rightarrow> web_state \<times> answer res" where
  "invalid action w = (audit action ''FAIL_VALIDATION'' w, Inr (400, []))"

definition failed :: "string \<Rightarrow> web_state \<Rightarrow> web_state \<times> answer res" where
  "failed action w = (audit action ''FAIL_ERROR'' w, Inr (500, []))"

definition not_read :: "string \<Rightarrow> go_fault \<Rightarrow> web_state \<Rightarrow> web_state \<times> answer res" where
  "not_read action f w =
     (if f = ErrorNotFound then (audit action ''FAIL_NOTFOUND'' w, Inr (404, [])) else failed action w)"

definition locked :: "string \<Rightarrow> web_state \<Rightarrow> web_state \<times> answer res" where
  "locked action w = (audit action ''FAIL_VALIDATION'' w, Inr (423, []))"

text \<open>The end of a successful change: audit, answer and publication of what the client may see.\<close>

definition succeed :: "nat \<Rightarrow> string \<Rightarrow> incident_doc \<Rightarrow> web_state \<Rightarrow> web_state \<times> answer res" where
  "succeed code action d w = (Publish_incident action d (audit action ''SUCCESS'' w), Inr (code, [d]))"

definition ReadAll :: "req_env \<Rightarrow> web_state \<Rightarrow> web_state \<times> answer res" where
  "ReadAll e w =
     (if \<not> allowed e ''READ'' then deny ''READ'' w
      else
        case misc_Get (get_fault e) '''' w of
          Inl f \<Rightarrow> failed ''READ'' w
        | Inr ds \<Rightarrow> (audit ''READ'' ''SUCCESS'' w, Inr (200, map (\<lambda>(k, d). filterResponseLogEntry (d\<lparr>d_Id := k\<rparr>)) ds)))"

text \<open>\<open>withDeleted\<close> is the value of the query parameter, \<open>None\<close> if it is not valid.\<close>

definition ReadOne :: "req_env \<Rightarrow> string option \<Rightarrow> string option \<Rightarrow> web_state \<Rightarrow> web_state \<times> answer res" where
  "ReadOne e pid withDeleted w =
     (if \<not> allowed e ''READ'' then deny ''READ'' w
      else
        case (pid, withDeleted) of
          (Some i, Some del) \<Rightarrow>
            (case getIncident (get_fault e) i w of
               Inl f \<Rightarrow> not_read ''READ'' f w
             | Inr d \<Rightarrow> (audit ''READ'' ''SUCCESS'' w, Inr (200, [if del = ''true'' then d else filterResponseLogEntry d])))
        | _ \<Rightarrow> invalid ''READ'' w)"

definition Create :: "req_env \<Rightarrow> incident_doc option \<Rightarrow> web_state \<Rightarrow> web_state \<times> answer res" where
  "Create e body w =
     (if \<not> allowed e ''CREATE'' then deny ''CREATE'' w
      else
        case body of
          None \<Rightarrow> invalid ''CREATE'' w
        | Some d \<Rightarrow>
            let d1 = d\<lparr>d_IncidentId := reference e, d_State := Incident_Open\<rparr> in
            if validateUserRole e d1 \<noteq> [] then invalid ''CREATE'' w
            else
              let opened = \<lparr>n_Id = hd (fresh e), n_Timestamp = Some (req_time e), n_Type = ''ACTION_OPEN'', n_Note = reference e,
                            n_Attachment = None, n_Entity = None, n_Deleted = False, n_Assigned = True\<rparr>;
                  (d2, w1) = processLogEntry e (tl (fresh e)) (d1\<lparr>d_Log := opened # d_Log d1\<rparr>) w in
              (case misc_Upsert e '''' d2 w1 of
                 (w2, Inl f) \<Rightarrow> failed ''CREATE'' w2
               | (w2, Inr i) \<Rightarrow>
                   (case extend_tracks e (Some i) 1 (d_Log d2) w2 of
                      (w3, Inl f) \<Rightarrow> (w3, Inl f)
                    | (w3, Inr _) \<Rightarrow> succeed 201 ''CREATE'' (d2\<lparr>d_Id := i\<rparr>) w3)))"

definition CreateLogEntry :: "req_env \<Rightarrow> string option \<Rightarrow> log_note option \<Rightarrow> web_state \<Rightarrow> web_state \<times> answer res" where
  "CreateLogEntry e pid body w =
     (if \<not> allowed e ''ADD_NOTE'' then deny ''ADD_NOTE'' w
      else
        case pid of
          None \<Rightarrow> invalid ''ADD_NOTE'' w
        | Some i \<Rightarrow>
            case getIncident (get_fault e) i w of
              Inl f \<Rightarrow> not_read ''ADD_NOTE'' f w
            | Inr d \<Rightarrow>
                if d_State d = Incident_Closed then locked ''ADD_NOTE'' w
                else
                  case body of
                    None \<Rightarrow> invalid ''ADD_NOTE'' w
                  | Some n0 \<Rightarrow>
                      let n1 = n0\<lparr>n_Id := hd (fresh e), n_Timestamp := Some (req_time e), n_Assigned := True\<rparr>;
                          act1 = (if n_Attachment n1 = None then ''ADD_NOTE'' else ''ADD_NOTE_FILE'') in
                      case (case n_Attachment n1 of
                              None \<Rightarrow> Inr n1
                            | Some a \<Rightarrow> rbind (populateFileMetadata e a) (\<lambda>a'. Inr (n1\<lparr>n_Attachment := Some a'\<rparr>))) of
                        Inl f \<Rightarrow> invalid act1 w
                      | Inr n \<Rightarrow>
                          case (case n_Entity n of None \<Rightarrow> Inr False | Some (t, k) \<Rightarrow> HasIncidentLogEntity (d_Log d) k) of
                            Inl f \<Rightarrow> (w, Inl f)
                          | Inr True \<Rightarrow> invalid act1 w
                          | Inr False \<Rightarrow>
                              let act = (if n_Entity n = None then act1 else ''ADD_NOTE_ENTITY'') in
                              case misc_Upsert e i (d\<lparr>d_Log := d_Log d @ [n]\<rparr>) w of
                                (w1, Inl f) \<Rightarrow> failed act w1
                              | (w1, Inr _) \<Rightarrow>
                                  (case extend_tracks e (Some i) 1 [n] w1 of
                                     (w2, Inl f) \<Rightarrow> (w2, Inl f)
                                   | (w2, Inr _) \<Rightarrow>
                                       case getIncident (get_again e) i w1 of
                                         Inl f \<Rightarrow> (w2, Inl NilDeref)
                                       | Inr d' \<Rightarrow> succeed 200 act (filterResponseLogEntry d') w2))"

text \<open>The positional update of the first entry with the identifier.\<close>

fun mark_deleted :: "string \<Rightarrow> log_note list \<Rightarrow> log_note list" where
  "mark_deleted i [] = []"
| "mark_deleted i (n # ns) = (if n_Id n = i then n\<lparr>n_Deleted := True\<rparr> # ns else n # mark_deleted i ns)"

definition DeleteLogEntry :: "req_env \<Rightarrow> string option \<Rightarrow> string option \<Rightarrow> web_state \<Rightarrow> web_state \<times> answer res" where
  "DeleteLogEntry e pid lid w =
     (if \<not> allowed e ''DELETE_NOTE'' then deny ''DELETE_NOTE'' w
      else
        case (pid, lid) of
          (Some i, Some l) \<Rightarrow>
            (case getIncident (get_fault e) i w of
               Inl f \<Rightarrow> not_read ''DELETE_NOTE'' f w
             | Inr d \<Rightarrow>
                 if d_State d = Incident_Closed then locked ''DELETE_NOTE'' w
                 else
                   case find (\<lambda>n. n_Id n = l) (d_Log d) of
                     None \<Rightarrow> (audit ''DELETE_NOTE'' ''FAIL_NOTFOUND'' w, Inr (404, []))
                   | Some n \<Rightarrow>
                       (case (if n_Type n \<noteq> ''TRACK'' then (w, Inr True)
                              else
                                case n_Entity n of
                                  None \<Rightarrow> (w, Inl NilDeref)
                                | Some (t, k) \<Rightarrow>
                                    (case removeFromRegistry i k w of
                                       (w1, Inl f) \<Rightarrow> (w1, Inr False)
                                     | (w1, Inr _) \<Rightarrow> (sendTrackExReq e k (- 1) w1, Inr True))) of
                          (w1, Inl f) \<Rightarrow> (w1, Inl f)
                        | (w1, Inr False) \<Rightarrow> failed ''DELETE_NOTE'' w1
                        | (w1, Inr True) \<Rightarrow>
                            let d' = d\<lparr>d_Log := mark_deleted l (d_Log d)\<rparr> in
                            (case update_fault e of
                               Some f \<Rightarrow> failed ''DELETE_NOTE'' w1
                             | None \<Rightarrow>
                                 let w2 = w1\<lparr>incidents := AList.map_entry i (d_Log_update (mark_deleted l)) (incidents w1)\<rparr> in
                                 if note_fault e \<noteq> None then failed ''DELETE_NOTE'' w2
                                 else succeed 200 ''DELETE_NOTE'' (filterResponseLogEntry d') w2)))
        | _ \<Rightarrow> invalid ''DELETE_NOTE'' w)"

text \<open>\<open>e'\<close> is the environment of the second call.\<close>

definition UpdateLogEntry ::
  "req_env \<Rightarrow> req_env \<Rightarrow> string option \<Rightarrow> string option \<Rightarrow> log_note option \<Rightarrow> web_state \<Rightarrow> web_state \<times> answer res"
where
  "UpdateLogEntry e e' pid lid body w =
     (if \<not> allowed_class e then deny ''ANY'' w
      else
        case body of
          None \<Rightarrow> invalid ''ANY'' w
        | Some n \<Rightarrow>
            (case DeleteLogEntry e pid lid w of
               (w1, Inl f) \<Rightarrow> (w1, Inl f)
             | (w1, Inr (code, ds)) \<Rightarrow>
                 if code = 200 then CreateLogEntry e' pid (Some n) w1 else (w1, Inr (code, []))))"

text \<open>\<^verbatim>\<open>UpdateState\<close> gets the incident from the attribute \<^verbatim>\<open>Update\<close> set, or the identifier and the state from the path.\<close>

datatype state_source = Attribute incident_doc | Path "(string \<times> incident_state) option"

definition action_note :: "req_env \<Rightarrow> string \<Rightarrow> string \<Rightarrow> string \<Rightarrow> log_note" where
  "action_note e i ty txt =
     \<lparr>n_Id = i, n_Timestamp = Some (req_time e), n_Type = ty, n_Note = txt, n_Attachment = None, n_Entity = None,
      n_Deleted = False, n_Assigned = False\<rparr>"

definition change_state :: "req_env \<Rightarrow> incident_doc \<Rightarrow> bool \<Rightarrow> web_state \<Rightarrow> web_state \<times> answer res" where
  "change_state e req fromAttribute w =
     (case getIncident (get_fault e) (d_Id req) w of
        Inl f \<Rightarrow> not_read ''CLOSE'' f w
      | Inr orig \<Rightarrow>
          let req1 = (if locked_state (d_State req) then req\<lparr>d_Log := d_Log orig\<rparr> else req);
              req2 = (if fromAttribute then req1 else orig\<lparr>d_State := d_State req\<rparr>) in
          if d_State orig = d_State req then (audit ''CLOSE'' ''SUCCESS_NOTMODIFIED'' w, Inr (304, [req2]))
          else
            let opening = (d_State req2 = Incident_Open);
                act = (if opening then ''OPEN'' else ''CLOSE'') in
            (case extend_tracks e None (if opening then 1 else - 1) (d_Log req2) w of
               (w1, Inl f) \<Rightarrow> (w1, Inl f)
             | (w1, Inr _) \<Rightarrow>
                 let req3 = req2\<lparr>d_Log := d_Log req2 @ [action_note e (hd (fresh e)) (''ACTION_'' @ act) '''']\<rparr> in
                 (case misc_Upsert e (d_Id req3) req3 w1 of
                    (w2, Inl f) \<Rightarrow> failed act w2
                  | (w2, Inr _) \<Rightarrow> succeed 200 act (filterResponseLogEntry req3) w2)))"

definition UpdateState :: "req_env \<Rightarrow> state_source \<Rightarrow> web_state \<Rightarrow> web_state \<times> answer res" where
  "UpdateState e src w =
     (if \<not> allowed e ''CLOSE'' then deny ''CLOSE'' w
      else
        case src of
          Attribute d \<Rightarrow> change_state e d True w
        | Path None \<Rightarrow> invalid ''CLOSE'' w
        | Path (Some (i, s)) \<Rightarrow>
            change_state e
              \<lparr>d_Id = i, d_IncidentId = '''', d_Name = '''', d_Type = '''', d_Phase = 0, d_State = s, d_Assignee = '''', d_Commander = '''',
               d_Outcome = '''', d_Synopsis = '''', d_Log = []\<rparr> False w)"

text \<open>The audit entries of a change of the assignee or commander.\<close>

definition reassigned :: "string \<Rightarrow> web_state \<Rightarrow> web_state" where
  "reassigned old w = audit ''ASSIGN'' ''SUCCESS'' (if old = '''' then w else audit ''UNASSIGN'' ''SUCCESS'' w)"

definition Update :: "req_env \<Rightarrow> string option \<Rightarrow> incident_doc option \<Rightarrow> web_state \<Rightarrow> web_state \<times> answer res" where
  "Update e pid body w =
     (if \<not> allowed e ''UPDATE'' then deny ''UPDATE'' w
      else
        case (pid, body) of
          (Some i, Some req) \<Rightarrow>
            if d_State req = Incident_Closed then
              (if close_valid e req then UpdateState e (Attribute req) w else invalid ''UPDATE'' w)
            else
              (case getIncident (get_fault e) i w of
                 Inl f \<Rightarrow> not_read ''UPDATE'' f w
               | Inr d \<Rightarrow>
                   let (req1, w1) = processLogEntryWithOriginal e (tl (fresh e)) (req\<lparr>d_IncidentId := d_IncidentId d\<rparr>) d w;
                       (req2, w2) =
                         (if d_State d \<noteq> d_State req then
                            (req1\<lparr>d_Log := d_Log req1 @ [action_note e (hd (fresh e)) ''ACTION_OPEN'' (''Re-opened as '' @ d_IncidentId req1)]\<rparr>,
                             audit ''OPEN'' ''SUCCESS'' w1)
                          else (req1, w1)) in
                   if d_Assignee d \<noteq> d_Assignee req \<and> \<not> validateIncidentUserRoleByString e (d_Assignee req) then invalid ''UPDATE'' w2
                   else
                     let w3 = (if d_Assignee d \<noteq> d_Assignee req then reassigned (d_Assignee d) w2 else w2) in
                     if d_Commander d \<noteq> d_Commander req \<and> \<not> validateIncidentUserRoleByString e (d_Commander req) then invalid ''UPDATE'' w3
                     else
                       let w4 = (if d_Commander d \<noteq> d_Commander req then reassigned (d_Commander d) w3 else w3) in
                       (case misc_Upsert e i req2 w4 of
                          (w5, Inl f) \<Rightarrow> failed ''UPDATE'' w5
                        | (w5, Inr _) \<Rightarrow> succeed 200 ''UPDATE'' (filterResponseLogEntry req2) w5))
        | _ \<Rightarrow> invalid ''UPDATE'' w)"

definition Assign :: "req_env \<Rightarrow> string option \<Rightarrow> string option \<Rightarrow> web_state \<Rightarrow> web_state \<times> answer res" where
  "Assign e pid user w =
     (if \<not> allowed e ''ASSIGN'' then deny ''ASSIGN'' w
      else
        case (pid, user) of
          (Some i, Some u) \<Rightarrow>
            (case getIncident (get_fault e) i w of
               Inl f \<Rightarrow> not_read ''ASSIGN'' f w
             | Inr d \<Rightarrow>
                 if d_Assignee d = u then (audit ''ASSIGN'' ''SUCCESS_NOTMODIFIED'' w, Inr (304, [d]))
                 else
                   let d1 = d\<lparr>d_Assignee := u\<rparr> in
                   if validateUserRole e d1 \<noteq> [] then invalid ''ASSIGN'' w
                   else
                     (case misc_Upsert e i d1 w of
                        (w1, Inl f) \<Rightarrow> failed ''ASSIGN'' w1
                      | (w1, Inr _) \<Rightarrow>
                          succeed 200 ''ASSIGN'' (filterResponseLogEntry (d1\<lparr>d_Id := i\<rparr>)) (audit ''UNASSIGN'' ''SUCCESS'' w1)))
        | _ \<Rightarrow> invalid ''ASSIGN'' w)"

definition Delete :: "req_env \<Rightarrow> string option \<Rightarrow> web_state \<Rightarrow> web_state \<times> answer res" where
  "Delete e pid w =
     (if \<not> allowed e ''DELETE'' then deny ''DELETE'' w
      else
        case pid of
          None \<Rightarrow> invalid ''DELETE'' w
        | Some i \<Rightarrow>
            case misc_Delete ''prisma.tms.moc.Incident'' (\<lambda>_. False) i of
              Inl f \<Rightarrow> failed ''DELETE'' w
            | Inr _ \<Rightarrow> (audit ''DELETE'' ''SUCCESS'' w, Inr (200, [])))"

section \<open>Sequences of requests\<close>

datatype inc_request =
    Req_read_all
  | Req_read "string option" "string option"
  | Req_create "incident_doc option"
  | Req_add "string option" "log_note option"
  | Req_remove "string option" "string option"
  | Req_change req_env "string option" "string option" "log_note option"
  | Req_update "string option" "incident_doc option"
  | Req_state "(string \<times> incident_state) option"
  | Req_assign "string option" "string option"
  | Req_delete "string option"

fun serve_request :: "req_env \<Rightarrow> inc_request \<Rightarrow> web_state \<Rightarrow> web_state \<times> answer res" where
  "serve_request e Req_read_all w = ReadAll e w"
| "serve_request e (Req_read pid del) w = ReadOne e pid del w"
| "serve_request e (Req_create body) w = Create e body w"
| "serve_request e (Req_add pid body) w = CreateLogEntry e pid body w"
| "serve_request e (Req_remove pid lid) w = DeleteLogEntry e pid lid w"
| "serve_request e (Req_change e' pid lid body) w = UpdateLogEntry e e' pid lid body w"
| "serve_request e (Req_update pid body) w = Update e pid body w"
| "serve_request e (Req_state s) w = UpdateState e (Path s) w"
| "serve_request e (Req_assign pid user) w = Assign e pid user w"
| "serve_request e (Req_delete pid) w = Delete e pid w"

definition serve_all :: "(req_env \<times> inc_request) list \<Rightarrow> web_state \<Rightarrow> web_state" where
  "serve_all rs w = fold (\<lambda>(e, r) w. fst (serve_request e r w)) rs w"

fun needs :: "inc_request \<Rightarrow> string" where
  "needs Req_read_all = ''READ''"
| "needs (Req_read _ _) = ''READ''"
| "needs (Req_create _) = ''CREATE''"
| "needs (Req_add _ _) = ''ADD_NOTE''"
| "needs (Req_remove _ _) = ''DELETE_NOTE''"
| "needs (Req_change _ _ _ _) = ''DELETE_NOTE''"
| "needs (Req_update _ _) = ''UPDATE''"
| "needs (Req_state _) = ''CLOSE''"
| "needs (Req_assign _ _) = ''ASSIGN''"
| "needs (Req_delete _) = ''DELETE''"

lemmas answer_defs = deny_def invalid_def failed_def not_read_def locked_def audit_def

text \<open>
  A user without the permission a request needs gets an answer with an error and changes nothing but the audit trail.
\<close>

theorem forbidden_changes_nothing:
  assumes "\<not> allowed e (needs r)"
  shows "\<exists>w' code. serve_request e r w = (w', Inr (code, [])) \<and> code \<in> {400, 403} \<and> w'\<lparr>audits := audits w\<rparr> = w"
  using assms
  by (cases r)
    (auto simp: ReadAll_def ReadOne_def Create_def CreateLogEntry_def DeleteLogEntry_def UpdateLogEntry_def Update_def UpdateState_def
      Assign_def Delete_def answer_defs split: option.splits)

section \<open>Reading and writing the collection\<close>

lemma filter_key: "filter (\<lambda>(k, d). k = i) xs = [] \<longleftrightarrow> map_of xs i = None" "map_of xs i = Some d \<Longrightarrow> \<exists>ys. filter (\<lambda>(k, d). k = i) xs = (i, d) # ys"
  by (induction xs) (auto split: if_splits)

lemma getIncident_map_of:
  assumes "IsObjectIdHex i"
  shows "getIncident None i w = (case map_of (incidents w) i of None \<Rightarrow> Inl ErrorNotFound | Some d \<Rightarrow> Inr (d\<lparr>d_Id := i\<rparr>))"
proof -
  have "i \<noteq> ''''" using assms by (auto simp: IsObjectIdHex_def)
  then show ?thesis
    using assms filter_key(1)[of i "incidents w"] filter_key(2)[of "incidents w" i]
    by (cases "map_of (incidents w) i") (force simp: getIncident_def misc_Get_def)+
qed

lemma getIncident_Some:
  assumes "getIncident f i w = Inr d" "IsObjectIdHex i"
  shows "\<exists>d'. map_of (incidents w) i = Some d' \<and> d = d'\<lparr>d_Id := i\<rparr>"
proof -
  have "f = None" using assms(1) by (auto simp: getIncident_def misc_Get_def rbind_eq_Inr split: if_splits option.splits)
  then show ?thesis using assms getIncident_map_of[OF assms(2), of w] by (auto split: option.splits)
qed

lemma getIncident_hex: "getIncident f i w = Inr d \<Longrightarrow> i \<noteq> '''' \<Longrightarrow> IsObjectIdHex i"
  by (auto simp: getIncident_def misc_Get_def split: if_splits)

lemma misc_Upsert_ok:
  "upsert_fault e = None \<Longrightarrow> misc_Upsert e i d w =
     (w\<lparr>incidents := AList.update (if i = '''' then new_doc_id e else i) d (incidents w)\<rparr>, Inr (if i = '''' then new_doc_id e else i))"
  by (simp add: misc_Upsert_def Let_def)


section \<open>Tracks of an incident\<close>

definition track_ids :: "log_note list \<Rightarrow> string list" where
  "track_ids ns = map (\<lambda>n. snd (the (n_Entity n))) (filter (\<lambda>n. n_Type n = ''TRACK'') ns)"

definition tracks_named :: "log_note list \<Rightarrow> bool" where
  "tracks_named ns \<longleftrightarrow> (\<forall>n \<in> set ns. n_Type n = ''TRACK'' \<longrightarrow> n_Entity n \<noteq> None)"

lemma registry_incidents [simp]:
  "incidents (fst (addToRegistry a b w)) = incidents w" "ext_sent (fst (addToRegistry a b w)) = ext_sent w"
  by (auto simp: addToRegistry_def split: option.splits)

lemma sendTrackExReq_fields [simp]: "incidents (sendTrackExReq e i n w) = incidents w" "published (sendTrackExReq e i n w) = published w"
  by (auto simp: sendTrackExReq_def split: option.splits)

lemma extend_tracks_incidents: "incidents (fst (extend_tracks e reg n ns w)) = incidents w"
  by (induction e reg n ns w rule: extend_tracks.induct) (auto simp: Let_def split: option.splits)

lemma extend_tracks_sent:
  assumes "tracks_named ns" "pack_fault e = None"
  shows "snd (extend_tracks e reg n ns w) = Inr () \<and> ext_sent (fst (extend_tracks e reg n ns w)) = ext_sent w @ map (\<lambda>i. (i, n)) (track_ids ns)"
  using assms
proof (induction e reg n ns w rule: extend_tracks.induct)
  case (2 e reg n entry es w)
  then show ?case
    by (cases "n_Entity entry") (auto simp: tracks_named_def track_ids_def sendTrackExReq_def Let_def split: option.splits)
qed (simp add: track_ids_def)

section \<open>Track extensions are balanced\<close>

definition weight :: "string \<Rightarrow> incident_doc \<Rightarrow> int" where
  "weight t d = (if d_State d = Incident_Open then int (count_list (track_ids (d_Log d)) t) else 0)"

definition requested :: "string \<Rightarrow> web_state \<Rightarrow> int" where
  "requested t w = sum_list (map (\<lambda>(i, n). if i = t then n else 0) (ext_sent w))"

definition open_tracks :: "string \<Rightarrow> web_state \<Rightarrow> int" where
  "open_tracks t w = sum_list (map (\<lambda>(k, d). weight t d) (incidents w))"

text \<open>At no time has more of a track been taken back than was requested.\<close>

definition never_short :: "(string \<times> int) list \<Rightarrow> bool" where
  "never_short xs \<longleftrightarrow> (\<forall>t k. 0 \<le> sum_list (map (\<lambda>(i, n). if i = t then n else 0) (take k xs)))"

definition steady :: "web_state \<Rightarrow> bool" where
  "steady w \<longleftrightarrow> distinct (map fst (incidents w)) \<and>
     (\<forall>(k, d) \<in> set (incidents w). (d_State d = Incident_Open \<or> d_State d = Incident_Closed) \<and> tracks_named (d_Log d)) \<and>
     (\<forall>(i, n) \<in> set (ext_sent w). n = 1 \<or> n = - 1) \<and>
     (\<forall>t. requested t w = open_tracks t w) \<and> never_short (ext_sent w)"

text \<open>The requests that keep the balance: the database and the packing work, no entry is removed, incidents are opened and closed.\<close>

fun orderly :: "req_env \<times> inc_request \<Rightarrow> web_state \<Rightarrow> bool" where
  "orderly (e, r) w \<longleftrightarrow> upsert_fault e = None \<and> pack_fault e = None \<and>
     (case r of
        Req_create (Some d) \<Rightarrow> tracks_named (d_Log d) \<and> new_doc_id e \<notin> fst ` set (incidents w)
      | Req_add (Some i) (Some n) \<Rightarrow> i \<noteq> '''' \<and> tracks_named [n]
      | Req_state (Some (i, s)) \<Rightarrow> i \<noteq> '''' \<and> (s = Incident_Open \<or> s = Incident_Closed)
      | Req_assign (Some i) _ \<Rightarrow> i \<noteq> ''''
      | Req_remove _ _ \<Rightarrow> False
      | Req_change _ _ _ _ \<Rightarrow> False
      | Req_update _ _ \<Rightarrow> False
      | _ \<Rightarrow> True)"

lemma sum_update:
  assumes "distinct (map fst xs)"
  shows "sum_list (map (\<lambda>(k, d). f d) (AList.update i v xs)) =
    sum_list (map (\<lambda>(k, d). f d) xs) - (case map_of xs i of None \<Rightarrow> 0 | Some d \<Rightarrow> f d) + (f v :: int)"
  using assms by (induction xs) (auto split: option.splits simp: map_of_eq_None_iff image_iff)

lemma weight_id [simp]: "weight t (d\<lparr>d_Id := i\<rparr>) = weight t d" "weight t (d\<lparr>d_Assignee := u\<rparr>) = weight t d"
  by (simp_all add: weight_def)

lemma sum_requests: "sum_list (map (\<lambda>(i, n). if i = t then n else 0) (map (\<lambda>i. (i, n)) is)) = n * int (count_list is t)"
  by (induction "is") (auto simp: algebra_simps)

lemma requested_append:
  "ext_sent w' = ext_sent w @ map (\<lambda>i. (i, n)) is \<Longrightarrow> requested t w' = requested t w + n * int (count_list is t)"
  using sum_requests[of t n "is"] by (simp add: requested_def)

lemma set_update_subset: "set (AList.update k v xs) \<subseteq> insert (k, v) (set xs)"
  by (induction xs) auto

lemma open_tracks_nonneg: "0 \<le> open_tracks t w"
  unfolding open_tracks_def by (rule sum_list_nonneg) (auto simp: weight_def)

lemma count_list_take: "count_list (take m xs) t \<le> count_list xs t"
  by (metis append_take_drop_id count_list_append le_add1)

lemma never_short_append:
  assumes "never_short xs" "n = 1 \<or> n = - 1" "\<And>t. 0 \<le> sum_list (map (\<lambda>(i, m). if i = t then m else 0) (xs @ map (\<lambda>i. (i, n)) is))"
  shows "never_short (xs @ map (\<lambda>i. (i, n)) is)"
  unfolding never_short_def
proof (intro allI)
  fix t :: string and k
  let ?sum = "\<lambda>xs. sum_list (map (\<lambda>(i, m). if i = t then m else 0) xs)"
  have "?sum (take k (xs @ map (\<lambda>i. (i, n)) is)) = ?sum (take k xs) + n * int (count_list (take (k - length xs) is) t)"
    using sum_requests[of t n "take (k - length xs) is"] by (simp add: take_map)
  moreover have "0 \<le> ?sum (take k xs)" "0 \<le> ?sum xs"
    using assms(1) unfolding never_short_def by (blast, metis take_all order_refl)
  moreover have "0 \<le> ?sum xs + n * int (count_list is t)" using assms(3)[of t] sum_requests[of t n "is"] by simp
  moreover have "k < length xs \<Longrightarrow> take (k - length xs) is = []" "length xs \<le> k \<Longrightarrow> take k xs = xs" by simp_all
  ultimately show "0 \<le> ?sum (take k (xs @ map (\<lambda>i. (i, n)) is))"
    using assms(2) count_list_take[of "k - length xs" "is" t] by (cases "k < length xs") auto
qed

text \<open>A request that stores \<open>d'\<close> for \<open>d\<close> and sends the difference keeps the balance.\<close>

lemma steady_put:
  assumes "steady w" "incidents w' = AList.update k d' (incidents w)"
    "d_State d' = Incident_Open \<or> d_State d' = Incident_Closed" "tracks_named (d_Log d')"
    "ext_sent w' = ext_sent w @ map (\<lambda>i. (i, n)) is" "n = 1 \<or> n = - 1"
    "\<And>t. n * int (count_list is t) = weight t d' - (case map_of (incidents w) k of None \<Rightarrow> 0 | Some d \<Rightarrow> weight t d)"
  shows "steady w'"
proof -
  have d: "distinct (map fst (incidents w))" using assms(1) by (simp add: steady_def)
  have "requested t w' = open_tracks t w'" for t
    using assms(1) requested_append[OF assms(5), of t] assms(7)[of t] sum_update[OF d, of "weight t" k d']
    by (simp add: steady_def open_tracks_def assms(2))
  moreover from this have "never_short (ext_sent w')"
    using assms(1,6) open_tracks_nonneg[of _ w'] unfolding assms(5)
    by (intro never_short_append) (auto simp: steady_def requested_def assms(5))
  ultimately show ?thesis
    using assms(1,3,4,5,6) d set_update_subset[of k d' "incidents w"] by (auto simp: steady_def assms(2) distinct_update)
qed

lemma steady_same: "steady w \<Longrightarrow> incidents w' = incidents w \<Longrightarrow> ext_sent w' = ext_sent w \<Longrightarrow> steady w'"
  by (simp add: steady_def requested_def open_tracks_def)
lemma complete_note_fields:
  "complete_note e i n = (n', k) \<Longrightarrow> n_Type n' = n_Type n \<and> n_Entity n' = n_Entity n \<and> n_Deleted n' = n_Deleted n"
  by (auto simp: complete_note_def Let_def split: option.splits sum.splits)

lemma complete_notes_same:
  "complete_notes e ids ns = (ns', k) \<Longrightarrow> track_ids ns' = track_ids ns \<and> tracks_named ns' = tracks_named ns \<and>
     map n_Deleted ns' = map n_Deleted ns"
proof (induction ns arbitrary: ids ns' k)
  case (Cons n ns)
  then show ?case
    by (auto simp: track_ids_def tracks_named_def Let_def split: prod.splits if_splits dest!: complete_note_fields)
qed simp

lemma steady_answers [simp]:
  assumes "steady w"
  shows "steady (fst (deny a w))" "steady (fst (invalid a w))" "steady (fst (failed a w))" "steady (fst (not_read a f w))"
    "steady (fst (locked a w))" "steady (audit a o' w)" "steady (audit_files k w)" "steady (fst (succeed code a d w))"
  using assms by (auto simp: answer_defs succeed_def Publish_incident_def audit_files_def intro: steady_same)

lemma steady_Create:
  assumes "steady w" "orderly (e, Req_create body) w"
  shows "steady (fst (Create e body w))"
proof (cases body)
  case None
  then show ?thesis using assms(1) by (simp add: Create_def)
next
  case (Some d)
  define d1 where "d1 = d\<lparr>d_IncidentId := reference e, d_State := Incident_Open\<rparr>"
  define opened where "opened = \<lparr>n_Id = hd (fresh e), n_Timestamp = Some (req_time e), n_Type = ''ACTION_OPEN'', n_Note = reference e,
    n_Attachment = None, n_Entity = None, n_Deleted = False, n_Assigned = True\<rparr>"
  obtain d2 w1 where p: "processLogEntry e (tl (fresh e)) (d1\<lparr>d_Log := opened # d_Log d1\<rparr>) w = (d2, w1)" by force
  obtain ns k where ns: "complete_notes e (tl (fresh e)) (opened # d_Log d) = (ns, k)" by force
  have d2: "d_State d2 = Incident_Open" "d_Log d2 = ns" "incidents w1 = incidents w" "ext_sent w1 = ext_sent w"
    using p ns by (auto simp: processLogEntry_def d1_def locked_state_def audit_files_def)
  have o: "tracks_named (d_Log d)" "map_of (incidents w) (new_doc_id e) = None" "upsert_fault e = None" "pack_fault e = None"
    using assms(2) Some by (simp_all add: map_of_eq_None_iff)
  have t: "tracks_named ns" "track_ids ns = track_ids (d_Log d)"
    using complete_notes_same[OF ns] o(1) by (auto simp: tracks_named_def track_ids_def opened_def)
  define w2 where "w2 = w1\<lparr>incidents := AList.update (new_doc_id e) d2 (incidents w1)\<rparr>"
  obtain w3 where w3: "extend_tracks e (Some (new_doc_id e)) 1 ns w2 = (w3, Inr ())" "ext_sent w3 = ext_sent w2 @ map (\<lambda>i. (i, 1)) (track_ids ns)"
      "incidents w3 = incidents w2"
    using extend_tracks_sent[OF t(1) o(4), of "Some (new_doc_id e)" 1 w2] extend_tracks_incidents[of e "Some (new_doc_id e)" 1 ns w2]
    by (cases "extend_tracks e (Some (new_doc_id e)) 1 ns w2") auto
  have "steady w3"
    using w3(2,3) d2 t(1) o(2) by (intro steady_put[OF assms(1), of _ "new_doc_id e" d2 1 "track_ids ns"]) (simp_all add: w2_def weight_def)
  moreover have "Create e body w = (if \<not> allowed e ''CREATE'' then deny ''CREATE'' w else if validateUserRole e d1 \<noteq> [] then invalid ''CREATE'' w
      else succeed 201 ''CREATE'' (d2\<lparr>d_Id := new_doc_id e\<rparr>) w3)"
    using Some p w3(1) d2(2) o(3) by (simp add: Create_def misc_Upsert_ok w2_def Let_def d1_def[symmetric] opened_def[symmetric])
  ultimately show ?thesis using assms(1) by simp
qed
lemma fst_succeed [simp]: "incidents (fst (succeed code a d w)) = incidents w" "ext_sent (fst (succeed code a d w)) = ext_sent w"
  by (simp_all add: succeed_def Publish_incident_def audit_def)

lemma fst_answers [simp]:
  "incidents (fst (deny a w)) = incidents w" "ext_sent (fst (deny a w)) = ext_sent w"
  "incidents (fst (invalid a w)) = incidents w" "ext_sent (fst (invalid a w)) = ext_sent w"
  "incidents (fst (failed a w)) = incidents w" "ext_sent (fst (failed a w)) = ext_sent w"
  "incidents (fst (not_read a f w)) = incidents w" "ext_sent (fst (not_read a f w)) = ext_sent w"
  "incidents (fst (locked a w)) = incidents w" "ext_sent (fst (locked a w)) = ext_sent w"
  "incidents (audit a o' w) = incidents w" "ext_sent (audit a o' w) = ext_sent w"
  by (simp_all add: answer_defs)

text \<open>A request to add an entry leaves the collection alone or appends one entry and extends its track.\<close>

lemma CreateLogEntry_effect:
  fixes w :: web_state and body :: "log_note option"
  assumes "upsert_fault e = None" "i \<noteq> ''''"
  defines "w' \<equiv> fst (CreateLogEntry e (Some i) body w)"
  shows "incidents w' = incidents w \<and> ext_sent w' = ext_sent w \<or>
    (\<exists>d n0 n w1. body = Some n0 \<and> getIncident (get_fault e) i w = Inr d \<and> d_State d \<noteq> Incident_Closed \<and> n_Type n = n_Type n0 \<and> n_Entity n = n_Entity n0 \<and>
       w1 = w\<lparr>incidents := AList.update i (d\<lparr>d_Log := d_Log d @ [n]\<rparr>) (incidents w)\<rparr> \<and>
       incidents w' = incidents w1 \<and> ext_sent w' = ext_sent (fst (extend_tracks e (Some i) 1 [n] w1)))"
proof (cases "getIncident (get_fault e) i w")
  case (Inr d)
  note g = this
  show ?thesis
  proof (cases "body = None \<or> \<not> allowed e ''ADD_NOTE'' \<or> d_State d = Incident_Closed")
    case False
    then obtain n0 where n0: "body = Some n0" by auto
    define n1 where "n1 = n0\<lparr>n_Id := hd (fresh e), n_Timestamp := Some (req_time e), n_Assigned := True\<rparr>"
    define r where "r = (case n_Attachment n1 of None \<Rightarrow> Inr n1
      | Some a \<Rightarrow> rbind (populateFileMetadata e a) (\<lambda>a'. Inr (n1\<lparr>n_Attachment := Some a'\<rparr>)))"
    show ?thesis
    proof (cases r)
      case (Inl f)
      then show ?thesis using g False n0 by (simp add: w'_def CreateLogEntry_def Let_def n1_def[symmetric] r_def[symmetric])
    next
      case (Inr n)
      have n: "n_Type n = n_Type n0" "n_Entity n = n_Entity n0"
        using Inr by (auto simp: r_def n1_def rbind_eq_Inr split: option.splits)
      let ?w1 = "w\<lparr>incidents := AList.update i (d\<lparr>d_Log := d_Log d @ [n]\<rparr>) (incidents w)\<rparr>"
      have "incidents w' = incidents w \<and> ext_sent w' = ext_sent w \<or>
          incidents w' = incidents ?w1 \<and> ext_sent w' = ext_sent (fst (extend_tracks e (Some i) 1 [n] ?w1))"
        using g False n0 Inr assms(1,2) extend_tracks_incidents[of e "Some i" 1 "[n]" ?w1]
        by (auto simp: w'_def CreateLogEntry_def Let_def n1_def[symmetric] r_def[symmetric] misc_Upsert_ok
            simp del: extend_tracks.simps split: option.splits sum.splits bool.splits prod.splits)
      then show ?thesis using n g False n0 by blast
    qed
  qed (use g in \<open>auto simp: w'_def CreateLogEntry_def\<close>)
qed (auto simp: w'_def CreateLogEntry_def)

lemma CreateLogEntry_no_body:
  "incidents (fst (CreateLogEntry e (Some i) None w)) = incidents w \<and> ext_sent (fst (CreateLogEntry e (Some i) None w)) = ext_sent w"
  by (cases "getIncident (get_fault e) i w") (simp_all add: CreateLogEntry_def)

lemma steady_add:
  assumes "steady w" "orderly (e, Req_add (Some i) body) w"
  shows "steady (fst (CreateLogEntry e (Some i) body w))"
proof -
  let ?w = "fst (CreateLogEntry e (Some i) body w)"
  have i: "body = None \<or> i \<noteq> ''''" and u: "upsert_fault e = None" "pack_fault e = None" using assms(2) by (auto split: option.splits)
  show ?thesis
  proof (cases "incidents ?w = incidents w \<and> ext_sent ?w = ext_sent w")
    case False
    then have b: "body \<noteq> None" using CreateLogEntry_no_body[of e i w] by (cases body) auto
    with i have ni: "i \<noteq> ''''" by simp
    obtain d n0 n where d: "body = Some n0" "getIncident (get_fault e) i w = Inr d" "d_State d \<noteq> Incident_Closed"
        "n_Type n = n_Type n0" "n_Entity n = n_Entity n0" "incidents ?w = AList.update i (d\<lparr>d_Log := d_Log d @ [n]\<rparr>) (incidents w)"
        "ext_sent ?w = ext_sent (fst (extend_tracks e (Some i) 1 [n] (w\<lparr>incidents := AList.update i (d\<lparr>d_Log := d_Log d @ [n]\<rparr>) (incidents w)\<rparr>)))"
      using CreateLogEntry_effect[OF u(1) ni, of body w] False by auto
    obtain d0 where d0: "map_of (incidents w) i = Some d0" "d = d0\<lparr>d_Id := i\<rparr>"
      using getIncident_Some[OF d(2) getIncident_hex[OF d(2) ni]] by auto
    have st: "d_State d0 = Incident_Open" "tracks_named (d_Log d0)"
      using assms(1) map_of_SomeD[OF d0(1)] d(3) d0(2) by (auto simp: steady_def)
    have tn: "tracks_named [n]" using assms(2) d(1,4,5) by (simp add: tracks_named_def)
    have "ext_sent ?w = ext_sent w @ map (\<lambda>i. (i, 1)) (track_ids [n])"
      using extend_tracks_sent[OF tn u(2)] d(7) by simp
    from steady_put[OF assms(1) d(6) _ _ this] show ?thesis
      using st tn d0 by (simp add: weight_def track_ids_def tracks_named_def)
  qed (use assms(1) in \<open>auto intro: steady_same\<close>)
qed
lemma tracks_action [simp]:
  assumes "ty \<noteq> ''TRACK''"
  shows "track_ids (ns @ [action_note e i ty x]) = track_ids ns" "tracks_named (ns @ [action_note e i ty x]) = tracks_named ns"
  using assms by (auto simp: track_ids_def tracks_named_def action_note_def)

text \<open>A change of the state stores the new state with an entry about it and sends one request for every track of the log.\<close>

lemma state_changed:
  assumes "getIncident (get_fault e) i w = Inr d" "d_State d \<noteq> s" "tracks_named (d_Log d)" "upsert_fault e = None" "pack_fault e = None"
    "i \<noteq> ''''" "allowed e ''CLOSE''"
  shows "\<exists>w1 d' act. UpdateState e (Path (Some (i, s))) w = succeed 200 act (filterResponseLogEntry d') w1 \<and>
    incidents w1 = AList.update i d' (incidents w) \<and> d_State d' = s \<and>
    d_Log d' = d_Log d @ [action_note e (hd (fresh e)) (''ACTION_'' @ act) ''''] \<and>
    ext_sent w1 = ext_sent w @ map (\<lambda>t. (t, if s = Incident_Open then 1 else - 1)) (track_ids (d_Log d))"
proof -
  define n where "n = (if s = Incident_Open then 1 else - 1 :: int)"
  define act where "act = (if s = Incident_Open then ''OPEN'' else ''CLOSE'')"
  define d' where "d' = d\<lparr>d_State := s, d_Log := d_Log d @ [action_note e (hd (fresh e)) (''ACTION_'' @ act) '''']\<rparr>"
  have id: "d_Id d = i"
    using getIncident_Some[OF assms(1) getIncident_hex[OF assms(1,6)]] by auto
  obtain w1 where w1: "extend_tracks e None n (d_Log d) w = (w1, Inr ())" "ext_sent w1 = ext_sent w @ map (\<lambda>i. (i, n)) (track_ids (d_Log d))"
      "incidents w1 = incidents w"
    using extend_tracks_sent[OF assms(3,5), of None n w] extend_tracks_incidents[of e None n "d_Log d" w]
    by (cases "extend_tracks e None n (d_Log d) w") auto
  have "UpdateState e (Path (Some (i, s))) w = succeed 200 act (filterResponseLogEntry d') (w1\<lparr>incidents := AList.update i d' (incidents w1)\<rparr>)"
    using assms w1(1) id by (simp add: UpdateState_def change_state_def Let_def misc_Upsert_ok d'_def act_def n_def)
  then show ?thesis
    using w1(2,3) by (intro exI[of _ "w1\<lparr>incidents := AList.update i d' (incidents w1)\<rparr>"] exI[of _ d'] exI[of _ act]) (simp add: d'_def n_def)
qed

lemma steady_state:
  assumes "steady w" "orderly (e, Req_state (Some (i, s))) w"
  shows "steady (fst (UpdateState e (Path (Some (i, s))) w))"
proof -
  have o: "upsert_fault e = None" "pack_fault e = None" "i \<noteq> ''''" "s = Incident_Open \<or> s = Incident_Closed"
    using assms(2) by simp_all
  show ?thesis
  proof (cases "allowed e ''CLOSE'' \<and> (\<exists>d. getIncident (get_fault e) i w = Inr d \<and> d_State d \<noteq> s)")
    case True
    then obtain d where d: "getIncident (get_fault e) i w = Inr d" "d_State d \<noteq> s" and a: "allowed e ''CLOSE''" by auto
    obtain d0 where d0: "map_of (incidents w) i = Some d0" "d = d0\<lparr>d_Id := i\<rparr>"
      using getIncident_Some[OF d(1) getIncident_hex[OF d(1) o(3)]] by auto
    have st: "d_State d0 = Incident_Open \<or> d_State d0 = Incident_Closed" "tracks_named (d_Log d0)"
      using assms(1) map_of_SomeD[OF d0(1)] by (auto simp: steady_def)
    obtain w1 d' act where w1: "UpdateState e (Path (Some (i, s))) w = succeed 200 act (filterResponseLogEntry d') w1"
        "incidents w1 = AList.update i d' (incidents w)" "d_State d' = s"
        "d_Log d' = d_Log d @ [action_note e (hd (fresh e)) (''ACTION_'' @ act) '''']"
        "ext_sent w1 = ext_sent w @ map (\<lambda>t. (t, if s = Incident_Open then 1 else - 1)) (track_ids (d_Log d))"
      using state_changed[OF d _ o(1,2,3) a] st(2) d0(2) by auto
    from steady_put[OF assms(1) w1(2) _ _ w1(5)] have "steady w1"
      using st d(2) d0 w1(3,4) o(4) by (auto simp: weight_def)
    then show ?thesis using w1(1) by simp
  next
    case False
    then show ?thesis
      using assms(1) by (cases "getIncident (get_fault e) i w") (auto simp: UpdateState_def change_state_def Let_def)
  qed
qed

lemma steady_assign:
  assumes "steady w" "orderly (e, Req_assign (Some i) user) w"
  shows "steady (fst (Assign e (Some i) user w))"
proof (cases "getIncident (get_fault e) i w")
  case (Inr d)
  have o: "upsert_fault e = None" "i \<noteq> ''''" using assms(2) by simp_all
  obtain d0 where d0: "map_of (incidents w) i = Some d0" "d = d0\<lparr>d_Id := i\<rparr>"
    using getIncident_Some[OF Inr getIncident_hex[OF Inr o(2)]] by auto
  have st: "d_State d0 = Incident_Open \<or> d_State d0 = Incident_Closed" "tracks_named (d_Log d0)"
    using assms(1) map_of_SomeD[OF d0(1)] by (auto simp: steady_def)
  have "steady (w\<lparr>incidents := AList.update i (d\<lparr>d_Assignee := u\<rparr>) (incidents w)\<rparr>)" for u
    using st d0 by (intro steady_put[OF assms(1), of _ i "d\<lparr>d_Assignee := u\<rparr>" 1 "[]"]) simp_all
  then show ?thesis
    using assms(1) Inr o by (auto simp: Assign_def misc_Upsert_ok Let_def split: option.splits)
qed (use assms(1) in \<open>auto simp: Assign_def split: option.splits\<close>)

lemma steady_request:
  assumes "steady w" "orderly (e, r) w"
  shows "steady (fst (serve_request e r w))"
proof (cases r)
  case (Req_add pid body)
  show ?thesis
  proof (cases pid)
    case (Some i)
    then show ?thesis using steady_add[OF assms(1), of e i body] assms(2) Req_add by simp
  qed (use assms(1) Req_add in \<open>simp add: CreateLogEntry_def\<close>)
next
  case (Req_state s)
  show ?thesis
  proof (cases s)
    case (Some x)
    then show ?thesis using steady_state[OF assms(1), of e "fst x" "snd x"] assms(2) Req_state by simp
  qed (use assms(1) Req_state in \<open>simp add: UpdateState_def\<close>)
next
  case (Req_assign pid user)
  show ?thesis
  proof (cases pid)
    case (Some i)
    then show ?thesis using steady_assign[OF assms(1), of e i user] assms(2) Req_assign by simp
  qed (use assms(1) Req_assign in \<open>simp add: Assign_def\<close>)
next
  case (Req_create body)
  then show ?thesis using assms steady_Create by simp
qed (use assms in \<open>auto simp: ReadAll_def ReadOne_def Delete_def split: option.splits sum.splits\<close>)

fun orderly_all :: "(req_env \<times> inc_request) list \<Rightarrow> web_state \<Rightarrow> bool" where
  "orderly_all [] w = True"
| "orderly_all (x # xs) w \<longleftrightarrow> orderly x w \<and> orderly_all xs (fst (serve_request (fst x) (snd x) w))"

definition no_incidents :: "(string \<rightharpoonup> string list) \<Rightarrow> web_state" where
  "no_incidents reg = \<lparr>incidents = [], reg_incidents = reg, ext_sent = [], published = [], audits = []\<rparr>"

lemma steady_serve_all: "steady w \<Longrightarrow> orderly_all rs w \<Longrightarrow> steady (serve_all rs w)"
proof (induction rs arbitrary: w)
  case (Cons x rs)
  then have "steady (fst (serve_request (fst x) (snd x) w))" by (intro steady_request) simp_all
  with Cons show ?case by (simp add: serve_all_def case_prod_beta)
qed (simp add: serve_all_def)

lemma steady_orderly: "orderly_all rs (no_incidents reg) \<Longrightarrow> steady (serve_all rs (no_incidents reg))"
  by (rule steady_serve_all) (simp_all add: steady_def no_incidents_def requested_def open_tracks_def never_short_def)

text \<open>C13. 
  Over any sequence of requests that create, close, reopen, assign and read incidents and add log entries, while the database works,
  the extensions requested for a track and not taken back are exactly its entries in the logs of open incidents.
\<close>

theorem track_extensions_balanced:
  assumes "orderly_all rs (no_incidents reg)"
  shows "requested t (serve_all rs (no_incidents reg)) = open_tracks t (serve_all rs (no_incidents reg))"
  using steady_orderly[OF assms] by (simp add: steady_def)

section \<open>A track is in an incident once\<close>

definition track_notes :: "log_note list \<Rightarrow> log_note list" where
  "track_notes ns = filter (\<lambda>n. n_Type n = ''TRACK'') ns"

definition note_time :: "log_note \<Rightarrow> time" where
  "note_time n = FromTimestamp (n_Timestamp n)"

lemma has_entity_exact:
  assumes "tracks_named ns" "sorted_wrt (<) (lastTime # map note_time (track_notes ns))"
  shows "has_entity ns i lastTime result =
    Inr (case filter (\<lambda>n. snd (the (n_Entity n)) = i) (track_notes ns) of [] \<Rightarrow> result | ms \<Rightarrow> \<not> n_Deleted (last ms))"
  using assms
proof (induction ns i lastTime result rule: has_entity.induct)
  case (2 n logs i lastTime result)
  show ?case
  proof (cases "n_Type n = ''TRACK''")
    case True
    then obtain t k where k: "n_Entity n = Some (t, k)" using 2(4) by (auto simp: tracks_named_def)
    have l: "lastTime < note_time n" "tracks_named logs" "sorted_wrt (<) (note_time n # map note_time (track_notes logs))"
      using 2(4,5) True by (auto simp: track_notes_def tracks_named_def)
    show ?thesis
      using 2(2)[of k] True k l(2) l(1,3)[unfolded note_time_def[of n]] by (auto simp: track_notes_def split: list.splits)
  next
    case False
    then show ?thesis using 2(1,4,5) by (auto simp: track_notes_def tracks_named_def)
  qed
qed (simp add: track_notes_def)

text \<open>
  When the track entries of a log have increasing times, a track counts as assigned exactly when its last entry is not deleted.
\<close>

theorem HasIncidentLogEntity_exact:
  assumes "tracks_named ns" "sorted_wrt (<) (zero_time # map note_time (track_notes ns))"
  shows "HasIncidentLogEntity ns i =
    Inr (case filter (\<lambda>n. snd (the (n_Entity n)) = i) (track_notes ns) of [] \<Rightarrow> False | ms \<Rightarrow> \<not> n_Deleted (last ms))"
  using has_entity_exact[OF assms] by (simp add: HasIncidentLogEntity_def)

definition track_note :: "string \<Rightarrow> int \<Rightarrow> string \<Rightarrow> bool \<Rightarrow> log_note" where
  "track_note i sec trk del =
     \<lparr>n_Id = i, n_Timestamp = Some \<lparr>Seconds = sec, Nanos = 0\<rparr>, n_Type = ''TRACK'', n_Note = '''', n_Attachment = None,
      n_Entity = Some (''registry'', trk), n_Deleted = del, n_Assigned = True\<rparr>"

theorem HasIncidentLogEntity_exact_witness:
  "HasIncidentLogEntity [track_note ''1'' 10 ''a'' True, track_note ''2'' 20 ''b'' False, track_note ''3'' 30 ''a'' False] ''a'' = Inr True"
  using HasIncidentLogEntity_exact[of "[track_note ''1'' 10 ''a'' True, track_note ''2'' 20 ''b'' False, track_note ''3'' 30 ''a'' False]" "''a''"]
  by (simp add: tracks_named_def track_notes_def note_time_def track_note_def FromTimestamp_def zero_time_def)

text \<open>Entries stored by one request have the same time, and all but the first of them are overlooked.\<close>

theorem same_time_overlooked:
  "HasIncidentLogEntity [track_note ''1'' s ''a'' False, track_note ''2'' s ''b'' False] ''b'' = Inr False"
  by (simp add: HasIncidentLogEntity_def track_note_def)

section \<open>What is stored\<close>

lemma map_of_put [simp]: "map_of (AList.update k v xs) i = (if i = k then Some v else map_of xs i)"
  by (simp add: update_conv')

text \<open>An incident that was created can be read: it is open, has the next reference and starts with the entry of its opening.\<close>

theorem created_incident_read:
  assumes "Create e (Some d) w = (w', Inr (201, [d']))" "IsObjectIdHex (new_doc_id e)"
    "allowed e' ''READ''" "get_fault e' = None" "list_all (\<lambda>n. \<not> n_Deleted n) (d_Log d)"
  shows "snd (ReadOne e' (Some (d_Id d')) (Some '''') w') = Inr (200, [d']) \<and> d_State d' = Incident_Open \<and> d_IncidentId d' = reference e \<and>
    n_Type (hd (d_Log d')) = ''ACTION_OPEN''"
proof -
  define opened where "opened = \<lparr>n_Id = hd (fresh e), n_Timestamp = Some (req_time e), n_Type = ''ACTION_OPEN'', n_Note = reference e,
    n_Attachment = None, n_Entity = None, n_Deleted = False, n_Assigned = True\<rparr>"
  define d1 where "d1 = d\<lparr>d_IncidentId := reference e, d_State := Incident_Open, d_Log := opened # d_Log d\<rparr>"
  obtain d2 w1 where p: "processLogEntry e (tl (fresh e)) d1 w = (d2, w1)" by force
  obtain ns k where ns: "complete_notes e (tl (fresh e)) (opened # d_Log d) = (ns, k)" by force
  have d2: "d2 = d1\<lparr>d_Log := ns\<rparr>" using p ns by (auto simp: processLogEntry_def d1_def locked_state_def)
  have d': "d' = d2\<lparr>d_Id := new_doc_id e\<rparr> \<and> map_of (incidents w') (new_doc_id e) = Some d2"
    using assms(1) p extend_tracks_incidents[of e "Some (new_doc_id e)" 1 "d_Log d2" "w1\<lparr>incidents := AList.update (new_doc_id e) d2 (incidents w1)\<rparr>"]
    by (auto simp: Create_def d1_def opened_def Let_def succeed_def Publish_incident_def audit_def misc_Upsert_def deny_def invalid_def failed_def
        split: if_splits option.splits sum.splits prod.splits)
  have del: "filter (\<lambda>n. \<not> n_Deleted n) ns = ns"
  proof -
    have "map n_Deleted ns = map n_Deleted (opened # d_Log d)" using complete_notes_same[OF ns] by blast
    then have "n_Deleted ` set ns = n_Deleted ` set (opened # d_Log d)" by (metis list.set_map)
    also have "\<dots> \<subseteq> {False}" using assms(5) by (auto simp: list_all_iff opened_def)
    finally show ?thesis by (auto simp: filter_id_conv)
  qed
  have hd: "n_Type (hd ns) = ''ACTION_OPEN''"
    using ns by (auto simp: opened_def Let_def split: prod.splits if_splits dest!: complete_note_fields)
  show ?thesis
    using d' d2 del hd assms(2-4) by (auto simp: ReadOne_def getIncident_map_of filterResponseLogEntry_def d1_def)
qed
section \<open>Closed incidents\<close>

lemma CreateLogEntry_faulty: "upsert_fault e = Some f \<Longrightarrow> incidents (fst (CreateLogEntry e pid body w)) = incidents w"
  by (auto simp: CreateLogEntry_def misc_Upsert_def Let_def split: option.splits sum.splits bool.splits prod.splits)

lemma CreateLogEntry_no_path: "incidents (fst (CreateLogEntry e None body w)) = incidents w"
  by (simp add: CreateLogEntry_def)

lemma locked_add:
  assumes "map_of (incidents w) i = Some d" "d_State d = Incident_Closed" "IsObjectIdHex i" "pid \<noteq> Some ''''"
  shows "\<exists>d'. map_of (incidents (fst (CreateLogEntry e pid body w))) i = Some d' \<and> d_State d' = Incident_Closed \<and> d_Log d' = d_Log d"
proof (cases "incidents (fst (CreateLogEntry e pid body w)) = incidents w")
  case False
  then have "upsert_fault e = None"
    using CreateLogEntry_faulty[of e _ pid body w] by (cases "upsert_fault e") auto
  obtain j where j: "pid = Some j" "j \<noteq> ''''" using False assms(4) CreateLogEntry_no_path[of e body w] by (cases pid) auto
  obtain d' n where u: "getIncident (get_fault e) j w = Inr d'" "d_State d' \<noteq> Incident_Closed"
      "incidents (fst (CreateLogEntry e pid body w)) = AList.update j (d'\<lparr>d_Log := d_Log d' @ [n]\<rparr>) (incidents w)"
    using CreateLogEntry_effect[OF \<open>upsert_fault e = None\<close> j(2), of body w] False j(1) by auto
  have "j \<noteq> i" using getIncident_Some[OF u(1) getIncident_hex[OF u(1) j(2)]] u(2) assms(1,2) by auto
  then show ?thesis using u(3) assms(1,2) by simp
qed (use assms in simp)

lemma map_of_map_entry: "map_of (AList.map_entry k f xs) i = (if i = k then map_option f (map_of xs k) else map_of xs i)"
  by (induction xs) auto

lemma removeFromRegistry_incidents [simp]: "incidents (fst (removeFromRegistry a b w)) = incidents w"
  by (simp add: removeFromRegistry_def split: option.splits)

lemma locked_remove:
  assumes "map_of (incidents w) i = Some d" "d_State d = Incident_Closed" "pid \<noteq> Some ''''"
  shows "map_of (incidents (fst (DeleteLogEntry e pid lid w))) i = Some d"
proof (cases "pid = Some i \<and> get_fault e = None \<and> IsObjectIdHex i")
  case True
  then show ?thesis
    using assms by (auto simp: DeleteLogEntry_def getIncident_map_of split: option.splits)
next
  case False
  have "incidents (fst (DeleteLogEntry e pid lid w)) = incidents w \<or>
      (\<exists>j f d'. pid = Some j \<and> getIncident (get_fault e) j w = Inr d' \<and> incidents (fst (DeleteLogEntry e pid lid w)) = AList.map_entry j f (incidents w))"
    by (auto simp: DeleteLogEntry_def removeFromRegistry_def Let_def split: option.splits sum.splits bool.splits prod.splits)
  then show ?thesis
  proof (elim disjE exE conjE)
    fix j f d'
    assume j: "pid = Some j" "getIncident (get_fault e) j w = Inr d'" "incidents (fst (DeleteLogEntry e pid lid w)) = AList.map_entry j f (incidents w)"
    have "IsObjectIdHex j" using getIncident_hex[OF j(2)] assms(3) j(1) by blast
    moreover have "get_fault e = None" using j(2) by (auto simp: getIncident_def misc_Get_def rbind_eq_Inr split: if_splits option.splits)
    ultimately have "j \<noteq> i" using False j(1) by blast
    then show ?thesis using j(3) assms(1) by (simp add: map_of_map_entry)
  qed (use assms in simp)
qed

text \<open>A path names an incident; \<open>harmless i\<close> are the requests other than those that change the state of an incident.\<close>

fun harmless :: "string \<Rightarrow> req_env \<times> inc_request \<Rightarrow> bool" where
  "harmless i (e, Req_create _) = (new_doc_id e \<noteq> i)"
| "harmless i (e, Req_add pid _) = (pid \<noteq> Some '''')"
| "harmless i (e, Req_remove pid _) = (pid \<noteq> Some '''')"
| "harmless i (e, Req_change _ pid _ _) = (pid \<noteq> Some '''')"
| "harmless i (e, Req_assign pid _) = (pid \<noteq> Some '''')"
| "harmless i (e, Req_update _ _) = False"
| "harmless i (e, Req_state _) = False"
| "harmless i _ = True"

definition closed_with :: "string \<Rightarrow> log_note list \<Rightarrow> web_state \<Rightarrow> bool" where
  "closed_with i ns w \<longleftrightarrow> (\<exists>d. map_of (incidents w) i = Some d \<and> d_State d = Incident_Closed \<and> d_Log d = ns)"

lemma closed_Create:
  "closed_with i ns w \<Longrightarrow> new_doc_id e \<noteq> i \<Longrightarrow> closed_with i ns (fst (Create e body w))"
proof -
  assume a: "closed_with i ns w" "new_doc_id e \<noteq> i"
  have "incidents (fst (Create e body w)) = incidents w \<or> (\<exists>d. incidents (fst (Create e body w)) = AList.update (new_doc_id e) d (incidents w))"
  proof (cases "\<exists>d. body = Some d \<and> allowed e ''CREATE'' \<and> validateUserRole e (d\<lparr>d_IncidentId := reference e, d_State := Incident_Open\<rparr>) = []")
    case True
    then obtain d where d: "body = Some d" "allowed e ''CREATE''" "validateUserRole e (d\<lparr>d_IncidentId := reference e, d_State := Incident_Open\<rparr>) = []" by auto
    obtain d2 w1 where p: "processLogEntry e (tl (fresh e)) (d\<lparr>d_IncidentId := reference e, d_State := Incident_Open,
        d_Log := \<lparr>n_Id = hd (fresh e), n_Timestamp = Some (req_time e), n_Type = ''ACTION_OPEN'', n_Note = reference e,
          n_Attachment = None, n_Entity = None, n_Deleted = False, n_Assigned = True\<rparr> # d_Log d\<rparr>) w = (d2, w1)" by force
    have w1: "incidents w1 = incidents w" using p by (auto simp: processLogEntry_def audit_files_def Let_def split: if_splits prod.splits)
    obtain w3 r where x: "extend_tracks e (Some (new_doc_id e)) 1 (d_Log d2) (w1\<lparr>incidents := AList.update (new_doc_id e) d2 (incidents w1)\<rparr>) = (w3, r)" by force
    have "incidents w3 = AList.update (new_doc_id e) d2 (incidents w)"
      using extend_tracks_incidents[of e "Some (new_doc_id e)" 1 "d_Log d2" "w1\<lparr>incidents := AList.update (new_doc_id e) d2 (incidents w1)\<rparr>"] x w1 by simp
    then show ?thesis
      using d p x w1 by (cases "upsert_fault e"; cases r) (auto simp: Create_def misc_Upsert_def Let_def)
  qed (cases body; simp add: Create_def Let_def)
  then show ?thesis using a by (auto simp: closed_with_def)
qed

lemma closed_assign:
  assumes "closed_with i ns w" "pid \<noteq> Some ''''"
  shows "closed_with i ns (fst (Assign e pid user w))"
proof (cases "incidents (fst (Assign e pid user w)) = incidents w")
  case False
  then obtain j d u where j: "pid = Some j" "getIncident (get_fault e) j w = Inr d"
      "incidents (fst (Assign e pid user w)) = AList.update j (d\<lparr>d_Assignee := u\<rparr>) (incidents w)"
    by (auto simp: Assign_def misc_Upsert_def Let_def assms(2) split: option.splits sum.splits if_splits)
  obtain d' where "map_of (incidents w) j = Some d'" "d = d'\<lparr>d_Id := j\<rparr>"
    using getIncident_Some[OF j(2)] getIncident_hex[OF j(2)] assms(2) j(1) by blast
  then show ?thesis using j(3) assms(1) by (auto simp: closed_with_def)
qed (use assms in \<open>simp add: closed_with_def\<close>)

lemma closed_request:
  assumes "closed_with i ns w" "IsObjectIdHex i" "harmless i (e, r)"
  shows "closed_with i ns (fst (serve_request e r w))"
proof (cases r)
  case (Req_change e' pid lid body)
  have "closed_with i ns (fst (DeleteLogEntry e pid lid w))"
    using assms(1,3) locked_remove Req_change by (fastforce simp: closed_with_def)
  moreover have "closed_with i ns (fst (CreateLogEntry e' pid b w'))" if "closed_with i ns w'" for b w'
    using that assms(2,3) locked_add Req_change by (fastforce simp: closed_with_def)
  ultimately show ?thesis
    using Req_change assms(1) by (auto simp: UpdateLogEntry_def closed_with_def split: option.splits sum.splits prod.splits)
next
  case (Req_add pid body)
  then show ?thesis using assms locked_add by (fastforce simp: closed_with_def)
next
  case (Req_remove pid lid)
  then show ?thesis using assms locked_remove by (fastforce simp: closed_with_def)
next
  case (Req_create body)
  then show ?thesis using assms closed_Create by simp
next
  case (Req_assign pid user)
  then show ?thesis using assms closed_assign by simp
qed (use assms in \<open>auto simp: closed_with_def ReadAll_def ReadOne_def Delete_def split: option.splits sum.splits\<close>)

text \<open>C14. 
  The log of a closed incident is locked: no sequence of requests to add, change or remove entries, to create or assign incidents or
  to read them changes it or opens the incident.
\<close>

theorem closed_incident_locked:
  assumes "map_of (incidents w) i = Some d" "d_State d = Incident_Closed" "IsObjectIdHex i" "list_all (harmless i) rs"
  shows "\<exists>d'. map_of (incidents (serve_all rs w)) i = Some d' \<and> d_State d' = Incident_Closed \<and> d_Log d' = d_Log d"
proof -
  have "closed_with i ns (serve_all rs w)" if "closed_with i ns w" for ns
    using that assms(4)
  proof (induction rs arbitrary: w)
    case (Cons x rs)
    then show ?case using closed_request[of i ns w "fst x" "snd x"] assms(3) by (simp add: serve_all_def case_prod_beta)
  qed (simp add: serve_all_def)
  then show ?thesis using assms(1,2) by (auto simp: closed_with_def)
qed

section \<open>References of incidents\<close>

fun references :: "nat \<Rightarrow> string \<Rightarrow> (string \<times> nat) list \<Rightarrow> string list" where
  "references 0 prefix seqs = []"
| "references (Suc k) prefix seqs = (let (seqs', i) = Next_id True prefix seqs in i # references k prefix seqs')"

lemma references_from:
  "map_of seqs prefix = Some n \<Longrightarrow> references k prefix seqs = map (\<lambda>j. prefix @ Itoa j) [n + 1..<n + 1 + k]"
proof (induction k arbitrary: seqs n)
  case (Suc k)
  have "[n + 1..<n + 1 + Suc k] = (n + 1) # [n + 2..<n + 2 + k]" by (simp add: upt_rec)
  then show ?case using Suc.IH[of "AList.update prefix (n + 1) seqs" "n + 1"] Suc.prems by (simp add: Next_id_def)
qed simp

lemma inj_Itoa: "Itoa m = Itoa n \<Longrightarrow> m = n"
  by (metis digits_value_Itoa option.inject)

text \<open>As long as the database answers, the references drawn for a prefix are all different, the first one of a new prefix included.\<close>

theorem references_distinct: "distinct (references k prefix [])"
proof (cases k)
  case (Suc j)
  have "references k prefix [] = map (\<lambda>j. prefix @ Itoa j) (1000 # [1001..<1001 + j])"
    using references_from[of "[(prefix, 1000)]" prefix 1000 j] by (simp add: Suc Next_id_def)
  moreover have "inj_on (\<lambda>j. prefix @ Itoa j) A" for A by (rule inj_onI) (simp add: inj_Itoa)
  ultimately show ?thesis by (auto simp: distinct_map inj_Itoa)
qed simp

text \<open>An error of the database on a prefix in use gives its first reference again.\<close>

lemma reference_repeated: "snd (Next_id False prefix seqs) = snd (Next_id True prefix [])"
  by (simp add: Next_id_def)

section \<open>Where requests go wrong\<close>

text \<open>Archiving a closed incident takes the extensions of its tracks back a second time.\<close>

theorem archived_taken_back_twice:
  assumes "map_of (incidents w) i = Some d" "IsObjectIdHex i" "d_State d = Incident_Open" "tracks_named (d_Log d)"
    "get_fault e = None" "upsert_fault e = None" "pack_fault e = None" "allowed e ''CLOSE''"
  shows "ext_sent (serve_all [(e, Req_state (Some (i, Incident_Closed))), (e, Req_state (Some (i, Incident_Archived)))] w) =
    ext_sent w @ map (\<lambda>t. (t, - 1)) (track_ids (d_Log d)) @ map (\<lambda>t. (t, - 1)) (track_ids (d_Log d))"
proof -
  have ni: "i \<noteq> ''''" using assms(2) by (auto simp: IsObjectIdHex_def)
  have g: "getIncident (get_fault e) i w = Inr (d\<lparr>d_Id := i\<rparr>)" using assms by (simp add: getIncident_map_of)
  obtain w1 d1 act where w1: "UpdateState e (Path (Some (i, Incident_Closed))) w = succeed 200 act (filterResponseLogEntry d1) w1"
      "incidents w1 = AList.update i d1 (incidents w)" "d_State d1 = Incident_Closed"
      "d_Log d1 = d_Log d @ [action_note e (hd (fresh e)) (''ACTION_'' @ act) '''']" "ext_sent w1 = ext_sent w @ map (\<lambda>t. (t, - 1)) (track_ids (d_Log d))"
    using state_changed[OF g, of Incident_Closed] assms ni by auto
  define w2 where "w2 = fst (UpdateState e (Path (Some (i, Incident_Closed))) w)"
  have w2: "incidents w2 = incidents w1" "ext_sent w2 = ext_sent w1" by (simp_all add: w2_def w1(1))
  have g2: "getIncident (get_fault e) i w2 = Inr (d1\<lparr>d_Id := i\<rparr>)" using assms(2,5) w1(2) w2(1) by (simp add: getIncident_map_of)
  have t: "tracks_named (d_Log d1)" "track_ids (d_Log d1) = track_ids (d_Log d)" using w1(4) assms(4) by simp_all
  have "ext_sent (fst (UpdateState e (Path (Some (i, Incident_Archived))) w2)) = ext_sent w2 @ map (\<lambda>t. (t, - 1)) (track_ids (d_Log d))"
    using state_changed[OF g2, of Incident_Archived] assms ni t w1(3) by auto
  then show ?thesis using w2(2) w1(5) by (simp add: serve_all_def w2_def)
qed

lemma mark_deleted_tracks [simp]: "track_ids (mark_deleted l ns) = track_ids ns" "tracks_named (mark_deleted l ns) = tracks_named ns"
  by (induction l ns rule: mark_deleted.induct) (auto simp: track_ids_def tracks_named_def)

text \<open>C39. 
  Removing the entry of a track takes its extension back, and closing the incident takes it back once more, because the loop over the log
  does not skip deleted entries: one extension has been requested and two have been taken back.
\<close>

theorem removed_track_taken_back_twice:
  assumes "map_of (incidents w) i = Some d" "IsObjectIdHex i" "d_State d = Incident_Open" "tracks_named (d_Log d)"
    "find (\<lambda>n. n_Id n = l) (d_Log d) = Some n" "n_Type n = ''TRACK''" "n_Entity n = Some (ty, t)" "reg_incidents w t \<noteq> None"
    "get_fault e = None" "upsert_fault e = None" "update_fault e = None" "pack_fault e = None" "allowed e ''CLOSE''" "allowed e ''DELETE_NOTE''"
  shows "ext_sent (serve_all [(e, Req_remove (Some i) (Some l)), (e, Req_state (Some (i, Incident_Closed)))] w) =
    ext_sent w @ (t, - 1) # map (\<lambda>t. (t, - 1)) (track_ids (d_Log d)) \<and> t \<in> set (track_ids (d_Log d))"
proof -
  have ni: "i \<noteq> ''''" using assms(2) by (auto simp: IsObjectIdHex_def)
  define w1 where "w1 = fst (DeleteLogEntry e (Some i) (Some l) w)"
  have w1: "map_of (incidents w1) i = Some (d\<lparr>d_Log := mark_deleted l (d_Log d)\<rparr>)" "ext_sent w1 = ext_sent w @ [(t, - 1)]"
    using assms by (auto simp: w1_def DeleteLogEntry_def getIncident_map_of removeFromRegistry_def sendTrackExReq_def map_of_map_entry Let_def)
  have g: "getIncident (get_fault e) i w1 = Inr (d\<lparr>d_Log := mark_deleted l (d_Log d), d_Id := i\<rparr>)"
    using w1(1) assms(2,9) by (simp add: getIncident_map_of)
  have "ext_sent (fst (UpdateState e (Path (Some (i, Incident_Closed))) w1)) = ext_sent w1 @ map (\<lambda>t. (t, - 1)) (track_ids (d_Log d))"
    using state_changed[OF g, of Incident_Closed] assms ni by auto
  moreover have "n \<in> set (d_Log d)" using assms(5) by (metis find_Some_iff nth_mem)
  ultimately show ?thesis using w1(2) assms(6,7) by (force simp: serve_all_def w1_def track_ids_def)
qed

text \<open>
  Closing an incident by an update whose body has no identifier does not touch the incident of the path: the log of the first incident
  in the collection is stored in a new document.
\<close>

theorem close_without_id:
  assumes "incidents w = (k0, d0) # rest" "d_Id req = ''''" "d_State req = Incident_Closed" "d_State d0 \<noteq> Incident_Closed" "tracks_named (d_Log d0)"
    "close_valid e req" "allowed e ''UPDATE''" "allowed e ''CLOSE''" "get_fault e = None" "upsert_fault e = None" "pack_fault e = None"
  shows "\<exists>d'. incidents (fst (Update e (Some i) (Some req) w)) = AList.update (new_doc_id e) d' (incidents w) \<and>
    d_State d' = Incident_Closed \<and> d_IncidentId d' = d_IncidentId req \<and> d_Log d' = d_Log d0 @ [action_note e (hd (fresh e)) ''ACTION_CLOSE'' '''']"
proof -
  obtain w1 where w1: "extend_tracks e None (- 1) (d_Log d0) w = (w1, Inr ())" "incidents w1 = incidents w"
    using extend_tracks_sent[OF assms(5,11), of None "- 1" w] extend_tracks_incidents[of e None "- 1" "d_Log d0" w]
    by (cases "extend_tracks e None (- 1) (d_Log d0) w") auto
  have "getIncident (get_fault e) '''' w = Inr (d0\<lparr>d_Id := k0\<rparr>)" using assms(1,9) by (simp add: getIncident_def misc_Get_def)
  then show ?thesis
    using assms(2-) w1 by (intro exI[of _ "req\<lparr>d_Log := d_Log d0 @ [action_note e (hd (fresh e)) ''ACTION_CLOSE'' '''']\<rparr>"])
      (simp add: Update_def UpdateState_def change_state_def locked_state_def Let_def misc_Upsert_ok)
qed

text \<open>A log entry that is new in an update is stored as deleted.\<close>

theorem new_entry_stored_deleted:
  assumes "\<not> locked_state (d_State d)" "n \<in> set (d_Log d)" "n_Id n = ''''"
    "length (filter (\<lambda>n. n_Id n = '''') (d_Log d)) \<le> length ids" "set ids \<inter> n_Id ` set (d_Log d) = {}"
  shows "\<exists>n' \<in> set (d_Log (fst (processLogEntryWithOriginal e ids d original w))). n_Type n' = n_Type n \<and> n_Note n' = n_Note n \<and> n_Deleted n'"
proof -
  have c: "\<exists>n' \<in> set (fst (complete_notes e ids ns)). n_Type n' = n_Type n \<and> n_Note n' = n_Note n \<and> n_Id n' \<in> set ids"
    if "n \<in> set ns" "\<forall>n \<in> set ns. n_Id n = ''''" "length ns \<le> length ids" for ns ids
    using that
  proof (induction ns arbitrary: ids)
    case (Cons m ns)
    obtain j js where "ids = j # js" using Cons.prems(3) by (cases ids) auto
    moreover have "n_Type (fst (complete_note e j m)) = n_Type m \<and> n_Note (fst (complete_note e j m)) = n_Note m \<and> n_Id (fst (complete_note e j m)) = j"
      by (auto simp: complete_note_def Let_def split: option.splits sum.splits)
    ultimately show ?case using Cons.IH[of js] Cons.prems by (auto simp: Let_def split: prod.splits)
  qed simp
  obtain ns k where ns: "complete_notes e ids (filter (\<lambda>n. n_Id n = '''') (d_Log d)) = (ns, k)" by force
  have "n \<in> set (filter (\<lambda>n. n_Id n = '''') (d_Log d))" "\<forall>n \<in> set (filter (\<lambda>n. n_Id n = '''') (d_Log d)). n_Id n = ''''"
    using assms(2,3) by simp_all
  from c[OF this assms(4)] obtain n' where n': "n' \<in> set ns" "n_Type n' = n_Type n" "n_Note n' = n_Note n" "n_Id n' \<in> set ids"
    unfolding ns fst_conv by blast
  let ?f = "\<lambda>m. m\<lparr>n_Deleted := n_Id m \<notin> {i. i \<noteq> '''' \<and> i \<in> n_Id ` set (d_Log d)}\<rparr>"
  have "d_Log (fst (processLogEntryWithOriginal e ids d original w)) = map ?f (d_Log original @ ns)"
    using assms(1) ns by (simp add: processLogEntryWithOriginal_def Let_def)
  then have "?f n' \<in> set (d_Log (fst (processLogEntryWithOriginal e ids d original w)))"
    using n'(1) by (simp only: set_map set_append) blast
  moreover have "n_Deleted (?f n')" using n'(4) assms(5) by auto
  moreover have "n_Type (?f n') = n_Type n" "n_Note (?f n') = n_Note n" using n'(2,3) by simp_all
  ultimately show ?thesis by blast
qed
section \<open>Examples\<close>

definition ex_env :: "string \<Rightarrow> req_env" where
  "ex_env key = \<lparr>allowed = \<lambda>_. True, allowed_class = True, get_fault = None, get_again = None, upsert_fault = None, update_fault = None,
     note_fault = None, pack_fault = None, managers = \<lambda>_. Inr [''ann''], open_file = Inr, close_valid = \<lambda>_. True, reference = ''R1001'',
     fresh = [''n1'', ''n2'', ''n3''], new_doc_id = key, req_time = \<lparr>Seconds = 5, Nanos = 0\<rparr>\<rparr>"

definition ex_key :: string where "ex_key = ''0123456789abcdef01234567''"

definition ex_doc :: incident_doc where
  "ex_doc = \<lparr>d_Id = '''', d_IncidentId = '''', d_Name = ''fire'', d_Type = ''ship'', d_Phase = 1, d_State = Incident_nonstate, d_Assignee = ''ann'',
     d_Commander = '''', d_Outcome = '''', d_Synopsis = '''', d_Log = [track_note '''' 0 ''t7'' False]\<rparr>"

lemma ex_key_hex [simp]: "IsObjectIdHex ex_key"
  by (simp add: IsObjectIdHex_def ex_key_def)

lemma ex_key_not_Nil [simp]: "ex_key \<noteq> []"
  by (simp add: ex_key_def)

lemmas ex_defs = ex_env_def ex_doc_def track_note_def no_incidents_def

theorem forbidden_changes_nothing_witness:
  "\<exists>w' code. serve_request ((ex_env ex_key)\<lparr>allowed := \<lambda>_. False\<rparr>) (Req_create (Some ex_doc)) (no_incidents Map.empty) = (w', Inr (code, [])) \<and>
     w'\<lparr>audits := []\<rparr> = no_incidents Map.empty"
  using forbidden_changes_nothing[of "(ex_env ex_key)\<lparr>allowed := \<lambda>_. False\<rparr>" "Req_create (Some ex_doc)" "no_incidents Map.empty"]
  by (auto simp: no_incidents_def)

theorem track_extensions_balanced_witness:
  "requested ''t7'' (serve_all [(ex_env ex_key, Req_create (Some ex_doc)), (ex_env ex_key, Req_state (Some (ex_key, Incident_Closed)))] (no_incidents Map.empty)) =
   open_tracks ''t7'' (serve_all [(ex_env ex_key, Req_create (Some ex_doc)), (ex_env ex_key, Req_state (Some (ex_key, Incident_Closed)))] (no_incidents Map.empty))"
  by (rule track_extensions_balanced) (simp add: ex_defs ex_key_def tracks_named_def)

lemma ex_created:
  "\<exists>w' d'. Create (ex_env ex_key) (Some ex_doc) (no_incidents Map.empty) = (w', Inr (201, [d'])) \<and> d_Id d' = ex_key"
  by (simp add: Create_def ex_defs validateUserRole_def processLogEntry_def locked_state_def complete_note_def misc_Upsert_def succeed_def
      addToRegistry_def sendTrackExReq_def Let_def)

theorem created_incident_read_witness:
  "\<exists>w' d'. Create (ex_env ex_key) (Some ex_doc) (no_incidents Map.empty) = (w', Inr (201, [d'])) \<and>
     snd (ReadOne (ex_env ex_key) (Some ex_key) (Some '''') w') = Inr (200, [d']) \<and> d_State d' = Incident_Open"
proof -
  obtain w' d' where c: "Create (ex_env ex_key) (Some ex_doc) (no_incidents Map.empty) = (w', Inr (201, [d']))" "d_Id d' = ex_key"
    using ex_created by blast
  have "snd (ReadOne (ex_env ex_key) (Some (d_Id d')) (Some '''') w') = Inr (200, [d']) \<and> d_State d' = Incident_Open \<and>
      d_IncidentId d' = reference (ex_env ex_key) \<and> n_Type (hd (d_Log d')) = ''ACTION_OPEN''"
    by (rule created_incident_read[OF c(1)]) (simp_all add: ex_env_def ex_doc_def track_note_def)
  with c show ?thesis by auto
qed

definition ex_closed :: web_state where
  "ex_closed = (no_incidents [''t7'' \<mapsto> []])\<lparr>incidents := [(ex_key, ex_doc\<lparr>d_State := Incident_Closed\<rparr>)]\<rparr>"

definition ex_open :: web_state where
  "ex_open = (no_incidents [''t7'' \<mapsto> []])\<lparr>incidents := [(ex_key, ex_doc\<lparr>d_State := Incident_Open, d_Log := [track_note ''n9'' 3 ''t7'' False]\<rparr>)]\<rparr>"

theorem closed_incident_locked_witness:
  "\<exists>d'. map_of (incidents (serve_all [(ex_env '''', Req_add (Some ex_key) (Some (track_note '''' 0 ''t8'' False))), (ex_env '''', Req_remove (Some ex_key) (Some ''''))] ex_closed)) ex_key = Some d' \<and>
     d_Log d' = [track_note '''' 0 ''t7'' False]"
  using closed_incident_locked[of ex_closed ex_key "ex_doc\<lparr>d_State := Incident_Closed\<rparr>"
      "[(ex_env '''', Req_add (Some ex_key) (Some (track_note '''' 0 ''t8'' False))), (ex_env '''', Req_remove (Some ex_key) (Some ''''))]"]
  by (auto simp: ex_closed_def ex_doc_def)

theorem removed_track_taken_back_twice_witness:
  "requested ''t7'' (serve_all [(ex_env '''', Req_remove (Some ex_key) (Some ''n9'')), (ex_env '''', Req_state (Some (ex_key, Incident_Closed)))] ex_open) = - 2"
proof -
  have "ext_sent (serve_all [(ex_env '''', Req_remove (Some ex_key) (Some ''n9'')), (ex_env '''', Req_state (Some (ex_key, Incident_Closed)))] ex_open) =
      ext_sent ex_open @ (''t7'', - 1) # map (\<lambda>t. (t, - 1)) (track_ids [track_note ''n9'' 3 ''t7'' False]) \<and> ''t7'' \<in> set (track_ids [track_note ''n9'' 3 ''t7'' False])"
    using removed_track_taken_back_twice[of ex_open ex_key "ex_doc\<lparr>d_State := Incident_Open, d_Log := [track_note ''n9'' 3 ''t7'' False]\<rparr>" "''n9''"
        "track_note ''n9'' 3 ''t7'' False" "''registry''" "''t7''" "ex_env ''''"]
    by (simp add: ex_open_def ex_env_def tracks_named_def no_incidents_def) (simp add: track_note_def)
  then show ?thesis by (simp add: requested_def ex_open_def no_incidents_def track_ids_def track_note_def)
qed

end
