(* ===== verification/Note_Resource.thy ===== *)
theory Note_Resource
  imports Incident_Resource
begin

text \<open>
  \<^verbatim>\<open>twebd/public/note.go\<close>: notes that belong to no incident, and their way into the log of an incident and back
  (\<^verbatim>\<open>DetachLogEntry\<close> of \<^verbatim>\<open>incident.go\<close>), with \<^verbatim>\<open>db/mongo/notedb.go\<close> and \<^verbatim>\<open>db/mongo/incidentdb.go\<close>. The state adds the collection of notes to
  the state of the incident requests. Identifiers are in the lower case the server writes them in. An environment says
  which accesses to the database fail.
\<close>

section \<open>Data\<close>

record note_world =
  web :: web_state
  loose_notes :: "(string \<times> log_note) list"
  notes_published :: "(string \<times> log_note) list"
  note_audits :: "(string \<times> string) list"

text \<open>
  \<open>inc_env\<close> has what a request shares with the requests for incidents; \<open>note_unread\<close> and \<open>entries_unread\<close> are failed reads of one
  note and of the entries of the incidents, \<open>incidents_fault\<close> and \<open>notes_fault\<close> those of a whole collection; then the
  updates of a note, its insertion, and the two updates of a log entry.
\<close>

record note_env =
  inc_env :: req_env
  note_allowed :: "string \<Rightarrow> bool"
  note_unread :: bool
  entries_unread :: bool
  incidents_fault :: "go_fault option"
  notes_fault :: "go_fault option"
  note_update_fault :: "go_fault option"
  note_upsert_fault :: "go_fault option"
  entry_delete_fault :: "go_fault option"
  entry_restore_fault :: "go_fault option"

datatype note_body =
    Ans_empty
  | Ans_note log_note
  | Ans_notes "log_note list"
  | Ans_incident incident_doc
  | Ans_pair log_note "incident_doc option"

type_synonym note_answer = "nat \<times> note_body"

section \<open>The collections\<close>

definition mgo_ErrNotFound :: go_fault where "mgo_ErrNotFound = Err ''mgo: not found''"

definition bad_hex :: go_fault where "bad_hex = Panic ''invalid input to ObjectIdHex''"

definition note_Upsert :: "note_env \<Rightarrow> string \<Rightarrow> log_note \<Rightarrow> note_world \<Rightarrow> note_world \<times> string res" where
  "note_Upsert e i n w =
     (if i \<noteq> '''' \<and> \<not> IsObjectIdHex i then (w, Inl bad_hex)
      else
        let key = (if i = '''' then new_doc_id (inc_env e) else i) in
        case note_upsert_fault e of
          Some f \<Rightarrow> (w, Inl f)
        | None \<Rightarrow> (w\<lparr>loose_notes := AList.update key n (loose_notes w)\<rparr>, Inr key))"

definition CreateNote :: "note_env \<Rightarrow> log_note \<Rightarrow> note_world \<Rightarrow> note_world \<times> string res" where
  "CreateNote e n w = note_Upsert e (n_Id n) n w"

definition UpdateNote :: "note_env \<Rightarrow> string \<Rightarrow> log_note \<Rightarrow> note_world \<Rightarrow> note_world \<times> string res" where
  "UpdateNote e i n w = note_Upsert e i n w"

text \<open>
  The aggregation over the incidents: a document matches if one entry has the identifier and, without deleted entries, one
  entry is not deleted. The last document with an entry left gives the note.
\<close>

definition entry_found :: "string \<Rightarrow> bool \<Rightarrow> (string \<times> incident_doc) list \<Rightarrow> log_note option" where
  "entry_found i withDeleted ds =
     foldl (\<lambda>note (k, d).
        if i \<in> n_Id ` set (d_Log d) \<and> (withDeleted \<or> (\<exists>n \<in> set (d_Log d). \<not> n_Deleted n)) then
          (case filter (\<lambda>n. n_Id n = i \<and> (withDeleted \<or> \<not> n_Deleted n)) (d_Log d) of [] \<Rightarrow> note | n # _ \<Rightarrow> Some n)
        else note) None ds"

text \<open>
  \<^verbatim>\<open>FindOneNote\<close>: the error of a read is lost in a shadowed variable. Of the incidents it looks like no entry; of the notes the
  decoder panics on the document that was not read.
\<close>

definition FindOneNote :: "note_env \<Rightarrow> string \<Rightarrow> string \<Rightarrow> bool \<Rightarrow> note_world \<Rightarrow> log_note res" where
  "FindOneNote e i isAssigned withDeleted w =
     (if isAssigned = ''true'' then
        (case (if entries_unread e then None else entry_found i withDeleted (incidents (web w))) of
           None \<Rightarrow> Inl ErrorNotFound
         | Some n \<Rightarrow> Inr n)
      else if isAssigned = ''false'' then
        (if \<not> IsObjectIdHex i then Inl bad_hex
         else if note_unread e then Inl (Panic ''mongo.decode Message corrupt: nil data'')
         else
           case map_of (loose_notes w) i of
             None \<Rightarrow> Inl ErrorNotFound
           | Some n \<Rightarrow> if withDeleted \<or> \<not> n_Deleted n then Inr (n\<lparr>n_Id := i\<rparr>) else Inl ErrorNotFound)
      else Inl ErrorNotFound)"

definition FindAllNotes :: "note_env \<Rightarrow> note_world \<Rightarrow> (string \<times> log_note) list res" where
  "FindAllNotes e w = (case notes_fault e of Some f \<Rightarrow> Inl f | None \<Rightarrow> Inr (loose_notes w))"

definition flag_note :: "note_env \<Rightarrow> bool \<Rightarrow> string \<Rightarrow> note_world \<Rightarrow> note_world \<times> unit res" where
  "flag_note e b i w =
     (if \<not> IsObjectIdHex i then (w, Inl bad_hex)
      else
        case note_update_fault e of
          Some f \<Rightarrow> (w, Inl f)
        | None \<Rightarrow>
            if map_of (loose_notes w) i = None then (w, Inl mgo_ErrNotFound)
            else (w\<lparr>loose_notes := AList.map_entry i (n_Deleted_update (\<lambda>_. b)) (loose_notes w)\<rparr>, Inr ()))"

definition RestoreNote :: "note_env \<Rightarrow> string \<Rightarrow> note_world \<Rightarrow> note_world \<times> unit res" where
  "RestoreNote e i w = flag_note e False i w"

definition DeleteNote :: "note_env \<Rightarrow> string \<Rightarrow> note_world \<Rightarrow> note_world \<times> unit res" where
  "DeleteNote e i w = flag_note e True i w"

definition FindAllIncidents :: "note_env \<Rightarrow> note_world \<Rightarrow> (string \<times> incident_doc) list res" where
  "FindAllIncidents e w = (case incidents_fault e of Some f \<Rightarrow> Inl f | None \<Rightarrow> Inr (incidents (web w)))"

text \<open>\<^verbatim>\<open>FindIncidentByLogEntry\<close> gives no incident and no error if there is none.\<close>

definition FindIncidentByLogEntry :: "note_env \<Rightarrow> string \<Rightarrow> bool \<Rightarrow> note_world \<Rightarrow> incident_doc option res" where
  "FindIncidentByLogEntry e l withDeleted w =
     rbind (FindAllIncidents e w) (\<lambda>ds.
       Inr (map_option (\<lambda>(k, d). d\<lparr>d_Id := k\<rparr>)
         (find (\<lambda>(k, d). \<exists>n \<in> set (d_Log d). (withDeleted \<or> \<not> n_Deleted n) \<and> n_Id n = l) ds)))"

definition UpdateIncident :: "note_env \<Rightarrow> string \<Rightarrow> incident_doc \<Rightarrow> note_world \<Rightarrow> note_world \<times> string res" where
  "UpdateIncident e i d w = (case misc_Upsert (inc_env e) i d (web w) of (v, r) \<Rightarrow> (w\<lparr>web := v\<rparr>, r))"

text \<open>The positional update of the first entry with the identifier.\<close>

fun flag_entry :: "bool \<Rightarrow> string \<Rightarrow> log_note list \<Rightarrow> log_note list" where
  "flag_entry b l [] = []"
| "flag_entry b l (n # ns) = (if n_Id n = l then n\<lparr>n_Deleted := b\<rparr> # ns else n # flag_entry b l ns)"

definition flag_log_entry :: "go_fault option \<Rightarrow> bool \<Rightarrow> string \<Rightarrow> string \<Rightarrow> note_world \<Rightarrow> note_world \<times> unit res" where
  "flag_log_entry fault b i l w =
     (case fault of
        Some f \<Rightarrow> (w, Inl f)
      | None \<Rightarrow>
          if \<not> IsObjectIdHex i then (w, Inl bad_hex)
          else
            case map_of (incidents (web w)) i of
              None \<Rightarrow> (w, Inl mgo_ErrNotFound)
            | Some d \<Rightarrow>
                if l \<notin> n_Id ` set (d_Log d) then (w, Inl mgo_ErrNotFound)
                else (w\<lparr>web := (web w)\<lparr>incidents := AList.map_entry i (d_Log_update (flag_entry b l)) (incidents (web w))\<rparr>\<rparr>, Inr ()))"

definition RestoreIncidentLogEntry :: "note_env \<Rightarrow> string \<Rightarrow> string \<Rightarrow> note_world \<Rightarrow> note_world \<times> unit res" where
  "RestoreIncidentLogEntry e i l w = flag_log_entry (entry_restore_fault e) False i l w"

definition DeleteIncidentLogEntry :: "note_env \<Rightarrow> string \<Rightarrow> string \<Rightarrow> note_world \<Rightarrow> note_world \<times> unit res" where
  "DeleteIncidentLogEntry e i l w = flag_log_entry (entry_delete_fault e) True i l w"

section \<open>Requests for notes\<close>

definition note_audit :: "string \<Rightarrow> string \<Rightarrow> note_world \<Rightarrow> note_world" where
  "note_audit action outcome w = w\<lparr>note_audits := note_audits w @ [(action, outcome)]\<rparr>"

definition note_refuse :: "string \<Rightarrow> string \<Rightarrow> nat \<Rightarrow> note_world \<Rightarrow> note_world \<times> note_answer res" where
  "note_refuse action outcome code w = (note_audit action outcome w, Inr (code, Ans_empty))"

text \<open>What a handler does with the error of a database call; a panic ends the handler.\<close>

fun note_error :: "string \<Rightarrow> go_fault \<Rightarrow> note_world \<Rightarrow> note_world \<times> note_answer res" where
  "note_error action (Panic s) w = (w, Inl (Panic s))"
| "note_error action f w = note_refuse action ''FAIL_ERROR'' 500 w"

definition note_unfound :: "string \<Rightarrow> go_fault \<Rightarrow> note_world \<Rightarrow> note_world \<times> note_answer res" where
  "note_unfound action f w =
     (if f = ErrorNotFound then note_refuse action ''FAIL_NOTFOUND'' 404 w else note_error action f w)"

definition Publish_note :: "string \<Rightarrow> log_note \<Rightarrow> note_world \<Rightarrow> note_world" where
  "Publish_note action n w = w\<lparr>notes_published := notes_published w @ [(action, n)]\<rparr>"

definition note_attach :: "note_env \<Rightarrow> log_note \<Rightarrow> log_note res" where
  "note_attach e n =
     (case n_Attachment n of
        None \<Rightarrow> Inr n
      | Some a \<Rightarrow> rbind (populateFileMetadata (inc_env e) a) (\<lambda>a'. Inr (n\<lparr>n_Attachment := Some a'\<rparr>)))"

definition NoteRest_Create :: "note_env \<Rightarrow> log_note option \<Rightarrow> note_world \<Rightarrow> note_world \<times> note_answer res" where
  "NoteRest_Create e body w =
     (if \<not> note_allowed e ''CREATE'' then note_refuse ''CREATE'' ''FAIL_PERMISSION'' 403 w
      else
        case body of
          None \<Rightarrow> note_refuse ''CREATE'' ''FAIL_VALIDATION'' 400 w
        | Some n0 \<Rightarrow>
            let n1 = n0\<lparr>n_Id := hd (fresh (inc_env e)), n_Timestamp := Some (req_time (inc_env e))\<rparr>;
                act = (if n_Attachment n1 = None then ''CREATE'' else ''ADD_FILE'') in
            case note_attach e n1 of
              Inl f \<Rightarrow> note_refuse act ''FAIL_VALIDATION'' 400 w
            | Inr n \<Rightarrow>
                (case CreateNote e n w of
                   (w1, Inl f) \<Rightarrow> note_error act f w1
                 | (w1, Inr i) \<Rightarrow>
                     (Publish_note act (n\<lparr>n_Id := i\<rparr>) (note_audit act ''SUCCESS'' w1), Inr (201, Ans_note (n\<lparr>n_Id := i\<rparr>)))))"

definition NoteTypes :: "string list" where "NoteTypes = [''NOTE'', ''NOTE_FILE'']"

definition filterNotes :: "log_note list \<Rightarrow> log_note list" where
  "filterNotes ns = filter (\<lambda>n. \<not> n_Deleted n) ns"

definition NoteRest_ReadAll :: "note_env \<Rightarrow> note_world \<Rightarrow> note_world \<times> note_answer res" where
  "NoteRest_ReadAll e w =
     (if \<not> note_allowed e ''READ'' then note_refuse ''READ'' ''FAIL_PERMISSION'' 403 w
      else
        case FindAllIncidents e w of
          Inl f \<Rightarrow> note_error ''READ'' f w
        | Inr ds \<Rightarrow>
            let assigned = filter (\<lambda>n. n_Type n \<in> set NoteTypes)
                  (concat (map (\<lambda>(k, d). map (\<lambda>n. n\<lparr>n_Assigned := True\<rparr>) (d_Log (filterResponseLogEntry (d\<lparr>d_Id := k\<rparr>)))) ds)) in
            case FindAllNotes e w of
              Inl f \<Rightarrow> note_error ''READ'' f w
            | Inr ns \<Rightarrow>
                (note_audit ''READ'' ''SUCCESS'' w,
                 Inr (200, Ans_notes (assigned @
                   map (\<lambda>n. n\<lparr>n_Assigned := False\<rparr>) (filterNotes (map (\<lambda>(k, n). n\<lparr>n_Id := k\<rparr>) ns))))))"

definition NoteRest_ReadOne :: "note_env \<Rightarrow> string option \<Rightarrow> string option \<Rightarrow> note_world \<Rightarrow> note_world \<times> note_answer res" where
  "NoteRest_ReadOne e pid isAssigned w =
     (if \<not> note_allowed e ''READ'' then note_refuse ''READ'' ''FAIL_PERMISSION'' 403 w
      else
        case (pid, isAssigned) of
          (Some i, Some a) \<Rightarrow>
            (case FindOneNote e i a False w of
               Inl f \<Rightarrow> note_unfound ''READ'' f w
             | Inr n \<Rightarrow>
                 case (if a = ''true'' then FindIncidentByLogEntry e i False w else Inr None) of
                   Inl f \<Rightarrow> note_unfound ''READ'' f w
                 | Inr d \<Rightarrow> (note_audit ''READ'' ''SUCCESS'' w, Inr (200, Ans_pair n d)))
        | _ \<Rightarrow> note_refuse ''READ'' ''FAIL_VALIDATION'' 400 w)"

definition NoteRest_Update :: "note_env \<Rightarrow> string option \<Rightarrow> log_note option \<Rightarrow> note_world \<Rightarrow> note_world \<times> note_answer res" where
  "NoteRest_Update e pid body w =
     (if \<not> note_allowed e ''UPDATE'' then note_refuse ''UPDATE'' ''FAIL_PERMISSION'' 403 w
      else
        case (pid, body) of
          (Some i, Some n0) \<Rightarrow>
            (case note_attach e (n0\<lparr>n_Timestamp := Some (req_time (inc_env e))\<rparr>) of
               Inl f \<Rightarrow> note_refuse ''UPDATE'' ''FAIL_VALIDATION'' 400 w
             | Inr n \<Rightarrow>
                 (case UpdateNote e i n w of
                    (w1, Inl f) \<Rightarrow> note_error ''UPDATE'' f w1
                  | (w1, Inr _) \<Rightarrow>
                      (Publish_note ''UPDATE'' (n\<lparr>n_Id := i\<rparr>) (note_audit ''UPDATE'' ''SUCCESS'' w1),
                       Inr (200, Ans_note (n\<lparr>n_Id := i\<rparr>)))))
        | _ \<Rightarrow> note_refuse ''UPDATE'' ''FAIL_VALIDATION'' 400 w)"

definition NoteRest_Delete :: "note_env \<Rightarrow> string option \<Rightarrow> note_world \<Rightarrow> note_world \<times> note_answer res" where
  "NoteRest_Delete e pid w =
     (if \<not> note_allowed e ''DELETE'' then note_refuse ''DELETE'' ''FAIL_PERMISSION'' 403 w
      else
        case pid of
          None \<Rightarrow> note_refuse ''DELETE'' ''FAIL_VALIDATION'' 400 w
        | Some i \<Rightarrow>
            (case DeleteNote e i w of
               (w1, Inl f) \<Rightarrow> note_error ''DELETE'' f w1
             | (w1, Inr _) \<Rightarrow>
                 (case FindOneNote e i ''false'' True w1 of
                    Inl f \<Rightarrow> note_unfound ''DELETE'' f w1
                  | Inr n \<Rightarrow> (note_audit ''DELETE'' ''SUCCESS'' w1, Inr (200, Ans_note n)))))"

text \<open>The audit entry of a change of an incident.\<close>

definition incident_audit :: "string \<Rightarrow> string \<Rightarrow> note_world \<Rightarrow> note_world" where
  "incident_audit action outcome w = w\<lparr>web := audit action outcome (web w)\<rparr>"

text \<open>
  The end of both branches of \<^verbatim>\<open>Assign\<close>, once the note is taken from its place: it is added to the log of the incident, or its
  entry there is restored. The second branch drops the error of the restoration (\<open>checked\<close> is false there).
\<close>

definition put_into_log :: "note_env \<Rightarrow> bool \<Rightarrow> string \<Rightarrow> string \<Rightarrow> log_note \<Rightarrow> note_world \<Rightarrow> note_world \<times> note_answer res" where
  "put_into_log e checked t i note w =
     (case getIncident (get_fault (inc_env e)) t (web w) of
        Inl f \<Rightarrow> note_unfound ''ASSIGN'' f w
      | Inr d \<Rightarrow>
          case note_attach e (note\<lparr>n_Timestamp := Some (req_time (inc_env e)), n_Assigned := True\<rparr>) of
            Inl f \<Rightarrow> note_refuse ''ASSIGN'' ''FAIL_VALIDATION'' 400 w
          | Inr n \<Rightarrow>
              case (if i \<notin> n_Id ` set (d_Log d) then
                      (case UpdateIncident e t (d\<lparr>d_Log := d_Log d @ [n]\<rparr>) w of (w1, r) \<Rightarrow> (w1, rbind r (\<lambda>_. Inr ())))
                    else
                      case RestoreIncidentLogEntry e t i w of (w1, r) \<Rightarrow> (w1, if checked then r else Inr ())) of
                (w1, Inl f) \<Rightarrow> note_error ''ASSIGN'' f w1
              | (w1, Inr _) \<Rightarrow>
                  case getIncident (get_again (inc_env e)) t (web w1) of
                    Inl f \<Rightarrow> (w1, Inl NilDeref)
                  | Inr d' \<Rightarrow> (incident_audit ''ADD_NOTE'' ''SUCCESS'' w1, Inr (200, Ans_incident (filterResponseLogEntry d'))))"

definition NoteRest_Assign :: "note_env \<Rightarrow> string option \<Rightarrow> string option \<Rightarrow> note_world \<Rightarrow> note_world \<times> note_answer res" where
  "NoteRest_Assign e nid tid w =
     (if \<not> note_allowed e ''ASSIGN'' then note_refuse ''ASSIGN'' ''FAIL_PERMISSION'' 403 w
      else
        case (nid, tid) of
          (Some i, Some t) \<Rightarrow>
            (case FindOneNote e i ''false'' False w of
               Inr n \<Rightarrow>
                 (case DeleteNote e i w of
                    (w1, Inl f) \<Rightarrow> note_error ''ASSIGN'' f w1
                  | (w1, Inr _) \<Rightarrow> put_into_log e True t i n w1)
             | Inl f \<Rightarrow>
                 if f \<noteq> ErrorNotFound then note_error ''ASSIGN'' f w
                 else
                   case FindOneNote e i ''true'' False w of
                     Inl f \<Rightarrow> note_unfound ''ASSIGN'' f w
                   | Inr n \<Rightarrow>
                       case FindIncidentByLogEntry e i False w of
                         Inl f \<Rightarrow> note_unfound ''ASSIGN'' f w
                       | Inr None \<Rightarrow> (w, Inl NilDeref)
                       | Inr (Some d) \<Rightarrow>
                           if d_Id d = t then
                             (incident_audit ''ADD_NOTE'' ''SUCCESS'' w, Inr (200, Ans_incident (filterResponseLogEntry d)))
                           else
                             (case DeleteIncidentLogEntry e (d_Id d) i w of
                                (w1, Inl f) \<Rightarrow> note_error ''ASSIGN'' f w1
                              | (w1, Inr _) \<Rightarrow> put_into_log e False t i n w1))
        | _ \<Rightarrow> note_refuse ''ASSIGN'' ''FAIL_VALIDATION'' 400 w)"

section \<open>Detaching a log entry\<close>

definition incident_refuse :: "string \<Rightarrow> string \<Rightarrow> nat \<Rightarrow> note_world \<Rightarrow> note_world \<times> note_answer res" where
  "incident_refuse action outcome code w = (incident_audit action outcome w, Inr (code, Ans_empty))"

fun incident_error :: "string \<Rightarrow> go_fault \<Rightarrow> note_world \<Rightarrow> note_world \<times> note_answer res" where
  "incident_error action (Panic s) w = (w, Inl (Panic s))"
| "incident_error action f w = incident_refuse action ''FAIL_ERROR'' 500 w"

definition incident_unfound :: "string \<Rightarrow> go_fault \<Rightarrow> note_world \<Rightarrow> note_world \<times> note_answer res" where
  "incident_unfound action f w =
     (if f = ErrorNotFound then incident_refuse action ''FAIL_NOTFOUND'' 404 w else incident_error action f w)"

definition DetachLogEntry :: "note_env \<Rightarrow> string option \<Rightarrow> string option \<Rightarrow> note_world \<Rightarrow> note_world \<times> note_answer res" where
  "DetachLogEntry e pid lid w =
     (if \<not> allowed (inc_env e) ''DETACH_NOTE'' then incident_refuse ''DETACH_NOTE'' ''FAIL_PERMISSION'' 403 w
      else
        case (pid, lid) of
          (Some i, Some l) \<Rightarrow>
            (case DeleteIncidentLogEntry e i l w of
               (w1, Inl f) \<Rightarrow> incident_error ''DETACH_NOTE'' f w1
             | (w1, Inr _) \<Rightarrow>
                 (case FindOneNote e l ''false'' True w1 of
                    Inr note \<Rightarrow>
                      (case RestoreNote e l w1 of
                         (w2, Inl f) \<Rightarrow> incident_error ''DETACH_NOTE'' f w2
                       | (w2, Inr _) \<Rightarrow>
                           (case FindIncidentByLogEntry e l True w2 of
                              Inl f \<Rightarrow> incident_unfound ''DETACH_NOTE'' f w2
                            | Inr None \<Rightarrow> (w2, Inl NilDeref)
                            | Inr (Some d) \<Rightarrow> (incident_audit ''DETACH_NOTE'' ''SUCCESS'' w2, Inr (200, Ans_incident d))))
                  | Inl f \<Rightarrow>
                      if f \<noteq> ErrorNotFound then incident_error ''DETACH_NOTE'' f w1
                      else
                        case FindOneNote e l ''true'' True w1 of
                          Inl f \<Rightarrow> incident_unfound ''DETACH_NOTE'' f w1
                        | Inr n0 \<Rightarrow>
                            case note_attach e (n0\<lparr>n_Id := hd (fresh (inc_env e)), n_Timestamp := Some (req_time (inc_env e)),
                                                  n_Assigned := False, n_Deleted := False\<rparr>) of
                              Inl f \<Rightarrow> incident_refuse ''DETACH_NOTE'' ''FAIL_VALIDATION'' 400 w1
                            | Inr n \<Rightarrow>
                                (case UpdateNote e l n w1 of
                                   (w2, Inl f) \<Rightarrow> incident_error ''DETACH_NOTE'' f w2
                                 | (w2, Inr key) \<Rightarrow>
                                     (case FindIncidentByLogEntry e l True w2 of
                                        Inl f \<Rightarrow> incident_unfound ''DETACH_NOTE'' f w2
                                      | Inr None \<Rightarrow> (w2, Inl NilDeref)
                                      | Inr (Some d) \<Rightarrow>
                                          (incident_audit ''DETACH_NOTE'' ''SUCCESS'' w2, Inr (201, Ans_note (n\<lparr>n_Id := key\<rparr>)))))))
        | _ \<Rightarrow> incident_refuse ''DETACH_NOTE'' ''FAIL_VALIDATION'' 400 w)"

section \<open>Where a note is\<close>

text \<open>A note is among the notes without incident, or in the log of an incident.\<close>

datatype place = Unassigned | Entry string

definition live_in :: "string \<Rightarrow> log_note list \<Rightarrow> bool" where
  "live_in i ns \<longleftrightarrow> (\<exists>n \<in> set ns. n_Id n = i \<and> \<not> n_Deleted n)"

fun at_place :: "string \<Rightarrow> note_world \<Rightarrow> place \<Rightarrow> bool" where
  "at_place i w Unassigned \<longleftrightarrow> (case map_of (loose_notes w) i of None \<Rightarrow> False | Some n \<Rightarrow> \<not> n_Deleted n)"
| "at_place i w (Entry k) \<longleftrightarrow> (case map_of (incidents (web w)) k of None \<Rightarrow> False | Some d \<Rightarrow> live_in i (d_Log d))"

definition homes :: "string \<Rightarrow> note_world \<Rightarrow> place set" where
  "homes i w = {p. at_place i w p}"

text \<open>The documents of the incidents have different keys, all object identifiers; the entries of a log have different identifiers.\<close>

definition keyed :: "note_world \<Rightarrow> bool" where
  "keyed w \<longleftrightarrow> distinct (map fst (incidents (web w))) \<and> (\<forall>(k, d) \<in> set (incidents (web w)). IsObjectIdHex k \<and> distinct (map n_Id (d_Log d)))"

definition in_one_place :: "note_world \<Rightarrow> bool" where
  "in_one_place w \<longleftrightarrow> keyed w \<and> (\<forall>i p q. p \<in> homes i w \<longrightarrow> q \<in> homes i w \<longrightarrow> p = q)"

lemma map_entry_upd: "map_of (AList.map_entry k f xs) = (map_of xs)(k := map_option f (map_of xs k))"
  by (rule ext) (simp add: map_of_map_entry)

lemma fst_map_entry [simp]: "map fst (AList.map_entry k f xs) = map fst xs"
  by (induction xs) auto

lemma set_map_entry_subset: "set (AList.map_entry k f xs) \<subseteq> set xs \<union> {(k, f d) | d. map_of xs k = Some d}"
  by (induction xs) (auto split: if_splits)

lemma flag_entry_ids [simp]: "map n_Id (flag_entry b l ns) = map n_Id ns"
  by (induction ns) auto

lemma flag_entry_id_set: "l \<notin> n_Id ` set ns \<Longrightarrow> flag_entry b l ns = ns"
  by (induction ns) auto

lemma live_in_simps [simp]: "\<not> live_in i []" "live_in i (n # ns) \<longleftrightarrow> n_Id n = i \<and> \<not> n_Deleted n \<or> live_in i ns"
  by (auto simp: live_in_def)

lemma live_absent: "i \<notin> n_Id ` set ns \<Longrightarrow> \<not> live_in i ns"
  by (auto simp: live_in_def)

lemma live_flag_entry:
  assumes "distinct (map n_Id ns)" "l \<in> n_Id ` set ns"
  shows "live_in i (flag_entry b l ns) \<longleftrightarrow> (if i = l then \<not> b else live_in i ns)"
  using assms
proof (induction ns)
  case (Cons n ns)
  then show ?case using live_absent[of l ns] by (cases "n_Id n = l") auto
qed simp

lemma live_append [simp]: "live_in i (ns @ [n]) \<longleftrightarrow> live_in i ns \<or> n_Id n = i \<and> \<not> n_Deleted n"
  by (auto simp: live_in_def)

text \<open>What is asked of a state depends on two collections only.\<close>

lemma homes_cong:
  assumes "map_of (loose_notes w') = map_of (loose_notes w)" "incidents (web w') = incidents (web w)"
  shows "homes i w' = homes i w" "keyed w' = keyed w"
proof -
  have "at_place i w' p = at_place i w p" for p using assms by (cases p) simp_all
  then show "homes i w' = homes i w" by (simp add: homes_def)
qed (simp add: keyed_def assms)

lemma answers_collections [simp]:
  "loose_notes (note_audit a b w) = loose_notes w" "web (note_audit a b w) = web w"
  "loose_notes (fst (note_refuse a b c w)) = loose_notes w" "web (fst (note_refuse a b c w)) = web w"
  "loose_notes (Publish_note a n w) = loose_notes w" "web (Publish_note a n w) = web w"
  "loose_notes (incident_audit a b w) = loose_notes w" "incidents (web (incident_audit a b w)) = incidents (web w)"
  "loose_notes (fst (incident_refuse a b c w)) = loose_notes w" "incidents (web (fst (incident_refuse a b c w))) = incidents (web w)"
  by (simp_all add: note_audit_def note_refuse_def Publish_note_def incident_audit_def incident_refuse_def audit_def)

lemma errors_collections [simp]:
  "loose_notes (fst (note_error a f w)) = loose_notes w" "web (fst (note_error a f w)) = web w"
  "loose_notes (fst (note_unfound a f w)) = loose_notes w" "web (fst (note_unfound a f w)) = web w"
  "loose_notes (fst (incident_error a f w)) = loose_notes w" "incidents (web (fst (incident_error a f w))) = incidents (web w)"
  "loose_notes (fst (incident_unfound a f w)) = loose_notes w" "incidents (web (fst (incident_unfound a f w))) = incidents (web w)"
  by (cases f; simp add: note_unfound_def incident_unfound_def)+

lemma homes_answers [simp]:
  "homes i (note_audit a b w) = homes i w" "homes i (fst (note_refuse a b c w)) = homes i w" "homes i (Publish_note a n w) = homes i w"
  "homes i (incident_audit a b w) = homes i w" "homes i (fst (incident_refuse a b c w)) = homes i w"
  "homes i (fst (note_error a f w)) = homes i w" "homes i (fst (note_unfound a f w)) = homes i w"
  "homes i (fst (incident_error a f w)) = homes i w" "homes i (fst (incident_unfound a f w)) = homes i w"
  by (rule homes_cong; simp)+

lemma keyed_answers [simp]:
  "keyed (note_audit a b w) = keyed w" "keyed (fst (note_refuse a b c w)) = keyed w" "keyed (Publish_note a n w) = keyed w"
  "keyed (incident_audit a b w) = keyed w" "keyed (fst (incident_refuse a b c w)) = keyed w"
  "keyed (fst (note_error a f w)) = keyed w" "keyed (fst (note_unfound a f w)) = keyed w"
  "keyed (fst (incident_error a f w)) = keyed w" "keyed (fst (incident_unfound a f w)) = keyed w"
  by (rule homes_cong; simp)+

section \<open>The effect of the database calls\<close>

lemma mem_homes [simp]: "p \<in> homes i w \<longleftrightarrow> at_place i w p"
  by (simp add: homes_def)

lemma homes_eqI: "(\<And>p. at_place i w p \<longleftrightarrow> p \<in> S) \<Longrightarrow> homes i w = S"
  by (auto simp: homes_def)

lemma flag_note_failed: "flag_note e b i w = (w', Inl f) \<Longrightarrow> w' = w"
  by (auto simp: flag_note_def split: if_splits option.splits)

lemma flag_note_homes:
  assumes "flag_note e b i w = (w', Inr u)"
  shows "homes j w' = (if j \<noteq> i then homes j w else if b then homes j w - {Unassigned} else insert Unassigned (homes j w))"
    "web w' = web w" "map_of (loose_notes w') = (map_of (loose_notes w))(i := map_option (n_Deleted_update (\<lambda>_. b)) (map_of (loose_notes w) i))"
proof -
  show w: "web w' = web w" "map_of (loose_notes w') = (map_of (loose_notes w))(i := map_option (n_Deleted_update (\<lambda>_. b)) (map_of (loose_notes w) i))"
    using assms by (auto simp: flag_note_def map_entry_upd split: if_splits option.splits)
  have n: "map_of (loose_notes w) i \<noteq> None" using assms by (auto simp: flag_note_def split: if_splits option.splits)
  show "homes j w' = (if j \<noteq> i then homes j w else if b then homes j w - {Unassigned} else insert Unassigned (homes j w))"
  proof (rule homes_eqI)
    fix p
    show "at_place j w' p \<longleftrightarrow> p \<in> (if j \<noteq> i then homes j w else if b then homes j w - {Unassigned} else insert Unassigned (homes j w))"
      using w n by (cases p) (auto split: option.splits)
  qed
qed

lemma note_Upsert_failed: "note_Upsert e i n w = (w', Inl f) \<Longrightarrow> w' = w"
  by (auto simp: note_Upsert_def Let_def split: if_splits option.splits)

lemma note_Upsert_homes:
  assumes "note_Upsert e i n w = (w', Inr key)" "i \<noteq> ''''"
  shows "homes j w' = (if j \<noteq> i then homes j w else if n_Deleted n then homes j w - {Unassigned} else insert Unassigned (homes j w))"
    "web w' = web w" "map_of (loose_notes w') = (map_of (loose_notes w))(i \<mapsto> n)" "key = i"
proof -
  show w: "web w' = web w" "map_of (loose_notes w') = (map_of (loose_notes w))(i \<mapsto> n)" "key = i"
    using assms by (auto simp: note_Upsert_def Let_def update_conv' split: if_splits option.splits)
  show "homes j w' = (if j \<noteq> i then homes j w else if n_Deleted n then homes j w - {Unassigned} else insert Unassigned (homes j w))"
  proof (rule homes_eqI)
    fix p
    show "at_place j w' p \<longleftrightarrow> p \<in> (if j \<noteq> i then homes j w else if n_Deleted n then homes j w - {Unassigned} else insert Unassigned (homes j w))"
      using w by (cases p) (auto split: option.splits)
  qed
qed

lemma keyed_log: "keyed w \<Longrightarrow> map_of (incidents (web w)) k = Some d \<Longrightarrow> distinct (map n_Id (d_Log d))"
  by (auto simp: keyed_def dest: map_of_SomeD)

lemma flag_log_entry_failed: "flag_log_entry fault b k l w = (w', Inl f) \<Longrightarrow> w' = w"
  by (auto simp: flag_log_entry_def split: if_splits option.splits)

lemma flag_log_entry_ok:
  assumes "flag_log_entry fault b k l w = (w', Inr u)"
  shows "loose_notes w' = loose_notes w"
    "\<exists>d. map_of (incidents (web w)) k = Some d \<and> l \<in> n_Id ` set (d_Log d) \<and>
       map_of (incidents (web w')) = (map_of (incidents (web w)))(k \<mapsto> d\<lparr>d_Log := flag_entry b l (d_Log d)\<rparr>)"
    "incidents (web w') = AList.map_entry k (d_Log_update (flag_entry b l)) (incidents (web w))"
  using assms by (auto simp: flag_log_entry_def map_entry_upd split: if_splits option.splits)

lemma flag_log_entry_homes:
  assumes "flag_log_entry fault b k l w = (w', Inr u)" "keyed w"
  shows "homes j w' = (if j \<noteq> l then homes j w else if b then homes j w - {Entry k} else insert (Entry k) (homes j w))"
    "keyed w'"
proof -
  obtain d where d: "map_of (incidents (web w)) k = Some d" "l \<in> n_Id ` set (d_Log d)"
      "map_of (incidents (web w')) = (map_of (incidents (web w)))(k \<mapsto> d\<lparr>d_Log := flag_entry b l (d_Log d)\<rparr>)"
    using flag_log_entry_ok(2)[OF assms(1)] by blast
  note live = live_flag_entry[OF keyed_log[OF assms(2) d(1)] d(2)]
  show "homes j w' = (if j \<noteq> l then homes j w else if b then homes j w - {Entry k} else insert (Entry k) (homes j w))"
  proof (rule homes_eqI)
    fix p
    show "at_place j w' p \<longleftrightarrow> p \<in> (if j \<noteq> l then homes j w else if b then homes j w - {Entry k} else insert (Entry k) (homes j w))"
      using d live flag_log_entry_ok(1)[OF assms(1)] by (cases p) auto
  qed
  show "keyed w'"
    using assms(2) flag_log_entry_ok(3)[OF assms(1)] set_map_entry_subset[of k "d_Log_update (flag_entry b l)" "incidents (web w)"]
      keyed_log[OF assms(2)] d(1) by (fastforce simp: keyed_def dest: map_of_SomeD)
qed

text \<open>An entry is appended to a log that has no entry with its identifier.\<close>

lemma append_homes:
  assumes "UpdateIncident e k (d\<lparr>d_Log := d_Log d @ [n]\<rparr>) w = (w', Inr key)" "k \<noteq> ''''" "keyed w"
    "getIncident f k (web w) = Inr d" "n_Id n = i" "\<not> n_Deleted n" "i \<notin> n_Id ` set (d_Log d)"
  shows "homes j w' = (if j \<noteq> i then homes j w else insert (Entry k) (homes j w))" "keyed w'"
    "loose_notes w' = loose_notes w" "map_of (incidents (web w')) = (map_of (incidents (web w)))(k \<mapsto> d\<lparr>d_Log := d_Log d @ [n]\<rparr>)"
proof -
  obtain d0 where d0: "map_of (incidents (web w)) k = Some d0" "d = d0\<lparr>d_Id := k\<rparr>"
    using getIncident_Some[OF assms(4) getIncident_hex[OF assms(4,2)]] by blast
  have inc: "incidents (web w') = AList.update k (d\<lparr>d_Log := d_Log d @ [n]\<rparr>) (incidents (web w))"
    using assms(1,2) by (auto simp: UpdateIncident_def misc_Upsert_def Let_def split: option.splits)
  show l: "loose_notes w' = loose_notes w" using assms(1) by (auto simp: UpdateIncident_def split: prod.splits)
  show m: "map_of (incidents (web w')) = (map_of (incidents (web w)))(k \<mapsto> d\<lparr>d_Log := d_Log d @ [n]\<rparr>)"
    by (simp add: inc update_conv')
  show "homes j w' = (if j \<noteq> i then homes j w else insert (Entry k) (homes j w))"
  proof (rule homes_eqI)
    fix p
    show "at_place j w' p \<longleftrightarrow> p \<in> (if j \<noteq> i then homes j w else insert (Entry k) (homes j w))"
      using d0 m l assms(5,6) by (cases p) auto
  qed
  show "keyed w'"
    using assms(3,5,7) keyed_log[OF assms(3) d0(1)] d0(2) getIncident_hex[OF assms(4,2)] set_update_subset[of k "d\<lparr>d_Log := d_Log d @ [n]\<rparr>" "incidents (web w)"]
    by (fastforce simp: keyed_def inc distinct_update)
qed

lemma entry_found_append:
  "entry_found i b (ds @ [(k, d)]) =
     (case filter (\<lambda>n. n_Id n = i \<and> (b \<or> \<not> n_Deleted n)) (d_Log d) of [] \<Rightarrow> entry_found i b ds | n # _ \<Rightarrow> Some n)"
proof (cases "filter (\<lambda>n. n_Id n = i \<and> (b \<or> \<not> n_Deleted n)) (d_Log d)")
  case (Cons n ns)
  then have "n \<in> set (filter (\<lambda>n. n_Id n = i \<and> (b \<or> \<not> n_Deleted n)) (d_Log d))" by simp
  then have "i \<in> n_Id ` set (d_Log d) \<and> (b \<or> (\<exists>n \<in> set (d_Log d). \<not> n_Deleted n))" by auto
  with Cons show ?thesis by (simp add: entry_found_def)
qed (simp add: entry_found_def)

lemma entry_found_Some: "entry_found i b ds = Some n \<Longrightarrow> \<exists>(k, d) \<in> set ds. n \<in> set (d_Log d) \<and> n_Id n = i \<and> (b \<or> \<not> n_Deleted n)"
proof (induction ds rule: rev_induct)
  case (snoc x ds)
  obtain k d where "x = (k, d)" by force
  with snoc show ?case by (auto simp: entry_found_append filter_eq_Cons_iff split: list.splits)
qed (simp add: entry_found_def)

lemma entry_found_None:
  "entry_found i b ds = None \<longleftrightarrow> (\<forall>(k, d) \<in> set ds. \<forall>n \<in> set (d_Log d). \<not> (n_Id n = i \<and> (b \<or> \<not> n_Deleted n)))"
proof (induction ds rule: rev_induct)
  case (snoc x ds)
  obtain k d where "x = (k, d)" by force
  with snoc show ?case by (auto simp: entry_found_append filter_empty_conv filter_eq_Cons_iff split: list.splits)
qed (simp add: entry_found_def)

lemma FindIncident_live:
  assumes "FindIncidentByLogEntry e l False w = Inr (Some d)" "keyed w"
  shows "Entry (d_Id d) \<in> homes l w"
proof -
  obtain k d0 where d: "find (\<lambda>(k, d). \<exists>n \<in> set (d_Log d). (False \<or> \<not> n_Deleted n) \<and> n_Id n = l) (incidents (web w)) = Some (k, d0)" "d = d0\<lparr>d_Id := k\<rparr>"
    using assms(1) by (auto simp: FindIncidentByLogEntry_def FindAllIncidents_def split: option.splits)
  then have "(k, d0) \<in> set (incidents (web w))" "live_in l (d_Log d0)" by (auto simp: find_Some_iff live_in_def) (metis nth_mem)
  then show ?thesis using assms(2) d(2) by (auto simp: keyed_def)
qed

lemma FindOneNote_loose:
  "FindOneNote e i ''false'' b w = Inr n \<longleftrightarrow> IsObjectIdHex i \<and> \<not> note_unread e \<and>
     (\<exists>m. map_of (loose_notes w) i = Some m \<and> (b \<or> \<not> n_Deleted m) \<and> n = m\<lparr>n_Id := i\<rparr>)"
  by (auto simp: FindOneNote_def split: option.splits)

lemma FindOneNote_entry:
  "FindOneNote e i ''true'' b w = Inr n \<longleftrightarrow> \<not> entries_unread e \<and> entry_found i b (incidents (web w)) = Some n"
  by (auto simp: FindOneNote_def split: option.splits)

lemma note_attach_same:
  "note_attach e n = Inr n' \<Longrightarrow> n_Id n' = n_Id n \<and> n_Deleted n' = n_Deleted n \<and> n_Note n' = n_Note n"
  by (auto simp: note_attach_def rbind_eq_Inr split: option.splits)

text \<open>The end of an assignment gives the note at most one more place, the log of the incident.\<close>

lemma put_into_log_homes:
  fixes e :: note_env and checked :: bool
  assumes "keyed w" "t \<noteq> ''''" "n_Id note = i" "\<not> n_Deleted note"
  defines "w' \<equiv> fst (put_into_log e checked t i note w)"
  shows "keyed w' \<and> (\<forall>j. j \<noteq> i \<longrightarrow> homes j w' = homes j w) \<and> (homes i w' = homes i w \<or> homes i w' = insert (Entry t) (homes i w))"
proof (cases "getIncident (get_fault (inc_env e)) t (web w)")
  case (Inr d)
  note g = this
  show ?thesis
  proof (cases "note_attach e (note\<lparr>n_Timestamp := Some (req_time (inc_env e)), n_Assigned := True\<rparr>)")
    case (Inr n)
    note n = note_attach_same[OF this]
    show ?thesis
    proof (cases "i \<in> n_Id ` set (d_Log d)")
      case True
      obtain w1 r where r: "RestoreIncidentLogEntry e t i w = (w1, r)" by force
      have "keyed w1 \<and> (\<forall>j. j \<noteq> i \<longrightarrow> homes j w1 = homes j w) \<and> (homes i w1 = homes i w \<or> homes i w1 = insert (Entry t) (homes i w))"
        using r assms(1) flag_log_entry_failed flag_log_entry_homes by (cases r) (fastforce simp: RestoreIncidentLogEntry_def)+
      then show ?thesis
        using g Inr True r by (auto simp: w'_def put_into_log_def split: sum.splits)
    next
      case False
      obtain w1 r where r: "UpdateIncident e t (d\<lparr>d_Log := d_Log d @ [n]\<rparr>) w = (w1, r)" by force
      have "keyed w1 \<and> (\<forall>j. j \<noteq> i \<longrightarrow> homes j w1 = homes j w) \<and> (homes i w1 = homes i w \<or> homes i w1 = insert (Entry t) (homes i w))"
      proof (cases r)
        case (Inl f)
        then have "w1 = w" using r by (auto simp: UpdateIncident_def misc_Upsert_def Let_def split: option.splits)
        then show ?thesis using assms(1) by simp
      next
        case (Inr key)
        have "n_Id n = i" "\<not> n_Deleted n" using n assms(3,4) by simp_all
        from append_homes[OF r[unfolded Inr] assms(2,1) g this False] show ?thesis by simp
      qed
      then show ?thesis
        using g Inr False r by (cases r) (auto simp: w'_def put_into_log_def split: sum.splits)
    qed
  qed (use assms(1) in \<open>simp add: w'_def put_into_log_def g\<close>)
qed (use assms(1) in \<open>simp add: w'_def put_into_log_def\<close>)

section \<open>A note is in one place\<close>

datatype note_request =
    Note_create "log_note option"
  | Note_read_all
  | Note_read "string option" "string option"
  | Note_update "string option" "log_note option"
  | Note_delete "string option"
  | Note_assign "string option" "string option"
  | Note_detach "string option" "string option"

fun serve_note :: "note_env \<Rightarrow> note_request \<Rightarrow> note_world \<Rightarrow> note_world \<times> note_answer res" where
  "serve_note e (Note_create body) w = NoteRest_Create e body w"
| "serve_note e Note_read_all w = NoteRest_ReadAll e w"
| "serve_note e (Note_read pid a) w = NoteRest_ReadOne e pid a w"
| "serve_note e (Note_update pid body) w = NoteRest_Update e pid body w"
| "serve_note e (Note_delete pid) w = NoteRest_Delete e pid w"
| "serve_note e (Note_assign nid tid) w = NoteRest_Assign e nid tid w"
| "serve_note e (Note_detach pid lid) w = DetachLogEntry e pid lid w"

definition serve_notes :: "(note_env \<times> note_request) list \<Rightarrow> note_world \<Rightarrow> note_world" where
  "serve_notes rs w = fold (\<lambda>(e, r) w. fst (serve_note e r w)) rs w"

text \<open>
  The requests that move a note: identifiers are not empty, a new note has a new identifier, and no note is detached from
  an incident whose entry of the note is already deleted. Nothing is asked of the database.
\<close>

definition stale_entry :: "string \<Rightarrow> string \<Rightarrow> note_world \<Rightarrow> bool" where
  "stale_entry k l w \<longleftrightarrow>
     (case map_of (incidents (web w)) k of None \<Rightarrow> False | Some d \<Rightarrow> l \<in> n_Id ` set (d_Log d) \<and> \<not> live_in l (d_Log d))"

fun moves :: "note_env \<times> note_request \<Rightarrow> note_world \<Rightarrow> bool" where
  "moves (e, Note_create body) w \<longleftrightarrow> hd (fresh (inc_env e)) \<noteq> '''' \<and> homes (hd (fresh (inc_env e))) w = {}"
| "moves (e, Note_update _ _) w \<longleftrightarrow> False"
| "moves (e, Note_assign _ (Some t)) w \<longleftrightarrow> t \<noteq> ''''"
| "moves (e, Note_detach (Some k) (Some l)) w \<longleftrightarrow> \<not> stale_entry k l w"
| "moves _ w \<longleftrightarrow> True"

fun moves_all :: "(note_env \<times> note_request) list \<Rightarrow> note_world \<Rightarrow> bool" where
  "moves_all [] w \<longleftrightarrow> True"
| "moves_all ((e, r) # rs) w \<longleftrightarrow> moves (e, r) w \<and> moves_all rs (fst (serve_note e r w))"

lemma in_one_placeI:
  assumes "in_one_place w" "keyed w'" "\<And>j. j \<noteq> i \<Longrightarrow> homes j w' = homes j w" "homes i w' \<subseteq> homes i w \<or> homes i w' \<subseteq> {p}"
  shows "in_one_place w'"
proof -
  have one: "p' = q" if "p' \<in> homes j w" "q \<in> homes j w" for j p' q
    using assms(1) that unfolding in_one_place_def by blast
  have "p' = q" if "p' \<in> homes j w'" "q \<in> homes j w'" for j p' q
  proof (cases "j = i")
    case True
    then show ?thesis using that assms(4) one[of p' i q] by blast
  next
    case False
    then show ?thesis using that one[of p' j q] assms(3) by blast
  qed
  then show ?thesis using assms(2) unfolding in_one_place_def by blast
qed

lemma one_place_removed: "in_one_place w \<Longrightarrow> p \<in> homes i w \<Longrightarrow> homes i w - {p} = {}"
  by (auto simp: in_one_place_def)

lemma one_place_same: "in_one_place w \<Longrightarrow> loose_notes w' = loose_notes w \<Longrightarrow> incidents (web w') = incidents (web w) \<Longrightarrow> in_one_place w'"
  using homes_cong[of w' w] by (simp add: in_one_place_def del: mem_homes)

lemma keyed_loose: "web w' = web w \<Longrightarrow> keyed w' = keyed w"
  by (simp add: keyed_def)

lemma Create_one_place:
  assumes "in_one_place w" "moves (e, Note_create body) w"
  shows "in_one_place (fst (NoteRest_Create e body w))"
proof (cases "note_allowed e ''CREATE'' \<and> body \<noteq> None")
  case True
  then obtain n0 where n0: "body = Some n0" "note_allowed e ''CREATE''" by blast
  define n1 where "n1 = n0\<lparr>n_Id := hd (fresh (inc_env e)), n_Timestamp := Some (req_time (inc_env e))\<rparr>"
  show ?thesis
  proof (cases "note_attach e n1")
    case (Inr n)
    have i: "n_Id n = hd (fresh (inc_env e))" using note_attach_same[OF Inr] by (simp add: n1_def)
    obtain w1 r where r: "note_Upsert e (n_Id n) n w = (w1, r)" by force
    have "in_one_place w1"
    proof (cases r)
      case (Inr key)
      have ne: "n_Id n \<noteq> ''''" "homes (n_Id n) w = {}" using assms(2) i by simp_all
      note u = note_Upsert_homes[OF r[unfolded Inr] ne(1)]
      show ?thesis
        by (rule in_one_placeI[OF assms(1), of _ "n_Id n" Unassigned])
          (use u ne assms(1) keyed_loose[OF u(2)] in \<open>auto simp: in_one_place_def simp del: mem_homes\<close>)
    qed (use assms(1) note_Upsert_failed r in blast)
    then show ?thesis
      using n0 Inr r by (cases r) (auto simp: NoteRest_Create_def CreateNote_def n1_def[symmetric] Let_def intro: one_place_same)
  qed (use n0 assms(1) in \<open>auto simp: NoteRest_Create_def Let_def n1_def[symmetric] intro: one_place_same\<close>)
qed (use assms(1) in \<open>auto simp: NoteRest_Create_def intro: one_place_same\<close>)

lemma DeleteNote_one_place:
  assumes "in_one_place w" "DeleteNote e i w = (w1, r)"
  shows "in_one_place w1"
proof (cases r)
  case (Inr u)
  note d = flag_note_homes[OF assms(2)[unfolded Inr DeleteNote_def]]
  show ?thesis
    by (rule in_one_placeI[OF assms(1), of _ i])
      (use d(1) assms(1) keyed_loose[OF d(2)] in \<open>auto simp: in_one_place_def simp del: mem_homes\<close>)
qed (use assms flag_note_failed[of e True i w w1] in \<open>auto simp: DeleteNote_def\<close>)

lemma Delete_one_place:
  assumes "in_one_place w"
  shows "in_one_place (fst (NoteRest_Delete e pid w))"
proof (cases pid)
  case (Some i)
  obtain w1 r where r: "DeleteNote e i w = (w1, r)" by force
  have "in_one_place w1" by (rule DeleteNote_one_place[OF assms r])
  then show ?thesis using assms r Some by (auto simp: NoteRest_Delete_def split: sum.splits intro: one_place_same)
qed (use assms in \<open>auto simp: NoteRest_Delete_def intro: one_place_same\<close>)

lemma put_one_place:
  assumes "in_one_place w" "keyed w1" "\<And>j. j \<noteq> i \<Longrightarrow> homes j w1 = homes j w" "homes i w1 = {}"
    "t \<noteq> ''''" "n_Id n = i" "\<not> n_Deleted n"
  shows "in_one_place (fst (put_into_log e checked t i n w1))"
  by (rule in_one_placeI[OF assms(1), of _ i "Entry t"])
    (use put_into_log_homes[OF assms(2,5,6,7), of e checked] assms(3,4) in \<open>auto simp del: mem_homes\<close>)

lemma Assign_one_place:
  assumes "in_one_place w" "t \<noteq> ''''"
  shows "in_one_place (fst (NoteRest_Assign e (Some i) (Some t) w))"
proof -
  have k: "keyed w" using assms(1) by (simp add: in_one_place_def)
  consider (loose) n where "FindOneNote e i ''false'' False w = Inr n"
    | (entry) n d where "FindOneNote e i ''false'' False w = Inl ErrorNotFound" "FindOneNote e i ''true'' False w = Inr n"
        "FindIncidentByLogEntry e i False w = Inr (Some d)" "d_Id d \<noteq> t" "note_allowed e ''ASSIGN''"
    | (same) "loose_notes (fst (NoteRest_Assign e (Some i) (Some t) w)) = loose_notes w"
        "incidents (web (fst (NoteRest_Assign e (Some i) (Some t) w))) = incidents (web w)"
    by (force simp: NoteRest_Assign_def split: sum.splits option.splits if_splits)
  then show ?thesis
  proof cases
    case loose
    obtain w1 r where r: "DeleteNote e i w = (w1, r)" by force
    have "in_one_place (fst (put_into_log e True t i n w1))" if r': "r = Inr u" for u
    proof -
      note d = flag_note_homes[OF r[unfolded r' DeleteNote_def]]
      have "Unassigned \<in> homes i w" using loose by (auto simp: FindOneNote_loose)
      then have "homes i w1 = {}" using one_place_removed[OF assms(1)] d(1) by simp
      then show ?thesis
        using loose d(1) k keyed_loose[OF d(2)]
        by (intro put_one_place[OF assms(1)]) (auto simp: FindOneNote_loose assms(2) simp del: mem_homes)
    qed
    then show ?thesis
      using r loose assms(1) DeleteNote_one_place[OF assms(1) r]
      by (cases r) (auto simp: NoteRest_Assign_def intro: one_place_same)
  next
    case entry
    obtain w1 r where r: "DeleteIncidentLogEntry e (d_Id d) i w = (w1, r)" by force
    have n: "n_Id n = i" "\<not> n_Deleted n"
      using entry(2) entry_found_Some[of i False "incidents (web w)" n] by (auto simp: FindOneNote_entry)
    show ?thesis
    proof (cases r)
      case (Inl f)
      then show ?thesis
        using r entry assms(1) flag_log_entry_failed[of "entry_delete_fault e" True "d_Id d" i w w1 f]
        by (auto simp: NoteRest_Assign_def DeleteIncidentLogEntry_def intro: one_place_same)
    next
      case (Inr u)
      note d = flag_log_entry_homes[OF r[unfolded Inr DeleteIncidentLogEntry_def] k]
      have "in_one_place (fst (put_into_log e False t i n w1))"
        using d one_place_removed[OF assms(1) FindIncident_live[OF entry(3) k]] n
        by (intro put_one_place[OF assms(1)]) (simp_all add: assms(2))
      then show ?thesis using r Inr entry by (simp add: NoteRest_Assign_def)
    qed
  qed (use assms(1) in \<open>auto intro: one_place_same\<close>)
qed

lemma not_found_hex: "FindOneNote e l ''false'' b w = Inl ErrorNotFound \<Longrightarrow> l \<noteq> ''''"
  by (auto simp: FindOneNote_def bad_hex_def ErrorNotFound_def IsObjectIdHex_def split: if_splits)

text \<open>Once the entry is marked, a detachment leaves the rest alone or gives the note its place without incident.\<close>

lemma Detach_homes:
  assumes "DeleteIncidentLogEntry e k l w = (w1, Inr u)" "allowed (inc_env e) ''DETACH_NOTE''"
  defines "w' \<equiv> fst (DetachLogEntry e (Some k) (Some l) w)"
  shows "incidents (web w') = incidents (web w1) \<and> (\<forall>j. j \<noteq> l \<longrightarrow> homes j w' = homes j w1) \<and> homes l w' \<subseteq> insert Unassigned (homes l w1)"
proof -
  have same: ?thesis if "loose_notes w' = loose_notes w1" "incidents (web w') = incidents (web w1)"
    using homes_cong[of w' w1] that by auto
  show ?thesis
  proof (cases "FindOneNote e l ''false'' True w1")
    case (Inr n)
    obtain w2 r where r: "flag_note e False l w1 = (w2, r)" by force
    have c: "loose_notes w' = loose_notes w2 \<and> incidents (web w') = incidents (web w2)"
      using Inr r assms(1,2) by (cases r) (auto simp: w'_def DetachLogEntry_def RestoreNote_def split: sum.splits option.splits)
    show ?thesis
    proof (cases r)
      case (Inr u)
      from flag_note_homes[OF r[unfolded this]] c homes_cong[of w' w2] show ?thesis by (simp del: mem_homes)
    qed (use same c flag_note_failed[of e False l w1 w2] r in auto)
  next
    case (Inl f)
    note f = this
    show ?thesis
    proof (cases "f = ErrorNotFound \<and> (\<exists>n0. FindOneNote e l ''true'' True w1 = Inr n0)")
      case True
      then obtain n0 where n0: "FindOneNote e l ''true'' True w1 = Inr n0" by blast
      let ?n = "n0\<lparr>n_Id := hd (fresh (inc_env e)), n_Timestamp := Some (req_time (inc_env e)), n_Assigned := False, n_Deleted := False\<rparr>"
      show ?thesis
      proof (cases "note_attach e ?n")
        case (Inl g)
        then show ?thesis using f True n0 assms(1,2) by (intro same) (simp_all add: w'_def DetachLogEntry_def)
      next
        case (Inr n)
        obtain w2 r where r: "note_Upsert e l n w1 = (w2, r)" by force
        have c: "loose_notes w' = loose_notes w2 \<and> incidents (web w') = incidents (web w2)"
          using Inr f True n0 r assms(1,2) by (cases r) (auto simp: w'_def DetachLogEntry_def UpdateNote_def split: sum.splits option.splits)
        have l: "l \<noteq> ''''" using not_found_hex[of e l True w1] f True by simp
        show ?thesis
        proof (cases r)
          case (Inr key)
          from note_Upsert_homes[OF r[unfolded this] l] c homes_cong[of w' w2] show ?thesis by (auto simp del: mem_homes)
        qed (use same c note_Upsert_failed[of e l n w1 w2] r in auto)
      qed
    qed (use f assms(1,2) in \<open>intro same; auto simp: w'_def DetachLogEntry_def split: sum.splits\<close>)
  qed
qed

lemma Detach_one_place:
  assumes "in_one_place w" "\<not> stale_entry k l w"
  shows "in_one_place (fst (DetachLogEntry e (Some k) (Some l) w))"
proof -
  obtain w1 r where r: "DeleteIncidentLogEntry e k l w = (w1, r)" by force
  have k: "keyed w" using assms(1) by (simp add: in_one_place_def)
  consider (ok) u where "r = Inr u" "allowed (inc_env e) ''DETACH_NOTE''"
    | (same) "loose_notes (fst (DetachLogEntry e (Some k) (Some l) w)) = loose_notes w"
        "incidents (web (fst (DetachLogEntry e (Some k) (Some l) w))) = incidents (web w)"
    using r flag_log_entry_failed[of "entry_delete_fault e" True k l w w1]
    by (cases r; cases "allowed (inc_env e) ''DETACH_NOTE''") (auto simp: DetachLogEntry_def DeleteIncidentLogEntry_def)
  then show ?thesis
  proof cases
    case ok
    note d = flag_log_entry_homes[OF r[unfolded ok DeleteIncidentLogEntry_def] k]
    have "at_place l w (Entry k)"
      using flag_log_entry_ok(2)[OF r[unfolded ok DeleteIncidentLogEntry_def]] assms(2) by (auto simp: stale_entry_def)
    then have "homes l w1 = {}" using d(1) one_place_removed[OF assms(1), of "Entry k" l] by (simp del: at_place.simps)
    with Detach_homes[OF r[unfolded ok(1)] ok(2)] d show ?thesis
      by (intro in_one_placeI[OF assms(1), of _ l Unassigned]) (auto simp: keyed_def simp del: mem_homes)
  qed (use assms(1) in \<open>auto intro: one_place_same\<close>)
qed

lemma read_one_place:
  assumes "in_one_place w"
  shows "in_one_place (fst (NoteRest_ReadAll e w))" "in_one_place (fst (NoteRest_ReadOne e pid a w))"
  using assms
  by (auto simp: NoteRest_ReadAll_def NoteRest_ReadOne_def Let_def split: sum.splits option.splits intro: one_place_same)

lemma request_one_place:
  assumes "in_one_place w" "moves (e, r) w"
  shows "in_one_place (fst (serve_note e r w))"
proof (cases r)
  case (Note_assign nid tid)
  then show ?thesis
    using assms Assign_one_place[of w "the tid" e "the nid"]
    by (cases nid; cases tid) (auto simp: NoteRest_Assign_def intro: one_place_same)
next
  case (Note_detach pid lid)
  then show ?thesis
    using assms Detach_one_place[of w "the pid" "the lid" e]
    by (cases pid; cases lid) (auto simp: DetachLogEntry_def simp del: at_place.simps intro: one_place_same)
qed (use assms Create_one_place Delete_one_place read_one_place in auto)

text \<open>C16. C16.
  Requests that create, delete, assign, detach and read notes never bring a note into two places, neither into the logs of
  two incidents nor into a log and among the notes without incident, whatever fails in the database: provided a new note
  gets a new identifier and no request detaches a note from an incident in which its entry is already deleted. For
  the second condition see \<open>stale_detach_doubles_note\<close>.
\<close>

theorem note_in_one_place:
  assumes "in_one_place w" "moves_all rs w" "p \<in> homes i (serve_notes rs w)" "q \<in> homes i (serve_notes rs w)"
  shows "p = q"
proof -
  have "in_one_place (serve_notes rs w)"
    using assms(1,2)
  proof (induction rs arbitrary: w)
    case (Cons x rs)
    obtain e r where "x = (e, r)" by force
    with Cons request_one_place[of w e r] show ?case by (simp add: serve_notes_def)
  qed (simp add: serve_notes_def)
  then show ?thesis using assms(3,4) unfolding in_one_place_def by blast
qed

section \<open>The moves of a note\<close>

text \<open>What the requests promise: a note is nowhere or in one place, and each request moves it there.\<close>

type_synonym whereabouts = "string \<rightharpoonup> place"

fun note_spec :: "note_env \<Rightarrow> note_request \<Rightarrow> whereabouts \<Rightarrow> whereabouts" where
  "note_spec e (Note_create (Some n)) at = at(hd (fresh (inc_env e)) \<mapsto> Unassigned)"
| "note_spec e (Note_delete (Some i)) at = (if at i = Some Unassigned then at(i := None) else at)"
| "note_spec e (Note_assign (Some i) (Some t)) at = (if at i = None then at else at(i \<mapsto> Entry t))"
| "note_spec e (Note_detach (Some k) (Some l)) at = at(l \<mapsto> Unassigned)"
| "note_spec e r at = at"

definition note_specs :: "(note_env \<times> note_request) list \<Rightarrow> whereabouts \<Rightarrow> whereabouts" where
  "note_specs rs at = fold (\<lambda>(e, r). note_spec e r) rs at"

definition tracks :: "whereabouts \<Rightarrow> note_world \<Rightarrow> bool" where
  "tracks at w \<longleftrightarrow> keyed w \<and> (\<forall>i. homes i w = set_option (at i))"

definition smooth :: "note_env \<Rightarrow> bool" where
  "smooth e \<longleftrightarrow> note_allowed e = (\<lambda>_. True) \<and> allowed (inc_env e) = (\<lambda>_. True) \<and> \<not> note_unread e \<and> \<not> entries_unread e \<and>
     incidents_fault e = None \<and> notes_fault e = None \<and> note_update_fault e = None \<and> note_upsert_fault e = None \<and>
     entry_delete_fault e = None \<and> entry_restore_fault e = None \<and>
     get_fault (inc_env e) = None \<and> get_again (inc_env e) = None \<and> upsert_fault (inc_env e) = None"

definition opens :: "note_env \<Rightarrow> log_note \<Rightarrow> bool" where
  "opens e n = (case n_Attachment n of None \<Rightarrow> True | Some a \<Rightarrow> \<not> isl (populateFileMetadata (inc_env e) a))"

definition all_open :: "note_env \<Rightarrow> string \<Rightarrow> note_world \<Rightarrow> bool" where
  "all_open e i w \<longleftrightarrow> list_all (\<lambda>(k, n). k = i \<longrightarrow> opens e n) (loose_notes w) \<and>
     list_all (\<lambda>(k, d). list_all (\<lambda>n. n_Id n = i \<longrightarrow> opens e n) (d_Log d)) (incidents (web w))"

text \<open>
  The requests the promise is kept for: the database answers, the files of the note open, the incident exists, an entry is
  detached from the incident it is in, and a new note has a new identifier and is not marked as deleted.
\<close>

fun regular :: "note_env \<times> note_request \<Rightarrow> note_world \<Rightarrow> bool" where
  "regular (e, Note_create (Some n)) w \<longleftrightarrow> smooth e \<and> IsObjectIdHex (hd (fresh (inc_env e))) \<and>
     homes (hd (fresh (inc_env e))) w = {} \<and> \<not> n_Deleted n \<and> opens e n"
| "regular (e, Note_delete (Some i)) w \<longleftrightarrow> smooth e \<and> IsObjectIdHex i"
| "regular (e, Note_assign (Some i) (Some t)) w \<longleftrightarrow>
     smooth e \<and> IsObjectIdHex i \<and> IsObjectIdHex t \<and> t \<in> fst ` set (incidents (web w)) \<and> all_open e i w"
| "regular (e, Note_detach (Some k) (Some l)) w \<longleftrightarrow>
     smooth e \<and> IsObjectIdHex k \<and> IsObjectIdHex l \<and> at_place l w (Entry k) \<and> all_open e l w"
| "regular (e, Note_update _ _) w \<longleftrightarrow> False"
| "regular _ w \<longleftrightarrow> True"

fun regular_all :: "(note_env \<times> note_request) list \<Rightarrow> note_world \<Rightarrow> bool" where
  "regular_all [] w \<longleftrightarrow> True"
| "regular_all ((e, r) # rs) w \<longleftrightarrow> regular (e, r) w \<and> regular_all rs (fst (serve_note e r w))"

lemma hex_not_Nil: "IsObjectIdHex i \<Longrightarrow> i \<noteq> ''''"
  by (auto simp: IsObjectIdHex_def)

lemma note_attach_opens: "opens e n \<Longrightarrow> \<exists>n'. note_attach e n = Inr n'"
  by (auto simp: opens_def note_attach_def isl_def split: option.splits sum.splits)
    (metis rbind_Inr sum.exhaust)

lemma opens_cong [simp]: "opens e (n\<lparr>n_Timestamp := t\<rparr>) = opens e n" "opens e (n\<lparr>n_Assigned := b\<rparr>) = opens e n"
  "opens e (n\<lparr>n_Deleted := b\<rparr>) = opens e n" "opens e (n\<lparr>n_Id := i\<rparr>) = opens e n"
  by (simp_all add: opens_def)

lemma tracks_same: "tracks at w \<Longrightarrow> loose_notes w' = loose_notes w \<Longrightarrow> incidents (web w') = incidents (web w) \<Longrightarrow> tracks at w'"
  using homes_cong[of w' w] by (simp add: tracks_def del: mem_homes)

lemma put_into_log_ok:
  fixes checked :: bool
  assumes "smooth e" "IsObjectIdHex t" "map_of (incidents (web w)) t = Some d" "opens e note" "keyed w" "n_Id note = i" "\<not> n_Deleted note"
  defines "w' \<equiv> fst (put_into_log e checked t i note w)"
  shows "keyed w'" "homes j w' = (if j = i then insert (Entry t) (homes j w) else homes j w)" "loose_notes w' = loose_notes w"
    "\<exists>d'. snd (put_into_log e checked t i note w) = Inr (200, Ans_incident d')"
    "i \<notin> n_Id ` set (d_Log d) \<Longrightarrow> \<exists>n. n_Note n = n_Note note \<and> n_Id n = i \<and> \<not> n_Deleted n \<and>
       map_of (incidents (web w')) = (map_of (incidents (web w)))(t \<mapsto> d\<lparr>d_Id := t, d_Log := d_Log d @ [n]\<rparr>)"
    "i \<in> n_Id ` set (d_Log d) \<Longrightarrow>
       map_of (incidents (web w')) = (map_of (incidents (web w)))(t \<mapsto> d\<lparr>d_Log := flag_entry False i (d_Log d)\<rparr>)"
proof -
  let ?P = "\<lambda>w1. keyed w1 \<and> (\<forall>j. homes j w1 = (if j = i then insert (Entry t) (homes j w) else homes j w)) \<and> loose_notes w1 = loose_notes w"
  have f: "get_fault (inc_env e) = None" "get_again (inc_env e) = None" "upsert_fault (inc_env e) = None" "entry_restore_fault e = None"
    using assms(1) by (simp_all add: smooth_def)
  have g: "getIncident None t (web w) = Inr (d\<lparr>d_Id := t\<rparr>)" using assms(2,3) by (simp add: getIncident_map_of)
  obtain n where a: "note_attach e (note\<lparr>n_Timestamp := Some (req_time (inc_env e)), n_Assigned := True\<rparr>) = Inr n"
    using note_attach_opens[of e "note\<lparr>n_Timestamp := Some (req_time (inc_env e)), n_Assigned := True\<rparr>"] assms(4) by auto
  note n = note_attach_same[OF a]
  define D where "D = d\<lparr>d_Id := t, d_Log := d_Log d @ [n]\<rparr>"
  obtain w1 where w1: "?P w1" "map_of (incidents (web w1)) t \<noteq> None"
      "put_into_log e checked t i note w = (case getIncident None t (web w1) of Inl f \<Rightarrow> (w1, Inl NilDeref)
         | Inr d' \<Rightarrow> (incident_audit ''ADD_NOTE'' ''SUCCESS'' w1, Inr (200, Ans_incident (filterResponseLogEntry d'))))"
      "i \<notin> n_Id ` set (d_Log d) \<longrightarrow> map_of (incidents (web w1)) = (map_of (incidents (web w)))(t \<mapsto> D)"
      "i \<in> n_Id ` set (d_Log d) \<longrightarrow> map_of (incidents (web w1)) = (map_of (incidents (web w)))(t \<mapsto> d\<lparr>d_Log := flag_entry False i (d_Log d)\<rparr>)"
  proof (cases "i \<in> n_Id ` set (d_Log d)")
    case True
    obtain w1 where r: "flag_log_entry None False t i w = (w1, Inr ())"
      using True assms(2,3) by (simp add: flag_log_entry_def)
    have m: "map_of (incidents (web w1)) = (map_of (incidents (web w)))(t \<mapsto> d\<lparr>d_Log := flag_entry False i (d_Log d)\<rparr>)"
      using flag_log_entry_ok(2)[OF r] assms(3) by auto
    show ?thesis
      by (rule that[of w1]) (use True flag_log_entry_homes[OF r assms(5)] flag_log_entry_ok(1)[OF r] m f g a r in
        \<open>simp_all add: put_into_log_def RestoreIncidentLogEntry_def del: mem_homes\<close>)
  next
    case False
    obtain w1 key where r: "UpdateIncident e t D w = (w1, Inr key)"
      using f hex_not_Nil[OF assms(2)] by (simp add: UpdateIncident_def misc_Upsert_def Let_def)
    have u: "UpdateIncident e t ((d\<lparr>d_Id := t\<rparr>)\<lparr>d_Log := d_Log (d\<lparr>d_Id := t\<rparr>) @ [n]\<rparr>) w = (w1, Inr key)" using r by (simp add: D_def)
    have "n_Id n = i" "\<not> n_Deleted n" "i \<notin> n_Id ` set (d_Log (d\<lparr>d_Id := t\<rparr>))" using n assms(6,7) False by simp_all
    note h = append_homes[OF u hex_not_Nil[OF assms(2)] assms(5) g this]
    show ?thesis
      by (rule that[of w1]) (use False h f g a u in \<open>simp_all add: put_into_log_def D_def del: mem_homes\<close>)
  qed
  obtain d' where d': "getIncident None t (web w1) = Inr d'" using w1(2) assms(2) by (auto simp: getIncident_map_of split: option.splits)
  show "keyed w'" "homes j w' = (if j = i then insert (Entry t) (homes j w) else homes j w)" "loose_notes w' = loose_notes w"
    "\<exists>d'. snd (put_into_log e checked t i note w) = Inr (200, Ans_incident d')"
    using w1(1,3) d' by (simp_all add: w'_def del: mem_homes)
  show "\<exists>n. n_Note n = n_Note note \<and> n_Id n = i \<and> \<not> n_Deleted n \<and>
       map_of (incidents (web w')) = (map_of (incidents (web w)))(t \<mapsto> d\<lparr>d_Id := t, d_Log := d_Log d @ [n]\<rparr>)" if "i \<notin> n_Id ` set (d_Log d)"
    using that w1(3,4) d' n assms(6,7) by (intro exI[of _ n]) (simp add: w'_def D_def)
  show "map_of (incidents (web w')) = (map_of (incidents (web w)))(t \<mapsto> d\<lparr>d_Log := flag_entry False i (d_Log d)\<rparr>)" if "i \<in> n_Id ` set (d_Log d)"
    using that w1(3,5) d' by (simp add: w'_def)
qed

lemma keyed_mem: "keyed w \<Longrightarrow> (k, d) \<in> set (incidents (web w)) \<longleftrightarrow> map_of (incidents (web w)) k = Some d"
  by (auto simp: keyed_def)

lemma live_entry:
  assumes "keyed w"
  shows "Entry k \<in> homes i w \<longleftrightarrow> (\<exists>d. (k, d) \<in> set (incidents (web w)) \<and> live_in i (d_Log d))"
  using keyed_mem[OF assms] by (auto split: option.splits)

lemma entry_found_live:
  assumes "keyed w" "entry_found i False (incidents (web w)) = Some n"
  shows "\<exists>k. Entry k \<in> homes i w"
  using entry_found_Some[OF assms(2)] live_entry[OF assms(1)] by (fastforce simp: live_in_def simp del: mem_homes)

lemma live_entry_found:
  assumes "keyed w" "Entry k \<in> homes i w"
  shows "entry_found i False (incidents (web w)) \<noteq> None"
proof -
  from assms(2)[unfolded live_entry[OF assms(1)]]
  obtain d where d: "(k, d) \<in> set (incidents (web w))" "live_in i (d_Log d)" by blast
  then obtain n where "n \<in> set (d_Log d)" "n_Id n = i" "\<not> n_Deleted n" by (auto simp: live_in_def)
  with d(1) show ?thesis unfolding entry_found_None by force
qed

lemma FindIncident_found:
  assumes "smooth e" "keyed w" "Entry k \<in> homes i w"
  shows "\<exists>d. FindIncidentByLogEntry e i False w = Inr (Some d)"
proof -
  from assms(3)[unfolded live_entry[OF assms(2)]]
  obtain d where d: "(k, d) \<in> set (incidents (web w))" "live_in i (d_Log d)" by blast
  then have "find (\<lambda>(k, d). \<exists>n \<in> set (d_Log d). (False \<or> \<not> n_Deleted n) \<and> n_Id n = i) (incidents (web w)) \<noteq> None"
    unfolding find_None_iff live_in_def by blast
  then show ?thesis using assms(1) by (auto simp: FindIncidentByLogEntry_def FindAllIncidents_def smooth_def)
qed

lemma not_loose: "smooth e \<Longrightarrow> IsObjectIdHex i \<Longrightarrow> Unassigned \<notin> homes i w \<Longrightarrow> FindOneNote e i ''false'' False w = Inl ErrorNotFound"
  by (auto simp: FindOneNote_def smooth_def split: option.splits)

lemma all_open_found: "all_open e i w \<Longrightarrow> entry_found i b (incidents (web w)) = Some n \<Longrightarrow> opens e n"
  using entry_found_Some[of i b "incidents (web w)" n] by (fastforce simp: all_open_def list_all_iff)

lemma all_open_loose: "all_open e i w \<Longrightarrow> map_of (loose_notes w) i = Some n \<Longrightarrow> opens e n"
  by (auto simp: all_open_def list_all_iff dest!: map_of_SomeD)

lemma live_deleted:
  assumes "keyed w" "Entry k \<in> homes i w"
  shows "\<exists>w1. flag_log_entry None True k i w = (w1, Inr ())"
proof -
  obtain d where d: "map_of (incidents (web w)) k = Some d" "live_in i (d_Log d)" using assms(2) by (auto split: option.splits)
  have "IsObjectIdHex k" using assms(1) map_of_SomeD[OF d(1)] by (auto simp: keyed_def)
  moreover have "i \<in> n_Id ` set (d_Log d)" using live_absent d(2) by blast
  ultimately show ?thesis using d(1) by (simp add: flag_log_entry_def)
qed

text \<open>A note without incident is marked as deleted and then goes into the log.\<close>

lemma Assign_loose:
  assumes "smooth e" "IsObjectIdHex i" "map_of (loose_notes w) i = Some m" "\<not> n_Deleted m"
  shows "\<exists>w1. flag_note e True i w = (w1, Inr ()) \<and> NoteRest_Assign e (Some i) (Some t) w = put_into_log e True t i (m\<lparr>n_Id := i\<rparr>) w1"
proof -
  have "FindOneNote e i ''false'' False w = Inr (m\<lparr>n_Id := i\<rparr>)" using assms by (auto simp: FindOneNote_loose smooth_def)
  moreover have "\<exists>w1. flag_note e True i w = (w1, Inr ())" using assms by (simp add: flag_note_def smooth_def)
  ultimately show ?thesis using assms(1) by (auto simp: NoteRest_Assign_def DeleteNote_def smooth_def)
qed

text \<open>An entry whose note is kept among the notes is marked as deleted and the note restored.\<close>

lemma Detach_loose:
  assumes "smooth e" "IsObjectIdHex l" "map_of (loose_notes w) l = Some m" "keyed w" "Entry k \<in> homes l w"
  shows "\<exists>w1 w2. flag_log_entry None True k l w = (w1, Inr ()) \<and> flag_note e False l w1 = (w2, Inr ()) \<and>
    loose_notes (fst (DetachLogEntry e (Some k) (Some l) w)) = loose_notes w2 \<and>
    incidents (web (fst (DetachLogEntry e (Some k) (Some l) w))) = incidents (web w2)"
proof -
  obtain w1 where w1: "flag_log_entry None True k l w = (w1, Inr ())" using live_deleted[OF assms(4,5)] by blast
  have m: "map_of (loose_notes w1) l = Some m" using flag_log_entry_ok(1)[OF w1] assms(3) by simp
  have f: "FindOneNote e l ''false'' True w1 = Inr (m\<lparr>n_Id := l\<rparr>)" using m assms(1,2) by (auto simp: FindOneNote_loose smooth_def)
  obtain w2 where w2: "flag_note e False l w1 = (w2, Inr ())" using m assms(1,2) by (simp add: flag_note_def smooth_def)
  show ?thesis
    using f w1 w2 assms(1)
    by (auto simp: DetachLogEntry_def DeleteIncidentLogEntry_def RestoreNote_def smooth_def split: sum.splits option.splits)
qed

lemma Assign_moves:
  assumes "tracks at w" "regular (e, Note_assign (Some i) (Some t)) w"
  shows "tracks (note_spec e (Note_assign (Some i) (Some t)) at) (fst (NoteRest_Assign e (Some i) (Some t) w))"
proof -
  have r: "smooth e" "IsObjectIdHex i" "IsObjectIdHex t" "all_open e i w" using assms(2) by simp_all
  obtain dt where t: "map_of (incidents (web w)) t = Some dt" using assms(2) by (auto simp: map_of_eq_None_iff dest: weak_map_of_SomeI)
  have k: "keyed w" and h: "\<And>j. homes j w = set_option (at j)" using assms(1) by (simp_all add: tracks_def)
  have allow: "note_allowed e ''ASSIGN''" using r(1) by (simp add: smooth_def)
  consider (none) "at i = None" | (loose) "at i = Some Unassigned" | (entry) k where "at i = Some (Entry k)"
    by (metis option.exhaust place.exhaust)
  then show ?thesis
  proof cases
    case none
    have "entry_found i False (incidents (web w)) = None"
    proof (rule ccontr)
      assume "entry_found i False (incidents (web w)) \<noteq> None"
      then show False using entry_found_live[OF k] h[of i] none by (auto simp del: mem_homes)
    qed
    then have "FindOneNote e i ''true'' False w = Inl ErrorNotFound" by (simp add: FindOneNote_def)
    with not_loose[OF r(1,2)] none h[of i] allow assms(1) show ?thesis
      by (auto simp: NoteRest_Assign_def intro: tracks_same simp del: mem_homes)
  next
    case loose
    then have "Unassigned \<in> homes i w" using h[of i] by (simp del: mem_homes)
    then obtain m where m: "map_of (loose_notes w) i = Some m" "\<not> n_Deleted m" by (auto split: option.splits)
    obtain w1 where w1: "flag_note e True i w = (w1, Inr ())"
        "NoteRest_Assign e (Some i) (Some t) w = put_into_log e True t i (m\<lparr>n_Id := i\<rparr>) w1"
      using Assign_loose[OF r(1,2) m] by blast
    note d = flag_note_homes[OF w1(1)]
    have "map_of (incidents (web w1)) t = Some dt" "opens e (m\<lparr>n_Id := i\<rparr>)" "keyed w1" "n_Id (m\<lparr>n_Id := i\<rparr>) = i" "\<not> n_Deleted (m\<lparr>n_Id := i\<rparr>)"
      using d t m all_open_loose[OF r(4) m(1)] k keyed_loose[OF d(2)] by simp_all
    note p = put_into_log_ok[OF r(1,3) this, where checked = True]
    show ?thesis using p(1,2) d(1) h loose w1(2) by (auto simp: tracks_def simp del: mem_homes)
  next
    case (entry k0)
    have e0: "Entry k0 \<in> homes i w" "Unassigned \<notin> homes i w" using entry h[of i] by (simp_all del: mem_homes)
    obtain n where n: "entry_found i False (incidents (web w)) = Some n" using live_entry_found[OF k e0(1)] by blast
    obtain d where d: "FindIncidentByLogEntry e i False w = Inr (Some d)" using FindIncident_found[OF r(1) k e0(1)] by blast
    have dk: "d_Id d = k0" using FindIncident_live[OF d k] entry h[of i] by (simp del: mem_homes)
    have f: "FindOneNote e i ''true'' False w = Inr n" using n r(1) by (simp add: FindOneNote_entry smooth_def)
    show ?thesis
    proof (cases "k0 = t")
      case True
      then have "at(i \<mapsto> Entry t) = at" using entry by auto
      with not_loose[OF r(1,2) e0(2)] True f d dk allow assms(1) entry show ?thesis
        by (auto simp: NoteRest_Assign_def intro: tracks_same)
    next
      case False
      obtain w1 where w1: "flag_log_entry None True k0 i w = (w1, Inr ())" using live_deleted[OF k e0(1)] by blast
      note h1 = flag_log_entry_homes[OF w1 k]
      have nn: "n_Id n = i" "\<not> n_Deleted n" using entry_found_Some[OF n] by auto
      have t1: "map_of (incidents (web w1)) t = Some dt" using flag_log_entry_ok(2)[OF w1] t False by auto
      note p = put_into_log_ok[OF r(1,3) t1 all_open_found[OF r(4) n] h1(2) nn, where checked = False]
      have "NoteRest_Assign e (Some i) (Some t) w = put_into_log e False t i n w1"
        using not_loose[OF r(1,2) e0(2)] f d dk w1 allow False r(1) by (simp add: NoteRest_Assign_def DeleteIncidentLogEntry_def smooth_def)
      then show ?thesis using p(1,2) h1(1) h entry by (auto simp: tracks_def simp del: mem_homes)
    qed
  qed
qed

lemma tracksI: "keyed w \<Longrightarrow> (\<And>j. homes j w = set_option (at j)) \<Longrightarrow> tracks at w"
  by (simp add: tracks_def)

lemma flag_entry_id_image: "n_Id ` set (flag_entry b l ns) = n_Id ` set ns"
  using flag_entry_ids[of b l ns] by (metis list.set_map)

lemma flag_entry_opens: "(\<forall>n \<in> set ns. n_Id n = i \<longrightarrow> opens e n) \<Longrightarrow> \<forall>n \<in> set (flag_entry b l ns). n_Id n = i \<longrightarrow> opens e n"
  by (induction ns) auto

lemma all_open_flag:
  assumes "all_open e i w" "flag_log_entry fault b k l w = (w1, Inr u)"
  shows "all_open e i w1"
proof -
  note ok = flag_log_entry_ok[OF assms(2)]
  obtain d where d: "map_of (incidents (web w)) k = Some d" using ok(2) by blast
  have "\<forall>n \<in> set (d_Log d). n_Id n = i \<longrightarrow> opens e n" using assms(1) map_of_SomeD[OF d] by (auto simp: all_open_def list_all_iff)
  from flag_entry_opens[OF this, of b l] show ?thesis
    using assms(1) ok(1,3) d set_map_entry_subset[of k "d_Log_update (flag_entry b l)" "incidents (web w)"]
    by (fastforce simp: all_open_def list_all_iff)
qed

lemma note_Upsert_ok:
  assumes "smooth e" "IsObjectIdHex i"
  shows "\<exists>w'. note_Upsert e i n w = (w', Inr i)"
  using assms hex_not_Nil[OF assms(2)] by (simp add: note_Upsert_def smooth_def Let_def)

lemma Create_moves:
  assumes "tracks at w" "regular (e, Note_create (Some n0)) w"
  shows "tracks (note_spec e (Note_create (Some n0)) at) (fst (NoteRest_Create e (Some n0) w))"
proof -
  define i where "i = hd (fresh (inc_env e))"
  have r: "smooth e" "IsObjectIdHex i" "\<not> n_Deleted n0" "opens e n0" "homes i w = {}" using assms(2) by (simp_all add: i_def)
  have k: "keyed w" and h: "\<And>j. homes j w = set_option (at j)" using assms(1) by (simp_all add: tracks_def)
  define n1 where "n1 = n0\<lparr>n_Id := i, n_Timestamp := Some (req_time (inc_env e))\<rparr>"
  obtain n where n: "note_attach e n1 = Inr n" using note_attach_opens[of e n1] r(4) by (auto simp: n1_def)
  have nn: "n_Id n = i" "\<not> n_Deleted n" using note_attach_same[OF n] r(3) by (simp_all add: n1_def)
  obtain w1 where w1: "note_Upsert e i n w = (w1, Inr i)" using note_Upsert_ok[OF r(1,2)] by blast
  note u = note_Upsert_homes[OF w1 hex_not_Nil[OF r(2)]]
  have "tracks (at(i \<mapsto> Unassigned)) w1"
    by (rule tracksI) (use u(1) nn(2) r(5) h k keyed_loose[OF u(2)] in \<open>auto simp: i_def simp del: mem_homes\<close>)
  moreover have "loose_notes (fst (NoteRest_Create e (Some n0) w)) = loose_notes w1" "web (fst (NoteRest_Create e (Some n0) w)) = web w1"
    using r(1) n nn w1 by (simp_all add: NoteRest_Create_def Let_def i_def[symmetric] n1_def[symmetric] CreateNote_def smooth_def)
  ultimately show ?thesis by (auto simp: i_def intro: tracks_same)
qed

lemma Delete_moves:
  assumes "tracks at w" "regular (e, Note_delete (Some i)) w"
  shows "tracks (note_spec e (Note_delete (Some i)) at) (fst (NoteRest_Delete e (Some i) w))"
proof -
  have r: "smooth e" "IsObjectIdHex i" using assms(2) by simp_all
  have k: "keyed w" and h: "\<And>j. homes j w = set_option (at j)" using assms(1) by (simp_all add: tracks_def)
  obtain w1 x where w1: "flag_note e True i w = (w1, x)" by force
  have c: "loose_notes (fst (NoteRest_Delete e (Some i) w)) = loose_notes w1" "web (fst (NoteRest_Delete e (Some i) w)) = web w1"
    using r(1) w1 by (auto simp: NoteRest_Delete_def DeleteNote_def smooth_def split: sum.splits)
  have "tracks (note_spec e (Note_delete (Some i)) at) w1"
  proof (cases x)
    case (Inl f)
    then have "map_of (loose_notes w) i = None" using w1 r by (auto simp: flag_note_def smooth_def split: if_splits)
    then have "Unassigned \<notin> homes i w" by simp
    then have "at i \<noteq> Some Unassigned" using h[of i] by (auto simp del: mem_homes)
    then show ?thesis using Inl w1 assms(1) flag_note_failed[of e True i w w1] by auto
  next
    case (Inr u)
    note d = flag_note_homes[OF w1[unfolded Inr]]
    show ?thesis
      by (rule tracksI) (use d(1) h k keyed_loose[OF d(2)] in \<open>cases "at i"; auto simp del: mem_homes\<close>)+
  qed
  then show ?thesis using c by (auto intro: tracks_same)
qed

lemma Detach_moves:
  assumes "tracks at w" "regular (e, Note_detach (Some k) (Some l)) w"
  shows "tracks (note_spec e (Note_detach (Some k) (Some l)) at) (fst (DetachLogEntry e (Some k) (Some l) w))"
proof -
  have r: "smooth e" "IsObjectIdHex k" "IsObjectIdHex l" "Entry k \<in> homes l w" "all_open e l w" using assms(2) by simp_all
  have k: "keyed w" and h: "\<And>j. homes j w = set_option (at j)" using assms(1) by (simp_all add: tracks_def)
  have al: "at l = Some (Entry k)" using r(4) h[of l] by (simp del: mem_homes)
  obtain w1 where w1: "flag_log_entry None True k l w = (w1, Inr ())" using live_deleted[OF k r(4)] by blast
  have w1': "DeleteIncidentLogEntry e k l w = (w1, Inr ())" using w1 r(1) by (simp add: DeleteIncidentLogEntry_def smooth_def)
  note h1 = flag_log_entry_homes[OF w1 k]
  have empty: "homes l w1 = {}" using h1(1) h al by (simp del: mem_homes)
  let ?w' = "fst (DetachLogEntry e (Some k) (Some l) w)"
  have "\<exists>w2. loose_notes ?w' = loose_notes w2 \<and> incidents (web ?w') = incidents (web w2) \<and> web w2 = web w1 \<and>
      (\<forall>j. homes j w2 = (if j = l then insert Unassigned (homes j w1) else homes j w1))"
  proof (cases "map_of (loose_notes w1) l")
    case (Some m)
    then have "map_of (loose_notes w) l = Some m" using flag_log_entry_ok(1)[OF w1] by simp
    from Detach_loose[OF r(1,3) this k r(4)] w1 obtain w2 where w2: "flag_note e False l w1 = (w2, Inr ())"
        "loose_notes ?w' = loose_notes w2" "incidents (web ?w') = incidents (web w2)" by auto
    then show ?thesis using flag_note_homes(1,2)[OF w2(1)] by (intro exI[of _ w2]) (simp del: mem_homes)
  next
    case None
    then have f: "FindOneNote e l ''false'' True w1 = Inl ErrorNotFound" using r(1,3) by (simp add: FindOneNote_def smooth_def)
    obtain d0 where d0: "l \<in> n_Id ` set (d_Log d0)"
        "map_of (incidents (web w1)) = (map_of (incidents (web w)))(k \<mapsto> d0\<lparr>d_Log := flag_entry True l (d_Log d0)\<rparr>)"
      using flag_log_entry_ok(2)[OF w1] by blast
    obtain d where d: "map_of (incidents (web w1)) k = Some d" "l \<in> n_Id ` set (d_Log d)"
      using d0 by (simp add: flag_entry_id_image)
    have "entry_found l True (incidents (web w1)) \<noteq> None"
      using d map_of_SomeD[OF d(1)] unfolding entry_found_None by fastforce
    then obtain n0 where n0: "entry_found l True (incidents (web w1)) = Some n0" by blast
    have f1: "FindOneNote e l ''true'' True w1 = Inr n0" using n0 r(1) by (simp add: FindOneNote_entry smooth_def)
    let ?n = "n0\<lparr>n_Id := hd (fresh (inc_env e)), n_Timestamp := Some (req_time (inc_env e)), n_Assigned := False, n_Deleted := False\<rparr>"
    have "opens e ?n" using all_open_found[OF all_open_flag[OF r(5) w1] n0] by simp
    then obtain n where n: "note_attach e ?n = Inr n" using note_attach_opens by blast
    obtain w2 where w2: "note_Upsert e l n w1 = (w2, Inr l)" using note_Upsert_ok[OF r(1,3)] by blast
    have "loose_notes ?w' = loose_notes w2 \<and> incidents (web ?w') = incidents (web w2)"
      using f f1 n w1' w2 r(1) by (auto simp: DetachLogEntry_def UpdateNote_def smooth_def split: sum.splits option.splits)
    then show ?thesis
      using note_Upsert_homes(1,2)[OF w2 hex_not_Nil[OF r(3)]] note_attach_same[OF n] by (intro exI[of _ w2]) (simp del: mem_homes)
  qed
  then obtain w2 where w2: "loose_notes ?w' = loose_notes w2" "incidents (web ?w') = incidents (web w2)" "web w2 = web w1"
      "\<And>j. homes j w2 = (if j = l then insert Unassigned (homes j w1) else homes j w1)" by blast
  have "tracks (at(l \<mapsto> Unassigned)) w2"
    by (rule tracksI) (use w2(4) h1 h empty keyed_loose[OF w2(3)] in \<open>auto simp del: mem_homes\<close>)
  then show ?thesis using w2(1,2) by (auto intro: tracks_same)
qed

lemma reads_same:
  "loose_notes (fst (NoteRest_ReadAll e w)) = loose_notes w" "incidents (web (fst (NoteRest_ReadAll e w))) = incidents (web w)"
  "loose_notes (fst (NoteRest_ReadOne e pid a w)) = loose_notes w" "incidents (web (fst (NoteRest_ReadOne e pid a w))) = incidents (web w)"
  by (auto simp: NoteRest_ReadAll_def NoteRest_ReadOne_def Let_def split: sum.splits option.splits)

lemma request_moves:
  assumes "tracks at w" "regular (e, r) w"
  shows "tracks (note_spec e r at) (fst (serve_note e r w))"
proof (cases r)
  case (Note_create body)
  then show ?thesis using assms Create_moves[of at w e "the body"]
    by (cases body) (auto simp: NoteRest_Create_def intro: tracks_same)
next
  case (Note_delete pid)
  then show ?thesis using assms Delete_moves[of at w e "the pid"] by (cases pid) (auto simp: NoteRest_Delete_def intro: tracks_same)
next
  case (Note_assign nid tid)
  then show ?thesis using assms Assign_moves[of at w e "the nid" "the tid"]
    by (cases nid; cases tid) (auto simp: NoteRest_Assign_def intro: tracks_same simp del: note_spec.simps(3) regular.simps(3))
next
  case (Note_detach pid lid)
  then show ?thesis using assms Detach_moves[of at w e "the pid" "the lid"]
    by (cases pid; cases lid) (auto simp: DetachLogEntry_def intro: tracks_same simp del: note_spec.simps(4) regular.simps(4))
qed (use assms reads_same in \<open>auto intro: tracks_same\<close>)

text \<open>C15. 
  As long as the database answers and the incidents named exist, notes move as the requests say: a new note belongs to no incident,
  an assignment brings it into the log of the incident from wherever it is, a detachment takes it out again, and a note without
  incident can be deleted.
\<close>

theorem note_moves_refine:
  assumes "tracks at w" "regular_all rs w"
  shows "tracks (note_specs rs at) (serve_notes rs w)"
  using assms
proof (induction rs arbitrary: at w)
  case (Cons x rs)
  obtain e r where "x = (e, r)" by force
  with Cons request_moves[of at w e r] show ?case by (simp add: note_specs_def serve_notes_def)
qed (simp add: note_specs_def serve_notes_def)

section \<open>Into the log and back\<close>

text \<open>An assignment of a note without incident, with what it leaves in both collections.\<close>

lemma Assign_loose_ok:
  assumes "smooth e" "IsObjectIdHex i" "IsObjectIdHex t" "keyed w" "map_of (loose_notes w) i = Some n" "\<not> n_Deleted n" "opens e n"
    "map_of (incidents (web w)) t = Some d"
  defines "w' \<equiv> fst (NoteRest_Assign e (Some i) (Some t) w)"
  shows "keyed w'" "Entry t \<in> homes i w'" "map_of (loose_notes w') = (map_of (loose_notes w))(i \<mapsto> n\<lparr>n_Deleted := True\<rparr>)"
    "\<exists>d'. snd (NoteRest_Assign e (Some i) (Some t) w) = Inr (200, Ans_incident d')"
    "i \<notin> n_Id ` set (d_Log d) \<Longrightarrow> \<exists>m. n_Note m = n_Note n \<and> n_Id m = i \<and> \<not> n_Deleted m \<and>
       map_of (incidents (web w')) = (map_of (incidents (web w)))(t \<mapsto> d\<lparr>d_Id := t, d_Log := d_Log d @ [m]\<rparr>)"
    "i \<in> n_Id ` set (d_Log d) \<Longrightarrow>
       map_of (incidents (web w')) = (map_of (incidents (web w)))(t \<mapsto> d\<lparr>d_Log := flag_entry False i (d_Log d)\<rparr>)"
proof -
  obtain w1 where w1: "flag_note e True i w = (w1, Inr ())"
      "NoteRest_Assign e (Some i) (Some t) w = put_into_log e True t i (n\<lparr>n_Id := i\<rparr>) w1"
    using Assign_loose[OF assms(1,2,5,6)] by blast
  note f = flag_note_homes[OF w1(1)]
  have "map_of (incidents (web w1)) t = Some d" "opens e (n\<lparr>n_Id := i\<rparr>)" "keyed w1" "n_Id (n\<lparr>n_Id := i\<rparr>) = i" "\<not> n_Deleted (n\<lparr>n_Id := i\<rparr>)"
    using f(2) assms(4,6,7,8) keyed_loose[OF f(2)] by simp_all
  note p = put_into_log_ok[OF assms(1,3) this, where checked = True]
  show "keyed w'" "Entry t \<in> homes i w'" using p(1,2) w1(2) by (simp_all add: w'_def del: mem_homes)
  show "map_of (loose_notes w') = (map_of (loose_notes w))(i \<mapsto> n\<lparr>n_Deleted := True\<rparr>)"
    using p(3) w1(2) f(3) assms(5) by (simp add: w'_def)
  show "\<exists>d'. snd (NoteRest_Assign e (Some i) (Some t) w) = Inr (200, Ans_incident d')" using p(4) w1(2) by simp
  show "\<exists>m. n_Note m = n_Note n \<and> n_Id m = i \<and> \<not> n_Deleted m \<and>
       map_of (incidents (web w')) = (map_of (incidents (web w)))(t \<mapsto> d\<lparr>d_Id := t, d_Log := d_Log d @ [m]\<rparr>)" if "i \<notin> n_Id ` set (d_Log d)"
    using p(5)[OF that] w1(2) f(2) by (simp add: w'_def)
  show "map_of (incidents (web w')) = (map_of (incidents (web w)))(t \<mapsto> d\<lparr>d_Log := flag_entry False i (d_Log d)\<rparr>)" if "i \<in> n_Id ` set (d_Log d)"
    using p(6)[OF that] w1(2) f(2) by (simp add: w'_def)
qed

lemma Detach_loose_ok:
  assumes "smooth e" "IsObjectIdHex l" "map_of (loose_notes w) l = Some m" "keyed w" "Entry k \<in> homes l w" "map_of (incidents (web w)) k = Some d"
  defines "w' \<equiv> fst (DetachLogEntry e (Some k) (Some l) w)"
  shows "keyed w'" "map_of (loose_notes w') = (map_of (loose_notes w))(l \<mapsto> m\<lparr>n_Deleted := False\<rparr>)"
    "map_of (incidents (web w')) = (map_of (incidents (web w)))(k \<mapsto> d\<lparr>d_Log := flag_entry True l (d_Log d)\<rparr>)"
proof -
  obtain w1 w2 where w: "flag_log_entry None True k l w = (w1, Inr ())" "flag_note e False l w1 = (w2, Inr ())"
      "loose_notes w' = loose_notes w2" "incidents (web w') = incidents (web w2)"
    using Detach_loose[OF assms(1-5)] unfolding w'_def by blast
  note h = flag_log_entry_homes(2)[OF w(1) assms(4)] flag_log_entry_ok(1,2)[OF w(1)] flag_note_homes(2,3)[OF w(2)]
  show "keyed w'" using h(1) keyed_loose[OF h(4)] w(4) by (simp add: keyed_def)
  show "map_of (loose_notes w') = (map_of (loose_notes w))(l \<mapsto> m\<lparr>n_Deleted := False\<rparr>)" using h(2,5) w(3) assms(3) by simp
  show "map_of (incidents (web w')) = (map_of (incidents (web w)))(k \<mapsto> d\<lparr>d_Log := flag_entry True l (d_Log d)\<rparr>)"
    using h(3,4) w(4) assms(6) by auto
qed

text \<open>C34. Assigned to an incident and detached from it again, a note is what it was, and so are all others.\<close>

theorem assign_detach_roundtrip:
  assumes "smooth e" "smooth e'" "IsObjectIdHex i" "IsObjectIdHex t" "keyed w" "t \<in> fst ` set (incidents (web w))"
    "map_of (loose_notes w) i = Some n" "\<not> n_Deleted n" "opens e n"
  shows "map_of (loose_notes (serve_notes [(e, Note_assign (Some i) (Some t)), (e', Note_detach (Some t) (Some i))] w)) = map_of (loose_notes w)"
proof -
  obtain d where d: "map_of (incidents (web w)) t = Some d" using assms(6) by (auto simp: map_of_eq_None_iff dest: weak_map_of_SomeI)
  note a = Assign_loose_ok[OF assms(1,3,4,5,7,8,9) d]
  obtain d' where d': "map_of (incidents (web (fst (NoteRest_Assign e (Some i) (Some t) w)))) t = Some d'"
    using a(2) by (auto split: option.splits)
  have "map_of (loose_notes (fst (NoteRest_Assign e (Some i) (Some t) w))) i = Some (n\<lparr>n_Deleted := True\<rparr>)" using a(3) by simp
  note b = Detach_loose_ok[OF assms(2,3) this a(1,2) d']
  have "n\<lparr>n_Deleted := False\<rparr> = n" using assms(8) by simp
  then show ?thesis using b(2) a(3) assms(7) by (auto simp: serve_notes_def)
qed

lemma flag_entry_text: "n \<in> set (flag_entry b l ns) \<Longrightarrow> \<exists>m \<in> set ns. n_Id m = n_Id n \<and> n_Note m = n_Note n"
  by (induction ns) (auto split: if_splits)

text \<open>
  A note that comes back to the log of an incident comes with the text it had before: the entry is restored, and what was written in
  between is not read.
\<close>

theorem reassigned_note_is_stale:
  assumes "smooth e" "IsObjectIdHex i" "IsObjectIdHex t" "keyed w" "map_of (incidents (web w)) t = Some d" "i \<notin> n_Id ` set (d_Log d)"
    "map_of (loose_notes w) i = Some n" "\<not> n_Deleted n" "opens e n" "\<not> n_Deleted n'" "n_Attachment n' = None"
  shows "\<exists>d'. map_of (incidents (web (serve_notes [(e, Note_assign (Some i) (Some t)), (e, Note_detach (Some t) (Some i)),
      (e, Note_update (Some i) (Some n')), (e, Note_assign (Some i) (Some t))] w))) t = Some d' \<and>
    live_in i (d_Log d') \<and> (\<forall>m \<in> set (d_Log d'). n_Id m = i \<longrightarrow> n_Note m = n_Note n)"
proof -
  define w1 where "w1 = fst (NoteRest_Assign e (Some i) (Some t) w)"
  note a = Assign_loose_ok[OF assms(1,2,3,4,7,8,9,5), folded w1_def]
  obtain m where m: "n_Note m = n_Note n" "n_Id m = i" and d1: "map_of (incidents (web w1)) t = Some (d\<lparr>d_Id := t, d_Log := d_Log d @ [m]\<rparr>)"
    using a(5)[OF assms(6)] by auto
  define w2 where "w2 = fst (DetachLogEntry e (Some t) (Some i) w1)"
  have l1: "map_of (loose_notes w1) i = Some (n\<lparr>n_Deleted := True\<rparr>)" using a(3) by simp
  note b = Detach_loose_ok[OF assms(1,2) l1 a(1,2) d1, folded w2_def]
  define w3 where "w3 = fst (NoteRest_Update e (Some i) (Some n') w2)"
  obtain n2 where n2: "note_attach e (n'\<lparr>n_Timestamp := Some (req_time (inc_env e))\<rparr>) = Inr n2"
    using assms(11) by (simp add: note_attach_def)
  obtain v where v: "note_Upsert e i n2 w2 = (v, Inr i)" using note_Upsert_ok[OF assms(1,2)] by blast
  note u = note_Upsert_homes(2,3)[OF v hex_not_Nil[OF assms(2)]]
  have c: "web w3 = web v" "loose_notes w3 = loose_notes v"
    using v n2 assms(1) by (simp_all add: w3_def NoteRest_Update_def UpdateNote_def smooth_def)
  define d2 where "d2 = d\<lparr>d_Id := t, d_Log := flag_entry True i (d_Log d @ [m])\<rparr>"
  have d3: "map_of (incidents (web w3)) t = Some d2" using b(3) c(1) u(1) by (simp add: d2_def)
  have k3: "keyed w3" using b(1) keyed_loose[of w3 w2] c(1) u(1) by simp
  have n3: "map_of (loose_notes w3) i = Some n2" "\<not> n_Deleted n2" using c(2) u(2) note_attach_same[OF n2] assms(10) by simp_all
  have o: "opens e n2" using n2 assms(11) by (auto simp: opens_def note_attach_def)
  define w4 where "w4 = fst (NoteRest_Assign e (Some i) (Some t) w3)"
  have i2: "i \<in> n_Id ` set (d_Log d2)" using m(2) by (simp add: d2_def flag_entry_id_image)
  note z = Assign_loose_ok(2,6)[OF assms(1,2,3) k3 n3 o d3, folded w4_def]
  have "serve_notes [(e, Note_assign (Some i) (Some t)), (e, Note_detach (Some t) (Some i)),
      (e, Note_update (Some i) (Some n')), (e, Note_assign (Some i) (Some t))] w = w4"
    by (simp add: serve_notes_def w1_def w2_def w3_def w4_def)
  moreover have d4: "map_of (incidents (web w4)) t = Some (d2\<lparr>d_Log := flag_entry False i (d_Log d2)\<rparr>)" using z(2)[OF i2] by simp
  moreover have "live_in i (flag_entry False i (d_Log d2))" using z(1) d4 by simp
  moreover have "n_Note x = n_Note n" if x: "x \<in> set (flag_entry False i (d_Log d2))" "n_Id x = i" for x
  proof -
    obtain y where y: "y \<in> set (flag_entry True i (d_Log d @ [m]))" "n_Id y = i" "n_Note y = n_Note x"
      using flag_entry_text[OF x(1)] x(2) by (auto simp: d2_def)
    obtain v where "v \<in> set (d_Log d @ [m])" "n_Id v = i" "n_Note v = n_Note x" using flag_entry_text[OF y(1)] y(2,3) by auto
    then show ?thesis using m(1) assms(6) by auto
  qed
  ultimately show ?thesis by auto
qed

section \<open>Where the requests fall short\<close>

text \<open>C40. 
  The note is taken from its place before the incident is read: an assignment to an incident that does not exist is answered with an
  error, and the note is in no place any more.
\<close>

theorem unknown_incident_loses_note:
  assumes "smooth e" "IsObjectIdHex i" "IsObjectIdHex t" "in_one_place w" "homes i w \<noteq> {}" "t \<notin> fst ` set (incidents (web w))"
  shows "snd (NoteRest_Assign e (Some i) (Some t) w) = Inr (404, Ans_empty) \<and> homes i (fst (NoteRest_Assign e (Some i) (Some t) w)) = {}"
proof -
  have k: "keyed w" using assms(4) by (simp add: in_one_place_def)
  have lost: "put_into_log e b t i n w1 = note_refuse ''ASSIGN'' ''FAIL_NOTFOUND'' 404 w1"
    if "fst ` set (incidents (web w1)) = fst ` set (incidents (web w))" for w1 b n
  proof -
    have "map_of (incidents (web w1)) t = None" using that assms(6) by (auto simp: map_of_eq_None_iff)
    then show ?thesis using assms(1,3) by (simp add: put_into_log_def getIncident_map_of smooth_def note_unfound_def)
  qed
  from assms(5) obtain p where p: "p \<in> homes i w" by blast
  show ?thesis
  proof (cases p)
    case Unassigned
    with p obtain m where m: "map_of (loose_notes w) i = Some m" "\<not> n_Deleted m" by (auto split: option.splits)
    obtain w1 where w1: "flag_note e True i w = (w1, Inr ())"
        "NoteRest_Assign e (Some i) (Some t) w = put_into_log e True t i (m\<lparr>n_Id := i\<rparr>) w1"
      using Assign_loose[OF assms(1,2) m] by blast
    note f = flag_note_homes(1,2)[OF w1(1)]
    have "homes i w1 = {}" using f(1) one_place_removed[OF assms(4) p] Unassigned by simp
    then show ?thesis using w1(2) lost[of w1] f(2) by (simp add: note_refuse_def del: mem_homes)
  next
    case (Entry k0)
    have u: "Unassigned \<notin> homes i w" using p Entry assms(4) by (auto simp: in_one_place_def simp del: mem_homes)
    obtain n where n: "entry_found i False (incidents (web w)) = Some n" using live_entry_found[OF k] p Entry by blast
    obtain d where d: "FindIncidentByLogEntry e i False w = Inr (Some d)" using FindIncident_found[OF assms(1) k] p Entry by blast
    note l = FindIncident_live[OF d k]
    obtain w1 where w1: "flag_log_entry None True (d_Id d) i w = (w1, Inr ())" using live_deleted[OF k l] by blast
    have "d_Id d \<noteq> t" using l assms(6) by (force split: option.splits dest!: map_of_SomeD)
    then have "NoteRest_Assign e (Some i) (Some t) w = put_into_log e False t i n w1"
      using not_loose[OF assms(1,2) u] n d w1 assms(1) by (simp add: NoteRest_Assign_def DeleteIncidentLogEntry_def FindOneNote_def smooth_def)
    moreover have "homes i w1 = {}" using flag_log_entry_homes(1)[OF w1 k] one_place_removed[OF assms(4) l] by simp
    moreover have "fst ` set (incidents (web w1)) = fst ` set (incidents (web w))"
      using flag_log_entry_ok(3)[OF w1] fst_map_entry by (metis list.set_map)
    ultimately show ?thesis using lost[of w1] by (simp add: note_refuse_def del: mem_homes)
  qed
qed

text \<open>
  An update of a note that is in the log of an incident writes a second one among the notes without incident and leaves the log as it
  is.
\<close>

theorem edited_note_doubled:
  assumes "smooth e" "IsObjectIdHex i" "Entry t \<in> homes i w" "\<not> n_Deleted n" "opens e n"
  defines "w' \<equiv> fst (NoteRest_Update e (Some i) (Some n) w)"
  shows "{Unassigned, Entry t} \<subseteq> homes i w' \<and> incidents (web w') = incidents (web w)"
proof -
  obtain n2 where n2: "note_attach e (n\<lparr>n_Timestamp := Some (req_time (inc_env e))\<rparr>) = Inr n2"
    using note_attach_opens[of e "n\<lparr>n_Timestamp := Some (req_time (inc_env e))\<rparr>"] assms(5) by auto
  obtain v where v: "note_Upsert e i n2 w = (v, Inr i)" using note_Upsert_ok[OF assms(1,2)] by blast
  note u = note_Upsert_homes(1,2)[OF v hex_not_Nil[OF assms(2)]]
  have "web w' = web v" "homes i w' = homes i v"
    using v n2 assms(1) by (simp_all add: w'_def NoteRest_Update_def UpdateNote_def smooth_def del: mem_homes)
  then show ?thesis using u note_attach_same[OF n2] assms(3,4) by (simp del: mem_homes)
qed

text \<open>The log of a closed incident, which no request for incidents changes, takes a note.\<close>

theorem closed_incident_takes_note:
  assumes "smooth e" "IsObjectIdHex i" "IsObjectIdHex t" "keyed w" "map_of (loose_notes w) i = Some n" "\<not> n_Deleted n" "opens e n"
    "map_of (incidents (web w)) t = Some d" "d_State d = Incident_Closed" "i \<notin> n_Id ` set (d_Log d)"
  shows "\<exists>d' m. map_of (incidents (web (fst (NoteRest_Assign e (Some i) (Some t) w)))) t = Some d' \<and> d_State d' = Incident_Closed \<and>
    d_Log d' = d_Log d @ [m]"
  using Assign_loose_ok(5)[OF assms(1-8,10)] assms(9) by auto

definition extensions :: "note_world \<Rightarrow> (string \<times> int) list \<times> (string \<rightharpoonup> string list)" where
  "extensions w = (ext_sent (web w), reg_incidents (web w))"

lemma extensions_kept [simp]:
  "extensions (fst (DeleteIncidentLogEntry e k l w)) = extensions w" "extensions (fst (RestoreNote e i w)) = extensions w"
  "extensions (fst (UpdateNote e i n w)) = extensions w" "extensions (incident_audit a b w) = extensions w"
  "extensions (fst (incident_refuse a b c w)) = extensions w"
  by (auto simp: extensions_def DeleteIncidentLogEntry_def flag_log_entry_def RestoreNote_def flag_note_def UpdateNote_def note_Upsert_def
      incident_audit_def incident_refuse_def audit_def Let_def split: option.splits)

lemma extensions_errors [simp]:
  "extensions (fst (incident_error a f w)) = extensions w" "extensions (fst (incident_unfound a f w)) = extensions w"
  by (cases f; simp add: incident_unfound_def)+

text \<open>A track whose entry is detached is not taken back: no request goes to \<^verbatim>\<open>tanalyzed\<close> and the registry keeps the incident.\<close>

theorem detached_track_stays_extended: "extensions (fst (DetachLogEntry e pid lid w)) = extensions w"
  by (simp add: DetachLogEntry_def prod.case_eq_if split: sum.split option.split)

text \<open>A read of a note that fails for another reason than that there is no note ends the request with a panic.\<close>

theorem unread_note_panics:
  assumes "note_unread e" "IsObjectIdHex i" "note_allowed e ''ASSIGN''" "note_allowed e ''READ''"
  shows "\<exists>s. NoteRest_Assign e (Some i) (Some t) w = (w, Inl (Panic s)) \<and> NoteRest_ReadOne e (Some i) (Some ''false'') w = (w, Inl (Panic s))"
  using assms by (simp add: NoteRest_Assign_def NoteRest_ReadOne_def FindOneNote_def note_unfound_def ErrorNotFound_def)

text \<open>
  Detaching a note from an incident it has left: the entry there is found although it is deleted, and the note in the log of
  another incident comes back among the notes without incident as well.
\<close>

theorem stale_detach_doubles_note:
  assumes "smooth e" "IsObjectIdHex k" "IsObjectIdHex l" "keyed w" "stale_entry k l w"
    and "at_place l w (Entry k')" "map_of (loose_notes w) l \<noteq> None"
  shows "{Entry k', Unassigned} \<subseteq> homes l (fst (DetachLogEntry e (Some k) (Some l) w))"
proof -
  obtain d where d: "map_of (incidents (web w)) k = Some d" "l \<in> n_Id ` set (d_Log d)" "\<not> live_in l (d_Log d)"
    using assms(5) by (auto simp: stale_entry_def split: option.splits)
  have ne: "k' \<noteq> k" using assms(6) d by auto
  obtain w1 where r: "DeleteIncidentLogEntry e k l w = (w1, Inr ())"
    using assms(1,2) d by (simp add: DeleteIncidentLogEntry_def flag_log_entry_def smooth_def)
  note d1 = flag_log_entry_homes(1)[OF r[unfolded DeleteIncidentLogEntry_def] assms(4), of l]
  have l1: "loose_notes w1 = loose_notes w" using flag_log_entry_ok(1)[OF r[unfolded DeleteIncidentLogEntry_def]] .
  obtain n where n: "FindOneNote e l ''false'' True w1 = Inr n"
    using assms(1,3,7) by (auto simp: FindOneNote_def l1 smooth_def)
  obtain w2 where r2: "flag_note e False l w1 = (w2, Inr ())"
    using assms(1,3,7) by (simp add: flag_note_def l1 smooth_def)
  have "homes l (fst (DetachLogEntry e (Some k) (Some l) w)) = homes l w2"
    using assms(1) r n r2
    by (intro homes_cong) (auto simp: DetachLogEntry_def RestoreNote_def smooth_def split: sum.splits option.splits)
  moreover have "homes l w2 = insert Unassigned (homes l w1)" using flag_note_homes(1)[OF r2, of l] by simp
  moreover have "Entry k' \<in> homes l w1" using d1 assms(6) ne by (simp del: at_place.simps)
  ultimately show ?thesis by simp
qed

section \<open>Examples\<close>

definition ex_note_id :: string where "ex_note_id = ''aaaaaaaaaaaaaaaaaaaaaaaa''"

definition ex_note_env :: note_env where
  "ex_note_env = \<lparr>inc_env = (ex_env '''')\<lparr>fresh := [ex_note_id]\<rparr>, note_allowed = \<lambda>_. True, note_unread = False, entries_unread = False,
     incidents_fault = None, notes_fault = None, note_update_fault = None, note_upsert_fault = None, entry_delete_fault = None,
     entry_restore_fault = None\<rparr>"

definition ex_note :: log_note where
  "ex_note = \<lparr>n_Id = '''', n_Timestamp = None, n_Type = ''NOTE'', n_Note = ''smoke'', n_Attachment = None, n_Entity = None, n_Deleted = False,
     n_Assigned = False\<rparr>"

definition ex_world :: "(string \<times> log_note) list \<Rightarrow> note_world" where
  "ex_world ns = \<lparr>web = (no_incidents Map.empty)\<lparr>incidents := [(ex_key, ex_doc\<lparr>d_State := Incident_Open, d_Log := []\<rparr>)]\<rparr>, loose_notes = ns,
     notes_published = [], note_audits = []\<rparr>"

lemma ex_note_id_hex [simp]: "IsObjectIdHex ex_note_id" "ex_note_id \<noteq> []"
  by (simp_all add: IsObjectIdHex_def ex_note_id_def)

lemma ex_smooth [simp]: "smooth ex_note_env" "fresh (inc_env ex_note_env) = [ex_note_id]"
  by (simp_all add: smooth_def ex_note_env_def ex_env_def)

lemma ex_note_fields [simp]: "opens e ex_note" "\<not> n_Deleted ex_note" "n_Attachment ex_note = None"
  by (simp_all add: opens_def ex_note_def)

lemma ex_world_fields [simp]:
  "incidents (web (ex_world ns)) = [(ex_key, ex_doc\<lparr>d_State := Incident_Open, d_Log := []\<rparr>)]" "loose_notes (ex_world ns) = ns" "keyed (ex_world ns)"
  by (simp_all add: ex_world_def keyed_def)

lemma ex_homes: "homes i (ex_world []) = {}" "homes i (ex_world [(ex_note_id, ex_note)]) = (if i = ex_note_id then {Unassigned} else {})"
proof -
  have "\<not> at_place i (ex_world []) p" for p by (cases p) simp_all
  then show "homes i (ex_world []) = {}" by (simp add: homes_def)
  have "at_place i (ex_world [(ex_note_id, ex_note)]) p \<longleftrightarrow> i = ex_note_id \<and> p = Unassigned" for p
    by (cases p) (simp_all add: ex_note_def)
  then show "homes i (ex_world [(ex_note_id, ex_note)]) = (if i = ex_note_id then {Unassigned} else {})" by (auto simp: homes_def)
qed

lemma ex_one_place: "in_one_place (ex_world [])" "in_one_place (ex_world [(ex_note_id, ex_note)])"
  by (auto simp: in_one_place_def ex_homes simp del: mem_homes split: if_splits)

lemmas ex_note_defs = ex_note_env_def ex_note_def ex_env_def NoteRest_Create_def NoteRest_Assign_def CreateNote_def DeleteNote_def note_attach_def
  note_Upsert_def flag_note_def FindOneNote_def put_into_log_def getIncident_def misc_Get_def UpdateIncident_def misc_Upsert_def
  note_audit_def Publish_note_def incident_audit_def audit_def

text \<open>A note is made, comes into the log of an incident and out of it again.\<close>

definition ex_journey :: "(note_env \<times> note_request) list" where
  "ex_journey = [(ex_note_env, Note_create (Some ex_note)), (ex_note_env, Note_assign (Some ex_note_id) (Some ex_key)),
     (ex_note_env, Note_detach (Some ex_key) (Some ex_note_id))]"

definition ex_made :: note_world where "ex_made = fst (NoteRest_Create ex_note_env (Some ex_note) (ex_world []))"

definition ex_logged :: note_world where "ex_logged = fst (NoteRest_Assign ex_note_env (Some ex_note_id) (Some ex_key) ex_made)"

lemma ex_made_fields:
  "incidents (web ex_made) = [(ex_key, ex_doc\<lparr>d_State := Incident_Open, d_Log := []\<rparr>)]"
  "loose_notes ex_made = [(ex_note_id, ex_note\<lparr>n_Id := ex_note_id, n_Timestamp := Some \<lparr>Seconds = 5, Nanos = 0\<rparr>\<rparr>)]"
  by (simp_all add: ex_made_def ex_note_defs Let_def ex_world_def no_incidents_def)

lemma ex_logged_fields:
  "incidents (web ex_logged) = [(ex_key, ex_doc\<lparr>d_State := Incident_Open, d_Id := ex_key,
     d_Log := [ex_note\<lparr>n_Id := ex_note_id, n_Timestamp := Some \<lparr>Seconds = 5, Nanos = 0\<rparr>, n_Assigned := True\<rparr>]\<rparr>)]"
  "loose_notes ex_logged = [(ex_note_id, ex_note\<lparr>n_Id := ex_note_id, n_Timestamp := Some \<lparr>Seconds = 5, Nanos = 0\<rparr>, n_Deleted := True\<rparr>)]"
  by (simp_all add: ex_logged_def ex_note_defs Let_def ex_made_fields)

lemma ex_journey_regular: "regular_all ex_journey (ex_world [])"
  by (simp add: ex_journey_def ex_made_def[symmetric] ex_logged_def[symmetric] ex_made_fields ex_logged_fields ex_homes all_open_def opens_def
      live_in_def del: mem_homes)

theorem note_moves_refine_witness: "homes ex_note_id (serve_notes ex_journey (ex_world [])) = {Unassigned}"
proof -
  have "tracks Map.empty (ex_world [])" by (rule tracksI) (simp_all add: ex_homes)
  from note_moves_refine[OF this ex_journey_regular] show ?thesis
    by (simp add: tracks_def note_specs_def ex_journey_def del: mem_homes)
qed

theorem note_in_one_place_witness:
  "Entry ex_key \<in> homes ex_note_id (serve_notes (take 2 ex_journey) (ex_world [])) \<and>
   Unassigned \<notin> homes ex_note_id (serve_notes (take 2 ex_journey) (ex_world []))"
proof -
  have w: "serve_notes (take 2 ex_journey) (ex_world []) = ex_logged"
    by (simp add: serve_notes_def ex_journey_def ex_made_def ex_logged_def)
  have "moves_all (take 2 ex_journey) (ex_world [])" by (simp add: ex_journey_def ex_homes del: mem_homes)
  moreover have "Entry ex_key \<in> homes ex_note_id (serve_notes (take 2 ex_journey) (ex_world []))" by (simp add: w ex_logged_fields)
  ultimately show ?thesis using note_in_one_place[OF ex_one_place(1), of "take 2 ex_journey" "Entry ex_key" ex_note_id Unassigned] by blast
qed

theorem assign_detach_roundtrip_witness:
  "map_of (loose_notes (serve_notes [(ex_note_env, Note_assign (Some ex_note_id) (Some ex_key)), (ex_note_env, Note_detach (Some ex_key) (Some ex_note_id))]
     (ex_world [(ex_note_id, ex_note)]))) ex_note_id = Some ex_note"
  using assign_detach_roundtrip[of ex_note_env ex_note_env ex_note_id ex_key "ex_world [(ex_note_id, ex_note)]" ex_note] by simp

definition ex_unknown :: string where "ex_unknown = ''bbbbbbbbbbbbbbbbbbbbbbbb''"

theorem unknown_incident_loses_note_witness:
  "homes ex_note_id (fst (NoteRest_Assign ex_note_env (Some ex_note_id) (Some ex_unknown) (ex_world [(ex_note_id, ex_note)]))) = {}"
proof -
  have "IsObjectIdHex ex_unknown" "ex_unknown \<noteq> ex_key" by (simp_all add: IsObjectIdHex_def ex_unknown_def ex_key_def)
  then show ?thesis
    using unknown_incident_loses_note[of ex_note_env ex_note_id ex_unknown "ex_world [(ex_note_id, ex_note)]"] ex_one_place(2) ex_homes(2)
    by (simp del: mem_homes)
qed

text \<open>A note moved from one incident to another and then detached from the first.\<close>

definition ex_other :: string where "ex_other = ''cccccccccccccccccccccccc''"

definition ex_moved_world :: note_world where
  "ex_moved_world = (ex_world [(ex_note_id, ex_note\<lparr>n_Id := ex_note_id, n_Deleted := True\<rparr>)])\<lparr>web := (no_incidents Map.empty)
     \<lparr>incidents := [(ex_key, ex_doc\<lparr>d_State := Incident_Open, d_Log := [ex_note\<lparr>n_Id := ex_note_id, n_Deleted := True\<rparr>]\<rparr>),
                    (ex_other, ex_doc\<lparr>d_State := Incident_Open, d_Log := [ex_note\<lparr>n_Id := ex_note_id\<rparr>]\<rparr>)]\<rparr>\<rparr>"

theorem stale_detach_doubles_note_witness:
  "{Entry ex_other, Unassigned} \<subseteq> homes ex_note_id (fst (DetachLogEntry ex_note_env (Some ex_key) (Some ex_note_id) ex_moved_world))"
proof -
  have k: "IsObjectIdHex ex_key" "IsObjectIdHex ex_other" "ex_other \<noteq> ex_key" by (simp_all add: IsObjectIdHex_def ex_key_def ex_other_def)
  then have "keyed ex_moved_world" "stale_entry ex_key ex_note_id ex_moved_world" "at_place ex_note_id ex_moved_world (Entry ex_other)"
    by (simp_all add: ex_moved_world_def keyed_def stale_entry_def)
  moreover have "map_of (loose_notes ex_moved_world) ex_note_id \<noteq> None" by (simp add: ex_moved_world_def)
  ultimately show ?thesis using stale_detach_doubles_note[OF ex_smooth(1) k(1) ex_note_id_hex(1)] by blast
qed

end
