(* ===== verification/Track_Extender.thy ===== *)
theory Track_Extender
  imports Prisma_Prelude
begin

text \<open>
  The track extender of \<^verbatim>\<open>tanalyzed\<close> (\<^verbatim>\<open>extender.go\<close>) with its collection \<^verbatim>\<open>trackex\<close> (\<^verbatim>\<open>db/mongo/trackex.go\<close>): tracks that
  report rarely are repeated until their own timeout. A track keeps its identifier and, of each target, the type and the
  repeat flag. Clock readings and the outcomes of database and encoding calls are the fields of an environment that
  comes with each call. A method gives the new state of the stage and the result of the call.

  Most methods change the map of watched tracks under the mutex, release it and then write to the collection. Each is
  given in two parts, the locked one, which yields the write to be done, and the write; a method that runs alone is
  their composition. The goroutines of the stage, with their calls between the two parts, are the step relation \<open>gstep\<close>.
\<close>

section \<open>State\<close>

datatype xdevice = AIS | ADSB | Manual | Marker | OmnicomVMS | OmnicomSolar | Radar | SARSAT | SART | Spidertracks | Unknown | OtherDevice nat

datatype xstatus = Status_Current | Status_Timeout | OtherStatus nat

record xtarget =
  xt_Type :: xdevice
  xt_Repeat :: bool
  xt_rest :: string

record xtrack =
  x_Id :: string
  x_Targets :: "xtarget list"

record TrackExtension =
  ex_Track :: xtrack
  Updated :: time
  Next :: time
  Expires :: time
  Count :: "32 word"

text \<open>\<open>docs\<close> is the collection \<^verbatim>\<open>trackex\<close>, \<open>sent\<close> the tracks sent to the gateway.\<close>

record extender =
  watching :: "string \<rightharpoonup> TrackExtension"
  docs :: "TrackExtension list"
  timeouts :: "xdevice \<rightharpoonup> duration"
  extensionAt :: duration
  x_initialized :: bool
  sent :: "xtrack list"

text \<open>\<open>x_shared\<close>: the watched entry still holds the very track object of the copy that \<^verbatim>\<open>check\<close> has made.\<close>

record xenv =
  x_now :: time
  db_ok :: bool
  stamp_ok :: bool
  pack_ok :: bool
  x_shared :: bool

definition newTrackExtenderStage :: "bool \<Rightarrow> TrackExtension list \<Rightarrow> extender" where
  "newTrackExtenderStage FastTimers stored =
     \<lparr>watching = Map.empty, docs = stored,
      timeouts = (if FastTimers
        then [SARSAT \<mapsto> minute, OmnicomSolar \<mapsto> minute, OmnicomVMS \<mapsto> minute, Manual \<mapsto> minute]
        else [SARSAT \<mapsto> 12 * hour, OmnicomSolar \<mapsto> 12 * hour, OmnicomVMS \<mapsto> 12 * hour, Manual \<mapsto> 100 * 365 * 24 * hour]),
      extensionAt = (if FastTimers then 20 * second else 10 * minute),
      x_initialized = False, sent = []\<rparr>"

text \<open>A missing key of a Go map reads as zero.\<close>

definition timeout_of :: "(xdevice \<rightharpoonup> duration) \<Rightarrow> xdevice \<Rightarrow> duration" where
  "timeout_of m d = (case m d of None \<Rightarrow> 0 | Some v \<Rightarrow> v)"

section \<open>The collection\<close>

definition doc_is :: "string \<Rightarrow> TrackExtension \<Rightarrow> bool" where
  "doc_is i ex \<longleftrightarrow> x_Id (ex_Track ex) = i"

definition db_Insert :: "xenv \<Rightarrow> TrackExtension \<Rightarrow> extender \<Rightarrow> extender \<times> unit res" where
  "db_Insert e ex s = (if db_ok e then (s\<lparr>docs := docs s @ [ex]\<rparr>, Inr ()) else (s, Inl (Err ''insert'')))"

fun upsert_doc :: "TrackExtension \<Rightarrow> TrackExtension list \<Rightarrow> TrackExtension list" where
  "upsert_doc ex [] = [ex]"
| "upsert_doc ex (d # ds) = (if doc_is (x_Id (ex_Track ex)) d then ex # ds else d # upsert_doc ex ds)"

definition db_Update :: "xenv \<Rightarrow> TrackExtension \<Rightarrow> extender \<Rightarrow> extender \<times> unit res" where
  "db_Update e ex s = (if db_ok e then (s\<lparr>docs := upsert_doc ex (docs s)\<rparr>, Inr ()) else (s, Inl (Err ''update'')))"

definition db_Remove :: "xenv \<Rightarrow> string \<Rightarrow> extender \<Rightarrow> extender \<times> unit res" where
  "db_Remove e i s = (if db_ok e then (s\<lparr>docs := filter (\<lambda>d. \<not> doc_is i d) (docs s)\<rparr>, Inr ()) else (s, Inl (Err ''remove'')))"

definition db_Startup :: "time \<Rightarrow> TrackExtension list \<Rightarrow> TrackExtension list" where
  "db_Startup now ds = filter (\<lambda>d. \<not> (Expires d < now \<and> sint (Count d) < 1)) ds"

datatype db_write = DbInsert TrackExtension | DbUpdate TrackExtension | DbRemove string

fun do_write :: "xenv \<Rightarrow> db_write \<Rightarrow> extender \<Rightarrow> extender \<times> unit res" where
  "do_write e (DbInsert ex) s = db_Insert e ex s"
| "do_write e (DbUpdate ex) s = db_Update e ex s"
| "do_write e (DbRemove i) s = db_Remove e i s"

text \<open>The end of a method that runs alone: the write that the locked part has left to be done.\<close>

definition write_back :: "xenv \<Rightarrow> extender \<times> db_write res \<Rightarrow> extender \<times> unit res" where
  "write_back e x = (case x of (s, Inl err) \<Rightarrow> (s, Inl err) | (s, Inr w) \<Rightarrow> do_write e w s)"

section \<open>Operations\<close>

definition start_locked :: "xenv \<Rightarrow> xtrack \<Rightarrow> 32 word \<Rightarrow> extender \<Rightarrow> extender \<times> db_write res" where
  "start_locked e t c s =
     (case x_Targets t of
        [] \<Rightarrow> (s, Inl OutOfRange)
      | tgt # _ \<Rightarrow>
          let ex = \<lparr>ex_Track = t, Updated = x_now e, Next = x_now e + extensionAt s,
                    Expires = x_now e + timeout_of (timeouts s) (xt_Type tgt), Count = c\<rparr> in
          (s\<lparr>watching := (watching s)(x_Id t \<mapsto> ex)\<rparr>, Inr (DbInsert ex)))"

definition startWatching :: "xenv \<Rightarrow> xtrack \<Rightarrow> 32 word \<Rightarrow> extender \<Rightarrow> extender \<times> unit res" where
  "startWatching e t c s = write_back e (start_locked e t c s)"

text \<open>
  \<open>update\<close> holds the mutex over its write. A missing entry of the map reads as the zero extension, whose track is nil, given
  here as a track without identifier and targets; it is stored before the write dereferences it.
\<close>

definition zero_extension :: TrackExtension where
  "zero_extension = \<lparr>ex_Track = \<lparr>x_Id = '''', x_Targets = []\<rparr>, Updated = 0, Next = 0, Expires = 0, Count = 0\<rparr>"

definition ex_update :: "xenv \<Rightarrow> xtrack \<Rightarrow> 32 word \<Rightarrow> extender \<Rightarrow> extender \<times> unit res" where
  "ex_update e t c s =
     (if c \<noteq> 0 then
        (case watching s (x_Id t) of
           None \<Rightarrow> (s\<lparr>watching := (watching s)(x_Id t \<mapsto> zero_extension\<lparr>Count := c\<rparr>)\<rparr>, Inl NilDeref)
         | Some old \<Rightarrow>
             let ex = old\<lparr>Count := Count old + c\<rparr> in db_Update e ex (s\<lparr>watching := (watching s)(x_Id t \<mapsto> ex)\<rparr>))
      else
        (case x_Targets t of
           [] \<Rightarrow> (s, Inl OutOfRange)
         | tgt # _ \<Rightarrow>
             let ex = \<lparr>ex_Track = t, Updated = x_now e, Next = x_now e + extensionAt s,
                       Expires = x_now e + timeout_of (timeouts s) (xt_Type tgt),
                       Count = (case watching s (x_Id t) of None \<Rightarrow> 0 | Some old \<Rightarrow> Count old)\<rparr> in
             db_Update e ex (s\<lparr>watching := (watching s)(x_Id t \<mapsto> ex)\<rparr>)))"

definition stop_locked :: "xtrack \<Rightarrow> extender \<Rightarrow> extender \<times> db_write res" where
  "stop_locked t s =
     (let s = s\<lparr>watching := (watching s)(x_Id t := None)\<rparr> in
      if x_Targets t = [] then (s, Inl (Err ''target are not found'')) else (s, Inr (DbRemove (x_Id t))))"

definition stopWatching :: "xenv \<Rightarrow> xtrack \<Rightarrow> extender \<Rightarrow> extender \<times> unit res" where
  "stopWatching e t s = write_back e (stop_locked t s)"

definition set_repeat :: "bool \<Rightarrow> xtrack \<Rightarrow> xtrack" where
  "set_repeat b t = t\<lparr>x_Targets := (case x_Targets t of [] \<Rightarrow> [] | tgt # tgts \<Rightarrow> tgt\<lparr>xt_Repeat := b\<rparr> # tgts)\<rparr>"

text \<open>What \<open>timeout\<close> does after \<open>stopWatching\<close>.\<close>

definition send_final :: "xenv \<Rightarrow> xtrack \<Rightarrow> extender \<Rightarrow> extender \<times> unit res" where
  "send_final e t s =
     (if \<not> pack_ok e then (s, Inl (Err ''pack''))
      else if \<not> stamp_ok e then (s, Inl (Err ''timestamp''))
      else (s\<lparr>sent := sent s @ [set_repeat False t]\<rparr>, Inr ()))"

definition send_timeout :: "xenv \<Rightarrow> xtrack \<Rightarrow> extender \<Rightarrow> extender \<times> unit res" where
  "send_timeout e t s = (case stopWatching e t s of (s, Inl err) \<Rightarrow> (s, Inl err) | (s, Inr _) \<Rightarrow> send_final e t s)"

text \<open>
  The repeat flag is set on the track itself, before the track is encoded: when that fails, the watched entry has the flag,
  if it holds the same track object, and its document does not.
\<close>

definition extend_locked :: "xenv \<Rightarrow> TrackExtension \<Rightarrow> extender \<Rightarrow> extender \<times> db_write res" where
  "extend_locked e ex s =
     (let i = x_Id (ex_Track ex) in
      if \<not> stamp_ok e then (s, Inl (Err ''timestamp''))
      else if x_Targets (ex_Track ex) = [] then (s, Inl (Err ''target are not found''))
      else if \<not> pack_ok e then
        (if x_shared e
         then s\<lparr>watching := (watching s)(i := map_option (\<lambda>x. x\<lparr>ex_Track := set_repeat True (ex_Track x)\<rparr>) (watching s i))\<rparr>
         else s, Inl (Err ''pack''))
      else
        let upd = ex\<lparr>ex_Track := set_repeat True (ex_Track ex), Next := x_now e + extensionAt s\<rparr> in
        (s\<lparr>watching := (watching s)(i \<mapsto> upd)\<rparr>, Inr (DbUpdate upd)))"

definition x_extend :: "xenv \<Rightarrow> TrackExtension \<Rightarrow> extender \<Rightarrow> extender \<times> unit res" where
  "x_extend e ex s =
     (case write_back e (extend_locked e ex s) of
        (s, Inl err) \<Rightarrow> (s, Inl err)
      | (s, Inr _) \<Rightarrow> (s\<lparr>sent := sent s @ [set_repeat True (ex_Track ex)]\<rparr>, Inr ()))"

definition expire_locked :: "TrackExtension \<Rightarrow> duration \<Rightarrow> extender \<Rightarrow> extender \<times> db_write res" where
  "expire_locked ex timeDiff s =
     (if x_Targets (ex_Track ex) = [] then (s, Inl (Err ''target are not found''))
      else
        let t = set_repeat True (ex_Track ex); upd = ex\<lparr>ex_Track := t, Expires := Expires ex + timeDiff\<rparr> in
        (s\<lparr>watching := (watching s)(x_Id t \<mapsto> upd)\<rparr>, Inr (DbUpdate upd)))"

definition updateExpire :: "xenv \<Rightarrow> TrackExtension \<Rightarrow> duration \<Rightarrow> extender \<Rightarrow> extender \<times> unit res" where
  "updateExpire e ex timeDiff s = write_back e (expire_locked ex timeDiff s)"

section \<open>Updates, checks and requests\<close>

record xupdate =
  xu_Status :: xstatus
  xu_Track :: "xtrack option"

definition x_analyze :: "xenv \<Rightarrow> xupdate \<Rightarrow> extender \<Rightarrow> extender \<times> unit res" where
  "x_analyze e upd s =
     (case xu_Track upd of
        None \<Rightarrow> (s, Inr ())
      | Some t \<Rightarrow>
          (case x_Targets t of
             [] \<Rightarrow> (s, Inr ())
           | tgt # _ \<Rightarrow>
               if \<not> x_initialized s \<or> timeouts s (xt_Type tgt) = None then (s, Inr ())
               else if xu_Status upd = Status_Timeout then stopWatching e t s
               else if watching s (x_Id t) \<noteq> None then (if xt_Repeat tgt then (s, Inr ()) else ex_update e t 0 s)
               else startWatching e t 0 s))"

text \<open>The body of the loop of \<^verbatim>\<open>check\<close> for one entry of the copy it made; results of the calls are dropped.\<close>

definition check_one :: "xenv \<Rightarrow> time \<Rightarrow> TrackExtension \<Rightarrow> extender \<Rightarrow> extender" where
  "check_one e now ex s =
     (if Expires ex < now \<and> Count ex = 0 then fst (send_timeout e (ex_Track ex) s)
      else if Next ex < now \<or> 0 < sint (Count ex) then fst (x_extend e ex s)
      else s)"

text \<open>\<open>copy\<close> holds the entries of the copied map in the order of the iteration, each with the environment of its turn.\<close>

definition check :: "time \<Rightarrow> (xenv \<times> TrackExtension) list \<Rightarrow> extender \<Rightarrow> extender" where
  "check now copy s = fold (\<lambda>(e, ex) s. check_one e now ex s) copy s"

record TrackExReq =
  rq_Track :: "xtrack option"
  rq_Count :: "32 word"

text \<open>\<open>lst\<close> is the reply of \<^verbatim>\<open>GetLastTrack\<close>, \<open>now\<close> the clock reading of the request itself.\<close>

definition extendReq :: "xenv \<Rightarrow> time \<Rightarrow> xtrack res \<Rightarrow> TrackExReq \<Rightarrow> extender \<Rightarrow> extender \<times> unit res" where
  "extendReq e now lst report s =
     (case (case rq_Track report of Some t \<Rightarrow> Inr t | None \<Rightarrow> lst) of
        Inl err \<Rightarrow> (s, Inr ())
      | Inr t \<Rightarrow>
          (case watching s (x_Id t) of
             None \<Rightarrow> startWatching e t (rq_Count report) s
           | Some tex \<Rightarrow>
               if 0 < sint (Count tex + rq_Count report) \<or> now < Expires tex then ex_update e t (rq_Count report) s
               else send_timeout e t s))"

record TrackTimeout =
  t_Adsb :: "32 word"
  t_Ais :: "32 word"
  t_Manual :: "32 word"
  t_Marker :: "32 word"
  t_Omnicom :: "32 word"
  t_Radar :: "32 word"
  t_Sarsat :: "32 word"
  t_Sart :: "32 word"
  t_Spidertrack :: "32 word"
  t_Unknown :: "32 word"

definition wrap64 :: "int \<Rightarrow> int" where
  "wrap64 i = sint (word_of_int i :: 64 word)"

definition minutes :: "32 word \<Rightarrow> duration" where
  "minutes n = wrap64 (int (unat n) * minute)"

definition configured :: "TrackTimeout \<Rightarrow> (xdevice \<times> duration) list" where
  "configured r =
     [(AIS, minutes (t_Ais r)), (ADSB, minutes (t_Adsb r)), (Manual, minutes (t_Manual r)), (Marker, minutes (t_Marker r)),
      (OmnicomVMS, minutes (t_Omnicom r)), (OmnicomSolar, minutes (t_Omnicom r)), (Radar, minutes (t_Radar r)),
      (SARSAT, minutes (t_Sarsat r)), (SART, minutes (t_Sart r)), (Spidertracks, minutes (t_Spidertrack r)),
      (Unknown, minutes (t_Unknown r))]"

fun expire_loop :: "(xdevice \<rightharpoonup> duration) \<Rightarrow> (xenv \<times> TrackExtension) list \<Rightarrow> extender \<Rightarrow> extender \<times> unit res" where
  "expire_loop timeDiff [] s = (s, Inr ())"
| "expire_loop timeDiff ((e, ex) # exs) s =
     (case x_Targets (ex_Track ex) of
        [] \<Rightarrow> (s, Inl OutOfRange)
      | tgt # _ \<Rightarrow>
          let d = timeout_of timeDiff (xt_Type tgt) in
          if d = 0 then expire_loop timeDiff exs s else expire_loop timeDiff exs (fst (updateExpire e ex d s)))"

text \<open>\<open>got\<close> is the reply of \<^verbatim>\<open>db.Get\<close>; the goroutine ends when it fails.\<close>

definition timeoutReq :: "(xenv \<times> TrackExtension) list res \<Rightarrow> TrackTimeout \<Rightarrow> extender \<Rightarrow> extender \<times> unit res" where
  "timeoutReq got report s =
     (let new = configured report;
          timeDiff = map_of (map (\<lambda>(k, v). (k, wrap64 (v - timeout_of (timeouts s) k))) new);
          s = s\<lparr>timeouts := map_of new\<rparr> in
      case got of Inl err \<Rightarrow> (s, Inl err) | Inr prev \<Rightarrow> expire_loop timeDiff prev s)"

text \<open>\<open>config\<close> is the first configuration with the key \<^verbatim>\<open>track_timeouts\<close>, if the configurations could be read.\<close>

definition x_init :: "time \<Rightarrow> TrackTimeout option \<Rightarrow> bool \<Rightarrow> bool \<Rightarrow> (TrackExtension \<Rightarrow> xenv) \<Rightarrow> extender \<Rightarrow> extender \<times> unit res" where
  "x_init now config startup_ok get_ok env s =
     (let s = (case config of None \<Rightarrow> s | Some r \<Rightarrow> s\<lparr>timeouts := timeouts s ++ map_of (configured r)\<rparr>) in
      if \<not> startup_ok then (s, Inl (Err ''startup''))
      else
        let s = s\<lparr>docs := db_Startup now (docs s)\<rparr> in
        if \<not> get_ok then (s, Inl (Err ''get''))
        else
          let s = fold (\<lambda>ex s. fst (x_extend (env ex) ex (s\<lparr>watching := (watching s)(x_Id (ex_Track ex) \<mapsto> ex)\<rparr>))) (docs s) s in
          (s\<lparr>x_initialized := True\<rparr>, Inr ()))"

section \<open>The collection mirrors the watched tracks\<close>

abbreviation ex_Id :: "TrackExtension \<Rightarrow> string" where
  "ex_Id ex \<equiv> x_Id (ex_Track ex)"

definition doc_map :: "TrackExtension list \<Rightarrow> string \<rightharpoonup> TrackExtension" where
  "doc_map ds = map_of (map (\<lambda>d. (ex_Id d, d)) ds)"

definition mirrors :: "extender \<Rightarrow> bool" where
  "mirrors s \<longleftrightarrow> distinct (map ex_Id (docs s)) \<and> watching s = doc_map (docs s) \<and> (\<forall>d\<in>set (docs s). x_Targets (ex_Track d) \<noteq> [])"

lemma doc_map_Id: "doc_map ds i = Some ex \<Longrightarrow> ex_Id ex = i \<and> ex \<in> set ds"
  by (auto simp: doc_map_def dest!: map_of_SomeD)

lemma doc_map_None: "doc_map ds i = None \<longleftrightarrow> i \<notin> ex_Id ` set ds"
  by (auto simp: doc_map_def map_of_eq_None_iff image_image)

lemma doc_map_append: "i \<notin> ex_Id ` set ds \<Longrightarrow> ex_Id ex = i \<Longrightarrow> doc_map (ds @ [ex]) = (doc_map ds)(i \<mapsto> ex)"
proof -
  assume "i \<notin> ex_Id ` set ds" "ex_Id ex = i"
  then have "doc_map ds i = None" by (simp add: doc_map_None)
  then show ?thesis using \<open>ex_Id ex = i\<close> by (auto simp: doc_map_def map_add_def fun_eq_iff split: option.splits)
qed

lemma doc_map_upsert: "doc_map (upsert_doc ex ds) = (doc_map ds)(ex_Id ex \<mapsto> ex)"
  by (induction ds) (auto simp: doc_map_def doc_is_def fun_eq_iff)

lemma doc_map_remove: "doc_map (filter (\<lambda>d. \<not> doc_is i d) ds) = (doc_map ds)(i := None)"
  by (induction ds) (auto simp: doc_map_def doc_is_def fun_eq_iff)

lemma set_upsert: "set (upsert_doc ex ds) \<subseteq> insert ex (set ds)"
  by (induction ds) auto

lemma ids_upsert: "ex_Id ` set (upsert_doc ex ds) = insert (ex_Id ex) (ex_Id ` set ds)"
  by (induction ds) (auto simp: doc_is_def)

lemma distinct_upsert: "distinct (map ex_Id ds) \<Longrightarrow> distinct (map ex_Id (upsert_doc ex ds))"
proof (induction ds)
  case (Cons d ds)
  then show ?case using ids_upsert[of ex ds] by (auto simp: doc_is_def)
qed simp

lemma set_repeat_Id [simp]: "x_Id (set_repeat b t) = x_Id t"
  by (simp add: set_repeat_def)

lemma set_repeat_Targets [simp]: "x_Targets (set_repeat b t) = [] \<longleftrightarrow> x_Targets t = []"
  by (simp add: set_repeat_def split: list.splits)

lemma mirrors_put:
  assumes "mirrors s" "x_Targets (ex_Track ex) \<noteq> []" "ex_Id ex = i"
  shows "mirrors (s\<lparr>watching := (watching s)(i \<mapsto> ex), docs := upsert_doc ex (docs s)\<rparr>)"
  using assms distinct_upsert[of "docs s" ex] subsetD[OF set_upsert[of ex "docs s"]]
  by (auto simp: mirrors_def doc_map_upsert)

lemma mirrors_new:
  assumes "mirrors s" "x_Targets (ex_Track ex) \<noteq> []" "ex_Id ex = i" "watching s i = None"
  shows "mirrors (s\<lparr>watching := (watching s)(i \<mapsto> ex), docs := docs s @ [ex]\<rparr>)"
  using assms doc_map_append[of i "docs s" ex] by (auto simp: mirrors_def doc_map_None)

lemma mirrors_drop:
  assumes "mirrors s"
  shows "mirrors (s\<lparr>watching := (watching s)(i := None), docs := filter (\<lambda>d. \<not> doc_is i d) (docs s)\<rparr>)"
  using assms by (auto simp: mirrors_def doc_map_remove distinct_map_filter)

lemma mirrors_other [simp]:
  "mirrors (s\<lparr>sent := m\<rparr>) = mirrors s" "mirrors (s\<lparr>timeouts := tm\<rparr>) = mirrors s" "mirrors (s\<lparr>x_initialized := b\<rparr>) = mirrors s"
  by (simp_all add: mirrors_def)

lemmas x_ops = startWatching_def start_locked_def stopWatching_def stop_locked_def x_extend_def extend_locked_def
  updateExpire_def expire_locked_def send_timeout_def send_final_def write_back_def

lemma stopWatching_mirrors: "mirrors s \<Longrightarrow> db_ok e \<Longrightarrow> x_Targets t \<noteq> [] \<Longrightarrow> mirrors (fst (stopWatching e t s))"
  by (simp add: x_ops db_Remove_def Let_def mirrors_drop)

lemma watched_has_targets: "mirrors s \<Longrightarrow> watching s i = Some ex \<Longrightarrow> x_Targets (ex_Track ex) \<noteq> [] \<and> ex_Id ex = i"
  by (auto simp: mirrors_def dest: doc_map_Id)

lemma send_timeout_mirrors: "mirrors s \<Longrightarrow> db_ok e \<Longrightarrow> x_Targets t \<noteq> [] \<Longrightarrow> mirrors (fst (send_timeout e t s))"
  using stopWatching_mirrors[of s e t] by (auto simp: send_timeout_def send_final_def split: prod.splits sum.splits)

lemma x_extend_mirrors: "mirrors s \<Longrightarrow> db_ok e \<Longrightarrow> pack_ok e \<Longrightarrow> mirrors (fst (x_extend e ex s))"
  by (auto simp: x_ops db_Update_def Let_def mirrors_put)

lemma check_one_mirrors:
  "mirrors s \<Longrightarrow> db_ok e \<Longrightarrow> pack_ok e \<Longrightarrow> x_Targets (ex_Track ex) \<noteq> [] \<Longrightarrow> mirrors (check_one e now ex s)"
  by (simp add: check_one_def send_timeout_mirrors x_extend_mirrors)

section \<open>The goroutines\<close>

text \<open>
  What a goroutine has decided to call. The decisions of \<^verbatim>\<open>analyze\<close>, \<^verbatim>\<open>extendReq\<close> and \<^verbatim>\<open>check\<close> read the state before the call and without
  holding the mutex until it; \<^verbatim>\<open>check\<close> and \<^verbatim>\<open>timeoutReq\<close> work on entries they read earlier.
\<close>

datatype xcall =
    StartWatching xtrack "32 word"
  | Update xtrack "32 word"
  | StopWatching xtrack
  | SendTimeout xtrack
  | Extend TrackExtension
  | UpdateExpire TrackExtension duration

fun call_track :: "xcall \<Rightarrow> xtrack" where
  "call_track (StartWatching t c) = t"
| "call_track (Update t c) = t"
| "call_track (StopWatching t) = t"
| "call_track (SendTimeout t) = t"
| "call_track (Extend ex) = ex_Track ex"
| "call_track (UpdateExpire ex d) = ex_Track ex"

abbreviation call_id :: "xcall \<Rightarrow> string" where
  "call_id c \<equiv> x_Id (call_track c)"

definition analyze_call :: "xupdate \<Rightarrow> extender \<Rightarrow> xcall option" where
  "analyze_call upd s =
     (case xu_Track upd of
        None \<Rightarrow> None
      | Some t \<Rightarrow>
          (case x_Targets t of
             [] \<Rightarrow> None
           | tgt # _ \<Rightarrow>
               if \<not> x_initialized s \<or> timeouts s (xt_Type tgt) = None then None
               else if xu_Status upd = Status_Timeout then Some (StopWatching t)
               else if watching s (x_Id t) \<noteq> None then (if xt_Repeat tgt then None else Some (Update t 0))
               else Some (StartWatching t 0)))"

definition request_call :: "time \<Rightarrow> xtrack res \<Rightarrow> TrackExReq \<Rightarrow> extender \<Rightarrow> xcall option" where
  "request_call now lst report s =
     (case (case rq_Track report of Some t \<Rightarrow> Inr t | None \<Rightarrow> lst) of
        Inl err \<Rightarrow> None
      | Inr t \<Rightarrow>
          Some (case watching s (x_Id t) of
             None \<Rightarrow> StartWatching t (rq_Count report)
           | Some tex \<Rightarrow>
               if 0 < sint (Count tex + rq_Count report) \<or> now < Expires tex then Update t (rq_Count report) else SendTimeout t))"

definition check_call :: "time \<Rightarrow> TrackExtension \<Rightarrow> xcall option" where
  "check_call now ex =
     (if Expires ex < now \<and> Count ex = 0 then Some (SendTimeout (ex_Track ex))
      else if Next ex < now \<or> 0 < sint (Count ex) then Some (Extend ex)
      else None)"

text \<open>The part of a call up to the release of the mutex, with the write that is left, and the rest of the call.\<close>

definition left_over :: "extender \<times> db_write res \<Rightarrow> extender \<times> db_write option res" where
  "left_over x = (case x of (s, Inl err) \<Rightarrow> (s, Inl err) | (s, Inr w) \<Rightarrow> (s, Inr (Some w)))"

fun enter :: "xenv \<Rightarrow> xcall \<Rightarrow> extender \<Rightarrow> extender \<times> db_write option res" where
  "enter e (StartWatching t c) s = left_over (start_locked e t c s)"
| "enter e (Update t c) s = (case ex_update e t c s of (s, Inl err) \<Rightarrow> (s, Inl err) | (s, Inr _) \<Rightarrow> (s, Inr None))"
| "enter e (StopWatching t) s = left_over (stop_locked t s)"
| "enter e (SendTimeout t) s = left_over (stop_locked t s)"
| "enter e (Extend ex) s = left_over (extend_locked e ex s)"
| "enter e (UpdateExpire ex d) s = left_over (expire_locked ex d s)"

definition leave :: "xenv \<Rightarrow> xcall \<Rightarrow> db_write \<Rightarrow> extender \<Rightarrow> extender \<times> unit res" where
  "leave e c w s =
     (case do_write e w s of
        (s, Inl err) \<Rightarrow> (s, Inl err)
      | (s, Inr _) \<Rightarrow>
          (case c of
             SendTimeout t \<Rightarrow> send_final e t s
           | Extend ex \<Rightarrow> (s\<lparr>sent := sent s @ [set_repeat True (ex_Track ex)]\<rparr>, Inr ())
           | _ \<Rightarrow> (s, Inr ())))"

definition run_call :: "xenv \<Rightarrow> xcall \<Rightarrow> extender \<Rightarrow> extender \<times> unit res" where
  "run_call e c s =
     (case enter e c s of
        (s, Inl err) \<Rightarrow> (s, Inl err)
      | (s, Inr None) \<Rightarrow> (s, Inr ())
      | (s, Inr (Some w)) \<Rightarrow> leave e c w s)"

text \<open>A call that runs alone is the method, and a goroutine that runs alone does what the sequential model says.\<close>

lemma run_call_method:
  "run_call e (StartWatching t c) s = startWatching e t c s" "run_call e (Update t c) s = ex_update e t c s"
  "run_call e (StopWatching t) s = stopWatching e t s" "run_call e (SendTimeout t) s = send_timeout e t s"
  "run_call e (Extend ex) s = x_extend e ex s" "run_call e (UpdateExpire ex d) s = updateExpire e ex d s"
  by (simp_all add: run_call_def left_over_def leave_def x_ops split: prod.splits sum.splits)

definition perhaps :: "xenv \<Rightarrow> xcall option \<Rightarrow> extender \<Rightarrow> extender \<times> unit res" where
  "perhaps e c s = (case c of None \<Rightarrow> (s, Inr ()) | Some c \<Rightarrow> run_call e c s)"

lemma alone:
  "x_analyze e upd s = perhaps e (analyze_call upd s) s" "extendReq e now lst report s = perhaps e (request_call now lst report s) s"
  "check_one e now ex s = fst (perhaps e (check_call now ex) s)"
  by (auto simp: x_analyze_def analyze_call_def extendReq_def request_call_def check_one_def check_call_def perhaps_def
      run_call_method split: option.splits list.splits sum.splits)

datatype goroutine = Analyzer | Watcher | Requests | Timeouts

datatype xpc = Idle | Called xcall | Writing xcall db_write

record xsystem =
  stage :: extender
  pcs :: "goroutine \<Rightarrow> xpc"

definition goto :: "goroutine \<Rightarrow> xpc \<Rightarrow> xsystem \<Rightarrow> xsystem" where
  "goto g p y = y\<lparr>pcs := (pcs y)(g := p)\<rparr>"

inductive gstep :: "xenv \<Rightarrow> xsystem \<Rightarrow> xsystem \<Rightarrow> bool" for e where
  analyze: "pcs y Analyzer = Idle \<Longrightarrow> analyze_call upd (stage y) = Some c \<Longrightarrow> gstep e y (goto Analyzer (Called c) y)"
| request: "pcs y Requests = Idle \<Longrightarrow> request_call now lst report (stage y) = Some c \<Longrightarrow> gstep e y (goto Requests (Called c) y)"
| check: "pcs y Watcher = Idle \<Longrightarrow> check_call now ex = Some c \<Longrightarrow> gstep e y (goto Watcher (Called c) y)"
| expire: "pcs y Timeouts = Idle \<Longrightarrow> gstep e y (goto Timeouts (Called (UpdateExpire ex d)) y)"
| renew: "pcs y Timeouts = Idle \<Longrightarrow> gstep e y (y\<lparr>stage := (stage y)\<lparr>timeouts := tm\<rparr>\<rparr>)"
| enter_call: "pcs y g = Called c \<Longrightarrow> enter e c (stage y) = (s, r) \<Longrightarrow>
    gstep e y (goto g (case r of Inr (Some w) \<Rightarrow> Writing c w | _ \<Rightarrow> Idle) (y\<lparr>stage := s\<rparr>))"
| leave_call: "pcs y g = Writing c w \<Longrightarrow> leave e c w (stage y) = (s, r) \<Longrightarrow> gstep e y (goto g Idle (y\<lparr>stage := s\<rparr>))"

text \<open>The track a goroutine is busy with.\<close>

definition busy :: "goroutine \<Rightarrow> string \<Rightarrow> xsystem \<Rightarrow> bool" where
  "busy g i y \<longleftrightarrow> (case pcs y g of Idle \<Rightarrow> False | Called c \<Rightarrow> call_id c = i | Writing c w \<Rightarrow> call_id c = i)"

text \<open>No two goroutines are busy with the same track, and the tracks they are busy with have targets.\<close>

definition apart :: "xsystem \<Rightarrow> bool" where
  "apart y \<longleftrightarrow> (\<forall>g h i. busy g i y \<longrightarrow> busy h i y \<longrightarrow> g = h) \<and> (\<forall>g c. pcs y g = Called c \<longrightarrow> x_Targets (call_track c) \<noteq> [])"

text \<open>An interleaving in which calls about one track do not overlap, database writes succeed and tracks can be encoded.\<close>

inductive xrun :: "xsystem \<Rightarrow> xsystem \<Rightarrow> bool" where
  start: "xrun y y"
| step: "xrun y y1 \<Longrightarrow> gstep e y1 y2 \<Longrightarrow> db_ok e \<Longrightarrow> pack_ok e \<Longrightarrow> apart y2 \<Longrightarrow> xrun y y2"

section \<open>The collection under interleaving\<close>

definition docs_of :: "string \<Rightarrow> TrackExtension list \<Rightarrow> TrackExtension list" where
  "docs_of i ds = filter (doc_is i) ds"

definition entry :: "string \<Rightarrow> extender \<Rightarrow> TrackExtension list" where
  "entry i s = (case watching s i of None \<Rightarrow> [] | Some ex \<Rightarrow> [ex])"

fun written :: "db_write \<Rightarrow> TrackExtension list \<Rightarrow> TrackExtension list" where
  "written (DbInsert ex) ds = ds @ [ex]"
| "written (DbUpdate ex) ds = upsert_doc ex ds"
| "written (DbRemove i) ds = filter (\<lambda>d. \<not> doc_is i d) ds"

fun write_id :: "db_write \<Rightarrow> string" where
  "write_id (DbInsert ex) = ex_Id ex"
| "write_id (DbUpdate ex) = ex_Id ex"
| "write_id (DbRemove i) = i"

fun valid_call :: "xcall \<Rightarrow> extender \<Rightarrow> bool" where
  "valid_call (StartWatching t c) s \<longleftrightarrow> watching s (x_Id t) = None"
| "valid_call (Update t c) s \<longleftrightarrow> c = 0 \<or> watching s (x_Id t) \<noteq> None"
| "valid_call c s \<longleftrightarrow> True"

fun writes :: "string \<Rightarrow> xpc \<Rightarrow> bool" where
  "writes i (Writing c w) \<longleftrightarrow> call_id c = i"
| "writes i _ \<longleftrightarrow> False"

text \<open>What holds for a track while a goroutine is busy with it: its decision is still right, or its write is what is missing.\<close>

fun pc_ok :: "string \<Rightarrow> extender \<Rightarrow> xpc \<Rightarrow> bool" where
  "pc_ok i s (Called c) \<longleftrightarrow> (call_id c = i \<longrightarrow> valid_call c s)"
| "pc_ok i s (Writing c w) \<longleftrightarrow> (call_id c = i \<longrightarrow> write_id w = i \<and> written w (docs_of i (docs s)) = entry i s)"
| "pc_ok i s Idle \<longleftrightarrow> True"

definition track_ok :: "string \<Rightarrow> xsystem \<Rightarrow> bool" where
  "track_ok i y \<longleftrightarrow>
     ((\<forall>g. \<not> writes i (pcs y g)) \<longrightarrow> docs_of i (docs (stage y)) = entry i (stage y)) \<and>
     (\<forall>g. pc_ok i (stage y) (pcs y g)) \<and> (\<forall>ex. watching (stage y) i = Some ex \<longrightarrow> ex_Id ex = i)"

definition same_at :: "string \<Rightarrow> extender \<Rightarrow> extender \<Rightarrow> bool" where
  "same_at i s s' \<longleftrightarrow> watching s' i = watching s i \<and> docs_of i (docs s') = docs_of i (docs s)"

lemma pc_ok_same: "same_at i s s' \<Longrightarrow> pc_ok i s p \<Longrightarrow> pc_ok i s' p"
proof (cases p)
  case (Called c)
  assume "same_at i s s'" "pc_ok i s p"
  then show ?thesis using Called by (cases c) (auto simp: same_at_def)
qed (auto simp: same_at_def entry_def)

lemma docs_of_written: "write_id w \<noteq> i \<Longrightarrow> docs_of i (written w ds) = docs_of i ds"
proof (cases w)
  case (DbUpdate ex)
  assume "write_id w \<noteq> i"
  then show ?thesis using DbUpdate by (induction ds) (auto simp: docs_of_def doc_is_def)
qed (auto simp: docs_of_def doc_is_def intro!: filter_cong)

lemma docs_of_written_own: "write_id w = i \<Longrightarrow> docs_of i (written w ds) = written w (docs_of i ds)"
proof (cases w)
  case (DbUpdate ex)
  assume "write_id w = i"
  then show ?thesis using DbUpdate by (induction ds) (auto simp: docs_of_def doc_is_def)
qed (auto simp: docs_of_def doc_is_def)

lemma upsert_entry: "ex_Id ex = i \<Longrightarrow> docs_of i ds = entry i s \<Longrightarrow> docs_of i (upsert_doc ex ds) = [ex]"
  using docs_of_written_own[of "DbUpdate ex" i ds]
  by (auto simp: entry_def docs_of_def doc_is_def filter_eq_Cons_iff split: option.splits)

lemma docs_of_mirrors: "distinct (map ex_Id ds) \<Longrightarrow> docs_of i ds = (case doc_map ds i of None \<Rightarrow> [] | Some d \<Rightarrow> [d])"
proof (induction ds)
  case (Cons d ds)
  have "doc_map ds i = None" if "ex_Id d = i" using Cons.prems that by (auto simp: doc_map_None)
  then show ?case using Cons by (auto simp: docs_of_def doc_is_def doc_map_def)
qed (simp add: docs_of_def doc_map_def)

text \<open>What the locked part of a call does to the track it is about, and that it leaves all others alone.\<close>

definition settles :: "string \<Rightarrow> extender \<Rightarrow> extender \<Rightarrow> db_write option res \<Rightarrow> bool" where
  "settles i s s' r \<longleftrightarrow> (\<forall>j. j \<noteq> i \<longrightarrow> same_at j s s') \<and> (\<forall>ex. watching s' i = Some ex \<longrightarrow> ex_Id ex = i) \<and>
     (case r of
        Inr (Some w) \<Rightarrow> write_id w = i \<and> written w (docs_of i (docs s')) = entry i s'
      | _ \<Rightarrow> docs_of i (docs s') = entry i s')"

lemma settles_put:
  assumes "docs_of i (docs s) = entry i s" "ex_Id ex = i"
  shows "settles i s (s\<lparr>watching := (watching s)(i \<mapsto> ex)\<rparr>) (Inr (Some (DbUpdate ex)))"
    "settles i s (s\<lparr>watching := (watching s)(i \<mapsto> ex), docs := upsert_doc ex (docs s)\<rparr>) (Inr None)"
proof -
  have "docs_of i (upsert_doc ex (docs s)) = [ex]" using upsert_entry[OF assms(2,1)] .
  moreover have "docs_of j (upsert_doc ex (docs s)) = docs_of j (docs s)" if "j \<noteq> i" for j
    using docs_of_written[of "DbUpdate ex" j "docs s"] that assms(2) by simp
  moreover have "written (DbUpdate ex) (docs_of i (docs s)) = [ex]"
    using docs_of_written_own[of "DbUpdate ex" i "docs s"] assms(2) calculation(1) by simp
  ultimately show "settles i s (s\<lparr>watching := (watching s)(i \<mapsto> ex)\<rparr>) (Inr (Some (DbUpdate ex)))"
    "settles i s (s\<lparr>watching := (watching s)(i \<mapsto> ex), docs := upsert_doc ex (docs s)\<rparr>) (Inr None)"
    using assms(2) by (simp_all add: settles_def same_at_def entry_def)
qed

lemma settles_new:
  assumes "docs_of i (docs s) = entry i s" "ex_Id ex = i" "watching s i = None"
  shows "settles i s (s\<lparr>watching := (watching s)(i \<mapsto> ex)\<rparr>) (Inr (Some (DbInsert ex)))"
  using assms by (simp add: settles_def same_at_def entry_def)

lemma settles_gone: "settles i s (s\<lparr>watching := (watching s)(i := None)\<rparr>) (Inr (Some (DbRemove i)))"
  by (simp add: settles_def same_at_def entry_def docs_of_def)

lemma enter_settles:
  assumes "enter e c s = (s', r)" "db_ok e" "pack_ok e" "x_Targets (call_track c) \<noteq> []" "valid_call c s"
    and "docs_of (call_id c) (docs s) = entry (call_id c) s" "\<And>ex. watching s (call_id c) = Some ex \<Longrightarrow> ex_Id ex = call_id c"
  shows "settles (call_id c) s s' r"
proof (cases c)
  case (StartWatching t n)
  obtain tgt tgts where t: "x_Targets t = tgt # tgts" using assms(4) StartWatching by (cases "x_Targets t") auto
  define ex where "ex = \<lparr>ex_Track = t, Updated = x_now e, Next = x_now e + extensionAt s,
    Expires = x_now e + timeout_of (timeouts s) (xt_Type tgt), Count = n\<rparr>"
  have "s' = s\<lparr>watching := (watching s)(x_Id t \<mapsto> ex)\<rparr>" "r = Inr (Some (DbInsert ex))"
    using assms(1) t by (auto simp: StartWatching start_locked_def left_over_def Let_def ex_def)
  moreover have "ex_Id ex = x_Id t" by (simp add: ex_def)
  ultimately show ?thesis using settles_new[of "x_Id t" s ex] assms(5,6) by (simp add: StartWatching)
next
  case (Update t n)
  have w: "watching s (x_Id t) = Some old \<Longrightarrow> x_Id (ex_Track old) = x_Id t" for old using assms(7) Update by auto
  obtain ex where "s' = s\<lparr>watching := (watching s)(x_Id t \<mapsto> ex), docs := upsert_doc ex (docs s)\<rparr>" "r = Inr None" "ex_Id ex = x_Id t"
    using assms(1,2,4,5) w
    by (auto simp: Update ex_update_def db_Update_def Let_def split: if_splits option.splits list.splits)
  then show ?thesis using settles_put(2)[of "x_Id t" s ex] assms(6) by (simp add: Update)
next
  case (StopWatching t)
  then show ?thesis using assms(1,4) settles_gone[of "x_Id t" s] by (auto simp: stop_locked_def left_over_def Let_def)
next
  case (SendTimeout t)
  then show ?thesis using assms(1,4) settles_gone[of "x_Id t" s] by (auto simp: stop_locked_def left_over_def Let_def)
next
  case (Extend ex)
  let ?upd = "ex\<lparr>ex_Track := set_repeat True (ex_Track ex), Next := x_now e + extensionAt s\<rparr>"
  show ?thesis
  proof (cases "stamp_ok e")
    case True
    then show ?thesis using assms(1,3,4,6) settles_put(1)[of "ex_Id ex" s ?upd]
      by (auto simp: Extend extend_locked_def left_over_def Let_def)
  next
    case False
    then obtain err where "s' = s" "r = Inl err"
      using assms(1) by (auto simp: Extend extend_locked_def left_over_def Let_def)
    moreover have "\<forall>x. watching s (call_id c) = Some x \<longrightarrow> ex_Id x = call_id c" using assms(7) by blast
    ultimately show ?thesis using assms(6) by (simp add: settles_def same_at_def)
  qed
next
  case (UpdateExpire ex d)
  let ?upd = "ex\<lparr>ex_Track := set_repeat True (ex_Track ex), Expires := Expires ex + d\<rparr>"
  show ?thesis using assms(1,4,6) settles_put(1)[of "ex_Id ex" s ?upd]
    by (auto simp: UpdateExpire expire_locked_def left_over_def Let_def)
qed

lemma leave_effect:
  assumes "leave e c w s = (s', r)" "db_ok e"
  shows "docs s' = written w (docs s) \<and> watching s' = watching s"
proof -
  obtain s1 where s1: "do_write e w s = (s1, Inr ())" "docs s1 = written w (docs s)" "watching s1 = watching s"
    using assms(2) by (cases w) (simp_all add: db_Insert_def db_Update_def db_Remove_def)
  then show ?thesis using assms(1) by (cases c) (auto simp: leave_def send_final_def split: if_splits)
qed

lemma track_okI:
  assumes "(\<forall>g. \<not> writes i (pcs y g)) \<Longrightarrow> docs_of i (docs (stage y)) = entry i (stage y)" "\<And>g. pc_ok i (stage y) (pcs y g)"
    and "\<And>ex. watching (stage y) i = Some ex \<Longrightarrow> ex_Id ex = i"
  shows "track_ok i y"
  using assms unfolding track_ok_def by blast

lemma decide_ok:
  assumes "track_ok i y" "pcs y g = Idle" "valid_call c (stage y)"
  shows "track_ok i (goto g (Called c) y)"
proof (rule track_okI)
  have w: "writes i (pcs (goto g (Called c) y) h) = writes i (pcs y h)" for h using assms(2) by (simp add: goto_def)
  show "docs_of i (docs (stage (goto g (Called c) y))) = entry i (stage (goto g (Called c) y))"
    if "\<forall>h. \<not> writes i (pcs (goto g (Called c) y) h)"
    using that assms(1) unfolding w by (simp add: track_ok_def goto_def)
qed (use assms in \<open>auto simp: track_ok_def goto_def\<close>)

lemma elsewhere_ok:
  assumes "track_ok i y" "same_at i (stage y) s" "\<not> writes i (pcs y g)" "\<not> writes i p" "pc_ok i s p"
  shows "track_ok i (goto g p (y\<lparr>stage := s\<rparr>))"
proof (rule track_okI)
  have w: "writes i (pcs (goto g p (y\<lparr>stage := s\<rparr>)) h) = writes i (pcs y h)" for h using assms(3,4) by (simp add: goto_def)
  show "docs_of i (docs (stage (goto g p (y\<lparr>stage := s\<rparr>)))) = entry i (stage (goto g p (y\<lparr>stage := s\<rparr>)))"
    if "\<forall>h. \<not> writes i (pcs (goto g p (y\<lparr>stage := s\<rparr>)) h)"
    using that assms(1,2) unfolding w by (simp add: track_ok_def goto_def same_at_def entry_def)
  show "pc_ok i (stage (goto g p (y\<lparr>stage := s\<rparr>))) (pcs (goto g p (y\<lparr>stage := s\<rparr>)) h)" for h
    using assms(1,5) pc_ok_same[OF assms(2)] by (simp add: track_ok_def goto_def)
qed (use assms(1,2) in \<open>auto simp: track_ok_def goto_def same_at_def\<close>)

text \<open>While one goroutine is busy with a track, the others are not.\<close>

lemma apart_others:
  assumes "apart y" "busy g i y" "h \<noteq> g"
  shows "\<not> writes i (pcs y h)" "pc_ok i s (pcs y h)"
proof -
  have "\<not> busy h i y" using assms unfolding apart_def by blast
  then show "\<not> writes i (pcs y h)" "pc_ok i s (pcs y h)" by (cases "pcs y h"; simp add: busy_def)+
qed

lemma own_ok:
  assumes "apart y" "busy g i y" "pc_ok i s p" "\<And>ex. watching s i = Some ex \<Longrightarrow> ex_Id ex = i"
    and "\<not> writes i p \<Longrightarrow> docs_of i (docs s) = entry i s"
  shows "track_ok i (goto g p (y\<lparr>stage := s\<rparr>))"
proof (rule track_okI)
  show "docs_of i (docs (stage (goto g p (y\<lparr>stage := s\<rparr>)))) = entry i (stage (goto g p (y\<lparr>stage := s\<rparr>)))"
    if "\<forall>h. \<not> writes i (pcs (goto g p (y\<lparr>stage := s\<rparr>)) h)"
    using assms(5) that[rule_format, of g] by (simp add: goto_def)
  show "pc_ok i (stage (goto g p (y\<lparr>stage := s\<rparr>))) (pcs (goto g p (y\<lparr>stage := s\<rparr>)) h)" for h
    using assms(3) apart_others(2)[OF assms(1,2)] by (simp add: goto_def)
qed (use assms(4) in \<open>simp add: goto_def\<close>)

lemma gstep_ok:
  assumes "gstep e y y'" "db_ok e" "pack_ok e" "apart y" "\<forall>i. track_ok i y"
  shows "track_ok i y'"
  using assms(1)
proof (cases rule: gstep.cases)
  case (analyze upd c)
  have "valid_call c (stage y)"
    using analyze(3) by (auto simp: analyze_call_def split: option.splits list.splits if_splits)
  then show ?thesis using analyze assms(5) decide_ok by blast
next
  case (request now lst report c)
  have "valid_call c (stage y)" using request(3) by (auto simp: request_call_def split: option.splits sum.splits)
  then show ?thesis using request assms(5) decide_ok by blast
next
  case (check now ex c)
  have "valid_call c (stage y)" using check(3) by (auto simp: check_call_def split: if_splits)
  then show ?thesis using check assms(5) decide_ok by blast
next
  case (expire ex d)
  then show ?thesis using assms(5) decide_ok[of i y Timeouts "UpdateExpire ex d"] by simp
next
  case (renew tm)
  have "same_at i (stage y) ((stage y)\<lparr>timeouts := tm\<rparr>)" by (simp add: same_at_def)
  from elsewhere_ok[OF assms(5)[rule_format] this, of Timeouts Idle] renew show ?thesis by (simp add: goto_def fun_upd_idem)
next
  case (enter_call g c s r)
  define p where "p = (case r of Inr (Some w) \<Rightarrow> Writing c w | _ \<Rightarrow> Idle)"
  have b: "busy g (call_id c) y" using enter_call(2) by (simp add: busy_def)
  have "\<not> writes (call_id c) (pcs y h)" for h using apart_others(1)[OF assms(4) b, of h] enter_call(2) by (cases "h = g") auto
  then have "settles (call_id c) (stage y) s r"
    using enter_settles[OF enter_call(3) assms(2,3)] enter_call(2) assms(4,5)
    by (auto simp: apart_def track_ok_def)
      (metis pc_ok.simps(1))
  then have st: "same_at j (stage y) s" "watching s (call_id c) = Some ex \<Longrightarrow> ex_Id ex = call_id c"
      "pc_ok (call_id c) s p" "\<not> writes (call_id c) p \<Longrightarrow> docs_of (call_id c) (docs s) = entry (call_id c) s"
    if "j \<noteq> call_id c" for j ex
    using that by (auto simp: settles_def p_def split: sum.splits option.splits)
  show ?thesis
  proof (cases "i = call_id c")
    case True
    have "\<exists>j. j \<noteq> call_id c" by (rule exI[of _ "call_id c @ ''x''"]) simp
    then show ?thesis using own_ok[OF assms(4) b, of s p] st True enter_call(1) unfolding p_def by blast
  next
    case False
    have "\<not> writes i (pcs y g)" "\<not> writes i p" "pc_ok i s p"
      using False enter_call(2) by (auto simp: p_def split: sum.splits option.splits)
    then show ?thesis using elsewhere_ok[OF assms(5)[rule_format] st(1)[OF False]] enter_call(1) unfolding p_def by blast
  qed
next
  case (leave_call g c w s r)
  have b: "busy g (call_id c) y" using leave_call(2) by (simp add: busy_def)
  note ef = leave_effect[OF leave_call(3) assms(2)]
  have pw: "pc_ok (call_id c) (stage y) (Writing c w)" using assms(5) leave_call(2) unfolding track_ok_def by metis
  show ?thesis
  proof (cases "i = call_id c")
    case True
    have "docs_of i (docs s) = entry i s"
      using pw True ef docs_of_written_own[of w i "docs (stage y)"] by (simp add: entry_def)
    moreover have "watching s i = Some ex \<Longrightarrow> ex_Id ex = i" for ex using ef assms(5) by (simp add: track_ok_def)
    ultimately show ?thesis using own_ok[OF assms(4) b, of s Idle] True leave_call(1) by simp
  next
    case False
    then have "same_at i (stage y) s" using pw ef docs_of_written[of w i "docs (stage y)"] by (simp add: same_at_def)
    from elsewhere_ok[OF assms(5)[rule_format] this, of g Idle] leave_call False show ?thesis by simp
  qed
qed

text \<open>C11. C11.
  Interleave the goroutines of the stage in any way, with the release of the mutex before each database write, decisions
  on state read before, and checks and timeout changes on outdated entries, such that no two goroutines are busy with
  the same track at a time, database writes succeed, tracks can be encoded and have targets. Then the collection holds every
  track that no outstanding write is about exactly as it is watched, in one document, and no document of a track that is
  not watched.
\<close>

theorem trackex_mirrors_watching:
  assumes "mirrors (stage y)" "\<forall>g. pcs y g = Idle" "xrun y y'" "\<forall>g. \<not> writes i (pcs y' g)"
  shows "docs_of i (docs (stage y')) = entry i (stage y')"
proof -
  have "track_ok i y" for i
    using assms(1,2) docs_of_mirrors[of "docs (stage y)" i] watched_has_targets[OF assms(1)]
    by (auto simp: track_ok_def mirrors_def entry_def)
  moreover have "apart y" using assms(2) by (simp add: apart_def busy_def)
  ultimately have "(\<forall>i. track_ok i y') \<and> apart y'"
    using assms(3) by (induction rule: xrun.induct[OF assms(3)]) (auto intro: gstep_ok)
  then show ?thesis using assms(4) by (simp add: track_ok_def)
qed

text \<open>
  Where two goroutines are busy with the same track this fails: an update and a request that both find a track unwatched
  both insert a document, and the collection holds the track twice.
\<close>

theorem overlapping_starts_double:
  fixes t :: xtrack and e :: xenv
  assumes "x_initialized s" "x_Targets t = tgt # tgts" "timeouts s (xt_Type tgt) \<noteq> None" "watching s (x_Id t) = None"
    and "docs_of (x_Id t) (docs s) = []" "db_ok e"
  shows "\<exists>y. (gstep e)\<^sup>*\<^sup>* \<lparr>stage = s, pcs = \<lambda>_. Idle\<rparr> y \<and> (\<forall>g. pcs y g = Idle) \<and> length (docs_of (x_Id t) (docs (stage y))) = 2"
proof -
  define ex where "ex c = \<lparr>ex_Track = t, Updated = x_now e, Next = x_now e + extensionAt s,
    Expires = x_now e + timeout_of (timeouts s) (xt_Type tgt), Count = c\<rparr>" for c
  let ?a = "StartWatching t 0" and ?b = "StartWatching t 1"
  let ?w = "\<lambda>c. (watching s)(x_Id t \<mapsto> ex c)"
  define y0 where "y0 = \<lparr>stage = s, pcs = \<lambda>_. Idle\<rparr>"
  define y1 where "y1 = goto Analyzer (Called ?a) y0"
  define y2 where "y2 = goto Requests (Called ?b) y1"
  define y3 where "y3 = goto Analyzer (Writing ?a (DbInsert (ex 0))) (y2\<lparr>stage := s\<lparr>watching := ?w 0\<rparr>\<rparr>)"
  define y4 where "y4 = goto Requests (Writing ?b (DbInsert (ex 1))) (y3\<lparr>stage := s\<lparr>watching := ?w 1\<rparr>\<rparr>)"
  define y5 where "y5 = goto Analyzer Idle (y4\<lparr>stage := s\<lparr>watching := ?w 1, docs := docs s @ [ex 0]\<rparr>\<rparr>)"
  define y6 where "y6 = goto Requests Idle (y5\<lparr>stage := s\<lparr>watching := ?w 1, docs := docs s @ [ex 0, ex 1]\<rparr>\<rparr>)"
  note ys = y6_def y5_def y4_def y3_def y2_def y1_def y0_def goto_def
  have "gstep e y0 y1" unfolding y1_def
    by (rule gstep.analyze[where upd = "\<lparr>xu_Status = Status_Current, xu_Track = Some t\<rparr>"])
      (use assms in \<open>auto simp: y0_def analyze_call_def\<close>)
  moreover have "gstep e y1 y2" unfolding y2_def
    by (rule gstep.request[where report = "\<lparr>rq_Track = Some t, rq_Count = 1\<rparr>" and lst = "Inr t" and now = 0])
      (use assms in \<open>auto simp: y0_def y1_def goto_def request_call_def\<close>)
  moreover have "gstep e y2 y3"
    using gstep.enter_call[of y2 Analyzer ?a e "s\<lparr>watching := ?w 0\<rparr>" "Inr (Some (DbInsert (ex 0)))"] assms(2)
    by (simp add: y3_def) (simp add: ys start_locked_def left_over_def Let_def ex_def)
  moreover have "gstep e y3 y4"
    using gstep.enter_call[of y3 Requests ?b e "s\<lparr>watching := ?w 1\<rparr>" "Inr (Some (DbInsert (ex 1)))"] assms(2)
    by (simp add: y4_def) (simp add: ys start_locked_def left_over_def Let_def ex_def)
  moreover have "gstep e y4 y5"
    using gstep.leave_call[of y4 Analyzer ?a "DbInsert (ex 0)" e "s\<lparr>watching := ?w 1, docs := docs s @ [ex 0]\<rparr>" "Inr ()"] assms(6)
    by (simp add: y5_def) (simp add: ys leave_def db_Insert_def)
  moreover have "gstep e y5 y6"
    using gstep.leave_call[of y5 Requests ?b "DbInsert (ex 1)" e "s\<lparr>watching := ?w 1, docs := docs s @ [ex 0, ex 1]\<rparr>" "Inr ()"] assms(6)
    by (simp add: y6_def) (simp add: ys leave_def db_Insert_def)
  ultimately have "(gstep e)\<^sup>*\<^sup>* y0 y6" by (meson converse_rtranclp_into_rtranclp rtranclp.rtrancl_refl)
  moreover have "\<forall>g. pcs y6 g = Idle" by (simp add: ys)
  moreover have "length (docs_of (x_Id t) (docs (stage y6))) = 2"
    using assms(5) by (simp add: ys docs_of_def doc_is_def ex_def)
  ultimately show ?thesis unfolding y0_def by blast
qed

section \<open>What a check does\<close>

definition expired :: "time \<Rightarrow> TrackExtension \<Rightarrow> bool" where
  "expired now ex \<longleftrightarrow> Expires ex < now \<and> Count ex = 0"

definition due :: "time \<Rightarrow> TrackExtension \<Rightarrow> bool" where
  "due now ex \<longleftrightarrow> \<not> expired now ex \<and> (Next ex < now \<or> 0 < sint (Count ex))"

definition env_ok :: "xenv \<Rightarrow> bool" where
  "env_ok e \<longleftrightarrow> db_ok e \<and> stamp_ok e \<and> pack_ok e"

definition repeated_ex :: "xenv \<Rightarrow> duration \<Rightarrow> TrackExtension \<Rightarrow> TrackExtension" where
  "repeated_ex e d ex = ex\<lparr>ex_Track := set_repeat True (ex_Track ex), Next := x_now e + d\<rparr>"

definition checked :: "time \<Rightarrow> xenv \<Rightarrow> duration \<Rightarrow> TrackExtension \<Rightarrow> TrackExtension option" where
  "checked now e d ex = (if expired now ex then None else Some (if due now ex then repeated_ex e d ex else ex))"

definition message :: "time \<Rightarrow> TrackExtension \<Rightarrow> xtrack list" where
  "message now ex = (if expired now ex then [set_repeat False (ex_Track ex)] else if due now ex then [set_repeat True (ex_Track ex)] else [])"

lemma check_one_exact:
  assumes "env_ok e" "x_Targets (ex_Track ex) \<noteq> []" "watching s (ex_Id ex) = Some ex"
  shows "watching (check_one e now ex s) = (watching s)(ex_Id ex := checked now e (extensionAt s) ex)"
    "sent (check_one e now ex s) = sent s @ message now ex" "extensionAt (check_one e now ex s) = extensionAt s"
  using assms
  by (auto simp: check_one_def x_ops db_Remove_def db_Update_def Let_def env_ok_def
      checked_def repeated_ex_def message_def expired_def due_def fun_eq_iff)

lemma check_exact_list:
  assumes "\<forall>ex\<in>set exs. env_ok (env ex) \<and> x_Targets (ex_Track ex) \<noteq> [] \<and> watching s (ex_Id ex) = Some ex" "distinct (map ex_Id exs)"
  shows "sent (check now (map (\<lambda>ex. (env ex, ex)) exs) s) = sent s @ concat (map (message now) exs) \<and>
    (\<forall>i. watching (check now (map (\<lambda>ex. (env ex, ex)) exs) s) i =
      (if i \<in> ex_Id ` set exs then checked now (env (the (watching s i))) (extensionAt s) (the (watching s i)) else watching s i))"
  using assms
proof (induction exs arbitrary: s)
  case (Cons ex exs)
  let ?s = "check_one (env ex) now ex s"
  have c: "watching ?s = (watching s)(ex_Id ex := checked now (env ex) (extensionAt s) ex)"
      "sent ?s = sent s @ message now ex" "extensionAt ?s = extensionAt s"
    using check_one_exact[of "env ex" ex s now] Cons.prems(1) by auto
  have n: "ex_Id ex \<notin> ex_Id ` set exs" using Cons.prems(2) by simp
  have "watching ?s (ex_Id ex') = watching s (ex_Id ex')" if "ex' \<in> set exs" for ex'
    unfolding c(1) using n that by (metis fun_upd_other imageI)
  then have "\<forall>ex'\<in>set exs. env_ok (env ex') \<and> x_Targets (ex_Track ex') \<noteq> [] \<and> watching ?s (ex_Id ex') = Some ex'"
    using Cons.prems(1) by (metis list.set_intros(2))
  moreover have "distinct (map ex_Id exs)" using Cons.prems(2) by simp
  ultimately have ih: "sent (check now (map (\<lambda>ex. (env ex, ex)) exs) ?s) = sent ?s @ concat (map (message now) exs)"
      "\<And>i. watching (check now (map (\<lambda>ex. (env ex, ex)) exs) ?s) i =
        (if i \<in> ex_Id ` set exs then checked now (env (the (watching ?s i))) (extensionAt ?s) (the (watching ?s i)) else watching ?s i)"
    using Cons.IH[of ?s] by blast+
  have st: "check now (map (\<lambda>ex. (env ex, ex)) (ex # exs)) s = check now (map (\<lambda>ex. (env ex, ex)) exs) ?s" by (simp add: check_def)
  have "watching ?s i = watching s i" if "i \<noteq> ex_Id ex" for i using c(1) that by simp
  then have "watching (check now (map (\<lambda>ex. (env ex, ex)) exs) ?s) i =
      (if i \<in> ex_Id ` set (ex # exs) then checked now (env (the (watching s i))) (extensionAt s) (the (watching s i)) else watching s i)" for i
    using ih(2)[of i] n c Cons.prems(1) by (cases "i = ex_Id ex") auto
  then show ?case unfolding st using ih(1) c(2) by simp
qed (simp add: check_def)

lemma check_pass:
  assumes "mirrors s" "distinct exs" "set exs = ran (watching s)" "\<forall>ex\<in>set exs. env_ok (env ex)"
  shows "sent (check now (map (\<lambda>ex. (env ex, ex)) exs) s) = sent s @ concat (map (message now) exs) \<and>
    watching (check now (map (\<lambda>ex. (env ex, ex)) exs) s) =
      (\<lambda>i. Option.bind (watching s i) (\<lambda>ex. checked now (env ex) (extensionAt s) ex))"
proof -
  have w: "watching s (ex_Id ex) = Some ex \<and> x_Targets (ex_Track ex) \<noteq> []" if "ex \<in> set exs" for ex
  proof -
    obtain i where "watching s i = Some ex" using \<open>ex \<in> set exs\<close> assms(3) by (auto simp: ran_def)
    then show ?thesis using watched_has_targets[OF assms(1)] by auto
  qed
  have "inj_on ex_Id (set exs)" by (rule inj_onI) (metis w option.inject)
  then have "distinct (map ex_Id exs)" using assms(2) by (simp add: distinct_map)
  moreover have "\<forall>ex\<in>set exs. env_ok (env ex) \<and> x_Targets (ex_Track ex) \<noteq> [] \<and> watching s (ex_Id ex) = Some ex" using w assms(4) by blast
  ultimately have e: "sent (check now (map (\<lambda>ex. (env ex, ex)) exs) s) = sent s @ concat (map (message now) exs)"
      "\<And>i. watching (check now (map (\<lambda>ex. (env ex, ex)) exs) s) i =
        (if i \<in> ex_Id ` set exs then checked now (env (the (watching s i))) (extensionAt s) (the (watching s i)) else watching s i)"
    using check_exact_list[of exs env s now] by blast+
  have "watching s i = None" if "i \<notin> ex_Id ` set exs" for i
  proof (cases "watching s i")
    case (Some ex)
    then have "ex \<in> set exs" "ex_Id ex = i" using assms(3) watched_has_targets[OF assms(1) Some] by (auto simp: ran_def)
    then show ?thesis using that by auto
  qed
  moreover have "\<exists>ex. watching s i = Some ex" if "i \<in> ex_Id ` set exs" for i using that w by auto
  ultimately have "watching (check now (map (\<lambda>ex. (env ex, ex)) exs) s) i =
      Option.bind (watching s i) (\<lambda>ex. checked now (env ex) (extensionAt s) ex)" for i
    using e(2)[of i] by (cases "i \<in> ex_Id ` set exs") fastforce+
  then show ?thesis using e(1) by blast
qed

text \<open>
  A check whose calls succeed, in whatever order it visits the watched tracks, sends a final report for exactly the
  expired tracks and forgets them, and a repeated report for exactly the others that are due, setting their next turn;
  the rest stay as they are.
\<close>

theorem check_exact:
  assumes "mirrors s" "distinct exs" "set exs = ran (watching s)" "\<forall>ex\<in>set exs. env_ok (env ex)"
  shows "sent (check now (map (\<lambda>ex. (env ex, ex)) exs) s) = sent s @ concat (map (message now) exs) \<and>
    watching (check now (map (\<lambda>ex. (env ex, ex)) exs) s) =
      (\<lambda>i. Option.bind (watching s i) (\<lambda>ex. checked now (env ex) (extensionAt s) ex))"
  by (rule check_pass[OF assms])

section \<open>Restarting\<close>

lemma init_fold:
  assumes "\<forall>ex\<in>set exs. env_ok (env ex) \<and> x_Targets (ex_Track ex) \<noteq> []" "distinct (map ex_Id (docs s))"
    and "\<forall>i. i \<in> ex_Id ` set exs \<or> watching s i = doc_map (docs s) i" "\<forall>d\<in>set (docs s). x_Targets (ex_Track d) \<noteq> []"
  shows "mirrors (fold (\<lambda>ex s. fst (x_extend (env ex) ex (s\<lparr>watching := (watching s)(ex_Id ex \<mapsto> ex)\<rparr>))) exs s)"
  using assms
proof (induction exs arbitrary: s)
  case Nil
  then show ?case by (auto simp: mirrors_def)
next
  case (Cons ex exs)
  let ?u = "repeated_ex (env ex) (extensionAt s) ex"
  let ?s = "fst (x_extend (env ex) ex (s\<lparr>watching := (watching s)(ex_Id ex \<mapsto> ex)\<rparr>))"
  have u: "ex_Id ?u = ex_Id ex" "x_Targets (ex_Track ?u) \<noteq> []" using Cons.prems(1) by (auto simp: repeated_ex_def)
  have x: "watching ?s = (watching s)(ex_Id ex \<mapsto> ?u)" "docs ?s = upsert_doc ?u (docs s)"
    using Cons.prems(1) by (auto simp: x_ops db_Update_def Let_def env_ok_def repeated_ex_def)
  have "distinct (map ex_Id (docs ?s))" using distinct_upsert[OF Cons.prems(2)] x(2) by simp
  moreover have "\<forall>i. i \<in> ex_Id ` set exs \<or> watching ?s i = doc_map (docs ?s) i"
    using Cons.prems(3) x u(1) doc_map_upsert[of ?u "docs s"] by auto
  moreover have "\<forall>d\<in>set (docs ?s). x_Targets (ex_Track d) \<noteq> []" using Cons.prems(4) set_upsert[of ?u "docs s"] x(2) u(2) by auto
  moreover have "\<forall>ex\<in>set exs. env_ok (env ex) \<and> x_Targets (ex_Track ex) \<noteq> []" using Cons.prems(1) by simp
  ultimately show ?case using Cons.IH[of ?s] unfolding fold_simps by blast
qed

text \<open>
  After a restart whose calls succeed the stage watches exactly the stored tracks that have not expired or are held by a
  request, and the collection mirrors them again.
\<close>

theorem restart_restores:
  assumes "distinct (map ex_Id ds)" "\<forall>d\<in>set ds. x_Targets (ex_Track d) \<noteq> [] \<and> env_ok (env d)"
  shows "\<exists>s. x_init now config True True env (newTrackExtenderStage fast ds) = (s, Inr ()) \<and> mirrors s \<and> x_initialized s \<and>
    dom (watching s) = {ex_Id d | d. d \<in> set ds \<and> (now \<le> Expires d \<or> 1 \<le> sint (Count d))}"
proof -
  define s0 where "s0 = (let s = newTrackExtenderStage fast ds in
      case config of None \<Rightarrow> s | Some r \<Rightarrow> s\<lparr>timeouts := timeouts s ++ map_of (configured r)\<rparr>)"
  have d0: "docs s0 = ds" "watching s0 = Map.empty"
    by (auto simp: s0_def Let_def newTrackExtenderStage_def split: option.splits)
  let ?s = "s0\<lparr>docs := db_Startup now ds\<rparr>"
  define f where "f = (\<lambda>ex s. fst (x_extend (env ex) ex (s\<lparr>watching := (watching s)(ex_Id ex \<mapsto> ex)\<rparr>)))"
  have i: "x_init now config True True env (newTrackExtenderStage fast ds) = ((fold f (db_Startup now ds) ?s)\<lparr>x_initialized := True\<rparr>, Inr ())"
    using d0 by (simp add: x_init_def Let_def s0_def f_def)
  have w: "\<forall>i. i \<in> ex_Id ` set (db_Startup now ds) \<or> watching ?s i = doc_map (docs ?s) i"
    using d0(2) doc_map_None[of "db_Startup now ds"] by (simp add: eq_commute[of None])
  have "mirrors (fold f (db_Startup now ds) ?s)"
    unfolding f_def by (rule init_fold[OF _ _ w]) (use assms in \<open>auto simp: db_Startup_def distinct_map_filter\<close>)
  moreover have "dom (watching (fold f exs s)) = dom (watching s) \<union> ex_Id ` set exs" if "\<forall>ex\<in>set exs. env_ok (env ex)" for exs s
    using that
    by (induction exs arbitrary: s) (auto simp: f_def x_ops db_Update_def Let_def env_ok_def)
  then have "dom (watching (fold f (db_Startup now ds) ?s)) = ex_Id ` set (db_Startup now ds)"
    using assms(2) d0(2) by (auto simp: db_Startup_def)
  moreover have "ex_Id ` set (db_Startup now ds) = {ex_Id d | d. d \<in> set ds \<and> (now \<le> Expires d \<or> 1 \<le> sint (Count d))}"
    by (auto simp: db_Startup_def)
  ultimately show ?thesis using i by auto
qed

section \<open>The life of a silent track\<close>

lemma check_mirrors:
  "mirrors s \<Longrightarrow> \<forall>ex\<in>set exs. env_ok (env ex) \<and> x_Targets (ex_Track ex) \<noteq> [] \<Longrightarrow> mirrors (check now (map (\<lambda>ex. (env ex, ex)) exs) s)"
  by (induction exs arbitrary: s) (auto simp: check_def check_one_mirrors env_ok_def)

lemma check_extensionAt: "extensionAt (check_one e now ex s) = extensionAt s"
  by (auto simp: check_one_def x_ops db_Remove_def db_Update_def Let_def)

text \<open>Checks at the given times, each over all watched tracks in some order, whose calls succeed.\<close>

inductive check_run :: "extender \<Rightarrow> time list \<Rightarrow> extender \<Rightarrow> bool" where
  none: "check_run s [] s"
| pass: "check_run s ts s' \<Longrightarrow> distinct exs \<Longrightarrow> set exs = ran (watching s') \<Longrightarrow> \<forall>ex\<in>set exs. env_ok (env ex) \<Longrightarrow>
    check_run s (ts @ [now]) (check now (map (\<lambda>ex. (env ex, ex)) exs) s')"

lemma pass_effect:
  assumes "mirrors s" "distinct exs" "set exs = ran (watching s)" "\<forall>ex\<in>set exs. env_ok (env ex)"
  shows "mirrors (check now (map (\<lambda>ex. (env ex, ex)) exs) s)"
    "watching (check now (map (\<lambda>ex. (env ex, ex)) exs) s) i = Option.bind (watching s i) (\<lambda>ex. checked now (env ex) (extensionAt s) ex)"
    "sent (check now (map (\<lambda>ex. (env ex, ex)) exs) s) = sent s @ concat (map (message now) exs)"
proof -
  have "x_Targets (ex_Track ex) \<noteq> []" if h: "ex \<in> set exs" for ex
  proof -
    obtain j where "watching s j = Some ex" using h assms(3) by (auto simp: ran_def)
    then show ?thesis using watched_has_targets[OF assms(1)] by simp
  qed
  then show "mirrors (check now (map (\<lambda>ex. (env ex, ex)) exs) s)" using check_mirrors[OF assms(1)] assms(4) by blast
  show "watching (check now (map (\<lambda>ex. (env ex, ex)) exs) s) i = Option.bind (watching s i) (\<lambda>ex. checked now (env ex) (extensionAt s) ex)"
    "sent (check now (map (\<lambda>ex. (env ex, ex)) exs) s) = sent s @ concat (map (message now) exs)"
    using check_pass[OF assms] by simp_all
qed

lemma silent_track:
  assumes "check_run s ts s'" "mirrors s" "watching s i = Some ex" "Count ex = 0"
  shows "mirrors s' \<and>
    (if \<forall>t\<in>set ts. t \<le> Expires ex
     then \<exists>ex'. watching s' i = Some ex' \<and> Expires ex' = Expires ex \<and> Count ex' = 0 \<and> set_repeat False (ex_Track ex') = set_repeat False (ex_Track ex)
     else watching s' i = None \<and> set_repeat False (ex_Track ex) \<in> set (sent s'))"
  using assms
proof (induction rule: check_run.induct)
  case (pass s ts s' exs env now)
  let ?c = "check now (map (\<lambda>ex. (env ex, ex)) exs) s'"
  have ih: "mirrors s'"
      "if \<forall>t\<in>set ts. t \<le> Expires ex
       then \<exists>ex'. watching s' i = Some ex' \<and> Expires ex' = Expires ex \<and> Count ex' = 0 \<and> set_repeat False (ex_Track ex') = set_repeat False (ex_Track ex)
       else watching s' i = None \<and> set_repeat False (ex_Track ex) \<in> set (sent s')"
    using pass.IH pass.prems by blast+
  note p = pass_effect[OF ih(1) pass.hyps(2-4), of now]
  show ?case
  proof (cases "\<forall>t\<in>set ts. t \<le> Expires ex")
    case False
    then show ?thesis using ih p by (auto simp: p(2)[of i])
  next
    case True
    then obtain ex' where e: "watching s' i = Some ex'" "Expires ex' = Expires ex" "Count ex' = 0"
        "set_repeat False (ex_Track ex') = set_repeat False (ex_Track ex)" using ih(2) by auto
    then have m: "ex' \<in> set exs" using pass.hyps(3) by (auto simp: ran_def)
    show ?thesis
    proof (cases "now \<le> Expires ex")
      case True
      have "set_repeat False (set_repeat True (ex_Track ex')) = set_repeat False (ex_Track ex')"
        by (auto simp: set_repeat_def split: list.splits)
      then show ?thesis using True \<open>\<forall>t\<in>set ts. t \<le> Expires ex\<close> e p(1) p(2)[of i]
        by (auto simp: checked_def expired_def repeated_ex_def)
    next
      case False
      then have "expired now ex'" using e by (simp add: expired_def)
      then have "message now ex' = [set_repeat False (ex_Track ex)]" "checked now (env ex') (extensionAt s') ex' = None"
        using e(4) by (simp_all add: message_def checked_def)
      then have "set_repeat False (ex_Track ex) \<in> set (concat (map (message now) exs))" "watching ?c i = None"
        using m e(1) p(2)[of i] by (simp_all add: bexI[of _ ex'])
      then show ?thesis using False p(1,3) by auto
    qed
  qed
qed simp

text \<open>
  A track that does not report any more stays watched through every check up to its expiry, is forgotten by the first
  check after it, and a final report is sent for it then.
\<close>

theorem silent_track_times_out:
  assumes "check_run s ts s'" "mirrors s" "watching s i = Some ex" "Count ex = 0"
  shows "(watching s' i \<noteq> None \<longleftrightarrow> (\<forall>t\<in>set ts. t \<le> Expires ex)) \<and>
    ((\<exists>t\<in>set ts. Expires ex < t) \<longrightarrow> set_repeat False (ex_Track ex) \<in> set (sent s'))"
  using silent_track[OF assms] by (auto simp: not_le split: if_splits)

section \<open>Where the stage fails\<close>

text \<open>
  The check works on a copy of the watched tracks without holding the lock: a track that reports after the copy was made
  is forgotten again and reported as timed out, because its old entry had expired.
\<close>

theorem stale_check_times_out:
  assumes "mirrors s" "x_initialized s" "watching s i = Some ex" "expired now ex"
    and "x_Id t = i" "x_Targets t = tgt # tgts" "timeouts s (xt_Type tgt) = Some d" "\<not> xt_Repeat tgt" "st \<noteq> Status_Timeout" "env_ok e"
  shows "let s1 = fst (x_analyze e \<lparr>xu_Status = st, xu_Track = Some t\<rparr> s); s2 = check_one e now ex s1 in
    (\<exists>ex'. watching s1 i = Some ex' \<and> Expires ex' = x_now e + d) \<and> watching s2 i = None \<and> sent s2 = sent s @ [set_repeat False (ex_Track ex)]"
  using assms watched_has_targets[OF assms(1,3)]
  by (auto simp: Let_def x_analyze_def ex_update_def db_Update_def env_ok_def timeout_of_def check_one_def expired_def x_ops
      db_Remove_def)

text \<open>
  A request that takes back more than was requested leaves a negative count, which neither counts as none nor as held:
  the track is never timed out by a check, however late.
\<close>

theorem negative_count_never_expires:
  assumes "mirrors s" "watching s i = Some ex" "Count ex = 0" "now < Expires ex" "x_Id t = i" "env_ok e" "env_ok e'"
  shows "let s1 = fst (extendReq e now lst \<lparr>rq_Track = Some t, rq_Count = - 1\<rparr> s) in
    \<exists>ex'. watching s1 i = Some ex' \<and> sint (Count ex') = - 1 \<and> (\<forall>late. watching (check_one e' late ex' s1) i \<noteq> None)"
proof -
  have w: "x_Targets (ex_Track ex) \<noteq> []" "ex_Id ex = i" using watched_has_targets[OF assms(1,2)] by auto
  let ?ex = "ex\<lparr>Count := - 1\<rparr>"
  define s1 where "s1 = fst (extendReq e now lst \<lparr>rq_Track = Some t, rq_Count = - 1\<rparr> s)"
  have s1: "watching s1 i = Some ?ex"
    using assms by (simp add: s1_def extendReq_def ex_update_def Let_def db_Update_def env_ok_def)
  have "watching (check_one e' late ?ex s1) i \<noteq> None" for late
    using s1 w assms(7) by (auto simp: check_one_def x_ops db_Update_def Let_def env_ok_def)
  then show ?thesis using s1 by (auto simp: Let_def s1_def[symmetric])
qed

section \<open>Witnesses\<close>

definition beacon_track :: xtrack where
  "beacon_track = \<lparr>x_Id = ''b'', x_Targets = [\<lparr>xt_Type = SARSAT, xt_Repeat = False, xt_rest = ''''\<rparr>]\<rparr>"

definition beacon :: TrackExtension where
  "beacon = \<lparr>ex_Track = beacon_track, Updated = 0, Next = 50, Expires = 100, Count = 0\<rparr>"

definition one_watched :: extender where
  "one_watched = (newTrackExtenderStage False [beacon])\<lparr>watching := [''b'' \<mapsto> beacon], x_initialized := True\<rparr>"

definition good_env :: "time \<Rightarrow> xenv" where
  "good_env now = \<lparr>x_now = now, db_ok = True, stamp_ok = True, pack_ok = True, x_shared = True\<rparr>"

lemma one_watched_simps:
  "mirrors one_watched" "watching one_watched = [''b'' \<mapsto> beacon]" "x_initialized one_watched" "ran (watching one_watched) = {beacon}"
  "timeouts one_watched SARSAT = Some (12 * hour)" "sent one_watched = []"
  by (auto simp: one_watched_def newTrackExtenderStage_def mirrors_def doc_map_def beacon_def beacon_track_def)

text \<open>
  The analyzer starts to watch a second track and the watcher extends the first; each is between its two parts while the other
  enters and leaves.
\<close>

definition other_track :: xtrack where
  "other_track = \<lparr>x_Id = ''c'', x_Targets = [\<lparr>xt_Type = Manual, xt_Repeat = False, xt_rest = ''''\<rparr>]\<rparr>"

definition other_ex :: TrackExtension where
  "other_ex = \<lparr>ex_Track = other_track, Updated = 60, Next = 60 + 10 * minute, Expires = 60 + 100 * 365 * 24 * hour, Count = 0\<rparr>"

definition beacon_later :: TrackExtension where
  "beacon_later = beacon\<lparr>ex_Track := set_repeat True beacon_track, Next := 60 + 10 * minute\<rparr>"

definition ex_run :: "nat \<Rightarrow> xsystem" where
  "ex_run n =
     [\<lparr>stage = one_watched, pcs = \<lambda>_. Idle\<rparr>,
      \<lparr>stage = one_watched, pcs = (\<lambda>_. Idle)(Analyzer := Called (StartWatching other_track 0))\<rparr>,
      \<lparr>stage = one_watched\<lparr>watching := [''b'' \<mapsto> beacon, ''c'' \<mapsto> other_ex]\<rparr>,
        pcs = (\<lambda>_. Idle)(Analyzer := Writing (StartWatching other_track 0) (DbInsert other_ex))\<rparr>,
      \<lparr>stage = one_watched\<lparr>watching := [''b'' \<mapsto> beacon, ''c'' \<mapsto> other_ex]\<rparr>,
        pcs = (\<lambda>_. Idle)(Analyzer := Writing (StartWatching other_track 0) (DbInsert other_ex), Watcher := Called (Extend beacon))\<rparr>,
      \<lparr>stage = one_watched\<lparr>watching := [''b'' \<mapsto> beacon_later, ''c'' \<mapsto> other_ex]\<rparr>,
        pcs = (\<lambda>_. Idle)(Analyzer := Writing (StartWatching other_track 0) (DbInsert other_ex),
                         Watcher := Writing (Extend beacon) (DbUpdate beacon_later))\<rparr>,
      \<lparr>stage = one_watched\<lparr>watching := [''b'' \<mapsto> beacon_later, ''c'' \<mapsto> other_ex], docs := [beacon, other_ex]\<rparr>,
        pcs = (\<lambda>_. Idle)(Watcher := Writing (Extend beacon) (DbUpdate beacon_later))\<rparr>,
      \<lparr>stage = one_watched\<lparr>watching := [''b'' \<mapsto> beacon_later, ''c'' \<mapsto> other_ex], docs := [beacon_later, other_ex],
                           sent := [set_repeat True beacon_track]\<rparr>,
        pcs = \<lambda>_. Idle\<rparr>] ! n"

lemmas ex_track_defs = other_ex_def other_track_def beacon_later_def beacon_def beacon_track_def one_watched_def newTrackExtenderStage_def
  good_env_def

lemma pcs_back:
  "((\<lambda>_. Idle)(Analyzer := a, Watcher := b))(Analyzer := Idle) = (\<lambda>_. Idle)(Watcher := b)"
  "(\<lambda>_. Idle)(g := Idle) = (\<lambda>_. Idle)"
  by (auto simp: fun_eq_iff)

lemma ex_run_steps:
  "gstep (good_env 60) (ex_run 0) (ex_run 1)" "gstep (good_env 60) (ex_run 1) (ex_run 2)" "gstep (good_env 60) (ex_run 2) (ex_run 3)"
  "gstep (good_env 60) (ex_run 3) (ex_run 4)" "gstep (good_env 60) (ex_run 4) (ex_run 5)" "gstep (good_env 60) (ex_run 5) (ex_run 6)"
proof -
  show "gstep (good_env 60) (ex_run 0) (ex_run 1)"
    using gstep.analyze[of "ex_run 0" "\<lparr>xu_Status = Status_Current, xu_Track = Some other_track\<rparr>" "StartWatching other_track 0" "good_env 60"]
    by (simp add: ex_run_def goto_def analyze_call_def ex_track_defs)
  show "gstep (good_env 60) (ex_run 1) (ex_run 2)"
    using gstep.enter_call[of "ex_run 1" Analyzer "StartWatching other_track 0" "good_env 60" "stage (ex_run 2)" "Inr (Some (DbInsert other_ex))"]
    by (simp add: ex_run_def goto_def start_locked_def left_over_def timeout_of_def Let_def ex_track_defs)
  show "gstep (good_env 60) (ex_run 2) (ex_run 3)"
    using gstep.check[of "ex_run 2" 60 beacon "Extend beacon" "good_env 60"]
    by (simp add: ex_run_def goto_def check_call_def ex_track_defs)
  show "gstep (good_env 60) (ex_run 3) (ex_run 4)"
    using gstep.enter_call[of "ex_run 3" Watcher "Extend beacon" "good_env 60" "stage (ex_run 4)" "Inr (Some (DbUpdate beacon_later))"]
    by (simp add: ex_run_def goto_def extend_locked_def left_over_def Let_def ex_track_defs fun_upd_twist set_repeat_def)
  show "gstep (good_env 60) (ex_run 4) (ex_run 5)"
    using gstep.leave_call[of "ex_run 4" Analyzer "StartWatching other_track 0" "DbInsert other_ex" "good_env 60" "stage (ex_run 5)" "Inr ()"]
    by (simp add: ex_run_def goto_def pcs_back leave_def db_Insert_def ex_track_defs)
  show "gstep (good_env 60) (ex_run 5) (ex_run 6)"
    using gstep.leave_call[of "ex_run 5" Watcher "Extend beacon" "DbUpdate beacon_later" "good_env 60" "stage (ex_run 6)" "Inr ()"]
    by (simp add: ex_run_def goto_def pcs_back leave_def db_Update_def doc_is_def ex_track_defs set_repeat_def)
qed

lemma ex_run_apart: "n < 7 \<Longrightarrow> apart (ex_run n)"
  by (auto simp: apart_def busy_def ex_run_def less_Suc_eq numeral_eq_Suc ex_track_defs split: if_splits)

theorem trackex_mirrors_watching_witness:
  "xrun (ex_run 0) (ex_run 6) \<and> entry ''b'' (stage (ex_run 6)) = [beacon_later] \<and> docs_of ''b'' (docs (stage (ex_run 6))) = [beacon_later] \<and>
   docs_of ''c'' (docs (stage (ex_run 6))) = entry ''c'' (stage (ex_run 6)) \<and>
   docs_of ''c'' (docs (stage (ex_run 4))) \<noteq> entry ''c'' (stage (ex_run 4))"
proof -
  have ok: "db_ok (good_env 60)" "pack_ok (good_env 60)" by (simp_all add: good_env_def)
  have "xrun (ex_run 0) (ex_run n)" if "n < 7" for n
    using that
  proof (induction n)
    case (Suc n)
    then have "gstep (good_env 60) (ex_run n) (ex_run (Suc n))" using ex_run_steps by (auto simp: less_Suc_eq numeral_eq_Suc)
    then show ?case using Suc ok ex_run_apart xrun.step by auto
  qed (rule xrun.start)
  then have r: "xrun (ex_run 0) (ex_run 6)" by simp
  have s: "mirrors (stage (ex_run 0))" "\<forall>g. pcs (ex_run 0) g = Idle" "\<forall>g. \<not> writes i (pcs (ex_run 6) g)" for i
    using one_watched_simps(1) by (simp_all add: ex_run_def)
  have e: "entry ''b'' (stage (ex_run 6)) = [beacon_later]" by (simp add: entry_def ex_run_def)
  show ?thesis
    using r e trackex_mirrors_watching[OF s(1,2) r s(3)]
    by (simp add: ex_run_def[of 4] entry_def docs_of_def doc_is_def ex_track_defs)
qed

theorem overlapping_starts_double_witness:
  "\<exists>y. (gstep (good_env 60))\<^sup>*\<^sup>* \<lparr>stage = one_watched, pcs = \<lambda>_. Idle\<rparr> y \<and> (\<forall>g. pcs y g = Idle) \<and>
     length (docs_of ''c'' (docs (stage y))) = 2"
  using overlapping_starts_double[of one_watched other_track "\<lparr>xt_Type = Manual, xt_Repeat = False, xt_rest = ''''\<rparr>" "[]" "good_env 60"]
  by (simp add: ex_track_defs docs_of_def doc_is_def)

theorem check_exact_witness:
  "sent (check 60 (map (\<lambda>ex. (good_env 61, ex)) [beacon]) one_watched) = sent one_watched @ concat (map (message 60) [beacon]) \<and>
   watching (check 60 (map (\<lambda>ex. (good_env 61, ex)) [beacon]) one_watched) =
     (\<lambda>i. Option.bind (watching one_watched i) (\<lambda>ex. checked 60 (good_env 61) (extensionAt one_watched) ex))"
  by (rule check_exact[where env = "\<lambda>_. good_env 61"]) (simp_all add: one_watched_simps good_env_def env_ok_def)

theorem restart_restores_witness:
  "\<exists>s. x_init 90 None True True (\<lambda>_. good_env 91) (newTrackExtenderStage False [beacon]) = (s, Inr ()) \<and> mirrors s \<and> x_initialized s \<and>
     dom (watching s) = {ex_Id d | d. d \<in> set [beacon] \<and> (90 \<le> Expires d \<or> 1 \<le> sint (Count d))}"
  by (rule restart_restores) (simp_all add: beacon_def beacon_track_def good_env_def env_ok_def)

theorem silent_track_times_out_witness:
  "\<exists>s'. check_run one_watched [60] s' \<and> watching s' ''b'' \<noteq> None"
proof -
  let ?s = "check 60 (map (\<lambda>ex. (good_env 61, ex)) [beacon]) one_watched"
  have "check_run one_watched ([] @ [60]) ?s"
    by (rule check_run.pass[where env = "\<lambda>_. good_env 61", OF check_run.none])
      (simp_all add: one_watched_simps good_env_def env_ok_def)
  then have "check_run one_watched [60] ?s" by simp
  moreover from silent_track_times_out[OF this one_watched_simps(1), of "''b''" beacon]
  have "watching ?s ''b'' \<noteq> None" by (simp add: one_watched_simps) (simp add: beacon_def)
  ultimately show ?thesis by blast
qed

theorem stale_check_times_out_witness:
  "let s1 = fst (x_analyze (good_env 150) \<lparr>xu_Status = Status_Current, xu_Track = Some beacon_track\<rparr> one_watched);
       s2 = check_one (good_env 150) 140 beacon s1 in
    (\<exists>ex'. watching s1 ''b'' = Some ex' \<and> Expires ex' = x_now (good_env 150) + 12 * hour) \<and> watching s2 ''b'' = None \<and>
    sent s2 = sent one_watched @ [set_repeat False (ex_Track beacon)]"
  by (rule stale_check_times_out[where tgt = "\<lparr>xt_Type = SARSAT, xt_Repeat = False, xt_rest = ''''\<rparr>" and tgts = "[]"])
    (simp_all add: one_watched_simps beacon_track_def good_env_def env_ok_def expired_def, simp add: beacon_def)

theorem negative_count_never_expires_witness:
  "let s1 = fst (extendReq (good_env 20) 20 (Inl OutOfRange) \<lparr>rq_Track = Some beacon_track, rq_Count = - 1\<rparr> one_watched) in
    \<exists>ex'. watching s1 ''b'' = Some ex' \<and> sint (Count ex') = - 1 \<and> (\<forall>late. watching (check_one (good_env 21) late ex' s1) ''b'' \<noteq> None)"
  by (rule negative_count_never_expires[where ex = beacon])
    (simp_all add: one_watched_simps good_env_def env_ok_def, simp_all add: beacon_def beacon_track_def)

end
