(* ===== verification/Incident_Tracks.thy ===== *)
theory Incident_Tracks
  imports Incident_Resource Track_Extender
begin

text \<open>
  The incident requests of \<^verbatim>\<open>twebd\<close> and the track extender of \<^verbatim>\<open>tanalyzed\<close> together: the requests for track extensions the
  handlers of \<open>Incident_Resource\<close> send are taken by \<open>Track_Extender\<close>, between reports of the tracks, checks and changes of the
  timeouts.
\<close>

section \<open>From the incidents of a site to the watched tracks\<close>

text \<open>
  What happens to the extender: a request that resolves to a track, a report, the turn of a watched track in a check, and a change of
  its expiry by new timeouts, each at its own time and with its own outcome of database calls.
\<close>

datatype xact =
    Request xenv time xtrack int
  | Report xenv xupdate
  | Check_turn xenv time TrackExtension
  | New_expiry xenv TrackExtension duration

fun x_act :: "xact \<Rightarrow> extender \<Rightarrow> extender" where
  "x_act (Request e now t n) s = fst (extendReq e now (Inr t) \<lparr>rq_Track = None, rq_Count = word_of_int n\<rparr> s)"
| "x_act (Report e upd) s = fst (x_analyze e upd s)"
| "x_act (Check_turn e now ex) s = check_one e now ex s"
| "x_act (New_expiry e ex d) s = fst (updateExpire e ex d s)"

text \<open>
  What is asked of the acts about the track \<open>i\<close>: requests come with targets, no other daemon reports the track as timed out, and
  a check or a change of expiry works on the entry as it is watched, not on an outdated copy.
\<close>

fun timely :: "string \<Rightarrow> xact \<Rightarrow> extender \<Rightarrow> bool" where
  "timely i (Request e now t n) s \<longleftrightarrow> x_Id t = i \<longrightarrow> x_Targets t \<noteq> []"
| "timely i (Report e upd) s \<longleftrightarrow> (\<forall>t. xu_Track upd = Some t \<and> x_Id t = i \<longrightarrow> xu_Status upd \<noteq> Status_Timeout)"
| "timely i (Check_turn e now ex) s \<longleftrightarrow> (ex_Id ex = i \<longrightarrow> watching s i = Some ex)"
| "timely i (New_expiry e ex d) s \<longleftrightarrow> (ex_Id ex = i \<longrightarrow> watching s i = Some ex)"

fun timely_all :: "string \<Rightarrow> xact list \<Rightarrow> extender \<Rightarrow> bool" where
  "timely_all i [] s \<longleftrightarrow> True"
| "timely_all i (a # as) s \<longleftrightarrow> timely i a s \<and> timely_all i as (x_act a s)"

text \<open>The counts requested for the track \<open>i\<close>, in order.\<close>

fun requests_for :: "string \<Rightarrow> xact list \<Rightarrow> int list" where
  "requests_for i [] = []"
| "requests_for i (Request e now t n # as) = (if x_Id t = i then n # requests_for i as else requests_for i as)"
| "requests_for i (a # as) = requests_for i as"

text \<open>The track is held \<open>c\<close> times.\<close>

definition held :: "extender \<Rightarrow> string \<Rightarrow> int \<Rightarrow> bool" where
  "held s i c \<longleftrightarrow> (\<forall>ex. watching s i = Some ex \<longrightarrow> ex_Id ex = i \<and> Count ex = word_of_int c) \<and> (0 < c \<longrightarrow> watching s i \<noteq> None)"

lemma elsewhere:
  assumes "x_Id t \<noteq> i"
  shows "watching (fst (startWatching e t c s)) i = watching s i" "watching (fst (ex_update e t c s)) i = watching s i"
    "watching (fst (stopWatching e t s)) i = watching s i" "watching (fst (send_timeout e t s)) i = watching s i"
  using assms
  by (auto simp: x_ops ex_update_def db_Insert_def db_Update_def db_Remove_def Let_def split: list.splits option.splits if_splits)

lemma elsewhere_ex:
  assumes "ex_Id ex \<noteq> i"
  shows "watching (fst (x_extend e ex s)) i = watching s i" "watching (fst (updateExpire e ex d s)) i = watching s i"
    "watching (check_one e now ex s) i = watching s i"
proof -
  show "watching (fst (x_extend e ex s)) i = watching s i" "watching (fst (updateExpire e ex d s)) i = watching s i"
    using assms by (auto simp: x_ops db_Update_def Let_def)
  then show "watching (check_one e now ex s) i = watching s i" using elsewhere(4)[OF assms] by (simp add: check_one_def)
qed

lemma small_count: "0 \<le> c \<Longrightarrow> c < 2 ^ 31 \<Longrightarrow> sint (word_of_int c :: 32 word) = c"
  by (simp add: sint_sbintrunc' signed_take_bit_int_eq_self)

lemma extend_keeps_count:
  assumes "watching s (ex_Id ex) = Some ex"
  shows "\<exists>ex'. watching (fst (x_extend e ex s)) (ex_Id ex) = Some ex' \<and> ex_Id ex' = ex_Id ex \<and> Count ex' = Count ex"
    "\<exists>ex'. watching (fst (updateExpire e ex d s)) (ex_Id ex) = Some ex' \<and> ex_Id ex' = ex_Id ex \<and> Count ex' = Count ex"
  using assms by (auto simp: x_ops db_Update_def Let_def)

lemma held_other: "watching s' i = watching s i \<Longrightarrow> held s i c \<Longrightarrow> held s' i c"
  by (simp add: held_def)

lemma held_same: "watching s' i = Some ex' \<Longrightarrow> ex_Id ex' = i \<Longrightarrow> Count ex' = word_of_int c \<Longrightarrow> held s' i c"
  by (simp add: held_def)

lemma request_held:
  assumes "held s i c" "x_Id t = i" "x_Targets t \<noteq> []" "n = 1 \<or> n = - 1" "0 \<le> c" "0 \<le> c + n" "c + n < 2 ^ 31"
  shows "held (x_act (Request e now t n) s) i (c + n)"
proof (cases "watching s i")
  case None
  then have "c = 0" using assms(1,5) by (auto simp: held_def)
  then show ?thesis using None assms(2-4)
    by (auto simp: extendReq_def x_ops db_Insert_def Let_def held_def split: list.splits)
next
  case (Some ex)
  then have ex: "ex_Id ex = i" "Count ex = word_of_int c" using assms(1) by (auto simp: held_def)
  have sum: "Count ex + word_of_int n = word_of_int (c + n)" "sint (Count ex + word_of_int n) = c + n"
    using ex(2) small_count[OF assms(6,7)] by simp_all
  have n: "(word_of_int n :: 32 word) \<noteq> 0" using assms(4) by auto
  show ?thesis
  proof (cases "0 < c + n \<or> now < Expires ex")
    case True
    then have "watching (x_act (Request e now t n) s) i = Some (ex\<lparr>Count := word_of_int (c + n)\<rparr>)"
      using Some sum n assms(2) by (auto simp: extendReq_def ex_update_def db_Update_def Let_def)
    then show ?thesis using ex(1) by (auto intro: held_same)
  next
    case False
    then have "c + n = 0" "watching (x_act (Request e now t n) s) i = None"
      using Some sum(2) assms(2,6) by (auto simp: extendReq_def x_ops db_Remove_def Let_def)
    then show ?thesis by (simp add: held_def)
  qed
qed

lemma report_held:
  assumes "held s i c" "0 \<le> c" "timely i (Report e upd) s"
  shows "held (x_act (Report e upd) s) i c"
proof (cases "\<exists>t. xu_Track upd = Some t \<and> x_Id t = i")
  case True
  then obtain t where t: "xu_Track upd = Some t" "x_Id t = i" "xu_Status upd \<noteq> Status_Timeout" using assms(3) by auto
  show ?thesis
  proof (cases "watching s i")
    case None
    then have "c = 0" using assms(1,2) by (auto simp: held_def)
    then show ?thesis using t None assms(1)
      by (auto simp: x_analyze_def x_ops db_Insert_def Let_def held_def split: list.splits)
  next
    case (Some ex)
    then show ?thesis using t assms(1)
      by (auto simp: x_analyze_def ex_update_def db_Update_def Let_def held_def split: list.splits)
  qed
next
  case False
  then have "watching (x_act (Report e upd) s) i = watching s i"
    by (auto simp: x_analyze_def elsewhere split: option.splits list.splits)
  then show ?thesis using assms(1) by (rule held_other)
qed

lemma turn_held:
  assumes "held s i c" "0 \<le> c" "c < 2 ^ 31" "timely i a s" "a = Check_turn e now ex \<or> a = New_expiry e ex d"
  shows "held (x_act a s) i c"
proof (cases "ex_Id ex = i")
  case True
  then have "watching s i = Some ex" using assms(4,5) by auto
  then have w: "watching s (ex_Id ex) = Some ex" "Count ex = word_of_int c" using assms(1) True by (simp_all add: held_def)
  have "held (fst (x_extend e ex s)) i c" "held (fst (updateExpire e ex d s)) i c"
    using extend_keeps_count[OF w(1)] w(2) True held_same by metis+
  moreover have "held (fst (send_timeout e (ex_Track ex) s)) i c" if "Count ex = 0"
  proof -
    have "c = 0" using that w(2) small_count[OF assms(2,3)] by (metis sint_0)
    then show ?thesis using True by (auto simp: held_def x_ops db_Remove_def Let_def)
  qed
  ultimately show ?thesis using assms(1,5) by (auto simp: check_one_def)
next
  case False
  then show ?thesis using assms(1,5) elsewhere_ex[OF False] by (auto intro: held_other)
qed

lemma acts_held:
  assumes "held s i c" "timely_all i as s" "\<forall>n\<in>set (requests_for i as). n = 1 \<or> n = - 1"
    and "\<forall>k. 0 \<le> c + sum_list (take k (requests_for i as))" "c + int (length (requests_for i as)) < 2 ^ 31"
  shows "held (fold x_act as s) i (c + sum_list (requests_for i as))"
  using assms
proof (induction as arbitrary: s c)
  case (Cons a as)
  have c0: "0 \<le> c" using Cons.prems(4)[rule_format, of 0] by simp
  have c31: "c < 2 ^ 31" using Cons.prems(5) by linarith
  show ?case
  proof (cases "\<exists>e now t n. a = Request e now t n \<and> x_Id t = i")
    case True
    then obtain e now t n where a: "a = Request e now t n" "x_Id t = i" by blast
    have n: "n = 1 \<or> n = - 1" "0 \<le> c + n" "c + n < 2 ^ 31" using Cons.prems(3,5) Cons.prems(4)[rule_format, of 1] a by auto
    have h: "held (x_act a s) i (c + n)"
      unfolding a(1) using Cons.prems(2) a by (intro request_held[OF Cons.prems(1) a(2) _ n(1) c0 n(2,3)]) simp
    have "0 \<le> c + n + sum_list (take k (requests_for i as))" for k
      using Cons.prems(4)[rule_format, of "Suc k"] a by (simp add: ac_simps)
    moreover have "c + n + int (length (requests_for i as)) < 2 ^ 31" using Cons.prems(5) n(1) a by auto
    ultimately show ?thesis using Cons.IH[OF h] Cons.prems(2,3) a by (simp add: ac_simps)
  next
    case False
    then have r: "requests_for i (a # as) = requests_for i as" by (cases a) auto
    have "held (x_act a s) i c"
    proof (cases a)
      case (Request e now t n)
      then have "watching (x_act a s) i = watching s i"
        using False by (auto simp: extendReq_def elsewhere split: option.splits)
      then show ?thesis using Cons.prems(1) by (rule held_other)
    next
      case (Report e upd)
      then show ?thesis using report_held[OF Cons.prems(1) c0] Cons.prems(2) by simp
    next
      case (Check_turn e now ex)
      then show ?thesis using turn_held[OF Cons.prems(1) c0 c31, of a] Cons.prems(2) by auto
    next
      case (New_expiry e ex d)
      then show ?thesis using turn_held[OF Cons.prems(1) c0 c31, of a] Cons.prems(2) by auto
    qed
    then show ?thesis using Cons.IH[of "x_act a s" c] Cons.prems(2-5) unfolding r by simp
  qed
qed simp

text \<open>The counts sent for the registry entry \<open>r\<close>, in order.\<close>

definition sent_for :: "string \<Rightarrow> (string \<times> int) list \<Rightarrow> int list" where
  "sent_for r xs = map snd (filter (\<lambda>(i, n). i = r) xs)"

lemma sent_for_sum: "sum_list (sent_for r xs) = sum_list (map (\<lambda>(i, n). if i = r then n else 0) xs)"
  by (induction xs) (auto simp: sent_for_def)

lemma sent_for_take: "\<exists>k'. take k (sent_for r xs) = sent_for r (take k' xs)"
proof (induction xs arbitrary: k)
  case (Cons x xs)
  obtain i n where x: "x = (i, n)" by force
  show ?case
  proof (cases "i = r")
    case True
    show ?thesis
    proof (cases k)
      case 0
      then show ?thesis by (intro exI[of _ 0]) (simp add: sent_for_def)
    next
      case (Suc m)
      obtain k' where "take m (sent_for r xs) = sent_for r (take k' xs)" using Cons.IH by blast
      then show ?thesis using True Suc by (intro exI[of _ "Suc k'"]) (simp add: x sent_for_def)
    qed
  next
    case False
    obtain k' where "take k (sent_for r xs) = sent_for r (take k' xs)" using Cons.IH by blast
    then show ?thesis using False by (intro exI[of _ "Suc k'"]) (simp add: x sent_for_def)
  qed
qed (simp add: sent_for_def)

text \<open>C12. C12.
  The incident requests of a site and the extender together. Let the extender take the requests about a track that an
  orderly run of incident requests has sent, in their order and each at any time, between any reports, checks and changes of
  timeouts; checks and changes work on the track as it is watched, and no report says that the track has timed out. Then, with
  \<open>c\<close> entries of the track in the logs of open incidents: if there are any, the track is watched with the count \<open>c\<close>, and no
  check, however late, gives it up; if there are none, it is not watched or has the count zero, and a check after its
  expiry gives it up.
\<close>

theorem open_incidents_hold_track:
  fixes reg :: "string \<rightharpoonup> string list" and rs :: "(req_env \<times> inc_request) list"
  defines "w \<equiv> serve_all rs (no_incidents reg)"
  assumes "orderly_all rs (no_incidents reg)" "held s i 0" "timely_all i as s" "requests_for i as = sent_for r (ext_sent w)"
    and "length (ext_sent w) < 2 ^ 31"
  shows "let c = open_tracks r w; s' = fold x_act as s in
    (0 < c \<longrightarrow> (\<exists>ex. watching s' i = Some ex \<and> sint (Count ex) = c \<and> (\<forall>e now. watching (check_one e now ex s') i \<noteq> None))) \<and>
    (c = 0 \<longrightarrow> (\<forall>ex. watching s' i = Some ex \<longrightarrow> Count ex = 0 \<and> (\<forall>e now. Expires ex < now \<longrightarrow> watching (check_one e now ex s') i = None)))"
proof -
  define c where "c = open_tracks r w"
  define s' where "s' = fold x_act as s"
  have st: "steady w" unfolding w_def by (rule steady_orderly[OF assms(2)])
  then have c: "sum_list (sent_for r (ext_sent w)) = c" by (simp add: sent_for_sum steady_def requested_def c_def)
  have len: "length (sent_for r (ext_sent w)) \<le> length (ext_sent w)" by (simp add: sent_for_def)
  have pos: "0 \<le> sum_list (take k (sent_for r (ext_sent w)))" for k
  proof -
    obtain k' where "take k (sent_for r (ext_sent w)) = sent_for r (take k' (ext_sent w))" using sent_for_take by blast
    then show ?thesis using st by (simp add: sent_for_sum steady_def never_short_def)
  qed
  have pm: "\<forall>n\<in>set (requests_for i as). n = 1 \<or> n = - 1"
    using st unfolding assms(5) by (auto simp: steady_def sent_for_def)
  have h: "held s' i c"
    using acts_held[OF assms(3,4) pm] pos len assms(6) unfolding assms(5) c s'_def by simp
  have le: "sum_list xs \<le> int (length xs)" if "\<forall>n\<in>set xs. n = 1 \<or> n = - 1" for xs
    using that by (induction xs) auto
  have "c < 2 ^ 31" using le[OF pm] assms(6) len unfolding assms(5) c by simp
  moreover have "0 \<le> c" unfolding c_def by (rule open_tracks_nonneg)
  ultimately have sc: "sint (word_of_int c :: 32 word) = c" by (intro small_count)
  have held_case: "watching (check_one e now ex s') i \<noteq> None" if "watching s' i = Some ex" "0 < c" for ex e now
  proof -
    have ex: "ex_Id ex = i" "Count ex \<noteq> 0" using h that sc by (auto simp: held_def)
    then show ?thesis using extend_keeps_count(1)[of s' ex e] that(1) by (auto simp: check_one_def)
  qed
  have free_case: "watching (check_one e now ex s') i = None" if "watching s' i = Some ex" "c = 0" "Expires ex < now" for ex e now
  proof -
    have "ex_Id ex = i" "Count ex = 0" using h that(1,2) by (auto simp: held_def)
    then show ?thesis using that(3) by (auto simp: check_one_def x_ops db_Remove_def Let_def)
  qed
  show ?thesis unfolding Let_def c_def[symmetric] s'_def[symmetric]
  proof (intro conjI impI allI)
    assume "0 < c"
    then obtain ex where ex: "watching s' i = Some ex" using h by (auto simp: held_def)
    then have "sint (Count ex) = c" using h sc by (simp add: held_def)
    with ex held_case \<open>0 < c\<close> show "\<exists>ex. watching s' i = Some ex \<and> sint (Count ex) = c \<and> (\<forall>e now. watching (check_one e now ex s') i \<noteq> None)"
      by blast
  next
    show "Count ex = 0" if "c = 0" "watching s' i = Some ex" for ex using h that by (simp add: held_def)
  qed (rule free_case)
qed

section \<open>Where a held track is lost\<close>

text \<open>A report that the track has timed out ends the watching, however many open incidents name the track.\<close>

theorem timeout_report_drops_held:
  assumes "x_initialized s" "x_Targets t = tgt # tgts" "timeouts s (xt_Type tgt) \<noteq> None"
  shows "watching (x_act (Report e \<lparr>xu_Status = Status_Timeout, xu_Track = Some t\<rparr>) s) (x_Id t) = None"
  using assms by (auto simp: x_analyze_def x_ops db_Remove_def Let_def)

text \<open>A check that works on a copy made before a request writes the old count back: the request is lost.\<close>

theorem stale_check_loses_request:
  assumes "watching s (x_Id t) = Some ex" "ex_Id ex = x_Id t" "Count ex = 1" "x_Targets (ex_Track ex) \<noteq> []" "env_ok e"
  shows "let s1 = x_act (Request e now t 1) s; s2 = x_act (Check_turn e now ex) s1 in
    map_option Count (watching s1 (x_Id t)) = Some 2 \<and> map_option Count (watching s2 (x_Id t)) = Some 1"
  using assms by (simp add: Let_def extendReq_def ex_update_def db_Update_def check_one_def x_ops env_ok_def)

section \<open>Witnesses\<close>

definition ex_requests :: "(req_env \<times> inc_request) list" where
  "ex_requests = [(ex_env ex_key, Req_create (Some ex_doc))]"

text \<open>The request comes at 500, long after the deadline of 100, is followed by a report and by a check.\<close>

definition ex_acts :: "xact list" where
  "ex_acts = [Request (good_env 500) 500 beacon_track 1, Report (good_env 510) \<lparr>xu_Status = Status_Current, xu_Track = Some beacon_track\<rparr>]"

lemma ex_requests_sent: "ext_sent (serve_all ex_requests (no_incidents Map.empty)) = [(''t7'', 1)]"
  by (simp add: ex_requests_def serve_all_def Create_def ex_defs validateUserRole_def processLogEntry_def locked_state_def complete_note_def
      misc_Upsert_def succeed_def addToRegistry_def sendTrackExReq_def Publish_incident_def audit_def audit_files_def Let_def)

lemma ex_requests_orderly: "orderly_all ex_requests (no_incidents Map.empty)"
  by (simp add: ex_requests_def ex_defs ex_key_def tracks_named_def)

theorem open_incidents_hold_track_witness:
  "open_tracks ''t7'' (serve_all ex_requests (no_incidents Map.empty)) = 1 \<and>
   (\<exists>ex. watching (fold x_act ex_acts one_watched) ''b'' = Some ex \<and> sint (Count ex) = 1 \<and>
     (\<forall>e now. watching (check_one e now ex (fold x_act ex_acts one_watched)) ''b'' \<noteq> None))"
proof -
  have c: "open_tracks ''t7'' (serve_all ex_requests (no_incidents Map.empty)) = 1"
  proof -
    have "requested ''t7'' (serve_all ex_requests (no_incidents Map.empty)) = open_tracks ''t7'' (serve_all ex_requests (no_incidents Map.empty))"
      using steady_orderly[OF ex_requests_orderly] unfolding steady_def by blast
    then show ?thesis unfolding requested_def ex_requests_sent by simp
  qed
  have "held one_watched ''b'' 0" "timely_all ''b'' ex_acts one_watched"
    by (simp_all add: held_def ex_acts_def one_watched_simps beacon_def beacon_track_def)
  moreover have "requests_for ''b'' ex_acts = sent_for ''t7'' (ext_sent (serve_all ex_requests (no_incidents Map.empty)))"
    by (simp add: ex_acts_def beacon_track_def ex_requests_sent sent_for_def)
  ultimately show ?thesis
    using open_incidents_hold_track[OF ex_requests_orderly, of one_watched "''b''" ex_acts "''t7''"] c
    by (simp add: ex_requests_sent Let_def)
qed

theorem timeout_report_drops_held_witness:
  "watching (x_act (Report (good_env 9) \<lparr>xu_Status = Status_Timeout, xu_Track = Some beacon_track\<rparr>) one_watched) ''b'' = None"
  using timeout_report_drops_held[OF one_watched_simps(3), of beacon_track "\<lparr>xt_Type = SARSAT, xt_Repeat = False, xt_rest = ''''\<rparr>" "[]" "good_env 9"]
  by (simp add: beacon_track_def one_watched_simps)

theorem stale_check_loses_request_witness:
  "let s = one_watched\<lparr>watching := [''b'' \<mapsto> beacon\<lparr>Count := 1\<rparr>]\<rparr>;
       s1 = x_act (Request (good_env 9) 9 beacon_track 1) s; s2 = x_act (Check_turn (good_env 9) 9 (beacon\<lparr>Count := 1\<rparr>)) s1 in
    map_option Count (watching s1 ''b'') = Some 2 \<and> map_option Count (watching s2 ''b'') = Some 1"
  using stale_check_loses_request[of "one_watched\<lparr>watching := [''b'' \<mapsto> beacon\<lparr>Count := 1\<rparr>]\<rparr>" beacon_track "beacon\<lparr>Count := 1\<rparr>" "good_env 9" 9]
  by (simp add: Let_def good_env_def env_ok_def) (simp add: beacon_def beacon_track_def)

end
