(* ===== verification/Byte_Codec.thy ===== *)
theory Byte_Codec
  imports Prisma_Prelude
begin

unbundle bit_operations_syntax

text \<open>
  Big-endian integers in byte arrays, as \<^verbatim>\<open>encoding/binary\<close> and the shift-and-or expressions of the
  source read and write them, and the interface of a fixed-width field (\<open>field_codec\<close>) that the
  message layouts of \<open>Iridium\<close> and \<open>Tmsg_Frame\<close> are proved against.
\<close>

section \<open>Big-endian integers\<close>

type_synonym octet = "8 word"
type_synonym go_bytes = "octet list"

definition be16 :: "16 word \<Rightarrow> go_bytes" where
  "be16 w = [ucast (drop_bit 8 w), ucast w]"

definition be32 :: "32 word \<Rightarrow> go_bytes" where
  "be32 w = [ucast (drop_bit 24 w), ucast (drop_bit 16 w), ucast (drop_bit 8 w), ucast w]"

definition rd8 :: "go_bytes \<Rightarrow> nat \<Rightarrow> octet" where
  "rd8 data i = data ! i"

definition rd16 :: "go_bytes \<Rightarrow> nat \<Rightarrow> 16 word" where
  "rd16 data i = ucast (data ! (i + 1)) OR push_bit 8 (ucast (data ! i))"

definition rd32 :: "go_bytes \<Rightarrow> nat \<Rightarrow> 32 word" where
  "rd32 data i = ucast (data ! (i + 3)) OR push_bit 8 (ucast (data ! (i + 2)))
     OR push_bit 16 (ucast (data ! (i + 1))) OR push_bit 24 (ucast (data ! i))"

definition be64 :: "64 word \<Rightarrow> go_bytes" where
  "be64 w = be32 (ucast (drop_bit 32 w)) @ be32 (ucast w)"

definition rd64 :: "go_bytes \<Rightarrow> nat \<Rightarrow> 64 word" where
  "rd64 data i = ucast (rd32 data (i + 4)) OR push_bit 32 (ucast (rd32 data i))"

section \<open>Fields at a fixed offset\<close>

locale field_codec =
  fixes width :: nat
    and enc :: "'a \<Rightarrow> go_bytes"
    and rd :: "go_bytes \<Rightarrow> nat \<Rightarrow> 'a"
  assumes enc_width: "length (enc x) = width"
    and rd_enc: "rd (enc x @ post) 0 = x"
    and rd_shift: "rd (pre @ bs) (length pre + i) = rd bs i"
begin

lemma rd_at: "length pre = i \<Longrightarrow> rd (pre @ enc x @ post) i = x"
  using rd_shift [of pre "enc x @ post" 0] by (simp add: rd_enc)

lemma rd_Cons: "rd (b # bs) (Suc i) = rd bs i"
  using rd_shift [of "[b]" bs i] by simp

lemma enc_inj: "enc x = enc y \<Longrightarrow> x = y"
  using rd_enc [of x "[]"] rd_enc [of y "[]"] by simp

end

lemma rd16_be16: "ucast (ucast w :: octet) OR push_bit 8 (ucast (ucast (drop_bit 8 w) :: octet)) = w"
  for w :: "16 word"
  by (rule bit_word_eqI) (auto simp: bit_simps)

lemma rd32_be32:
  "ucast (ucast w :: octet) OR push_bit 8 (ucast (ucast (drop_bit 8 w) :: octet))
     OR push_bit 16 (ucast (ucast (drop_bit 16 w) :: octet))
     OR push_bit 24 (ucast (ucast (drop_bit 24 w) :: octet)) = w"
  for w :: "32 word"
proof (rule bit_word_eqI, goal_cases)
  case (1 n)
  then show ?case by (cases "24 \<le> n"; cases "16 \<le> n"; cases "8 \<le> n") (auto simp: bit_simps)
qed

interpretation u8: field_codec 1 "\<lambda>b. [b]" rd8
  by unfold_locales (simp_all add: rd8_def nth_append)

interpretation u16: field_codec 2 be16 rd16
  by unfold_locales (simp_all add: be16_def rd16_def rd16_be16 nth_append)

interpretation u32: field_codec 4 be32 rd32
  by unfold_locales (simp_all add: be32_def rd32_def rd32_be32 nth_append)

lemma rd64_be64: "ucast (ucast w :: 32 word) OR push_bit 32 (ucast (ucast (drop_bit 32 w) :: 32 word)) = w"
  for w :: "64 word"
proof (rule bit_word_eqI, goal_cases)
  case (1 n)
  then show ?case by (cases "32 \<le> n") (auto simp: bit_simps)
qed

interpretation u64: field_codec 8 be64 rd64
proof
  fix x post pre bs i
  show "length (be64 x) = 8" by (simp add: be64_def u32.enc_width)
  show "rd64 (be64 x @ post) 0 = x"
    using u32.rd_at [of "[]" 0 "ucast (drop_bit 32 x)" "be32 (ucast x) @ post"]
      u32.rd_at [of "be32 (ucast (drop_bit 32 x))" 4 "ucast x" post]
    by (simp add: rd64_def be64_def u32.enc_width rd64_be64)
  show "rd64 (pre @ bs) (length pre + i) = rd64 bs i"
    using u32.rd_shift [of pre bs i] u32.rd_shift [of pre bs "i + 4"]
    by (simp add: rd64_def add.assoc)
qed

lemma slice_at: "length pre = i \<Longrightarrow> length xs = j - i \<Longrightarrow> slice (pre @ xs @ post) i j = xs"
  by (simp add: slice_def)

lemma be32_low: "drop 2 (be32 (word_of_nat n)) = be16 (word_of_nat n)"
proof -
  have "ucast (drop_bit 8 (word_of_nat n :: 32 word)) = (ucast (drop_bit 8 (word_of_nat n :: 16 word)) :: octet)"
    by (rule bit_word_eqI) (auto simp: bit_simps)
  moreover have "ucast (word_of_nat n :: 32 word) = (ucast (word_of_nat n :: 16 word) :: octet)"
    by (rule bit_word_eqI) (auto simp: bit_simps)
  ultimately show ?thesis by (simp add: be32_def be16_def)
qed

end
