(* ===== verification/Tmsg_Frame.thy ===== *)
theory Tmsg_Frame
  imports Byte_Codec
begin

text \<open>
  \<^verbatim>\<open>tms/tmsg/msgparser.go\<close> and \<^verbatim>\<open>tms/tmsg/any.go\<close>: the framing of routed messages on a byte stream and
  the packing of a message body into an \<^verbatim>\<open>Any\<close>. A frame is a 24-byte header (magic number, random id,
  size), the body and a 72-byte footer (random id, SHA-512 of header and body).

  The stream is a \<open>reader\<close>: the bytes still to come and the size of the \<^verbatim>\<open>bufio.Reader\<close>'s buffer, the
  most that \<^verbatim>\<open>Peek\<close> can return. The message type is \<open>'m\<close>; protobuf (un)marshalling, zlib and SHA-512
  are function parameters. \<^verbatim>\<open>int\<close> sizes are the signed values of 64-bit words.
\<close>

section \<open>Definitions\<close>

definition MsgStartMagicNumber :: "64 word" where
  "MsgStartMagicNumber = 0x5453494d53475632"

definition MsgStartZLibMagicNumber :: "64 word" where
  "MsgStartZLibMagicNumber = 0x5453495a4c425632"

definition MaxMessageSize :: int where
  "MaxMessageSize = 32 * 1024 * 1024"

definition HdrSize :: nat where "HdrSize = 24"
definition FtrSize :: nat where "FtrSize = 72"

definition RetryError :: go_fault where
  "RetryError = Err ''Recoverable error, retry''"

record TsiMessageHeader =
  MsgStart :: "64 word"
  MsgRandomId :: "64 word"
  MsgSize :: "64 word"

record TsiMessageFooter =
  ft_MsgRandomId :: "64 word"
  MsgSha512Hash :: go_bytes

definition header_bytes :: "TsiMessageHeader \<Rightarrow> go_bytes" where
  "header_bytes h = be64 (MsgStart h) @ be64 (MsgRandomId h) @ be64 (MsgSize h)"

definition read_header :: "go_bytes \<Rightarrow> TsiMessageHeader" where
  "read_header bs = \<lparr>MsgStart = rd64 bs 0, MsgRandomId = rd64 bs 8, MsgSize = rd64 bs 16\<rparr>"

definition footer_bytes :: "TsiMessageFooter \<Rightarrow> go_bytes" where
  "footer_bytes f = be64 (ft_MsgRandomId f) @ MsgSha512Hash f"

definition read_footer :: "go_bytes \<Rightarrow> TsiMessageFooter" where
  "read_footer bs = \<lparr>ft_MsgRandomId = rd64 bs 0, MsgSha512Hash = slice bs 8 72\<rparr>"

record reader =
  coming :: go_bytes
  bufsize :: nat

definition rd_Peek :: "int \<Rightarrow> reader \<Rightarrow> go_bytes res" where
  "rd_Peek n r =
     (if n < 0 then Inl (Err ''bufio: negative count'')
      else if nat n > bufsize r then Inl (Err ''bufio: buffer full'')
      else if nat n > length (coming r) then Inl (Err ''EOF'')
      else Inr (take (nat n) (coming r)))"

definition rd_Discard :: "nat \<Rightarrow> reader \<Rightarrow> reader" where
  "rd_Discard n r = r\<lparr>coming := drop n (coming r)\<rparr>"

text \<open>The result of a read: the message or an error, the random id and the reader afterwards.\<close>

definition ReadTsiMessageExtended ::
  "(go_bytes \<Rightarrow> go_bytes) \<Rightarrow> (go_bytes \<Rightarrow> go_bytes res) \<Rightarrow> (go_bytes \<Rightarrow> 'm res) \<Rightarrow> reader \<Rightarrow>
   'm res \<times> 64 word \<times> reader"
where
  "ReadTsiMessageExtended sha unzlib unmarshal r =
     (case rd_Peek (int HdrSize) r of
        Inl e \<Rightarrow> (Inl e, 0, r)
      | Inr headerBytes \<Rightarrow>
          let header = read_header headerBytes; hid = MsgRandomId header in
          if MsgStart header \<noteq> MsgStartMagicNumber \<and> MsgStart header \<noteq> MsgStartZLibMagicNumber
          then (Inl RetryError, hid, rd_Discard 1 r)
          else
            let zlibDecompress = (MsgStart header = MsgStartZLibMagicNumber);
                wholeSize = sint (word_of_nat (HdrSize + FtrSize) + MsgSize header) in
            if MaxMessageSize < wholeSize then
              (if nat wholeSize \<le> length (coming r) then (Inl RetryError, hid, rd_Discard (nat wholeSize) r)
               else (Inl (Err ''EOF''), hid, rd_Discard (nat wholeSize) r))
            else case rd_Peek wholeSize r of
              Inl e \<Rightarrow> (Inl e, hid, r)
            | Inr wholeMsg \<Rightarrow>
                let footerStart = sint (word_of_nat HdrSize + MsgSize header);
                    fs = nat footerStart;
                    footer = read_footer (drop fs wholeMsg);
                    r' = rd_Discard (nat wholeSize) r in
                if footerStart < 0 then (Inl OutOfRange, hid, r)
                else if ft_MsgRandomId footer \<noteq> hid then (Inl RetryError, hid, r')
                else if sha (take fs wholeMsg) \<noteq> MsgSha512Hash footer then (Inl RetryError, hid, r')
                else if fs < HdrSize then (Inl OutOfRange, hid, r)
                else
                  let body = slice wholeMsg HdrSize fs in
                  case (if zlibDecompress then unzlib body else Inr body) of
                    Inl e \<Rightarrow> (Inl e, hid, r)
                  | Inr protoMsgOnly \<Rightarrow>
                      (case unmarshal protoMsgOnly of
                         Inl e \<Rightarrow> (Inl RetryError, hid, r')
                       | Inr msg \<Rightarrow> (Inr msg, hid, r')))"

record Opts =
  op_ID :: "64 word"
  Compress :: bool

text \<open>The bytes that are written and flushed.\<close>

definition WriteTsiMessageExtended ::
  "(go_bytes \<Rightarrow> go_bytes) \<Rightarrow> (go_bytes \<Rightarrow> go_bytes) \<Rightarrow> ('m \<Rightarrow> go_bytes res) \<Rightarrow> 'm \<Rightarrow> Opts \<Rightarrow> go_bytes res"
where
  "WriteTsiMessageExtended sha zlib marshal msg os =
     (case marshal msg of
        Inl e \<Rightarrow> Inl RetryError
      | Inr pbBytes0 \<Rightarrow>
          let packed = Compress os \<and> length (zlib pbBytes0) < length pbBytes0;
              pbBytes = (if packed then zlib pbBytes0 else pbBytes0);
              header = \<lparr>MsgStart = (if packed then MsgStartZLibMagicNumber else MsgStartMagicNumber),
                        MsgRandomId = op_ID os, MsgSize = word_of_nat (length pbBytes)\<rparr>;
              buffer = header_bytes header @ pbBytes;
              footer = \<lparr>ft_MsgRandomId = op_ID os, MsgSha512Hash = sha buffer\<rparr>;
              whole = buffer @ footer_bytes footer in
          if MaxMessageSize < int (length whole) then Inl (Err ''Message is too large'')
          else Inr whole)"

text \<open>A reader that retries as \<open>RetryError\<close> asks for, at most \<open>n\<close> more times.\<close>

fun read_retry ::
  "(go_bytes \<Rightarrow> go_bytes) \<Rightarrow> (go_bytes \<Rightarrow> go_bytes res) \<Rightarrow> (go_bytes \<Rightarrow> 'm res) \<Rightarrow> nat \<Rightarrow> reader \<Rightarrow>
   'm res \<times> 64 word \<times> reader"
where
  "read_retry sha unzlib unmarshal 0 r = ReadTsiMessageExtended sha unzlib unmarshal r"
| "read_retry sha unzlib unmarshal (Suc n) r =
     (case ReadTsiMessageExtended sha unzlib unmarshal r of
        (Inl e, i, r') \<Rightarrow> if e = RetryError then read_retry sha unzlib unmarshal n r' else (Inl e, i, r')
      | (Inr m, i, r') \<Rightarrow> (Inr m, i, r'))"

section \<open>Any\<close>

record any_pb =
  TypeUrl :: string
  any_Value :: go_bytes

definition PackFrom :: "('m \<Rightarrow> string) \<Rightarrow> ('m \<Rightarrow> go_bytes res) \<Rightarrow> 'm \<Rightarrow> any_pb res" where
  "PackFrom messageName marshal msg =
     (let typeName = messageName msg in
      if typeName = '''' then Inl (Err ''Message type not known'')
      else rbind (marshal msg) (\<lambda>value.
        Inr \<lparr>TypeUrl = ''type.googleapis.com/'' @ typeName, any_Value = value\<rparr>))"

text \<open>The last element of \<^verbatim>\<open>strings.Split(typeURL, "/")\<close>.\<close>

definition after_slash :: "string \<Rightarrow> string" where
  "after_slash s = rev (takeWhile (\<lambda>c. c \<noteq> CHR ''/'') (rev s))"

text \<open>\<open>registered\<close> looks a type name up in the protobuf registry and gives its unmarshaller. The
  outer option is the nil message for a nil \<^verbatim>\<open>Any\<close>.\<close>

definition Unpack :: "(string \<Rightarrow> (go_bytes \<Rightarrow> 'm res) option) \<Rightarrow> any_pb option \<Rightarrow> 'm option res" where
  "Unpack registered p =
     (case p of
        None \<Rightarrow> Inr None
      | Some a \<Rightarrow>
          case registered (after_slash (TypeUrl a)) of
            None \<Rightarrow> Inl (Err ''Message type not known'')
          | Some unmarshal \<Rightarrow> rbind (unmarshal (any_Value a)) (\<lambda>m. Inr (Some m)))"

definition UnpackTo :: "(string \<Rightarrow> (go_bytes \<Rightarrow> 'm res) option) \<Rightarrow> string \<Rightarrow> any_pb option \<Rightarrow> 'm res" where
  "UnpackTo registered want p =
     rbind (deref p) (\<lambda>a.
       let typeName = after_slash (TypeUrl a) in
       case registered typeName of
         None \<Rightarrow> Inl (Panic ''Message type not known'')
       | Some unmarshal \<Rightarrow>
           if want \<noteq> typeName then Inl (Panic ''Message is wrong type'')
           else case unmarshal (any_Value a) of
                  Inl e \<Rightarrow> Inl (Panic ''unmarshal'')
                | Inr m \<Rightarrow> Inr m)"

section \<open>Frames\<close>

lemma header_roundtrip: "read_header (header_bytes h @ rest) = h" "length (header_bytes h) = HdrSize"
proof -
  note [simp] = u64.enc_width
  have "rd64 (header_bytes h @ rest) 0 = MsgStart h"
    using u64.rd_at [of "[]" 0] by (simp add: header_bytes_def)
  moreover have "rd64 (header_bytes h @ rest) 8 = MsgRandomId h"
    using u64.rd_at [of "be64 (MsgStart h)" 8] by (simp add: header_bytes_def)
  moreover have "rd64 (header_bytes h @ rest) 16 = MsgSize h"
    using u64.rd_at [of "be64 (MsgStart h) @ be64 (MsgRandomId h)" 16] by (simp add: header_bytes_def)
  ultimately show "read_header (header_bytes h @ rest) = h" by (simp add: read_header_def)
  show "length (header_bytes h) = HdrSize" by (simp add: header_bytes_def HdrSize_def)
qed

lemma footer_roundtrip:
  "length (MsgSha512Hash f) = 64 \<Longrightarrow> read_footer (footer_bytes f) = f"
  "length (MsgSha512Hash f) = 64 \<Longrightarrow> length (footer_bytes f) = FtrSize"
  using u64.rd_at [of "[]" 0 "ft_MsgRandomId f" "MsgSha512Hash f"]
    slice_at [of "be64 (ft_MsgRandomId f)" 8 "MsgSha512Hash f" 72 "[]"]
  by (simp_all add: read_footer_def footer_bytes_def FtrSize_def u64.enc_width)

lemma sint_small: "0 \<le> k \<and> k < 2 ^ 63 \<Longrightarrow> sint (word_of_int k :: 64 word) = k"
  by (simp add: signed_of_int signed_take_bit_int_eq_self)

lemma sint_add72:
  fixes w :: "64 word"
  assumes "0 \<le> sint w" "0 \<le> sint (w + 72)"
  shows "sint (w + 72) = sint w + 72"
proof -
  let ?k = "sint w + 72"
  have "sint w < 2 ^ 63" using sint_lt [of w] by simp
  have e: "sint (w + 72) = signed_take_bit 63 ?k"
  proof -
    have "w + 72 = word_of_int ?k" by simp
    then have "sint (w + 72) = sint (word_of_int ?k :: 64 word)" by (simp only:)
    then show ?thesis unfolding signed_of_int by simp
  qed
  show ?thesis
  proof (cases "?k < 2 ^ 63")
    case True
    with assms(1) show ?thesis by (simp add: e signed_take_bit_int_eq_self)
  next
    case False
    have "(?k + 2 ^ 63 - 2 ^ 64) mod 2 ^ 64 = ?k + 2 ^ 63 - 2 ^ 64"
      by (rule mod_pos_pos_trivial) (use False \<open>sint w < 2 ^ 63\<close> in simp_all)
    then have "take_bit 64 (?k + 2 ^ 63) = ?k + 2 ^ 63 - 2 ^ 64"
      unfolding minus_mod_self2 take_bit_eq_mod .
    then have "sint (w + 72) < 0"
      using \<open>sint w < 2 ^ 63\<close> by (simp add: e signed_take_bit_eq_take_bit_shift)
    with assms(2) show ?thesis by simp
  qed
qed

lemma whole_size:
  assumes "int n \<le> MaxMessageSize" "k \<le> 96"
  shows "sint (word_of_nat k + word_of_nat n :: 64 word) = int (k + n)"
proof -
  have "word_of_nat k + word_of_nat n = (word_of_int (int (k + n)) :: 64 word)" by simp
  moreover have "sint (word_of_int (int (k + n)) :: 64 word) = int (k + n)"
    by (rule sint_small) (use assms in \<open>simp add: MaxMessageSize_def\<close>)
  ultimately show ?thesis by (simp only:)
qed

lemma magic_distinct: "MsgStartZLibMagicNumber \<noteq> MsgStartMagicNumber"
  by (simp add: MsgStartZLibMagicNumber_def MsgStartMagicNumber_def)

text \<open>Reading a well-formed frame.\<close>

lemma read_frame:
  assumes magic: "MsgStart h = MsgStartMagicNumber \<or> MsgStart h = MsgStartZLibMagicNumber"
    and size: "MsgSize h = word_of_nat (length body)" "int (length body) + 96 \<le> MaxMessageSize"
    and hash: "length (sha (header_bytes h @ body)) = 64"
    and buf: "96 + length body \<le> bufsize r"
    and bytes: "coming r = header_bytes h @ body @
      footer_bytes \<lparr>ft_MsgRandomId = MsgRandomId h, MsgSha512Hash = sha (header_bytes h @ body)\<rparr> @ rest"
    and unpack: "(if MsgStart h = MsgStartZLibMagicNumber then unzlib body else Inr body) = Inr bs"
      "unmarshal bs = Inr msg"
  shows "ReadTsiMessageExtended sha unzlib unmarshal r = (Inr msg, MsgRandomId h, r\<lparr>coming := rest\<rparr>)"
proof -
  let ?f = "\<lparr>ft_MsgRandomId = MsgRandomId h, MsgSha512Hash = sha (header_bytes h @ body)\<rparr>"
  let ?n = "length body"
  have lf: "length (footer_bytes ?f) = 72" "read_footer (footer_bytes ?f) = ?f"
    using footer_roundtrip [of ?f] hash by (simp_all add: FtrSize_def)
  have lh: "length (header_bytes h) = 24" using header_roundtrip(2) by (simp add: HdrSize_def)
  have len: "length (coming r) = 96 + ?n + length rest" by (simp add: bytes lh lf)
  have peek1: "rd_Peek (int HdrSize) r = Inr (header_bytes h)"
    using buf len by (simp add: rd_Peek_def HdrSize_def bytes lh)
  have rh: "read_header (header_bytes h) = h" using header_roundtrip(1) [of h "[]"] by simp
  have ws: "sint (word_of_nat (HdrSize + FtrSize) + MsgSize h) = int (96 + ?n)"
    "sint (word_of_nat HdrSize + MsgSize h) = int (24 + ?n)"
    using whole_size [of ?n 96] whole_size [of ?n 24] size by (simp_all add: HdrSize_def FtrSize_def)
  define whole where "whole = header_bytes h @ body @ footer_bytes ?f"
  have peek2: "rd_Peek (int (96 + ?n)) r = Inr whole"
    using buf len size(2) by (simp add: rd_Peek_def bytes lh lf nat_add_distrib whole_def)
  have parts: "drop (24 + ?n) whole = footer_bytes ?f" "take (24 + ?n) whole = header_bytes h @ body"
    "slice whole 24 (24 + ?n) = body"
    using slice_at [of "header_bytes h" 24 body "24 + ?n" "footer_bytes ?f"] by (simp_all add: lh whole_def)
  have nmax: "\<not> MaxMessageSize < int (96 + ?n)" using size(2) by simp
  have disc: "rd_Discard (96 + ?n) r = r\<lparr>coming := rest\<rparr>"
    by (simp add: rd_Discard_def bytes lh lf)
  show ?thesis
    unfolding ReadTsiMessageExtended_def peek1 sum.case rh Let_def ws nat_int peek2 parts lf(2) disc
    using magic nmax unpack by (auto simp: HdrSize_def parts)
qed

lemma Write_frame:
  assumes "marshal msg = Inr bs" "96 + int (length bs) \<le> MaxMessageSize" "\<And>x. length (sha x) = 64"
  shows "\<exists>h body. WriteTsiMessageExtended sha zlib marshal msg os = Inr (header_bytes h @ body @
      footer_bytes \<lparr>ft_MsgRandomId = MsgRandomId h, MsgSha512Hash = sha (header_bytes h @ body)\<rparr>) \<and>
    MsgRandomId h = op_ID os \<and> MsgSize h = word_of_nat (length body) \<and>
    int (length body) + 96 \<le> MaxMessageSize \<and>
    (MsgStart h = MsgStartMagicNumber \<and> body = bs \<or> MsgStart h = MsgStartZLibMagicNumber \<and> body = zlib bs)"
proof -
  let ?packed = "Compress os \<and> length (zlib bs) < length bs"
  let ?body = "if ?packed then zlib bs else bs"
  let ?h = "\<lparr>MsgStart = (if ?packed then MsgStartZLibMagicNumber else MsgStartMagicNumber),
    MsgRandomId = op_ID os, MsgSize = word_of_nat (length ?body)\<rparr>"
  have lf: "length (footer_bytes \<lparr>ft_MsgRandomId = op_ID os, MsgSha512Hash = sha x\<rparr>) = 72" for x
    using footer_roundtrip(2) assms(3) by (simp add: FtrSize_def)
  have len: "int (length ?body) + 96 \<le> MaxMessageSize" using assms(2) by auto
  with lf have "WriteTsiMessageExtended sha zlib marshal msg os = Inr (header_bytes ?h @ ?body @
      footer_bytes \<lparr>ft_MsgRandomId = op_ID os, MsgSha512Hash = sha (header_bytes ?h @ ?body)\<rparr>)"
    using assms(1) header_roundtrip(2) [of ?h]
    by (simp add: WriteTsiMessageExtended_def Let_def HdrSize_def)
  with len show ?thesis by (intro exI [of _ ?h] exI [of _ ?body]) auto
qed

lemma rd64_prefix: "8 \<le> n \<Longrightarrow> rd64 (take n xs) 0 = rd64 xs 0"
  by (simp add: rd64_def rd32_def)

text \<open>A sample frame, read with a constant in place of the hash.\<close>

definition demo_header :: TsiMessageHeader where
  "demo_header = \<lparr>MsgStart = MsgStartMagicNumber, MsgRandomId = 5, MsgSize = 1\<rparr>"

definition demo_whole :: go_bytes where
  "demo_whole = header_bytes demo_header @ [1] @
     footer_bytes \<lparr>ft_MsgRandomId = 5, MsgSha512Hash = replicate 64 7\<rparr>"

lemma demo_read:
  "ReadTsiMessageExtended (\<lambda>_. replicate 64 7) Inr Inr \<lparr>coming = demo_whole @ rest, bufsize = 33554432\<rparr>
     = (Inr [1], 5, \<lparr>coming = rest, bufsize = 33554432\<rparr>)"
  using read_frame [of demo_header "[1]" "\<lambda>_. replicate 64 7" "\<lparr>coming = demo_whole @ rest, bufsize = 33554432\<rparr>"
      rest Inr "[1]" Inr "[1]"] magic_distinct
  by (simp add: demo_header_def demo_whole_def MaxMessageSize_def)

lemma length_demo_whole: "length demo_whole = 97"
  using header_roundtrip(2) [of demo_header]
    footer_roundtrip(2) [of "\<lparr>ft_MsgRandomId = 5, MsgSha512Hash = replicate 64 7\<rparr>"]
  by (simp add: demo_whole_def HdrSize_def FtrSize_def)


section \<open>Properties\<close>

text \<open>Whatever was written is read back.\<close>

lemma written_frame:
  assumes "WriteTsiMessageExtended sha zlib marshal msg os = Inr whole" "\<And>x. length (sha x) = 64"
  shows "\<exists>h body bs. marshal msg = Inr bs \<and> whole = header_bytes h @ body @
      footer_bytes \<lparr>ft_MsgRandomId = MsgRandomId h, MsgSha512Hash = sha (header_bytes h @ body)\<rparr> \<and>
    MsgRandomId h = op_ID os \<and> MsgSize h = word_of_nat (length body) \<and>
    int (length body) + 96 \<le> MaxMessageSize \<and>
    (MsgStart h = MsgStartMagicNumber \<and> body = bs \<or> MsgStart h = MsgStartZLibMagicNumber \<and> body = zlib bs)"
proof -
  obtain bs where bs: "marshal msg = Inr bs"
    using assms(1) by (cases "marshal msg") (auto simp: WriteTsiMessageExtended_def)
  define packed where "packed = (Compress os \<and> length (zlib bs) < length bs)"
  define body where "body = (if packed then zlib bs else bs)"
  define h where "h = \<lparr>MsgStart = (if packed then MsgStartZLibMagicNumber else MsgStartMagicNumber),
    MsgRandomId = op_ID os, MsgSize = word_of_nat (length body)\<rparr>"
  define f where "f = footer_bytes \<lparr>ft_MsgRandomId = op_ID os, MsgSha512Hash = sha (header_bytes h @ body)\<rparr>"
  have "whole = header_bytes h @ body @ f \<and> int (length (header_bytes h @ body @ f)) \<le> MaxMessageSize"
    using assms(1) unfolding WriteTsiMessageExtended_def bs sum.case Let_def packed_def[symmetric] body_def[symmetric]
      h_def[symmetric] f_def[symmetric]
    by (auto simp: not_less split: if_splits)
  moreover have "length f = 72" "length (header_bytes h) = 24"
    using footer_roundtrip(2) header_roundtrip(2) assms(2) by (simp_all add: f_def FtrSize_def HdrSize_def)
  moreover have "MsgRandomId h = op_ID os" "MsgSize h = word_of_nat (length body)"
    "MsgStart h = MsgStartMagicNumber \<and> body = bs \<or> MsgStart h = MsgStartZLibMagicNumber \<and> body = zlib bs"
    by (simp_all add: h_def body_def)
  ultimately show ?thesis
    using bs by (intro exI[of _ h] exI[of _ body] exI[of _ bs]) (simp add: f_def)
qed

lemma written_size: "WriteTsiMessageExtended sha zlib marshal msg os = Inr whole \<Longrightarrow> int (length whole) \<le> MaxMessageSize"
  by (auto simp: WriteTsiMessageExtended_def Let_def not_less split: sum.splits if_splits)

lemma written_is_read:
  assumes "WriteTsiMessageExtended sha zlib marshal msg os = Inr whole" "length whole \<le> bsz"
    and "\<And>x. length (sha x) = 64" "\<And>x. unzlib (zlib x) = Inr x" "\<And>x y. marshal x = Inr y \<Longrightarrow> unmarshal y = Inr x"
  shows "ReadTsiMessageExtended sha unzlib unmarshal \<lparr>coming = whole @ rest, bufsize = bsz\<rparr> =
      (Inr msg, op_ID os, \<lparr>coming = rest, bufsize = bsz\<rparr>)"
proof -
  obtain h body bs where h: "marshal msg = Inr bs" "whole = header_bytes h @ body @
      footer_bytes \<lparr>ft_MsgRandomId = MsgRandomId h, MsgSha512Hash = sha (header_bytes h @ body)\<rparr>"
    "MsgRandomId h = op_ID os" "MsgSize h = word_of_nat (length body)" "int (length body) + 96 \<le> MaxMessageSize"
    "MsgStart h = MsgStartMagicNumber \<and> body = bs \<or> MsgStart h = MsgStartZLibMagicNumber \<and> body = zlib bs"
    using written_frame[where sha = sha and zlib = zlib and marshal = marshal and msg = msg and os = os, OF assms(1,3)]
    by metis
  have up: "(if MsgStart h = MsgStartZLibMagicNumber then unzlib body else Inr body) = Inr bs"
    using h(6) assms(4) magic_distinct by auto
  have mg: "MsgStart h = MsgStartMagicNumber \<or> MsgStart h = MsgStartZLibMagicNumber" using h(6) by auto
  have "96 + length body \<le> bsz"
    using assms(2) footer_roundtrip(2) header_roundtrip(2) assms(3) by (simp add: h(2) FtrSize_def HdrSize_def)
  with read_frame [where r = "\<lparr>coming = _, bufsize = bsz\<rparr>" and rest = rest and sha = sha
      and unzlib = unzlib and unmarshal = unmarshal, OF mg h(4,5) assms(3) _ _ up assms(5) [OF h(1)]]
  show ?thesis by (auto simp: h(2,3))
qed

text \<open>C32. A message of up to the maximum size is written as one frame, and reading the stream returns
  the message and its id and leaves exactly what follows the frame, with and without compression.
  SHA-512 yields 64 bytes, zlib and protobuf are inverted by their counterparts.\<close>

theorem frame_roundtrip:
  assumes "marshal msg = Inr bs" "96 + int (length bs) \<le> MaxMessageSize" "MaxMessageSize \<le> int bsz"
    and sha512_length: "\<And>x. length (sha x) = 64"
    and zlib_inverse: "\<And>x. unzlib (zlib x) = Inr x"
    and proto_inverse: "\<And>x y. marshal x = Inr y \<Longrightarrow> unmarshal y = Inr x"
  shows "\<exists>whole. WriteTsiMessageExtended sha zlib marshal msg os = Inr whole \<and>
    ReadTsiMessageExtended sha unzlib unmarshal \<lparr>coming = whole @ rest, bufsize = bsz\<rparr> =
      (Inr msg, op_ID os, \<lparr>coming = rest, bufsize = bsz\<rparr>)"
proof -
  obtain whole where wh: "WriteTsiMessageExtended sha zlib marshal msg os = Inr whole"
    using Write_frame [where marshal = marshal and msg = msg and bs = bs and sha = sha and os = os and zlib = zlib]
      assms(1,2) sha512_length by metis
  have "length whole \<le> bsz" using written_size[OF wh] assms(3) by linarith
  with wh show ?thesis
    using written_is_read[where sha = sha and zlib = zlib and marshal = marshal and msg = msg and os = os
        and unzlib = unzlib and unmarshal = unmarshal and whole = whole and bsz = bsz and rest = rest]
      assms(4-) by blast
qed

theorem frame_roundtrip_witness:
  "\<exists>whole. WriteTsiMessageExtended (\<lambda>_. replicate 64 7) (\<lambda>bs. bs) Inr [1, 2, 3]
        \<lparr>op_ID = 5, Compress = True\<rparr> = Inr whole \<and>
     ReadTsiMessageExtended (\<lambda>_. replicate 64 7) Inr Inr \<lparr>coming = whole @ [9], bufsize = 33554432\<rparr> =
       (Inr [1, 2, 3], 5, \<lparr>coming = [9], bufsize = 33554432\<rparr>)"
  using frame_roundtrip [of Inr "[1, 2, 3]" "[1, 2, 3]" 33554432 "\<lambda>_. replicate 64 7" Inr "\<lambda>bs. bs" Inr
      "\<lparr>op_ID = 5, Compress = True\<rparr>" "[9]"]
  by (simp add: MaxMessageSize_def)

lemma read_intact:
  assumes "ReadTsiMessageExtended sha unzlib unmarshal r = (Inr msg, i, r')"
  shows "\<exists>fs. HdrSize \<le> fs \<and> fs + FtrSize \<le> length (coming r) \<and>
    int fs = sint (word_of_nat HdrSize + MsgSize (read_header (take HdrSize (coming r)))) \<and>
    rd64 (coming r) 0 \<in> {MsgStartMagicNumber, MsgStartZLibMagicNumber} \<and>
    i = MsgRandomId (read_header (take HdrSize (coming r))) \<and>
    ft_MsgRandomId (read_footer (take FtrSize (drop fs (coming r)))) = i \<and>
    MsgSha512Hash (read_footer (take FtrSize (drop fs (coming r)))) = sha (take fs (coming r)) \<and>
    coming r' = drop (fs + FtrSize) (coming r)"
proof -
  let ?hb = "take HdrSize (coming r)" and ?M = "MsgSize (read_header (take HdrSize (coming r)))"
  let ?fs = "sint (word_of_nat HdrSize + ?M)" and ?ws = "sint (word_of_nat (HdrSize + FtrSize) + ?M)"
  have hb: "rd_Peek (int HdrSize) r = Inr ?hb"
  proof (cases "rd_Peek (int HdrSize) r")
    case (Inl e)
    with assms show ?thesis by (simp add: ReadTsiMessageExtended_def)
  qed (auto simp: rd_Peek_def split: if_splits)
  obtain w where w: "rd_Peek ?ws r = Inr w" "0 \<le> ?fs" "HdrSize \<le> nat ?fs"
    "MsgStart (read_header ?hb) \<in> {MsgStartMagicNumber, MsgStartZLibMagicNumber}"
    "i = MsgRandomId (read_header ?hb)" "r' = rd_Discard (nat ?ws) r"
    "ft_MsgRandomId (read_footer (drop (nat ?fs) w)) = i"
    "sha (take (nat ?fs) w) = MsgSha512Hash (read_footer (drop (nat ?fs) w))"
    using assms hb by (auto simp: ReadTsiMessageExtended_def Let_def not_less split: if_splits sum.splits)
  have pk: "0 \<le> ?ws" "nat ?ws \<le> length (coming r)" "w = take (nat ?ws) (coming r)"
    using w(1) by (auto simp: rd_Peek_def split: if_splits)
  have "word_of_nat (HdrSize + FtrSize) + ?M = (word_of_nat HdrSize + ?M) + 72"
    by (simp add: HdrSize_def FtrSize_def)
  then have "?ws = sint ((word_of_nat HdrSize + ?M) + 72)" by (simp only:)
  with sint_add72 [OF w(2)] pk(1) have "?ws = ?fs + 72" by (simp only:)
  then have n: "nat ?ws = nat ?fs + FtrSize" using w(2) by (simp add: nat_add_distrib FtrSize_def)
  have "MsgStart (read_header ?hb) = rd64 (coming r) 0"
    using rd64_prefix [of HdrSize "coming r"] by (simp add: read_header_def HdrSize_def)
  moreover have "drop (nat ?fs) w = take FtrSize (drop (nat ?fs) (coming r))"
    "take (nat ?fs) w = take (nat ?fs) (coming r)"
    unfolding pk(3) n by (simp_all add: drop_take)
  ultimately show ?thesis
    using w(2-5,7,8) w(6) [unfolded n] pk(2) [unfolded n]
    by (intro exI [of _ "nat ?fs"]) (auto simp: rd_Discard_def)
qed

lemma read_consumes:
  "ReadTsiMessageExtended sha unzlib unmarshal r = (Inr msg, i, r') \<Longrightarrow> length (coming r') < length (coming r)"
  by (drule read_intact) (auto simp: FtrSize_def)

text \<open>C35. A message is accepted only from an intact frame: a known magic number, the same id in header
  and footer and the SHA-512 of header and body in the footer; exactly this frame is consumed.\<close>

theorem read_checks_frame:
  assumes "ReadTsiMessageExtended sha unzlib unmarshal r = (Inr msg, i, r')"
  shows "\<exists>fs. HdrSize \<le> fs \<and> fs + FtrSize \<le> length (coming r) \<and>
    int fs = sint (word_of_nat HdrSize + MsgSize (read_header (take HdrSize (coming r)))) \<and>
    rd64 (coming r) 0 \<in> {MsgStartMagicNumber, MsgStartZLibMagicNumber} \<and>
    i = MsgRandomId (read_header (take HdrSize (coming r))) \<and>
    ft_MsgRandomId (read_footer (take FtrSize (drop fs (coming r)))) = i \<and>
    MsgSha512Hash (read_footer (take FtrSize (drop fs (coming r)))) = sha (take fs (coming r)) \<and>
    coming r' = drop (fs + FtrSize) (coming r)"
  by (rule read_intact [OF assms])

theorem read_checks_frame_witness:
  "\<exists>fs. fs + FtrSize \<le> length demo_whole \<and> [] = drop (fs + FtrSize) demo_whole"
  using read_checks_frame [OF demo_read [of "[]"]] by auto

text \<open>A size field between \<open>2^64 - 96\<close> and \<open>2^64 - 25\<close> passes the size check, since the sum with the
  header and footer sizes wraps around, and the negative footer position then makes the reader panic.\<close>

theorem frame_size_panic:
  assumes "HdrSize \<le> length (coming r)" "HdrSize \<le> bufsize r" "96 - k \<le> length (coming r)" "96 - k \<le> bufsize r"
    and "read_header (take HdrSize (coming r)) = h" "MsgStart h = MsgStartMagicNumber"
    and "MsgSize h = - word_of_nat k" "24 < k" "k \<le> 96"
  shows "ReadTsiMessageExtended sha unzlib unmarshal r = (Inl OutOfRange, MsgRandomId h, r)"
proof -
  have w: "word_of_nat n + MsgSize h = word_of_int (int n - int k)" for n
    using assms(7) by simp
  have "sint (word_of_int (96 - int k) :: 64 word) = 96 - int k"
    by (rule sint_small) (use assms(8,9) in simp)
  then have ws: "sint (word_of_nat (HdrSize + FtrSize) + MsgSize h) = int (96 - k)"
    unfolding w using assms(9) by (simp add: HdrSize_def FtrSize_def)
  have "sint (word_of_int (24 - int k) :: 64 word) = 24 - int k"
    using assms(8,9) by (simp only: signed_of_int) (simp add: signed_take_bit_int_eq_self)
  then have fs: "sint (word_of_nat HdrSize + MsgSize h) < 0"
    unfolding w using assms(8) by (simp add: HdrSize_def)
  have p1: "rd_Peek (int HdrSize) r = Inr (take HdrSize (coming r))"
    using assms(1,2) by (simp add: rd_Peek_def)
  have p2: "rd_Peek (int (96 - k)) r = Inr (take (96 - k) (coming r))"
    unfolding rd_Peek_def nat_int using assms(3,4) by simp
  have "\<not> MaxMessageSize < int (96 - k)" using assms(9) by (simp add: MaxMessageSize_def)
  then show ?thesis
    unfolding ReadTsiMessageExtended_def p1 sum.case assms(5) Let_def ws p2
    using assms(6) fs by simp
qed

theorem frame_size_panic_witness:
  "ReadTsiMessageExtended (\<lambda>_. []) Inr Inr \<lparr>coming = header_bytes
     \<lparr>MsgStart = MsgStartMagicNumber, MsgRandomId = 5, MsgSize = - 96\<rparr>, bufsize = 4096\<rparr> =
   (Inl OutOfRange, 5, \<lparr>coming = header_bytes
     \<lparr>MsgStart = MsgStartMagicNumber, MsgRandomId = 5, MsgSize = - 96\<rparr>, bufsize = 4096\<rparr>)"
proof -
  let ?h = "\<lparr>MsgStart = MsgStartMagicNumber, MsgRandomId = 5, MsgSize = - 96\<rparr>"
  have "length (header_bytes ?h) = 24" "read_header (take HdrSize (header_bytes ?h)) = ?h"
    using header_roundtrip(1) [of ?h "[]"] header_roundtrip(2) [of ?h] by (simp_all add: HdrSize_def)
  with frame_size_panic [of "\<lparr>coming = header_bytes ?h, bufsize = 4096\<rparr>" 96 ?h "\<lambda>_. []" Inr Inr]
  show ?thesis by (simp add: HdrSize_def)
qed

text \<open>Garbage in front of a frame is skipped: if no magic number begins in it, retrying once per
  byte of garbage reaches the frame and reads its message.\<close>

theorem read_resynchronises:
  assumes "ReadTsiMessageExtended sha unzlib unmarshal \<lparr>coming = whole @ rest, bufsize = bsz\<rparr> = (Inr msg, i, r')"
    and "HdrSize \<le> length whole" "HdrSize \<le> bsz"
    and "\<forall>k<length g. rd64 (drop k (g @ whole)) 0 \<notin> {MsgStartMagicNumber, MsgStartZLibMagicNumber}"
  shows "read_retry sha unzlib unmarshal (length g) \<lparr>coming = g @ whole @ rest, bufsize = bsz\<rparr> = (Inr msg, i, r')"
  using assms(4)
proof (induction g)
  case (Cons b g)
  let ?r = "\<lparr>coming = b # g @ whole @ rest, bufsize = bsz\<rparr>"
  let ?h = "read_header (take HdrSize (coming ?r))"
  have p1: "rd_Peek (int HdrSize) ?r = Inr (take HdrSize (coming ?r))"
    using assms(2,3) by (simp add: rd_Peek_def)
  have "MsgStart ?h = rd64 (coming ?r) 0"
    using rd64_prefix [of HdrSize "coming ?r"] by (simp add: read_header_def HdrSize_def)
  also have "\<dots> = rd64 (take 8 (coming ?r)) 0" by (rule rd64_prefix [symmetric]) simp
  also have "take 8 (coming ?r) = take 8 (b # g @ whole)" using assms(2) by (simp add: HdrSize_def take_Cons')
  also have "rd64 (take 8 (b # g @ whole)) 0 = rd64 (b # g @ whole) 0" by (rule rd64_prefix) simp
  finally have "MsgStart ?h \<notin> {MsgStartMagicNumber, MsgStartZLibMagicNumber}"
    using Cons.prems by force
  then have "ReadTsiMessageExtended sha unzlib unmarshal ?r =
      (Inl RetryError, MsgRandomId ?h, \<lparr>coming = g @ whole @ rest, bufsize = bsz\<rparr>)"
    unfolding ReadTsiMessageExtended_def p1 by (simp add: rd_Discard_def)
  moreover have "read_retry sha unzlib unmarshal (length g) \<lparr>coming = g @ whole @ rest, bufsize = bsz\<rparr> = (Inr msg, i, r')"
    by (rule Cons.IH) (use Cons.prems in force)
  ultimately show ?case by simp
qed (use assms(1) in simp)

theorem read_resynchronises_witness:
  "read_retry (\<lambda>_. replicate 64 7) Inr Inr 1 \<lparr>coming = [0] @ demo_whole @ [9], bufsize = 33554432\<rparr> =
     (Inr [1], 5, \<lparr>coming = [9], bufsize = 33554432\<rparr>)"
proof -
  have "rd64 (0 # demo_whole) 0 \<notin> {MsgStartMagicNumber, MsgStartZLibMagicNumber}" by code_simp
  with read_resynchronises [OF demo_read [of "[9]"], of "[0]"] length_demo_whole show ?thesis
    by (simp add: HdrSize_def)
qed

text \<open>C36. Whenever a read asks its caller to retry, it has consumed input, so that retrying cannot spin
  on the same bytes (the error of a broken zlib stream is not the retry error).\<close>

theorem retry_progress:
  assumes "ReadTsiMessageExtended sha unzlib unmarshal r = (Inl RetryError, i, r')"
    and unzlib_error: "\<And>bs. unzlib bs \<noteq> Inl RetryError"
  shows "length (coming r') < length (coming r) \<and> bufsize r' = bufsize r"
proof -
  obtain hb where hb: "rd_Peek (int HdrSize) r = Inr hb" "HdrSize \<le> length (coming r)"
  proof (cases "rd_Peek (int HdrSize) r")
    case (Inl e)
    then have "e \<noteq> RetryError" by (auto simp: rd_Peek_def RetryError_def split: if_splits)
    with Inl assms(1) show ?thesis by (simp add: ReadTsiMessageExtended_def)
  qed (auto simp: rd_Peek_def split: if_splits)
  let ?ws = "sint (word_of_nat (HdrSize + FtrSize) + MsgSize (read_header hb))"
  have adv: "length (coming (rd_Discard n r)) < length (coming r) \<and> bufsize (rd_Discard n r) = bufsize r"
    if "0 < n" for n
    using that hb(2) by (simp add: rd_Discard_def HdrSize_def)
  have pk: "rd_Peek ?ws r \<noteq> Inl RetryError" by (auto simp: rd_Peek_def RetryError_def)
  have ors: "OutOfRange \<noteq> RetryError" "Err ''EOF'' \<noteq> RetryError" by (simp_all add: RetryError_def)
  have pos: "0 < nat ?ws"
    if "rd_Peek ?ws r = Inr w" "0 \<le> sint (word_of_nat HdrSize + MsgSize (read_header hb))" for w
  proof -
    let ?M = "MsgSize (read_header hb)"
    have "0 \<le> ?ws" using that(1) by (auto simp: rd_Peek_def split: if_splits)
    moreover have "?ws \<noteq> 0"
    proof
      assume "?ws = 0"
      then have "word_of_int (sint (96 + ?M)) = (0 :: 64 word)" by (simp add: HdrSize_def FtrSize_def)
      then have "96 + ?M = 0" by simp
      then have "?M = - 96" by (simp add: add_eq_0_iff)
      then have "sint (word_of_nat HdrSize + ?M) = - 72" by (simp add: HdrSize_def)
      with that(2) show False by simp
    qed
    ultimately show ?thesis by simp
  qed
  show ?thesis
    using assms(1) hb(1) pk ors pos adv [of 1] adv [of "nat ?ws"] unzlib_error
    by (auto simp: ReadTsiMessageExtended_def Let_def MaxMessageSize_def split: if_splits sum.splits)
qed

theorem retry_progress_witness:
  "\<exists>i r'. ReadTsiMessageExtended (\<lambda>_. []) Inr Inr \<lparr>coming = replicate 24 0, bufsize = 100\<rparr> =
     (Inl RetryError :: go_bytes res, i, r') \<and> length (coming r') < 24"
proof -
  have "rd64 (take 24 (replicate 24 0)) 0 \<notin> {MsgStartMagicNumber, MsgStartZLibMagicNumber}" by code_simp
  then obtain i r' where "ReadTsiMessageExtended (\<lambda>_. []) Inr Inr \<lparr>coming = replicate 24 0, bufsize = 100\<rparr> =
     (Inl RetryError :: go_bytes res, i, r')"
    by (simp add: ReadTsiMessageExtended_def rd_Peek_def HdrSize_def read_header_def)
  with retry_progress [of "\<lambda>_. []" Inr Inr "\<lparr>coming = replicate 24 0, bufsize = 100\<rparr>" i r'] show ?thesis by auto
qed

lemma after_slash_name:
  assumes "CHR ''/'' \<notin> set name"
  shows "after_slash (''type.googleapis.com/'' @ name) = name"
proof -
  have "takeWhile (\<lambda>c. c \<noteq> CHR ''/'') (rev name) = rev name"
    using assms by (auto simp: takeWhile_eq_all_conv)
  then show ?thesis by (simp add: after_slash_def takeWhile_append)
qed

text \<open>Unpacking a packed message gives it back, if its type is registered under a name without a
  slash with an unmarshaller that inverts the marshaller.\<close>

theorem any_roundtrip:
  assumes "messageName msg = name" "name \<noteq> ''''" "CHR ''/'' \<notin> set name" "marshal msg = Inr bs"
    and "registered name = Some unmarshal" "unmarshal bs = Inr msg"
  shows "\<exists>a. PackFrom messageName marshal msg = Inr a \<and> Unpack registered (Some a) = Inr (Some msg) \<and>
    UnpackTo registered name (Some a) = Inr msg"
  using assms after_slash_name[OF assms(3)] by (simp add: PackFrom_def Unpack_def UnpackTo_def Let_def)

theorem any_roundtrip_witness:
  "\<exists>a. PackFrom (\<lambda>_. ''prisma.tms.Track'') Inr [1] = Inr a \<and>
     Unpack (\<lambda>_. Some Inr) (Some a) = Inr (Some [1])"
  using any_roundtrip [of "\<lambda>_. ''prisma.tms.Track''" "[1]" "''prisma.tms.Track''" Inr "[1]" "\<lambda>_. Some Inr" Inr]
  by auto

end
