(* ===== verification/Tgwad_Router.thy ===== *)
theory Tgwad_Router
  imports Tmsg_Frame
begin

text \<open>
  \<^verbatim>\<open>tms/tmsg/matcher.go\<close> and \<^verbatim>\<open>tms/cmd/daemons/tgwad/{router,listener}.go\<close>: the message router. A channel
  is named by a number (its identity as a Go pointer); its send queue is the list of the messages in
  it and its capacity. The order in which \<^verbatim>\<open>range r.channels\<close> visits the channels is the argument \<open>ord\<close>.
  Protobuf packing of reports, service infos and site states is a parameter.

  The processor goroutine and the goroutines that fill its inbox are the step relation \<open>rstep\<close>;
  a send on the bounded inbox waits for room.
\<close>

section \<open>Messages and listeners\<close>

record EndPoint =
  Site :: "32 word"
  Aid :: "32 word"
  Eid :: "32 word"
  Pid :: "32 word"

definition TMSG_LOCAL_SITE :: "32 word" where
  "TMSG_LOCAL_SITE = 1"

datatype tsi_status = TsiMessage_ACK | TsiMessage_KEEPALIVE | OtherTsiStatus nat

record TsiMessage =
  tm_Source :: "EndPoint option"
  tm_Destination :: "EndPoint option list"
  tm_Status :: tsi_status
  RealTime :: bool
  NotifySent :: "32 word"
  tm_Body :: "any_pb option"

record Listener =
  ls_Source :: "EndPoint option"
  ls_Destination :: "EndPoint option"
  ls_MessageType :: string

record Registry =
  SourceService :: "EndPoint option"
  Entries :: "Listener option list"

definition MatchesEP :: "EndPoint option \<Rightarrow> EndPoint option \<Rightarrow> 32 word \<Rightarrow> bool" where
  "MatchesEP l tgt lclSite =
     (case l of
        None \<Rightarrow> True
      | Some l \<Rightarrow>
          case tgt of
            None \<Rightarrow> False
          | Some tgt \<Rightarrow>
              if Site l \<noteq> 0 \<and> Site l \<noteq> Site tgt \<and> \<not> (Site l = TMSG_LOCAL_SITE \<and> Site tgt = lclSite) then False
              else if Aid l \<noteq> 0 \<and> Aid l \<noteq> Aid tgt then False
              else if Eid l \<noteq> 0 \<and> Eid l \<noteq> Eid tgt then False
              else if Pid l \<noteq> 0 \<and> Pid l \<noteq> Pid tgt then False
              else True)"

definition TrimPrefix :: "string \<Rightarrow> string \<Rightarrow> string" where
  "TrimPrefix s p = (if take (length p) s = p then drop (length p) s else s)"

definition MessageType :: "TsiMessage \<Rightarrow> string" where
  "MessageType msg =
     (case tm_Body msg of None \<Rightarrow> '''' | Some b \<Rightarrow> TrimPrefix (TypeUrl b) ''type.googleapis.com/'')"

definition Matches :: "Listener \<Rightarrow> TsiMessage \<Rightarrow> 32 word \<Rightarrow> bool" where
  "Matches l msg lclSite =
     (if \<not> MatchesEP (ls_Source l) (tm_Source msg) lclSite then False
      else if \<not> foldl (\<lambda>found dest. found \<or> MatchesEP (ls_Destination l) dest lclSite)
                 (ls_Destination l = None) (tm_Destination msg) then False
      else if ls_MessageType l \<noteq> '''' \<and> ls_MessageType l \<noteq> MessageType msg then False
      else True)"

section \<open>Channels\<close>

record SiteInfo =
  si_Id :: "32 word"
  si_Name :: string

text \<open>The two implementations of the interface \<^verbatim>\<open>Channel\<close>, with the state the router reads.\<close>

datatype channel = IOChannel Registry | RemoteSite SiteInfo

record chan =
  kind :: channel
  queue :: "TsiMessage list"
  cap :: nat

text \<open>\<^verbatim>\<open>IOChannel.ListeningFor\<close>: the trace output for an entry that does not match dereferences it.\<close>

fun io_listening :: "32 word \<Rightarrow> Listener option list \<Rightarrow> TsiMessage \<Rightarrow> bool res" where
  "io_listening lcl [] msg = Inr False"
| "io_listening lcl (None # ls) msg = Inl NilDeref"
| "io_listening lcl (Some l # ls) msg =
     (if Matches l msg lcl then Inr True else io_listening lcl ls msg)"

definition remote_listening :: "SiteInfo \<Rightarrow> TsiMessage option \<Rightarrow> bool" where
  "remote_listening si p =
     (case p of
        None \<Rightarrow> False
      | Some msg \<Rightarrow> list_ex (\<lambda>ep. case ep of None \<Rightarrow> False | Some e \<Rightarrow> Site e = si_Id si) (tm_Destination msg))"

definition ListeningFor :: "32 word \<Rightarrow> channel \<Rightarrow> TsiMessage \<Rightarrow> bool res" where
  "ListeningFor lcl c msg =
     (case c of
        IOChannel reg \<Rightarrow> io_listening lcl (Entries reg) msg
      | RemoteSite si \<Rightarrow> Inr (remote_listening si (Some msg)))"

fun channel_SiteInfo :: "channel \<Rightarrow> SiteInfo option" where
  "channel_SiteInfo (IOChannel reg) = None"
| "channel_SiteInfo (RemoteSite si) = Some si"

fun channel_EndPoint :: "channel \<Rightarrow> EndPoint option" where
  "channel_EndPoint (IOChannel reg) = SourceService reg"
| "channel_EndPoint (RemoteSite si) = None"

text \<open>\<^verbatim>\<open>IOChannel.handleMessage\<close>: the new registry and whether the message goes to the router.\<close>

definition handleMessage ::
  "(any_pb \<Rightarrow> Registry res) \<Rightarrow> Registry \<Rightarrow> TsiMessage \<Rightarrow> (Registry \<times> TsiMessage option) res"
where
  "handleMessage unpack_registry reg msg =
     (if tm_Status msg = TsiMessage_ACK then Inr (reg, None)
      else if tm_Status msg = TsiMessage_KEEPALIVE then Inr (reg, None)
      else
        case tm_Body msg of
          Some body \<Rightarrow>
            if TrimPrefix (TypeUrl body) ''type.googleapis.com/'' = ''prisma.tms.routing.Registry''
            then rbind (unpack_registry body) (\<lambda>reg'. Inr (reg', None))
            else Inr (reg, Some msg)
        | None \<Rightarrow> Inr (reg, Some msg))"

section \<open>The router\<close>

definition HistorySize :: nat where "HistorySize = 50"

definition inbox_cap :: nat where "inbox_cap = 32"

datatype report_status = DeliveryReport_SENT | DeliveryReport_FAILED

record Router =
  channels :: "nat \<rightharpoonup> chan"
  inbox :: "TsiMessage list"
  isFullFill :: "nat \<rightharpoonup> bool"
  Local :: SiteInfo
  history :: "TsiMessage list"
  totalMessages :: "64 word"
  messagesSinceLastReport :: "64 word"

definition NewRouter :: "32 word \<Rightarrow> string \<Rightarrow> Router" where
  "NewRouter localSite localName =
     \<lparr>channels = Map.empty, inbox = [], isFullFill = Map.empty, Local = \<lparr>si_Id = localSite, si_Name = localName\<rparr>,
      history = [], totalMessages = 0, messagesSinceLastReport = 0\<rparr>"

function trim_history :: "TsiMessage list \<Rightarrow> TsiMessage list" where
  "trim_history h = (if length h > HistorySize then trim_history (tl h) else h)"
  by pat_completeness auto
termination
  by (relation "measure length") (auto simp: HistorySize_def)

declare trim_history.simps [simp del]

text \<open>The body of the loop over the channels, with the counters \<^verbatim>\<open>dests\<close> and \<^verbatim>\<open>queues\<close>.\<close>

fun offer :: "nat list \<Rightarrow> TsiMessage \<Rightarrow> Router \<Rightarrow> nat \<Rightarrow> nat \<Rightarrow> (Router \<times> nat \<times> nat) res" where
  "offer [] msg r dests queues = Inr (r, dests, queues)"
| "offer (k # ks) msg r dests queues =
     (case channels r k of
        None \<Rightarrow> offer ks msg r dests queues
      | Some c \<Rightarrow>
          rbind (ListeningFor (si_Id (Local r)) (kind c) msg) (\<lambda>listening.
            if \<not> listening then offer ks msg r dests queues
            else if length (queue c) < cap c then
              offer ks msg
                (r\<lparr>channels := (channels r)(k \<mapsto> c\<lparr>queue := queue c @ [msg]\<rparr>),
                   isFullFill := (isFullFill r)(k \<mapsto> False)\<rparr>) (dests + 1) (queues + 1)
            else offer ks msg (r\<lparr>isFullFill := (isFullFill r)(k \<mapsto> True)\<rparr>) (dests + 1) queues))"

text \<open>The report \<^verbatim>\<open>NotifyMessage\<close> puts into the inbox, if it sends one.\<close>

definition NotifyMessage ::
  "(32 word \<times> report_status \<Rightarrow> any_pb res) \<Rightarrow> Router \<Rightarrow> TsiMessage \<Rightarrow> report_status \<Rightarrow> TsiMessage option res"
where
  "NotifyMessage pack r msg st =
     (case tm_Source msg of
        Some src \<Rightarrow>
          if NotifySent msg \<noteq> 0 \<and> Site src = si_Id (Local r) then
            case pack (NotifySent msg, st) of
              Inl e \<Rightarrow> Inl (Fatal ''Could not pack message'')
            | Inr drAny \<Rightarrow>
                Inr (Some \<lparr>tm_Source = None, tm_Destination = [Some src], tm_Status = OtherTsiStatus 0,
                           RealTime = False, NotifySent = 0, tm_Body = Some drAny\<rparr>)
          else Inr None
      | None \<Rightarrow> Inr None)"

text \<open>\<open>handle\<close> returns the router and the report still to be put into the inbox.\<close>

definition handle ::
  "(32 word \<times> report_status \<Rightarrow> any_pb res) \<Rightarrow> nat list \<Rightarrow> Router \<Rightarrow> TsiMessage \<Rightarrow> (Router \<times> TsiMessage option) res"
where
  "handle pack ord r msg =
     (let r1 = r\<lparr>totalMessages := totalMessages r + 1,
                 messagesSinceLastReport := messagesSinceLastReport r + 1,
                 history := trim_history (history r @ [msg])\<rparr> in
      rbind (offer ord msg r1 0 0) (\<lambda>(r2, dests, queues).
        if dests = 0 \<or> queues = 0 then rbind (NotifyMessage pack r2 msg DeliveryReport_FAILED) (\<lambda>d. Inr (r2, d))
        else Inr (r2, None)))"

definition service_info_msg :: "(SiteInfo list \<Rightarrow> any_pb res) \<Rightarrow> nat list \<Rightarrow> Router \<Rightarrow> TsiMessage res" where
  "service_info_msg pack_si ord r =
     (case pack_si (Local r # List.map_filter (\<lambda>k. Option.bind (channels r k) (\<lambda>c. channel_SiteInfo (kind c))) ord) of
        Inl e \<Rightarrow> Inl (Panic ''PackFrom'')
      | Inr body \<Rightarrow>
          Inr \<lparr>tm_Source = None, tm_Destination = [], tm_Status = OtherTsiStatus 0, RealTime = False,
               NotifySent = 0, tm_Body = Some body\<rparr>)"

text \<open>\<open>AddChannel\<close> of a channel whose queue has room for the service info.\<close>

definition AddChannel :: "(SiteInfo list \<Rightarrow> any_pb res) \<Rightarrow> nat list \<Rightarrow> Router \<Rightarrow> nat \<Rightarrow> chan \<Rightarrow> Router res" where
  "AddChannel pack_si ord r k c =
     rbind (service_info_msg pack_si ord r) (\<lambda>siMsg.
       Inr (r\<lparr>channels := (channels r)(k \<mapsto> c\<lparr>queue := queue c @ [siMsg]\<rparr>)\<rparr>))"

text \<open>The site state \<open>listen\<close> routes when a channel opens (\<open>True\<close>) and closes (\<open>False\<close>).\<close>

definition site_msg :: "(32 word \<times> bool \<Rightarrow> any_pb res) \<Rightarrow> Router \<Rightarrow> channel \<Rightarrow> bool \<Rightarrow> TsiMessage option" where
  "site_msg pack_site r c up =
     (case channel_EndPoint c of
        None \<Rightarrow> None
      | Some ep \<Rightarrow>
          case pack_site (Site ep, up) of
            Inl e \<Rightarrow> None
          | Inr body \<Rightarrow>
              Some \<lparr>tm_Source = None,
                    tm_Destination = [Some \<lparr>Site = si_Id (Local r), Aid = 0, Eid = 0, Pid = 0\<rparr>],
                    tm_Status = OtherTsiStatus 0, RealTime = False, NotifySent = 0, tm_Body = Some body\<rparr>)"

text \<open>
  The goroutine \<open>listen\<close> calls \<open>handle\<close> itself for the site state, which has no source and so never asks for
  a report.
\<close>

definition listen_handle ::
  "(32 word \<times> report_status \<Rightarrow> any_pb res) \<Rightarrow> (32 word \<times> bool \<Rightarrow> any_pb res) \<Rightarrow> nat list \<Rightarrow> Router \<Rightarrow> channel \<Rightarrow> bool \<Rightarrow>
   Router res"
where
  "listen_handle pack pack_site ord r c up =
     (case site_msg pack_site r c up of
        None \<Rightarrow> Inr r
      | Some m \<Rightarrow> rbind (handle pack ord r m) (\<lambda>(r', d). Inr r'))"

definition close_channel :: "Router \<Rightarrow> nat \<Rightarrow> Router" where
  "close_channel r k = r\<lparr>channels := (channels r)(k := None)\<rparr>"

text \<open>The processor goroutine is at its \<^verbatim>\<open>select\<close> or waits to put a report into the inbox.\<close>

datatype processor_pc = AtSelect | Notifying TsiMessage

inductive rstep ::
  "(32 word \<times> report_status \<Rightarrow> any_pb res) \<Rightarrow> Router \<times> processor_pc \<Rightarrow> Router \<times> processor_pc \<Rightarrow> bool"
  for pack
where
  Recv:
    "length (inbox r) < inbox_cap \<Longrightarrow> rstep pack (r, pc) (r\<lparr>inbox := inbox r @ [msg]\<rparr>, pc)"
| process:
    "inbox r = msg # rest \<Longrightarrow> set ord = dom (channels r) \<Longrightarrow> distinct ord \<Longrightarrow>
     handle pack ord (r\<lparr>inbox := rest\<rparr>) msg = Inr (r', d) \<Longrightarrow>
     rstep pack (r, AtSelect) (r', case d of None \<Rightarrow> AtSelect | Some dr \<Rightarrow> Notifying dr)"
| notify:
    "length (inbox r) < inbox_cap \<Longrightarrow>
     rstep pack (r, Notifying dr) (r\<lparr>inbox := inbox r @ [dr]\<rparr>, AtSelect)"
| report:
    "rstep pack (r, AtSelect) (r\<lparr>messagesSinceLastReport := 0\<rparr>, AtSelect)"
| open_channel:
    "set ord = dom (channels r) \<Longrightarrow> distinct ord \<Longrightarrow>
     AddChannel pack_si ord r k c = Inr r' \<Longrightarrow> listen_handle pack pack_site ord' r' (kind c) True = Inr r'' \<Longrightarrow>
     rstep pack (r, pc) (r'', pc)"
| close_ch:
    "set ord = dom (channels r) \<Longrightarrow> distinct ord \<Longrightarrow> channels r k = Some c \<Longrightarrow>
     listen_handle pack pack_site ord r (kind c) False = Inr r' \<Longrightarrow>
     rstep pack (r, pc) (close_channel r' k, pc)"
| register:
    "channels r k = Some c \<Longrightarrow> kind c = IOChannel reg \<Longrightarrow> handleMessage unpack_registry reg msg = Inr (reg', fwd) \<Longrightarrow>
     rstep pack (r, pc) (r\<lparr>channels := (channels r)(k \<mapsto> c\<lparr>kind := IOChannel reg'\<rparr>)\<rparr>, pc)"
| write_out:
    "channels r k = Some c \<Longrightarrow> queue c = msg # q \<Longrightarrow>
     rstep pack (r, pc) (r\<lparr>channels := (channels r)(k \<mapsto> c\<lparr>queue := q\<rparr>)\<rparr>, pc)"

inductive_simps rstep_notifying: "rstep pack (r, Notifying dr) s"

section \<open>What one message does\<close>

text \<open>
  The abstract contract of a channel: a service listens through one of its entries, a remote site through
  an endpoint of the message.
\<close>

definition listens :: "32 word \<Rightarrow> channel \<Rightarrow> TsiMessage \<Rightarrow> bool" where
  "listens lcl c msg =
     (case c of
        IOChannel reg \<Rightarrow> (\<exists>l. Some l \<in> set (Entries reg) \<and> Matches l msg lcl)
      | RemoteSite si \<Rightarrow> (\<exists>ep. Some ep \<in> set (tm_Destination msg) \<and> Site ep = si_Id si))"

definition no_nil :: "channel \<Rightarrow> bool" where
  "no_nil c = (case c of IOChannel reg \<Rightarrow> None \<notin> set (Entries reg) | RemoteSite si \<Rightarrow> True)"

definition accepts :: "32 word \<Rightarrow> TsiMessage \<Rightarrow> chan \<Rightarrow> bool" where
  "accepts lcl msg c = (listens lcl (kind c) msg \<and> length (queue c) < cap c)"

definition deliver :: "32 word \<Rightarrow> TsiMessage \<Rightarrow> chan \<Rightarrow> chan" where
  "deliver lcl msg c = (if accepts lcl msg c then c\<lparr>queue := queue c @ [msg]\<rparr> else c)"

lemma io_listening_iff:
  "None \<notin> set ls \<Longrightarrow> io_listening lcl ls msg = Inr (\<exists>l. Some l \<in> set ls \<and> Matches l msg lcl)"
  by (induction lcl ls msg rule: io_listening.induct) auto

lemma ListeningFor_listens [simp]: "no_nil c \<Longrightarrow> ListeningFor lcl c msg = Inr (listens lcl c msg)"
proof (cases c)
  case (RemoteSite si)
  then show ?thesis
    by (force simp: ListeningFor_def listens_def remote_listening_def list_ex_iff split: option.splits)
qed (simp add: ListeningFor_def no_nil_def listens_def io_listening_iff)

lemma trim_history_drop: "trim_history h = drop (length h - HistorySize) h"
proof (induction h rule: trim_history.induct)
  case (1 h)
  show ?case
  proof (cases "length h > HistorySize")
    case True
    then have "drop (length (tl h) - HistorySize) (tl h) = drop (length h - HistorySize) h"
      by (cases h) (auto simp: Suc_diff_le less_Suc_eq_le)
    then show ?thesis using 1 True by (subst trim_history.simps) simp
  qed (simp add: trim_history.simps)
qed

text \<open>What the loop over the channels \<open>ks\<close> does with a message: \<open>ds\<close> of them listen, \<open>qs\<close> queues take it.\<close>

definition offered :: "nat list \<Rightarrow> TsiMessage \<Rightarrow> Router \<Rightarrow> Router \<Rightarrow> nat \<Rightarrow> nat \<Rightarrow> bool" where
  "offered ks msg r r' ds qs =
     (qs \<le> ds \<and>
      channels r' = (\<lambda>k. if k \<in> set ks then map_option (deliver (si_Id (Local r)) msg) (channels r k) else channels r k) \<and>
      (qs = 0 \<longleftrightarrow> (\<forall>k \<in> set ks. \<forall>c. channels r k = Some c \<longrightarrow> \<not> accepts (si_Id (Local r)) msg c)) \<and>
      Local r' = Local r \<and> inbox r' = inbox r \<and> history r' = history r \<and> totalMessages r' = totalMessages r)"

lemma offered_skip: "offered ks msg r r' ds qs \<Longrightarrow> channels r k = None \<Longrightarrow> offered (k # ks) msg r r' ds qs"
  by (auto simp: offered_def fun_eq_iff)

text \<open>The router after the channel \<open>k\<close> was offered the message.\<close>

definition offer_one :: "nat \<Rightarrow> chan \<Rightarrow> TsiMessage \<Rightarrow> Router \<Rightarrow> Router" where
  "offer_one k c msg r =
     (if \<not> listens (si_Id (Local r)) (kind c) msg then r
      else if length (queue c) < cap c then
        r\<lparr>channels := (channels r)(k \<mapsto> c\<lparr>queue := queue c @ [msg]\<rparr>), isFullFill := (isFullFill r)(k \<mapsto> False)\<rparr>
      else r\<lparr>isFullFill := (isFullFill r)(k \<mapsto> True)\<rparr>)"

lemma offer_one_fields [simp]:
  "Local (offer_one k c msg r) = Local r" "inbox (offer_one k c msg r) = inbox r"
  "history (offer_one k c msg r) = history r" "totalMessages (offer_one k c msg r) = totalMessages r"
  by (simp_all add: offer_one_def)

lemma offer_one_channels:
  "channels r k = Some c \<Longrightarrow> channels (offer_one k c msg r) = (channels r)(k \<mapsto> deliver (si_Id (Local r)) msg c)"
  by (auto simp: offer_one_def deliver_def accepts_def)

lemma offer_Cons_Some:
  "channels r k = Some c \<Longrightarrow> no_nil (kind c) \<Longrightarrow>
   offer (k # ks) msg r dests queues =
     offer ks msg (offer_one k c msg r) (dests + of_bool (listens (si_Id (Local r)) (kind c) msg))
       (queues + of_bool (accepts (si_Id (Local r)) msg c))"
  by (simp add: offer_one_def accepts_def)

lemma offered_step:
  assumes "channels r k = Some c" "k \<notin> set ks" "offered ks msg (offer_one k c msg r) r' ds qs"
  shows "offered (k # ks) msg r r' (of_bool (listens (si_Id (Local r)) (kind c) msg) + ds)
           (of_bool (accepts (si_Id (Local r)) msg c) + qs)"
proof -
  have "channels (offer_one k c msg r) j = channels r j" if "j \<in> set ks" for j
    using that assms(1,2) by (auto simp: offer_one_channels)
  then show ?thesis
    using assms by (auto simp: offered_def fun_eq_iff offer_one_channels accepts_def)
qed

lemma offer_offered:
  assumes "distinct ks" "\<And>k c. channels r k = Some c \<Longrightarrow> no_nil (kind c)"
  shows "\<exists>r' ds qs. offer ks msg r dests queues = Inr (r', dests + ds, queues + qs) \<and> offered ks msg r r' ds qs"
  using assms
proof (induction ks arbitrary: r dests queues)
  case Nil
  show ?case by (auto simp: offered_def)
next
  case (Cons k ks)
  show ?case
  proof (cases "channels r k")
    case None
    with Cons.IH[of r dests queues] Cons.prems show ?thesis
      by (auto intro: offered_skip)
  next
    case (Some c)
    have "no_nil (kind c')" if "channels (offer_one k c msg r) j = Some c'" for j c'
      using that Cons.prems(2) Some by (auto simp: offer_one_channels deliver_def split: if_splits)
    with Cons.IH[of "offer_one k c msg r"] Cons.prems(1) obtain r' ds qs where
      "offer ks msg (offer_one k c msg r) (dests + of_bool (listens (si_Id (Local r)) (kind c) msg))
         (queues + of_bool (accepts (si_Id (Local r)) msg c)) =
       Inr (r', dests + of_bool (listens (si_Id (Local r)) (kind c) msg) + ds,
         queues + of_bool (accepts (si_Id (Local r)) msg c) + qs)"
      "offered ks msg (offer_one k c msg r) r' ds qs"
      by (metis distinct.simps(2))
    with offered_step[OF Some] offer_Cons_Some[OF Some Cons.prems(2)[OF Some]] Cons.prems(1) show ?thesis
      by (metis add.assoc distinct.simps(2))
  qed
qed

text \<open>C19. Routing a message whose channels hold no nil entries does not fault, appends the message to the
  queue of exactly the channels that listen for it and have room, changes no other queue, keeps the last
  50 messages as history, counts the message, leaves the inbox alone, and reports a failed delivery back to a
  local sender that asked for it exactly when no queue took the message.\<close>
theorem handle_delivers:
  assumes "set ord = dom (channels r)" "distinct ord"
    and "\<forall>k c. channels r k = Some c \<longrightarrow> no_nil (kind c)"
    and "\<forall>p. \<exists>b. pack p = Inr b"
  shows "\<exists>r' d. handle pack ord r msg = Inr (r', d) \<and>
    channels r' = (\<lambda>k. map_option (deliver (si_Id (Local r)) msg) (channels r k)) \<and>
    history r' = drop (length (history r) + 1 - HistorySize) (history r @ [msg]) \<and>
    totalMessages r' = totalMessages r + 1 \<and> inbox r' = inbox r \<and>
    (d \<noteq> None \<longleftrightarrow>
       (\<forall>k c. channels r k = Some c \<longrightarrow> \<not> accepts (si_Id (Local r)) msg c) \<and> NotifySent msg \<noteq> 0 \<and>
       (\<exists>src. tm_Source msg = Some src \<and> Site src = si_Id (Local r))) \<and>
    (\<forall>dr. d = Some dr \<longrightarrow> tm_Destination dr = [tm_Source msg] \<and>
       tm_Body dr = (case pack (NotifySent msg, DeliveryReport_FAILED) of Inl _ \<Rightarrow> None | Inr b \<Rightarrow> Some b))"
proof -
  define r1 where "r1 = r\<lparr>totalMessages := totalMessages r + 1,
    messagesSinceLastReport := messagesSinceLastReport r + 1, history := trim_history (history r @ [msg])\<rparr>"
  have r1: "channels r1 = channels r" "Local r1 = Local r" "inbox r1 = inbox r"
    "history r1 = trim_history (history r @ [msg])" "totalMessages r1 = totalMessages r + 1"
    by (simp_all add: r1_def)
  obtain r' ds qs where o: "offer ord msg r1 0 0 = Inr (r', ds, qs)" "offered ord msg r1 r' ds qs"
    using offer_offered[OF assms(2), of r1 msg 0 0] assms(3) by (auto simp: r1)
  have ch': "channels r' = (\<lambda>k. map_option (deliver (si_Id (Local r)) msg) (channels r k))"
    using o(2) assms(1) by (auto simp: offered_def r1 fun_eq_iff)
  have q': "ds = 0 \<or> qs = 0 \<longleftrightarrow> (\<forall>k c. channels r k = Some c \<longrightarrow> \<not> accepts (si_Id (Local r)) msg c)"
    using o(2) assms(1) by (auto simp: offered_def r1)
  have rest: "Local r' = Local r1" "inbox r' = inbox r1" "history r' = history r1" "totalMessages r' = totalMessages r1"
    using o(2) by (simp_all add: offered_def)
  have h: "handle pack ord r msg =
    (if ds = 0 \<or> qs = 0 then rbind (NotifyMessage pack r' msg DeliveryReport_FAILED) (\<lambda>d. Inr (r', d)) else Inr (r', None))"
    using o(1) by (simp add: handle_def Let_def r1_def)
  obtain b where b: "pack (NotifySent msg, DeliveryReport_FAILED) = Inr b" using assms(4) by blast
  show ?thesis
    using h q' ch' rest b
    by (auto simp: NotifyMessage_def r1 trim_history_drop split: option.splits)
qed

text \<open>A router with one service that listens for everything, one whose queue is full and one remote site.\<close>

definition ex_msg :: TsiMessage where
  "ex_msg = \<lparr>tm_Source = Some \<lparr>Site = 7, Aid = 1, Eid = 2, Pid = 3\<rparr>,
             tm_Destination = [Some \<lparr>Site = 9, Aid = 0, Eid = 0, Pid = 0\<rparr>],
             tm_Status = OtherTsiStatus 0, RealTime = False, NotifySent = 5, tm_Body = None\<rparr>"

definition ex_router :: Router where
  "ex_router = (NewRouter 7 ''hq'')\<lparr>channels :=
     [0 \<mapsto> \<lparr>kind = IOChannel \<lparr>SourceService = None, Entries = [Some \<lparr>ls_Source = None, ls_Destination = None, ls_MessageType = ''''\<rparr>]\<rparr>,
             queue = [], cap = 4\<rparr>,
      1 \<mapsto> \<lparr>kind = RemoteSite \<lparr>si_Id = 8, si_Name = ''a''\<rparr>, queue = [], cap = 4\<rparr>,
      2 \<mapsto> \<lparr>kind = RemoteSite \<lparr>si_Id = 9, si_Name = ''b''\<rparr>, queue = [], cap = 0\<rparr>]\<rparr>"

definition ex_pack :: "32 word \<times> report_status \<Rightarrow> any_pb res" where
  "ex_pack p = Inr \<lparr>TypeUrl = ''type.googleapis.com/r'', Value = []\<rparr>"

lemma distinct_012: "distinct [0, 1, 2 :: nat]"
  by simp

theorem handle_delivers_witness:
  "\<exists>r' d. handle ex_pack [0, 1, 2] ex_router ex_msg = Inr (r', d) \<and> d = None \<and> history r' = [ex_msg] \<and>
     map_option queue (channels r' 0) = Some [ex_msg] \<and> map_option queue (channels r' 1) = Some [] \<and>
     map_option queue (channels r' 2) = Some []"
proof -
  have chan: "\<forall>k c. channels ex_router k = Some c \<longrightarrow> no_nil (kind c)"
    by (auto simp: ex_router_def no_nil_def split: if_splits)
  have acc: "accepts 7 ex_msg (the (channels ex_router 0))" "\<not> accepts 7 ex_msg (the (channels ex_router 1))"
    "\<not> accepts 7 ex_msg (the (channels ex_router 2))"
    by (simp_all add: accepts_def listens_def ex_router_def ex_msg_def Matches_def MatchesEP_def)
  have loc: "si_Id (Local ex_router) = 7" "history ex_router = []"
    by (simp_all add: ex_router_def NewRouter_def)
  have dm: "set [0, 1, 2] = dom (channels ex_router)" by (auto simp: ex_router_def split: if_splits)
  have pk: "\<forall>p. \<exists>b. ex_pack p = Inr b" by (simp add: ex_pack_def)
  obtain r' d where h: "handle ex_pack [0, 1, 2] ex_router ex_msg = Inr (r', d)"
      "channels r' = (\<lambda>k. map_option (deliver 7 ex_msg) (channels ex_router k))"
      "history r' = drop (length (history ex_router) + 1 - HistorySize) (history ex_router @ [ex_msg])"
    and none: "d \<noteq> None \<Longrightarrow> \<forall>k c. channels ex_router k = Some c \<longrightarrow> \<not> accepts 7 ex_msg c"
    using handle_delivers[where msg = ex_msg, OF dm distinct_012 chan pk] unfolding loc(1) by blast
  obtain c where "channels ex_router 0 = Some c" by (simp add: ex_router_def)
  with none acc(1) have h4: "d = None" by fastforce
  have "deliver 7 ex_msg (the (channels ex_router 0)) = (the (channels ex_router 0))\<lparr>queue := [ex_msg]\<rparr>"
    using acc(1) by (simp add: deliver_def) (simp add: ex_router_def)
  moreover have "deliver 7 ex_msg (the (channels ex_router 1)) = the (channels ex_router 1)"
    "deliver 7 ex_msg (the (channels ex_router 2)) = the (channels ex_router 2)"
    using acc by (simp_all add: deliver_def)
  ultimately show ?thesis
    using h h4 loc by (simp add: HistorySize_def) (simp add: ex_router_def)
qed

section \<open>The inbox and the processor\<close>

lemma offer_keeps_inbox: "offer ks msg r dests queues = Inr (r', ds, qs) \<Longrightarrow> inbox r' = inbox r"
  by (induction ks msg r dests queues rule: offer.induct)
    (auto simp: rbind_eq_Inr split: option.splits if_splits)

lemma handle_keeps_inbox: "handle pack ord r msg = Inr (r', d) \<Longrightarrow> inbox r' = inbox r"
  by (auto simp: handle_def Let_def rbind_eq_Inr split: if_splits dest!: offer_keeps_inbox)

lemma listen_handle_keeps_inbox: "listen_handle pack pack_site ord r c up = Inr r' \<Longrightarrow> inbox r' = inbox r"
  by (auto simp: listen_handle_def rbind_eq_Inr split: option.splits dest!: handle_keeps_inbox)

lemma AddChannel_keeps_inbox: "AddChannel pack_si ord r k c = Inr r' \<Longrightarrow> inbox r' = inbox r"
  by (auto simp: AddChannel_def rbind_eq_Inr)

lemmas keeps_inbox = handle_keeps_inbox listen_handle_keeps_inbox AddChannel_keeps_inbox

lemma notifying_full_step:
  assumes "rstep pack (r, Notifying dr) (r', pc)" "length (inbox r) = inbox_cap"
  shows "pc = Notifying dr \<and> inbox r' = inbox r"
  using assms by (auto simp: rstep_notifying close_channel_def dest!: keeps_inbox)

lemma notifying_full_forever:
  assumes "(rstep pack)\<^sup>*\<^sup>* (r, Notifying dr) (r', pc)" "length (inbox r) = inbox_cap"
  shows "pc = Notifying dr \<and> inbox r' = inbox r"
  using assms(1)
proof (induction "(r', pc)" arbitrary: r' pc rule: rtranclp_induct)
  case (step s)
  then show ?case using notifying_full_step[of pack "fst s" dr r' pc] assms(2) by (cases s) auto
qed simp

lemma fill_inbox:
  "length (inbox r) + n \<le> inbox_cap \<Longrightarrow>
   (rstep pack)\<^sup>*\<^sup>* (r, pc) (r\<lparr>inbox := inbox r @ replicate n m\<rparr>, pc)"
proof (induction n)
  case (Suc n)
  have "(rstep pack)\<^sup>*\<^sup>* (r, pc) (r\<lparr>inbox := inbox r @ replicate n m\<rparr>, pc)" using Suc by simp
  moreover have "rstep pack (r\<lparr>inbox := inbox r @ replicate n m\<rparr>, pc)
      ((r\<lparr>inbox := inbox r @ replicate n m\<rparr>)\<lparr>inbox := inbox (r\<lparr>inbox := inbox r @ replicate n m\<rparr>) @ [m]\<rparr>, pc)"
    using Suc.prems by (intro rstep.Recv) simp
  ultimately show ?case
    by (simp add: replicate_append_same[symmetric] del: replicate.simps) (simp add: replicate_append_same)
qed simp

lemma inbox_bounded:
  assumes "(rstep pack)\<^sup>*\<^sup>* (NewRouter site nm, AtSelect) (r, pc)"
  shows "length (inbox r) \<le> inbox_cap"
  using assms
proof (induction "(r, pc)" arbitrary: r pc rule: rtranclp_induct)
  case (step s)
  from step(2) have "length (inbox (fst s)) \<le> inbox_cap" using step(3)[of "fst s" "snd s"] by simp
  with step(2) show ?case
    by (cases rule: rstep.cases) (auto simp: close_channel_def dest!: keeps_inbox)
qed (simp add: NewRouter_def)

lemma handle_nobody:
  "tm_Source msg = Some src \<Longrightarrow> Site src = si_Id (Local r) \<Longrightarrow> NotifySent msg \<noteq> 0 \<Longrightarrow>
   pack (NotifySent msg, DeliveryReport_FAILED) = Inr b \<Longrightarrow>
   \<exists>r' dr. handle pack [] (r\<lparr>inbox := ib\<rparr>) msg = Inr (r', Some dr) \<and> inbox r' = ib"
  by (simp add: handle_def Let_def NotifyMessage_def)

text \<open>C38. The processor goroutine reports a failed delivery by sending on the inbox that only it drains: from
  the start the router reaches a state, after a message nobody listens for and 32 further messages, from
  which no step of any goroutine ever receives from the inbox again.\<close>
theorem processor_deadlocks:
  assumes "\<forall>p. \<exists>b. pack p = Inr b"
  shows "\<exists>r dr. (rstep pack)\<^sup>*\<^sup>* (NewRouter 7 nm, AtSelect) (r, Notifying dr) \<and>
    (\<forall>r' pc. (rstep pack)\<^sup>*\<^sup>* (r, Notifying dr) (r', pc) \<longrightarrow> pc = Notifying dr \<and> inbox r' = inbox r)"
proof -
  define r0 where "r0 = NewRouter 7 nm"
  define ra where "ra = r0\<lparr>inbox := [ex_msg]\<rparr>"
  have e: "inbox r0 = []" "channels r0 = Map.empty" "si_Id (Local r0) = 7"
    by (simp_all add: r0_def NewRouter_def)
  have s1: "rstep pack (r0, AtSelect) (ra, AtSelect)"
    using rstep.Recv[of r0 pack AtSelect ex_msg] e by (simp add: ra_def inbox_cap_def)
  obtain rb d where h: "handle pack [] (ra\<lparr>inbox := []\<rparr>) ex_msg = Inr (rb, d)" "d \<noteq> None" "inbox rb = []"
  proof -
    obtain b where "pack (NotifySent ex_msg, DeliveryReport_FAILED) = Inr b" using assms by blast
    then show ?thesis
      using handle_nobody[of ex_msg "\<lparr>Site = 7, Aid = 1, Eid = 2, Pid = 3\<rparr>" ra pack b "[]"] that e(3)
      by (auto simp: ra_def ex_msg_def)
  qed
  then obtain dr where "d = Some dr" by blast
  with h have s2: "rstep pack (ra, AtSelect) (rb, Notifying dr)"
    using rstep.process[of ra ex_msg "[]" "[]" pack rb d] by (simp add: ra_def e)
  define rc where "rc = rb\<lparr>inbox := inbox rb @ replicate inbox_cap ex_msg\<rparr>"
  have s3: "(rstep pack)\<^sup>*\<^sup>* (rb, Notifying dr) (rc, Notifying dr)"
    unfolding rc_def using h(3) by (intro fill_inbox) simp
  have "(rstep pack)\<^sup>*\<^sup>* (r0, AtSelect) (rc, Notifying dr)"
    using s1 s2 s3 by (meson converse_rtranclp_into_rtranclp)
  moreover have "length (inbox rc) = inbox_cap" using h(3) by (simp add: rc_def)
  ultimately show ?thesis using notifying_full_forever unfolding r0_def by blast
qed

theorem processor_deadlocks_witness:
  "\<exists>r dr. (rstep ex_pack)\<^sup>*\<^sup>* (NewRouter 7 ''hq'', AtSelect) (r, Notifying dr) \<and>
    (\<forall>r' pc. (rstep ex_pack)\<^sup>*\<^sup>* (r, Notifying dr) (r', pc) \<longrightarrow> pc = Notifying dr \<and> inbox r' = inbox r)"
  by (rule processor_deadlocks) (simp add: ex_pack_def)

end
