(* ===== verification/Tsi_Client.thy ===== *)
theory Tsi_Client
  imports Tgwad_Router "HOL-Library.Multiset"
begin

text \<open>
  \<^verbatim>\<open>tms/tmsg/tsiclient.go\<close> and \<^verbatim>\<open>constants.go\<close>: the connection of a daemon to its local \<^verbatim>\<open>tgwad\<close>. A Go channel on
  which messages are handed to a listener is named by a number; its buffer is a port of the client. The generated
  protobuf code (\<open>proto\<close>) is a parameter: names, marshalling and the types of unpacked messages. Callbacks and
  handlers are named by values; what a handler answers is an argument of the goroutine that runs it. Clock readings
  and random numbers are arguments.

  The goroutine \<^verbatim>\<open>receive\<close> and the callers of the client are the step relation \<open>cstep\<close>: a send on a full port
  waits, and the mutex is held where \<^verbatim>\<open>handle\<close> holds it while it waits.
\<close>

section \<open>Messages of a client\<close>

definition TMSG_UNKNOWN_SITE :: "32 word" where "TMSG_UNKNOWN_SITE = 0"

definition TMSG_HQ_SITE :: "32 word" where "TMSG_HQ_SITE = 2"

definition APP_ID_TGWAD :: "32 word" where "APP_ID_TGWAD = 2"

definition AppIdNames :: "(32 word \<times> string) list" where
  "AppIdNames =
     [(0, ''AppUnknown''), (2, ''tgwad''), (0x18, ''treportd''), (0x1E, ''twatch''), (0x2E, ''tdrunkcpt''),
      (0x30, ''tclientd''), (0x31, ''tdatabased''), (0x32, ''tping''), (0x34, ''twebd''), (0x35, ''tmsd''),
      (0x36, ''tnoid''), (0x37, ''tfleetd''), (0x38, ''torbcommd''), (0x41, ''omn-pos-gen''),
      (0x42, ''tnafexportd''), (0x43, ''tauthd''), (0x44, ''tmccd''), (0x47, ''consul''), (0x46, ''tmccrd''),
      (0x48, ''tspiderd'')]"

abbreviation (input) TsiMessage_REQUEST :: tsi_status where "TsiMessage_REQUEST \<equiv> OtherTsiStatus 1"

abbreviation (input) TsiMessage_REPLY :: tsi_status where "TsiMessage_REPLY \<equiv> OtherTsiStatus 3"

record SeqMessage = TsiMessage +
  CommandSequence :: "32 word option"
  WriteTime :: "time option"
  SendTime :: "time option"
  RequestTime :: "time option"

record 'b TMsg =
  tsi :: SeqMessage
  Body :: "'b option"

datatype delivery_status = Report_UNKNOWN | Report_SENT | Report_FAILED | Report_PROCESSED

record DeliveryReport =
  NotifyId :: "32 word"
  rpt_Status :: delivery_status

record client_site = SiteInfo +
  si_Local :: bool

text \<open>The generated code: \<open>as_report\<close>, \<open>as_info\<close> and \<open>as_ping\<close> are the type assertions on an unpacked message.\<close>

record 'b proto =
  pb_MessageName :: "'b \<Rightarrow> string"
  pb_Marshal :: "'b \<Rightarrow> go_bytes res"
  pb_registered :: "string \<Rightarrow> (go_bytes \<Rightarrow> 'b res) option"
  as_report :: "'b \<Rightarrow> DeliveryReport option"
  as_info :: "'b \<Rightarrow> client_site list option"
  as_ping :: "'b \<Rightarrow> (time \<Rightarrow> 'b) option"
  registry_msg :: "Registry \<Rightarrow> 'b"

section \<open>The client\<close>

text \<open>The callback of a request writes to its \<^verbatim>\<open>failchan\<close>; a request is named by its channel.\<close>

datatype 'k notify_target = User 'k | Request_failed nat

record 'b port =
  p_queue :: "'b TMsg list"
  p_cap :: nat

text \<open>
  \<open>c_running\<close> are the goroutines started for callbacks and \<open>c_issued\<close> the identifiers given out, both in order;
  \<open>c_serving\<close> are the goroutines that answer requests. The context of a listener is stored by the code and never read.
\<close>

record ('b, 'h, 'k) client =
  c_outbox :: "SeqMessage list"
  c_site :: "32 word"
  c_app :: "32 word"
  c_entry :: "32 word"
  c_pid :: "32 word"
  c_si :: "client_site list option"
  c_sites :: "string \<rightharpoonup> client_site"
  c_registry :: Registry
  c_listeners :: "nat \<rightharpoonup> Listener"
  c_ports :: "nat \<rightharpoonup> 'b port"
  c_handlers :: "string \<rightharpoonup> 'h"
  c_cmdSeq :: "32 word"
  c_notifyCallbacks :: "32 word \<rightharpoonup> 'k notify_target"
  c_lastTSN :: "int \<times> 32 word"
  c_running :: "(32 word \<times> 'k notify_target \<times> DeliveryReport) list"
  c_issued :: "(32 word \<times> 'k notify_target) list"
  c_serving :: "('h \<times> 'b TMsg) list"

definition client_Local :: "('b, 'h, 'k) client \<Rightarrow> EndPoint" where
  "client_Local c = \<lparr>Site = c_site c, Aid = c_app c, Eid = c_entry c, Pid = c_pid c\<rparr>"

definition LocalRouter :: "('b, 'h, 'k) client \<Rightarrow> EndPoint" where
  "LocalRouter c = \<lparr>Site = c_site c, Aid = APP_ID_TGWAD, Eid = 0, Pid = 0\<rparr>"

definition ResolveSite :: "('b, 'h, 'k) client \<Rightarrow> string \<Rightarrow> 32 word" where
  "ResolveSite c sitename =
     (if sitename = '''' then c_site c
      else if sitename = ''local'' then TMSG_LOCAL_SITE
      else case c_sites c sitename of None \<Rightarrow> TMSG_UNKNOWN_SITE | Some si \<Rightarrow> si_Id si)"

text \<open>The range over the map \<^verbatim>\<open>AppIdNames\<close> visits its entries in the order \<open>ord\<close>.\<close>

fun ResolveApp :: "(32 word \<times> string) list \<Rightarrow> string \<Rightarrow> 32 word" where
  "ResolveApp [] sitename = 0"
| "ResolveApp ((aid, nm) # ord) sitename = (if nm = sitename then aid else ResolveApp ord sitename)"

definition outbox_cap :: nat where "outbox_cap = 32"

definition listen_cap :: nat where "listen_cap = 32"

text \<open>\<^verbatim>\<open>Send\<close> waits, here \<open>None\<close>, while the outbox is full; the context of the caller is taken not to end meanwhile.\<close>

definition Send :: "SeqMessage \<Rightarrow> ('b, 'h, 'k) client \<Rightarrow> ('b, 'h, 'k) client option" where
  "Send m c =
     (if length (c_outbox c) < outbox_cap
      then Some (c\<lparr>c_outbox := c_outbox c @ [m\<lparr>tm_Source := Some (client_Local c)\<rparr>]\<rparr>) else None)"

definition new_msg :: "EndPoint option list \<Rightarrow> any_pb option \<Rightarrow> SeqMessage" where
  "new_msg dest body =
     \<lparr>tm_Source = None, tm_Destination = dest, tm_Status = OtherTsiStatus 0, RealTime = False, NotifySent = 0, tm_Body = body,
      CommandSequence = None, WriteTime = None, SendTime = None, RequestTime = None\<rparr>"

definition Pack :: "'b proto \<Rightarrow> 'b \<Rightarrow> any_pb res" where
  "Pack P msg = PackFrom (pb_MessageName P) (pb_Marshal P) msg"

definition Publish :: "'b proto \<Rightarrow> time \<Rightarrow> 'b \<Rightarrow> ('b, 'h, 'k) client \<Rightarrow> ('b, 'h, 'k) client option" where
  "Publish P now envelope c =
     Send ((new_msg [Some \<lparr>Site = TMSG_HQ_SITE, Aid = 0, Eid = 0, Pid = 0\<rparr>]
              (case Pack P envelope of Inl e \<Rightarrow> None | Inr body \<Rightarrow> Some body))
            \<lparr>WriteTime := Some now, SendTime := Some now\<rparr>) c"

definition SendTo ::
  "'b proto \<Rightarrow> time \<Rightarrow> time \<Rightarrow> EndPoint \<Rightarrow> 'b \<Rightarrow> ('b, 'h, 'k) client \<Rightarrow> ('b, 'h, 'k) client option"
where
  "SendTo P t1 t2 ep msg c =
     (case Pack P msg of
        Inl e \<Rightarrow> Some c
      | Inr body \<Rightarrow> Send ((new_msg [Some ep] (Some body))\<lparr>WriteTime := Some t1, RequestTime := Some t2\<rparr>) c)"

definition BroadcastLocal :: "'b proto \<Rightarrow> time \<Rightarrow> time \<Rightarrow> 'b \<Rightarrow> ('b, 'h, 'k) client \<Rightarrow> ('b, 'h, 'k) client option" where
  "BroadcastLocal P t1 t2 msg c = SendTo P t1 t2 \<lparr>Site = c_site c, Aid = 0, Eid = 0, Pid = 0\<rparr> msg c"

text \<open>\<^verbatim>\<open>NotifyID\<close> draws random numbers until one is free; \<open>None\<close> is that it still draws.\<close>

fun NotifyID ::
  "'k notify_target \<Rightarrow> 32 word list \<Rightarrow> ('b, 'h, 'k) client \<Rightarrow> (32 word \<times> ('b, 'h, 'k) client) option"
where
  "NotifyID k [] c = None"
| "NotifyID k (i # draws) c =
     (case c_notifyCallbacks c i of
        Some _ \<Rightarrow> NotifyID k draws c
      | None \<Rightarrow> Some (i, c\<lparr>c_notifyCallbacks := (c_notifyCallbacks c)(i \<mapsto> k), c_issued := c_issued c @ [(i, k)]\<rparr>))"

definition SendNotify ::
  "SeqMessage \<Rightarrow> 'k notify_target \<Rightarrow> 32 word list \<Rightarrow> ('b, 'h, 'k) client \<Rightarrow> ('b, 'h, 'k) client option"
where
  "SendNotify m k draws c = Option.bind (NotifyID k draws c) (\<lambda>(i, c'). Send (m\<lparr>NotifySent := i\<rparr>) c')"

definition RegisterHandler :: "string \<Rightarrow> 'h option \<Rightarrow> ('b, 'h, 'k) client \<Rightarrow> ('b, 'h, 'k) client" where
  "RegisterHandler msgType handler c = c\<lparr>c_handlers := (c_handlers c)(msgType := handler)\<rparr>"

definition handlePing :: "'b proto \<Rightarrow> time \<Rightarrow> 'b TMsg \<Rightarrow> 'b option" where
  "handlePing P now msg = Option.bind (Body msg) (\<lambda>b. map_option (\<lambda>pong. pong now) (as_ping P b))"

section \<open>Listening\<close>

text \<open>\<open>ch\<close> is the name of the channel \<^verbatim>\<open>make\<close> gives.\<close>

definition internalListen :: "nat \<Rightarrow> Listener \<Rightarrow> ('b, 'h, 'k) client \<Rightarrow> ('b, 'h, 'k) client" where
  "internalListen ch l c =
     c\<lparr>c_listeners := (c_listeners c)(ch \<mapsto> l), c_ports := (c_ports c)(ch \<mapsto> \<lparr>p_queue = [], p_cap = listen_cap\<rparr>)\<rparr>"

definition add_entries :: "Listener list \<Rightarrow> ('b, 'h, 'k) client \<Rightarrow> ('b, 'h, 'k) client" where
  "add_entries ls c = c\<lparr>c_registry := (c_registry c)\<lparr>Entries := Entries (c_registry c) @ map Some ls\<rparr>\<rparr>"

definition sendRegistry :: "'b proto \<Rightarrow> ('b, 'h, 'k) client \<Rightarrow> ('b, 'h, 'k) client option" where
  "sendRegistry P c =
     (let c' = c\<lparr>c_registry := (c_registry c)\<lparr>SourceService := Some (client_Local c)\<rparr>\<rparr>;
          body = (case Pack P (registry_msg P (c_registry c')) of Inl e \<Rightarrow> None | Inr body \<Rightarrow> Some body) in
      Send (new_msg [Some (LocalRouter c')] body) c')"

definition Listen :: "'b proto \<Rightarrow> nat \<Rightarrow> Listener \<Rightarrow> ('b, 'h, 'k) client \<Rightarrow> ('b, 'h, 'k) client option" where
  "Listen P ch l c = sendRegistry P (add_entries [l] (internalListen ch l c))"

definition own_entries :: "32 word \<Rightarrow> ('b, 'h, 'k) client \<Rightarrow> Listener list" where
  "own_entries s c =
     [\<lparr>ls_Source = None, ls_Destination = Some \<lparr>Site = s, Aid = c_app c, Eid = 0, Pid = 0\<rparr>, ls_MessageType = ''''\<rparr>,
      \<lparr>ls_Source = None, ls_Destination = Some (client_Local c), ls_MessageType = ''''\<rparr>]"

text \<open>\<^verbatim>\<open>ConnectTsiClient\<close> up to the wait for the service info, and the handler it registers after it.\<close>

definition ConnectTsiClient :: "32 word \<Rightarrow> 32 word \<Rightarrow> 32 word \<Rightarrow> ('b, 'h, 'k) client" where
  "ConnectTsiClient entry pid appid =
     (let c = \<lparr>c_outbox = [], c_site = TMSG_LOCAL_SITE, c_app = appid, c_entry = (if entry = 0 then appid * 1000 else entry),
               c_pid = pid, c_si = None, c_sites = Map.empty, c_registry = \<lparr>SourceService = None, Entries = []\<rparr>,
               c_listeners = Map.empty, c_ports = Map.empty, c_handlers = Map.empty, c_cmdSeq = 1,
               c_notifyCallbacks = Map.empty, c_lastTSN = (0, 0), c_running = [], c_issued = [], c_serving = []\<rparr> in
      internalListen 0 \<lparr>ls_Source = None, ls_Destination = None, ls_MessageType = ''prisma.tms.routing.ServiceInfo''\<rparr>
        (add_entries (own_entries TMSG_LOCAL_SITE c) c))"

definition connected :: "'h \<Rightarrow> ('b, 'h, 'k) client \<Rightarrow> ('b, 'h, 'k) client option" where
  "connected ping c =
     (if c_si c = None then None else Some (RegisterHandler ''prisma.tms.routing.Ping'' (Some ping) c))"

definition add_site :: "client_site \<Rightarrow> ('b, 'h, 'k) client \<Rightarrow> ('b, 'h, 'k) client" where
  "add_site s c =
     (let c' = (if si_Local s then c\<lparr>c_site := si_Id s\<rparr> else c) in c'\<lparr>c_sites := (c_sites c')(si_Name s \<mapsto> s)\<rparr>)"

definition updateSI :: "'b proto \<Rightarrow> client_site list \<Rightarrow> ('b, 'h, 'k) client \<Rightarrow> ('b, 'h, 'k) client option" where
  "updateSI P sites c =
     (let c' = fold add_site sites (c\<lparr>c_si := Some sites\<rparr>) in
      if c_site c \<noteq> c_site c' then sendRegistry P (add_entries (own_entries (c_site c') c') c') else Some c')"

text \<open>\<^verbatim>\<open>siProcess\<close> on one message of its channel.\<close>

definition siProcess :: "'b proto \<Rightarrow> 'b TMsg \<Rightarrow> ('b, 'h, 'k) client \<Rightarrow> ('b, 'h, 'k) client option" where
  "siProcess P msg c =
     (case Option.bind (Body msg) (as_info P) of None \<Rightarrow> Some c | Some sites \<Rightarrow> updateSI P sites c)"

section \<open>Serial numbers\<close>

definition GenerateTSN :: "int \<Rightarrow> ('b, 'h, 'k) client \<Rightarrow> (int \<times> 32 word) \<times> ('b, 'h, 'k) client" where
  "GenerateTSN now c =
     (let l = (if fst (c_lastTSN c) \<noteq> now then (now, 0) else c_lastTSN c); l' = (fst l, snd l + 1) in
      (l', c\<lparr>c_lastTSN := l'\<rparr>))"

record TargetID =
  Producer_Site :: "32 word"
  Producer_Eid :: "32 word"
  TimeSerial :: "int \<times> 32 word"

definition GenerateTargetTSN :: "int \<Rightarrow> ('b, 'h, 'k) client \<Rightarrow> TargetID \<times> ('b, 'h, 'k) client" where
  "GenerateTargetTSN now c =
     (let (tsn, c') = GenerateTSN now c in
      (\<lparr>Producer_Site = c_site c', Producer_Eid = c_entry c', TimeSerial = tsn\<rparr>, c'))"

fun TSNs :: "int list \<Rightarrow> ('b, 'h, 'k) client \<Rightarrow> (int \<times> 32 word) list" where
  "TSNs [] c = []"
| "TSNs (now # clock) c = (let (tsn, c') = GenerateTSN now c in tsn # TSNs clock c')"

section \<open>Receiving\<close>

text \<open>
  Where the goroutine \<^verbatim>\<open>receive\<close> is: reading, or handing a message to the listeners it found. The flag says that
  \<^verbatim>\<open>handle\<close> holds the mutex until it returns, as it does for every delivery report.
\<close>

datatype 'b recv_pc = Recv_reading | Posting "'b TMsg" "nat list" bool

definition listening_chans :: "SeqMessage \<Rightarrow> nat list \<Rightarrow> ('b, 'h, 'k) client \<Rightarrow> nat list" where
  "listening_chans msg ord c =
     filter (\<lambda>ch. case c_listeners c ch of None \<Rightarrow> False | Some l \<Rightarrow> Matches l (TsiMessage.truncate msg) (c_site c)) ord"

definition handle_report :: "DeliveryReport \<Rightarrow> ('b, 'h, 'k) client \<Rightarrow> ('b, 'h, 'k) client" where
  "handle_report rpt c =
     (case c_notifyCallbacks c (NotifyId rpt) of
        None \<Rightarrow> c
      | Some k \<Rightarrow> c\<lparr>c_notifyCallbacks := (c_notifyCallbacks c)(NotifyId rpt := None), c_running := c_running c @ [(NotifyId rpt, k, rpt)]\<rparr>)"

definition client_handle ::
  "'b proto \<Rightarrow> nat list \<Rightarrow> SeqMessage \<Rightarrow> ('b, 'h, 'k) client \<Rightarrow> ('b, 'h, 'k) client \<times> 'b recv_pc"
where
  "client_handle P ord msg c =
     (if tm_Status msg = TsiMessage_ACK then (c, Recv_reading)
      else
        case Unpack (pb_registered P) (tm_Body msg) of
          Inl e \<Rightarrow> (c, Recv_reading)
        | Inr body \<Rightarrow>
            let tmsg = \<lparr>tsi = msg, Body = body\<rparr>;
                ty = MessageType (TsiMessage.truncate msg);
                chans = listening_chans msg ord c;
                rpt = (if ty = ''prisma.tms.routing.DeliveryReport'' then Option.bind body (as_report P) else None);
                c1 = (case rpt of None \<Rightarrow> c | Some r \<Rightarrow> handle_report r c);
                c2 = (if tm_Status msg = TsiMessage_REQUEST
                      then case c_handlers c1 ty of None \<Rightarrow> c1 | Some h \<Rightarrow> c1\<lparr>c_serving := c_serving c1 @ [(h, tmsg)]\<rparr>
                      else c1) in
            (c2, Posting tmsg chans (rpt \<noteq> None)))"

text \<open>The goroutine that answers a request; \<open>resp\<close> is what the handler returned.\<close>

definition reply :: "'b proto \<Rightarrow> 'b option \<Rightarrow> 'b TMsg \<Rightarrow> ('b, 'h, 'k) client \<Rightarrow> ('b, 'h, 'k) client option" where
  "reply P resp req c =
     (case resp of
        None \<Rightarrow> Some c
      | Some r \<Rightarrow>
          case Pack P r of
            Inl e \<Rightarrow> Some c
          | Inr body \<Rightarrow>
              Send ((new_msg [tm_Source (tsi req)] (Some body))
                    \<lparr>tm_Status := TsiMessage_REPLY, CommandSequence := CommandSequence (tsi req)\<rparr>) c)"

text \<open>One turn of \<^verbatim>\<open>receive\<close> on what \<^verbatim>\<open>ReadTsiMessage\<close> gave: the client, where the goroutine is, and whether the connection stays.\<close>

definition client_receive ::
  "'b proto \<Rightarrow> nat list \<Rightarrow> SeqMessage option res \<Rightarrow> ('b, 'h, 'k) client \<Rightarrow> ('b, 'h, 'k) client \<times> 'b recv_pc \<times> bool"
where
  "client_receive P ord r c =
     (case r of
        Inl e \<Rightarrow> (c, Recv_reading, e = RetryError)
      | Inr None \<Rightarrow> (c, Recv_reading, True)
      | Inr (Some m) \<Rightarrow> (let (c', pc) = client_handle P ord m c in (c', pc, True)))"

section \<open>Requests\<close>

definition request_cap :: nat where "request_cap = 1"

text \<open>\<^verbatim>\<open>Request\<close> up to its \<^verbatim>\<open>select\<close>: the sequence number and the client, or \<open>None\<close> while it waits for the outbox or an identifier.\<close>

definition request_begin ::
  "'b proto \<Rightarrow> nat \<Rightarrow> EndPoint \<Rightarrow> time \<Rightarrow> time \<Rightarrow> 32 word list \<Rightarrow> 'b \<Rightarrow> ('b, 'h, 'k) client \<Rightarrow> (32 word \<times> ('b, 'h, 'k) client) option res"
where
  "request_begin P ch ep t1 t2 draws msg c =
     rbind (Pack P msg) (\<lambda>body.
       let i = c_cmdSeq c + 1;
           c1 = c\<lparr>c_cmdSeq := i, c_listeners := (c_listeners c)(ch \<mapsto> \<lparr>ls_Source = Some ep, ls_Destination = None, ls_MessageType = ''''\<rparr>),
                  c_ports := (c_ports c)(ch \<mapsto> \<lparr>p_queue = [], p_cap = request_cap\<rparr>)\<rparr>;
           req = (new_msg [Some ep] (Some body))
                   \<lparr>WriteTime := Some t1, RequestTime := Some t2, RealTime := True, tm_Status := TsiMessage_REQUEST, CommandSequence := Some i\<rparr> in
       Inr (map_option (Pair i) (SendNotify req (Request_failed ch) draws c1)))"

definition answers :: "32 word \<Rightarrow> 'b TMsg \<Rightarrow> bool" where
  "answers i msg = (tm_Status (tsi msg) = TsiMessage_REPLY \<and> CommandSequence (tsi msg) = Some i)"

text \<open>The loop of \<^verbatim>\<open>Request\<close> over what its \<^verbatim>\<open>select\<close> receives; \<open>None\<close> is that it still waits.\<close>

datatype 'b rq_event = Rq_done go_fault | Rq_fail | Rq_msg "'b TMsg"

fun request_wait :: "32 word \<Rightarrow> 'b rq_event list \<Rightarrow> 'b option res option" where
  "request_wait i [] = None"
| "request_wait i (Rq_done e # evs) = Some (Inl e)"
| "request_wait i (Rq_fail # evs) = Some (Inl (Err ''Message failed sending''))"
| "request_wait i (Rq_msg m # evs) = (if answers i m then Some (Inr (Body m)) else request_wait i evs)"

definition request_end :: "nat \<Rightarrow> ('b, 'h, 'k) client \<Rightarrow> ('b, 'h, 'k) client" where
  "request_end ch c = c\<lparr>c_listeners := (c_listeners c)(ch := None)\<rparr>"

section \<open>The connection\<close>

text \<open>\<open>lk_taken\<close> are the messages \<^verbatim>\<open>send\<close> took from the outbox, with whether writing them succeeded.\<close>

record ('b, 'h, 'k) link =
  lk_client :: "('b, 'h, 'k) client"
  lk_conn :: bool
  lk_taken :: "(SeqMessage \<times> bool) list"

text \<open>One turn of \<^verbatim>\<open>send\<close>, which waits (\<open>None\<close>) on an empty outbox and has ended when the connection is gone.\<close>

definition client_send :: "time \<Rightarrow> bool \<Rightarrow> ('b, 'h, 'k) link \<Rightarrow> ('b, 'h, 'k) link option" where
  "client_send now ok k =
     (case c_outbox (lk_client k) of
        [] \<Rightarrow> None
      | m # rest \<Rightarrow>
          if \<not> lk_conn k then None
          else
            Some (k\<lparr>lk_client := (lk_client k)\<lparr>c_outbox := rest\<rparr>, lk_conn := ok, lk_taken := lk_taken k @ [(m\<lparr>SendTime := Some now\<rparr>, ok)]\<rparr>))"

definition ioProcess :: "'b proto \<Rightarrow> bool \<Rightarrow> ('b, 'h, 'k) link \<Rightarrow> ('b, 'h, 'k) link option" where
  "ioProcess P dialled k =
     (if lk_conn k \<or> \<not> dialled then Some k
      else map_option (\<lambda>c. k\<lparr>lk_client := c, lk_conn := True\<rparr>) (sendRegistry P (lk_client k)))"

section \<open>The goroutines of a client\<close>

text \<open>
  \<open>Leaving\<close> is a request that has its result and still has to remove its listener. When the connection is lost
  \<^verbatim>\<open>ioProcess\<close> cancels the receiving goroutine, wherever it is, and starts another; \<open>epoch\<close> counts the connections.
\<close>

datatype 'b rq_state = Waiting | Leaving "'b option res" | Returned "'b option res"

record 'b rq =
  rq_seq :: "32 word"
  rq_to :: EndPoint
  rq_state :: "'b rq_state"

record ('b, 'h, 'k) net =
  cl :: "('b, 'h, 'k) client"
  rqs :: "nat \<rightharpoonup> 'b rq"
  arrived :: "SeqMessage list"
  pc :: "'b recv_pc"
  epoch :: nat

definition unlocked :: "('b, 'h, 'k) net \<Rightarrow> bool" where
  "unlocked s = (case pc s of Posting _ _ True \<Rightarrow> False | _ \<Rightarrow> True)"

definition set_queue :: "nat \<Rightarrow> 'b TMsg list \<Rightarrow> ('b, 'h, 'k) client \<Rightarrow> ('b, 'h, 'k) client" where
  "set_queue ch q c = c\<lparr>c_ports := (c_ports c)(ch := map_option (p_queue_update (\<lambda>_. q)) (c_ports c ch))\<rparr>"

inductive cstep :: "'b proto \<Rightarrow> ('b, 'h, 'k) net \<Rightarrow> ('b, 'h, 'k) net \<Rightarrow> bool" for P where
  arrive:
    "pc s = Recv_reading \<Longrightarrow> set ord = dom (c_listeners (cl s)) \<Longrightarrow> distinct ord \<Longrightarrow> client_handle P ord m (cl s) = (c', pc') \<Longrightarrow>
     cstep P s (s\<lparr>cl := c', pc := pc', arrived := m # arrived s\<rparr>)"
| post:
    "pc s = Posting tm (ch # chs) lk \<Longrightarrow> c_ports (cl s) ch = Some p \<Longrightarrow> length (p_queue p) < p_cap p \<Longrightarrow>
     cstep P s (s\<lparr>cl := set_queue ch (p_queue p @ [tm]) (cl s), pc := Posting tm chs lk\<rparr>)"
| posted:
    "pc s = Posting tm [] lk \<Longrightarrow> cstep P s (s\<lparr>pc := Recv_reading\<rparr>)"
| reconnect:
    "cstep P s (s\<lparr>pc := Recv_reading, epoch := epoch s + 1\<rparr>)"
| take_msg:
    "rqs s ch = None \<Longrightarrow> c_ports (cl s) ch = Some p \<Longrightarrow> p_queue p = tm # q \<Longrightarrow> cstep P s (s\<lparr>cl := set_queue ch q (cl s)\<rparr>)"
| listen:
    "unlocked s \<Longrightarrow> c_ports (cl s) ch = None \<Longrightarrow> Listen P ch l (cl s) = Some c' \<Longrightarrow> cstep P s (s\<lparr>cl := c'\<rparr>)"
| service_info:
    "unlocked s \<Longrightarrow> updateSI P sites (cl s) = Some c' \<Longrightarrow> cstep P s (s\<lparr>cl := c'\<rparr>)"
| send_notify:
    "unlocked s \<Longrightarrow> SendNotify m (User k) draws (cl s) = Some c' \<Longrightarrow> cstep P s (s\<lparr>cl := c'\<rparr>)"
| handler:
    "unlocked s \<Longrightarrow> cstep P s (s\<lparr>cl := RegisterHandler ty h (cl s)\<rparr>)"
| serial:
    "unlocked s \<Longrightarrow> cstep P s (s\<lparr>cl := snd (GenerateTSN now (cl s))\<rparr>)"
| request:
    "unlocked s \<Longrightarrow> c_ports (cl s) ch = None \<Longrightarrow> request_begin P ch ep t1 t2 draws b (cl s) = Inr (Some (i, c')) \<Longrightarrow>
     cstep P s (s\<lparr>cl := c', rqs := (rqs s)(ch \<mapsto> \<lparr>rq_seq = i, rq_to = ep, rq_state = Waiting\<rparr>)\<rparr>)"
| request_recv:
    "rqs s ch = Some rq \<Longrightarrow> rq_state rq = Waiting \<Longrightarrow> c_ports (cl s) ch = Some p \<Longrightarrow> p_queue p = tm # q \<Longrightarrow>
     cstep P s (s\<lparr>cl := set_queue ch q (cl s),
                  rqs := (rqs s)(ch \<mapsto> (if answers (rq_seq rq) tm then rq\<lparr>rq_state := Leaving (Inr (Body tm))\<rparr> else rq))\<rparr>)"
| request_failed:
    "rqs s ch = Some rq \<Longrightarrow> rq_state rq = Waiting \<Longrightarrow> (i, Request_failed ch, rpt) \<in> set (c_running (cl s)) \<Longrightarrow> rpt_Status rpt \<noteq> Report_SENT \<Longrightarrow>
     cstep P s (s\<lparr>rqs := (rqs s)(ch \<mapsto> rq\<lparr>rq_state := Leaving (Inl (Err ''Message failed sending''))\<rparr>)\<rparr>)"
| request_cancelled:
    "rqs s ch = Some rq \<Longrightarrow> rq_state rq = Waiting \<Longrightarrow>
     cstep P s (s\<lparr>rqs := (rqs s)(ch \<mapsto> rq\<lparr>rq_state := Leaving (Inl e)\<rparr>)\<rparr>)"
| request_returns:
    "unlocked s \<Longrightarrow> rqs s ch = Some rq \<Longrightarrow> rq_state rq = Leaving r \<Longrightarrow>
     cstep P s (s\<lparr>cl := request_end ch (cl s), rqs := (rqs s)(ch \<mapsto> rq\<lparr>rq_state := Returned r\<rparr>)\<rparr>)"
| serve:
    "c_serving (cl s) = before @ (h, tm) # after \<Longrightarrow> reply P resp tm ((cl s)\<lparr>c_serving := before @ after\<rparr>) = Some c' \<Longrightarrow>
     cstep P s (s\<lparr>cl := c'\<rparr>)"
| flush:
    "c_outbox (cl s) = m # rest \<Longrightarrow> cstep P s (s\<lparr>cl := (cl s)\<lparr>c_outbox := rest\<rparr>\<rparr>)"

definition start :: "32 word \<Rightarrow> 32 word \<Rightarrow> 32 word \<Rightarrow> ('b, 'h, 'k) net" where
  "start entry pid appid = \<lparr>cl = ConnectTsiClient entry pid appid, rqs = Map.empty, arrived = [], pc = Recv_reading, epoch = 0\<rparr>"

section \<open>Serial numbers are unique\<close>

lemma TSNs_after:
  assumes "c_lastTSN c = (s, k)" "sorted (s # clock)" "unat k + length clock < 2 ^ 32"
  shows "distinct (TSNs clock c) \<and> (\<forall>(s', k') \<in> set (TSNs clock c). s < s' \<or> s = s' \<and> unat k < unat k')"
  using assms
proof (induction clock arbitrary: c s k)
  case (Cons now clock)
  define j where "j = (if now = s then k + 1 else 1 :: 32 word)"
  have c': "GenerateTSN now c = ((now, j), c\<lparr>c_lastTSN := (now, j)\<rparr>)"
    using Cons.prems(1) by (simp add: GenerateTSN_def j_def Let_def)
  have k: "unat (k + 1) = unat k + 1"
    using Cons.prems(3) by (simp add: unat_plus_if' unat_1)
  have j: "unat j + length clock < 2 ^ 32" "s < now \<or> s = now \<and> unat k < unat j"
    using Cons.prems(2,3) k by (auto simp: j_def)
  have "distinct (TSNs clock (c\<lparr>c_lastTSN := (now, j)\<rparr>)) \<and>
      (\<forall>(s', k') \<in> set (TSNs clock (c\<lparr>c_lastTSN := (now, j)\<rparr>)). now < s' \<or> now = s' \<and> unat j < unat k')"
    using Cons.prems(2) j(1) by (intro Cons.IH) auto
  then show ?case using j(2) by (auto simp: c')
qed simp

text \<open>As long as the clock is not set back and fewer than 2^32 numbers are drawn, every serial number is new.\<close>

theorem tsn_unique:
  assumes "sorted (fst (c_lastTSN c) # clock)" "unat (snd (c_lastTSN c)) + length clock < 2 ^ 32"
  shows "distinct (c_lastTSN c # TSNs clock c)"
  using TSNs_after[of c "fst (c_lastTSN c)" "snd (c_lastTSN c)" clock] assms by auto

theorem tsn_unique_witness: "distinct (TSNs [7, 7, 8, 8] (ConnectTsiClient 0 4711 0x33 :: (unit, unit, unit) client))"
proof -
  have "c_lastTSN (ConnectTsiClient 0 4711 0x33 :: (unit, unit, unit) client) = (0, 0)"
    by (simp add: ConnectTsiClient_def internalListen_def add_entries_def Let_def)
  then show ?thesis
    using tsn_unique[of "ConnectTsiClient 0 4711 0x33 :: (unit, unit, unit) client" "[7, 7, 8, 8]"] by simp
qed

text \<open>When the clock is set back the counter starts again and numbers are given out twice.\<close>

theorem tsn_repeats:
  assumes "s \<noteq> s'" "fst (c_lastTSN c) \<noteq> s"
  shows "TSNs [s, s', s] c = [(s, 1), (s', 1), (s, 1)]"
  using assms by (simp add: GenerateTSN_def Let_def)

section \<open>Callbacks run once\<close>

definition ledger :: "('b, 'h, 'k) client \<Rightarrow> (32 word \<times> 'k notify_target) list \<times> (32 word \<times> 'k notify_target \<times> DeliveryReport) list \<times> (32 word \<rightharpoonup> 'k notify_target)" where
  "ledger c = (c_issued c, c_running c, c_notifyCallbacks c)"

definition settled :: "('b, 'h, 'k) client \<Rightarrow> bool" where
  "settled c \<longleftrightarrow>
     (\<forall>i k. count_list (c_issued c) (i, k) =
        count_list (map (\<lambda>(i, k, r). (i, k)) (c_running c)) (i, k) + (if c_notifyCallbacks c i = Some k then 1 else 0)) \<and>
     (\<forall>(i, k, r) \<in> set (c_running c). NotifyId r = i)"

lemma settled_ledger: "ledger c' = ledger c \<Longrightarrow> settled c' = settled c"
  by (simp add: ledger_def settled_def)

lemma ledger_Send: "Send m c = Some c' \<Longrightarrow> ledger c' = ledger c"
  by (auto simp: Send_def ledger_def split: if_splits)

lemma ledger_sendRegistry: "sendRegistry P c = Some c' \<Longrightarrow> ledger c' = ledger c"
  by (auto simp: sendRegistry_def Let_def ledger_def dest!: ledger_Send)

lemma ledger_Listen: "Listen P ch l c = Some c' \<Longrightarrow> ledger c' = ledger c"
  by (auto simp: Listen_def ledger_def add_entries_def internalListen_def dest!: ledger_sendRegistry)

lemma ledger_add_sites: "ledger (fold add_site sites c) = ledger c"
  by (induction sites arbitrary: c) (simp_all add: add_site_def ledger_def Let_def)

lemma ledger_updateSI: "updateSI P sites c = Some c' \<Longrightarrow> ledger c' = ledger c"
  using ledger_add_sites[of sites "c\<lparr>c_si := Some sites\<rparr>"]
  by (auto simp: updateSI_def Let_def add_entries_def ledger_def split: if_splits dest!: ledger_sendRegistry)

lemma ledger_reply: "reply P resp tm c = Some c' \<Longrightarrow> ledger c' = ledger c"
  by (auto simp: reply_def dest: ledger_Send split: option.splits sum.splits)

lemma ledger_fields [simp]:
  "ledger (set_queue ch q c) = ledger c" "ledger (request_end ch c) = ledger c" "ledger (RegisterHandler ty h c) = ledger c"
  "ledger (snd (GenerateTSN now c)) = ledger c" "ledger (c\<lparr>c_serving := sv\<rparr>) = ledger c" "ledger (c\<lparr>c_outbox := ob\<rparr>) = ledger c"
  "ledger (c\<lparr>c_cmdSeq := n\<rparr>) = ledger c" "ledger (c\<lparr>c_listeners := ls\<rparr>) = ledger c" "ledger (c\<lparr>c_ports := ps\<rparr>) = ledger c"
  by (simp_all add: set_queue_def request_end_def RegisterHandler_def GenerateTSN_def Let_def ledger_def)

lemma NotifyID_fresh:
  "NotifyID k draws c = Some (i, c') \<Longrightarrow>
     i \<in> set draws \<and> c_notifyCallbacks c i = None \<and>
     c' = c\<lparr>c_notifyCallbacks := (c_notifyCallbacks c)(i \<mapsto> k), c_issued := c_issued c @ [(i, k)]\<rparr>"
  by (induction k draws c rule: NotifyID.induct) (auto split: option.splits)

lemma settled_NotifyID:
  assumes "NotifyID k draws c = Some (i, c')" "settled c"
  shows "settled c'"
proof -
  let ?run = "\<lambda>i k. count_list (map (\<lambda>(i, k, r). (i, k)) (c_running c)) (i, k)"
  have n: "count_list (c_issued c) (i', k') = ?run i' k' + (if c_notifyCallbacks c i' = Some k' then 1 else 0)" for i' k'
    using assms(2) by (simp add: settled_def)
  have free: "c_notifyCallbacks c i = None" and c': "c' = c\<lparr>c_notifyCallbacks := (c_notifyCallbacks c)(i \<mapsto> k), c_issued := c_issued c @ [(i, k)]\<rparr>"
    using NotifyID_fresh[OF assms(1)] by auto
  show ?thesis using assms(2) free n by (auto simp: c' settled_def simp del: if_split_asm)
qed

lemma settled_SendNotify: "SendNotify m k draws c = Some c' \<Longrightarrow> settled c \<Longrightarrow> settled c'"
  by (auto simp: SendNotify_def bind_eq_Some_conv dest!: settled_NotifyID ledger_Send settled_ledger)

lemma settled_request: "request_begin P ch ep t1 t2 draws b c = Inr (Some (i, c')) \<Longrightarrow> settled c \<Longrightarrow> settled c'"
proof -
  assume "request_begin P ch ep t1 t2 draws b c = Inr (Some (i, c'))" "settled c"
  moreover have "settled (c\<lparr>c_cmdSeq := n, c_listeners := ls, c_ports := ps\<rparr>) = settled c" for n ls ps
    by (rule settled_ledger) (simp add: ledger_def)
  ultimately show ?thesis
    by (auto simp: request_begin_def rbind_eq_Inr Let_def dest: settled_SendNotify)
qed

lemma settled_report: "settled c \<Longrightarrow> settled (handle_report rpt c)"
  by (auto simp: handle_report_def settled_def split: option.splits)

lemma settled_handle: "client_handle P ord m c = (c', pc') \<Longrightarrow> settled c \<Longrightarrow> settled c'"
  by (auto simp: client_handle_def Let_def settled_report settled_ledger[OF ledger_fields(5)] split: if_splits sum.splits option.splits)

lemma settled_cstep: "cstep P s s' \<Longrightarrow> settled (cl s) \<Longrightarrow> settled (cl s')"
  by (induction rule: cstep.induct)
    (auto dest: settled_handle settled_SendNotify settled_request ledger_Listen[THEN settled_ledger]
        ledger_updateSI[THEN settled_ledger] ledger_reply[THEN settled_ledger] simp: settled_ledger[OF ledger_fields(1)]
        settled_ledger[OF ledger_fields(2)] settled_ledger[OF ledger_fields(3)] settled_ledger[OF ledger_fields(4)]
        settled_ledger[OF ledger_fields(5)] settled_ledger[OF ledger_fields(6)])

text \<open>C21. 
  In every interleaving each callback handed to the client is either waiting for its report or has been started exactly once,
  with a report about its own identifier, however often an identifier has been given out again.
\<close>

theorem callback_runs_once:
  assumes "(cstep P)\<^sup>*\<^sup>* (start entry pid appid) s"
  shows "count_list (c_issued (cl s)) (i, k) =
      count_list (map (\<lambda>(i, k, r). (i, k)) (c_running (cl s))) (i, k) + (if c_notifyCallbacks (cl s) i = Some k then 1 else 0) \<and>
    (\<forall>r. (i, k, r) \<in> set (c_running (cl s)) \<longrightarrow> NotifyId r = i)"
proof -
  have "settled (cl (start entry pid appid))"
    by (simp add: start_def ConnectTsiClient_def settled_def internalListen_def add_entries_def Let_def)
  with assms have "settled (cl s)"
    by (induction rule: rtranclp_induct) (auto intro: settled_cstep)
  then show ?thesis by (auto simp: settled_def)
qed

text \<open>An identifier is found as soon as a drawn number is free.\<close>

lemma NotifyID_returns: "i \<in> set draws \<Longrightarrow> c_notifyCallbacks c i = None \<Longrightarrow> \<exists>j c'. NotifyID k draws c = Some (j, c')"
  by (induction k draws c rule: NotifyID.induct) (auto split: option.splits)

section \<open>A request returns its own reply\<close>

definition wiring :: "('b, 'h, 'k) client \<Rightarrow> (nat \<rightharpoonup> Listener) \<times> (nat \<rightharpoonup> 'b port)" where
  "wiring c = (c_listeners c, c_ports c)"

lemma wiring_iff: "wiring c' = wiring c \<longleftrightarrow> c_listeners c' = c_listeners c \<and> c_ports c' = c_ports c"
  by (simp add: wiring_def)

lemma wiring_Send: "Send m c = Some c' \<Longrightarrow> wiring c' = wiring c"
  by (auto simp: Send_def wiring_def split: if_splits)

lemma wiring_sendRegistry: "sendRegistry P c = Some c' \<Longrightarrow> wiring c' = wiring c"
  by (auto simp: sendRegistry_def Let_def wiring_def dest!: wiring_Send)

lemma wiring_Listen: "Listen P ch l c = Some c' \<Longrightarrow> wiring c' = wiring (internalListen ch l c)"
  by (auto simp: Listen_def wiring_def add_entries_def dest!: wiring_sendRegistry)

lemma wiring_add_sites: "wiring (fold add_site sites c) = wiring c"
  by (induction sites arbitrary: c) (simp_all add: add_site_def wiring_def Let_def)

lemma wiring_updateSI: "updateSI P sites c = Some c' \<Longrightarrow> wiring c' = wiring c"
  using wiring_add_sites[of sites "c\<lparr>c_si := Some sites\<rparr>"]
  by (auto simp: updateSI_def Let_def add_entries_def wiring_def split: if_splits dest!: wiring_sendRegistry)

lemma wiring_reply: "reply P resp tm c = Some c' \<Longrightarrow> wiring c' = wiring c"
  by (auto simp: reply_def dest: wiring_Send split: option.splits sum.splits)

lemma wiring_SendNotify: "SendNotify m k draws c = Some c' \<Longrightarrow> wiring c' = wiring c"
  by (auto simp: SendNotify_def bind_eq_Some_conv wiring_def dest!: NotifyID_fresh wiring_Send)

lemma wiring_handle: "client_handle P ord m c = (c', pc') \<Longrightarrow> wiring c' = wiring c"
  by (auto simp: client_handle_def Let_def wiring_def handle_report_def split: if_splits sum.splits option.splits)

lemma wiring_request:
  assumes "request_begin P ch ep t1 t2 draws b c = Inr (Some (i, c'))"
  shows "c_listeners c' = (c_listeners c)(ch \<mapsto> \<lparr>ls_Source = Some ep, ls_Destination = None, ls_MessageType = ''''\<rparr>) \<and>
    c_ports c' = (c_ports c)(ch \<mapsto> \<lparr>p_queue = [], p_cap = request_cap\<rparr>)"
  using assms by (auto simp: request_begin_def rbind_eq_Inr Let_def wiring_iff dest!: wiring_SendNotify)

lemma wiring_fields [simp]:
  "c_listeners (set_queue ch q c) = c_listeners c" "c_ports (request_end ch c) = c_ports c"
  "wiring (RegisterHandler ty h c) = wiring c" "wiring (snd (GenerateTSN now c)) = wiring c"
  by (simp_all add: set_queue_def request_end_def RegisterHandler_def GenerateTSN_def Let_def wiring_def)

text \<open>A message for a request has arrived, came from the end point of the request and has the unpacked body.\<close>

definition meant :: "'b proto \<Rightarrow> SeqMessage list \<Rightarrow> 'b rq \<Rightarrow> 'b TMsg \<Rightarrow> bool" where
  "meant P ms rq tm \<longleftrightarrow>
     tsi tm \<in> set ms \<and> Unpack (pb_registered P) (tm_Body (tsi tm)) = Inr (Body tm) \<and>
     (\<exists>lcl. MatchesEP (Some (rq_to rq)) (tm_Source (tsi tm)) lcl)"

lemma meant_more: "meant P ms rq tm \<Longrightarrow> meant P (m # ms) rq tm"
  by (auto simp: meant_def)

lemma meant_state [simp]: "meant P ms (rq\<lparr>rq_state := st\<rparr>) tm = meant P ms rq tm"
  by (simp add: meant_def)

fun result_of :: "'b rq_state \<Rightarrow> 'b option res option" where
  "result_of Waiting = None"
| "result_of (Leaving r) = Some r"
| "result_of (Returned r) = Some r"

text \<open>The invariant, over the parts of the state: listeners \<open>L\<close>, ports \<open>Q\<close>, requests \<open>R\<close>, arrived messages \<open>ms\<close>.\<close>

definition known :: "(nat \<rightharpoonup> Listener) \<Rightarrow> (nat \<rightharpoonup> 'b port) \<Rightarrow> (nat \<rightharpoonup> 'b rq) \<Rightarrow> bool" where
  "known L Q R \<longleftrightarrow> (\<forall>ch. Q ch = None \<longrightarrow> L ch = None \<and> R ch = None)"

definition heard :: "(nat \<rightharpoonup> Listener) \<Rightarrow> (nat \<rightharpoonup> 'b rq) \<Rightarrow> bool" where
  "heard L R \<longleftrightarrow> (\<forall>ch rq l. R ch = Some rq \<longrightarrow> L ch = Some l \<longrightarrow> ls_Source l = Some (rq_to rq))"

definition queued :: "'b proto \<Rightarrow> SeqMessage list \<Rightarrow> (nat \<rightharpoonup> 'b port) \<Rightarrow> (nat \<rightharpoonup> 'b rq) \<Rightarrow> bool" where
  "queued P ms Q R \<longleftrightarrow> (\<forall>ch rq p. R ch = Some rq \<longrightarrow> Q ch = Some p \<longrightarrow> (\<forall>tm \<in> set (p_queue p). meant P ms rq tm))"

fun posting :: "'b proto \<Rightarrow> SeqMessage list \<Rightarrow> (nat \<rightharpoonup> 'b port) \<Rightarrow> (nat \<rightharpoonup> 'b rq) \<Rightarrow> 'b recv_pc \<Rightarrow> bool" where
  "posting P ms Q R Recv_reading = True"
| "posting P ms Q R (Posting tm chs lk) =
     (\<forall>ch \<in> set chs. Q ch \<noteq> None \<and> (\<forall>rq. R ch = Some rq \<longrightarrow> meant P ms rq tm))"

definition answered :: "'b proto \<Rightarrow> SeqMessage list \<Rightarrow> (nat \<rightharpoonup> 'b rq) \<Rightarrow> bool" where
  "answered P ms R \<longleftrightarrow>
     (\<forall>ch rq b. R ch = Some rq \<longrightarrow> result_of (rq_state rq) = Some (Inr b) \<longrightarrow>
        (\<exists>tm. meant P ms rq tm \<and> answers (rq_seq rq) tm \<and> Body tm = b))"

definition calls_ok :: "'b proto \<Rightarrow> SeqMessage list \<Rightarrow> (nat \<rightharpoonup> Listener) \<Rightarrow> (nat \<rightharpoonup> 'b port) \<Rightarrow> (nat \<rightharpoonup> 'b rq) \<Rightarrow> 'b recv_pc \<Rightarrow> bool" where
  "calls_ok P ms L Q R w \<longleftrightarrow> known L Q R \<and> heard L R \<and> queued P ms Q R \<and> posting P ms Q R w \<and> answered P ms R"

definition net_ok :: "'b proto \<Rightarrow> ('b, 'h, 'k) net \<Rightarrow> bool" where
  "net_ok P s = calls_ok P (arrived s) (c_listeners (cl s)) (c_ports (cl s)) (rqs s) (pc s)"

lemma posted_known: "posting P ms Q R (Posting tm chs lk) \<Longrightarrow> Q ch = None \<Longrightarrow> ch \<notin> set chs"
  by auto

lemma net_ok_same: "net_ok P s \<Longrightarrow> wiring c' = wiring (cl s) \<Longrightarrow> net_ok P (s\<lparr>cl := c'\<rparr>)"
  by (simp add: net_ok_def wiring_iff)

lemma calls_ok_more: "calls_ok P ms L Q R Recv_reading \<Longrightarrow> calls_ok P (m # ms) L Q R Recv_reading"
  unfolding calls_ok_def queued_def answered_def by (auto intro: meant_more) (metis meant_more)

lemma handle_posts:
  assumes "client_handle P ord m c = (c', Posting tm chs lk)"
  shows "tsi tm = m \<and> Unpack (pb_registered P) (tm_Body m) = Inr (Body tm) \<and> chs = listening_chans m ord c"
  using assms by (auto simp: client_handle_def Let_def split: if_splits sum.splits)

lemma listening_source:
  "ch \<in> set (listening_chans m ord c) \<Longrightarrow>
     ch \<in> set ord \<and> (\<exists>l. c_listeners c ch = Some l \<and> MatchesEP (ls_Source l) (tm_Source m) (c_site c))"
  by (auto simp: listening_chans_def Matches_def TsiMessage.truncate_def split: option.splits if_splits)

lemma net_ok_arrive:
  assumes "net_ok P s" "pc s = Recv_reading" "client_handle P ord m (cl s) = (c', pc')"
  shows "net_ok P (s\<lparr>cl := c', pc := pc', arrived := m # arrived s\<rparr>)"
proof -
  let ?L = "c_listeners (cl s)" and ?Q = "c_ports (cl s)" and ?R = "rqs s" and ?ms = "m # arrived s"
  have ok: "calls_ok P ?ms ?L ?Q ?R Recv_reading"
    using assms(1,2) by (auto simp: net_ok_def intro: calls_ok_more)
  have "posting P ?ms ?Q ?R pc'"
  proof (cases pc')
    case (Posting tm chs lk)
    have "?Q ch \<noteq> None \<and> (\<forall>rq. ?R ch = Some rq \<longrightarrow> meant P ?ms rq tm)" if c: "ch \<in> set chs" for ch
    proof -
      obtain l where l: "?L ch = Some l" "MatchesEP (ls_Source l) (tm_Source m) (c_site (cl s))"
        using handle_posts[OF assms(3)[unfolded Posting]] listening_source c by blast
      then show ?thesis
        using ok handle_posts[OF assms(3)[unfolded Posting]] by (fastforce simp: calls_ok_def known_def heard_def meant_def)
    qed
    then show ?thesis by (simp add: Posting)
  qed simp
  then show ?thesis
    using ok wiring_handle[OF assms(3)] by (simp add: net_ok_def wiring_iff calls_ok_def)
qed
lemma net_ok_post:
  assumes "net_ok P s" "pc s = Posting tm (ch # chs) lk" "c_ports (cl s) ch = Some p"
  shows "net_ok P (s\<lparr>cl := set_queue ch (p_queue p @ [tm]) (cl s), pc := Posting tm chs lk\<rparr>)"
  using assms by (auto simp: net_ok_def calls_ok_def known_def queued_def set_queue_def split: if_splits)

lemma net_ok_dequeue:
  assumes "net_ok P s" "c_ports (cl s) ch = Some p" "p_queue p = tm # q"
  shows "net_ok P (s\<lparr>cl := set_queue ch q (cl s)\<rparr>)"
proof -
  have "posting P (arrived s) ((c_ports (cl s))(ch \<mapsto> p\<lparr>p_queue := q\<rparr>)) (rqs s) (pc s)"
    using assms(1) by (cases "pc s") (auto simp: net_ok_def calls_ok_def)
  then show ?thesis
    using assms by (auto simp: net_ok_def calls_ok_def known_def queued_def set_queue_def)
qed

lemma net_ok_listen:
  assumes "net_ok P s" "c_ports (cl s) ch = None"
    "c_listeners c' = (c_listeners (cl s))(ch \<mapsto> l)" "c_ports c' = (c_ports (cl s))(ch \<mapsto> \<lparr>p_queue = [], p_cap = n\<rparr>)"
  shows "net_ok P (s\<lparr>cl := c'\<rparr>)"
proof -
  have "posting P (arrived s) (c_ports c') (rqs s) (pc s)"
    using assms(1,4) by (cases "pc s") (auto simp: net_ok_def calls_ok_def)
  moreover have "known (c_listeners c') (c_ports c') (rqs s)" "heard (c_listeners c') (rqs s)" "queued P (arrived s) (c_ports c') (rqs s)"
    using assms by (auto simp: net_ok_def calls_ok_def known_def heard_def queued_def)
  ultimately show ?thesis
    using assms(1) by (simp add: net_ok_def calls_ok_def)
qed

lemma net_ok_request:
  assumes "net_ok P s" "c_ports (cl s) ch = None" "request_begin P ch ep t1 t2 draws b (cl s) = Inr (Some (i, c'))"
  shows "net_ok P (s\<lparr>cl := c', rqs := (rqs s)(ch \<mapsto> \<lparr>rq_seq = i, rq_to = ep, rq_state = Waiting\<rparr>)\<rparr>)"
proof -
  note w = wiring_request[OF assms(3)]
  let ?R = "(rqs s)(ch \<mapsto> \<lparr>rq_seq = i, rq_to = ep, rq_state = Waiting\<rparr>)"
  have "posting P (arrived s) (c_ports c') ?R (pc s)"
    using assms(1,2) w by (cases "pc s") (auto simp: net_ok_def calls_ok_def)
  moreover have "known (c_listeners c') (c_ports c') ?R" "heard (c_listeners c') ?R" "queued P (arrived s) (c_ports c') ?R"
    using assms(1,2) w by (auto simp: net_ok_def calls_ok_def known_def heard_def queued_def)
  moreover have "answered P (arrived s) ?R"
    using assms(1) by (auto simp: net_ok_def calls_ok_def answered_def)
  ultimately show ?thesis by (simp add: net_ok_def calls_ok_def)
qed

lemma net_ok_state:
  assumes "net_ok P s" "rqs s ch = Some rq"
    "\<And>b. result_of st = Some (Inr b) \<Longrightarrow> \<exists>tm. meant P (arrived s) rq tm \<and> answers (rq_seq rq) tm \<and> Body tm = b"
  shows "net_ok P (s\<lparr>rqs := (rqs s)(ch \<mapsto> rq\<lparr>rq_state := st\<rparr>)\<rparr>)"
proof -
  let ?R = "(rqs s)(ch \<mapsto> rq\<lparr>rq_state := st\<rparr>)"
  have "posting P (arrived s) (c_ports (cl s)) ?R (pc s)"
    using assms(1,2) by (cases "pc s") (auto simp: net_ok_def calls_ok_def)
  moreover have "known (c_listeners (cl s)) (c_ports (cl s)) ?R" "heard (c_listeners (cl s)) ?R" "queued P (arrived s) (c_ports (cl s)) ?R"
    using assms(1,2) by (auto simp: net_ok_def calls_ok_def known_def heard_def queued_def)
  moreover have "answered P (arrived s) ?R"
    using assms by (auto simp: net_ok_def calls_ok_def answered_def)
  ultimately show ?thesis by (simp add: net_ok_def calls_ok_def)
qed

lemma net_ok_recv:
  assumes "net_ok P s" "rqs s ch = Some rq" "rq_state rq = Waiting" "c_ports (cl s) ch = Some p" "p_queue p = tm # q"
  shows "net_ok P (s\<lparr>cl := set_queue ch q (cl s),
    rqs := (rqs s)(ch \<mapsto> (if answers (rq_seq rq) tm then rq\<lparr>rq_state := Leaving (Inr (Body tm))\<rparr> else rq))\<rparr>)"
proof (cases "answers (rq_seq rq) tm")
  case True
  have "meant P (arrived s) rq tm"
    using assms by (auto simp: net_ok_def calls_ok_def queued_def)
  with True have "net_ok P ((s\<lparr>cl := set_queue ch q (cl s)\<rparr>)\<lparr>rqs := (rqs s)(ch \<mapsto> rq\<lparr>rq_state := Leaving (Inr (Body tm))\<rparr>)\<rparr>)"
    using net_ok_state[of P "s\<lparr>cl := set_queue ch q (cl s)\<rparr>" ch rq "Leaving (Inr (Body tm))"] net_ok_dequeue[OF assms(1,4,5)] assms(2) by auto
  with True show ?thesis by simp
next
  case False
  then show ?thesis
    using net_ok_dequeue[OF assms(1,4,5)] assms(2) by (simp add: map_upd_triv)
qed

lemma net_ok_end:
  assumes "net_ok P s"
  shows "net_ok P (s\<lparr>cl := request_end ch (cl s)\<rparr>)"
  using assms by (auto simp: net_ok_def calls_ok_def known_def heard_def request_end_def)

lemma net_ok_returns:
  assumes "net_ok P s" "rqs s ch = Some rq" "rq_state rq = Leaving r"
  shows "net_ok P (s\<lparr>cl := request_end ch (cl s), rqs := (rqs s)(ch \<mapsto> rq\<lparr>rq_state := Returned r\<rparr>)\<rparr>)"
proof -
  have "\<exists>tm. meant P (arrived s) rq tm \<and> answers (rq_seq rq) tm \<and> Body tm = b" if "r = Inr b" for b
    using assms that by (auto simp: net_ok_def calls_ok_def answered_def)
  then show ?thesis
    using net_ok_state[of P "s\<lparr>cl := request_end ch (cl s)\<rparr>" ch rq "Returned r"] net_ok_end[OF assms(1)] assms(2) by simp
qed

lemma net_ok_read:
  assumes "net_ok P s"
  shows "net_ok P (s\<lparr>pc := Recv_reading, epoch := n\<rparr>)" "net_ok P (s\<lparr>pc := Recv_reading\<rparr>)"
  using assms by (auto simp: net_ok_def calls_ok_def)

lemma net_ok_cstep:
  assumes "cstep P s s'" "net_ok P s"
  shows "net_ok P s'"
  using assms
proof (induction rule: cstep.induct)
  case (listen s ch l c')
  then have "c_listeners c' = (c_listeners (cl s))(ch \<mapsto> l)" "c_ports c' = (c_ports (cl s))(ch \<mapsto> \<lparr>p_queue = [], p_cap = listen_cap\<rparr>)"
    using wiring_Listen[OF listen.hyps(3)] by (auto simp: wiring_def internalListen_def)
  with listen show ?case by (blast intro: net_ok_listen)
next
  case (request_recv s ch rq p tm q)
  then show ?case by (intro net_ok_recv)
next
  case (serve s before h tm after resp c')
  then show ?case using wiring_reply[OF serve.hyps(2)] by (intro net_ok_same) (simp_all add: wiring_def)
next
  case (flush s m rest)
  then show ?case by (intro net_ok_same) (simp_all add: wiring_def)
qed (auto intro: net_ok_arrive net_ok_post net_ok_read net_ok_dequeue net_ok_request net_ok_recv net_ok_state net_ok_returns
    net_ok_same wiring_updateSI wiring_SendNotify)

lemma net_ok_start: "net_ok P (start entry pid appid)"
  by (auto simp: net_ok_def calls_ok_def start_def ConnectTsiClient_def internalListen_def add_entries_def Let_def
      known_def heard_def queued_def answered_def)

lemma net_ok_reachable: "(cstep P)\<^sup>*\<^sup>* (start entry pid appid) s \<Longrightarrow> net_ok P s"
  by (induction rule: rtranclp_induct) (auto intro: net_ok_start net_ok_cstep)

text \<open>C5. 
  In every interleaving of messages, requests and other calls, a request that returns a message returns the unpacked body of a
  reply that has arrived, from the end point it was sent to and with the sequence number of this request.
\<close>

theorem request_returns_own_reply:
  assumes "(cstep P)\<^sup>*\<^sup>* (start entry pid appid) s" "rqs s ch = Some rq" "rq_state rq = Returned (Inr b)"
  shows "\<exists>m \<in> set (arrived s). tm_Status m = TsiMessage_REPLY \<and> CommandSequence m = Some (rq_seq rq) \<and>
     (\<exists>lcl. MatchesEP (Some (rq_to rq)) (tm_Source m) lcl) \<and> Unpack (pb_registered P) (tm_Body m) = Inr b"
proof -
  have "answered P (arrived s) (rqs s)"
    using net_ok_reachable[OF assms(1)] by (simp add: net_ok_def calls_ok_def)
  then obtain tm where "meant P (arrived s) rq tm" "answers (rq_seq rq) tm" "Body tm = b"
    using assms(2,3) by (fastforce simp: answered_def)
  then show ?thesis by (auto simp: meant_def answers_def)
qed
section \<open>Where the receiver waits forever\<close>

text \<open>The receiver waits for a port that nobody empties any more: its request has returned.\<close>

definition abandoned :: "nat \<Rightarrow> ('b, 'h, 'k) net \<Rightarrow> bool" where
  "abandoned ch s \<longleftrightarrow>
     (\<exists>tm chs lk. pc s = Posting tm (ch # chs) lk) \<and> (\<exists>p. c_ports (cl s) ch = Some p \<and> p_cap p \<le> length (p_queue p)) \<and>
     (\<exists>rq r. rqs s ch = Some rq \<and> rq_state rq = Returned r)"

lemma abandoned_same:
  assumes "abandoned ch s" "c_ports (cl s') ch = c_ports (cl s) ch" "rqs s' ch = rqs s ch" "pc s' = pc s"
  shows "abandoned ch s'"
  using assms by (simp add: abandoned_def)

lemma set_queue_other: "ch' \<noteq> ch \<Longrightarrow> c_ports (set_queue ch' q c) ch = c_ports c ch"
  by (simp add: set_queue_def)

lemma cstep_epoch: "cstep P s s' \<Longrightarrow> epoch s \<le> epoch s'"
  by (induction rule: cstep.induct) simp_all

lemma abandoned_cstep:
  assumes "cstep P s s'" "abandoned ch s"
  shows "epoch s < epoch s' \<or> epoch s' = epoch s \<and> abandoned ch s' \<and> pc s' = pc s"
  using assms
proof (induction rule: cstep.induct)
  case (take_msg s ch' p tm q)
  then have "ch' \<noteq> ch" by (auto simp: abandoned_def)
  with take_msg show ?case by (auto intro: abandoned_same simp: set_queue_other)
next
  case (listen s ch' l c')
  then have "ch' \<noteq> ch" by (auto simp: abandoned_def)
  with listen wiring_Listen[OF listen.hyps(3)] show ?case
    by (auto intro!: abandoned_same[OF listen.prems] simp: wiring_def internalListen_def)
next
  case (request s ch' ep t1 t2 draws b i c')
  then have "ch' \<noteq> ch" by (auto simp: abandoned_def)
  with request wiring_request[OF request.hyps(3)] show ?case
    by (auto intro!: abandoned_same[OF request.prems])
next
  case (request_recv s ch' rq p tm q)
  then have "ch' \<noteq> ch" by (auto simp: abandoned_def)
  with request_recv show ?case by (auto intro!: abandoned_same[OF request_recv.prems] simp: set_queue_other)
next
  case (request_failed s ch' rq i rpt)
  then have "ch' \<noteq> ch" by (auto simp: abandoned_def)
  with request_failed show ?case by (auto intro!: abandoned_same[OF request_failed.prems])
next
  case (request_cancelled s ch' rq e)
  then have "ch' \<noteq> ch" by (auto simp: abandoned_def)
  with request_cancelled show ?case by (auto intro!: abandoned_same[OF request_cancelled.prems])
next
  case (request_returns s ch' rq r)
  then have "ch' \<noteq> ch" by (auto simp: abandoned_def)
  with request_returns show ?case by (auto intro!: abandoned_same[OF request_returns.prems])
next
  case (serve s before h tm after resp c')
  then show ?case using wiring_reply[OF serve.hyps(2)] by (auto intro!: abandoned_same[OF serve.prems] simp: wiring_def)
next
  case (service_info s sites c')
  then show ?case using wiring_updateSI[OF service_info.hyps(2)] by (auto intro!: abandoned_same[OF service_info.prems] simp: wiring_def)
next
  case (send_notify s m k draws c')
  then show ?case using wiring_SendNotify[OF send_notify.hyps(2)] by (auto intro!: abandoned_same[OF send_notify.prems] simp: wiring_def)
qed (auto simp: abandoned_def RegisterHandler_def GenerateTSN_def Let_def)

lemma abandoned_blocks:
  assumes "abandoned ch s" "(cstep P)\<^sup>*\<^sup>* s s'"
  shows "epoch s < epoch s' \<or> pc s' = pc s"
proof -
  from assms(2) have "epoch s < epoch s' \<or> epoch s' = epoch s \<and> abandoned ch s' \<and> pc s' = pc s"
  proof (induction rule: rtranclp_induct)
    case (step t u)
    then show ?case using abandoned_cstep[OF step.hyps(2)] cstep_epoch[OF step.hyps(2)] by fastforce
  qed (use assms(1) in simp)
  then show ?thesis by auto
qed
definition bare_msg :: "EndPoint \<Rightarrow> SeqMessage" where
  "bare_msg ep = (new_msg [] None)\<lparr>tm_Source := Some ep\<rparr>"

lemma handle_bare:
  assumes "c_listeners c = [0 \<mapsto> \<lparr>ls_Source = None, ls_Destination = None, ls_MessageType = t\<rparr>,
      1 \<mapsto> \<lparr>ls_Source = Some ep, ls_Destination = None, ls_MessageType = ''''\<rparr>]" "t \<noteq> ''''"
  shows "client_handle P [0, 1] (bare_msg ep) c = (c, Posting \<lparr>tsi = bare_msg ep, Body = None\<rparr> [1] False)"
  using assms
  by (simp add: client_handle_def bare_msg_def new_msg_def Unpack_def listening_chans_def Matches_def MatchesEP_def
      MessageType_def TsiMessage.truncate_def Let_def)

lemma abandoned_reachable:
  assumes "Pack P b = Inr body"
  shows "\<exists>s. (cstep P)\<^sup>*\<^sup>* (start entry pid appid :: ('b, 'h, 'k) net) s \<and> abandoned 1 s"
proof -
  define s0 :: "('b, 'h, 'k) net" where "s0 = start entry pid appid"
  define si where "si = \<lparr>ls_Source = None, ls_Destination = None, ls_MessageType = ''prisma.tms.routing.ServiceInfo''\<rparr>"
  define ep where "ep = \<lparr>Site = 5, Aid = 0, Eid = 0, Pid = 0\<rparr>"
  define tm where "tm = \<lparr>tsi = bare_msg ep, Body = None :: 'b option\<rparr>"
  have s0: "pc s0 = Recv_reading" "c_listeners (cl s0) = [0 \<mapsto> si]" "c_ports (cl s0) 1 = None" "unlocked s0"
    by (auto simp: s0_def start_def ConnectTsiClient_def internalListen_def add_entries_def Let_def si_def unlocked_def)
  obtain i c1 where c1: "request_begin P 1 ep 0 0 [9] b (cl s0) = Inr (Some (i, c1))"
    by (auto simp: request_begin_def assms SendNotify_def Send_def s0_def start_def ConnectTsiClient_def internalListen_def
        add_entries_def outbox_cap_def Let_def)
  define rq where "rq = \<lparr>rq_seq = i, rq_to = ep, rq_state = Waiting :: 'b rq_state\<rparr>"
  define s1 where "s1 = s0\<lparr>cl := c1, rqs := (rqs s0)(1 \<mapsto> rq)\<rparr>"
  define s2 where "s2 = s1\<lparr>cl := c1, pc := Posting tm [1] False, arrived := bare_msg ep # arrived s1\<rparr>"
  define s3 where "s3 = s2\<lparr>cl := set_queue 1 [tm] c1, pc := Posting tm [] False\<rparr>"
  define s4 where "s4 = s3\<lparr>pc := Recv_reading\<rparr>"
  define s5 where "s5 = s4\<lparr>cl := cl s4, pc := Posting tm [1] False, arrived := bare_msg ep # arrived s4\<rparr>"
  define s6 where "s6 = s5\<lparr>rqs := (rqs s5)(1 \<mapsto> rq\<lparr>rq_state := Leaving (Inl (Err ''cancelled''))\<rparr>)\<rparr>"
  define s7 where "s7 = s6\<lparr>cl := request_end 1 (cl s6),
    rqs := (rqs s6)(1 \<mapsto> rq\<lparr>rq_state := Returned (Inl (Err ''cancelled''))\<rparr>)\<rparr>"
  note defs = s1_def s2_def s3_def s4_def s5_def s6_def s7_def
  have w: "c_listeners c1 = [0 \<mapsto> si, 1 \<mapsto> \<lparr>ls_Source = Some ep, ls_Destination = None, ls_MessageType = ''''\<rparr>]"
      "c_ports c1 1 = Some \<lparr>p_queue = [], p_cap = 1\<rparr>"
    using wiring_request[OF c1] s0(2) by (simp_all add: request_cap_def)
  have h: "client_handle P [0, 1] (bare_msg ep) c = (c, Posting tm [1] False)" if "c_listeners c = c_listeners c1" for c :: "('b, 'h, 'k) client"
    using handle_bare[of c "''prisma.tms.routing.ServiceInfo''" ep P] that w(1) by (simp add: tm_def si_def)
  have "cstep P s0 s1" unfolding s1_def rq_def using s0 c1 by (intro cstep.request)
  moreover have "cstep P s1 s2"
    using cstep.arrive[of s1 "[0, 1]" P "bare_msg ep" c1 "Posting tm [1] False"] s0(1) w(1) h[of c1] by (simp add: defs insert_commute)
  moreover have "cstep P s2 s3"
    using cstep.post[of s2 tm 1 "[]" False "\<lparr>p_queue = [], p_cap = 1\<rparr>" P] w(2) by (simp add: defs)
  moreover have "cstep P s3 s4" unfolding s4_def by (rule cstep.posted[of _ tm False]) (simp add: defs)
  moreover have "cstep P s4 s5"
    using cstep.arrive[of s4 "[0, 1]" P "bare_msg ep" "cl s4" "Posting tm [1] False"] w(1) h[of "cl s4"] by (simp add: defs insert_commute)
  moreover have "cstep P s5 s6" unfolding s6_def by (rule cstep.request_cancelled) (simp_all add: defs rq_def)
  moreover have "cstep P s6 s7"
    using cstep.request_returns[of s6 1 "rq\<lparr>rq_state := Leaving (Inl (Err ''cancelled''))\<rparr>" "Inl (Err ''cancelled'')" P]
    by (simp add: defs unlocked_def)
  moreover have "abandoned 1 s7" using w(2) by (auto simp: abandoned_def defs set_queue_def)
  ultimately show ?thesis unfolding s0_def[symmetric] by (meson converse_rtranclp_into_rtranclp rtranclp.rtrancl_refl)
qed

text \<open>
  A request waits on a channel with room for one message. A freshly started client can get into a state in which the receiver
  waits to put a second message into the channel of a request that has returned; it stays there until the connection is lost,
  and no message reaches any listener of the process.
\<close>

theorem receiver_blocks:
  assumes "Pack P b = Inr body"
  shows "\<exists>s tm chs. (cstep P)\<^sup>*\<^sup>* (start entry pid appid :: ('b, 'h, 'k) net) s \<and>
    (\<forall>s'. (cstep P)\<^sup>*\<^sup>* s s' \<longrightarrow> epoch s < epoch s' \<or> pc s' = Posting tm (1 # chs) False \<or> pc s' = Posting tm (1 # chs) True)"
proof -
  obtain s :: "('b, 'h, 'k) net" where s: "(cstep P)\<^sup>*\<^sup>* (start entry pid appid) s" "abandoned 1 s"
    using abandoned_reachable[OF assms] by blast
  obtain tm chs lk where "pc s = Posting tm (1 # chs) lk"
    using s(2) by (auto simp: abandoned_def)
  then show ?thesis using s abandoned_blocks[OF s(2)] by (metis (full_types))
qed
theorem receiver_blocks_witness:
  "\<exists>s tm chs. (cstep \<lparr>pb_MessageName = \<lambda>_. ''m'', pb_Marshal = \<lambda>_. Inr [], pb_registered = \<lambda>_. Some (\<lambda>_. Inr ()), as_report = \<lambda>_. None,
      as_info = \<lambda>_. None, as_ping = \<lambda>_. None, registry_msg = \<lambda>_. ()\<rparr>)\<^sup>*\<^sup>* (start 0 4711 0x33 :: (unit, unit, unit) net) s \<and>
    (\<forall>s'. (cstep \<lparr>pb_MessageName = \<lambda>_. ''m'', pb_Marshal = \<lambda>_. Inr [], pb_registered = \<lambda>_. Some (\<lambda>_. Inr ()), as_report = \<lambda>_. None,
      as_info = \<lambda>_. None, as_ping = \<lambda>_. None, registry_msg = \<lambda>_. ()\<rparr>)\<^sup>*\<^sup>* s s' \<longrightarrow>
      epoch s < epoch s' \<or> pc s' = Posting tm (1 # chs) False \<or> pc s' = Posting tm (1 # chs) True)"
  by (rule receiver_blocks[where b = "()" and body = "\<lparr>TypeUrl = ''type.googleapis.com/m'', any_Value = []\<rparr>"]) (simp add: Pack_def PackFrom_def)

text \<open>
  A delivery report is handed to its listeners under the mutex: while one of their ports is full, no call that needs the mutex
  gets it, and the callbacks, listeners, handlers and the registry stay as they are.
\<close>

theorem report_holds_lock:
  assumes "cstep P s s'" "pc s = Posting tm (ch # chs) True" "c_ports (cl s) ch = Some p" "p_cap p \<le> length (p_queue p)"
  shows "epoch s < epoch s' \<or>
    pc s' = pc s \<and> ledger (cl s') = ledger (cl s) \<and> c_listeners (cl s') = c_listeners (cl s) \<and> c_registry (cl s') = c_registry (cl s) \<and>
    c_handlers (cl s') = c_handlers (cl s)"
  using assms
proof (induction rule: cstep.induct)
  case (serve s before h tm' after resp c')
  then show ?case
    by (auto simp: reply_def Send_def ledger_def split: option.splits sum.splits if_splits)
qed (auto simp: unlocked_def set_queue_def ledger_def)

section \<open>Requests between two clients\<close>

definition codec_ok :: "'b proto \<Rightarrow> 'b \<Rightarrow> bool" where
  "codec_ok P b \<longleftrightarrow>
     pb_MessageName P b \<noteq> '''' \<and> CHR ''/'' \<notin> set (pb_MessageName P b) \<and>
     (\<exists>bytes um. pb_Marshal P b = Inr bytes \<and> pb_registered P (pb_MessageName P b) = Some um \<and> um bytes = Inr b)"

lemma packed:
  assumes "codec_ok P b" "Pack P b = Inr a"
  shows "Unpack (pb_registered P) (Some a) = Inr (Some b) \<and> TrimPrefix (TypeUrl a) ''type.googleapis.com/'' = pb_MessageName P b"
  using assms after_slash_name[of "pb_MessageName P b"]
  by (auto simp: codec_ok_def Pack_def PackFrom_def Unpack_def TrimPrefix_def Let_def)

lemma packs: "codec_ok P b \<Longrightarrow> \<exists>a. Pack P b = Inr a"
  by (auto simp: codec_ok_def Pack_def PackFrom_def Let_def)

lemma request_sends:
  assumes "request_begin P ch ep t1 t2 draws b c = Inr (Some (i, c'))"
  shows "\<exists>body n. Pack P b = Inr body \<and> c_outbox c' = c_outbox c @ [(new_msg [Some ep] (Some body))
     \<lparr>tm_Source := Some (client_Local c), WriteTime := Some t1, RequestTime := Some t2, RealTime := True, tm_Status := TsiMessage_REQUEST,
      CommandSequence := Some i, NotifySent := n\<rparr>] \<and> c_site c' = c_site c"
  using assms
  by (auto simp: request_begin_def rbind_eq_Inr Let_def SendNotify_def bind_eq_Some_conv Send_def client_Local_def new_msg_def
      split: if_splits dest!: NotifyID_fresh)

lemma request_served:
  assumes "tm_Status m = TsiMessage_REQUEST" "tm_Body m = Some a" "Unpack (pb_registered P) (Some a) = Inr (Some b)"
    "TrimPrefix (TypeUrl a) ''type.googleapis.com/'' = ty" "c_handlers c ty = Some h"
  shows "\<exists>c' w. client_handle P ord m c = (c', w) \<and> c_serving c' = c_serving c @ [(h, \<lparr>tsi = m, Body = Some b\<rparr>)] \<and>
    c_outbox c' = c_outbox c \<and> client_Local c' = client_Local c"
  using assms
  by (auto simp: client_handle_def Let_def MessageType_def TsiMessage.truncate_def handle_report_def client_Local_def split: option.splits)

lemma reply_heard:
  assumes "tm_Status m = TsiMessage_REPLY" "Unpack (pb_registered P) (tm_Body m) = Inr body" "ch \<in> set ord" "c_listeners c ch = Some l"
    "Matches l (TsiMessage.truncate m) (c_site c)"
  shows "\<exists>c' chs lk. client_handle P ord m c = (c', Posting \<lparr>tsi = m, Body = body\<rparr> chs lk) \<and> ch \<in> set chs"
  using assms by (auto simp: client_handle_def Let_def listening_chans_def)

text \<open>C6. 
  A request of one client to an end point that another client is at: the message it queues makes that client start the handler
  registered for its type, what the handler returns goes back to the end point of the asking client, which its registry
  listens to at every site, and when it arrives the request returns it.
\<close>

theorem rpc_roundtrip:
  assumes request: "request_begin P ch ep t1 t2 draws b A = Inr (Some (i, A'))"
    and handler: "c_handlers B (pb_MessageName P b) = Some h"
    and codec: "codec_ok P b" "codec_ok P resp"
    and there: "MatchesEP (Some ep) (Some (client_Local B)) (c_site A)"
    and room: "length (c_outbox B) < outbox_cap"
    and ord: "set ord = dom (c_listeners A')"
  shows "\<exists>B1 w B2 rep A1 chs lk.
     client_handle P ordB (last (c_outbox A')) B = (B1, w) \<and>
     last (c_serving B1) = (h, \<lparr>tsi = last (c_outbox A'), Body = Some b\<rparr>) \<and>
     reply P (Some resp) \<lparr>tsi = last (c_outbox A'), Body = Some b\<rparr> (B1\<lparr>c_serving := butlast (c_serving B1)\<rparr>) = Some B2 \<and>
     c_outbox B2 = c_outbox B @ [rep] \<and>
     Matches \<lparr>ls_Source = None, ls_Destination = Some (client_Local A), ls_MessageType = ''''\<rparr> (TsiMessage.truncate rep) lcl \<and>
     client_handle P ord rep A' = (A1, Posting \<lparr>tsi = rep, Body = Some resp\<rparr> chs lk) \<and> ch \<in> set chs \<and>
     request_wait i [Rq_msg \<lparr>tsi = rep, Body = Some resp\<rparr>] = Some (Inr (Some resp))"
proof -
  obtain body n where body: "Pack P b = Inr body" and site: "c_site A' = c_site A"
    and out: "last (c_outbox A') = (new_msg [Some ep] (Some body))\<lparr>tm_Source := Some (client_Local A), WriteTime := Some t1,
       RequestTime := Some t2, RealTime := True, tm_Status := TsiMessage_REQUEST, CommandSequence := Some i, NotifySent := n\<rparr>"
    using request_sends[OF request] by auto
  let ?req = "last (c_outbox A')"
  obtain B1 w where B1: "client_handle P ordB ?req B = (B1, w)" "c_serving B1 = c_serving B @ [(h, \<lparr>tsi = ?req, Body = Some b\<rparr>)]"
      "c_outbox B1 = c_outbox B" "client_Local B1 = client_Local B"
    using request_served[of ?req body P b "pb_MessageName P b" B h ordB] packed[OF codec(1) body] handler
    by (auto simp: out new_msg_def)
  obtain a where a: "Pack P resp = Inr a" using packs[OF codec(2)] by blast
  define rep where "rep = (new_msg [Some (client_Local A)] (Some a))
    \<lparr>tm_Source := Some (client_Local B), tm_Status := TsiMessage_REPLY, CommandSequence := Some i\<rparr>"
  obtain B2 where B2: "reply P (Some resp) \<lparr>tsi = ?req, Body = Some b\<rparr> (B1\<lparr>c_serving := butlast (c_serving B1)\<rparr>) = Some B2"
      "c_outbox B2 = c_outbox B @ [rep]"
    using a room B1 by (simp add: reply_def Send_def out new_msg_def rep_def client_Local_def)
  have l: "c_listeners A' ch = Some \<lparr>ls_Source = Some ep, ls_Destination = None, ls_MessageType = ''''\<rparr>"
    using wiring_request[OF request] by simp
  have m: "Matches \<lparr>ls_Source = Some ep, ls_Destination = None, ls_MessageType = ''''\<rparr> (TsiMessage.truncate rep) (c_site A')"
    using there site by (simp add: Matches_def rep_def new_msg_def TsiMessage.truncate_def MatchesEP_def)
  obtain A1 chs lk where A1: "client_handle P ord rep A' = (A1, Posting \<lparr>tsi = rep, Body = Some resp\<rparr> chs lk)" "ch \<in> set chs"
    using reply_heard[OF _ _ _ l, of rep P "Some resp" ord] packed[OF codec(2) a] l m ord by (force simp: rep_def new_msg_def)
  have "request_wait i [Rq_msg \<lparr>tsi = rep, Body = Some resp\<rparr>] = Some (Inr (Some resp))"
    by (simp add: answers_def rep_def new_msg_def)
  moreover have "Matches \<lparr>ls_Source = None, ls_Destination = Some (client_Local A), ls_MessageType = ''''\<rparr> (TsiMessage.truncate rep) lcl"
    by (simp add: rep_def new_msg_def Matches_def MatchesEP_def TsiMessage.truncate_def)
  ultimately show ?thesis using B1 B2 A1 by auto
qed

text \<open>A protocol of messages that are their own bytes, for examples.\<close>

definition byte_proto :: "go_bytes proto" where
  "byte_proto = \<lparr>pb_MessageName = \<lambda>_. ''b'', pb_Marshal = Inr, pb_registered = \<lambda>_. Some Inr, as_report = \<lambda>_. None, as_info = \<lambda>_. None,
     as_ping = \<lambda>_. None, registry_msg = \<lambda>_. []\<rparr>"

theorem rpc_roundtrip_witness:
  "\<exists>A' rep A1 chs lk. request_begin byte_proto 1 \<lparr>Site = 1, Aid = 0x33, Eid = 0, Pid = 0\<rparr> 0 0 [9] [1]
       (ConnectTsiClient 0 4711 0x34 :: (go_bytes, unit, unit) client) = Inr (Some (2, A')) \<and>
     client_handle byte_proto [0, 1] rep A' = (A1, Posting \<lparr>tsi = rep, Body = Some [2]\<rparr> chs lk) \<and>
     request_wait 2 [Rq_msg \<lparr>tsi = rep, Body = Some [2 :: 8 word]\<rparr>] = Some (Inr (Some [2]))"
proof -
  let ?A = "ConnectTsiClient 0 4711 0x34 :: (go_bytes, unit, unit) client" and ?ep = "\<lparr>Site = 1, Aid = 0x33, Eid = 0, Pid = 0\<rparr>"
  let ?B = "RegisterHandler ''b'' (Some ()) (ConnectTsiClient 0 4712 0x33 :: (go_bytes, unit, unit) client)"
  have c: "codec_ok byte_proto x" for x by (simp add: codec_ok_def byte_proto_def)
  obtain A' where A': "request_begin byte_proto 1 ?ep 0 0 [9] [1] ?A = Inr (Some (2, A'))"
    by (auto simp: request_begin_def Pack_def PackFrom_def byte_proto_def SendNotify_def Send_def ConnectTsiClient_def internalListen_def
        add_entries_def outbox_cap_def Let_def)
  have "set [0, 1] = dom (c_listeners A')"
    using wiring_request[OF A'] by (auto simp: ConnectTsiClient_def internalListen_def add_entries_def Let_def)
  moreover have "c_handlers ?B (pb_MessageName byte_proto [1]) = Some ()" "length (c_outbox ?B) < outbox_cap"
    "MatchesEP (Some ?ep) (Some (client_Local ?B)) (c_site ?A)"
    by (simp_all add: RegisterHandler_def byte_proto_def outbox_cap_def ConnectTsiClient_def internalListen_def add_entries_def Let_def
        MatchesEP_def client_Local_def TMSG_LOCAL_SITE_def)
  ultimately obtain rep A1 chs lk where "client_handle byte_proto [0, 1] rep A' = (A1, Posting \<lparr>tsi = rep, Body = Some [2]\<rparr> chs lk)"
      "request_wait 2 [Rq_msg \<lparr>tsi = rep, Body = Some [2]\<rparr>] = Some (Inr (Some [2 :: 8 word]))"
    using rpc_roundtrip[OF A' _ c c[of "[2]"], of ?B "()" "[0, 1]" "[]" 1] by blast
  with A' show ?thesis by blast
qed

section \<open>From the router to a listener\<close>

lemma Listen_registers:
  assumes "Listen P ch l c = Some c'"
  shows "Some l \<in> set (Entries (c_registry c')) \<and> c_listeners c' ch = Some l \<and> c_site c' = c_site c \<and>
    tm_Status (last (c_outbox c')) = OtherTsiStatus 0 \<and>
    tm_Body (last (c_outbox c')) = (case Pack P (registry_msg P (c_registry c')) of Inl e \<Rightarrow> None | Inr a \<Rightarrow> Some a) \<and>
    set (Entries (c_registry c')) = insert (Some l) (set (Entries (c_registry c)))"
  using assms
  by (auto simp: Listen_def sendRegistry_def Let_def Send_def add_entries_def internalListen_def new_msg_def client_Local_def LocalRouter_def
      split: if_splits)

text \<open>C20. 
  After \<^verbatim>\<open>Listen\<close> the registration the client queues makes the client channel of the router listen for every message
  that matches the listener, without a fault, and when such a message arrives at the client it is handed to the channel of the
  listener. The router reads the registry with the code that inverts the packing of it.
\<close>

theorem listener_receives:
  assumes listen: "Listen P ch l c = Some c'" and entries: "None \<notin> set (Entries (c_registry c))"
    and codec: "codec_ok P (registry_msg P (c_registry c'))"
      "pb_MessageName P (registry_msg P (c_registry c')) = ''prisma.tms.routing.Registry''"
      "\<And>a. Unpack (pb_registered P) (Some a) = Inr (Some (registry_msg P (c_registry c'))) \<Longrightarrow> unpack_registry a = Inr (c_registry c')"
    and m: "Matches l (TsiMessage.truncate m) (c_site c')" "tm_Status m \<noteq> TsiMessage_ACK" "Unpack (pb_registered P) (tm_Body m) = Inr body"
    and ord: "set ord = dom (c_listeners c')"
  shows "\<exists>reg' c2 chs lk. handleMessage unpack_registry reg (TsiMessage.truncate (last (c_outbox c'))) = Inr (reg', None) \<and>
    ListeningFor (c_site c') (IOChannel reg') (TsiMessage.truncate m) = Inr True \<and>
    client_handle P ord m c' = (c2, Posting \<lparr>tsi = m, Body = body\<rparr> chs lk) \<and> ch \<in> set chs"
proof -
  note r = Listen_registers[OF listen]
  obtain a where a: "Pack P (registry_msg P (c_registry c')) = Inr a" using packs[OF codec(1)] by blast
  have "handleMessage unpack_registry reg (TsiMessage.truncate (last (c_outbox c'))) = Inr (c_registry c', None)"
    using r a packed[OF codec(1) a] codec(2,3) by (simp add: handleMessage_def TsiMessage.truncate_def)
  moreover have "ListeningFor (c_site c') (IOChannel (c_registry c')) (TsiMessage.truncate m) = Inr True"
    using r entries m(1) by (auto simp: no_nil_def listens_def)
  moreover have "\<exists>c2 chs lk. client_handle P ord m c' = (c2, Posting \<lparr>tsi = m, Body = body\<rparr> chs lk) \<and> ch \<in> set chs"
    using r m ord by (auto simp: client_handle_def Let_def listening_chans_def)
  ultimately show ?thesis by blast
qed

text \<open>
  The random identifier of a notification may be 0, the value with which the router takes it that no report is wanted: the
  callback then stays in the table for good.
\<close>

theorem zero_id_unreported:
  assumes "c_notifyCallbacks c 0 = None" "SendNotify m k (0 # draws) c = Some c'"
  shows "c_notifyCallbacks c' 0 = Some k \<and> NotifyMessage pack r (TsiMessage.truncate (last (c_outbox c'))) st = Inr None"
  using assms by (auto simp: SendNotify_def Send_def NotifyMessage_def TsiMessage.truncate_def split: if_splits option.splits)

section \<open>Messages are written in order\<close>

datatype link_event = Call_send SeqMessage | Write time bool | Io_tick bool

text \<open>A step that has to wait changes nothing.\<close>

fun link_step :: "'b proto \<Rightarrow> link_event \<Rightarrow> ('b, 'h, 'k) link \<Rightarrow> ('b, 'h, 'k) link option" where
  "link_step P (Call_send m) k = map_option (\<lambda>c. k\<lparr>lk_client := c\<rparr>) (Send m (lk_client k))"
| "link_step P (Write now ok) k = client_send now ok k"
| "link_step P (Io_tick dialled) k = ioProcess P dialled k"

fun link_run :: "'b proto \<Rightarrow> link_event list \<Rightarrow> ('b, 'h, 'k) link \<Rightarrow> ('b, 'h, 'k) link" where
  "link_run P [] k = k"
| "link_run P (e # es) k = link_run P es (case link_step P e k of None \<Rightarrow> k | Some k' \<Rightarrow> k')"

text \<open>The messages put into the outbox in a run, the registry after every connect among them.\<close>

fun link_queued :: "'b proto \<Rightarrow> link_event list \<Rightarrow> ('b, 'h, 'k) link \<Rightarrow> SeqMessage list" where
  "link_queued P [] k = []"
| "link_queued P (e # es) k =
     (case link_step P e k of
        None \<Rightarrow> link_queued P es k
      | Some k' \<Rightarrow> (case e of Write _ _ \<Rightarrow> [] | _ \<Rightarrow> drop (length (c_outbox (lk_client k))) (c_outbox (lk_client k'))) @ link_queued P es k')"

definition untimed :: "SeqMessage \<Rightarrow> SeqMessage" where
  "untimed m = m\<lparr>SendTime := None\<rparr>"

definition link_trace :: "('b, 'h, 'k) link \<Rightarrow> SeqMessage list" where
  "link_trace k = map (untimed \<circ> fst) (lk_taken k) @ map untimed (c_outbox (lk_client k))"

lemma Send_appends: "Send m c = Some c' \<Longrightarrow> \<exists>m'. c_outbox c' = c_outbox c @ [m']"
  by (auto simp: Send_def split: if_splits)

lemma link_step_trace:
  "link_step P e k = Some k' \<Longrightarrow>
     link_trace k' = link_trace k @ map untimed (case e of Write _ _ \<Rightarrow> [] | _ \<Rightarrow> drop (length (c_outbox (lk_client k))) (c_outbox (lk_client k')))"
  by (cases e)
    (auto simp: link_trace_def client_send_def ioProcess_def sendRegistry_def Let_def untimed_def
      split: list.splits if_splits dest!: Send_appends)

text \<open>
  Over any sequence of sends, writes and reconnects the messages taken from the outbox, those lost by a failed write included, and
  the messages still in it are exactly the messages put into it, in that order.
\<close>

theorem outbox_in_order:
  "link_trace (link_run P es k) = link_trace k @ map untimed (link_queued P es k)"
  by (induction es arbitrary: k) (auto simp: link_step_trace split: option.splits)

section \<open>Names of applications\<close>

lemma ResolveApp_map_of: "ResolveApp ord nm = (case map_of (map prod.swap ord) nm of None \<Rightarrow> 0 | Some aid \<Rightarrow> aid)"
  by (induction ord nm rule: ResolveApp.induct) auto

text \<open>Whatever the order in which the map is visited, the name of an application resolves to its identifier.\<close>

theorem ResolveApp_exact:
  assumes "mset ord = mset AppIdNames"
  shows "(aid, nm) \<in> set AppIdNames \<longrightarrow> ResolveApp ord nm = aid"
proof -
  have "distinct (map snd AppIdNames)" by (simp add: AppIdNames_def)
  moreover have "mset (map snd ord) = mset (map snd AppIdNames)" using assms by simp
  ultimately have "distinct (map fst (map prod.swap ord))" by (metis (no_types, lifting) comp_apply fst_swap list.map_comp map_eq_conv mset_eq_imp_distinct_iff)
  moreover have "set ord = set AppIdNames" using assms by (metis set_mset_mset)
  ultimately show ?thesis by (force simp: ResolveApp_map_of intro: map_of_is_SomeI)
qed

lemma tanalyzed_unresolved: "ResolveApp AppIdNames ''tanalyzed'' = 0"
  by (simp add: AppIdNames_def)

section \<open>Examples\<close>

text \<open>A protocol with one registry as its only message.\<close>

definition one_proto :: "Registry \<Rightarrow> Registry proto" where
  "one_proto R = \<lparr>pb_MessageName = \<lambda>_. ''prisma.tms.routing.Registry'', pb_Marshal = \<lambda>_. Inr [], pb_registered = \<lambda>_. Some (\<lambda>_. Inr R),
     as_report = \<lambda>_. None, as_info = \<lambda>_. None, as_ping = \<lambda>_. None, registry_msg = \<lambda>r. r\<rparr>"

theorem listener_receives_witness:
  "\<exists>R c' reg' c2 chs lk. Listen (one_proto R) 1 \<lparr>ls_Source = Some \<lparr>Site = 5, Aid = 0, Eid = 0, Pid = 0\<rparr>, ls_Destination = None, ls_MessageType = ''''\<rparr>
      (ConnectTsiClient 0 4711 0x33 :: (Registry, unit, unit) client) = Some c' \<and>
     handleMessage (\<lambda>_. Inr R) \<lparr>SourceService = None, Entries = []\<rparr> (TsiMessage.truncate (last (c_outbox c'))) = Inr (reg', None) \<and>
     ListeningFor 1 (IOChannel reg') (TsiMessage.truncate (bare_msg \<lparr>Site = 5, Aid = 0, Eid = 0, Pid = 0\<rparr>)) = Inr True \<and>
     client_handle (one_proto R) [0, 1] (bare_msg \<lparr>Site = 5, Aid = 0, Eid = 0, Pid = 0\<rparr>) c' =
       (c2, Posting \<lparr>tsi = bare_msg \<lparr>Site = 5, Aid = 0, Eid = 0, Pid = 0\<rparr>, Body = None\<rparr> chs lk) \<and> 1 \<in> set chs"
proof -
  define ep where "ep = \<lparr>Site = 5, Aid = 0, Eid = 0, Pid = 0\<rparr>"
  define l where "l = \<lparr>ls_Source = Some ep, ls_Destination = None, ls_MessageType = ''''\<rparr>"
  define c :: "(Registry, unit, unit) client" where "c = ConnectTsiClient 0 4711 0x33"
  define R where "R = \<lparr>SourceService = Some (client_Local c), Entries = Entries (c_registry c) @ [Some l]\<rparr>"
  obtain c' where c': "Listen (one_proto R) 1 l c = Some c'" "c_registry c' = R"
    by (auto simp: Listen_def sendRegistry_def Send_def R_def c_def ConnectTsiClient_def internalListen_def add_entries_def own_entries_def
        client_Local_def outbox_cap_def Let_def)
  have c: "None \<notin> set (Entries (c_registry c))" "c_site c = 1" "dom (c_listeners c) = {0}"
    by (auto simp: c_def ConnectTsiClient_def internalListen_def add_entries_def TMSG_LOCAL_SITE_def Let_def)
  have s: "c_site c' = 1" "set [0, 1] = dom (c_listeners c')"
    using Listen_registers[OF c'(1)] wiring_Listen[OF c'(1)] c(2,3) by (auto simp: wiring_def internalListen_def)
  have k: "codec_ok (one_proto R) R" "registry_msg (one_proto R) = (\<lambda>r. r)" "pb_MessageName (one_proto R) R = ''prisma.tms.routing.Registry''"
    by (simp_all add: codec_ok_def one_proto_def)
  have m: "Matches l (TsiMessage.truncate (bare_msg ep)) 1" "tm_Status (bare_msg ep) \<noteq> TsiMessage_ACK"
      "Unpack (pb_registered (one_proto R)) (tm_Body (bare_msg ep)) = Inr None"
    by (simp_all add: l_def bare_msg_def new_msg_def Matches_def MatchesEP_def TsiMessage.truncate_def Unpack_def)
  have "\<exists>reg' c2 chs lk. handleMessage (\<lambda>_. Inr R) \<lparr>SourceService = None, Entries = []\<rparr> (TsiMessage.truncate (last (c_outbox c'))) = Inr (reg', None) \<and>
      ListeningFor 1 (IOChannel reg') (TsiMessage.truncate (bare_msg ep)) = Inr True \<and>
      client_handle (one_proto R) [0, 1] (bare_msg ep) c' = (c2, Posting \<lparr>tsi = bare_msg ep, Body = None\<rparr> chs lk) \<and> 1 \<in> set chs"
    unfolding s(1)[symmetric] using k m c'(2) s c(1) by (intro listener_receives[OF c'(1)]) simp_all
  then show ?thesis using c'(1) unfolding l_def ep_def c_def by blast
qed
text \<open>A callback handed to a new client waits for its report.\<close>

theorem callback_runs_once_witness:
  "\<exists>s. (cstep byte_proto)\<^sup>*\<^sup>* (start 0 4711 0x33 :: (go_bytes, unit, unit) net) s \<and> c_notifyCallbacks (cl s) 9 = Some (User ()) \<and>
     count_list (c_issued (cl s)) (9, User ()) = count_list (map (\<lambda>(i, k, r). (i, k)) (c_running (cl s))) (9, User ()) + 1"
proof -
  let ?s = "start 0 4711 0x33 :: (go_bytes, unit, unit) net"
  obtain c' where c': "SendNotify (new_msg [] None) (User ()) [9] (cl ?s) = Some c'" "c_notifyCallbacks c' 9 = Some (User ())"
    by (auto simp: SendNotify_def Send_def start_def ConnectTsiClient_def internalListen_def add_entries_def outbox_cap_def Let_def)
  have "cstep byte_proto ?s (?s\<lparr>cl := c'\<rparr>)"
    using c'(1) by (intro cstep.send_notify) (simp_all add: unlocked_def start_def)
  then have r: "(cstep byte_proto)\<^sup>*\<^sup>* ?s (?s\<lparr>cl := c'\<rparr>)" by blast
  show ?thesis using callback_runs_once[OF r, of 9 "User ()"] r c'(2) by (intro exI[of _ "?s\<lparr>cl := c'\<rparr>"]) simp
qed

definition reply_msg :: "EndPoint \<Rightarrow> 32 word \<Rightarrow> go_bytes \<Rightarrow> SeqMessage" where
  "reply_msg ep i bs = (new_msg [] (Some \<lparr>TypeUrl = ''b'', any_Value = bs\<rparr>))
     \<lparr>tm_Source := Some ep, tm_Status := TsiMessage_REPLY, CommandSequence := Some i\<rparr>"

text \<open>A request of a new client that returns.\<close>

lemma request_can_return:
  "\<exists>s. (cstep byte_proto)\<^sup>*\<^sup>* (start 0 4711 0x33 :: (go_bytes, unit, unit) net) s \<and>
     rqs s 1 = Some \<lparr>rq_seq = 2, rq_to = \<lparr>Site = 5, Aid = 0, Eid = 0, Pid = 0\<rparr>, rq_state = Returned (Inr (Some [7]))\<rparr>"
proof -
  define s0 :: "(go_bytes, unit, unit) net" where "s0 = start 0 4711 0x33"
  define ep where "ep = \<lparr>Site = 5, Aid = 0, Eid = 0, Pid = 0\<rparr>"
  define tm where "tm = \<lparr>tsi = reply_msg ep 2 [7], Body = Some [7 :: 8 word]\<rparr>"
  obtain c1 where c1: "request_begin byte_proto 1 ep 0 0 [9] [1] (cl s0) = Inr (Some (2, c1))"
    by (auto simp: s0_def start_def request_begin_def Pack_def PackFrom_def byte_proto_def SendNotify_def Send_def ConnectTsiClient_def
        internalListen_def add_entries_def outbox_cap_def Let_def)
  have w: "c_listeners c1 = [0 \<mapsto> \<lparr>ls_Source = None, ls_Destination = None, ls_MessageType = ''prisma.tms.routing.ServiceInfo''\<rparr>,
      1 \<mapsto> \<lparr>ls_Source = Some ep, ls_Destination = None, ls_MessageType = ''''\<rparr>]" "c_ports c1 1 = Some \<lparr>p_queue = [], p_cap = 1\<rparr>"
    using wiring_request[OF c1] by (simp_all add: request_cap_def s0_def start_def ConnectTsiClient_def internalListen_def add_entries_def Let_def)
  define rq where "rq = \<lparr>rq_seq = 2, rq_to = ep, rq_state = Waiting :: go_bytes rq_state\<rparr>"
  define s1 where "s1 = s0\<lparr>cl := c1, rqs := (rqs s0)(1 \<mapsto> rq)\<rparr>"
  define s2 where "s2 = s1\<lparr>cl := c1, pc := Posting tm [1] False, arrived := reply_msg ep 2 [7] # arrived s1\<rparr>"
  define s3 where "s3 = s2\<lparr>cl := set_queue 1 [tm] c1, pc := Posting tm [] False\<rparr>"
  define s4 where "s4 = s3\<lparr>cl := set_queue 1 [] (cl s3), rqs := (rqs s3)(1 \<mapsto> rq\<lparr>rq_state := Leaving (Inr (Some [7]))\<rparr>)\<rparr>"
  define s5 where "s5 = s4\<lparr>cl := request_end 1 (cl s4), rqs := (rqs s4)(1 \<mapsto> rq\<lparr>rq_state := Returned (Inr (Some [7]))\<rparr>)\<rparr>"
  note defs = s1_def s2_def s3_def s4_def s5_def
  have h: "client_handle byte_proto [0, 1] (reply_msg ep 2 [7]) c1 = (c1, Posting tm [1] False)"
    using w(1) by (simp add: client_handle_def reply_msg_def new_msg_def Unpack_def byte_proto_def after_slash_def tm_def listening_chans_def
        Matches_def MatchesEP_def MessageType_def TrimPrefix_def TsiMessage.truncate_def Let_def)
  have "cstep byte_proto s0 s1"
    unfolding s1_def rq_def using c1
    by (intro cstep.request) (auto simp: s0_def start_def unlocked_def ConnectTsiClient_def internalListen_def add_entries_def Let_def)
  moreover have "cstep byte_proto s1 s2"
    using cstep.arrive[of s1 "[0, 1]" byte_proto "reply_msg ep 2 [7]" c1 "Posting tm [1] False"] w(1) h
    by (simp add: defs s0_def start_def insert_commute)
  moreover have "cstep byte_proto s2 s3"
    using cstep.post[of s2 tm 1 "[]" False "\<lparr>p_queue = [], p_cap = 1\<rparr>" byte_proto] w(2) by (simp add: defs)
  moreover have "answers 2 tm" by (simp add: answers_def tm_def reply_msg_def new_msg_def)
  then have "cstep byte_proto s3 s4"
    using cstep.request_recv[of s3 1 rq "\<lparr>p_queue = [tm], p_cap = 1\<rparr>" tm "[]" byte_proto] w(2) by (simp add: defs rq_def set_queue_def tm_def)
  moreover have "cstep byte_proto s4 s5"
    using cstep.request_returns[of s4 1 "rq\<lparr>rq_state := Leaving (Inr (Some [7]))\<rparr>" "Inr (Some [7])" byte_proto] by (simp add: defs unlocked_def)
  moreover have "rqs s5 1 = Some \<lparr>rq_seq = 2, rq_to = ep, rq_state = Returned (Inr (Some [7]))\<rparr>" by (simp add: s5_def rq_def)
  ultimately show ?thesis unfolding s0_def[symmetric] ep_def[symmetric] by (meson converse_rtranclp_into_rtranclp rtranclp.rtrancl_refl)
qed

theorem request_returns_own_reply_witness:
  "\<exists>s. (cstep byte_proto)\<^sup>*\<^sup>* (start 0 4711 0x33 :: (go_bytes, unit, unit) net) s \<and>
     (\<exists>m \<in> set (arrived s). tm_Status m = TsiMessage_REPLY \<and> CommandSequence m = Some 2 \<and> Unpack (pb_registered byte_proto) (tm_Body m) = Inr (Some [7]))"
proof -
  obtain s where s: "(cstep byte_proto)\<^sup>*\<^sup>* (start 0 4711 0x33 :: (go_bytes, unit, unit) net) s"
      "rqs s 1 = Some \<lparr>rq_seq = 2, rq_to = \<lparr>Site = 5, Aid = 0, Eid = 0, Pid = 0\<rparr>, rq_state = Returned (Inr (Some [7]))\<rparr>"
    using request_can_return by blast
  then show ?thesis using request_returns_own_reply[OF s] by auto
qed

end
