(* ===== verification/Tmsd_Config.thy ===== *)
theory Tmsd_Config
  imports Prisma_Prelude
begin

text \<open>
  The configuration of the supervisor (\<^verbatim>\<open>tmsd/lib/config.go\<close>): settings, the options of all processes and the command
  lines of the processes. The file is read into text first; setting a flag of the program is an argument.
\<close>

section \<open>Definitions\<close>

record TmsdConfig =
  Processes :: "(string \<times> string list) list"
  GlobalOptions :: "string list"
  settings :: "(string \<times> string) list"

text \<open>\<^verbatim>\<open>ReadString\<close> of a buffer: up to and with the delimiter, or nothing when it does not occur.\<close>

fun ReadString :: "char \<Rightarrow> string \<Rightarrow> (string \<times> string) option" where
  "ReadString d [] = None"
| "ReadString d (c # cs) =
     (if c = d then Some ([c], cs) else (case ReadString d cs of None \<Rightarrow> None | Some (l, r) \<Rightarrow> Some (c # l, r)))"

lemma ReadString_parts: "ReadString d s = Some (l, r) \<Longrightarrow> s = l @ r \<and> l \<noteq> [] \<and> last l = d \<and> d \<notin> set (butlast l)"
  by (induction d s arbitrary: l r rule: ReadString.induct) (auto split: if_splits option.splits)

lemma ReadString_shorter: "ReadString d s = Some (l, r) \<Longrightarrow> length r < length s"
  using ReadString_parts by fastforce

lemma ReadString_append: "d \<notin> set l \<Longrightarrow> ReadString d (l @ d # r) = Some (l @ [d], r)"
  by (induction l) auto

lemma ReadString_None: "ReadString d s = None \<longleftrightarrow> d \<notin> set s"
  by (induction d s rule: ReadString.induct) (auto split: option.splits)

text \<open>Every line loses what follows a number sign and gets one more line end.\<close>

function eliminate_comments :: "string \<Rightarrow> string" where
  "eliminate_comments s =
     (case ReadString (CHR 0x0A) s of
        None \<Rightarrow> []
      | Some (line, rest) \<Rightarrow> takeWhile (\<lambda>c. c \<noteq> CHR ''#'') line @ [CHR 0x0A] @ eliminate_comments rest)"
  by pat_completeness auto

termination by (relation "measure length") (auto dest: ReadString_shorter)

declare eliminate_comments.simps [simp del]

definition add_def :: "string \<Rightarrow> TmsdConfig \<Rightarrow> TmsdConfig res" where
  "add_def line cfg =
     (let line = TrimSpace (filter (\<lambda>c. c \<noteq> CHR 0x0A) line) in
      if take 6 line = ''global'' then Inr (cfg\<lparr>GlobalOptions := tl (Fields line)\<rparr>)
      else
        (case Fields line of
           [] \<Rightarrow> Inl OutOfRange
         | prog # args \<Rightarrow> Inr (cfg\<lparr>Processes := Processes cfg @ [(prog, args)]\<rparr>)))"

definition readDef :: "string \<Rightarrow> string \<Rightarrow> TmsdConfig \<Rightarrow> (string \<times> TmsdConfig) res" where
  "readDef buf line cfg =
     (if line = [] then Inl OutOfRange
      else if last line \<noteq> CHR ''}'' then
        (case ReadString (CHR ''}'') buf of
           None \<Rightarrow> Inl (Err ''invalid process definition'')
         | Some (rest, buf') \<Rightarrow> rbind (add_def (line @ butlast rest) cfg) (\<lambda>cfg. Inr (buf', cfg)))
      else rbind (add_def (butlast line) cfg) (\<lambda>cfg. Inr (buf, cfg)))"

lemma readDef_shorter: "readDef buf line cfg = Inr (buf', cfg') \<Longrightarrow> length buf' \<le> length buf"
  by (auto simp: readDef_def rbind_eq_Inr split: if_splits option.splits dest: ReadString_shorter)

function read_lines :: "(string \<Rightarrow> string \<Rightarrow> bool) \<Rightarrow> string \<Rightarrow> TmsdConfig \<Rightarrow> TmsdConfig \<times> unit res" where
  "read_lines flag buf cfg =
     (case ReadString (CHR 0x0A) buf of
        None \<Rightarrow> (cfg, Inr ())
      | Some (line, buf) \<Rightarrow>
          let line = TrimSpace line in
          if line = [] then read_lines flag buf cfg
          else if hd line = CHR ''{'' then
            (case readDef buf (tl line) cfg of
               Inl err \<Rightarrow> (cfg, Inl err)
             | Inr (buf, cfg) \<Rightarrow> read_lines flag buf cfg)
          else if CHR ''='' \<in> set line then
            let key = takeWhile (\<lambda>c. c \<noteq> CHR ''='') line; val = tl (dropWhile (\<lambda>c. c \<noteq> CHR ''='') line) in
            if flag key val then read_lines flag buf (cfg\<lparr>settings := settings cfg @ [(key, val)]\<rparr>) else (cfg, Inl (Err ''flag''))
          else (cfg, Inl (Err ''Config comment format error'')))"
  by pat_completeness auto

termination
  by (relation "measure (\<lambda>(_, buf, _). length buf)") (auto dest!: ReadString_shorter readDef_shorter)

declare read_lines.simps [simp del]

definition ReadConfig :: "(string \<Rightarrow> string \<Rightarrow> bool) \<Rightarrow> string option \<Rightarrow> TmsdConfig \<Rightarrow> TmsdConfig \<times> unit res" where
  "ReadConfig flag file cfg =
     (let cfg = cfg\<lparr>Processes := []\<rparr> in
      case file of
        None \<Rightarrow> (cfg, Inl (Err ''open''))
      | Some content \<Rightarrow>
          (case read_lines flag (eliminate_comments content) cfg of
             (cfg, Inl err) \<Rightarrow> (cfg, Inl err)
           | (cfg, Inr _) \<Rightarrow> (cfg\<lparr>Processes := map (\<lambda>(prog, args). (prog, GlobalOptions cfg @ args)) (Processes cfg)\<rparr>, Inr ())))"

text \<open>\<^verbatim>\<open>path.Clean\<close> and \<^verbatim>\<open>path.Join\<close>, component by component.\<close>

fun split_slash :: "string \<Rightarrow> string list" where
  "split_slash [] = [[]]"
| "split_slash (c # cs) = (if c = CHR ''/'' then [] # split_slash cs else (case split_slash cs of [] \<Rightarrow> [[c]] | p # ps \<Rightarrow> (c # p) # ps))"

fun clean_parts :: "bool \<Rightarrow> string list \<Rightarrow> string list \<Rightarrow> string list" where
  "clean_parts rooted st [] = rev st"
| "clean_parts rooted st (p # ps) =
     (if p = [] \<or> p = ''.'' then clean_parts rooted st ps
      else if p = ''..'' then
        (case st of
           [] \<Rightarrow> clean_parts rooted (if rooted then [] else [p]) ps
         | q # qs \<Rightarrow> if q = ''..'' then clean_parts rooted (p # st) ps else clean_parts rooted qs ps)
      else clean_parts rooted (p # st) ps)"

definition IsAbs :: "string \<Rightarrow> bool" where
  "IsAbs s \<longleftrightarrow> s \<noteq> [] \<and> hd s = CHR ''/''"

fun join_slash :: "string list \<Rightarrow> string" where
  "join_slash [] = []"
| "join_slash [p] = p"
| "join_slash (p # ps) = p @ ''/'' @ join_slash ps"

definition Clean :: "string \<Rightarrow> string" where
  "Clean s =
     (let body = join_slash (clean_parts (IsAbs s) [] (split_slash s)) in
      if IsAbs s then CHR ''/'' # body else if body = [] then ''.'' else body)"

definition Join :: "string \<Rightarrow> string \<Rightarrow> string" where
  "Join a b = (if a = [] then (if b = [] then [] else Clean b) else if b = [] then Clean a else Clean (a @ ''/'' @ b))"

text \<open>\<open>exedir\<close> is the folder of the executable, \<open>is_file\<close> tells which paths are files.\<close>

definition findProg :: "string option \<Rightarrow> (string \<Rightarrow> bool) \<Rightarrow> string \<Rightarrow> string" where
  "findProg exedir is_file prog =
     (if IsAbs prog then prog
      else
        (case exedir of
           None \<Rightarrow> prog
         | Some d \<Rightarrow> let proposed = Join (Clean d) prog in if is_file proposed then proposed else prog))"

section \<open>A written configuration is read back\<close>

datatype item = Setting string string | Global "string list" | Proc string "string list" | Comment string | Blank

fun show_item :: "item \<Rightarrow> string" where
  "show_item (Setting k v) = k @ ''='' @ v"
| "show_item (Global os) = ''{'' @ unwords (''global'' # os) @ ''}''"
| "show_item (Proc p as) = ''{'' @ unwords (p # as) @ ''}''"
| "show_item (Comment t) = ''#'' @ t"
| "show_item Blank = []"

definition show_config :: "item list \<Rightarrow> string" where
  "show_config is = concat (map (\<lambda>i. show_item i @ [CHR 0x0A]) is)"

definition plain :: "string \<Rightarrow> bool" where
  "plain s \<longleftrightarrow> CHR ''#'' \<notin> set s \<and> CHR 0x0A \<notin> set s"

fun wf_item :: "(string \<Rightarrow> string \<Rightarrow> bool) \<Rightarrow> item \<Rightarrow> bool" where
  "wf_item flag (Setting k v) \<longleftrightarrow> flag k v \<and> plain k \<and> plain v \<and> CHR ''='' \<notin> set k \<and>
     k \<noteq> [] \<and> hd k \<noteq> CHR ''{'' \<and> \<not> isSpace (hd k) \<and> (v = [] \<or> \<not> isSpace (last v))"
| "wf_item flag (Global os) \<longleftrightarrow> list_all is_word os \<and> list_all plain os"
| "wf_item flag (Proc p as) \<longleftrightarrow> list_all is_word (p # as) \<and> list_all plain (p # as) \<and> take 6 p \<noteq> ''global''"
| "wf_item flag (Comment t) \<longleftrightarrow> CHR 0x0A \<notin> set t"
| "wf_item flag Blank \<longleftrightarrow> True"

text \<open>What an item means.\<close>

fun apply_item :: "item \<Rightarrow> TmsdConfig \<Rightarrow> TmsdConfig" where
  "apply_item (Setting k v) cfg = cfg\<lparr>settings := settings cfg @ [(k, v)]\<rparr>"
| "apply_item (Global os) cfg = cfg\<lparr>GlobalOptions := os\<rparr>"
| "apply_item (Proc p as) cfg = cfg\<lparr>Processes := Processes cfg @ [(p, as)]\<rparr>"
| "apply_item (Comment t) cfg = cfg"
| "apply_item Blank cfg = cfg"

lemma eliminate_line:
  assumes "plain l"
  shows "eliminate_comments (l @ CHR 0x0A # r) = l @ CHR 0x0A # CHR 0x0A # eliminate_comments r"
proof -
  have "takeWhile (\<lambda>c. c \<noteq> CHR ''#'') (l @ [CHR 0x0A]) = l @ [CHR 0x0A]"
    using assms by (subst takeWhile_eq_all_conv) (auto simp: plain_def)
  then show ?thesis using assms ReadString_append[of "CHR 0x0A" l r]
    by (subst eliminate_comments.simps) (simp add: plain_def)
qed

lemma eliminate_comment: "CHR 0x0A \<notin> set t \<Longrightarrow> eliminate_comments (CHR ''#'' # t @ CHR 0x0A # r) = CHR 0x0A # eliminate_comments r"
  using ReadString_append[of "CHR 0x0A" "CHR ''#'' # t" r] by (subst eliminate_comments.simps) simp

lemma TrimSpace_end:
  assumes "l \<noteq> []" "\<not> isSpace (hd l)" "\<not> isSpace (last l)" "\<forall>c\<in>set x. isSpace c"
  shows "TrimSpace (l @ x) = l"
proof -
  have "dropWhile isSpace (l @ x) = l @ x" using assms(1,2) by (cases l) auto
  moreover have "dropWhile isSpace (rev x @ rev l) = rev l"
    using assms(1,3,4) dropWhile_append2[of "rev x" isSpace "rev l"] by (cases l rule: rev_cases) auto
  ultimately show ?thesis by (simp add: TrimSpace_def)
qed

lemma read_blank: "read_lines flag (CHR 0x0A # r) cfg = read_lines flag r cfg"
  by (subst read_lines.simps) (simp add: TrimSpace_def)

lemma unwords_ends:
  assumes "list_all is_word ws" "ws \<noteq> []"
  shows "unwords ws \<noteq> []" "\<not> isSpace (hd (unwords ws))" "\<not> isSpace (last (unwords ws))"
proof -
  have "unwords ws \<noteq> [] \<and> \<not> isSpace (hd (unwords ws)) \<and> \<not> isSpace (last (unwords ws))" using assms
    by (induction ws rule: unwords.induct) (auto simp: is_word_def)
  then show "unwords ws \<noteq> []" "\<not> isSpace (hd (unwords ws))" "\<not> isSpace (last (unwords ws))" by auto
qed

lemma unwords_plain: "list_all plain ws \<Longrightarrow> plain (unwords ws)"
  by (induction ws rule: unwords.induct) (auto simp: plain_def)

lemma unwords_Cons: "unwords (p # as) = p @ x \<Longrightarrow> x = [] \<or> hd x = CHR '' ''"
  by (cases as) auto

lemma take_unwords:
  assumes "take 6 (unwords (p # as)) = ''global''"
  shows "take 6 p = ''global''"
proof -
  obtain x where x: "unwords (p # as) = p @ x" by (cases as) auto
  show ?thesis
  proof (cases "6 \<le> length p")
    case False
    then have g: "p @ take (6 - length p) x = ''global''" using assms x by simp
    then have "take (6 - length p) x \<noteq> []" using False by auto
    then have "x \<noteq> []" "hd x \<in> set (take (6 - length p) x)" by (auto simp: neq_Nil_conv take_Cons' split: if_splits)
    then have "CHR '' '' \<in> set ''global''" using unwords_Cons[OF x] g by (metis Un_iff set_append)
    then show ?thesis by simp
  qed (use assms x in simp)
qed

lemma add_def_unwords:
  assumes "list_all is_word ws" "list_all plain ws" "ws \<noteq> []"
  shows "add_def (unwords ws) cfg =
    (if take 6 (unwords ws) = ''global'' then Inr (cfg\<lparr>GlobalOptions := tl ws\<rparr>) else Inr (cfg\<lparr>Processes := Processes cfg @ [(hd ws, tl ws)]\<rparr>))"
proof -
  have "filter (\<lambda>c. c \<noteq> CHR 0x0A) (unwords ws) = unwords ws"
    using unwords_plain[OF assms(2)] by (auto simp: plain_def filter_id_conv)
  moreover have "TrimSpace (unwords ws) = unwords ws"
    using TrimSpace_end[OF unwords_ends[OF assms(1,3)], of "[]"] by simp
  ultimately show ?thesis using Fields_unwords[OF assms(1)] assms(3) by (cases ws) (auto simp: add_def_def)
qed

lemma read_definition:
  assumes "list_all is_word ws" "list_all plain ws" "ws \<noteq> []"
  shows "read_lines flag (''{'' @ unwords ws @ ''}'' @ CHR 0x0A # r) cfg =
    read_lines flag r (if take 6 (unwords ws) = ''global'' then cfg\<lparr>GlobalOptions := tl ws\<rparr> else cfg\<lparr>Processes := Processes cfg @ [(hd ws, tl ws)]\<rparr>)"
proof -
  let ?l = "''{'' @ unwords ws @ ''}''"
  have "CHR 0x0A \<notin> set ?l" using unwords_plain[OF assms(2)] by (auto simp: plain_def)
  then have "ReadString (CHR 0x0A) (?l @ CHR 0x0A # r) = Some (?l @ [CHR 0x0A], r)" by (rule ReadString_append)
  moreover have "TrimSpace (?l @ [CHR 0x0A]) = ?l" by (rule TrimSpace_end) (auto simp: isSpace_def)
  moreover have "readDef r (unwords ws @ ''}'') cfg = rbind (add_def (unwords ws) cfg) (\<lambda>cfg. Inr (r, cfg))" by (simp add: readDef_def)
  ultimately show ?thesis by (subst read_lines.simps) (simp add: add_def_unwords[OF assms])
qed

lemma read_setting:
  assumes "wf_item flag (Setting k v)"
  shows "read_lines flag (k @ ''='' @ v @ CHR 0x0A # r) cfg = read_lines flag r (cfg\<lparr>settings := settings cfg @ [(k, v)]\<rparr>)"
proof -
  let ?l = "k @ ''='' @ v"
  have "ReadString (CHR 0x0A) (?l @ CHR 0x0A # r) = Some (?l @ [CHR 0x0A], r)"
    using assms by (intro ReadString_append) (auto simp: plain_def)
  moreover have "TrimSpace (?l @ [CHR 0x0A]) = ?l" using assms by (intro TrimSpace_end) (auto simp: isSpace_def)
  moreover have "takeWhile (\<lambda>c. c \<noteq> CHR ''='') ?l = k" "dropWhile (\<lambda>c. c \<noteq> CHR ''='') ?l = CHR ''='' # v"
    using assms by (auto simp: takeWhile_append2 dropWhile_append2 takeWhile_tail dropWhile_append3)
  moreover have "hd ?l = hd k" using assms by simp
  ultimately show ?thesis using assms by (subst read_lines.simps) (simp add: Let_def)
qed

lemma read_item:
  assumes "wf_item flag i"
  shows "read_lines flag (eliminate_comments (show_item i @ CHR 0x0A # r)) cfg = read_lines flag (eliminate_comments r) (apply_item i cfg)"
proof (cases i)
  case (Setting k v)
  then have "plain (k @ ''='' @ v)" using assms by (auto simp: plain_def)
  then show ?thesis using Setting read_setting[of flag k v] assms eliminate_line[of "k @ ''='' @ v"] by (simp add: read_blank)
next
  case (Global os)
  let ?ws = "''global'' # os"
  have w: "list_all is_word ?ws" "list_all plain ?ws" using assms Global by (auto simp: is_word_def isSpace_def plain_def)
  have "take 6 (unwords ?ws) = ''global''" by (cases os) auto
  then show ?thesis using Global read_definition[OF w] eliminate_line[of "''{'' @ unwords ?ws @ ''}''"] unwords_plain[OF w(2)]
    by (simp add: read_blank plain_def del: unwords.simps)
next
  case (Proc p as)
  let ?ws = "p # as"
  have w: "list_all is_word ?ws" "list_all plain ?ws" using assms Proc by auto
  have "take 6 (unwords ?ws) \<noteq> ''global''" using assms Proc take_unwords[of p as] by auto
  then show ?thesis using Proc read_definition[OF w] eliminate_line[of "''{'' @ unwords ?ws @ ''}''"] unwords_plain[OF w(2)]
    by (simp add: read_blank plain_def del: unwords.simps)
next
  case (Comment t)
  then show ?thesis using assms eliminate_comment[of t r] by (simp add: read_blank)
next
  case Blank
  then show ?thesis using eliminate_line[of "[]" r] by (simp add: read_blank plain_def)
qed

lemma read_items:
  "list_all (wf_item flag) is \<Longrightarrow> read_lines flag (eliminate_comments (show_config is @ r)) cfg = read_lines flag (eliminate_comments r) (fold apply_item is cfg)"
  by (induction "is" arbitrary: cfg) (auto simp: show_config_def read_item)

lemma read_unfinished:
  assumes "CHR 0x0A \<notin> set r"
  shows "read_lines flag (eliminate_comments r) cfg = (cfg, Inr ())"
proof -
  have "eliminate_comments r = []" using assms ReadString_None[of "CHR 0x0A" r] by (subst eliminate_comments.simps) simp
  then show ?thesis by (subst read_lines.simps) simp
qed

text \<open>C33. 
  A configuration of settings, global options, command lines, comments and blank lines is read back: the settings in order, the
  last global options, and every command line with the global options in front of its arguments, wherever they stand in the
  file. A last line without a line end is not read at all.
\<close>

theorem config_roundtrip:
  assumes "list_all (wf_item flag) is" "CHR 0x0A \<notin> set rest" "cfg' = fold apply_item is (cfg\<lparr>Processes := []\<rparr>)"
  shows "ReadConfig flag (Some (show_config is @ rest)) cfg =
    (cfg'\<lparr>Processes := map (\<lambda>(prog, args). (prog, GlobalOptions cfg' @ args)) (Processes cfg')\<rparr>, Inr ())"
  using assms by (simp add: ReadConfig_def read_items read_unfinished Let_def)

theorem config_roundtrip_witness:
  "ReadConfig (\<lambda>_ _. True) (Some (''pid=/tmp/tmsd.pid'' @ [CHR 0x0A] @ ''{tgwad --num 10}'' @ [CHR 0x0A] @ ''# all'' @ [CHR 0x0A] @
      ''{global -log=INFO}'' @ [CHR 0x0A] @ ''{twebd}'')) \<lparr>Processes = [], GlobalOptions = [], settings = []\<rparr> =
   (\<lparr>Processes = [(''tgwad'', [''-log=INFO'', ''--num'', ''10''])], GlobalOptions = [''-log=INFO''], settings = [(''pid'', ''/tmp/tmsd.pid'')]\<rparr>, Inr ())"
proof -
  let ?is = "[Setting ''pid'' ''/tmp/tmsd.pid'', Proc ''tgwad'' [''--num'', ''10''], Comment '' all'', Global [''-log=INFO'']]"
  have w: "list_all (wf_item (\<lambda>_ _. True)) ?is" by (simp add: plain_def is_word_def isSpace_def)
  have "CHR 0x0A \<notin> set ''{twebd}''" by simp
  from config_roundtrip[OF w this refl, of "\<lparr>Processes = [], GlobalOptions = [], settings = []\<rparr>"]
  show ?thesis by (simp add: show_config_def)
qed

section \<open>Definitions over several lines\<close>

text \<open>An opening brace that stands alone on its line makes the program index before the start of the empty rest.\<close>

theorem lone_brace_panics:
  "snd (ReadConfig flag (Some (show_config is @ ''{'' @ [CHR 0x0A] @ r)) cfg) = Inl OutOfRange" if "list_all (wf_item flag) is"
proof -
  have "read_lines flag (eliminate_comments (''{'' @ [CHR 0x0A] @ r)) c = (c, Inl OutOfRange)" for c
    using eliminate_line[of "''{''" r] by (subst read_lines.simps) (simp add: plain_def TrimSpace_def isSpace_def readDef_def)
  then show ?thesis using that by (simp add: ReadConfig_def read_items)
qed

theorem lone_brace_panics_witness:
  "snd (ReadConfig (\<lambda>_ _. True) (Some (''{'' @ [CHR 0x0A] @ ''twebd}'' @ [CHR 0x0A])) \<lparr>Processes = [], GlobalOptions = [], settings = []\<rparr>) = Inl OutOfRange"
  using lone_brace_panics[of "\<lambda>_ _. True" "[]" "''twebd}'' @ [CHR 0x0A]"] by (simp add: show_config_def)

text \<open>The line ends inside a definition vanish: the first word of a line is glued to the last of the line before.\<close>

theorem broken_line_joins_words:
  "fst (ReadConfig flag (Some (''{tnoid'' @ [CHR 0x0A] @ ''--address x}'' @ [CHR 0x0A])) cfg) =
     cfg\<lparr>Processes := [(''tnoid--address'', GlobalOptions cfg @ [''x''])]\<rparr>"
proof -
  have e: "eliminate_comments (''{tnoid'' @ [CHR 0x0A] @ ''--address x}'' @ [CHR 0x0A]) =
      ''{tnoid'' @ [CHR 0x0A, CHR 0x0A] @ ''--address x}'' @ [CHR 0x0A, CHR 0x0A]"
    using eliminate_line[of "''{tnoid''" "''--address x}'' @ [CHR 0x0A]"] eliminate_line[of "''--address x}''" "[]"] eliminate_comments.simps[of "[]"]
    by (simp add: plain_def)
  have f: "Fields ''tnoid--address x'' = [''tnoid--address'', ''x'']"
    using Fields_unwords[of "[''tnoid--address'', ''x'']"] by (simp add: is_word_def isSpace_def)
  have "read_lines flag [CHR 0x0A, CHR 0x0A] c = (c, Inr ())" for c
    using read_lines.simps[of flag "[]" c] by (simp add: read_blank)
  then show ?thesis unfolding ReadConfig_def e option.case
    by (subst read_lines.simps) (simp add: TrimSpace_def isSpace_def readDef_def add_def_def f Let_def)
qed

end
