(* ===== verification/Supervisor.thy ===== *)
theory Supervisor
  imports Tmsd_Config "HOL-Library.Signed_Division"
begin

text \<open>
  The supervisor of the processes (\<^verbatim>\<open>tmsd/lib/tmsd.go\<close>): launching with two rates of retries, shutting down, the file with the
  process numbers that outlives the supervisor, the commands on its socket and the figures it reports. Signals, timers, exits of
  processes and the contents of system files are arguments.
\<close>

section \<open>The file of process numbers\<close>

text \<open>The file is the list of its lines.\<close>

fun Contains :: "string \<Rightarrow> string \<Rightarrow> bool" where
  "Contains [] t \<longleftrightarrow> t = []"
| "Contains (c # cs) t \<longleftrightarrow> take (length t) (c # cs) = t \<or> Contains cs t"

definition prog_short :: "string \<Rightarrow> string" where
  "prog_short prog = rev (takeWhile (\<lambda>c. c \<noteq> CHR ''/'') (rev prog))"

definition pid_line :: "nat \<Rightarrow> string \<Rightarrow> string" where
  "pid_line pid prog = Itoa pid @ ''/'' @ prog_short prog"

definition addPidLine :: "nat \<Rightarrow> string \<Rightarrow> string list \<Rightarrow> string list" where
  "addPidLine pid prog file = file @ [pid_line pid prog]"

definition removePidLine :: "nat \<Rightarrow> string \<Rightarrow> string list \<Rightarrow> string list" where
  "removePidLine pid prog file = filter (\<lambda>l. \<not> (Contains l (Itoa pid) \<and> Contains l (prog_short prog))) file"

text \<open>
  The processes a new supervisor shuts down: \<open>alive\<close> tells which directories there are under \<^verbatim>\<open>/proc\<close>. A text that is no number
  counts as process 0.
\<close>

definition pid_entry :: "(string \<Rightarrow> bool) \<Rightarrow> string \<Rightarrow> (int \<times> string) option" where
  "pid_entry alive l =
     (if CHR ''/'' \<in> set l then
        let n = takeWhile (\<lambda>c. c \<noteq> CHR ''/'') l; name = tl (dropWhile (\<lambda>c. c \<noteq> CHR ''/'') l) in
        if alive n then Some (case Atoi n of None \<Rightarrow> 0 | Some p \<Rightarrow> p, name) else None
      else None)"

definition processPidFile :: "(string \<Rightarrow> bool) \<Rightarrow> string list \<Rightarrow> (int \<times> string) list" where
  "processPidFile alive file = List.map_filter (pid_entry alive) file"

section \<open>Shutting down\<close>

datatype signal = SIGINT | SIGKILL

text \<open>
  What \<^verbatim>\<open>shutDown\<close> waits for: the exit of the process with its error, the timers, and the ticker with whether the process is
  still there. The setting for killing is read when the second timer fires.
\<close>

datatype shut_event = Exited "go_fault option" | Kill_timer | Int_timer bool | Status_tick bool

fun shut_loop :: "shut_event list \<Rightarrow> signal list \<times> bool" where
  "shut_loop [] = ([], False)"
| "shut_loop (Exited err # evs) = ([], True)"
| "shut_loop (Kill_timer # evs) = ([SIGKILL], True)"
| "shut_loop (Int_timer kill # evs) = (if kill then ([SIGKILL], True) else (let (ss, r) = shut_loop evs in (SIGINT # ss, r)))"
| "shut_loop (Status_tick alive # evs) = (if alive then shut_loop evs else ([], True))"

text \<open>The signals sent, and whether the call has returned.\<close>

definition shutDown :: "shut_event list \<Rightarrow> signal list \<times> bool" where
  "shutDown evs = (let (ss, r) = shut_loop evs in (SIGINT # ss, r))"

section \<open>Monitors\<close>

datatype process_status = New | Running | Died | Stopped

record processMonitor =
  m_status :: process_status
  m_starts :: "64 word"
  m_pid :: nat
  m_prog :: string
  counter_1 :: int
  counter_2 :: int
  m_waits :: "int list"

record launch_config =
  SLaunchInterval :: int
  SLaunchTimes :: int
  LLaunchInterval :: int
  LLaunchTimes :: int

text \<open>
  How a launch ends: the program does not start, it exits after some seconds, or the supervisor shuts it down. \<^verbatim>\<open>runOnce\<close> adds the
  line of the process when it has started and removes it at the end; in between other monitors write the file too.
\<close>

datatype launch = Start_failed | Ran nat int | Shut nat

definition started :: "nat \<Rightarrow> processMonitor \<Rightarrow> processMonitor" where
  "started pid m = m\<lparr>m_status := Running, m_pid := pid\<rparr>"

definition runOnce :: "launch \<Rightarrow> processMonitor \<Rightarrow> processMonitor" where
  "runOnce l m =
     (case l of
        Start_failed \<Rightarrow> m
      | Ran pid _ \<Rightarrow> (let m = started pid m in if m_status m \<noteq> Stopped then m\<lparr>m_status := Died\<rparr> else m)
      | Shut pid \<Rightarrow> (started pid m)\<lparr>m_status := Stopped\<rparr>)"

datatype file_event = Process_started nat string | Process_ended nat string

fun file_step :: "file_event \<Rightarrow> string list \<Rightarrow> string list" where
  "file_step (Process_started pid prog) file = addPidLine pid prog file"
| "file_step (Process_ended pid prog) file = removePidLine pid prog file"

text \<open>A check some seconds after the launch finds the program running.\<close>

definition stable :: "launch_config \<Rightarrow> launch \<Rightarrow> bool" where
  "stable cfg l = (case l of Ran _ secs \<Rightarrow> SLaunchInterval cfg < secs | _ \<Rightarrow> False)"

definition launch_short :: "launch_config \<Rightarrow> launch \<Rightarrow> processMonitor \<Rightarrow> processMonitor" where
  "launch_short cfg l m =
     (let m = m\<lparr>m_waits := m_waits m @ [SLaunchInterval cfg], m_starts := m_starts m + 1, counter_1 := counter_1 m + 1\<rparr>;
          m = (if stable cfg l then m\<lparr>counter_1 := 0\<rparr> else m) in
      runOnce l m)"

definition launch_long :: "launch_config \<Rightarrow> launch \<Rightarrow> processMonitor \<Rightarrow> processMonitor" where
  "launch_long cfg l m =
     (let m = m\<lparr>m_waits := m_waits m @ [LLaunchInterval cfg], m_starts := m_starts m + 1, counter_2 := counter_2 m + 1\<rparr>;
          m = (if stable cfg l then m\<lparr>counter_1 := 0, counter_2 := 0\<rparr> else m) in
      runOnce l m)"

text \<open>
  The control of \<^verbatim>\<open>monitor\<close> between two launches: the outer loop, the loop of quick retries and the loop of slow ones. A step is
  one test of a loop; six are enough, since a launch or the end is at most five tests away unless the loops never get there.
\<close>

datatype point = Outer | Short | Long

datatype decision = Wait_short processMonitor | Wait_long processMonitor | Finished processMonitor | Spinning

fun control :: "nat \<Rightarrow> launch_config \<Rightarrow> point \<Rightarrow> processMonitor \<Rightarrow> decision" where
  "control 0 cfg p m = Spinning"
| "control (Suc n) cfg Outer m =
     (if m_status m \<noteq> Stopped \<and> m_status m \<noteq> Running then control n cfg Short (m\<lparr>counter_1 := 0\<rparr>) else Finished m)"
| "control (Suc n) cfg Short m =
     (if m_status m \<noteq> Stopped \<and> counter_1 m < SLaunchTimes cfg then Wait_short m else control n cfg Long (m\<lparr>counter_2 := 0\<rparr>))"
| "control (Suc n) cfg Long m =
     (if m_status m \<noteq> Stopped \<and> counter_2 m < LLaunchTimes cfg \<and> counter_1 m = SLaunchTimes cfg then Wait_long m
      else if counter_1 m = SLaunchTimes cfg \<and> counter_2 m = LLaunchTimes cfg then Finished m
      else control n cfg Outer m)"

text \<open>The monitor over the launches that happen; the check of a launch is over before the next launch.\<close>

fun monitor :: "launch_config \<Rightarrow> point \<Rightarrow> launch list \<Rightarrow> processMonitor \<Rightarrow> decision" where
  "monitor cfg p [] m = control 6 cfg p m"
| "monitor cfg p (l # ls) m =
     (case control 6 cfg p m of
        Wait_short m \<Rightarrow> monitor cfg Short ls (launch_short cfg l m)
      | Wait_long m \<Rightarrow> monitor cfg Long ls (launch_long cfg l m)
      | d \<Rightarrow> d)"

definition new_monitor :: "string \<Rightarrow> processMonitor" where
  "new_monitor prog = \<lparr>m_status = New, m_starts = 0, m_pid = 0, m_prog = prog, counter_1 = 0, counter_2 = 0, m_waits = []\<rparr>"

definition startServices :: "string option \<Rightarrow> (string \<Rightarrow> bool) \<Rightarrow> (string \<times> string list) list \<Rightarrow> processMonitor list" where
  "startServices exedir is_file procs = map (\<lambda>(prog, args). new_monitor (findProg exedir is_file prog)) procs"

definition all_stopped :: "processMonitor list \<Rightarrow> bool" where
  "all_stopped ms = list_all (\<lambda>m. m_status m \<noteq> Running) ms"

section \<open>Commands and reports\<close>

record tmsd =
  t_canceled :: bool
  kill_config :: bool

datatype answer = No_answer | Status_rows "(string \<times> string) list" | Info_rows "(nat \<times> string \<times> string \<times> nat) list" | Already_running

fun status_text :: "process_status \<Rightarrow> string" where
  "status_text New = ''not launch''"
| "status_text Running = ''running''"
| "status_text Died = ''crashed''"
| "status_text Stopped = ''stopped''"

definition handle_line :: "processMonitor list \<Rightarrow> string \<Rightarrow> tmsd \<Rightarrow> tmsd \<times> answer" where
  "handle_line ms line t =
     (let line = TrimSpace line in
      if line = ''stop'' then (t\<lparr>t_canceled := True\<rparr>, No_answer)
      else if line = ''kill'' then (t\<lparr>kill_config := True\<rparr>, No_answer)
      else if line = ''status'' then (t, Status_rows (map (\<lambda>m. (prog_short (m_prog m), status_text (m_status m))) ms))
      else if line = ''info'' then
        (t, Info_rows (map (\<lambda>m. (m_pid m, prog_short (m_prog m), status_text (m_status m), unat (m_starts m))) ms))
      else if line = ''cleanup'' then (t, Already_running)
      else (t, No_answer))"

definition getLoadAvg :: "string list \<Rightarrow> string \<times> string \<times> string \<times> string" where
  "getLoadAvg ls =
     fold (\<lambda>l r. let fs = Fields (TrimSpace l) in if 5 \<le> length fs then (fs ! 0, fs ! 1, fs ! 2, fs ! 3) else r) ls ([], [], [], [])"

text \<open>The sums of \<^verbatim>\<open>getCpuUsage\<close> are of type \<^verbatim>\<open>int\<close>, 64 bits; division truncates and panics for zero.\<close>

definition int64 :: "int \<Rightarrow> int" where
  "int64 i = sint (word_of_int i :: 64 word)"

fun cpu_sum :: "nat \<Rightarrow> string list \<Rightarrow> int \<Rightarrow> int \<Rightarrow> (int \<times> int) res" where
  "cpu_sum i [] tot idle = Inr (tot, idle)"
| "cpu_sum i (f # fs) tot idle =
     (case Atoi f of
        None \<Rightarrow> Inl (Err ''parse'')
      | Some v \<Rightarrow> cpu_sum (Suc i) fs (int64 (tot + v)) (if i = 4 then v else idle))"

definition cpu_rate :: "string list \<Rightarrow> string res" where
  "cpu_rate fs =
     rbind (cpu_sum 1 (tl fs) 0 0) (\<lambda>(tot, idle).
       if tot = 0 then Inl (Panic ''integer divide by zero'')
       else Inr (Sprint_int (int64 (int64 (100 * int64 (tot - idle)) sdiv tot))))"

fun getCpuUsage :: "string list \<Rightarrow> string \<Rightarrow> string res" where
  "getCpuUsage [] rate = Inr rate"
| "getCpuUsage (l # ls) rate =
     (let fs = Fields (TrimSpace l) in
      if 5 \<le> length fs \<and> fs ! 0 = ''cpu'' then rbind (cpu_rate fs) (getCpuUsage ls) else getCpuUsage ls rate)"

function getMemUsage :: "string \<Rightarrow> string \<times> string \<times> string \<Rightarrow> (string \<times> string \<times> string) res" where
  "getMemUsage out r =
     (case ReadString (CHR 0x0A) out of
        None \<Rightarrow> if fst r = [] then Inl (Err ''Mem line is not found from free -m'') else Inr r
      | Some (line, rest) \<Rightarrow>
          let line = TrimSpace line; fs = Fields line in
          getMemUsage rest (if take 3 line = ''Mem'' \<and> 4 \<le> length fs then (fs ! 1, fs ! 2, fs ! 3) else r))"
  by pat_completeness auto

termination by (relation "measure (\<lambda>(out, _). length out)") (auto dest: ReadString_shorter)

function getDiskUsage :: "string \<Rightarrow> (string \<times> string \<times> string) res" where
  "getDiskUsage out =
     (case ReadString (CHR 0x0A) out of
        None \<Rightarrow> Inl (Err ''No /dev/ line is found from df -h'')
      | Some (line, rest) \<Rightarrow>
          let line = TrimSpace line; fs = Fields line in
          if take 5 line = ''/dev/'' \<and> 6 \<le> length fs then Inr (fs ! 1, fs ! 2, fs ! 3) else getDiskUsage rest)"
  by pat_completeness auto

termination by (relation "measure length") (auto dest: ReadString_shorter)

declare getMemUsage.simps [simp del] getDiskUsage.simps [simp del]

text \<open>The first user of a list separated by commas that the system knows.\<close>

fun split_comma :: "string \<Rightarrow> string list" where
  "split_comma [] = [[]]"
| "split_comma (c # cs) = (if c = CHR '','' then [] # split_comma cs else (case split_comma cs of [] \<Rightarrow> [[c]] | p # ps \<Rightarrow> (c # p) # ps))"

definition checkUser :: "(string \<Rightarrow> 'u option) \<Rightarrow> string \<Rightarrow> 'u res" where
  "checkUser lookup users =
     (case List.map_filter (\<lambda>u. let u = TrimSpace u in if u = [] then None else lookup u) (split_comma users) of
        [] \<Rightarrow> Inl (Err ''no available user from configure file'')
      | u # _ \<Rightarrow> Inr u)"

record process_info =
  pi_Pid :: "32 word"
  pi_Name :: string
  StartedTimes :: "32 word"
  pi_Status :: process_status

definition process_infos :: "processMonitor list \<Rightarrow> process_info list" where
  "process_infos ms =
     map (\<lambda>m. \<lparr>pi_Pid = of_nat (m_pid m), pi_Name = prog_short (m_prog m), StartedTimes = ucast (m_starts m), pi_Status = m_status m\<rparr>) ms"

section \<open>Orphans are found again\<close>

fun live_step :: "file_event \<Rightarrow> (nat \<times> string) list \<Rightarrow> (nat \<times> string) list" where
  "live_step (Process_started pid prog) live = live @ [(pid, prog)]"
| "live_step (Process_ended pid prog) live = filter (\<lambda>x. x \<noteq> (pid, prog)) live"

text \<open>The line of the second process also mentions the number and the name of the first.\<close>

definition clash :: "nat \<times> string \<Rightarrow> nat \<times> string \<Rightarrow> bool" where
  "clash p q \<longleftrightarrow> (let l = pid_line (fst q) (snd q) in Contains l (Itoa (fst p)) \<and> Contains l (prog_short (snd p)))"

fun file_valid :: "(nat \<times> string) list \<Rightarrow> file_event list \<Rightarrow> bool" where
  "file_valid live [] \<longleftrightarrow> True"
| "file_valid live (Process_started pid prog # evs) \<longleftrightarrow>
     pid < 2 ^ 63 \<and> list_all (\<lambda>q. \<not> clash (pid, prog) q \<and> \<not> clash q (pid, prog)) live \<and> file_valid (live @ [(pid, prog)]) evs"
| "file_valid live (Process_ended pid prog # evs) \<longleftrightarrow>
     (pid, prog) \<in> set live \<and> file_valid (filter (\<lambda>x. x \<noteq> (pid, prog)) live) evs"

lemma Contains_prefix: "Contains (t @ b) t"
  by (cases t; cases b) auto

lemma Contains_append: "Contains (a @ t @ b) t"
  by (induction a) (use Contains_prefix in auto)

lemma clash_self: "clash p p"
  using Contains_prefix[of "Itoa (fst p)"] Contains_append[of "Itoa (fst p) @ ''/''" "prog_short (snd p)" "[]"]
  by (simp add: clash_def pid_line_def)

definition recorded :: "(nat \<times> string) list \<Rightarrow> string list" where
  "recorded live = map (\<lambda>(pid, prog). pid_line pid prog) live"

definition apart :: "(nat \<times> string) list \<Rightarrow> bool" where
  "apart live \<longleftrightarrow> list_all (\<lambda>p. fst p < 2 ^ 63 \<and> list_all (\<lambda>q. clash p q \<longrightarrow> q = p) live) live"

lemma remove_recorded:
  assumes "apart live" "(pid, prog) \<in> set live"
  shows "removePidLine pid prog (recorded live) = recorded (filter (\<lambda>x. x \<noteq> (pid, prog)) live)"
proof -
  have "clash (pid, prog) (i, g) \<longleftrightarrow> (i, g) = (pid, prog)" if "(i, g) \<in> set live" for i g
    using assms that clash_self[of "(pid, prog)"] unfolding apart_def list_all_iff by metis
  then have "(\<not> (Contains (pid_line i g) (Itoa pid) \<and> Contains (pid_line i g) (prog_short prog))) = ((i, g) \<noteq> (pid, prog))"
    if "(i, g) \<in> set live" for i g using that by (auto simp: clash_def Let_def)
  then have "filter ((\<lambda>l. \<not> (Contains l (Itoa pid) \<and> Contains l (prog_short prog))) \<circ> (\<lambda>(i, g). pid_line i g)) live =
      filter (\<lambda>x. x \<noteq> (pid, prog)) live" by (intro filter_cong) auto
  then show ?thesis by (simp only: removePidLine_def recorded_def filter_map)
qed

lemma file_follows:
  "apart live \<Longrightarrow> file_valid live evs \<Longrightarrow>
     fold file_step evs (recorded live) = recorded (fold live_step evs live) \<and> apart (fold live_step evs live)"
proof (induction live evs rule: file_valid.induct)
  case (2 live pid prog evs)
  have "apart (live @ [(pid, prog)])" using 2(2,3) clash_self by (auto simp: apart_def list_all_iff)
  then show ?case using 2 by (simp add: addPidLine_def recorded_def)
next
  case (3 live pid prog evs)
  have "apart (filter (\<lambda>x. x \<noteq> (pid, prog)) live)" using 3(2) by (auto simp: apart_def list_all_iff)
  then show ?case using 3 remove_recorded[of live pid prog] by simp
qed simp

lemma Itoa_no_slash: "CHR ''/'' \<notin> set (Itoa n)"
  using Itoa_digits[of "CHR ''/''" n] by auto

lemma pid_entry_line:
  assumes "pid < 2 ^ 63"
  shows "pid_entry alive (pid_line pid prog) = (if alive (Itoa pid) then Some (int pid, prog_short prog) else None)"
proof -
  have t: "takeWhile (\<lambda>c. c \<noteq> CHR ''/'') (Itoa pid @ CHR ''/'' # x) = Itoa pid" "dropWhile (\<lambda>c. c \<noteq> CHR ''/'') (Itoa pid @ CHR ''/'' # x) = CHR ''/'' # x" for x
    using Itoa_no_slash[of pid] by (auto simp: takeWhile_append2 dropWhile_append2 takeWhile_tail dropWhile_append3)
  show ?thesis using ParseInt_Itoa[OF assms] by (simp add: pid_entry_def pid_line_def t)
qed

lemma processPidFile_recorded:
  assumes "list_all (\<lambda>p. fst p < 2 ^ 63) live"
  shows "processPidFile alive (recorded live) = map (\<lambda>(pid, prog). (int pid, prog_short prog)) (filter (\<lambda>(pid, prog). alive (Itoa pid)) live)"
  using assms by (induction live) (auto simp: processPidFile_def recorded_def List.map_filter_simps pid_entry_line)

text \<open>C18. C18.
  Let processes be started and ended in any order, such that at no time the line of one recorded process contains the
  number and the program name of another (as the line of process 123 of a program contains those of process 12, see
  \<open>pid_line_lost\<close>). When the supervisor dies, the next one shuts down exactly those processes that were recorded as running
  and still are, by their numbers and in the order of their starts.
\<close>

theorem orphans_recovered:
  assumes "file_valid [] evs"
  shows "processPidFile alive (fold file_step evs []) =
    map (\<lambda>(pid, prog). (int pid, prog_short prog)) (filter (\<lambda>(pid, prog). alive (Itoa pid)) (fold live_step evs []))"
proof -
  have "fold file_step evs [] = recorded (fold live_step evs [])" "apart (fold live_step evs [])"
    using file_follows[of "[]" evs] assms by (auto simp: recorded_def apart_def)
  then show ?thesis using processPidFile_recorded[of "fold live_step evs []" alive] by (auto simp: apart_def list_all_iff)
qed

theorem orphans_recovered_witness:
  "processPidFile (\<lambda>_. True) (fold file_step [Process_started 41 ''/bin/tgwad'', Process_started 42 ''/bin/twebd'', Process_ended 41 ''/bin/tgwad''] []) =
     [(42, ''twebd'')]"
proof -
  let ?evs = "[Process_started 41 ''/bin/tgwad'', Process_started 42 ''/bin/twebd'', Process_ended 41 ''/bin/tgwad'']"
  have n: "Itoa 41 = ''41''" "Itoa 42 = ''42''" by code_simp+
  have "file_valid [] ?evs" by (simp add: clash_def pid_line_def prog_short_def n)
  from orphans_recovered[OF this, of "\<lambda>_. True"] show ?thesis by (simp add: prog_short_def)
qed

text \<open>
  With two processes of one program, of which one number is part of the other, the end of one removes the line of the other:
  that one is not found again.
\<close>

theorem pid_line_lost:
  "removePidLine 12 prog (addPidLine 123 prog (addPidLine 12 prog [])) = []"
proof -
  have "Contains (pid_line 12 prog) (Itoa 12)" "Contains (pid_line 123 prog) (Itoa 12)"
    by (simp_all add: pid_line_def Itoa.simps)
  moreover have "Contains (pid_line n prog) (prog_short prog)" for n
    using Contains_append[of "Itoa n @ ''/''" "prog_short prog" "[]"] by (simp add: pid_line_def)
  ultimately show ?thesis by (simp add: removePidLine_def addPidLine_def)
qed

section \<open>Launching\<close>

text \<open>The specification: the number of launches since the last stable run decides how a monitor goes on.\<close>

datatype verdict = Short_wait | Long_wait | Gave_up | Ended | Never

fun supervise :: "launch_config \<Rightarrow> nat \<Rightarrow> nat \<Rightarrow> nat \<Rightarrow> launch list \<Rightarrow> verdict" where
  "supervise cfg S L c [] = (if c < S then Short_wait else if c < S + L then Long_wait else Gave_up)"
| "supervise cfg S L c (l # ls) =
     (if S + L \<le> c then Gave_up
      else (case l of Shut _ \<Rightarrow> Ended | _ \<Rightarrow> supervise cfg S L (if stable cfg l then 0 else Suc c) ls))"

fun verdict_of :: "decision \<Rightarrow> verdict" where
  "verdict_of (Wait_short m) = Short_wait"
| "verdict_of (Wait_long m) = Long_wait"
| "verdict_of (Finished m) = (if m_status m = Stopped then Ended else Gave_up)"
| "verdict_of Spinning = Never"

text \<open>How the two counters stand for the one of the specification.\<close>

definition counts :: "nat \<Rightarrow> nat \<Rightarrow> nat \<Rightarrow> point \<Rightarrow> processMonitor \<Rightarrow> bool" where
  "counts S L c p m \<longleftrightarrow> m_status m \<noteq> Stopped \<and> m_status m \<noteq> Running \<and>
     (case p of
        Outer \<Rightarrow> c = 0
      | Short \<Rightarrow> counter_1 m = int c \<and> c \<le> S
      | Long \<Rightarrow> counter_1 m = int S \<and> counter_2 m = int c - int S \<and> S \<le> c \<and> c \<le> S + L \<or> counter_1 m = 0 \<and> counter_2 m = 0 \<and> c = 0)"

lemma control_decides:
  assumes "SLaunchTimes cfg = int S" "LLaunchTimes cfg = int L" "counts S L c p m"
  shows "\<exists>m'. m_status m' = m_status m \<and>
    (if c < S then control 6 cfg p m = Wait_short m' \<and> counts S L c Short m'
     else if c < S + L then control 6 cfg p m = Wait_long m' \<and> counts S L c Long m'
     else control 6 cfg p m = Finished m')"
proof -
  have six: "(6 :: nat) = Suc (Suc (Suc (Suc (Suc (Suc 0)))))" by simp
  consider "c < S" | "S \<le> c" "c < S + L" | "S + L \<le> c" by linarith
  then show ?thesis
  proof cases
    case 1
    then show ?thesis using assms unfolding six by (cases p) (auto simp: counts_def)
  next
    case 2
    then show ?thesis using assms unfolding six by (cases p) (auto simp: counts_def)
  next
    case 3
    then show ?thesis using assms unfolding six by (cases p) (auto simp: counts_def)
  qed
qed

lemma control_stopped:
  assumes "m_status m = Stopped"
  shows "\<exists>m'. control 6 cfg p m = Finished m' \<and> m_status m' = Stopped"
proof -
  have six: "(6 :: nat) = Suc (Suc (Suc (Suc (Suc (Suc 0)))))" by simp
  show ?thesis using assms unfolding six by (cases p) auto
qed

lemma monitor_stopped: "m_status m = Stopped \<Longrightarrow> verdict_of (monitor cfg p ls m) = Ended"
  using control_stopped[of m cfg p] by (cases ls) auto

lemma launch_short_counts:
  assumes "counts S L c Short m" "c < S" "\<forall>pid. l \<noteq> Shut pid"
  shows "counts S L (if stable cfg l then 0 else Suc c) Short (launch_short cfg l m)"
  using assms by (cases l) (auto simp: counts_def launch_short_def runOnce_def started_def Let_def stable_def)

lemma launch_long_counts:
  assumes "counts S L c Long m" "S \<le> c" "c < S + L" "\<forall>pid. l \<noteq> Shut pid"
  shows "counts S L (if stable cfg l then 0 else Suc c) Long (launch_long cfg l m)"
  using assms by (cases l) (auto simp: counts_def launch_long_def runOnce_def started_def Let_def stable_def)

lemma launch_shut: "m_status (launch_short cfg (Shut pid) m) = Stopped" "m_status (launch_long cfg (Shut pid) m) = Stopped"
  by (simp_all add: launch_short_def launch_long_def runOnce_def Let_def)

lemma monitor_supervises:
  assumes "SLaunchTimes cfg = int S" "LLaunchTimes cfg = int L" "counts S L c p m"
  shows "verdict_of (monitor cfg p ls m) = supervise cfg S L c ls"
  using assms(3)
proof (induction ls arbitrary: c p m)
  case Nil
  then show ?case using control_decides[OF assms(1,2) Nil] by (auto simp: counts_def split: if_splits)
next
  case (Cons l ls)
  obtain m' where m': "m_status m' = m_status m"
    "if c < S then control 6 cfg p m = Wait_short m' \<and> counts S L c Short m'
     else if c < S + L then control 6 cfg p m = Wait_long m' \<and> counts S L c Long m'
     else control 6 cfg p m = Finished m'"
    using control_decides[OF assms(1,2) Cons.prems] by blast
  have ns: "m_status m' \<noteq> Stopped" using m'(1) Cons.prems by (simp add: counts_def)
  consider "c < S" | "S \<le> c" "c < S + L" | "S + L \<le> c" by linarith
  then show ?case
  proof cases
    case 1
    then show ?thesis
    proof (cases "\<exists>pid. l = Shut pid")
      case True
      then show ?thesis using 1 m'(2) monitor_stopped launch_shut by auto
    next
      case False
      then have "counts S L (if stable cfg l then 0 else Suc c) Short (launch_short cfg l m')" using launch_short_counts 1 m'(2) by auto
      from Cons.IH[OF this] show ?thesis using 1 m'(2) False by (cases l) auto
    qed
  next
    case 2
    then show ?thesis
    proof (cases "\<exists>pid. l = Shut pid")
      case True
      then show ?thesis using 2 m'(2) monitor_stopped launch_shut by auto
    next
      case False
      then have "counts S L (if stable cfg l then 0 else Suc c) Long (launch_long cfg l m')" using launch_long_counts 2 m'(2) by auto
      from Cons.IH[OF this] show ?thesis using 2 m'(2) False by (cases l) auto
    qed
  next
    case 3
    then show ?thesis using m'(2) ns by auto
  qed
qed

text \<open>C17. 
  The two nested loops with their counters keep a program running as specified: after a stable run the count of failed launches
  starts again, below the first limit the next launch follows after the short interval, below the sum of both limits after the
  long one, then the monitor gives up; and a program the supervisor shut down is not launched again.
\<close>

theorem monitor_refines:
  assumes "SLaunchTimes cfg = int S" "LLaunchTimes cfg = int L"
  shows "verdict_of (monitor cfg Outer ls (new_monitor prog)) = supervise cfg S L 0 ls"
  using monitor_supervises[OF assms] by (simp add: counts_def new_monitor_def)

definition default_launch :: launch_config where
  "default_launch = \<lparr>SLaunchInterval = 1, SLaunchTimes = 30, LLaunchInterval = 10, LLaunchTimes = 30\<rparr>"

theorem monitor_refines_witness:
  "verdict_of (monitor default_launch Outer (replicate 59 (Ran 7 0)) (new_monitor ''twebd'')) = Long_wait \<and>
   verdict_of (monitor default_launch Outer (replicate 60 (Ran 7 0)) (new_monitor ''twebd'')) = Gave_up \<and>
   verdict_of (monitor default_launch Outer (replicate 59 (Ran 7 0) @ [Ran 7 3600]) (new_monitor ''twebd'')) = Short_wait"
proof -
  have c: "SLaunchTimes default_launch = int 30" "LLaunchTimes default_launch = int 30" by (simp_all add: default_launch_def)
  have "supervise default_launch 30 30 k (replicate n (Ran 7 0) @ ls) = supervise default_launch 30 30 (k + n) ls" if "k + n \<le> 60" for k n ls
    using that by (induction n arbitrary: k) (auto simp: stable_def default_launch_def)
  note run = this
  have "supervise default_launch 30 30 0 (replicate 59 (Ran 7 0)) = Long_wait" using run[of 0 59 "[]"] by simp
  moreover have "supervise default_launch 30 30 0 (replicate 60 (Ran 7 0)) = Gave_up" using run[of 0 60 "[]"] by simp
  moreover have "supervise default_launch 30 30 0 (replicate 59 (Ran 7 0) @ [Ran 7 3600]) = Short_wait"
    using run[of 0 59 "[Ran 7 3600]"] by (simp add: stable_def default_launch_def)
  ultimately show ?thesis unfolding monitor_refines[OF c] by simp
qed

text \<open>A negative number of quick retries makes the loops turn without ever launching or ending.\<close>

theorem negative_times_spin:
  assumes "SLaunchTimes cfg < 0" "m_status m = New \<or> m_status m = Died"
  shows "control n cfg Outer m = Spinning"
proof -
  have spin: "0 \<le> counter_1 m \<Longrightarrow> m_status m = New \<or> m_status m = Died \<Longrightarrow> control n cfg p m = Spinning" for n p m
  proof (induction n arbitrary: p m)
    case (Suc n)
    then show ?case using assms(1) by (cases p) auto
  qed simp
  show ?thesis using spin[of "m\<lparr>counter_1 := 0\<rparr>"] assms(2) by (cases n) auto
qed

theorem negative_times_spin_witness: "control 1000 \<lparr>SLaunchInterval = 1, SLaunchTimes = -1, LLaunchInterval = 10, LLaunchTimes = 30\<rparr> Outer (new_monitor ''twebd'') = Spinning"
  by (rule negative_times_spin) (simp_all add: new_monitor_def)

text \<open>
  The wait for all processes to stop looks for running ones only: a monitor whose program has crashed counts as stopped, and its
  next step, which looks at no cancellation, launches the program again.
\<close>

theorem crashed_monitor_relaunches:
  assumes "0 < SLaunchTimes cfg" "m_status m = Died"
  shows "all_stopped [m] \<and> (\<exists>m'. control 6 cfg Outer m = Wait_short m')"
proof -
  have six: "(6 :: nat) = Suc (Suc (Suc (Suc (Suc (Suc 0)))))" by simp
  show ?thesis using assms unfolding six by (simp add: all_stopped_def)
qed

section \<open>Shutting down ends\<close>

lemma shut_loop_kill: "Kill_timer \<in> set evs \<Longrightarrow> snd (shut_loop evs)"
  by (induction evs rule: shut_loop.induct) (auto split: prod.splits)

lemma shut_loop_reason: "SIGKILL \<in> set (fst (shut_loop evs)) \<Longrightarrow> Kill_timer \<in> set evs \<or> Int_timer True \<in> set evs"
  by (induction evs rule: shut_loop.induct) (auto split: prod.splits if_splits)

lemma shut_loop_last: "SIGKILL \<notin> set (butlast (fst (shut_loop evs)))"
  by (induction evs rule: shut_loop.induct) (auto split: prod.splits if_splits)

text \<open>
  Shutting a process down ends at the latest when the timer for killing fires. Before anything else the process is interrupted,
  and it is killed only as the last signal and only because that timer fired or because killing was asked for when the second
  timer fired.
\<close>

theorem shutDown_ends:
  assumes "Kill_timer \<in> set evs"
  shows "snd (shutDown evs) \<and> hd (fst (shutDown evs)) = SIGINT \<and> SIGKILL \<notin> set (butlast (fst (shutDown evs)))"
  using shut_loop_kill[OF assms] shut_loop_last[of evs] by (auto simp: shutDown_def split: prod.splits)

theorem shutDown_ends_witness:
  "snd (shutDown [Status_tick True, Int_timer False, Status_tick True, Kill_timer])"
  using shutDown_ends[of "[Status_tick True, Int_timer False, Status_tick True, Kill_timer]"] by simp

section \<open>Figures\<close>

lemma int64_id: "- (2 ^ 63) \<le> i \<Longrightarrow> i < 2 ^ 63 \<Longrightarrow> int64 i = i"
  unfolding int64_def by (simp add: signed_of_int signed_take_bit_int_eq_self)

lemma sdiv_nat: "0 < b \<Longrightarrow> int a sdiv int b = int (a div b)"
  by (cases "a = 0") (simp_all add: signed_divide_int_def sgn_if zdiv_int)

lemma cpu_sum_exact:
  assumes "int (sum_list ns) + t < 2 ^ 63" "0 \<le> t"
  shows "cpu_sum i (map Itoa ns) t idle = Inr (t + int (sum_list ns), if i \<le> 4 \<and> 4 < i + length ns then int (ns ! (4 - i)) else idle)"
  using assms
proof (induction ns arbitrary: i t idle)
  case (Cons n ns)
  have n: "n < 2 ^ 63" "int64 (t + int n) = t + int n" using Cons.prems by (auto intro!: int64_id)
  have "cpu_sum i (map Itoa (n # ns)) t idle = cpu_sum (Suc i) (map Itoa ns) (t + int n) (if i = 4 then int n else idle)"
    using ParseInt_Itoa[OF n(1)] n(2) by simp
  also have "\<dots> = Inr (t + int n + int (sum_list ns), if Suc i \<le> 4 \<and> 4 < Suc i + length ns then int (ns ! (4 - Suc i)) else if i = 4 then int n else idle)"
    using Cons.prems by (intro Cons.IH) auto
  also have "\<dots> = Inr (t + int (sum_list (n # ns)), if i \<le> 4 \<and> 4 < i + length (n # ns) then int ((n # ns) ! (4 - i)) else idle)"
    by (auto simp: Suc_diff_le nth_Cons' le_less_Suc_eq)
  finally show ?case .
qed simp

text \<open>C37. 
  The share of time the processors were busy, computed from the sums of the columns of \<^verbatim>\<open>/proc/stat\<close>, is the percentage rounded
  down and at most 100, as long as a hundred times the sum fits into 64 bits.
\<close>

theorem cpu_rate_exact:
  assumes "4 \<le> length ns" "0 < sum_list ns" "100 * sum_list ns < 2 ^ 63"
  shows "cpu_rate (''cpu'' # map Itoa ns) = Inr (Itoa (100 * (sum_list ns - ns ! 3) div sum_list ns)) \<and>
    100 * (sum_list ns - ns ! 3) div sum_list ns \<le> 100"
proof -
  have le: "ns ! 3 \<le> sum_list ns" using assms(1) by (intro elem_le_sum_list) simp
  have s: "cpu_sum 1 (map Itoa ns) 0 0 = Inr (int (sum_list ns), int (ns ! 3))"
    using cpu_sum_exact[of ns 0 1 0] assms by simp
  have d: "int (sum_list ns) - int (ns ! 3) = int (sum_list ns - ns ! 3)" using le by simp
  have "100 * (sum_list ns - ns ! 3) < 2 ^ 63" using assms(3) by (meson diff_le_self le_less_trans mult_le_mono2)
  then have b: "int (sum_list ns - ns ! 3) < 2 ^ 63" "100 * int (sum_list ns - ns ! 3) < 2 ^ 63" by simp_all
  have q: "(100 * int (sum_list ns - ns ! 3)) sdiv int (sum_list ns) = int (100 * (sum_list ns - ns ! 3) div sum_list ns)"
    using sdiv_nat[OF assms(2), of "100 * (sum_list ns - ns ! 3)"] by simp
  have u: "100 * (sum_list ns - ns ! 3) div sum_list ns \<le> 100"
  proof -
    have "100 * (sum_list ns - ns ! 3) div sum_list ns \<le> 100 * sum_list ns div sum_list ns" by (intro div_le_mono) simp
    then show ?thesis using assms(2) by simp
  qed
  have "int64 (100 * int64 (int (sum_list ns) - int (ns ! 3))) = 100 * int (sum_list ns - ns ! 3)"
    unfolding d using b int64_id[of "int (sum_list ns - ns ! 3)"] int64_id[of "100 * int (sum_list ns - ns ! 3)"] by force
  then show ?thesis using s q u assms(2) int64_id[of "int (100 * (sum_list ns - ns ! 3) div sum_list ns)"]
    by (simp add: cpu_rate_def Sprint_int_def del: sum_list_eq_0_iff)
qed

theorem cpu_rate_exact_witness: "cpu_rate (''cpu'' # map Itoa [30, 0, 10, 60]) = Inr (Itoa 40)"
  using cpu_rate_exact[of "[30, 0, 10, 60]"] by (simp add: numeral_3_eq_3)

end
