(* ===== verification/Incident_Transfer.thy ===== *)
theory Incident_Transfer
  imports Multicast
begin

text \<open>
  The transfer of an incident from one site to another: the request at the origin (\<^verbatim>\<open>siteCreate\<close> of
  \<^verbatim>\<open>twebd/public/multicast.go\<close>), the multicast stage there, the inserter of the receiving site
  (\<^verbatim>\<open>tms/db/inserter.go\<close>), its incident stage (\<^verbatim>\<open>tanalyzed/incident.go\<close>) and the delivery reports back.
\<close>

section \<open>Starting a transfer\<close>

record msite =
  st_Id :: string
  st_Name :: string
  SiteId :: nat

text \<open>
  What the request meets: the answers of \<^verbatim>\<open>authorized\<close> for the multicast and for the incident, the search for the site, the
  local site, the identifiers the database creates and which of its calls succeed.
\<close>

record cenv =
  c_auth :: bool
  c_auth_incident :: bool
  c_site :: "string \<Rightarrow> msite res"
  c_local :: msite
  c_mc :: string
  c_tr :: string
  c_get :: bool
  c_upsert :: bool
  c_create :: bool
  c_store :: bool

definition send_note :: "string \<Rightarrow> msite \<Rightarrow> msite \<Rightarrow> string" where
  "send_note i st l =
     ''Incident '' @ i @ '' sent to '' @ st_Name st @ '' ('' @ Itoa (SiteId st) @ '') from '' @ st_Name l @ '' ('' @ Itoa (SiteId l) @ '')''"

definition hand_off :: "msite \<Rightarrow> msite \<Rightarrow> incident \<Rightarrow> incident" where
  "hand_off st l i =
     i\<lparr>in_State := Incident_Closed, Synopsis := ''Incident transferred'', Outcome := ''Hand Off'',
       in_Log := in_Log i @
         [\<lparr>le_Type = ''ACTION_TRANSFER_SEND'', le_Note = send_note (IncidentId i) st l, le_Attachment = None,
           le_Entity = Some (''prisma.tms.moc.Site'', st_Id st)\<rparr>,
          \<lparr>le_Type = ''ACTION_CLOSE'', le_Note = [], le_Attachment = None, le_Entity = None\<rparr>]\<rparr>"

text \<open>
  The request names a site and carries a payload with its type. Only the bare name of the type of an incident is recognised;
  with any other the multicast is stored without a payload.
\<close>

definition load_incident :: "cenv \<Rightarrow> msite \<Rightarrow> string \<Rightarrow> incident option \<Rightarrow> mstate \<Rightarrow> (mstate \<times> incident option) res" where
  "load_incident e st typeUrl payload s =
     (if typeUrl \<noteq> ''prisma.tms.moc.Incident'' then Inr (s, None)
      else if \<not> c_auth_incident e then Inl (Err ''unauthorized'')
      else
        (case payload of
           None \<Rightarrow> Inr (s, None)
         | Some p \<Rightarrow>
             (case (if c_get e then incs s (in_Id p) else None) of
                None \<Rightarrow> Inl (Err ''not found'')
              | Some stored \<Rightarrow>
                  let i = hand_off st (c_local e) (stored\<lparr>in_Id := in_Id p\<rparr>) in
                  if \<not> c_upsert e then Inl (Err ''upsert'')
                  else Inr (s\<lparr>incs := (incs s)(in_Id i \<mapsto> i)\<rparr>, Some (i\<lparr>in_State := Incident_Transferring\<rparr>)))))"

definition siteCreate :: "cenv \<Rightarrow> string \<Rightarrow> string \<Rightarrow> incident option \<Rightarrow> mstate \<Rightarrow> mstate \<times> unit res" where
  "siteCreate e sid typeUrl payload s =
     (if \<not> c_auth e then (s, Inl (Err ''unauthorized''))
      else
        (case c_site e sid of
           Inl err \<Rightarrow> (s, Inl err)
         | Inr st \<Rightarrow>
             (case load_incident e st typeUrl payload s of
                Inl err \<Rightarrow> (s, Inl err)
              | Inr (s, transferPayload) \<Rightarrow>
                  let t = \<lparr>tn_Id = c_tr e, tn_ParentId = c_mc e, tn_MessageId = [], Dest_Type = ''prisma.tms.moc.Site'', Dest_Id = st_Id st,
                           tn_Packets = [], tn_State = Transmission_Pending, tn_Status = None\<rparr>;
                      mc = \<lparr>mc_Id = c_mc e, mc_Payload = Inr transferPayload, mc_Transmissions = [t]\<rparr> in
                  if \<not> c_create e then (s, Inl (Err ''create''))
                  else
                    let s = s\<lparr>trs := (trs s)(c_tr e \<mapsto> t)\<rparr> in
                    if \<not> c_store e then (s, Inl (Err ''store''))
                    else (s\<lparr>mcs := (mcs s)(c_mc e \<mapsto> mc)\<rparr>, Inr ()))))"

section \<open>The inserter\<close>

text \<open>The messages it listens for. Bodies it only hands to a collection are represented by a text.\<close>

datatype dbody =
    Track_body string | Report_body "string list" | Transmission_body string | Activity_body string | Device_body string | Site_body string
  | Moc_body mbody

datatype dstream = trackStream | reportStream | tranStream | activityStream | deviceStream | siteStream | incidentStream | fileStream

record tmessage =
  tg_Source :: "nat option"
  NotifySent :: int
  tg_Body :: dbody

datatype ins_event = Ctxt_Done | Ticker | Received dstream "tmessage option"

text \<open>A report: where it is sent, the identifier it is about and the status.\<close>

type_synonym report = "nat option \<times> int \<times> dr_status"

record inserter =
  totalInserts :: "64 word"
  totalErrors :: "64 word"
  insertsSinceLastTick :: "64 word"
  inserted :: "dbody list"
  d_incs :: "string \<rightharpoonup> incident"
  d_reports :: "report list"

text \<open>The environment: what the collections accept and the identifier of a new incident.\<close>

record ienv =
  i_ok :: "dbody \<Rightarrow> bool"
  i_new :: string

definition d_error :: "inserter \<Rightarrow> inserter" where
  "d_error d = d\<lparr>totalErrors := totalErrors d + 1\<rparr>"

definition d_count :: "inserter \<Rightarrow> inserter" where
  "d_count d = d\<lparr>insertsSinceLastTick := insertsSinceLastTick d + 1, totalInserts := totalInserts d + 1\<rparr>"

definition d_report :: "tmessage \<Rightarrow> dr_status \<Rightarrow> inserter \<Rightarrow> inserter" where
  "d_report m r d = d\<lparr>d_reports := d_reports d @ [(tg_Source m, NotifySent m, r)]\<rparr>"

text \<open>Insertion into a collection: it counts whether it succeeds or not, and an error counts once more.\<close>

definition insert_counted :: "ienv \<Rightarrow> dbody \<Rightarrow> inserter \<Rightarrow> inserter" where
  "insert_counted e b d =
     (if i_ok e b then d_count (d\<lparr>inserted := inserted d @ [b]\<rparr>) else d_error (d_count d))"

definition insert_incident :: "ienv \<Rightarrow> tmessage \<Rightarrow> incident \<Rightarrow> inserter \<Rightarrow> inserter \<times> unit res" where
  "insert_incident e m i d =
     (if in_State i \<noteq> Incident_Transferring then (d, Inr ())
      else if in_Log i = [] then (d, Inl OutOfRange)
      else
        (case tg_Source m of
           None \<Rightarrow> (d, Inl NilDeref)
         | Some site \<Rightarrow>
             let i = i\<lparr>in_Log := butlast (in_Log i) @ [(last (in_Log i))\<lparr>le_Note := Itoa site @ '' '' @ Sprint_int (NotifySent m)\<rparr>]\<rparr> in
             if i_ok e (Moc_body (Incident_body i))
             then (d_count (d_report m DeliveryReport_PROCESSED (d\<lparr>d_incs := (d_incs d)(i_new e \<mapsto> i)\<rparr>)), Inr ())
             else (d_report m DeliveryReport_FAILED (d_error d), Inr ())))"

definition doInsert :: "ienv \<Rightarrow> ins_event \<Rightarrow> inserter \<Rightarrow> inserter \<times> unit res" where
  "doInsert e ev d =
     (case ev of
        Ctxt_Done \<Rightarrow> (d, Inr ())
      | Ticker \<Rightarrow> (d\<lparr>insertsSinceLastTick := 0\<rparr>, Inr ())
      | Received st None \<Rightarrow> (d, Inl NilDeref)
      | Received st (Some m) \<Rightarrow>
          (case (st, tg_Body m) of
             (trackStream, Track_body t) \<Rightarrow> (insert_counted e (Track_body t) d, Inr ())
           | (tranStream, Transmission_body t) \<Rightarrow> (insert_counted e (Transmission_body t) d, Inr ())
           | (activityStream, Activity_body t) \<Rightarrow> (insert_counted e (Activity_body t) d, Inr ())
           | (deviceStream, Device_body t) \<Rightarrow> (insert_counted e (Device_body t) d, Inr ())
           | (reportStream, Report_body ts) \<Rightarrow> (fold (\<lambda>t. insert_counted e (Track_body t)) ts d, Inr ())
           | (siteStream, Site_body t) \<Rightarrow>
               (if i_ok e (Site_body t) then d_count (d\<lparr>inserted := inserted d @ [Site_body t]\<rparr>) else d_error d, Inr ())
           | (fileStream, Moc_body (File_body a)) \<Rightarrow>
               (let d = (if i_ok e (Moc_body (File_body a)) then d\<lparr>inserted := inserted d @ [Moc_body (File_body a)]\<rparr> else d) in
                (d_count (d_report m DeliveryReport_PROCESSED d), Inr ()))
           | (incidentStream, Moc_body (Incident_body i)) \<Rightarrow> insert_incident e m i d
           | _ \<Rightarrow> (d_error d, Inr ())))"

section \<open>The incident stage\<close>

text \<open>The site and the identifier in the note of the last entry; \<^verbatim>\<open>uint32\<close> of a negative number wraps.\<close>

definition note_address :: "string \<Rightarrow> nat \<times> int" where
  "note_address note =
     (case Fields note of
        [a, b] \<Rightarrow> (case ParseInt32 a of None \<Rightarrow> 0 | Some x \<Rightarrow> nat (x mod 2 ^ 32), case ParseInt32 b of None \<Rightarrow> 0 | Some x \<Rightarrow> x)
      | _ \<Rightarrow> (0, 0))"

record inotice =
  nt_Key :: string
  nt_IncidentId :: string
  nt_Name :: string

record istage =
  is_incs :: "string \<rightharpoonup> incident"
  is_reports :: "report list"
  is_notices :: "inotice list"

text \<open>The environment: sites by number, the local site, the next identifier of an incident and whether the write succeeds.\<close>

record senv =
  s_site :: "nat \<Rightarrow> msite option"
  s_local :: msite
  s_next :: string
  s_upsert :: bool

definition receive_note :: "string \<Rightarrow> msite \<Rightarrow> msite \<Rightarrow> string" where
  "receive_note i l st =
     ''Incident '' @ i @ '' received at '' @ st_Name l @ '' ('' @ Itoa (SiteId l) @ '') from '' @ st_Name st @ '' ('' @ Itoa (SiteId st) @ '')''"

definition accept :: "senv \<Rightarrow> string \<Rightarrow> msite \<Rightarrow> incident \<Rightarrow> incident" where
  "accept e cid st i =
     i\<lparr>in_Id := cid, IncidentId := s_next e, in_State := Incident_Transferred, Assignee := [], Commander := [], Outcome := [], Synopsis := [],
       in_Log := butlast (in_Log i) @
         [(last (in_Log i))\<lparr>le_Note := IncidentId i\<rparr>,
          \<lparr>le_Type = ''ACTION_TRANSFER_RECEIVE'', le_Note = receive_note (IncidentId i) (s_local e) st, le_Attachment = None,
           le_Entity = Some (''prisma.tms.moc.Site'', st_Id st)\<rparr>]\<rparr>"

datatype iupdate = Load_done | No_content | Bad_content | Content string incident

definition incident_update :: "senv \<Rightarrow> iupdate \<Rightarrow> istage \<Rightarrow> istage \<times> unit res" where
  "incident_update e u s =
     (case u of
        Content cid i \<Rightarrow>
          if in_State i \<noteq> Incident_Transferring then (s, Inr ())
          else if in_Log i = [] then (s, Inl OutOfRange)
          else
            let (siteId, notifyId) = note_address (le_Note (last (in_Log i)));
                st = (case s_site e siteId of None \<Rightarrow> \<lparr>st_Id = [], st_Name = [], SiteId = siteId\<rparr> | Some st \<Rightarrow> st);
                i = accept e cid st i in
            if \<not> s_upsert e
            then (s\<lparr>is_reports := is_reports s @ [(Some siteId, notifyId, DeliveryReport_FAILED)]\<rparr>, Inr ())
            else (s\<lparr>is_incs := (is_incs s)(cid \<mapsto> i), is_reports := is_reports s @ [(Some siteId, notifyId, DeliveryReport_PROCESSED)],
                    is_notices := is_notices s @ [\<lparr>nt_Key = IncidentId i, nt_IncidentId = in_Id i, nt_Name = IncidentId i\<rparr>]\<rparr>, Inr ())
      | _ \<Rightarrow> (s, Inr ()))"

section \<open>What a pass sends\<close>

definition attachments :: "incident \<Rightarrow> attachment list" where
  "attachments i = List.map_filter le_Attachment (in_Log i)"

definition fresh_packet :: "string \<Rightarrow> int \<Rightarrow> packet" where
  "fresh_packet name k = \<lparr>pk_Name = name, pk_MessageId = Sprint_int k, pk_State = Transmission_Pending, pk_Status = None\<rparr>"

definition register :: "string \<Rightarrow> int list \<Rightarrow> (string \<rightharpoonup> rvalue) \<Rightarrow> string \<rightharpoonup> rvalue" where
  "register n ks r = fold (\<lambda>k r. r(Sprint_int k \<mapsto> Transmission_of n)) ks r"

lemma register_same: "k \<in> set ks \<Longrightarrow> register n ks r (Sprint_int k) = Some (Transmission_of n)"
  unfolding register_def by (induction ks rule: rev_induct) auto

lemma register_append: "register n (ks @ ls) r = register n ls (register n ks r)"
  by (simp add: register_def)

lemma send_files_all:
  assumes "\<forall>a. opens a" "length (List.map_filter (\<lambda>e. e) es) \<le> length ks"
  shows "\<exists>cs. send_files opens wg site ks es t s =
    (drop (length (List.map_filter (\<lambda>e. e) es)) ks,
     t\<lparr>tn_State := (if List.map_filter (\<lambda>e. e) es = [] then tn_State t else Transmission_Partial),
       tn_Packets := tn_Packets t @ map2 fresh_packet (map at_Name (List.map_filter (\<lambda>e. e) es)) ks\<rparr>,
     s\<lparr>callbacks := callbacks s @ cs, rds := register (tn_Id t) (take (length (List.map_filter (\<lambda>e. e) es)) ks) (rds s),
       outbox := outbox s @ map2 (\<lambda>a k. \<lparr>ms_Site = site, ms_Body = File_body a, ms_NotifySent = k\<rparr>) (List.map_filter (\<lambda>e. e) es) ks\<rparr>)"
  using assms
proof (induction es arbitrary: ks t s)
  case Nil
  then show ?case by (intro exI[of _ "[]"]) (simp add: List.map_filter_simps register_def)
next
  case (Cons e es)
  show ?case
  proof (cases e)
    case None
    then show ?thesis using Cons by (simp add: List.map_filter_simps)
  next
    case (Some a)
    then obtain k ls where ids: "ks = k # ls" using Cons.prems(2) by (cases ks) (auto simp: List.map_filter_simps)
    let ?fs = "List.map_filter (\<lambda>e. e) es"
    let ?t = "t\<lparr>tn_State := Transmission_Partial, tn_Packets := tn_Packets t @ [fresh_packet (at_Name a) k]\<rparr>"
    let ?s = "s\<lparr>callbacks := callbacks s @ [\<lparr>cb_Notify = k, cb_Wait = wg - 1\<rparr>], rds := (rds s)(Sprint_int k \<mapsto> Transmission_of (tn_Id t)),
        outbox := outbox s @ [\<lparr>ms_Site = site, ms_Body = File_body a, ms_NotifySent = k\<rparr>]\<rparr>"
    have step: "send_files opens wg site ks (e # es) t s = send_files opens wg site ls es ?t ?s"
      using Cons.prems(1) by (simp add: Some ids sendMessage_def fresh_packet_def)
    have "length ?fs \<le> length ls" using Cons.prems(2) by (simp add: Some ids List.map_filter_simps)
    from Cons.IH[OF Cons.prems(1) this, of ?t ?s] obtain cs where
      "send_files opens wg site ls es ?t ?s = (drop (length ?fs) ls,
        ?t\<lparr>tn_State := (if ?fs = [] then tn_State ?t else Transmission_Partial),
          tn_Packets := tn_Packets ?t @ map2 fresh_packet (map at_Name ?fs) ls\<rparr>,
        ?s\<lparr>callbacks := callbacks ?s @ cs, rds := register (tn_Id ?t) (take (length ?fs) ls) (rds ?s),
          outbox := outbox ?s @ map2 (\<lambda>a k. \<lparr>ms_Site = site, ms_Body = File_body a, ms_NotifySent = k\<rparr>) ?fs ls\<rparr>)" ..
    then show ?thesis unfolding step
      by (intro exI[of _ "\<lparr>cb_Notify = k, cb_Wait = wg - 1\<rparr> # cs"]) (simp add: Some ids List.map_filter_simps register_def)
  qed
qed

definition bodies :: "incident \<Rightarrow> mbody list" where
  "bodies i = map File_body (attachments i) @ [Incident_body i]"

definition packet_names :: "incident \<Rightarrow> string list" where
  "packet_names i = map at_Name (attachments i) @ [''log'']"

definition message_to :: "nat \<Rightarrow> mbody \<Rightarrow> int \<Rightarrow> mc_message" where
  "message_to site b k = \<lparr>ms_Site = site, ms_Body = b, ms_NotifySent = k\<rparr>"

definition as_sent :: "int list \<Rightarrow> incident \<Rightarrow> transmission \<Rightarrow> transmission" where
  "as_sent ks i t = t\<lparr>tn_Packets := tn_Packets t @ map2 fresh_packet (packet_names i) ks, tn_State := Transmission_Partial,
     tn_Status := Some \<lparr>rs_Code = Code_Acknowledged, rs_Message = ''transmission sent''\<rparr>\<rparr>"

lemma attachments_map: "List.map_filter (\<lambda>e. e) (map le_Attachment (in_Log i)) = attachments i"
  by (simp add: attachments_def List.map_filter_def comp_def filter_map)

lemma send_all_all:
  assumes "\<forall>a. opens a" "length ks = Suc (length (attachments i))" "tn_Status t = None"
  shows "\<exists>cs. send_all opens site ks i t s = (as_sent ks i t,
     s\<lparr>callbacks := callbacks s @ cs, rds := register (tn_Id t) ks (rds s), outbox := outbox s @ map2 (message_to site) (bodies i) ks\<rparr>)"
proof -
  obtain ls k where ks: "ks = ls @ [k]" using assms(2) by (metis Zero_neq_Suc list.size(3) rev_exhaust)
  then have len: "length ls = length (attachments i)" using assms(2) by simp
  let ?d = "int (2 + length (filter (\<lambda>e. e \<noteq> None) (map le_Attachment (in_Log i))))"
  obtain cs where "send_files opens ?d site ks (map le_Attachment (in_Log i)) t s =
    ([k], t\<lparr>tn_State := (if attachments i = [] then tn_State t else Transmission_Partial),
       tn_Packets := tn_Packets t @ map2 fresh_packet (map at_Name (attachments i)) ls\<rparr>,
     s\<lparr>callbacks := callbacks s @ cs, rds := register (tn_Id t) ls (rds s),
       outbox := outbox s @ map2 (\<lambda>a k. \<lparr>ms_Site = site, ms_Body = File_body a, ms_NotifySent = k\<rparr>) (attachments i) ls\<rparr>)"
    using send_files_all[of opens "map le_Attachment (in_Log i)" ks ?d site t s] assms(1) len unfolding attachments_map ks
    by (auto simp: zip_append2)
  then show ?thesis using assms(3) len
    by (intro exI[of _ "cs @ [\<lparr>cb_Notify = k, cb_Wait = ?d - 1\<rparr>]"])
      (simp add: send_all_def Let_def sendMessage_def ks as_sent_def bodies_def packet_names_def message_to_def register_append zip_map1
        fresh_packet_def register_def case_prod_unfold comp_def)
qed

lemma handle_one_sends:
  assumes "tn_State t = Transmission_Pending" "tn_Status t = None" "Dest_Type t = ''prisma.tms.moc.Site''" "rds s (tn_Id t) = None"
    "m_site e (Dest_Id t) = Inr site" "\<forall>a. m_opens e a" "m_ids e (tn_Id t) = ks" "length ks = Suc (length (attachments i))"
  shows "\<exists>cs. handle_one e (Inr (Some i)) t s = (as_sent ks i t, True,
     s\<lparr>callbacks := callbacks s @ cs, rds := register (tn_Id t) ks ((rds s)(tn_Id t \<mapsto> Sent_at (Some (m_now e)))),
       outbox := outbox s @ map2 (message_to site) (bodies i) ks, trs := (trs s)(tn_Id t \<mapsto> as_sent ks i t)\<rparr>, Inr ())"
proof -
  let ?s = "s\<lparr>rds := (rds s)(tn_Id t \<mapsto> Sent_at (Some (m_now e)))\<rparr>"
  obtain cs where "send_all (m_opens e) site ks i t ?s = (as_sent ks i t,
     ?s\<lparr>callbacks := callbacks ?s @ cs, rds := register (tn_Id t) ks (rds ?s), outbox := outbox ?s @ map2 (message_to site) (bodies i) ks\<rparr>)"
    using send_all_all[of "m_opens e" ks i t site ?s] assms by auto
  then show ?thesis using assms by (intro exI[of _ cs]) (simp add: handle_one_def Let_def as_sent_def)
qed

lemma sent_ids:
  assumes "length ks = Suc (length (attachments i))" "tn_Packets t = []"
  shows "map pk_MessageId (tn_Packets (as_sent ks i t)) = map Sprint_int ks" "list_all (\<lambda>p. pk_State p = Transmission_Pending) (tn_Packets (as_sent ks i t))"
proof -
  have "map pk_MessageId (map2 fresh_packet ns ks) = map Sprint_int ks" if "length ns = length ks" for ns
    using that by (induction ns ks rule: list_induct2) (auto simp: fresh_packet_def)
  then show "map pk_MessageId (tn_Packets (as_sent ks i t)) = map Sprint_int ks" using assms by (simp add: as_sent_def packet_names_def)
  show "list_all (\<lambda>p. pk_State p = Transmission_Pending) (tn_Packets (as_sent ks i t))"
    using assms by (auto simp: as_sent_def list_all_iff fresh_packet_def)
qed

text \<open>A pass over a multicast with one pending transmission leaves that transmission in flight.\<close>

lemma pass_in_flight:
  assumes "mc_Transmissions mc = [t]" "mc_Payload mc = Inr (Some i)"
    "tn_State t = Transmission_Pending" "tn_Status t = None" "tn_Packets t = []" "Dest_Type t = ''prisma.tms.moc.Site''" "rds s (tn_Id t) = None"
    "m_site e (Dest_Id t) = Inr site" "\<forall>a. m_opens e a" "m_ids e (tn_Id t) = ks" "length ks = Suc (length (attachments i))"
    "distinct ks" "tn_Id t \<notin> range Sprint_int"
  shows "\<exists>s'. multicastHandle e mc s = (s', Inr ()) \<and> flying (tn_Id t) (as_sent ks i t) s' \<and>
    outbox s' = outbox s @ map2 (message_to site) (bodies i) ks \<and> incs s' = incs s \<and>
    mcs s' = (mcs s)(mc_Id mc \<mapsto> mc\<lparr>mc_Transmissions := [as_sent ks i t]\<rparr>)"
proof -
  let ?n = "tn_Id t"
  obtain cs where h: "handle_one e (Inr (Some i)) t s = (as_sent ks i t, True,
     s\<lparr>callbacks := callbacks s @ cs, rds := register ?n ks ((rds s)(?n \<mapsto> Sent_at (Some (m_now e)))),
       outbox := outbox s @ map2 (message_to site) (bodies i) ks, trs := (trs s)(?n \<mapsto> as_sent ks i t)\<rparr>, Inr ())"
    using handle_one_sends[OF assms(3,4,6-11)] by blast
  let ?s = "s\<lparr>callbacks := callbacks s @ cs, rds := register ?n ks ((rds s)(?n \<mapsto> Sent_at (Some (m_now e)))),
       outbox := outbox s @ map2 (message_to site) (bodies i) ks, trs := (trs s)(?n \<mapsto> as_sent ks i t),
       mcs := (mcs s)(mc_Id mc \<mapsto> mc\<lparr>mc_Transmissions := [as_sent ks i t]\<rparr>)\<rparr>"
  have m: "multicastHandle e mc s = (?s, Inr ())" using h assms(1,2) by (simp add: multicastHandle_def)
  note ids = sent_ids[OF assms(11,5)]
  have regs: "\<forall>p\<in>set (tn_Packets (as_sent ks i t)). rds ?s (pk_MessageId p) = Some (Transmission_of ?n) \<and> pk_MessageId p \<noteq> ?n"
  proof
    fix p assume "p \<in> set (tn_Packets (as_sent ks i t))"
    then have "pk_MessageId p \<in> set (map pk_MessageId (tn_Packets (as_sent ks i t)))" by simp
    then obtain k where "k \<in> set ks" "pk_MessageId p = Sprint_int k" unfolding ids(1) by auto
    moreover have "Sprint_int k \<noteq> ?n" using assms(13) rangeI[of Sprint_int k] by metis
    ultimately show "rds ?s (pk_MessageId p) = Some (Transmission_of ?n) \<and> pk_MessageId p \<noteq> ?n"
      using register_same[of k ks ?n] by auto
  qed
  have "distinct (map pk_MessageId (tn_Packets (as_sent ks i t)))" unfolding ids(1) using assms(12) by (simp add: distinct_map inj_on_def)
  moreover have "trs ?s ?n = Some (as_sent ks i t)" "tn_Id (as_sent ks i t) = ?n" by (simp_all add: as_sent_def)
  ultimately have "flying ?n (as_sent ks i t) ?s" using regs unfolding flying_def by blast
  then show ?thesis using m by (intro exI[of _ ?s]) simp
qed

section \<open>The receiving site\<close>

text \<open>A message as the receiving site gets it: from its source, on the stream of its type.\<close>

definition on_wire :: "nat \<Rightarrow> mc_message \<Rightarrow> ins_event" where
  "on_wire l m = Received (case ms_Body m of File_body _ \<Rightarrow> fileStream | Incident_body _ \<Rightarrow> incidentStream)
     (Some \<lparr>tg_Source = Some l, NotifySent = ms_NotifySent m, tg_Body = Moc_body (ms_Body m)\<rparr>)"

definition insert_all :: "ienv \<Rightarrow> ins_event list \<Rightarrow> inserter \<Rightarrow> inserter" where
  "insert_all e evs d = fold (\<lambda>ev d. fst (doInsert e ev d)) evs d"

definition noted :: "nat \<Rightarrow> int \<Rightarrow> incident \<Rightarrow> incident" where
  "noted l k i = i\<lparr>in_Log := butlast (in_Log i) @ [(last (in_Log i))\<lparr>le_Note := Itoa l @ '' '' @ Sprint_int k\<rparr>]\<rparr>"

lemma files_inserted:
  assumes "length fs = length ks"
  shows "d_reports (insert_all e (map (on_wire l) (map2 (message_to site) (map File_body fs) ks)) d) =
      d_reports d @ map (\<lambda>k. (Some l, k, DeliveryReport_PROCESSED)) ks \<and>
    d_incs (insert_all e (map (on_wire l) (map2 (message_to site) (map File_body fs) ks)) d) = d_incs d"
  using assms
proof (induction fs ks arbitrary: d rule: list_induct2)
  case (Cons a fs k ks)
  show ?case using Cons.IH by (simp add: insert_all_def on_wire_def message_to_def doInsert_def Let_def d_count_def d_report_def)
qed (simp add: insert_all_def)

lemma transfer_inserted:
  assumes "length ks = length (attachments i)" "i_ok e (Moc_body (Incident_body (noted l k i)))" "in_State i = Incident_Transferring" "in_Log i \<noteq> []"
  shows "d_reports (insert_all e (map (on_wire l) (map2 (message_to site) (bodies i) (ks @ [k]))) d) =
      d_reports d @ map (\<lambda>k. (Some l, k, DeliveryReport_PROCESSED)) (ks @ [k])"
    "d_incs (insert_all e (map (on_wire l) (map2 (message_to site) (bodies i) (ks @ [k]))) d) = (d_incs d)(i_new e \<mapsto> noted l k i)"
proof -
  let ?evs = "map (on_wire l) (map2 (message_to site) (map File_body (attachments i)) ks)"
  have split: "map (on_wire l) (map2 (message_to site) (bodies i) (ks @ [k])) = ?evs @ [on_wire l (message_to site (Incident_body i) k)]"
    using assms(1) by (simp add: bodies_def)
  note f = files_inserted[OF assms(1)[symmetric], of e l site d]
  have "fst (doInsert e (on_wire l (message_to site (Incident_body i) k)) d') = d_count (d_report
      \<lparr>tg_Source = Some l, NotifySent = k, tg_Body = Moc_body (Incident_body i)\<rparr> DeliveryReport_PROCESSED (d'\<lparr>d_incs := (d_incs d')(i_new e \<mapsto> noted l k i)\<rparr>))" for d'
    using assms(2-4) by (simp add: on_wire_def message_to_def doInsert_def insert_incident_def noted_def)
  then show "d_reports (insert_all e (map (on_wire l) (map2 (message_to site) (bodies i) (ks @ [k]))) d) =
      d_reports d @ map (\<lambda>k. (Some l, k, DeliveryReport_PROCESSED)) (ks @ [k])"
    "d_incs (insert_all e (map (on_wire l) (map2 (message_to site) (bodies i) (ks @ [k]))) d) = (d_incs d)(i_new e \<mapsto> noted l k i)"
    using f unfolding split by (simp_all add: insert_all_def d_count_def d_report_def)
qed

text \<open>The incident stage reads back where the report has to go.\<close>

lemma Itoa_spaceless: "c \<in> set (Itoa n) \<Longrightarrow> \<not> isSpace c"
  using Itoa_digits[of c n] by (auto simp: isSpace_def)

lemma Sprint_int_spaceless: "c \<in> set (Sprint_int i) \<Longrightarrow> \<not> isSpace c"
  using Itoa_spaceless by (auto simp: Sprint_int_def isSpace_def split: if_splits)

lemma note_address_noted:
  assumes "l < 2 ^ 31" "- (2 ^ 31) \<le> k" "k < 2 ^ 31"
  shows "note_address (Itoa l @ '' '' @ Sprint_int k) = (l, k)"
proof -
  have ne: "Sprint_int k \<noteq> []" by (simp add: Sprint_int_def)
  have "Fields (Itoa l @ '' '' @ Sprint_int k) = [Itoa l, Sprint_int k]"
    by (rule Fields_pair) (use Itoa_spaceless Sprint_int_spaceless ne in auto)
  moreover have "nat (int l mod 2 ^ 32) = l" using assms(1) by simp
  ultimately show ?thesis using assms ParseInt32_Itoa[of l] ParseInt32_Sprint_int[of k] by (simp add: note_address_def)
qed

section \<open>From request to receipt\<close>

abbreviation new_transmission :: "cenv \<Rightarrow> msite \<Rightarrow> transmission" where
  "new_transmission e st \<equiv> \<lparr>tn_Id = c_tr e, tn_ParentId = c_mc e, tn_MessageId = [], Dest_Type = ''prisma.tms.moc.Site'', Dest_Id = st_Id st,
     tn_Packets = [], tn_State = Transmission_Pending, tn_Status = None\<rparr>"

definition closed_incident :: "cenv \<Rightarrow> msite \<Rightarrow> string \<Rightarrow> incident \<Rightarrow> incident" where
  "closed_incident e st iid i0 = hand_off st (c_local e) (i0\<lparr>in_Id := iid\<rparr>)"

lemma siteCreate_started:
  assumes "siteCreate e sid ''prisma.tms.moc.Incident'' (Some p) s = (s1, Inr ())" "c_site e sid = Inr st"
  shows "\<exists>i0. incs s (in_Id p) = Some i0 \<and>
    s1 = s\<lparr>incs := (incs s)(in_Id p \<mapsto> closed_incident e st (in_Id p) i0), trs := (trs s)(c_tr e \<mapsto> new_transmission e st),
      mcs := (mcs s)(c_mc e \<mapsto> \<lparr>mc_Id = c_mc e, mc_Payload = Inr (Some ((closed_incident e st (in_Id p) i0)\<lparr>in_State := Incident_Transferring\<rparr>)),
        mc_Transmissions = [new_transmission e st]\<rparr>)\<rparr>"
  using assms by (auto simp: siteCreate_def load_incident_def Let_def closed_incident_def hand_off_def split: if_splits option.splits)

lemma attachments_hand_off:
  "attachments ((closed_incident e st iid i)\<lparr>in_State := x\<rparr>) = attachments i"
  by (simp add: attachments_def closed_incident_def hand_off_def List.map_filter_def)

definition deliver_reports :: "fenv \<Rightarrow> report list \<Rightarrow> mstate \<Rightarrow> mstate" where
  "deliver_reports e rs s = fold (\<lambda>(_, k, r). on_report e [] (Sprint_int k) r) rs s"

lemma deliver_reports_pairs:
  "deliver_reports e rs s = fold (\<lambda>(i, r). on_report e [] i r) (map (\<lambda>(_, k, r). (Sprint_int k, r)) rs) s"
  unfolding deliver_reports_def by (induction rs arbitrary: s) auto

lemma updates_keep_incs [simp]:
  "incs (PacketStatus n p s) = incs s" "incs (StatusById n st s) = incs s" "incs (UpdateTransmission t s) = incs s"
  by (auto simp: PacketStatus_def StatusById_def UpdateTransmission_def split: option.splits)

lemma processed_keeps_incs: "incs (on_report e [] i DeliveryReport_PROCESSED s) = incs s"
proof -
  have a: "incs (case report_attempt e n i DeliveryReport_PROCESSED s of Done s \<Rightarrow> s | Not_found s \<Rightarrow> s) = incs s" for n s
    by (auto simp: report_attempt_def packetStateUpdate_State Let_def split: option.splits)
  have "incs (report_retry e k [] n i DeliveryReport_PROCESSED s) = incs s" for k n s
  proof (induction k arbitrary: s)
    case (Suc k)
    show ?case using a[of n s] Suc by (auto split: attempt.splits)
  qed (use a in simp)
  then show ?thesis by (auto simp: on_report_def split: option.splits rvalue.splits)
qed

lemma all_processed_reports:
  assumes "flying n (as_sent ks i t) s" "length ks = Suc (length (attachments i))" "tn_Packets t = []"
  shows "incs (deliver_reports e (map (\<lambda>k. (l, k, DeliveryReport_PROCESSED)) ks) s) = incs s"
    "\<exists>t'. trs (deliver_reports e (map (\<lambda>k. (l, k, DeliveryReport_PROCESSED)) ks) s) n = Some t' \<and> tn_State t' = Transmission_Success"
proof -
  let ?rs = "map (\<lambda>k. (Sprint_int k, DeliveryReport_PROCESSED)) ks"
  note ids = sent_ids[OF assms(2,3)]
  have eq: "deliver_reports e (map (\<lambda>k. (l, k, DeliveryReport_PROCESSED)) ks) s = fold (\<lambda>(i, r). on_report e [] i r) ?rs s"
    by (simp add: deliver_reports_pairs comp_def)
  show "incs (deliver_reports e (map (\<lambda>k. (l, k, DeliveryReport_PROCESSED)) ks) s) = incs s"
    unfolding eq by (induction ks arbitrary: s) (simp_all add: processed_keeps_incs)
  have im: "pk_MessageId ` set (tn_Packets (as_sent ks i t)) = Sprint_int ` set ks" using ids(1) by (metis list.set_map)
  have "\<forall>(j, r)\<in>set ?rs. j \<in> pk_MessageId ` set (tn_Packets (as_sent ks i t))" unfolding im by auto
  moreover have "tn_Packets (as_sent ks i t) \<noteq> []" using ids(1) assms(2) by (metis Zero_neq_Suc list.map_disc_iff list.size(3))
  then have "\<not> all_processed (tn_Packets (as_sent ks i t))" using ids(2) by (cases "tn_Packets (as_sent ks i t)") auto
  moreover have "\<forall>p\<in>set (tn_Packets (as_sent ks i t)). pk_State p = Transmission_Success \<or> (pk_MessageId p, DeliveryReport_PROCESSED) \<in> set ?rs"
    using im by (auto simp: image_iff)
  ultimately have "\<exists>t'. trs (fold (\<lambda>(i, r). on_report e [] i r) ?rs s) n = Some t' \<and> tn_State t' = Transmission_Success"
    using reports_decide[OF assms(1)] by metis
  then show "\<exists>t'. trs (deliver_reports e (map (\<lambda>k. (l, k, DeliveryReport_PROCESSED)) ks) s) n = Some t' \<and> tn_State t' = Transmission_Success"
    unfolding eq .
qed

lemma noted_accepted:
  assumes "in_Log i \<noteq> []" "in_State i = Incident_Transferring" "s_upsert e" "l < 2 ^ 31" "- (2 ^ 31) \<le> k" "k < 2 ^ 31"
  shows "\<exists>st. incident_update e (Content cid (noted l k i)) x =
    (x\<lparr>is_incs := (is_incs x)(cid \<mapsto> accept e cid st (noted l k i)), is_reports := is_reports x @ [(Some l, k, DeliveryReport_PROCESSED)],
       is_notices := is_notices x @ [\<lparr>nt_Key = s_next e, nt_IncidentId = cid, nt_Name = s_next e\<rparr>]\<rparr>, Inr ())"
  using assms by (intro exI[of _ "case s_site e l of None \<Rightarrow> \<lparr>st_Id = [], st_Name = [], SiteId = l\<rparr> | Some st \<Rightarrow> st"])
    (simp add: incident_update_def noted_def note_address_noted[unfolded append.simps] accept_def Let_def)

lemma accept_log:
  assumes "n < length (in_Log i)"
  shows "take n (in_Log (accept e cid st (noted l k i))) = take n (in_Log i)"
proof -
  have n: "n \<le> length (butlast (in_Log i))" using assms by simp
  have "take n (in_Log (accept e cid st (noted l k i))) = take n (butlast (in_Log i))"
    using n by (simp add: accept_def noted_def)
  then show ?thesis using assms by (simp add: take_butlast)
qed

text \<open>C9. 
  An incident handed to another site arrives there. The request closes it at the origin; one pass of the multicast stage sends
  its attachments and itself; the receiving site stores it, and its incident stage takes it over under a new number with the
  whole log of the origin; the delivery reports of the receiving site make the transmission a success. Files open, the
  identifiers of the messages are distinct 32-bit numbers, and the databases accept what they are given.
\<close>

theorem incident_transferred:
  assumes "siteCreate ce sid ''prisma.tms.moc.Incident'' (Some p) s = (s1, Inr ())" "c_site ce sid = Inr st" "rds s (c_tr ce) = None"
    and "c_tr ce \<notin> range Sprint_int" "m_site me (st_Id st) = Inr n" "\<forall>a. m_opens me a" "m_ids me (c_tr ce) = ks" "distinct ks"
    and "length ks = Suc (length (attachments (the (incs s (in_Id p)))))" "\<forall>k\<in>set ks. - (2 ^ 31) \<le> k \<and> k < 2 ^ 31" "SiteId (c_local ce) < 2 ^ 31"
    and "\<forall>b. i_ok ie b" "s_upsert se"
    and "s2 = fst (multicastHandle me (the (mcs s1 (c_mc ce))) s1)"
    and "d' = insert_all ie (map (on_wire (SiteId (c_local ce))) (drop (length (outbox s1)) (outbox s2))) d"
    and "s3 = deliver_reports fe (drop (length (d_reports d)) (d_reports d')) s2"
    and "x' = fst (incident_update se (Content (i_new ie) (the (d_incs d' (i_new ie)))) x)"
  shows "\<exists>i0 i j t. incs s (in_Id p) = Some i0 \<and> incs s3 (in_Id p) = Some i \<and> in_State i = Incident_Closed \<and>
    trs s3 (c_tr ce) = Some t \<and> tn_State t = Transmission_Success \<and>
    is_incs x' (i_new ie) = Some j \<and> in_State j = Incident_Transferred \<and> IncidentId j = s_next se \<and>
    take (length (in_Log i0)) (in_Log j) = in_Log i0 \<and>
    is_reports x' = is_reports x @ [(Some (SiteId (c_local ce)), last ks, DeliveryReport_PROCESSED)]"
proof -
  obtain i0 where i0: "incs s (in_Id p) = Some i0" and s1: "s1 = s\<lparr>incs := (incs s)(in_Id p \<mapsto> closed_incident ce st (in_Id p) i0),
      trs := (trs s)(c_tr ce \<mapsto> new_transmission ce st),
      mcs := (mcs s)(c_mc ce \<mapsto> \<lparr>mc_Id = c_mc ce, mc_Payload = Inr (Some ((closed_incident ce st (in_Id p) i0)\<lparr>in_State := Incident_Transferring\<rparr>)),
        mc_Transmissions = [new_transmission ce st]\<rparr>)\<rparr>" using siteCreate_started[OF assms(1,2)] by blast
  define i where "i = (closed_incident ce st (in_Id p) i0)\<lparr>in_State := Incident_Transferring\<rparr>"
  let ?t = "new_transmission ce st" and ?l = "SiteId (c_local ce)"
  have att: "length ks = Suc (length (attachments i))" using assms(9) i0 by (simp add: i_def attachments_hand_off)
  have i: "in_State i = Incident_Transferring" "in_Log i \<noteq> []" by (simp_all add: i_def closed_incident_def hand_off_def)
  have log: "length (in_Log i0) < length (in_Log i)" by (simp add: i_def closed_incident_def hand_off_def)
  have pass: "\<exists>s'. multicastHandle me (the (mcs s1 (c_mc ce))) s1 = (s', Inr ()) \<and> flying (tn_Id ?t) (as_sent ks i ?t) s' \<and>
      outbox s' = outbox s1 @ map2 (message_to n) (bodies i) ks \<and> incs s' = incs s1 \<and>
      mcs s' = (mcs s1)(mc_Id (the (mcs s1 (c_mc ce))) \<mapsto> (the (mcs s1 (c_mc ce)))\<lparr>mc_Transmissions := [as_sent ks i ?t]\<rparr>)"
    by (rule pass_in_flight) (use assms att in \<open>simp_all add: s1 i_def\<close>)
  then have s2: "flying (c_tr ce) (as_sent ks i ?t) s2" "drop (length (outbox s1)) (outbox s2) = map2 (message_to n) (bodies i) ks" "incs s2 = incs s1"
    using assms(14) by auto
  obtain ls k where ks: "ks = ls @ [k]" using att by (metis Zero_neq_Suc list.size(3) rev_exhaust)
  have d': "d_reports d' = d_reports d @ map (\<lambda>k. (Some ?l, k, DeliveryReport_PROCESSED)) ks" "d_incs d' = (d_incs d)(i_new ie \<mapsto> noted ?l k i)"
    unfolding assms(15) s2(2) ks by (rule transfer_inserted; use att ks assms(12) i in simp)+
  have s3: "s3 = deliver_reports fe (map (\<lambda>k. (Some ?l, k, DeliveryReport_PROCESSED)) ks) s2" using assms(16) d'(1) by simp
  note rep = all_processed_reports[OF s2(1) att, of fe "Some ?l", folded s3]
  have k: "- (2 ^ 31) \<le> k" "k < 2 ^ 31" using assms(10) ks by auto
  obtain st' where "x' = x\<lparr>is_incs := (is_incs x)(i_new ie \<mapsto> accept se (i_new ie) st' (noted ?l k i)),
      is_reports := is_reports x @ [(Some ?l, k, DeliveryReport_PROCESSED)],
      is_notices := is_notices x @ [\<lparr>nt_Key = s_next se, nt_IncidentId = i_new ie, nt_Name = s_next se\<rparr>]\<rparr>"
    using noted_accepted[OF i(2,1) assms(13,11) k, of "i_new ie" x] assms(17) d'(2) by auto
  then have x': "is_incs x' (i_new ie) = Some (accept se (i_new ie) st' (noted ?l k i))" "is_reports x' = is_reports x @ [(Some ?l, last ks, DeliveryReport_PROCESSED)]"
    using ks by simp_all
  have "take (length (in_Log i0)) (in_Log i) = in_Log i0" by (simp add: i_def closed_incident_def hand_off_def)
  then have lg: "take (length (in_Log i0)) (in_Log (accept se (i_new ie) st' (noted ?l k i))) = in_Log i0"
    using accept_log[of "length (in_Log i0)" i] log by simp
  have "incs s3 (in_Id p) = Some (closed_incident ce st (in_Id p) i0)" using rep(1) s2(3) by (simp add: s1)
  moreover have "in_State (closed_incident ce st (in_Id p) i0) = Incident_Closed" by (simp add: closed_incident_def hand_off_def)
  moreover have "in_State (accept se (i_new ie) st' (noted ?l k i)) = Incident_Transferred" "IncidentId (accept se (i_new ie) st' (noted ?l k i)) = s_next se"
    by (simp_all add: accept_def)
  moreover obtain t where "trs s3 (c_tr ce) = Some t" "tn_State t = Transmission_Success" using rep(2) by auto
  ultimately show ?thesis using i0 x' lg by blast
qed

definition demo_harbour :: msite where "demo_harbour = \<lparr>st_Id = ''h'', st_Name = ''Harbour'', SiteId = 12\<rparr>"
definition demo_coast :: msite where "demo_coast = \<lparr>st_Id = ''c'', st_Name = ''Coast'', SiteId = 7\<rparr>"

definition demo_incident :: incident where
  "demo_incident = \<lparr>in_Id = ''i'', IncidentId = ''INC-1'', in_State = Incident_Open, Assignee = ''joe'', Commander = ''ann'', Outcome = [], Synopsis = [],
     in_Log = [\<lparr>le_Type = ''ACTION_ADD_NOTE_FILE'', le_Note = ''photo'', le_Attachment = Some \<lparr>at_Id = ''f'', at_Name = ''f.jpg''\<rparr>, le_Entity = None\<rparr>]\<rparr>"

definition demo_state :: mstate where
  "demo_state = \<lparr>trs = Map.empty, mcs = Map.empty, rds = Map.empty, outbox = [], callbacks = [], incs = [''i'' \<mapsto> demo_incident]\<rparr>"

definition demo_c :: cenv where
  "demo_c = \<lparr>c_auth = True, c_auth_incident = True, c_site = (\<lambda>_. Inr demo_harbour), c_local = demo_coast, c_mc = ''m'', c_tr = ''t'',
     c_get = True, c_upsert = True, c_create = True, c_store = True\<rparr>"

definition demo_m :: menv where
  "demo_m = \<lparr>m_now = 0, m_site = (\<lambda>_. Inr 12), m_opens = (\<lambda>_. True), m_ids = (\<lambda>_. [5, 6])\<rparr>"

definition demo_i :: ienv where "demo_i = \<lparr>i_ok = (\<lambda>_. True), i_new = ''j''\<rparr>"
definition demo_s :: senv where "demo_s = \<lparr>s_site = (\<lambda>_. Some demo_coast), s_local = demo_harbour, s_next = ''INC-2'', s_upsert = True\<rparr>"
definition demo_f :: fenv where "demo_f = \<lparr>f_local = (''Coast'', 7), f_remote = (\<lambda>_. Inr (''Harbour'', 12)), f_get = True, f_upsert = True\<rparr>"

definition empty_inserter :: inserter where
  "empty_inserter = \<lparr>totalInserts = 0, totalErrors = 0, insertsSinceLastTick = 0, inserted = [], d_incs = Map.empty, d_reports = []\<rparr>"

definition empty_stage :: istage where "empty_stage = \<lparr>is_incs = Map.empty, is_reports = [], is_notices = []\<rparr>"

lemmas demo_defs = demo_harbour_def demo_coast_def demo_incident_def demo_state_def demo_c_def demo_m_def demo_i_def demo_s_def demo_f_def

lemma letter_not_number: "''t'' \<noteq> Sprint_int k"
proof
  assume "''t'' = Sprint_int k"
  then have "Itoa (nat k) = ''t''" by (auto simp: Sprint_int_def split: if_splits)
  then show False using Itoa_digits[of "CHR ''t''" "nat k"] by simp
qed

theorem incident_transferred_witness:
  "let s1 = fst (siteCreate demo_c ''h'' ''prisma.tms.moc.Incident'' (Some demo_incident) demo_state);
       s2 = fst (multicastHandle demo_m (the (mcs s1 ''m'')) s1);
       d' = insert_all demo_i (map (on_wire 7) (drop (length (outbox s1)) (outbox s2))) empty_inserter;
       s3 = deliver_reports demo_f (drop (length (d_reports empty_inserter)) (d_reports d')) s2;
       x' = fst (incident_update demo_s (Content ''j'' (the (d_incs d' ''j''))) empty_stage) in
   \<exists>i j t. incs s3 ''i'' = Some i \<and> in_State i = Incident_Closed \<and> trs s3 ''t'' = Some t \<and> tn_State t = Transmission_Success \<and>
     is_incs x' ''j'' = Some j \<and> in_State j = Incident_Transferred \<and> is_reports x' = [(Some 7, 6, DeliveryReport_PROCESSED)]"
proof -
  define s1 where "s1 = fst (siteCreate demo_c ''h'' ''prisma.tms.moc.Incident'' (Some demo_incident) demo_state)"
  have c: "siteCreate demo_c ''h'' ''prisma.tms.moc.Incident'' (Some demo_incident) demo_state = (s1, Inr ())"
    by (simp add: s1_def siteCreate_def load_incident_def demo_defs hand_off_def Let_def)
  have nr: "c_tr demo_c \<notin> range Sprint_int" using letter_not_number by (auto simp: demo_c_def)
  have len: "length [5, 6 :: int] = Suc (length (attachments (the (incs demo_state (in_Id demo_incident)))))"
    by (simp add: demo_defs attachments_def List.map_filter_simps)
  have proj: "c_mc demo_c = ''m''" "c_tr demo_c = ''t''" "SiteId (c_local demo_c) = 7" "in_Id demo_incident = ''i''" "i_new demo_i = ''j''"
      "is_reports empty_stage = []" by (simp_all add: demo_defs empty_stage_def)
  have env: "c_site demo_c ''h'' = Inr demo_harbour" "rds demo_state (c_tr demo_c) = None" "m_site demo_m (st_Id demo_harbour) = Inr 12" "\<forall>a. m_opens demo_m a"
      "m_ids demo_m (c_tr demo_c) = [5, 6]" "distinct [5, 6 :: int]" "\<forall>k\<in>set [5, 6]. - (2 ^ 31) \<le> k \<and> k < (2 ^ 31 :: int)"
      "SiteId (c_local demo_c) < 2 ^ 31" "\<forall>b. i_ok demo_i b" "s_upsert demo_s" by (simp_all add: demo_defs)
  note t = incident_transferred[OF c env(1,2) nr env(3-6) len env(7-10) refl refl refl refl, where fe = demo_f and d = empty_inserter and x = empty_stage]
  show ?thesis using t unfolding Let_def s1_def[symmetric] proj by auto
qed

section \<open>When a transfer fails\<close>

text \<open>
  A report of failure about a packet in flight reopens the incident at the origin, with an entry that names both sites and the
  reason, and leaves the transmission as it was with the packet failed.
\<close>

theorem failed_transfer_reopens:
  assumes "flying n t s" "p \<in> set (tn_Packets t)" "pk_State p \<noteq> Transmission_Success"
    and "mcs s (tn_ParentId t) = Some mc" "mc_Payload mc = Inr (Some i)" "incs s (in_Id i) = Some i0" "in_Id i0 = in_Id i"
    and "f_remote e (Dest_Id t) = Inr remote" "f_get e" "f_upsert e"
  shows "incs (on_report e others (pk_MessageId p) DeliveryReport_FAILED s) =
      (incs s)(in_Id i \<mapsto> reopen (tn_ParentId t) (transfer_note (f_local e) remote ''transmission send failure'') i0) \<and>
    (\<exists>t'. trs (on_report e others (pk_MessageId p) DeliveryReport_FAILED s) n = Some t' \<and> tn_State t' = tn_State t \<and>
      (\<exists>q\<in>set (tn_Packets t'). pk_MessageId q = pk_MessageId p \<and> pk_State q = Transmission_Failure))"
proof -
  have f: "trs s n = Some t" "tn_Id t = n" "distinct (map pk_MessageId (tn_Packets t))" "rds s (pk_MessageId p) = Some (Transmission_of n)"
    using assms(1,2) by (auto simp: flying_def)
  obtain k where k: "k < length (tn_Packets t)" "find_packet (pk_MessageId p) (tn_Packets t) 0 = Some k" "pk_MessageId (tn_Packets t ! k) = pk_MessageId p"
    using find_packet_first[OF imageI[OF assms(2)] f(3)] by blast
  have p: "tn_Packets t ! k = p" using k(1,3) assms(2) f(3) by (metis distinct_map in_set_conv_nth inj_on_eq_iff nth_mem)
  let ?q = "packetStateUpdate DeliveryReport_FAILED p"
  have q: "pk_State ?q = Transmission_Failure" "pk_Status ?q = Some \<lparr>rs_Code = Code_BadRequest, rs_Message = ''transmission send failure''\<rparr>"
    using assms(3) by (auto simp: packetStateUpdate_def)
  define s0 where "s0 = fst (processFailedTransfer e (t\<lparr>tn_Packets := (tn_Packets t)[k := ?q]\<rparr>) k s)"
  have s0: "incs s0 = (incs s)(in_Id i \<mapsto> reopen (tn_ParentId t) (transfer_note (f_local e) remote ''transmission send failure'') i0)"
    using assms(4-10) q(2) k(1) by (simp add: s0_def processFailedTransfer_def reopen_def)
  have "\<not> all_processed ((tn_Packets t)[k := ?q])" using q(1) k(1) by (auto simp: list_all_iff intro!: bexI[of _ ?q] set_update_memI)
  then have "report_attempt e n (pk_MessageId p) DeliveryReport_FAILED s = Done (PacketStatus n ?q s0)"
    using f(1,2) k(2) p q(1) by (simp add: report_attempt_def s0_def Let_def)
  then have o: "on_report e others (pk_MessageId p) DeliveryReport_FAILED s = PacketStatus n ?q s0"
    using f(4) by (simp add: on_report_def numeral_2_eq_2)
  have "trs (PacketStatus n ?q s0) n = Some (t\<lparr>tn_Packets := (tn_Packets t)[k := ?q]\<rparr>)"
    using f(1) k(2) by (simp add: PacketStatus_def s0_def)
  moreover have "?q \<in> set ((tn_Packets t)[k := ?q])" using k(1) by (rule set_update_memI)
  ultimately show ?thesis unfolding o using q(1) s0 by (auto intro!: bexI[of _ ?q])
qed

text \<open>
  The inserter ignores the outcome of storing a file: it reports a file that was not stored as processed, so the origin
  counts the attachment as delivered.
\<close>

theorem lost_file_reported_processed:
  assumes "\<not> i_ok e (Moc_body (File_body a))"
  shows "\<exists>d'. doInsert e (on_wire l (message_to site (File_body a) k)) d = (d', Inr ()) \<and> inserted d' = inserted d \<and>
    totalErrors d' = totalErrors d \<and> d_reports d' = d_reports d @ [(Some l, k, DeliveryReport_PROCESSED)]"
  using assms by (simp add: doInsert_def on_wire_def message_to_def d_count_def d_report_def)

text \<open>
  A request whose payload is typed in any other way than by the bare name of the incident type, also by the type URL the code
  itself writes, stores a multicast without payload, and the pass over it dereferences a nil error.
\<close>

theorem untyped_payload_panics:
  assumes "siteCreate ce sid typeUrl payload s = (s1, Inr ())" "typeUrl \<noteq> ''prisma.tms.moc.Incident''"
    "c_site ce sid = Inr st" "rds s (c_tr ce) = None" "m_site me (st_Id st) = Inr n"
  shows "snd (multicastHandle me (the (mcs s1 (c_mc ce))) s1) = Inl NilDeref \<and> incs s1 = incs s"
proof -
  have "s1 = s\<lparr>trs := (trs s)(c_tr ce \<mapsto> new_transmission ce st),
      mcs := (mcs s)(c_mc ce \<mapsto> \<lparr>mc_Id = c_mc ce, mc_Payload = Inr None, mc_Transmissions = [new_transmission ce st]\<rparr>)\<rparr>"
    using assms(1-3) by (auto simp: siteCreate_def load_incident_def Let_def split: if_splits)
  then show ?thesis using assms(4,5) by (simp add: multicastHandle_def handle_one_def Let_def)
qed

text \<open>
  The number of the origin is parsed as a signed 32-bit number, while it is an unsigned one: the report on an incident from a
  site above that range goes to site 0.
\<close>

lemma ParseInt32_large: "2 ^ 31 \<le> n \<Longrightarrow> ParseInt32 (Itoa n) = None"
proof -
  assume n: "2 ^ 31 \<le> n"
  obtain c cs where c: "Itoa n = c # cs" by (meson Itoa_not_Nil list.exhaust)
  then have "c \<noteq> CHR ''-''" "c \<noteq> CHR ''+''" using Itoa_digits[of c n] by auto
  then show ?thesis using n c digits_value_Itoa[of n] by (simp add: ParseInt_def)
qed

theorem large_site_unanswered:
  assumes "2 ^ 31 \<le> l" "in_Log i \<noteq> []" "in_State i = Incident_Transferring" "- (2 ^ 31) \<le> k" "k < 2 ^ 31"
  shows "\<exists>r. is_reports (fst (incident_update e (Content cid (noted l k i)) x)) = is_reports x @ [(Some 0, k, r)]"
proof -
  have "Sprint_int k \<noteq> []" by (simp add: Sprint_int_def)
  then have "Fields (Itoa l @ '' '' @ Sprint_int k) = [Itoa l, Sprint_int k]"
    by (intro Fields_pair) (use Itoa_spaceless Sprint_int_spaceless in auto)
  then have "note_address (Itoa l @ '' '' @ Sprint_int k) = (0, k)"
    using assms ParseInt32_large[of l] ParseInt32_Sprint_int[of k] by (simp add: note_address_def)
  then show ?thesis using assms(2,3) by (cases "s_upsert e") (simp_all add: incident_update_def noted_def Let_def)
qed

definition lone_transmission :: transmission where
  "lone_transmission = \<lparr>tn_Id = ''t'', tn_ParentId = ''m'', tn_MessageId = [], Dest_Type = ''prisma.tms.moc.Site'', Dest_Id = ''h'',
     tn_Packets = [fresh_packet ''log'' 6], tn_State = Transmission_Partial, tn_Status = None\<rparr>"

definition sent_state :: mstate where
  "sent_state = \<lparr>trs = [''t'' \<mapsto> lone_transmission],
     mcs = [''m'' \<mapsto> \<lparr>mc_Id = ''m'', mc_Payload = Inr (Some demo_incident), mc_Transmissions = [lone_transmission]\<rparr>],
     rds = [Sprint_int 6 \<mapsto> Transmission_of ''t''], outbox = [], callbacks = [], incs = [''i'' \<mapsto> demo_incident]\<rparr>"

theorem failed_transfer_reopens_witness:
  "incs (on_report demo_f [] (Sprint_int 6) DeliveryReport_FAILED sent_state) ''i'' =
     Some (reopen ''m'' (transfer_note (''Coast'', 7) (''Harbour'', 12) ''transmission send failure'') demo_incident)"
proof -
  have "flying ''t'' lone_transmission sent_state"
    using letter_not_number[of 6] by (simp add: flying_def sent_state_def lone_transmission_def fresh_packet_def)
  from failed_transfer_reopens[OF this, of "fresh_packet ''log'' 6" _ demo_incident demo_incident demo_f "(''Harbour'', 12)" "[]"]
  show ?thesis by (simp add: sent_state_def lone_transmission_def fresh_packet_def demo_incident_def demo_f_def)
qed

theorem lost_file_reported_processed_witness:
  "\<exists>d'. doInsert \<lparr>i_ok = (\<lambda>_. False), i_new = ''j''\<rparr> (on_wire 7 (message_to 12 (File_body \<lparr>at_Id = ''f'', at_Name = ''f.jpg''\<rparr>) 5)) empty_inserter = (d', Inr ()) \<and>
     inserted d' = [] \<and> d_reports d' = [(Some 7, 5, DeliveryReport_PROCESSED)]"
  using lost_file_reported_processed[of "\<lparr>i_ok = (\<lambda>_. False), i_new = ''j''\<rparr>" "\<lparr>at_Id = ''f'', at_Name = ''f.jpg''\<rparr>" 7 12 5 empty_inserter]
  by (auto simp: empty_inserter_def)

theorem untyped_payload_panics_witness:
  "let s1 = fst (siteCreate demo_c ''h'' ''type.googleapis.com/prisma.tms.moc.Incident'' (Some demo_incident) demo_state) in
   snd (multicastHandle demo_m (the (mcs s1 ''m'')) s1) = Inl NilDeref"
proof -
  define s1 where "s1 = fst (siteCreate demo_c ''h'' ''type.googleapis.com/prisma.tms.moc.Incident'' (Some demo_incident) demo_state)"
  have c: "siteCreate demo_c ''h'' ''type.googleapis.com/prisma.tms.moc.Incident'' (Some demo_incident) demo_state = (s1, Inr ())"
    by (simp add: s1_def siteCreate_def load_incident_def demo_c_def Let_def)
  have m: "c_mc demo_c = ''m''" by (simp add: demo_c_def)
  show ?thesis using untyped_payload_panics[OF c, of demo_harbour demo_m 12] unfolding s1_def[symmetric] m Let_def
    by (simp add: demo_c_def demo_state_def demo_m_def)
qed

theorem large_site_unanswered_witness:
  "\<exists>r. is_reports (fst (incident_update demo_s (Content ''j'' (noted (2 ^ 31) 6 (demo_incident\<lparr>in_State := Incident_Transferring\<rparr>))) empty_stage)) = [(Some 0, 6, r)]"
  using large_site_unanswered[of "2 ^ 31" "demo_incident\<lparr>in_State := Incident_Transferring\<rparr>" 6 demo_s "''j''" empty_stage]
  by (simp add: demo_incident_def empty_stage_def)

end
