(* ===== verification/Zone_Stage.thy ===== *)
theory Zone_Stage
  imports Track_Types
begin

text \<open>
  The zone stage of the analysis daemon: \<^verbatim>\<open>tms/cmd/daemons/tanalyzed/zones.go\<close>, with the methods of a zone of
  \<^verbatim>\<open>tms/moc/zone_extra.go\<close>, \<^verbatim>\<open>TargetInfoFromTrack\<close> of \<^verbatim>\<open>info.go\<close> and \<^verbatim>\<open>LookupID\<close>, \<^verbatim>\<open>Point\<close> of
  \<^verbatim>\<open>tms/target_track_utils.go\<close>. The stage keeps which tracks are inside which zone and calls the notifier when a
  track enters or leaves.

  Positions have type \<open>'p\<close> and floating-point numbers type \<open>'r\<close>; the floating-point geometry is the record
  \<open>geometry\<close> of parameters. A search of the notifier's R-tree is a parameter, a function from the shape whose
  bounding box is searched to the tracks found. MD5 is the parameter \<open>md5\<close>. A Go map is ranged over in the order
  of a list of keys. The calls of \<^verbatim>\<open>Notify\<close> and \<^verbatim>\<open>Upsert\<close> are logged in \<open>notified\<close> and \<open>upserted\<close>.
\<close>

section \<open>Tracks\<close>

datatype zdevice = Radar | AIS | TV32 | Orb | SART | OmnicomSolar | SARSAT | OtherDevice nat

text \<open>Nested options stand for chains of pointers: \<^verbatim>\<open>Vdm.M1371.Mmsi\<close>, \<^verbatim>\<open>Sarmsg.SarsatAlert.Beacon\<close>.\<close>

record znmea =
  Ttm_Number :: "int option"
  Vdm_M1371 :: "nat option option"

record 'p ztarget =
  zt_Type :: zdevice
  zt_Position :: "'p option"
  zt_Nmea :: "znmea option"
  zt_Imei :: "string option"
  zt_Nodeid :: "string option"
  zt_Sarmsg :: "string option option option"

record 'p ztrack =
  zk_Id :: string
  zk_DatabaseId :: string
  zk_RegistryId :: string
  zk_Targets :: "'p ztarget option list"
  zk_Names :: "string option list"

definition LookupID :: "'p ztrack \<Rightarrow> string" where
  "LookupID t = (if zk_RegistryId t \<noteq> [] then zk_RegistryId t else zk_Id t)"

text \<open>\<^verbatim>\<open>GetPosition\<close> of a nil target is nil.\<close>

definition Point :: "'p ztrack \<Rightarrow> 'p option" where
  "Point t = (case zk_Targets t of [] \<Rightarrow> None | None # _ \<Rightarrow> None | Some g # _ \<Rightarrow> zt_Position g)"

record target_info =
  ti_TrackId :: string
  ti_DatabaseId :: string
  ti_RegistryId :: string
  ti_Type :: "zdevice option"
  ti_Name :: string
  RadarTarget :: int
  ti_Mmsi :: string
  ti_Imei :: string
  IngenuNodeId :: string
  SarsatBeacon :: "string option"

fun digits_of :: "nat \<Rightarrow> string" where
  "digits_of n = (if n < 10 then [char_of (48 + n)] else digits_of (n div 10) @ [char_of (48 + n mod 10)])"

definition FormatMMSI :: "nat \<Rightarrow> string" where
  "FormatMMSI mmsi = (let s = digits_of mmsi in replicate (9 - length s) CHR ''0'' @ s)"

definition no_info :: target_info where
  "no_info = \<lparr>ti_TrackId = [], ti_DatabaseId = [], ti_RegistryId = [], ti_Type = None, ti_Name = [], RadarTarget = 0,
     ti_Mmsi = [], ti_Imei = [], IngenuNodeId = [], SarsatBeacon = None\<rparr>"

definition TargetInfoFromTrack :: "'p ztrack \<Rightarrow> target_info res" where
  "TargetInfoFromTrack t =
     (case zk_Targets t of
        [] \<Rightarrow> Inr no_info
      | tp # _ \<Rightarrow>
          rbind (deref tp) (\<lambda>tgt.
            let info = no_info\<lparr>ti_TrackId := zk_Id t, ti_DatabaseId := zk_DatabaseId t, ti_RegistryId := zk_RegistryId t,
                         ti_Type := Some (zt_Type tgt),
                         ti_Name := (case zk_Names t of Some n # _ \<Rightarrow> n | _ \<Rightarrow> [])\<rparr> in
            case zt_Type tgt of
              Radar \<Rightarrow> rbind (deref (zt_Nmea tgt)) (\<lambda>n. rbind (deref (Ttm_Number n)) (\<lambda>x. Inr (info\<lparr>RadarTarget := x\<rparr>)))
            | OmnicomSolar \<Rightarrow>
                Inr (info\<lparr>ti_Imei := (case zt_Imei tgt of None \<Rightarrow> [] | Some v \<Rightarrow> v),
                          IngenuNodeId := (case zt_Nodeid tgt of None \<Rightarrow> [] | Some v \<Rightarrow> v)\<rparr>)
            | SARSAT \<Rightarrow> rbind (deref (zt_Sarmsg tgt)) (\<lambda>sm. rbind (deref sm) (\<lambda>b. Inr (info\<lparr>SarsatBeacon := b\<rparr>)))
            | OtherDevice _ \<Rightarrow> Inr info
            | _ \<Rightarrow> rbind (deref (zt_Nmea tgt)) (\<lambda>n. rbind (deref (Vdm_M1371 n)) (\<lambda>m. rbind (deref m) (\<lambda>mmsi.
                     Inr (info\<lparr>ti_Mmsi := FormatMMSI mmsi\<rparr>))))))"

section \<open>Zones\<close>

record ('p, 'r) area =
  ar_RegistryId :: string
  ar_TrackId :: string
  Radius :: 'r
  Center :: "'p option"

record ('p, 'r) zone =
  zn_Name :: string
  Poly :: "'p list list option"
  Area :: "('p, 'r) area option"
  Elevation :: "('r \<times> 'r) option"
  ExcludedVessels :: "string list list list"
  CreateAlertOnEnter :: bool
  CreateAlertOnExit :: bool

text \<open>
  \<open>near q c r\<close>: \<open>q\<close> is within radius \<open>r\<close> of \<open>c\<close>; \<open>inside pl q\<close>: \<open>q\<close> is in the polygon; \<open>between (b, t) q\<close>: its altitude
  lies between base and top; \<open>positive r\<close>: \<open>r > 0\<close>; \<open>ground q\<close>: \<open>q\<close> with altitude zero.
\<close>

record ('p, 'r) geometry =
  near :: "'p \<Rightarrow> 'p \<Rightarrow> 'r \<Rightarrow> bool"
  inside :: "'p list list \<Rightarrow> 'p \<Rightarrow> bool"
  between :: "'r \<times> 'r \<Rightarrow> 'p \<Rightarrow> bool"
  positive :: "'r \<Rightarrow> bool"
  ground :: "'p \<Rightarrow> 'p"

datatype ('p, 'r) shape = Circle 'p 'r | Ring "'p list list"

text \<open>A circle with a centre takes precedence over the polygon; a missing polygon is dereferenced.\<close>

definition zone_shape :: "('p, 'r) zone \<Rightarrow> ('p, 'r) shape res" where
  "zone_shape z =
     (case Option.bind (Area z) (\<lambda>a. map_option (\<lambda>c. Circle c (Radius a)) (Center a)) of
        Some c \<Rightarrow> Inr c
      | None \<Rightarrow> rbind (deref (Poly z)) (\<lambda>pl. Inr (Ring pl)))"

definition GetBBox :: "('p, 'r) zone \<Rightarrow> ('p, 'r) shape res" where
  "GetBBox z = zone_shape z"

definition IsExcludedTrack :: "('p, 'r) zone \<Rightarrow> 'p ztrack \<Rightarrow> bool" where
  "IsExcludedTrack z t \<longleftrightarrow>
     list_ex (list_ex (list_ex (\<lambda>registryId. registryId = zk_RegistryId t))) (ExcludedVessels z)"

definition GetAreaID :: "('p, 'r) zone \<Rightarrow> string" where
  "GetAreaID z =
     (case Area z of None \<Rightarrow> []
      | Some a \<Rightarrow> if ar_RegistryId a \<noteq> [] then ar_RegistryId a else if ar_TrackId a \<noteq> [] then ar_TrackId a else [])"

definition BelongAreaToTrack :: "('p, 'r) zone \<Rightarrow> 'p ztrack \<Rightarrow> bool" where
  "BelongAreaToTrack z t \<longleftrightarrow> Area z \<noteq> None \<and> GetAreaID z = (if zk_RegistryId t \<noteq> [] then zk_RegistryId t else zk_Id t)"

definition Intersect :: "('p, 'r) geometry \<Rightarrow> ('p, 'r) zone \<Rightarrow> 'p option \<Rightarrow> bool res" where
  "Intersect G z p =
     rbind (deref p) (\<lambda>q.
       let isElevation = (case Elevation z of None \<Rightarrow> True | Some e \<Rightarrow> between G e q) in
       rbind (zone_shape z) (\<lambda>sh.
         Inr ((case sh of Circle c r \<Rightarrow> near G q c r | Ring pl \<Rightarrow> inside G pl q) \<and> isElevation)))"

section \<open>The stage\<close>

datatype zevent = Notice_EnterZone | Notice_ExitZone

record znotice =
  zn_NoticeId :: string
  zn_Event :: zevent
  Source_Name :: string
  Source_ZoneId :: string
  zn_Target :: target_info

record ('p, 'r) zoneStage =
  zones :: "string \<rightharpoonup> ('p, 'r) zone"
  relAreaZone :: "string \<rightharpoonup> string set"
  members :: "string \<rightharpoonup> (string \<rightharpoonup> 'p ztrack)"
  initialized :: bool
  miscDB :: bool
  notified :: "(znotice \<times> bool) list"
  upserted :: "(string \<times> ('p, 'r) zone) list"

definition newZoneStage :: "('p, 'r) zoneStage" where
  "newZoneStage = \<lparr>zones = Map.empty, relAreaZone = Map.empty, members = Map.empty, initialized = False, miscDB = False,
     notified = [], upserted = []\<rparr>"

fun event_name :: "zevent \<Rightarrow> string" where
  "event_name Notice_EnterZone = ''EnterZone''"
| "event_name Notice_ExitZone = ''ExitZone''"

definition noticeID :: "(string \<Rightarrow> string) \<Rightarrow> string \<Rightarrow> 'p ztrack \<Rightarrow> zevent \<Rightarrow> string" where
  "noticeID md5 zoneID t ev =
     md5 (''(event:'' @ event_name ev @ '')(zone:'' @ zoneID @ '')(track:'' @ LookupID t @ '')'')"

definition zone_notice ::
  "zevent \<Rightarrow> (string \<Rightarrow> string) \<Rightarrow> string \<Rightarrow> ('p, 'r) zone \<Rightarrow> 'p ztrack \<Rightarrow> znotice res"
where
  "zone_notice ev md5 zid zone t =
     rbind (TargetInfoFromTrack t) (\<lambda>info.
       Inr \<lparr>zn_NoticeId = noticeID md5 zid t ev, zn_Event = ev, Source_Name = zn_Name zone, Source_ZoneId = zid,
            zn_Target = info\<rparr>)"

definition enterZoneNotice :: "(string \<Rightarrow> string) \<Rightarrow> string \<Rightarrow> ('p, 'r) zone \<Rightarrow> 'p ztrack \<Rightarrow> znotice res" where
  "enterZoneNotice = zone_notice Notice_EnterZone"

definition exitZoneNotice :: "(string \<Rightarrow> string) \<Rightarrow> string \<Rightarrow> ('p, 'r) zone \<Rightarrow> 'p ztrack \<Rightarrow> znotice res" where
  "exitZoneNotice = zone_notice Notice_ExitZone"

definition zNotify :: "znotice res \<Rightarrow> bool \<Rightarrow> ('p, 'r) zoneStage \<Rightarrow> ('p, 'r) zoneStage res" where
  "zNotify n ruleMatch s = rbind n (\<lambda>n. Inr (s\<lparr>notified := notified s @ [(n, ruleMatch)]\<rparr>))"

definition enterZone ::
  "(string \<Rightarrow> string) \<Rightarrow> string \<Rightarrow> ('p, 'r) zone \<Rightarrow> 'p ztrack \<Rightarrow> ('p, 'r) zoneStage \<Rightarrow> ('p, 'r) zoneStage res"
where
  "enterZone md5 zid zone t s =
     (case members s zid of
        None \<Rightarrow> Inl (Panic ''assignment to entry in nil map'')
      | Some mems \<Rightarrow>
          let s1 = s\<lparr>members := (members s)(zid \<mapsto> mems(LookupID t \<mapsto> t))\<rparr> in
          if CreateAlertOnEnter zone then zNotify (enterZoneNotice md5 zid zone t) True s1 else Inr s1)"

text \<open>\<^verbatim>\<open>delete(s.members[zid], k)\<close>; deleting from a nil map does nothing.\<close>

definition drop_member :: "string \<Rightarrow> string \<Rightarrow> ('p, 'r) zoneStage \<Rightarrow> ('p, 'r) zoneStage" where
  "drop_member zid k s =
     (case members s zid of None \<Rightarrow> s | Some mems \<Rightarrow> s\<lparr>members := (members s)(zid \<mapsto> mems(k := None))\<rparr>)"

definition exitZone ::
  "(string \<Rightarrow> string) \<Rightarrow> string \<Rightarrow> ('p, 'r) zone \<Rightarrow> 'p ztrack \<Rightarrow> ('p, 'r) zoneStage \<Rightarrow> ('p, 'r) zoneStage res"
where
  "exitZone md5 zid zone t s =
     (let s1 = drop_member zid (LookupID t) s in
      if CreateAlertOnExit zone then zNotify (exitZoneNotice md5 zid zone t) True s1
      else if CreateAlertOnEnter zone then zNotify (enterZoneNotice md5 zid zone t) False s1
      else Inr s1)"

fun clear_members ::
  "(string \<Rightarrow> string) \<Rightarrow> string \<Rightarrow> ('p, 'r) zone \<Rightarrow> (string \<rightharpoonup> 'p ztrack) \<Rightarrow> string list \<Rightarrow> ('p, 'r) zoneStage \<Rightarrow>
   ('p, 'r) zoneStage res"
where
  "clear_members md5 zid zone mems [] s = Inr s"
| "clear_members md5 zid zone mems (k # ks) s =
     (case mems k of
        None \<Rightarrow> clear_members md5 zid zone mems ks s
      | Some t \<Rightarrow> rbind (zNotify (enterZoneNotice md5 zid zone t) False s) (clear_members md5 zid zone mems ks))"

definition removeZone ::
  "(string \<Rightarrow> string) \<Rightarrow> string list \<Rightarrow> string \<Rightarrow> ('p, 'r) zone \<Rightarrow> ('p, 'r) zoneStage \<Rightarrow> ('p, 'r) zoneStage res"
where
  "removeZone md5 mord zid zone s =
     rbind
       (if CreateAlertOnEnter zone
        then clear_members md5 zid zone (case members s zid of None \<Rightarrow> Map.empty | Some m \<Rightarrow> m) mord s else Inr s)
       (\<lambda>s1.
          let a = GetAreaID zone; rest = (case relAreaZone s1 a of None \<Rightarrow> {} | Some ids \<Rightarrow> ids - {zid}) in
          Inr (s1\<lparr>zones := (zones s1)(zid := None), members := (members s1)(zid := None),
                  relAreaZone := (relAreaZone s1)(a := if rest = {} then None else Some rest)\<rparr>))"

record ('p, 'r) zone_response =
  zr_Status :: status
  zr_Contents :: "(string \<times> ('p, 'r) zone option) option"

definition relate_area :: "('p, 'r) geometry \<Rightarrow> string \<Rightarrow> ('p, 'r) zone \<Rightarrow> ('p, 'r) zoneStage \<Rightarrow> ('p, 'r) zoneStage" where
  "relate_area G zid zone s =
     (case Area zone of
        None \<Rightarrow> s
      | Some a \<Rightarrow>
          if \<not> positive G (Radius a) then s
          else s\<lparr>relAreaZone := (relAreaZone s)(GetAreaID zone \<mapsto>
                  insert zid (case relAreaZone s (GetAreaID zone) of None \<Rightarrow> {} | Some ids \<Rightarrow> ids))\<rparr>)"

fun exit_lost ::
  "(string \<Rightarrow> string) \<Rightarrow> ('p, 'r) geometry \<Rightarrow> string \<Rightarrow> ('p, 'r) zone \<Rightarrow> (string \<rightharpoonup> 'p ztrack) \<Rightarrow> string list \<Rightarrow>
   ('p, 'r) zoneStage \<Rightarrow> ('p, 'r) zoneStage res"
where
  "exit_lost md5 G zid zone prev [] s = Inr s"
| "exit_lost md5 G zid zone prev (k # ks) s =
     (case prev k of
        None \<Rightarrow> exit_lost md5 G zid zone prev ks s
      | Some t \<Rightarrow>
          rbind (Intersect G zone (Point t)) (\<lambda>b.
            rbind (if \<not> b then exitZone md5 zid zone t s else Inr s) (exit_lost md5 G zid zone prev ks)))"

fun enter_found ::
  "(string \<Rightarrow> string) \<Rightarrow> ('p, 'r) geometry \<Rightarrow> string \<Rightarrow> ('p, 'r) zone \<Rightarrow> 'p ztrack list \<Rightarrow> ('p, 'r) zoneStage \<Rightarrow>
   ('p, 'r) zoneStage res"
where
  "enter_found md5 G zid zone [] s = Inr s"
| "enter_found md5 G zid zone (t # ts) s =
     (if IsExcludedTrack zone t \<or> BelongAreaToTrack zone t then enter_found md5 G zid zone ts s
      else rbind (Intersect G zone (Point t)) (\<lambda>b.
        rbind (if b then enterZone md5 zid zone t s else Inr s) (enter_found md5 G zid zone ts)))"

text \<open>
  The contents of a response are its id and the zone in it; a response without contents, without data or with data of
  another type is reported and ignored. The member map is replaced by an empty one before the previous members are
  read from it.
\<close>

definition updateZone ::
  "(string \<Rightarrow> string) \<Rightarrow> ('p, 'r) geometry \<Rightarrow> (('p, 'r) shape \<Rightarrow> 'p ztrack list) \<Rightarrow> string list \<Rightarrow> ('p, 'r) zone_response \<Rightarrow>
   ('p, 'r) zoneStage \<Rightarrow> ('p, 'r) zoneStage res"
where
  "updateZone md5 G search mord u s =
     (if zr_Status u = Status_InitialLoadDone then Inr s
      else case zr_Contents u of
        None \<Rightarrow> Inr s
      | Some (zid, None) \<Rightarrow> Inr s
      | Some (zid, Some zone) \<Rightarrow>
          if zr_Status u = Status_Timeout then removeZone md5 mord zid zone s
          else
            let s1 = relate_area G zid zone s;
                s2 = s1\<lparr>zones := (zones s1)(zid \<mapsto> zone), members := (members s1)(zid \<mapsto> Map.empty)\<rparr> in
            if \<not> CreateAlertOnEnter zone \<and> \<not> CreateAlertOnExit zone then Inr s2
            else
              rbind (GetBBox zone) (\<lambda>bbox.
                rbind (exit_lost md5 G zid zone (case members s2 zid of None \<Rightarrow> Map.empty | Some m \<Rightarrow> m) mord s2)
                  (enter_found md5 G zid zone (search bbox))))"

text \<open>The zones whose area is tied to a track follow it.\<close>

fun move_areas ::
  "('p, 'r) geometry \<Rightarrow> 'p option \<Rightarrow> string set \<Rightarrow> string list \<Rightarrow> ('p, 'r) zoneStage \<Rightarrow> ('p, 'r) zoneStage res"
where
  "move_areas G p ids [] s = Inr s"
| "move_areas G p ids (zoneId # ks) s =
     (if zoneId \<notin> ids then move_areas G p ids ks s
      else rbind (deref (zones s zoneId)) (\<lambda>z.
        case Area z of
          None \<Rightarrow> move_areas G p ids ks s
        | Some a \<Rightarrow>
            rbind (deref p) (\<lambda>q.
              let z' = z\<lparr>Area := Some (a\<lparr>Center := Some (ground G q)\<rparr>)\<rparr> in
              move_areas G p ids ks
                (s\<lparr>zones := (zones s)(zoneId \<mapsto> z'),
                   upserted := upserted s @ (if miscDB s then [(zoneId, z')] else [])\<rparr>))))"

definition updatePoliesByTrack ::
  "('p, 'r) geometry \<Rightarrow> string list \<Rightarrow> 'p ztrack \<Rightarrow> ('p, 'r) zoneStage \<Rightarrow> ('p, 'r) zoneStage res"
where
  "updatePoliesByTrack G aord t s =
     (if zk_Targets t = [] then Inr s
      else if zk_RegistryId t = [] \<and> zk_Id t = [] then Inr s
      else case relAreaZone s (if zk_RegistryId t = [] then zk_Id t else zk_RegistryId t) of
        None \<Rightarrow> Inr s
      | Some ids \<Rightarrow> move_areas G (Point t) ids aord s)"

definition check_zone ::
  "(string \<Rightarrow> string) \<Rightarrow> ('p, 'r) geometry \<Rightarrow> status \<Rightarrow> 'p ztrack \<Rightarrow> string \<Rightarrow> ('p, 'r) zone \<Rightarrow> ('p, 'r) zoneStage \<Rightarrow>
   ('p, 'r) zoneStage res"
where
  "check_zone md5 G st t zid z s =
     (if st = Status_Timeout then Inr (drop_member zid (LookupID t) s)
      else if IsExcludedTrack z t then Inr s
      else
        let isMember = (case members s zid of None \<Rightarrow> False | Some mems \<Rightarrow> mems (LookupID t) \<noteq> None) in
        rbind (Intersect G z (Point t)) (\<lambda>intersects.
          rbind (if \<not> BelongAreaToTrack z t \<and> intersects \<and> \<not> isMember then enterZone md5 zid z t s else Inr s) (\<lambda>s1.
            if \<not> intersects \<and> isMember then exitZone md5 zid z t s1 else Inr s1)))"

fun check_zones ::
  "(string \<Rightarrow> string) \<Rightarrow> ('p, 'r) geometry \<Rightarrow> status \<Rightarrow> 'p ztrack \<Rightarrow> string list \<Rightarrow> ('p, 'r) zoneStage \<Rightarrow>
   ('p, 'r) zoneStage res"
where
  "check_zones md5 G st t [] s = Inr s"
| "check_zones md5 G st t (zid # ids) s =
     (case zones s zid of
        None \<Rightarrow> check_zones md5 G st t ids s
      | Some z \<Rightarrow> rbind (check_zone md5 G st t zid z s) (check_zones md5 G st t ids))"

record 'p ztrack_update =
  ku_Status :: status
  ku_Track :: "'p ztrack option"

text \<open>\<open>aord\<close> orders the zones tied to the track, \<open>zord\<close> all zones.\<close>

definition analyze ::
  "(string \<Rightarrow> string) \<Rightarrow> ('p, 'r) geometry \<Rightarrow> string list \<Rightarrow> string list \<Rightarrow> 'p ztrack_update \<Rightarrow> ('p, 'r) zoneStage \<Rightarrow>
   ('p, 'r) zoneStage res"
where
  "analyze md5 G aord zord u s =
     rbind (deref (ku_Track u)) (\<lambda>t.
       if zk_Targets t = [] \<or> \<not> initialized s then Inr s
       else rbind (deref (hd (zk_Targets t))) (\<lambda>tgt.
         if zt_Type tgt = SARSAT then Inr s
         else rbind (updatePoliesByTrack G aord t s) (check_zones md5 G (ku_Status u) t zord)))"

text \<open>The initial load: updates until the end of the load or of the stream; a cancellation returns uninitialised.\<close>

datatype ('p, 'r) received = Received "('p, 'r) zone_response" "string list" | StreamClosed | ContextDone

fun init_zones ::
  "(string \<Rightarrow> string) \<Rightarrow> ('p, 'r) geometry \<Rightarrow> (('p, 'r) shape \<Rightarrow> 'p ztrack list) \<Rightarrow> ('p, 'r) received list \<Rightarrow>
   ('p, 'r) zoneStage \<Rightarrow> ('p, 'r) zoneStage res"
where
  "init_zones md5 G search [] s = Inr s"
| "init_zones md5 G search (ContextDone # rs) s = Inr s"
| "init_zones md5 G search (StreamClosed # rs) s = Inr (s\<lparr>initialized := True\<rparr>)"
| "init_zones md5 G search (Received u mord # rs) s =
     (if zr_Status u = Status_InitialLoadDone then Inr (s\<lparr>initialized := True\<rparr>)
      else rbind (updateZone md5 G search mord u s) (init_zones md5 G search rs))"

fun watch_zones ::
  "(string \<Rightarrow> string) \<Rightarrow> ('p, 'r) geometry \<Rightarrow> (('p, 'r) shape \<Rightarrow> 'p ztrack list) \<Rightarrow> ('p, 'r) received list \<Rightarrow>
   ('p, 'r) zoneStage \<Rightarrow> ('p, 'r) zoneStage res"
where
  "watch_zones md5 G search [] s = Inr s"
| "watch_zones md5 G search (ContextDone # rs) s = Inr s"
| "watch_zones md5 G search (StreamClosed # rs) s = Inr s"
| "watch_zones md5 G search (Received u mord # rs) s =
     rbind (updateZone md5 G search mord u s) (watch_zones md5 G search rs)"

section \<open>Sequences of events\<close>

datatype ('p, 'r) stage_event =
    ZoneEvent "('p, 'r) zone_response" "('p, 'r) shape \<Rightarrow> 'p ztrack list" "string list"
  | TrackEvent "'p ztrack_update" "string list" "string list"

fun stage_step ::
  "(string \<Rightarrow> string) \<Rightarrow> ('p, 'r) geometry \<Rightarrow> ('p, 'r) stage_event \<Rightarrow> ('p, 'r) zoneStage \<Rightarrow> ('p, 'r) zoneStage res"
where
  "stage_step md5 G (ZoneEvent u search mord) s = updateZone md5 G search mord u s"
| "stage_step md5 G (TrackEvent u aord zord) s = analyze md5 G aord zord u s"

fun stage_run ::
  "(string \<Rightarrow> string) \<Rightarrow> ('p, 'r) geometry \<Rightarrow> ('p, 'r) stage_event list \<Rightarrow> ('p, 'r) zoneStage \<Rightarrow> ('p, 'r) zoneStage res"
where
  "stage_run md5 G [] s = Inr s"
| "stage_run md5 G (e # es) s = rbind (stage_step md5 G e s) (stage_run md5 G es)"

section \<open>The invariant\<close>

text \<open>
  A track the stage can handle: it has a first target with a position, and the pointers its device type implies.
  \<open>A\<close> is the owner of the area of each zone, which the invariant takes to be fixed.
\<close>

definition track_ok :: "'p ztrack \<Rightarrow> bool" where
  "track_ok t \<longleftrightarrow> (\<exists>tgt rest. zk_Targets t = Some tgt # rest \<and> zt_Position tgt \<noteq> None) \<and> (\<exists>info. TargetInfoFromTrack t = Inr info)"

definition zone_ok :: "('p, 'r) zone \<Rightarrow> bool" where
  "zone_ok z \<longleftrightarrow> (\<exists>sh. zone_shape z = Inr sh)"

definition stage_ok :: "(string \<Rightarrow> string) \<Rightarrow> ('p, 'r) zoneStage \<Rightarrow> bool" where
  "stage_ok A s \<longleftrightarrow>
     dom (members s) = dom (zones s) \<and>
     (\<forall>zid z. zones s zid = Some z \<longrightarrow> zone_ok z \<and> GetAreaID z = A zid) \<and>
     (\<forall>a ids. relAreaZone s a = Some ids \<longrightarrow> (\<forall>zid\<in>ids. zid \<in> dom (zones s) \<and> A zid = a)) \<and>
     (\<forall>zid mems k t. members s zid = Some mems \<longrightarrow> mems k = Some t \<longrightarrow> track_ok t)"

fun event_ok :: "(string \<Rightarrow> string) \<Rightarrow> ('p, 'r) stage_event \<Rightarrow> bool" where
  "event_ok A (ZoneEvent u search mord) \<longleftrightarrow>
     (\<forall>zid z. zr_Contents u = Some (zid, Some z) \<longrightarrow> zone_ok z \<and> GetAreaID z = A zid) \<and> (\<forall>sh. \<forall>t\<in>set (search sh). track_ok t)"
| "event_ok A (TrackEvent u aord zord) \<longleftrightarrow> (\<exists>t. ku_Track u = Some t \<and> (zk_Targets t = [] \<or> track_ok t))"

lemma Point_ok: "track_ok t \<Longrightarrow> \<exists>p. Point t = Some p"
  by (auto simp: track_ok_def Point_def)

lemma Intersect_ok: "zone_ok z \<Longrightarrow> track_ok t \<Longrightarrow> \<exists>b. Intersect G z (Point t) = Inr b"
  using Point_ok[of t] by (auto simp: zone_ok_def Intersect_def Let_def)

definition the_notice :: "(string \<Rightarrow> string) \<Rightarrow> zevent \<Rightarrow> string \<Rightarrow> ('p, 'r) zone \<Rightarrow> 'p ztrack \<Rightarrow> znotice" where
  "the_notice md5 ev zid z t =
     \<lparr>zn_NoticeId = noticeID md5 zid t ev, zn_Event = ev, Source_Name = zn_Name z, Source_ZoneId = zid,
      zn_Target = projr (TargetInfoFromTrack t)\<rparr>"

lemma zNotify_eq:
  "track_ok t \<Longrightarrow> zNotify (zone_notice ev md5 zid z t) b s = Inr (s\<lparr>notified := notified s @ [(the_notice md5 ev zid z t, b)]\<rparr>)"
  by (auto simp: track_ok_def zNotify_def zone_notice_def the_notice_def)

text \<open>What entering and leaving tell the notifier.\<close>

definition enter_call :: "('p, 'r) zone \<Rightarrow> (zevent \<times> bool) list" where
  "enter_call z = (if CreateAlertOnEnter z then [(Notice_EnterZone, True)] else [])"

definition exit_call :: "('p, 'r) zone \<Rightarrow> (zevent \<times> bool) list" where
  "exit_call z =
     (if CreateAlertOnExit z then [(Notice_ExitZone, True)] else if CreateAlertOnEnter z then [(Notice_EnterZone, False)] else [])"

definition calls_of :: "(string \<Rightarrow> string) \<Rightarrow> string \<Rightarrow> ('p, 'r) zone \<Rightarrow> 'p ztrack \<Rightarrow> (zevent \<times> bool) list \<Rightarrow> (znotice \<times> bool) list" where
  "calls_of md5 zid z t evs = map (\<lambda>(ev, b). (the_notice md5 ev zid z t, b)) evs"

lemma enterZone_eq:
  "track_ok t \<Longrightarrow> members s zid = Some mems \<Longrightarrow> enterZone md5 zid z t s =
     Inr (s\<lparr>members := (members s)(zid \<mapsto> mems(LookupID t \<mapsto> t)), notified := notified s @ calls_of md5 zid z t (enter_call z)\<rparr>)"
  by (simp add: enterZone_def enterZoneNotice_def zNotify_eq enter_call_def calls_of_def)

lemma exitZone_eq:
  "track_ok t \<Longrightarrow> members s zid = Some mems \<Longrightarrow> exitZone md5 zid z t s =
     Inr (s\<lparr>members := (members s)(zid \<mapsto> mems(LookupID t := None)), notified := notified s @ calls_of md5 zid z t (exit_call z)\<rparr>)"
  by (simp add: exitZone_def drop_member_def enterZoneNotice_def exitZoneNotice_def zNotify_eq exit_call_def calls_of_def)

text \<open>One zone and one update of a track: whether the track is a member afterwards and what is told.\<close>

definition edge :: "('p, 'r) zone \<Rightarrow> bool \<Rightarrow> bool \<Rightarrow> (zevent \<times> bool) list" where
  "edge z was now = (if now \<and> \<not> was then enter_call z else if \<not> now \<and> was then exit_call z else [])"

definition now_in :: "('p, 'r) geometry \<Rightarrow> ('p, 'r) zone \<Rightarrow> 'p ztrack \<Rightarrow> bool \<Rightarrow> bool" where
  "now_in G z t was = (projr (Intersect G z (Point t)) \<and> (was \<or> \<not> BelongAreaToTrack z t))"

lemma check_zone_eq:
  assumes "zone_ok z" "track_ok t" "members s zid = Some mems"
  defines "k \<equiv> LookupID t"
  defines "was \<equiv> mems k \<noteq> None"
  shows "\<exists>mems'. check_zone md5 G st t zid z s =
      Inr (s\<lparr>members := (members s)(zid \<mapsto> mems'), notified := notified s @ calls_of md5 zid z t
             (if st = Status_Timeout \<or> IsExcludedTrack z t then [] else edge z was (now_in G z t was))\<rparr>) \<and>
    (\<forall>k'. k' \<noteq> k \<longrightarrow> mems' k' = mems k') \<and> (\<forall>t'. mems' k = Some t' \<longrightarrow> t' = t \<or> mems k = Some t') \<and>
    (mems' k \<noteq> None \<longleftrightarrow> (if st = Status_Timeout then False else if IsExcludedTrack z t then was else now_in G z t was))"
proof -
  obtain b where b: "Intersect G z (Point t) = Inr b" using Intersect_ok[OF assms(1,2)] by blast
  have id: "(members s)(zid \<mapsto> mems) = members s" using assms(3) by (simp add: fun_upd_idem)
  have nil: "calls_of md5 zid z t [] = []" by (simp add: calls_of_def)
  show ?thesis
  proof (cases "st = Status_Timeout")
    case True
    then show ?thesis using assms(3)
      by (intro exI[of _ "mems(k := None)"]) (simp add: check_zone_def drop_member_def nil k_def)
  next
    case nt: False
    show ?thesis
    proof (cases "IsExcludedTrack z t")
      case True
      then show ?thesis using nt assms(3)
        by (intro exI[of _ mems]) (simp add: check_zone_def nil id was_def)
    next
      case False
      then have e: "check_zone md5 G st t zid z s =
        rbind (if \<not> BelongAreaToTrack z t \<and> b \<and> \<not> was then enterZone md5 zid z t s else Inr s)
          (\<lambda>s1. if \<not> b \<and> was then exitZone md5 zid z t s1 else Inr s1)"
        using nt assms(3) by (simp add: check_zone_def b was_def k_def)
      consider "\<not> BelongAreaToTrack z t \<and> b \<and> \<not> was" | "\<not> b \<and> was" | "\<not> (\<not> BelongAreaToTrack z t \<and> b \<and> \<not> was)" "\<not> (\<not> b \<and> was)"
        by blast
      then show ?thesis
      proof cases
        case 1
        then show ?thesis unfolding e using nt False b
          by (intro exI[of _ "mems(k \<mapsto> t)"]) (simp add: enterZone_eq[OF assms(2,3)] edge_def now_in_def k_def)
      next
        case 2
        then show ?thesis unfolding e using nt False b
          by (intro exI[of _ "mems(k := None)"]) (simp add: exitZone_eq[OF assms(2,3)] edge_def now_in_def k_def)
      next
        case 3
        then show ?thesis unfolding e using nt False b
          by (intro exI[of _ mems]) (auto simp: edge_def now_in_def id nil was_def)
      qed
    qed
  qed
qed

section \<open>Membership and alerts of one zone and one track\<close>

definition is_member :: "('p, 'r) zoneStage \<Rightarrow> string \<Rightarrow> string \<Rightarrow> bool" where
  "is_member s zid k = (case members s zid of None \<Rightarrow> False | Some mems \<Rightarrow> mems k \<noteq> None)"

definition info_key :: "target_info \<Rightarrow> string" where
  "info_key i = (if ti_RegistryId i \<noteq> [] then ti_RegistryId i else ti_TrackId i)"

definition about :: "string \<Rightarrow> string \<Rightarrow> (znotice \<times> bool) list \<Rightarrow> (zevent \<times> bool) list" where
  "about zid k ns =
     map (\<lambda>(n, b). (zn_Event n, b)) (filter (\<lambda>(n, b). Source_ZoneId n = zid \<and> info_key (zn_Target n) = k) ns)"

definition told :: "('p, 'r) zoneStage \<Rightarrow> string \<Rightarrow> string \<Rightarrow> (zevent \<times> bool) list" where
  "told s zid k = about zid k (notified s)"

lemma info_key_track: "track_ok t \<Longrightarrow> info_key (projr (TargetInfoFromTrack t)) = LookupID t"
  by (auto simp: track_ok_def TargetInfoFromTrack_def info_key_def LookupID_def no_info_def Let_def rbind_def
      split: zdevice.splits sum.splits)

lemma about_calls:
  "track_ok t \<Longrightarrow> about zid k (calls_of md5 zid' z t evs) = (if zid = zid' \<and> k = LookupID t then evs else [])"
  by (induction evs) (auto simp: about_def calls_of_def the_notice_def info_key_track)

lemma about_append: "about zid k (xs @ ys) = about zid k xs @ about zid k ys"
  by (simp add: about_def)

definition verdict :: "('p, 'r) geometry \<Rightarrow> status \<Rightarrow> ('p, 'r) zone \<Rightarrow> 'p ztrack \<Rightarrow> bool \<Rightarrow> bool" where
  "verdict G st z t was = (if st = Status_Timeout then False else if IsExcludedTrack z t then was else now_in G z t was)"

definition news :: "('p, 'r) geometry \<Rightarrow> status \<Rightarrow> ('p, 'r) zone \<Rightarrow> 'p ztrack \<Rightarrow> bool \<Rightarrow> (zevent \<times> bool) list" where
  "news G st z t was = (if st = Status_Timeout \<or> IsExcludedTrack z t then [] else edge z was (now_in G z t was))"

text \<open>The notices told in a step, whose ids are the hashes of what they are about.\<close>

definition notice_ident :: "zevent \<Rightarrow> string \<Rightarrow> string \<Rightarrow> string" where
  "notice_ident ev zid k = ''(event:'' @ event_name ev @ '')(zone:'' @ zid @ '')(track:'' @ k @ '')''"

definition grows :: "(string \<Rightarrow> string) \<Rightarrow> ('p, 'r) zoneStage \<Rightarrow> ('p, 'r) zoneStage \<Rightarrow> bool" where
  "grows md5 s s' \<longleftrightarrow>
     (\<exists>ns. notified s' = notified s @ ns \<and>
        (\<forall>(n, b)\<in>set ns. zn_NoticeId n = md5 (notice_ident (zn_Event n) (Source_ZoneId n) (info_key (zn_Target n)))))"

lemma grows_refl: "notified s' = notified s \<Longrightarrow> grows md5 s s'"
  by (auto simp: grows_def)

lemma grows_trans: "grows md5 s s1 \<Longrightarrow> grows md5 s1 s2 \<Longrightarrow> grows md5 s s2"
  by (fastforce simp: grows_def)

lemma grows_calls: "track_ok t \<Longrightarrow> notified s' = notified s @ calls_of md5 zid z t evs \<Longrightarrow> grows md5 s s'"
  by (auto simp: grows_def calls_of_def the_notice_def info_key_track noticeID_def notice_ident_def)

definition frame :: "(string \<Rightarrow> string) \<Rightarrow> ('p, 'r) zoneStage \<Rightarrow> ('p, 'r) zoneStage \<Rightarrow> bool" where
  "frame md5 s s' \<longleftrightarrow> zones s' = zones s \<and> relAreaZone s' = relAreaZone s \<and> initialized s' = initialized s \<and> grows md5 s s'"

lemma check_zone_run:
  assumes "stage_ok A s" "track_ok t" "zones s zid = Some z"
  shows "\<exists>s'. check_zone md5 G st t zid z s = Inr s' \<and> stage_ok A s' \<and> frame md5 s s' \<and>
    (\<forall>zid' k. is_member s' zid' k =
       (if zid' = zid \<and> k = LookupID t then verdict G st z t (is_member s zid k) else is_member s zid' k)) \<and>
    (\<forall>zid' k. told s' zid' k = told s zid' k @ (if zid' = zid \<and> k = LookupID t then news G st z t (is_member s zid k) else []))"
proof -
  have z: "zone_ok z" "zid \<in> dom (members s)" using assms(1,3) by (auto simp: stage_ok_def)
  then obtain mems where m: "members s zid = Some mems" by blast
  have was: "is_member s zid (LookupID t) = (mems (LookupID t) \<noteq> None)" by (simp add: is_member_def m)
  obtain mems' where e: "check_zone md5 G st t zid z s = Inr (s\<lparr>members := (members s)(zid \<mapsto> mems'),
        notified := notified s @ calls_of md5 zid z t (news G st z t (is_member s zid (LookupID t)))\<rparr>)"
      "\<forall>k'. k' \<noteq> LookupID t \<longrightarrow> mems' k' = mems k'" "\<forall>t'. mems' (LookupID t) = Some t' \<longrightarrow> t' = t \<or> mems (LookupID t) = Some t'"
      "mems' (LookupID t) \<noteq> None \<longleftrightarrow> verdict G st z t (is_member s zid (LookupID t))"
    using check_zone_eq[OF z(1) assms(2) m, of md5 G st] unfolding was news_def verdict_def by metis
  let ?s' = "s\<lparr>members := (members s)(zid \<mapsto> mems'),
    notified := notified s @ calls_of md5 zid z t (news G st z t (is_member s zid (LookupID t)))\<rparr>"
  have tk: "track_ok t'" if "mems' k = Some t'" for k t'
    using that e(2,3) assms(1,2) m by (cases "k = LookupID t") (auto simp: stage_ok_def)
  have "stage_ok A ?s'"
    using assms(1) z(2) tk by (auto simp: stage_ok_def insert_absorb)
  moreover have "is_member ?s' zid' k =
      (if zid' = zid \<and> k = LookupID t then verdict G st z t (is_member s zid k) else is_member s zid' k)" for zid' k
    using e(2,4) m by (auto simp: is_member_def)
  moreover have "told ?s' zid' k = told s zid' k @ (if zid' = zid \<and> k = LookupID t then news G st z t (is_member s zid k) else [])" for zid' k
    by (simp add: told_def about_append about_calls[OF assms(2)])
  moreover have "grows md5 s ?s'" by (rule grows_calls[OF assms(2)]) simp
  ultimately show ?thesis using e(1) by (intro exI[of _ ?s']) (simp add: frame_def)
qed

lemma check_zones_run:
  assumes "stage_ok A s" "track_ok t" "distinct ids"
  shows "\<exists>s'. check_zones md5 G st t ids s = Inr s' \<and> stage_ok A s' \<and> frame md5 s s' \<and>
    (\<forall>zid z k. zones s zid = Some z \<longrightarrow> is_member s' zid k =
       (if zid \<in> set ids \<and> k = LookupID t then verdict G st z t (is_member s zid k) else is_member s zid k)) \<and>
    (\<forall>zid z k. zones s zid = Some z \<longrightarrow>
       told s' zid k = told s zid k @ (if zid \<in> set ids \<and> k = LookupID t then news G st z t (is_member s zid k) else []))"
  using assms
proof (induction ids arbitrary: s)
  case Nil
  then show ?case by (simp add: frame_def grows_refl)
next
  case (Cons i ids)
  show ?case
  proof (cases "zones s i")
    case None
    then have "zid \<in> set (i # ids) \<longleftrightarrow> zid \<in> set ids" if "zones s zid = Some z" for zid z
      using that by auto
    moreover have "check_zones md5 G st t (i # ids) s = check_zones md5 G st t ids s" using None by simp
    moreover have "distinct ids" using Cons.prems(3) by simp
    ultimately show ?thesis using Cons.IH[OF Cons.prems(1,2)] by simp
  next
    case (Some z)
    obtain s1 where s1: "check_zone md5 G st t i z s = Inr s1" "stage_ok A s1" "frame md5 s s1"
      "\<forall>zid' k. is_member s1 zid' k = (if zid' = i \<and> k = LookupID t then verdict G st z t (is_member s i k) else is_member s zid' k)"
      "\<forall>zid' k. told s1 zid' k = told s zid' k @ (if zid' = i \<and> k = LookupID t then news G st z t (is_member s i k) else [])"
      using check_zone_run[OF Cons.prems(1,2) Some] by blast
    have "distinct ids" using Cons.prems(3) by simp
    from Cons.IH[OF s1(2) Cons.prems(2) this] obtain s' where s': "check_zones md5 G st t ids s1 = Inr s'" "stage_ok A s'" "frame md5 s1 s'"
      "\<forall>zid z k. zones s1 zid = Some z \<longrightarrow> is_member s' zid k =
        (if zid \<in> set ids \<and> k = LookupID t then verdict G st z t (is_member s1 zid k) else is_member s1 zid k)"
      "\<forall>zid z k. zones s1 zid = Some z \<longrightarrow>
        told s' zid k = told s1 zid k @ (if zid \<in> set ids \<and> k = LookupID t then news G st z t (is_member s1 zid k) else [])"
      by blast
    have zs: "zones s1 = zones s" "i \<notin> set ids" using s1(3) Cons.prems(3) by (simp_all add: frame_def)
    have "check_zones md5 G st t (i # ids) s = Inr s'" using Some s1(1) s'(1) by simp
    moreover have "frame md5 s s'" using s1(3) s'(3) by (auto simp: frame_def intro: grows_trans)
    moreover have "is_member s' zid k = (if zid \<in> set (i # ids) \<and> k = LookupID t then verdict G st z' t (is_member s zid k) else is_member s zid k)"
      if "zones s zid = Some z'" for zid z' k
      using s'(4) s1(4) that zs Some by (cases "zid = i") auto
    moreover have "told s' zid k = told s zid k @ (if zid \<in> set (i # ids) \<and> k = LookupID t then news G st z' t (is_member s zid k) else [])"
      if "zones s zid = Some z'" for zid z' k
      using s'(5) s1(4,5) that zs Some by (cases "zid = i") auto
    ultimately show ?thesis using s'(2) by (intro exI[of _ s']) blast
  qed
qed

lemma GetAreaID_center: "Area z = Some a \<Longrightarrow> GetAreaID (z\<lparr>Area := Some (a\<lparr>Center := c\<rparr>)\<rparr>) = GetAreaID z"
  by (simp add: GetAreaID_def)

lemma zone_ok_center: "zone_ok (z\<lparr>Area := Some (a\<lparr>Center := Some c\<rparr>)\<rparr>)"
  by (simp add: zone_ok_def zone_shape_def)

lemma move_areas_run:
  assumes "stage_ok A s" "ids \<subseteq> dom (zones s)"
  shows "\<exists>s'. move_areas G (Some p) ids ks s = Inr s' \<and> stage_ok A s' \<and> dom (zones s') = dom (zones s) \<and>
    (\<forall>zid z. zones s zid = Some z \<longrightarrow> Area z = None \<longrightarrow> zones s' zid = Some z) \<and>
    members s' = members s \<and> notified s' = notified s \<and> initialized s' = initialized s"
  using assms
proof (induction ks arbitrary: s)
  case (Cons k ks)
  show ?case
  proof (cases "k \<in> ids")
    case True
    then obtain z where z: "zones s k = Some z" using Cons.prems(2) by blast
    show ?thesis
    proof (cases "Area z")
      case None
      then show ?thesis using Cons.IH[OF Cons.prems] True z by simp
    next
      case (Some a)
      let ?z = "z\<lparr>Area := Some (a\<lparr>Center := Some (ground G p)\<rparr>)\<rparr>"
      let ?s = "s\<lparr>zones := (zones s)(k \<mapsto> ?z), upserted := upserted s @ (if miscDB s then [(k, ?z)] else [])\<rparr>"
      have d: "dom (zones ?s) = dom (zones s)" using z by auto
      have g: "GetAreaID ?z = A k" using GetAreaID_center[OF Some] Cons.prems(1) z by (simp add: stage_ok_def)
      have "stage_ok A ?s"
        using Cons.prems(1) z unfolding stage_ok_def d by (auto simp: g zone_ok_center)
      moreover have "ids \<subseteq> dom (zones ?s)" using Cons.prems(2) d by simp
      ultimately obtain s' where s': "move_areas G (Some p) ids ks ?s = Inr s'" "stage_ok A s'" "dom (zones s') = dom (zones ?s)"
        "\<forall>zid z. zones ?s zid = Some z \<longrightarrow> Area z = None \<longrightarrow> zones s' zid = Some z"
        "members s' = members ?s" "notified s' = notified ?s" "initialized s' = initialized ?s"
        using Cons.IH by blast
      have "zones s' zid = Some w" if "zones s zid = Some w" "Area w = None" for zid w
        using s'(4) that z Some by (cases "zid = k") auto
      moreover have "move_areas G (Some p) ids (k # ks) s = Inr s'" using True z Some s'(1) by (simp add: Let_def)
      ultimately show ?thesis using s' d by (intro exI[of _ s']) auto
    qed
  next
    case False
    then show ?thesis using Cons.IH[OF Cons.prems] by simp
  qed
qed simp

lemma updatePoliesByTrack_run:
  assumes "stage_ok A s" "track_ok t"
  shows "\<exists>s'. updatePoliesByTrack G aord t s = Inr s' \<and> stage_ok A s' \<and> dom (zones s') = dom (zones s) \<and>
    (\<forall>zid z. zones s zid = Some z \<longrightarrow> Area z = None \<longrightarrow> zones s' zid = Some z) \<and>
    members s' = members s \<and> notified s' = notified s \<and> initialized s' = initialized s"
proof -
  obtain p where p: "Point t = Some p" using Point_ok[OF assms(2)] by blast
  let ?k = "if zk_RegistryId t = [] then zk_Id t else zk_RegistryId t"
  show ?thesis
  proof (cases "zk_Targets t = [] \<or> zk_RegistryId t = [] \<and> zk_Id t = [] \<or> relAreaZone s ?k = None")
    case True
    then show ?thesis using assms(1) by (auto simp: updatePoliesByTrack_def)
  next
    case False
    then obtain ids where r: "relAreaZone s ?k = Some ids" by blast
    then have "ids \<subseteq> dom (zones s)" using assms(1) unfolding stage_ok_def by blast
    moreover have "updatePoliesByTrack G aord t s = move_areas G (Some p) ids aord s"
      using False r by (auto simp: updatePoliesByTrack_def p)
    ultimately show ?thesis using move_areas_run[OF assms(1), of ids G p aord] by simp
  qed
qed

text \<open>What one update says about a track and a zone: nothing, that the track is gone, or whether it is inside.\<close>

datatype observation = Ignored | Gone | Seen bool

definition observe :: "('p, 'r) geometry \<Rightarrow> ('p, 'r) zone \<Rightarrow> string \<Rightarrow> 'p ztrack_update \<Rightarrow> observation" where
  "observe G z k u =
     (case ku_Track u of
        None \<Rightarrow> Ignored
      | Some t \<Rightarrow>
          if zk_Targets t = [] \<or> map_option zt_Type (hd (zk_Targets t)) = Some SARSAT \<or> LookupID t \<noteq> k then Ignored
          else if ku_Status u = Status_Timeout then Gone
          else if IsExcludedTrack z t then Ignored
          else Seen (projr (Intersect G z (Point t))))"

fun was_after :: "bool \<Rightarrow> observation \<Rightarrow> bool" where
  "was_after was Ignored = was"
| "was_after was Gone = False"
| "was_after was (Seen now) = now"

fun alert_for :: "('p, 'r) zone \<Rightarrow> bool \<Rightarrow> observation \<Rightarrow> (zevent \<times> bool) list" where
  "alert_for z was Ignored = []"
| "alert_for z was Gone = []"
| "alert_for z was (Seen now) = edge z was now"

fun alerts :: "('p, 'r) zone \<Rightarrow> bool \<Rightarrow> observation list \<Rightarrow> (zevent \<times> bool) list" where
  "alerts z was [] = []"
| "alerts z was (ob # obs) = alert_for z was ob @ alerts z (was_after was ob) obs"

lemma analyze_run:
  assumes "stage_ok A s" "event_ok A (TrackEvent u aord zord)" "initialized s" "distinct zord" "set zord = dom (zones s)"
  shows "\<exists>s'. analyze md5 G aord zord u s = Inr s' \<and> stage_ok A s' \<and> initialized s' \<and> dom (zones s') = dom (zones s) \<and> grows md5 s s' \<and>
    (\<forall>zid z k. zones s zid = Some z \<longrightarrow> Area z = None \<longrightarrow> zones s' zid = Some z \<and>
       is_member s' zid k = was_after (is_member s zid k) (observe G z k u) \<and>
       told s' zid k = told s zid k @ alert_for z (is_member s zid k) (observe G z k u))"
proof -
  obtain t where t: "ku_Track u = Some t" "zk_Targets t = [] \<or> track_ok t" using assms(2) by auto
  show ?thesis
  proof (cases "zk_Targets t = [] \<or> map_option zt_Type (hd (zk_Targets t)) = Some SARSAT")
    case True
    then have "analyze md5 G aord zord u s = Inr s"
      using t assms(3) by (auto simp: analyze_def track_ok_def)
    moreover have "observe G z k u = Ignored" for z k using True t by (auto simp: observe_def)
    ultimately show ?thesis using assms by (simp add: grows_refl)
  next
    case False
    then have tok: "track_ok t" using t(2) by blast
    then obtain tgt rest where tg: "zk_Targets t = Some tgt # rest" by (auto simp: track_ok_def)
    obtain s1 where s1: "updatePoliesByTrack G aord t s = Inr s1" "stage_ok A s1" "dom (zones s1) = dom (zones s)"
      "\<forall>zid z. zones s zid = Some z \<longrightarrow> Area z = None \<longrightarrow> zones s1 zid = Some z"
      "members s1 = members s" "notified s1 = notified s" "initialized s1 = initialized s"
      using updatePoliesByTrack_run[OF assms(1) tok] by blast
    obtain s' where s': "check_zones md5 G (ku_Status u) t zord s1 = Inr s'" "stage_ok A s'" "frame md5 s1 s'"
      "\<forall>zid z k. zones s1 zid = Some z \<longrightarrow> is_member s' zid k =
        (if zid \<in> set zord \<and> k = LookupID t then verdict G (ku_Status u) z t (is_member s1 zid k) else is_member s1 zid k)"
      "\<forall>zid z k. zones s1 zid = Some z \<longrightarrow> told s' zid k = told s1 zid k @
        (if zid \<in> set zord \<and> k = LookupID t then news G (ku_Status u) z t (is_member s1 zid k) else [])"
      using check_zones_run[OF s1(2) tok assms(4)] by blast
    have same: "is_member s1 = is_member s" "told s1 = told s"
      using s1(5,6) by (simp_all add: is_member_def told_def fun_eq_iff)
    have an: "analyze md5 G aord zord u s = Inr s'"
      using False t(1) tg s1(1) s'(1) assms(3) by (simp add: analyze_def)
    have "zones s' zid = Some z \<and> is_member s' zid k = was_after (is_member s zid k) (observe G z k u) \<and>
       told s' zid k = told s zid k @ alert_for z (is_member s zid k) (observe G z k u)"
      if z: "zones s zid = Some z" "Area z = None" for zid z k
    proof -
      have z1: "zones s1 zid = Some z" "zid \<in> set zord" using s1(4) z assms(5) by auto
      have "\<not> BelongAreaToTrack z t" using z(2) by (simp add: BelongAreaToTrack_def)
      then have "verdict G (ku_Status u) z t w = was_after w (observe G z k u)" "news G (ku_Status u) z t w = alert_for z w (observe G z k u)"
        if "k = LookupID t" for w
        using False that t(1) by (auto simp: verdict_def news_def observe_def now_in_def)
      moreover have "observe G z k u = Ignored" if "k \<noteq> LookupID t" using that t(1) by (simp add: observe_def)
      ultimately show ?thesis
        using s'(3,4,5) z1 same by (cases "k = LookupID t") (auto simp: frame_def)
    qed
    moreover have "grows md5 s s'" using s'(3) s1(6) by (simp add: frame_def grows_def)
    ultimately show ?thesis using an s' s1 assms(3) by (intro exI[of _ s']) (auto simp: frame_def)
  qed
qed

lemma stage_run_alerts:
  assumes "stage_ok A s" "initialized s" "zones s zid = Some z" "Area z = None"
    and "\<forall>(u, aord, zord)\<in>set us. event_ok A (TrackEvent u aord zord) \<and> distinct zord \<and> set zord = dom (zones s)"
  shows "\<exists>s'. stage_run md5 G (map (\<lambda>(u, aord, zord). TrackEvent u aord zord) us) s = Inr s' \<and> grows md5 s s' \<and>
    (\<forall>k. told s' zid k = told s zid k @ alerts z (is_member s zid k) (map (\<lambda>(u, _). observe G z k u) us) \<and>
      is_member s' zid k = foldl was_after (is_member s zid k) (map (\<lambda>(u, _). observe G z k u) us))"
  using assms
proof (induction us arbitrary: s)
  case Nil
  then show ?case by (simp add: grows_refl)
next
  case (Cons e us)
  obtain u aord zord where e: "e = (u, aord, zord)" by (cases e)
  have ev: "event_ok A (TrackEvent u aord zord)" "distinct zord" "set zord = dom (zones s)" using Cons.prems(5) e by auto
  from analyze_run[OF Cons.prems(1) ev(1) Cons.prems(2) ev(2,3), of md5 G] obtain s1 where
    s1: "analyze md5 G aord zord u s = Inr s1" "stage_ok A s1" "initialized s1" "dom (zones s1) = dom (zones s)" "grows md5 s s1"
      "zones s1 zid = Some z" "\<forall>k. is_member s1 zid k = was_after (is_member s zid k) (observe G z k u) \<and>
      told s1 zid k = told s zid k @ alert_for z (is_member s zid k) (observe G z k u)"
    using Cons.prems(3,4) by blast
  have "\<forall>(u, aord, zord)\<in>set us. event_ok A (TrackEvent u aord zord) \<and> distinct zord \<and> set zord = dom (zones s1)"
    using Cons.prems(5) s1(4) by simp
  from Cons.IH[OF s1(2,3,6) Cons.prems(4) this] show ?case using e s1 grows_trans[OF s1(5)] by auto
qed

text \<open>C23. 
  For a zone without a moving area, the notifier is told exactly the edges of whether a track is inside: as long as
  the set of zones does not change, any sequence of updates of well-formed tracks is handled without a fault, each
  first update inside reports an entry and each first update outside after that an exit, a timeout forgets the track,
  and nothing else is told about this zone and track.
\<close>

theorem zone_alerts_exact:
  assumes "stage_ok A s" "initialized s" "zones s zid = Some z" "Area z = None"
    and "\<forall>(u, aord, zord)\<in>set us. event_ok A (TrackEvent u aord zord) \<and> distinct zord \<and> set zord = dom (zones s)"
  shows "\<exists>s'. stage_run md5 G (map (\<lambda>(u, aord, zord). TrackEvent u aord zord) us) s = Inr s' \<and>
    told s' zid k = told s zid k @ alerts z (is_member s zid k) (map (\<lambda>(u, _). observe G z k u) us) \<and>
    is_member s' zid k = foldl was_after (is_member s zid k) (map (\<lambda>(u, _). observe G z k u) us)"
  using stage_run_alerts[OF assms, of md5 G] by blast

section \<open>Safety\<close>

lemma check_zones_safe:
  "stage_ok A s \<Longrightarrow> track_ok t \<Longrightarrow> \<exists>s'. check_zones md5 G st t ids s = Inr s' \<and> stage_ok A s'"
proof (induction ids arbitrary: s)
  case (Cons i ids)
  show ?case
  proof (cases "zones s i")
    case None
    then show ?thesis using Cons by simp
  next
    case (Some z)
    from check_zone_run[OF Cons.prems Some] obtain s1 where "check_zone md5 G st t i z s = Inr s1" "stage_ok A s1" by blast
    then show ?thesis using Cons.IH[OF _ Cons.prems(2)] Some by auto
  qed
qed simp

lemma analyze_safe:
  assumes "stage_ok A s" "event_ok A (TrackEvent u aord zord)"
  shows "\<exists>s'. analyze md5 G aord zord u s = Inr s' \<and> stage_ok A s'"
proof -
  obtain t where t: "ku_Track u = Some t" "zk_Targets t = [] \<or> track_ok t" using assms(2) by auto
  show ?thesis
  proof (cases "zk_Targets t = [] \<or> \<not> initialized s")
    case True
    then show ?thesis using t assms(1) by (simp add: analyze_def)
  next
    case False
    then have tok: "track_ok t" using t(2) by blast
    then obtain tgt rest where tg: "zk_Targets t = Some tgt # rest" by (auto simp: track_ok_def)
    from updatePoliesByTrack_run[OF assms(1) tok] obtain s1 where "updatePoliesByTrack G aord t s = Inr s1" "stage_ok A s1" by blast
    then show ?thesis using False t(1) tg check_zones_safe[of A s1, OF _ tok, of md5 G "ku_Status u" zord] assms(1)
      by (simp add: analyze_def)
  qed
qed

lemma clear_members_run:
  "(\<forall>k t. mems k = Some t \<longrightarrow> track_ok t) \<Longrightarrow>
   \<exists>ns. clear_members md5 zid z mems ks s = Inr (s\<lparr>notified := notified s @ ns\<rparr>)"
proof (induction ks arbitrary: s)
  case Nil
  show ?case by (intro exI[of _ "[]"]) simp
next
  case (Cons k ks)
  show ?case
  proof (cases "mems k")
    case None
    then show ?thesis using Cons by simp
  next
    case (Some t)
    with Cons.prems have "track_ok t" by blast
    then obtain n where n: "zNotify (enterZoneNotice md5 zid z t) False s = Inr (s\<lparr>notified := notified s @ [n]\<rparr>)"
      using zNotify_eq[of t Notice_EnterZone md5 zid z False s] by (auto simp: enterZoneNotice_def)
    from Cons.IH[OF Cons.prems, of "s\<lparr>notified := notified s @ [n]\<rparr>"] show ?thesis using Some n by auto
  qed
qed

lemma removeZone_safe:
  assumes "stage_ok A s" "GetAreaID z = A zid"
  shows "\<exists>s'. removeZone md5 mord zid z s = Inr s' \<and> stage_ok A s'"
proof -
  let ?mems = "case members s zid of None \<Rightarrow> Map.empty | Some m \<Rightarrow> m"
  have "\<forall>k t. ?mems k = Some t \<longrightarrow> track_ok t" using assms(1) by (auto simp: stage_ok_def split: option.splits)
  from clear_members_run[OF this, of md5 zid z mord s] obtain ns where
    "clear_members md5 zid z ?mems mord s = Inr (s\<lparr>notified := notified s @ ns\<rparr>)" by blast
  moreover have "s = s\<lparr>notified := notified s @ []\<rparr>" by simp
  ultimately obtain ns' where "(if CreateAlertOnEnter z then clear_members md5 zid z ?mems mord s else Inr s) =
      Inr (s\<lparr>notified := notified s @ ns'\<rparr>)" by metis
  then show ?thesis using assms
    by (auto simp: removeZone_def Let_def stage_ok_def dom_fun_upd split: option.splits if_splits)
qed

lemma enter_found_run:
  assumes "stage_ok A s" "zone_ok z" "zid \<in> dom (zones s)" "\<forall>t\<in>set ts. track_ok t"
  shows "\<exists>s' ns. enter_found md5 G zid z ts s = Inr s' \<and> stage_ok A s' \<and> notified s' = notified s @ ns \<and>
    (\<forall>(n, b)\<in>set ns. zn_Event n = Notice_EnterZone \<and> b) \<and>
    (\<forall>k. k \<notin> LookupID ` set ts \<longrightarrow> is_member s' zid k = is_member s zid k)"
  using assms
proof (induction ts arbitrary: s)
  case Nil
  then show ?case by (intro exI[of _ s] exI[of _ "[]"]) simp
next
  case (Cons t ts)
  then have ts: "\<forall>t\<in>set ts. track_ok t" and tok: "track_ok t" by simp_all
  show ?case
  proof (cases "IsExcludedTrack z t \<or> BelongAreaToTrack z t")
    case True
    then show ?thesis using Cons.IH[OF Cons.prems(1-3) ts] by simp metis
  next
    case False
    obtain b where b: "Intersect G z (Point t) = Inr b" using Intersect_ok[OF Cons.prems(2) tok] by blast
    have "zid \<in> dom (members s)" using Cons.prems(1,3) by (simp add: stage_ok_def)
    then obtain mems where m: "members s zid = Some mems" by blast
    define s1 where "s1 = (if b then s\<lparr>members := (members s)(zid \<mapsto> mems(LookupID t \<mapsto> t)),
      notified := notified s @ calls_of md5 zid z t (enter_call z)\<rparr> else s)"
    have e: "enter_found md5 G zid z (t # ts) s = enter_found md5 G zid z ts s1"
      using False b by (simp add: s1_def enterZone_eq[OF tok m])
    have "stage_ok A s1" using Cons.prems(1,3) m tok by (auto simp: s1_def stage_ok_def insert_absorb)
    moreover have "zid \<in> dom (zones s1)" using Cons.prems(3) by (simp add: s1_def)
    ultimately obtain s' ns where s': "enter_found md5 G zid z ts s1 = Inr s'" "stage_ok A s'" "notified s' = notified s1 @ ns"
      "\<forall>(n, b)\<in>set ns. zn_Event n = Notice_EnterZone \<and> b"
      "\<forall>k. k \<notin> LookupID ` set ts \<longrightarrow> is_member s' zid k = is_member s1 zid k"
      using Cons.IH[OF _ Cons.prems(2) _ ts] by blast
    obtain ns0 where ns0: "notified s1 = notified s @ ns0" "\<forall>(n, b)\<in>set ns0. zn_Event n = Notice_EnterZone \<and> b"
      by (cases b) (auto simp: s1_def calls_of_def enter_call_def the_notice_def)
    have "is_member s1 zid k = is_member s zid k" if "k \<noteq> LookupID t" for k
      using that m by (simp add: s1_def is_member_def)
    then show ?thesis using e s' ns0 by (intro exI[of _ s'] exI[of _ "ns0 @ ns"]) auto
  qed
qed

lemma exit_lost_empty: "exit_lost md5 G zid z Map.empty ks s = Inr s"
  by (induction ks) simp_all

text \<open>The state a zone update works on after the zone has been stored.\<close>

definition stored :: "('p, 'r) geometry \<Rightarrow> string \<Rightarrow> ('p, 'r) zone \<Rightarrow> ('p, 'r) zoneStage \<Rightarrow> ('p, 'r) zoneStage" where
  "stored G zid z s =
     (let s1 = relate_area G zid z s in s1\<lparr>zones := (zones s1)(zid \<mapsto> z), members := (members s1)(zid \<mapsto> Map.empty)\<rparr>)"

lemma stored_ok:
  "stage_ok A s \<Longrightarrow> zone_ok z \<Longrightarrow> GetAreaID z = A zid \<Longrightarrow> stage_ok A (stored G zid z s)"
  by (auto simp: stage_ok_def stored_def relate_area_def Let_def split: option.splits)

lemma stored_frame [simp]:
  "notified (stored G zid z s) = notified s" "zid \<in> dom (zones (stored G zid z s))" "\<not> is_member (stored G zid z s) zid k"
  by (auto simp: stored_def relate_area_def Let_def is_member_def split: option.splits)

lemma updateZone_stored:
  assumes "zr_Status u \<noteq> Status_InitialLoadDone" "zr_Status u \<noteq> Status_Timeout" "zr_Contents u = Some (zid, Some z)"
  shows "updateZone md5 G search mord u s =
    (if \<not> CreateAlertOnEnter z \<and> \<not> CreateAlertOnExit z then Inr (stored G zid z s)
     else rbind (GetBBox z) (\<lambda>bbox. enter_found md5 G zid z (search bbox) (stored G zid z s)))"
  using assms by (simp add: updateZone_def stored_def Let_def exit_lost_empty)

lemma updateZone_run:
  assumes "stage_ok A s" "event_ok A (ZoneEvent u search mord)" "zr_Status u \<noteq> Status_InitialLoadDone"
    "zr_Status u \<noteq> Status_Timeout" "zr_Contents u = Some (zid, Some z)"
  shows "\<exists>s' ns. updateZone md5 G search mord u s = Inr s' \<and> stage_ok A s' \<and> notified s' = notified s @ ns \<and>
    (\<forall>(n, b)\<in>set ns. zn_Event n = Notice_EnterZone \<and> b) \<and>
    (\<forall>k. (\<forall>sh. \<forall>t\<in>set (search sh). LookupID t \<noteq> k) \<longrightarrow> \<not> is_member s' zid k)"
proof -
  have z: "zone_ok z" "GetAreaID z = A zid" and f: "\<forall>sh. \<forall>t\<in>set (search sh). track_ok t" using assms(2,5) by auto
  note st = stored_ok[OF assms(1) z, of G]
  show ?thesis
  proof (cases "\<not> CreateAlertOnEnter z \<and> \<not> CreateAlertOnExit z")
    case True
    then show ?thesis
      using updateZone_stored[OF assms(3-5)] st by (intro exI[of _ "stored G zid z s"] exI[of _ "[]"]) simp
  next
    case False
    obtain sh where sh: "GetBBox z = Inr sh" using z(1) by (auto simp: zone_ok_def GetBBox_def)
    have "\<forall>t\<in>set (search sh). track_ok t" using f by blast
    from enter_found_run[OF st z(1) stored_frame(2) this, of md5 G] obtain s' ns where
      e: "enter_found md5 G zid z (search sh) (stored G zid z s) = Inr s'" "stage_ok A s'" "notified s' = notified s @ ns"
      "\<forall>(n, b)\<in>set ns. zn_Event n = Notice_EnterZone \<and> b"
      and k: "\<forall>k. k \<notin> LookupID ` set (search sh) \<longrightarrow> \<not> is_member s' zid k" by auto
    have "\<not> is_member s' zid k" if q: "\<forall>sh. \<forall>t\<in>set (search sh). LookupID t \<noteq> k" for k
    proof -
      have "k \<notin> LookupID ` set (search sh)" using q by blast
      with k show ?thesis by simp
    qed
    moreover have "updateZone md5 G search mord u s = Inr s'"
      using updateZone_stored[OF assms(3-5), of md5 G search mord s] False sh e(1) by simp
    ultimately show ?thesis using e by blast
  qed
qed

lemma stage_step_safe:
  assumes "stage_ok A s" "event_ok A e"
  shows "\<exists>s'. stage_step md5 G e s = Inr s' \<and> stage_ok A s'"
proof (cases e)
  case (TrackEvent u aord zord)
  then show ?thesis using analyze_safe[OF assms(1)] assms(2) by simp
next
  case (ZoneEvent u search mord)
  have ev: "event_ok A (ZoneEvent u search mord)" using assms(2) ZoneEvent by simp
  show ?thesis
  proof (cases "zr_Status u = Status_InitialLoadDone \<or> (\<nexists>zid z. zr_Contents u = Some (zid, Some z))")
    case True
    then have "updateZone md5 G search mord u s = Inr s" by (auto simp: updateZone_def split: option.splits)
    then show ?thesis using ZoneEvent assms(1) by simp
  next
    case False
    then obtain zid z where z: "zr_Contents u = Some (zid, Some z)" "zr_Status u \<noteq> Status_InitialLoadDone" by auto
    show ?thesis
    proof (cases "zr_Status u = Status_Timeout")
      case True
      then have "updateZone md5 G search mord u s = removeZone md5 mord zid z s" using z by (simp add: updateZone_def)
      moreover have "GetAreaID z = A zid" using ev z by simp
      ultimately show ?thesis using removeZone_safe[OF assms(1)] ZoneEvent by simp
    next
      case False
      then show ?thesis using updateZone_run[OF assms(1) ev z(2) False z(1), of md5 G] ZoneEvent by auto
    qed
  qed
qed

text \<open>
  The stage never faults: over any sequence of zone updates, zone removals and track updates in any order of the maps,
  as long as a zone keeps the owner of its area, zones have a shape and tracks a position.
\<close>

theorem zone_stage_safe:
  assumes "stage_ok A s" "\<forall>e\<in>set es. event_ok A e"
  shows "\<exists>s'. stage_run md5 G es s = Inr s' \<and> stage_ok A s'"
  using assms
proof (induction es arbitrary: s)
  case (Cons e es)
  from stage_step_safe[of A s e md5 G] Cons.prems obtain s1 where "stage_step md5 G e s = Inr s1" "stage_ok A s1" by auto
  then show ?case using Cons by simp
qed simp

text \<open>
  The members of a zone are forgotten when the zone is updated: the update tells the notifier nothing but entries, and
  every member that the search does not find again leaves the zone without an exit alert.
\<close>

theorem zone_update_drops_members:
  assumes "stage_ok A s" "event_ok A (ZoneEvent u search mord)" "zr_Status u = Status_Current" "zr_Contents u = Some (zid, Some z)"
    and "\<forall>sh. \<forall>t\<in>set (search sh). LookupID t \<noteq> k" "is_member s zid k"
  shows "\<exists>s' ns. updateZone md5 G search mord u s = Inr s' \<and> \<not> is_member s' zid k \<and> notified s' = notified s @ ns \<and>
    (\<forall>(n, b)\<in>set ns. zn_Event n = Notice_EnterZone \<and> b)"
  using updateZone_run[OF assms(1,2) _ _ assms(4)] assms(3,5) by simp blast

text \<open>
  When the area of a zone is handed to another owner, the relation of the first owner to the zone stays behind; after
  the zone is removed, the next update of the first owner's track dereferences nil.
\<close>

theorem moved_area_panics:
  fixes G :: "('p, 'r) geometry"
  assumes "positive G (Radius a)" "positive G (Radius b)" "ar_RegistryId a \<noteq> ar_RegistryId b" "ar_RegistryId a \<noteq> []" "ar_RegistryId b \<noteq> []"
    and "zk_Targets t = [Some tgt]" "zt_Type tgt \<noteq> SARSAT" "zk_RegistryId t = ar_RegistryId a"
    and "\<not> CreateAlertOnEnter z" "\<not> CreateAlertOnExit z"
  defines "za \<equiv> z\<lparr>Area := Some a\<rparr>" and "zb \<equiv> z\<lparr>Area := Some b\<rparr>"
  shows "stage_run md5 G
     [ZoneEvent \<lparr>zr_Status = Status_Current, zr_Contents = Some (zid, Some za)\<rparr> search [],
      ZoneEvent \<lparr>zr_Status = Status_Current, zr_Contents = Some (zid, Some zb)\<rparr> search [],
      ZoneEvent \<lparr>zr_Status = Status_Timeout, zr_Contents = Some (zid, Some zb)\<rparr> search [],
      TrackEvent \<lparr>ku_Status = Status_Current, ku_Track = Some t\<rparr> [zid] []]
     (newZoneStage\<lparr>initialized := True\<rparr>) = Inl NilDeref"
  using assms
  by (simp add: updateZone_def relate_area_def removeZone_def GetAreaID_def newZoneStage_def analyze_def
      updatePoliesByTrack_def Let_def)

section \<open>Witnesses\<close>

text \<open>Positions are integers on a line, a polygon covers the points it lists.\<close>

definition line :: "(int, int) geometry" where
  "line = \<lparr>near = (\<lambda>q c r. \<bar>q - c\<bar> \<le> r), inside = (\<lambda>pl q. q \<in> set (concat pl)), between = (\<lambda>e q. True),
    positive = (\<lambda>r. 0 < r), ground = (\<lambda>q. q)\<rparr>"

definition harbour :: "(int, int) zone" where
  "harbour = \<lparr>zn_Name = ''harbour'', Poly = Some [[1, 2, 3]], Area = None, Elevation = None, ExcludedVessels = [],
    CreateAlertOnEnter = True, CreateAlertOnExit = True\<rparr>"

definition boat :: "int \<Rightarrow> int ztrack" where
  "boat x = \<lparr>zk_Id = ''boat'', zk_DatabaseId = [], zk_RegistryId = [],
    zk_Targets = [Some \<lparr>zt_Type = OtherDevice 0, zt_Position = Some x, zt_Nmea = None, zt_Imei = None, zt_Nodeid = None, zt_Sarmsg = None\<rparr>],
    zk_Names = []\<rparr>"

definition watching :: "(int, int) zoneStage" where
  "watching = newZoneStage\<lparr>initialized := True, zones := [''h'' \<mapsto> harbour], members := [''h'' \<mapsto> Map.empty]\<rparr>"

definition moved :: "int \<Rightarrow> int ztrack_update \<times> string list \<times> string list" where
  "moved x = (\<lparr>ku_Status = Status_Current, ku_Track = Some (boat x)\<rparr>, [], [''h''])"

lemma boat_ok: "track_ok (boat x)"
  by (simp add: track_ok_def boat_def TargetInfoFromTrack_def)

lemma watching_ok: "stage_ok (\<lambda>_. []) watching"
  by (auto simp: stage_ok_def watching_def newZoneStage_def harbour_def zone_ok_def zone_shape_def GetAreaID_def split: if_splits)

theorem zone_alerts_exact_witness:
  "\<exists>s'. stage_run rev line (map (\<lambda>(u, aord, zord). TrackEvent u aord zord) [moved 0, moved 1, moved 2, moved 9]) watching = Inr s' \<and>
    told s' ''h'' ''boat'' = [(Notice_EnterZone, True), (Notice_ExitZone, True)] \<and> \<not> is_member s' ''h'' ''boat''"
proof -
  have "\<forall>(u, aord, zord)\<in>set [moved 0, moved 1, moved 2, moved 9].
      event_ok (\<lambda>_. []) (TrackEvent u aord zord) \<and> distinct zord \<and> set zord = dom (zones watching)"
    by (simp add: moved_def boat_ok watching_def)
  moreover have "initialized watching" "zones watching ''h'' = Some harbour" "Area harbour = None"
    by (simp_all add: watching_def harbour_def)
  ultimately show ?thesis
    using zone_alerts_exact[OF watching_ok, of "''h''" harbour "[moved 0, moved 1, moved 2, moved 9]" rev line "''boat''"]
    by (simp add: told_def about_def is_member_def watching_def newZoneStage_def observe_def moved_def boat_def LookupID_def
        IsExcludedTrack_def harbour_def Intersect_def zone_shape_def Point_def line_def edge_def enter_call_def exit_call_def)
qed

definition example_events :: "(int, int) stage_event list" where
  "example_events =
     [ZoneEvent \<lparr>zr_Status = Status_Current, zr_Contents = Some (''h'', Some harbour)\<rparr> (\<lambda>_. [boat 1]) [],
      TrackEvent \<lparr>ku_Status = Status_Current, ku_Track = Some (boat 9)\<rparr> [] [''h''],
      ZoneEvent \<lparr>zr_Status = Status_Timeout, zr_Contents = Some (''h'', Some harbour)\<rparr> (\<lambda>_. []) []]"

theorem zone_stage_safe_witness:
  "\<exists>s'. stage_run rev line example_events (newZoneStage\<lparr>initialized := True\<rparr>) = Inr s' \<and> stage_ok (\<lambda>_. []) s'"
proof -
  have "stage_ok (\<lambda>_. []) (newZoneStage\<lparr>initialized := True\<rparr> :: (int, int) zoneStage)" by (simp add: stage_ok_def newZoneStage_def)
  moreover have "\<forall>e\<in>set example_events. event_ok (\<lambda>_. []) e"
    by (simp add: example_events_def boat_ok harbour_def zone_ok_def zone_shape_def GetAreaID_def)
  ultimately show ?thesis using zone_stage_safe by blast
qed

definition with_boat :: "(int, int) zoneStage" where
  "with_boat = watching\<lparr>members := [''h'' \<mapsto> [''boat'' \<mapsto> boat 1]]\<rparr>"

theorem zone_update_drops_members_witness:
  "\<exists>s' ns. updateZone rev line (\<lambda>_. []) [] \<lparr>zr_Status = Status_Current, zr_Contents = Some (''h'', Some harbour)\<rparr> with_boat = Inr s' \<and>
    \<not> is_member s' ''h'' ''boat'' \<and> notified s' = notified with_boat @ ns \<and> (\<forall>(n, b)\<in>set ns. zn_Event n = Notice_EnterZone \<and> b)"
proof -
  let ?u = "\<lparr>zr_Status = Status_Current, zr_Contents = Some (''h'', Some harbour)\<rparr>"
  have ok: "stage_ok (\<lambda>_. []) with_boat"
    using watching_ok boat_ok by (auto simp: stage_ok_def with_boat_def watching_def split: if_splits)
  have ev: "event_ok (\<lambda>_. []) (ZoneEvent ?u (\<lambda>_. []) [])"
    by (simp add: harbour_def zone_ok_def zone_shape_def GetAreaID_def)
  show ?thesis
    by (rule zone_update_drops_members[OF ok ev]) (simp_all add: is_member_def with_boat_def)
qed

definition ring_around :: "string \<Rightarrow> (int, int) area" where
  "ring_around k = \<lparr>ar_RegistryId = k, ar_TrackId = [], Radius = 5, Center = None\<rparr>"

theorem moved_area_panics_witness:
  "stage_run rev line
     [ZoneEvent \<lparr>zr_Status = Status_Current, zr_Contents = Some (''h'', Some (harbour\<lparr>CreateAlertOnEnter := False, CreateAlertOnExit := False, Area := Some (ring_around ''a'')\<rparr>))\<rparr> (\<lambda>_. []) [],
      ZoneEvent \<lparr>zr_Status = Status_Current, zr_Contents = Some (''h'', Some (harbour\<lparr>CreateAlertOnEnter := False, CreateAlertOnExit := False, Area := Some (ring_around ''b'')\<rparr>))\<rparr> (\<lambda>_. []) [],
      ZoneEvent \<lparr>zr_Status = Status_Timeout, zr_Contents = Some (''h'', Some (harbour\<lparr>CreateAlertOnEnter := False, CreateAlertOnExit := False, Area := Some (ring_around ''b'')\<rparr>))\<rparr> (\<lambda>_. []) [],
      TrackEvent \<lparr>ku_Status = Status_Current, ku_Track = Some ((boat 1)\<lparr>zk_RegistryId := ''a''\<rparr>)\<rparr> [''h''] []]
     (newZoneStage\<lparr>initialized := True\<rparr>) = Inl NilDeref"
  by (rule moved_area_panics) (simp_all add: line_def ring_around_def boat_def harbour_def, simp)

end
