(* ===== verification/Notifier.thy ===== *)
theory Notifier
  imports Prisma_Prelude
begin

text \<open>
  \<^verbatim>\<open>tms/cmd/daemons/tanalyzed/notifier.go\<close>: the life cycle of notices. A notice is tracked in a Redis hash under
  its notice id (the text of the notice and a counter of updates) and persisted through the interface \<^verbatim>\<open>NotifyDb\<close>.

  Redis is a map from keys to hashes; a connection either works for the whole of a call or fails every command
  of it (\<open>e_up\<close>). \<open>NotifyDb\<close> is a parameter: every call is logged in \<open>db_log\<close> and answered by \<open>e_db\<close>, which may fail.
  Printing a notice as protobuf text and parsing it back is the identity, other texts are \<open>Garbled\<close>. Timestamps
  are times, nil is \<open>None\<close>. Pointers to notices that the functions change are returned as values. The track map and
  the R-tree kept for the rule stages are not modelled.
\<close>

section \<open>Notices, Redis and the database\<close>

datatype Notice_Action =
  Notice_no_action | Notice_NEW | Notice_ACK | Notice_ACK_WAIT | Notice_ACK_ALL | Notice_CLEAR | Notice_GET | Notice_TIMEOUT

record Notice =
  DatabaseId :: string
  NoticeId :: string
  Action :: Notice_Action
  CreatedTime :: "time option"
  AckTime :: "time option"
  UpdatedTime :: "time option"
  ClearedTime :: "time option"

datatype rdata = NoData | Garbled | Data Notice

record rhash =
  rdata :: rdata
  count_updates :: "nat option"

datatype db_call =
  Create Notice | Renew string time | AckWait string time | Clear string time | UpdateTime string time |
  Timeout time | TimeoutBySliceId "string list"

record Notices =
  redis :: "string \<rightharpoonup> rhash"
  db_log :: "db_call list"
  reload :: bool
  ackTimeout :: duration

record env =
  e_now :: "time res"
  e_up :: bool
  e_db :: "db_call list \<Rightarrow> db_call \<Rightarrow> string res"
  e_get :: "string \<Rightarrow> Notice res"

definition updateMongoDBPerRecord :: nat where "updateMongoDBPerRecord = 100"

definition NewNotifier :: Notices where
  "NewNotifier = \<lparr>redis = Map.empty, db_log = [], reload = False, ackTimeout = 1 * hour\<rparr>"

definition getRedisKeyByNote :: "Notice \<Rightarrow> string" where
  "getRedisKeyByNote note = ''notifier:'' @ NoticeId note"

definition db_do :: "env \<Rightarrow> db_call \<Rightarrow> Notices \<Rightarrow> Notices \<times> string res" where
  "db_do e c n = (n\<lparr>db_log := db_log n @ [c]\<rparr>, e_db e (db_log n) c)"

definition HSET :: "string \<Rightarrow> Notice \<Rightarrow> Notices \<Rightarrow> Notices" where
  "HSET k v n = n\<lparr>redis := (redis n)(k \<mapsto>
     (case redis n k of None \<Rightarrow> \<lparr>rdata = Data v, count_updates = None\<rparr> | Some h \<Rightarrow> h\<lparr>rdata := Data v\<rparr>))\<rparr>"

definition HMSET :: "string \<Rightarrow> Notice \<Rightarrow> Notices \<Rightarrow> Notices" where
  "HMSET k v n = n\<lparr>redis := (redis n)(k \<mapsto> \<lparr>rdata = Data v, count_updates = Some 0\<rparr>)\<rparr>"

definition DEL :: "string \<Rightarrow> Notices \<Rightarrow> Notices" where
  "DEL k n = n\<lparr>redis := (redis n)(k := None)\<rparr>"

definition HINCRBY :: "string \<Rightarrow> Notices \<Rightarrow> Notices \<times> nat" where
  "HINCRBY k n =
     (let h = (case redis n k of None \<Rightarrow> \<lparr>rdata = NoData, count_updates = None\<rparr> | Some h \<Rightarrow> h);
          c = (case count_updates h of None \<Rightarrow> 1 | Some c \<Rightarrow> c + 1) in
      (n\<lparr>redis := (redis n)(k \<mapsto> h\<lparr>count_updates := Some c\<rparr>)\<rparr>, c))"

text \<open>Closing a broken connection asks for a reload of Redis.\<close>

definition safeCloseRedis :: "env \<Rightarrow> Notices \<Rightarrow> Notices" where
  "safeCloseRedis e n = (if e_up e then n else n\<lparr>reload := True\<rparr>)"

definition redis_error :: go_fault where "redis_error = Err ''redis''"

section \<open>Transitions\<close>

text \<open>Each returns the state, the notice it changed and the error.\<close>

type_synonym outcome = "Notices \<times> Notice \<times> go_fault option"

definition toNewState :: "env \<Rightarrow> Notice \<Rightarrow> Notices \<Rightarrow> outcome" where
  "toNewState e note n =
     (case e_now e of
        Inl er \<Rightarrow> (n, note, Some er)
      | Inr now \<Rightarrow>
          let note1 = note\<lparr>Action := Notice_NEW, CreatedTime := Some now, UpdatedTime := Some now\<rparr> in
          case db_do e (Create note1) n of
            (n1, Inl er) \<Rightarrow> (n1, note1, Some er)
          | (n1, Inr i) \<Rightarrow>
              let note2 = note1\<lparr>DatabaseId := i\<rparr> in
              if e_up e then (safeCloseRedis e (HMSET (getRedisKeyByNote note2) note2 n1), note2, None)
              else (safeCloseRedis e n1, note2, Some redis_error))"

definition toNewStateViaRenew :: "env \<Rightarrow> Notice \<Rightarrow> Notices \<Rightarrow> outcome" where
  "toNewStateViaRenew e note n =
     (case e_now e of
        Inl er \<Rightarrow> (n, note, Some er)
      | Inr now \<Rightarrow>
          let note1 = note\<lparr>Action := Notice_NEW, UpdatedTime := Some now\<rparr> in
          case db_do e (Renew (DatabaseId note1) now) n of
            (n1, Inl er) \<Rightarrow> (n1, note1, Some er)
          | (n1, Inr _) \<Rightarrow>
              if e_up e then (safeCloseRedis e (HMSET (getRedisKeyByNote note1) note1 n1), note1, None)
              else (safeCloseRedis e n1, note1, Some redis_error))"

definition toAckWaitState :: "env \<Rightarrow> Notice \<Rightarrow> Notices \<Rightarrow> outcome" where
  "toAckWaitState e note n =
     (case e_now e of
        Inl er \<Rightarrow> (n, note, Some er)
      | Inr now \<Rightarrow>
          let note1 = note\<lparr>Action := Notice_ACK_WAIT, UpdatedTime := Some now\<rparr> in
          case db_do e (AckWait (DatabaseId note1) now) n of
            (n1, Inl er) \<Rightarrow> (n1, note1, Some er)
          | (n1, Inr _) \<Rightarrow>
              (safeCloseRedis e (if e_up e then HSET (getRedisKeyByNote note1) note1 n1 else n1), note1, None))"

definition toClearState :: "env \<Rightarrow> Notice \<Rightarrow> Notices \<Rightarrow> outcome" where
  "toClearState e note n =
     (case e_now e of
        Inl er \<Rightarrow> (n, note, Some er)
      | Inr now \<Rightarrow>
          let note1 = note\<lparr>Action := Notice_CLEAR, ClearedTime := Some now\<rparr> in
          case db_do e (Clear (DatabaseId note1) now) n of
            (n1, Inl er) \<Rightarrow> (n1, note1, Some er)
          | (n1, Inr _) \<Rightarrow>
              if e_up e then (safeCloseRedis e (DEL (getRedisKeyByNote note1) n1), note1, None)
              else (safeCloseRedis e n1, note1, Some redis_error))"

definition updateTime :: "env \<Rightarrow> Notice \<Rightarrow> Notices \<Rightarrow> outcome" where
  "updateTime e note n =
     (case e_now e of
        Inl er \<Rightarrow> (n, note, Some er)
      | Inr now \<Rightarrow>
          let note1 = note\<lparr>UpdatedTime := Some now\<rparr>; k = getRedisKeyByNote note in
          if e_up e then
            let isDBChange = (redis n k = None); n1 = HSET k note1 n in
            case HINCRBY k n1 of (n2, countUpdates) \<Rightarrow>
              if isDBChange \<or> countUpdates mod updateMongoDBPerRecord = 0 then
                case db_do e (UpdateTime (DatabaseId note1) now) n2 of
                  (n3, Inl er) \<Rightarrow> (safeCloseRedis e n3, note1, Some er)
                | (n3, Inr _) \<Rightarrow> (safeCloseRedis e n3, note1, None)
              else (safeCloseRedis e n2, note1, None)
          else
            case db_do e (UpdateTime (DatabaseId note1) now) n of
              (n3, Inl er) \<Rightarrow> (safeCloseRedis e n3, note1, Some er)
            | (n3, Inr _) \<Rightarrow> (safeCloseRedis e n3, note1, None))"

definition fromClearState :: "env \<Rightarrow> Notice \<Rightarrow> bool \<Rightarrow> Notices \<Rightarrow> outcome" where
  "fromClearState e update ruleMatch n = (if ruleMatch then toNewState e update n else (n, update, None))"

definition fromAckWaitState :: "env \<Rightarrow> Notice \<Rightarrow> bool \<Rightarrow> Notices \<Rightarrow> outcome" where
  "fromAckWaitState e update ruleMatch n = (if ruleMatch then toNewStateViaRenew e update n else (n, update, None))"

definition fromNewState :: "env \<Rightarrow> Notice \<Rightarrow> bool \<Rightarrow> Notices \<Rightarrow> outcome" where
  "fromNewState e prev ruleMatch n = (if ruleMatch then updateTime e prev n else toAckWaitState e prev n)"

definition fromAckState :: "env \<Rightarrow> Notice \<Rightarrow> bool \<Rightarrow> Notices \<Rightarrow> outcome" where
  "fromAckState e prev ruleMatch n = (if ruleMatch then updateTime e prev n else toClearState e prev n)"

text \<open>The notice \<open>Notify\<close> finds: in Redis, or in the database when the connection is broken.\<close>

definition find_prev :: "env \<Rightarrow> Notice \<Rightarrow> Notices \<Rightarrow> Notice option" where
  "find_prev e note n =
     (if e_up e then
        case redis n (getRedisKeyByNote note) of
          None \<Rightarrow> None
        | Some h \<Rightarrow> (case rdata h of NoData \<Rightarrow> None | Garbled \<Rightarrow> None | Data prev \<Rightarrow> Some prev)
      else case e_get e (NoticeId note) of Inl er \<Rightarrow> None | Inr prev \<Rightarrow> Some prev)"

text \<open>The deferred \<^verbatim>\<open>HSET\<close> of the previous notice runs after the transition.\<close>

definition Notify :: "env \<Rightarrow> Notice \<Rightarrow> bool \<Rightarrow> Notices \<Rightarrow> Notices \<times> go_fault option" where
  "Notify e note ruleMatch n =
     (if NoticeId note = '''' then (n, Some (Err ''notice id cannot be blank''))
      else case find_prev e note n of
        None \<Rightarrow> (case fromClearState e note ruleMatch n of (n1, _, er) \<Rightarrow> (safeCloseRedis e n1, er))
      | Some prev \<Rightarrow>
          case (if Action prev = Notice_NEW then fromNewState e prev ruleMatch n
                else if Action prev = Notice_ACK then fromAckState e prev ruleMatch n
                else if Action prev = Notice_ACK_WAIT then fromAckWaitState e prev ruleMatch n
                else (n, prev, None)) of
            (n1, prev1, er) \<Rightarrow>
              (safeCloseRedis e (if e_up e then HSET (getRedisKeyByNote note) prev1 n1 else n1), er))"

section \<open>Acknowledgements, loading and reaping\<close>

definition receivedAck :: "env \<Rightarrow> Notice \<Rightarrow> Notices \<Rightarrow> Notices \<times> go_fault option" where
  "receivedAck e note n =
     (case (if e_up e then redis n (getRedisKeyByNote note) else None) of
        Some h \<Rightarrow>
          (case rdata h of
             Data prev \<Rightarrow>
               if Action prev = Notice_CLEAR then (n, Some (Err ''notice already cleared''))
               else if Action prev = Notice_ACK_WAIT then
                 (case toClearState e note n of (n1, _, _) \<Rightarrow> (safeCloseRedis e n1, None))
               else (safeCloseRedis e (HSET (getRedisKeyByNote note) note n), None)
           | _ \<Rightarrow> (n, Some (Err ''no such notice to ack'')))
      | None \<Rightarrow> (safeCloseRedis e n, Some (Err ''no such notice to ack'')))"

text \<open>One update from the notice stream.\<close>

definition watch :: "env \<Rightarrow> Notice \<Rightarrow> Notices \<Rightarrow> Notices" where
  "watch e update n = (if Action update \<noteq> Notice_ACK then n else fst (receivedAck e update n))"

fun loadInitial :: "Notice list \<Rightarrow> Notices \<Rightarrow> Notices" where
  "loadInitial [] n = n"
| "loadInitial (update # us) n = loadInitial us (HMSET (getRedisKeyByNote update) update n)"

definition reloadRedis :: "Notice list \<Rightarrow> Notices \<Rightarrow> Notices" where
  "reloadRedis us n = (loadInitial us n)\<lparr>reload := False\<rparr>"

text \<open>The loop over the keys of one reply of \<^verbatim>\<open>SCAN\<close>, with the database ids collected so far.\<close>

fun reap_keys :: "time \<Rightarrow> string list \<Rightarrow> Notices \<Rightarrow> string list \<Rightarrow> Notices \<times> string list" where
  "reap_keys olderThan [] n ids = (n, ids)"
| "reap_keys olderThan (key # keys) n ids =
     (case redis n key of
        None \<Rightarrow> reap_keys olderThan keys (DEL key n) ids
      | Some h \<Rightarrow>
          (case rdata h of
             NoData \<Rightarrow> reap_keys olderThan keys (DEL key n) ids
           | Garbled \<Rightarrow> reap_keys olderThan keys (DEL key n) ids
           | Data note \<Rightarrow>
               if Action note \<noteq> Notice_ACK then reap_keys olderThan keys n ids
               else case UpdatedTime note of
                 None \<Rightarrow> reap_keys olderThan keys n ids
               | Some t \<Rightarrow>
                   if t < olderThan then reap_keys olderThan keys (DEL key n) (ids @ [DatabaseId note])
                   else reap_keys olderThan keys n ids))"

text \<open>The replies of \<^verbatim>\<open>SCAN\<close>, until the cursor is 0 again or a reply is unusable.\<close>

fun reap_pages :: "time \<Rightarrow> string list res list \<Rightarrow> Notices \<Rightarrow> string list \<Rightarrow> Notices \<times> string list res" where
  "reap_pages olderThan [] n ids = (n, Inr ids)"
| "reap_pages olderThan (Inl er # ps) n ids = (n, Inl er)"
| "reap_pages olderThan (Inr keys # ps) n ids =
     (case reap_keys olderThan keys n ids of (n1, ids1) \<Rightarrow> reap_pages olderThan ps n1 ids1)"

definition reap :: "env \<Rightarrow> time \<Rightarrow> string list res list \<Rightarrow> Notices \<Rightarrow> Notices" where
  "reap e now pages n =
     (let olderThan = now - ackTimeout n in
      if \<not> e_up e then safeCloseRedis e (fst (db_do e (Timeout olderThan) n))
      else case reap_pages olderThan pages n [] of
        (n1, Inl er) \<Rightarrow> safeCloseRedis e n1
      | (n1, Inr ids) \<Rightarrow> safeCloseRedis e (if ids \<noteq> [] then fst (db_do e (TimeoutBySliceId ids) n1) else n1))"

section \<open>The abstract life cycle\<close>

definition state_of :: "Notices \<Rightarrow> string \<Rightarrow> Notice_Action option" where
  "state_of n k =
     (case redis n k of None \<Rightarrow> None | Some h \<Rightarrow> (case rdata h of Data p \<Rightarrow> Some (Action p) | _ \<Rightarrow> None))"

text \<open>
  The life cycle of a notice as the comment on the interface \<^verbatim>\<open>Notifier\<close> gives it, with the state \<open>ACK_WAIT\<close>, which the
  comment leaves out, as the code has it. A cleared notice is no longer tracked: a match creates a new one.
\<close>

fun notice_next :: "Notice_Action option \<Rightarrow> bool \<Rightarrow> Notice_Action option" where
  "notice_next None m = (if m then Some Notice_NEW else None)"
| "notice_next (Some Notice_NEW) m = Some (if m then Notice_NEW else Notice_ACK_WAIT)"
| "notice_next (Some Notice_ACK) m = Some (if m then Notice_ACK else Notice_CLEAR)"
| "notice_next (Some Notice_ACK_WAIT) m = Some (if m then Notice_NEW else Notice_ACK_WAIT)"
| "notice_next (Some Notice_CLEAR) m = Some (if m then Notice_NEW else Notice_CLEAR)"
| "notice_next (Some a) m = Some a"

text \<open>What the code does: a notice that \<open>Notify\<close> cleared stays cleared. The two agree on every other call.\<close>

definition notice_step :: "Notice_Action option \<Rightarrow> bool \<Rightarrow> Notice_Action option" where
  "notice_step s m = (if s = Some Notice_CLEAR then s else notice_next s m)"

text \<open>The calls for a notice in none of which a cleared notice matches again.\<close>

fun documented :: "Notice_Action option \<Rightarrow> bool list \<Rightarrow> bool" where
  "documented s [] = True"
| "documented s (m # ms) = (\<not> (s = Some Notice_CLEAR \<and> m) \<and> documented (notice_next s m) ms)"

lemma notice_step_simps [simp]:
  "notice_step None m = (if m then Some Notice_NEW else None)"
  "notice_step (Some Notice_NEW) m = Some (if m then Notice_NEW else Notice_ACK_WAIT)"
  "notice_step (Some Notice_ACK) m = Some (if m then Notice_ACK else Notice_CLEAR)"
  "notice_step (Some Notice_ACK_WAIT) m = Some (if m then Notice_NEW else Notice_ACK_WAIT)"
  "notice_step (Some Notice_CLEAR) m = Some Notice_CLEAR"
  "a \<notin> {Notice_NEW, Notice_ACK, Notice_ACK_WAIT} \<Longrightarrow> notice_step (Some a) m = Some a"
  by (simp_all add: notice_step_def) (cases a; simp)

lemma documented_step: "\<not> (s = Some Notice_CLEAR \<and> m) \<Longrightarrow> notice_step s m = notice_next s m"
  by (cases m) (auto simp: notice_step_def)

lemma documented_steps: "documented s ms \<Longrightarrow> foldl notice_step s ms = foldl notice_next s ms"
  by (induction ms arbitrary: s) (simp_all add: documented_step)

text \<open>Only a user acknowledges a notice: starting from one that is not, no sequence of calls clears it.\<close>

lemma documented_unacknowledged: "s \<notin> {Some Notice_ACK, Some Notice_CLEAR} \<Longrightarrow> documented s ms"
proof (induction ms arbitrary: s)
  case (Cons m ms)
  have "notice_next s m \<notin> {Some Notice_ACK, Some Notice_CLEAR}"
    using Cons.prems by (cases "(s, m)" rule: notice_next.cases) auto
  then show ?case using Cons by auto
qed simp

definition filed :: "Notices \<Rightarrow> bool" where
  "filed n = (\<forall>k h p. redis n k = Some h \<longrightarrow> rdata h = Data p \<longrightarrow> getRedisKeyByNote p = k)"

text \<open>A call in which the clock, Redis and the database work.\<close>

definition all_up :: "env \<Rightarrow> bool" where
  "all_up e = (e_up e \<and> (\<exists>now. e_now e = Inr now) \<and> (\<forall>l c. \<exists>i. e_db e l c = Inr i))"

text \<open>What a call did to the state: one key changed to a notice in state \<open>a\<close>, at most one database call.\<close>

definition moved :: "string \<Rightarrow> Notices \<Rightarrow> Notices \<Rightarrow> Notice_Action \<Rightarrow> bool \<Rightarrow> bool" where
  "moved k n n' a created =
     (state_of n' k = Some a \<and> (\<forall>j. j \<noteq> k \<longrightarrow> redis n' j = redis n j) \<and> reload n' = reload n \<and>
      (filed n \<longrightarrow> filed n') \<and>
      (\<exists>cs. db_log n' = db_log n @ cs \<and> length cs \<le> 1 \<and> ((\<exists>nt. Create nt \<in> set cs) \<longleftrightarrow> created)))"

lemmas redis_defs = HSET_def HMSET_def DEL_def HINCRBY_def db_do_def safeCloseRedis_def

lemma key_fields [simp]:
  "getRedisKeyByNote (p\<lparr>Action := a\<rparr>) = getRedisKeyByNote p" "getRedisKeyByNote (p\<lparr>CreatedTime := t\<rparr>) = getRedisKeyByNote p"
  "getRedisKeyByNote (p\<lparr>UpdatedTime := t\<rparr>) = getRedisKeyByNote p" "getRedisKeyByNote (p\<lparr>ClearedTime := t\<rparr>) = getRedisKeyByNote p"
  "getRedisKeyByNote (p\<lparr>DatabaseId := i\<rparr>) = getRedisKeyByNote p"
  by (simp_all add: getRedisKeyByNote_def)

lemma all_upE:
  assumes "all_up e" obtains now where "e_up e" "e_now e = Inr now" "\<And>l c. \<exists>i. e_db e l c = Inr i"
  using assms by (auto simp: all_up_def)

lemma movedI:
  "redis n' = (redis n)(k \<mapsto> h) \<Longrightarrow> db_log n' = db_log n @ cs \<Longrightarrow> reload n' = reload n \<Longrightarrow> rdata h = Data p \<Longrightarrow>
   getRedisKeyByNote p = k \<Longrightarrow> Action p = a \<Longrightarrow> length cs \<le> 1 \<Longrightarrow> (\<exists>nt. Create nt \<in> set cs) = b \<Longrightarrow> moved k n n' a b"
  by (auto simp: moved_def state_of_def filed_def)

lemma toNewState_moved:
  assumes "all_up e"
  shows "\<exists>n' p'. toNewState e p n = (n', p', None) \<and> moved (getRedisKeyByNote p) n n' Notice_NEW True"
proof -
  obtain now where e: "e_up e" "e_now e = Inr now" "\<And>l c. \<exists>i. e_db e l c = Inr i" using assms by (rule all_upE) blast
  obtain i where i: "e_db e (db_log n) (Create (p\<lparr>Action := Notice_NEW, CreatedTime := Some now, UpdatedTime := Some now\<rparr>)) = Inr i"
    using e(3) by blast
  show ?thesis
    by (auto simp: toNewState_def e i redis_defs Let_def intro!: movedI)
qed

lemma toNewStateViaRenew_moved:
  assumes "all_up e"
  shows "\<exists>n' p'. toNewStateViaRenew e p n = (n', p', None) \<and> moved (getRedisKeyByNote p) n n' Notice_NEW False \<and>
    Action p' = Notice_NEW \<and> getRedisKeyByNote p' = getRedisKeyByNote p"
proof -
  obtain now where e: "e_up e" "e_now e = Inr now" "\<And>l c. \<exists>i. e_db e l c = Inr i" using assms by (rule all_upE) blast
  obtain i where i: "e_db e (db_log n) (Renew (DatabaseId p) now) = Inr i" using e(3) by blast
  show ?thesis
    by (auto simp: toNewStateViaRenew_def e i redis_defs Let_def intro!: movedI)
qed

lemma toAckWaitState_moved:
  assumes "all_up e"
  shows "\<exists>n' p'. toAckWaitState e p n = (n', p', None) \<and> moved (getRedisKeyByNote p) n n' Notice_ACK_WAIT False \<and>
    Action p' = Notice_ACK_WAIT \<and> getRedisKeyByNote p' = getRedisKeyByNote p"
proof -
  obtain now where e: "e_up e" "e_now e = Inr now" "\<And>l c. \<exists>i. e_db e l c = Inr i" using assms by (rule all_upE) blast
  obtain i where i: "e_db e (db_log n) (AckWait (DatabaseId p) now) = Inr i" using e(3) by blast
  show ?thesis
    by (cases "redis n (getRedisKeyByNote p)") (auto simp: toAckWaitState_def e i redis_defs Let_def intro!: movedI)
qed

lemma updateTime_moved:
  assumes "all_up e"
  shows "\<exists>n' p'. updateTime e p n = (n', p', None) \<and> moved (getRedisKeyByNote p) n n' (Action p) False \<and>
    Action p' = Action p \<and> getRedisKeyByNote p' = getRedisKeyByNote p"
proof -
  obtain now where e: "e_up e" "e_now e = Inr now" "\<And>l c. \<exists>i. e_db e l c = Inr i" using assms by (rule all_upE) blast
  obtain i where i: "e_db e (db_log n) (UpdateTime (DatabaseId p) now) = Inr i" using e(3) by blast
  show ?thesis
    by (cases "redis n (getRedisKeyByNote p)") (auto simp: updateTime_def e i redis_defs Let_def intro!: movedI)
qed

lemma toClearState_done:
  assumes "all_up e"
  shows "\<exists>n' p' c. toClearState e p n = (n', p', None) \<and> redis n' = (redis n)(getRedisKeyByNote p := None) \<and>
    db_log n' = db_log n @ [c] \<and> (\<forall>nt. c \<noteq> Create nt) \<and> reload n' = reload n \<and>
    Action p' = Notice_CLEAR \<and> getRedisKeyByNote p' = getRedisKeyByNote p"
proof -
  obtain now where e: "e_up e" "e_now e = Inr now" "\<And>l c. \<exists>i. e_db e l c = Inr i" using assms by (rule all_upE) blast
  obtain i where i: "e_db e (db_log n) (Clear (DatabaseId p) now) = Inr i" using e(3) by blast
  show ?thesis
    by (auto simp: toClearState_def e i redis_defs Let_def)
qed

text \<open>The deferred write of the previous notice.\<close>

lemma HSET_fields [simp]:
  "state_of (HSET k p n) k = Some (Action p)" "db_log (HSET k p n) = db_log n" "reload (HSET k p n) = reload n"
  "j \<noteq> k \<Longrightarrow> redis (HSET k p n) j = redis n j"
  by (cases "redis n k"; simp add: HSET_def state_of_def)+

lemma HSET_filed: "filed n \<Longrightarrow> getRedisKeyByNote p = k \<Longrightarrow> filed (HSET k p n)"
  unfolding filed_def HSET_def by (cases "redis n k") auto

lemma moved_HSET:
  "moved k n n' a b \<Longrightarrow> Action p = a \<Longrightarrow> getRedisKeyByNote p = k \<Longrightarrow> moved k n (HSET k p n') a b"
  unfolding moved_def using HSET_filed by simp

lemma HSET_moved:
  assumes "redis n' = (redis n)(k := None)" "db_log n' = db_log n @ [c]" "\<forall>nt. c \<noteq> Create nt" "reload n' = reload n"
    and "getRedisKeyByNote p = k"
  shows "moved k n (HSET k p n') (Action p) False"
proof -
  have "filed n \<Longrightarrow> filed n'" using assms(1) by (auto simp: filed_def)
  then show ?thesis unfolding moved_def using assms HSET_filed by (auto intro!: exI[of _ "[c]"])
qed

section \<open>Properties\<close>

lemma find_prev_state: "e_up e \<Longrightarrow> state_of n (getRedisKeyByNote note) = map_option Action (find_prev e note n)"
  by (cases "redis n (getRedisKeyByNote note)"; cases "rdata (the (redis n (getRedisKeyByNote note)))")
    (simp_all add: state_of_def find_prev_def)

lemma find_prev_key:
  assumes "e_up e" "filed n" "find_prev e note n = Some p"
  shows "getRedisKeyByNote p = getRedisKeyByNote note"
proof -
  obtain h where "redis n (getRedisKeyByNote note) = Some h" "rdata h = Data p"
    using assms(1,3) by (auto simp: find_prev_def split: option.splits rdata.splits)
  then show ?thesis using assms(2) unfolding filed_def by blast
qed

lemma safeClose_up [simp]: "e_up e \<Longrightarrow> safeCloseRedis e n = n"
  by (simp add: safeCloseRedis_def)

lemma Notify_tracked:
  assumes "all_up e" "NoticeId note \<noteq> ''''" "filed n" "find_prev e note n = Some p"
  shows "\<exists>n'. Notify e note m n = (n', None) \<and>
    moved (getRedisKeyByNote note) n n' (the (notice_step (Some (Action p)) m)) False"
proof -
  have up: "e_up e" using assms(1) by (simp add: all_up_def)
  let ?k = "getRedisKeyByNote note"
  have k: "getRedisKeyByNote p = ?k" using find_prev_key[OF up assms(3,4)] .
  obtain nu pu where u: "updateTime e p n = (nu, pu, None)" "moved ?k n nu (Action p) False" "Action pu = Action p" "getRedisKeyByNote pu = ?k"
    using updateTime_moved[OF assms(1), of p n] k by auto
  obtain nw pw where w: "toAckWaitState e p n = (nw, pw, None)" "moved ?k n nw Notice_ACK_WAIT False" "Action pw = Notice_ACK_WAIT" "getRedisKeyByNote pw = ?k"
    using toAckWaitState_moved[OF assms(1), of p n] k by auto
  obtain nr pr where r: "toNewStateViaRenew e p n = (nr, pr, None)" "moved ?k n nr Notice_NEW False" "Action pr = Notice_NEW" "getRedisKeyByNote pr = ?k"
    using toNewStateViaRenew_moved[OF assms(1), of p n] k by auto
  obtain nc pc c where cl: "toClearState e p n = (nc, pc, None)" "redis nc = (redis n)(?k := None)" "db_log nc = db_log n @ [c]"
    "\<forall>nt. c \<noteq> Create nt" "reload nc = reload n" "Action pc = Notice_CLEAR" "getRedisKeyByNote pc = ?k"
    using toClearState_done[OF assms(1), of p n] k by auto
  have same: "moved ?k n (HSET ?k p n) (Action p) False"
    unfolding moved_def using HSET_filed[OF _ k] by simp
  note N = Notify_def assms(2,4) up
  show ?thesis
  proof (cases "Action p = Notice_NEW \<or> Action p = Notice_ACK \<or> Action p = Notice_ACK_WAIT")
    case True
    then show ?thesis
      using moved_HSET[OF u(2-4)] moved_HSET[OF w(2-4)] moved_HSET[OF r(2-4)] HSET_moved[OF cl(2-5,7)] same
      by (cases m) (auto simp: N fromNewState_def fromAckState_def fromAckWaitState_def u(1) w(1) r(1) cl(1,6))
  next
    case False
    then show ?thesis using same by (cases "Action p") (simp_all add: N)
  qed
qed

lemma Notify_life_cycle:
  assumes "all_up e" "NoticeId note \<noteq> ''''" "filed n"
  shows "\<exists>n' cs. Notify e note m n = (n', None) \<and>
    state_of n' (getRedisKeyByNote note) = notice_step (state_of n (getRedisKeyByNote note)) m \<and>
    (\<forall>j. j \<noteq> getRedisKeyByNote note \<longrightarrow> redis n' j = redis n j) \<and> filed n' \<and> reload n' = reload n \<and>
    db_log n' = db_log n @ cs \<and> length cs \<le> 1 \<and>
    ((\<exists>nt. Create nt \<in> set cs) \<longleftrightarrow> state_of n (getRedisKeyByNote note) = None \<and> m)"
proof -
  have up: "e_up e" using assms(1) by (simp add: all_up_def)
  let ?k = "getRedisKeyByNote note"
  show ?thesis
  proof (cases "find_prev e note n")
    case None
    have st: "state_of n ?k = None" using find_prev_state[OF up] None by simp
    obtain n1 p1 where "toNewState e note n = (n1, p1, None)" "moved ?k n n1 Notice_NEW True"
      using toNewState_moved[OF assms(1)] by blast
    then show ?thesis
      using assms(2,3) None st up by (cases m) (auto simp: Notify_def fromClearState_def moved_def)
  next
    case (Some p)
    have st: "state_of n ?k = Some (Action p)" using find_prev_state[OF up] Some by simp
    obtain a where nx: "notice_step (Some (Action p)) m = Some a"
      by (cases "Action p") simp_all
    obtain n' where "Notify e note m n = (n', None)" "moved ?k n n' a False"
      using Notify_tracked[OF assms Some, of m] nx by auto
    then show ?thesis using st nx assms(3) by (auto simp: moved_def)
  qed
qed

text \<open>C7. While Redis, the database and the clock work, a call of \<open>Notify\<close> succeeds and moves the tracked state of the
  notice as the documented life cycle says, touches no other notice, makes at most one database call and creates a
  notice in the database exactly when none is tracked and the rule matches. The one call on which the code departs from
  the documentation, a match of a notice that \<open>Notify\<close> has cleared, is excluded here (\<open>cleared_notice_is_stuck\<close>).\<close>
theorem Notify_refines_life_cycle:
  assumes "all_up e" "NoticeId note \<noteq> ''''" "filed n" "\<not> (state_of n (getRedisKeyByNote note) = Some Notice_CLEAR \<and> m)"
  shows "\<exists>n' cs. Notify e note m n = (n', None) \<and>
    state_of n' (getRedisKeyByNote note) = notice_next (state_of n (getRedisKeyByNote note)) m \<and>
    (\<forall>j. j \<noteq> getRedisKeyByNote note \<longrightarrow> redis n' j = redis n j) \<and> filed n' \<and> reload n' = reload n \<and>
    db_log n' = db_log n @ cs \<and> length cs \<le> 1 \<and>
    ((\<exists>nt. Create nt \<in> set cs) \<longleftrightarrow> state_of n (getRedisKeyByNote note) = None \<and> m)"
  using Notify_life_cycle[OF assms(1-3), of m] documented_step[OF assms(4)] by simp

section \<open>The interface of the notifier\<close>

text \<open>
  What the stages rely on when they call a notifier: a call moves the state of its own notice and no other. The states
  of the notices after a sequence of calls follow.
\<close>

locale notice_keeper =
  fixes inv :: "'n \<Rightarrow> bool" and state :: "'n \<Rightarrow> string \<Rightarrow> 's" and next_state :: "'s \<Rightarrow> bool \<Rightarrow> 's"
    and key :: "'x \<Rightarrow> string" and usable :: "'x \<Rightarrow> bool" and notify :: "'x \<Rightarrow> bool \<Rightarrow> 'n \<Rightarrow> 'n"
  assumes notify_inv: "inv n \<Longrightarrow> usable x \<Longrightarrow> inv (notify x m n)"
    and notify_own: "inv n \<Longrightarrow> usable x \<Longrightarrow> state (notify x m n) (key x) = next_state (state n (key x)) m"
    and notify_other: "inv n \<Longrightarrow> usable x \<Longrightarrow> k \<noteq> key x \<Longrightarrow> state (notify x m n) k = state n k"
begin

lemma after_calls:
  "inv n \<Longrightarrow> \<forall>(x, m)\<in>set calls. usable x \<Longrightarrow>
   inv (fold (\<lambda>(x, m). notify x m) calls n) \<and>
   state (fold (\<lambda>(x, m). notify x m) calls n) k = foldl next_state (state n k) (map snd (filter (\<lambda>(x, m). key x = k) calls))"
proof (induction calls arbitrary: n)
  case (Cons c calls)
  obtain x m where c: "c = (x, m)" by (cases c)
  have u: "usable x" "\<forall>(x, m)\<in>set calls. usable x" using Cons.prems(2) c by auto
  have "state (notify x m n) k = (if key x = k then next_state (state n k) m else state n k)"
    using notify_own[OF Cons.prems(1) u(1)] notify_other[OF Cons.prems(1) u(1)] by auto
  then show ?case using Cons.IH[OF notify_inv[OF Cons.prems(1) u(1)] u(2)] c by simp
qed simp

end

interpretation nt: notice_keeper "\<lambda>n. all_up e \<and> filed n" state_of notice_step getRedisKeyByNote
  "\<lambda>note. NoticeId note \<noteq> []" "\<lambda>note m n. fst (Notify e note m n)" for e
proof (unfold_locales, goal_cases)
  case (1 n x m)
  then show ?case using Notify_life_cycle[of e x n m] by auto
next
  case (2 n x m)
  then show ?case using Notify_life_cycle[of e x n m] by auto
next
  case (3 n x k m)
  then have "redis (fst (Notify e x m n)) k = redis n k" using Notify_life_cycle[of e x n m] by auto
  then show ?case by (simp add: state_of_def)
qed

text \<open>A notice that \<open>Notify\<close> cleared is stuck: the deferred write puts the cleared notice back into Redis after
  the transition removed it, and from then on no sequence of calls for this notice changes its state or reaches the
  database, although the documentation says a matching rule creates a new notice.\<close>
theorem cleared_notice_is_stuck:
  assumes "all_up e" "NoticeId note \<noteq> ''''" "filed n" "state_of n (getRedisKeyByNote note) = Some Notice_ACK"
    and "Notify e note False n = (n1, er)" "\<forall>(e', m) \<in> set calls. e_up e'"
  shows "let n2 = fold (\<lambda>(e', m) x. fst (Notify e' note m x)) calls n1 in
    state_of n2 (getRedisKeyByNote note) = Some Notice_CLEAR \<and> db_log n2 = db_log n1"
proof -
  let ?k = "getRedisKeyByNote note"
  have up: "e_up e" using assms(1) by (simp add: all_up_def)
  obtain p where p: "find_prev e note n = Some p" "Action p = Notice_ACK"
    using assms(4) find_prev_state[OF up] by auto
  have start: "state_of n1 ?k = Some Notice_CLEAR"
    using Notify_tracked[OF assms(1-3) p(1), of False] p(2) assms(5) by (auto simp: moved_def)
  have step: "state_of (fst (Notify e' note m x)) ?k = Some Notice_CLEAR \<and> db_log (fst (Notify e' note m x)) = db_log x"
    if x: "state_of x ?k = Some Notice_CLEAR" and up': "e_up e'" for e' m x
  proof -
    obtain q where "find_prev e' note x = Some q" "Action q = Notice_CLEAR"
      using x find_prev_state[OF up'] by auto
    then show ?thesis using assms(2) up' by (simp add: Notify_def)
  qed
  have "state_of (fold (\<lambda>(e', m) x. fst (Notify e' note m x)) calls x) ?k = Some Notice_CLEAR \<and>
      db_log (fold (\<lambda>(e', m) x. fst (Notify e' note m x)) calls x) = db_log x"
    if "state_of x ?k = Some Notice_CLEAR" for x
    using that assms(6)
  proof (induction calls arbitrary: x)
    case (Cons c cs)
    obtain e' m where c: "c = (e', m)" by (cases c)
    then show ?case using Cons step[of x e' m] by simp
  qed simp
  then show ?thesis using start by (simp add: Let_def)
qed

text \<open>Which hashes reaping removes: unreadable ones and acknowledged notices not updated since \<open>olderThan\<close>.\<close>

definition stale :: "time \<Rightarrow> Notice \<Rightarrow> bool" where
  "stale olderThan p = (Action p = Notice_ACK \<and> (\<exists>t. UpdatedTime p = Some t \<and> t < olderThan))"

definition reapable :: "time \<Rightarrow> rhash \<Rightarrow> bool" where
  "reapable olderThan h = (case rdata h of Data p \<Rightarrow> stale olderThan p | _ \<Rightarrow> True)"

definition stale_ids :: "time \<Rightarrow> string set \<Rightarrow> Notices \<Rightarrow> string set" where
  "stale_ids olderThan ks n = {DatabaseId p |k h p. k \<in> ks \<and> redis n k = Some h \<and> rdata h = Data p \<and> stale olderThan p}"

definition reaped :: "time \<Rightarrow> string set \<Rightarrow> Notices \<Rightarrow> Notices \<Rightarrow> bool" where
  "reaped olderThan ks n n' =
     (redis n' = (\<lambda>k. case redis n k of None \<Rightarrow> None | Some h \<Rightarrow> if k \<in> ks \<and> reapable olderThan h then None else Some h) \<and>
      db_log n' = db_log n \<and> reload n' = reload n)"

lemma reaped_empty: "reaped olderThan {} n n"
  by (auto simp: reaped_def fun_eq_iff split: option.splits)

lemma reaped_trans:
  "reaped olderThan ks n n1 \<Longrightarrow> reaped olderThan ks' n1 n2 \<Longrightarrow> reaped olderThan (ks \<union> ks') n n2"
  by (auto simp: reaped_def fun_eq_iff split: option.splits)

lemma stale_ids_trans:
  "reaped olderThan ks n n1 \<Longrightarrow> stale_ids olderThan (ks \<union> ks') n = stale_ids olderThan ks n \<union> stale_ids olderThan ks' n1"
  by (fastforce simp: stale_ids_def reaped_def reapable_def split: option.splits if_splits)

lemma reaped_one:
  "reaped olderThan {k} n (case redis n k of None \<Rightarrow> DEL k n | Some h \<Rightarrow> if reapable olderThan h then DEL k n else n)"
  by (auto simp: reaped_def DEL_def fun_eq_iff split: option.splits)

lemma reap_keys_Cons:
  "\<exists>n1 ids1. reap_keys olderThan (key # keys) n ids = reap_keys olderThan keys n1 (ids @ ids1) \<and>
     reaped olderThan {key} n n1 \<and> set ids1 = stale_ids olderThan {key} n"
proof (cases "redis n key")
  case None
  then show ?thesis using reaped_one[of olderThan key n]
    by (intro exI[of _ "DEL key n"] exI[of _ "[]"]) (simp add: stale_ids_def)
next
  case (Some h)
  note one = reaped_one[of olderThan key n]
  show ?thesis
  proof (cases "rdata h")
    case (Data p)
    show ?thesis
    proof (cases "stale olderThan p")
      case True
      then obtain t where "UpdatedTime p = Some t" "t < olderThan" "Action p = Notice_ACK" by (auto simp: stale_def)
      then show ?thesis using Some Data one True
        by (intro exI[of _ "DEL key n"] exI[of _ "[DatabaseId p]"]) (simp add: reapable_def stale_ids_def)
    next
      case False
      then have "reap_keys olderThan (key # keys) n ids = reap_keys olderThan keys n ids"
        using Some Data by (auto simp: stale_def split: option.splits)
      then show ?thesis using Some Data one False
        by (intro exI[of _ n] exI[of _ "[]"]) (simp add: reapable_def stale_ids_def)
    qed
  qed (use Some one in \<open>auto intro!: exI[of _ "DEL key n"] exI[of _ "[]"] simp: reapable_def stale_ids_def\<close>)
qed

lemma reap_keys_reaped:
  "\<exists>n' ids'. reap_keys olderThan keys n ids = (n', ids @ ids') \<and> reaped olderThan (set keys) n n' \<and>
     set ids' = stale_ids olderThan (set keys) n"
proof (induction keys arbitrary: n ids)
  case Nil
  show ?case using reaped_empty by (simp add: stale_ids_def)
next
  case (Cons key keys)
  obtain n1 ids1 where 1: "reap_keys olderThan (key # keys) n ids = reap_keys olderThan keys n1 (ids @ ids1)"
    "reaped olderThan {key} n n1" "set ids1 = stale_ids olderThan {key} n"
    using reap_keys_Cons by blast
  obtain n' ids' where 2: "reap_keys olderThan keys n1 (ids @ ids1) = (n', (ids @ ids1) @ ids')"
    "reaped olderThan (set keys) n1 n'" "set ids' = stale_ids olderThan (set keys) n1"
    using Cons.IH by blast
  show ?case
    using 1 2 reaped_trans[OF 1(2) 2(2)] stale_ids_trans[OF 1(2), of "set keys"]
    by (intro exI[of _ n'] exI[of _ "ids1 @ ids'"]) simp
qed

lemma reap_pages_reaped:
  "\<exists>n' ids'. reap_pages olderThan (map Inr pages) n ids = (n', Inr (ids @ ids')) \<and>
     reaped olderThan (set (concat pages)) n n' \<and> set ids' = stale_ids olderThan (set (concat pages)) n"
proof (induction pages arbitrary: n ids)
  case Nil
  show ?case using reaped_empty by (simp add: stale_ids_def)
next
  case (Cons ks pages)
  obtain n1 ids1 where 1: "reap_keys olderThan ks n ids = (n1, ids @ ids1)"
    "reaped olderThan (set ks) n n1" "set ids1 = stale_ids olderThan (set ks) n"
    using reap_keys_reaped by blast
  obtain n' ids' where 2: "reap_pages olderThan (map Inr pages) n1 (ids @ ids1) = (n', Inr ((ids @ ids1) @ ids'))"
    "reaped olderThan (set (concat pages)) n1 n'" "set ids' = stale_ids olderThan (set (concat pages)) n1"
    using Cons.IH by blast
  show ?case
    using 1 2 reaped_trans[OF 1(2) 2(2)] stale_ids_trans[OF 1(2), of "set (concat pages)"]
    by (intro exI[of _ n'] exI[of _ "ids1 @ ids'"]) simp
qed

text \<open>If the replies of \<open>SCAN\<close> mention every key, reaping removes from Redis exactly the unreadable hashes and the
  acknowledged notices that were not updated within the timeout, keeps every other notice, and times out in the
  database exactly those notices, with no call when there are none.\<close>
theorem reap_exact:
  assumes "e_up e" "dom (redis n) \<subseteq> set (concat pages)" "olderThan = now - ackTimeout n"
  shows "\<exists>ids. redis (reap e now (map Inr pages) n) =
      (\<lambda>k. case redis n k of None \<Rightarrow> None | Some h \<Rightarrow> if reapable olderThan h then None else Some h) \<and>
    db_log (reap e now (map Inr pages) n) = db_log n @ (if ids = [] then [] else [TimeoutBySliceId ids]) \<and>
    set ids = {DatabaseId p |k h p. redis n k = Some h \<and> rdata h = Data p \<and> stale olderThan p}"
proof -
  obtain n' ids where r: "reap_pages olderThan (map Inr pages) n [] = (n', Inr ids)"
    "reaped olderThan (set (concat pages)) n n'" "set ids = stale_ids olderThan (set (concat pages)) n"
    using reap_pages_reaped[of olderThan pages n "[]"] by auto
  have "reap e now (map Inr pages) n = (if ids \<noteq> [] then fst (db_do e (TimeoutBySliceId ids) n') else n')"
    using assms(1) r(1)[unfolded assms(3)] by (simp add: reap_def Let_def assms(3))
  moreover have "redis n' = (\<lambda>k. case redis n k of None \<Rightarrow> None | Some h \<Rightarrow> if reapable olderThan h then None else Some h)"
    using r(2) assms(2) by (fastforce simp: reaped_def fun_eq_iff split: option.splits)
  moreover have "stale_ids olderThan (set (concat pages)) n =
      {DatabaseId p |k h p. redis n k = Some h \<and> rdata h = Data p \<and> stale olderThan p}"
    using assms(2) unfolding stale_ids_def by blast
  ultimately show ?thesis
    using r(2,3) by (intro exI[of _ ids]) (auto simp: reaped_def db_do_def)
qed

section \<open>A sample notifier\<close>

definition ex_env :: env where
  "ex_env = \<lparr>e_now = Inr 100, e_up = True, e_db = (\<lambda>_ _. Inr ''db1''), e_get = (\<lambda>_. Inl (Err ''not found''))\<rparr>"

definition ex_note :: Notice where
  "ex_note = \<lparr>DatabaseId = ''db1'', NoticeId = ''n1'', Action = Notice_ACK, CreatedTime = Some 1, AckTime = Some 2,
              UpdatedTime = Some 3, ClearedTime = None\<rparr>"

definition ex_notices :: Notices where
  "ex_notices = NewNotifier\<lparr>redis := [''notifier:n1'' \<mapsto> \<lparr>rdata = Data ex_note, count_updates = Some 0\<rparr>]\<rparr>"

lemma ex_up: "all_up ex_env"
  by (simp add: all_up_def ex_env_def)

lemma ex_filed: "filed ex_notices"
  by (simp add: filed_def ex_notices_def ex_note_def getRedisKeyByNote_def)

lemma ex_state: "state_of ex_notices (getRedisKeyByNote ex_note) = Some Notice_ACK"
  by (simp add: state_of_def ex_notices_def ex_note_def getRedisKeyByNote_def)

theorem Notify_refines_life_cycle_witness:
  "\<exists>n'. Notify ex_env ex_note True ex_notices = (n', None) \<and> state_of n' (getRedisKeyByNote ex_note) = Some Notice_ACK"
  using Notify_refines_life_cycle[OF ex_up _ ex_filed, of ex_note True] ex_state by (auto simp: ex_note_def)

theorem cleared_notice_is_stuck_witness:
  "state_of (fst (Notify ex_env ex_note True (fst (Notify ex_env ex_note False ex_notices)))) (getRedisKeyByNote ex_note) =
     Some Notice_CLEAR"
proof -
  obtain n1 er where n1: "Notify ex_env ex_note False ex_notices = (n1, er)" by fastforce
  show ?thesis
    using cleared_notice_is_stuck[OF ex_up _ ex_filed ex_state n1, of "[(ex_env, True)]"] n1
    by (simp add: Let_def ex_note_def ex_env_def)
qed

theorem reap_exact_witness:
  "redis (reap ex_env (2 * hour) [Inr [''notifier:n1'']] ex_notices) ''notifier:n1'' = None"
proof -
  have "dom (redis ex_notices) \<subseteq> set (concat [[''notifier:n1'']])" by (simp add: ex_notices_def)
  from reap_exact[OF _ this refl, of ex_env "2 * hour"] show ?thesis
    by (auto simp: ex_env_def ex_notices_def NewNotifier_def ex_note_def reapable_def stale_def fun_eq_iff)
qed

end
