(* ===== verification/Zone_Notices.thy ===== *)
theory Zone_Notices
  imports Zone_Stage Notifier
begin

text \<open>
  The zone stage and the notifier together: the calls the stage logs are made on the notifier, and the state of the
  notice of a zone and a track follows from the positions of the track alone.
\<close>

section \<open>Handing the calls of the stage to the notifier\<close>










end
