(* ===== verification/Alert_Stages.thy ===== *)
theory Alert_Stages
  imports Zone_Notices
begin

text \<open>
  The stages of \<^verbatim>\<open>tanalyzed\<close> that raise an alert for every search and rescue transmitter (\<^verbatim>\<open>sart.go\<close>) and every distress
  beacon (\<^verbatim>\<open>sarsat.go\<close>), and the calls they make on the notifier. The text of a target identifier, a nested protobuf
  message, is the parameter \<open>tid\<close>, MD5 the parameter \<open>md5\<close>.
\<close>

section \<open>The stages\<close>

datatype alert_event = Notice_Sart | Notice_Sarsat | Notice_SarsatDefaultHandling | Notice_SarsatMessage

datatype alert_priority = Notice_Alert | Notice_Message

record alert =
  al_NoticeId :: string
  al_Event :: alert_event
  al_Priority :: alert_priority
  al_Source :: string
  al_Target :: target_info
  al_Message :: string

fun alert_name :: "alert_event \<Rightarrow> string" where
  "alert_name Notice_Sart = ''Sart''"
| "alert_name Notice_Sarsat = ''Sarsat''"
| "alert_name Notice_SarsatDefaultHandling = ''SarsatDefaultHandling''"
| "alert_name Notice_SarsatMessage = ''SarsatMessage''"

text \<open>The text that \<^verbatim>\<open>ident.With(f1, v1).With(f2, v2)\<close> collects.\<close>

definition ident_text :: "alert_event \<Rightarrow> string \<Rightarrow> string \<Rightarrow> string" where
  "ident_text ev field val = ''(event:'' @ alert_name ev @ '')('' @ field @ '':'' @ val @ '')''"

definition ruleMatch :: "status \<Rightarrow> bool option" where
  "ruleMatch st = (case st of Status_Current \<Rightarrow> Some True | Status_Timeout \<Rightarrow> Some False | _ \<Rightarrow> None)"

definition new_alert :: "string \<Rightarrow> alert_event \<Rightarrow> target_info \<Rightarrow> alert" where
  "new_alert i ev info =
     \<lparr>al_NoticeId = i, al_Event = ev, al_Priority = Notice_Alert, al_Source = [], al_Target = info, al_Message = []\<rparr>"

text \<open>A stage gives the call of \<^verbatim>\<open>Notify\<close> it makes, if any.\<close>

definition sart_analyze :: "(string \<Rightarrow> string) \<Rightarrow> 'p ztrack_update \<Rightarrow> (alert \<times> bool) option res" where
  "sart_analyze md5 u =
     (case ku_Track u of
        None \<Rightarrow> Inr None
      | Some t \<Rightarrow>
          (case zk_Targets t of
             [] \<Rightarrow> Inr None
           | tp # _ \<Rightarrow>
               rbind (deref tp) (\<lambda>tgt.
                 case Option.bind (zt_Nmea tgt) (\<lambda>n. Option.bind (Vdm_M1371 n) id) of
                   None \<Rightarrow> Inr None
                 | Some number \<Rightarrow>
                     let mmsi = FormatMMSI number in
                     if take 2 mmsi \<noteq> ''97'' then Inr None
                     else
                       (case ruleMatch (ku_Status u) of
                          None \<Rightarrow> Inr None
                        | Some m \<Rightarrow>
                            rbind (TargetInfoFromTrack t) (\<lambda>info.
                              Inr (Some (new_alert (md5 (ident_text Notice_Sart ''mmsi'' mmsi)) Notice_Sart info, m)))))))"

definition sarsat_analyze :: "(string \<Rightarrow> string) \<Rightarrow> ('p ztarget \<Rightarrow> string) \<Rightarrow> 'p ztrack_update \<Rightarrow> (alert \<times> bool) option res" where
  "sarsat_analyze md5 tid u =
     rbind (deref (ku_Track u)) (\<lambda>t.
       case zk_Targets t of
         [] \<Rightarrow> Inr None
       | tp # _ \<Rightarrow>
           rbind (deref tp) (\<lambda>tgt.
             case zt_Sarmsg tgt of
               None \<Rightarrow> Inr None
             | Some sarmsg \<Rightarrow>
                 (case ruleMatch (ku_Status u) of
                    None \<Rightarrow> Inr None
                  | Some m \<Rightarrow>
                      (case sarmsg of
                         None \<Rightarrow>
                           Inr (Some (new_alert (md5 (ident_text Notice_SarsatDefaultHandling ''target'' (tid tgt)))
                             Notice_SarsatDefaultHandling (no_info\<lparr>ti_TrackId := zk_Id t, ti_Type := Some (zt_Type tgt)\<rparr>), m))
                       | Some beacon \<Rightarrow>
                           rbind (deref beacon) (\<lambda>hex.
                           rbind (TargetInfoFromTrack t) (\<lambda>info.
                             Inr (Some (new_alert (md5 (ident_text Notice_Sarsat ''beacon'' hex)) Notice_Sarsat info, m))))))))"

text \<open>A message between control centres: its type, the name of the sender and its text.\<close>

record sarsat_message =
  sm_Is915 :: bool
  sm_RemoteName :: string
  sm_NarrativeText :: string

text \<open>\<open>data\<close> is the content of the activity, absent for other data, then absent for an activity of another kind.\<close>

definition analyzeActivity :: "string \<Rightarrow> sarsat_message option option \<Rightarrow> (alert \<times> bool) option res" where
  "analyzeActivity contentsId data =
     (case data of
        None \<Rightarrow> Inl (Err ''Not an activity stream'')
      | Some None \<Rightarrow> Inr None
      | Some (Some m) \<Rightarrow>
          if \<not> sm_Is915 m then Inr None
          else Inr (Some (\<lparr>al_NoticeId = contentsId, al_Event = Notice_SarsatMessage, al_Priority = Notice_Message,
                           al_Source = sm_RemoteName m, al_Target = no_info, al_Message = sm_NarrativeText m\<rparr>, True)))"

text \<open>
  The calls of both stages for a sequence of updates. The loop of \<^verbatim>\<open>main.go\<close> skips updates without a track and goes
  on after an error, while a panic ends the daemon.
\<close>

fun stage_calls :: "(string \<Rightarrow> string) \<Rightarrow> ('p ztarget \<Rightarrow> string) \<Rightarrow> 'p ztrack_update list \<Rightarrow> (alert \<times> bool) list res" where
  "stage_calls md5 tid [] = Inr []"
| "stage_calls md5 tid (u # us) =
     (if ku_Track u = None then stage_calls md5 tid us
      else
        rbind (sarsat_analyze md5 tid u) (\<lambda>a.
        rbind (sart_analyze md5 u) (\<lambda>b.
        rbind (stage_calls md5 tid us) (\<lambda>cs. Inr ((case a of None \<Rightarrow> [] | Some c \<Rightarrow> [c]) @ (case b of None \<Rightarrow> [] | Some c \<Rightarrow> [c]) @ cs)))))"

section \<open>The life of an alert\<close>

definition first_target :: "'p ztrack_update \<Rightarrow> 'p ztarget option" where
  "first_target u = Option.bind (ku_Track u) (\<lambda>t. case zk_Targets t of [] \<Rightarrow> None | tp # _ \<Rightarrow> tp)"

text \<open>What an update says about a transmitter with the given identity or a beacon with the given identifier.\<close>

definition sart_says :: "string \<Rightarrow> 'p ztrack_update \<Rightarrow> bool list" where
  "sart_says mmsi u =
     (case Option.bind (first_target u) (\<lambda>tgt. Option.bind (zt_Nmea tgt) (\<lambda>n. Option.bind (Vdm_M1371 n) id)) of
        Some number \<Rightarrow> if FormatMMSI number = mmsi \<and> take 2 mmsi = ''97'' then (case ruleMatch (ku_Status u) of None \<Rightarrow> [] | Some m \<Rightarrow> [m]) else []
      | None \<Rightarrow> [])"

definition beacon_says :: "string \<Rightarrow> 'p ztrack_update \<Rightarrow> bool list" where
  "beacon_says hex u =
     (case Option.bind (first_target u) zt_Sarmsg of
        Some (Some (Some hex')) \<Rightarrow> if hex' = hex then (case ruleMatch (ku_Status u) of None \<Rightarrow> [] | Some m \<Rightarrow> [m]) else []
      | _ \<Rightarrow> [])"

definition says :: "alert_event \<Rightarrow> string \<Rightarrow> 'p ztrack_update \<Rightarrow> bool list" where
  "says ev val u = (if ev = Notice_Sart then sart_says val u else beacon_says val u)"

definition ident_of :: "alert_event \<Rightarrow> string \<Rightarrow> string" where
  "ident_of ev val = (if ev = Notice_Sart then ident_text ev ''mmsi'' val else ident_text ev ''beacon'' val)"

text \<open>The identities, event, field and value, that the stages may hash for an update.\<close>

definition hashed :: "('p ztarget \<Rightarrow> string) \<Rightarrow> 'p ztrack_update \<Rightarrow> (alert_event \<times> string \<times> string) list" where
  "hashed tid u =
     (case first_target u of
        None \<Rightarrow> []
      | Some tgt \<Rightarrow>
          (case zt_Sarmsg tgt of
             None \<Rightarrow> []
           | Some None \<Rightarrow> [(Notice_SarsatDefaultHandling, ''target'', tid tgt)]
           | Some (Some None) \<Rightarrow> []
           | Some (Some (Some hex)) \<Rightarrow> [(Notice_Sarsat, ''beacon'', hex)]) @
          (case Option.bind (zt_Nmea tgt) (\<lambda>n. Option.bind (Vdm_M1371 n) id) of
             None \<Rightarrow> []
           | Some number \<Rightarrow> [(Notice_Sart, ''mmsi'', FormatMMSI number)]))"

text \<open>None of the other identities of the updates has the hash of this one.\<close>

definition own_ident ::
  "(string \<Rightarrow> string) \<Rightarrow> ('p ztarget \<Rightarrow> string) \<Rightarrow> 'p ztrack_update list \<Rightarrow> alert_event \<Rightarrow> string \<Rightarrow> bool"
where
  "own_ident md5 tid us ev val \<longleftrightarrow>
     (\<forall>u\<in>set us. \<forall>(ev', field, val')\<in>set (hashed tid u).
        md5 (ident_text ev' field val') = md5 (ident_of ev val) \<longrightarrow> ev' = ev \<and> val' = val)"

definition about_id :: "string \<Rightarrow> (alert \<times> bool) option \<Rightarrow> bool list" where
  "about_id i c = (case c of None \<Rightarrow> [] | Some (a, m) \<Rightarrow> if al_NoticeId a = i then [m] else [])"

lemma first_target_Some: "first_target u = Some tgt \<longleftrightarrow> (\<exists>t tgts. ku_Track u = Some t \<and> zk_Targets t = Some tgt # tgts)"
proof (cases "ku_Track u")
  case (Some t)
  then show ?thesis by (cases "zk_Targets t") (auto simp: first_target_def)
qed (simp add: first_target_def)

lemma own_ident_iff:
  assumes "own_ident md5 tid us ev val" "ev \<in> {Notice_Sart, Notice_Sarsat}" "u \<in> set us"
  shows "(Notice_Sart, ''mmsi'', x) \<in> set (hashed tid u) \<Longrightarrow>
      md5 (ident_text Notice_Sart ''mmsi'' x) = md5 (ident_of ev val) \<longleftrightarrow> ev = Notice_Sart \<and> x = val"
    "(Notice_Sarsat, ''beacon'', x) \<in> set (hashed tid u) \<Longrightarrow>
      md5 (ident_text Notice_Sarsat ''beacon'' x) = md5 (ident_of ev val) \<longleftrightarrow> ev = Notice_Sarsat \<and> x = val"
    "(Notice_SarsatDefaultHandling, ''target'', x) \<in> set (hashed tid u) \<Longrightarrow>
      md5 (ident_text Notice_SarsatDefaultHandling ''target'' x) \<noteq> md5 (ident_of ev val)"
  using assms by (fastforce simp: own_ident_def ident_of_def)+

lemma sart_analyze_call:
  assumes "sart_analyze md5 u = Inr c"
  shows "(c = None \<and> (\<forall>x. sart_says x u = [])) \<or>
    (\<exists>mmsi a m. c = Some (a, m) \<and> al_NoticeId a = md5 (ident_text Notice_Sart ''mmsi'' mmsi) \<and>
       (Notice_Sart, ''mmsi'', mmsi) \<in> set (hashed tid u) \<and> (\<forall>x. sart_says x u = (if x = mmsi then [m] else [])))"
proof (cases "Option.bind (first_target u) (\<lambda>tgt. Option.bind (zt_Nmea tgt) (\<lambda>n. Option.bind (Vdm_M1371 n) id))")
  case None
  then have "c = None" using assms
    by (auto simp: sart_analyze_def first_target_def rbind_eq_Inr split: option.splits list.splits)
  then show ?thesis using None by (simp add: sart_says_def)
next
  case (Some number)
  then obtain t tgt tgts where t: "ku_Track u = Some t" "zk_Targets t = Some tgt # tgts"
      "Option.bind (zt_Nmea tgt) (\<lambda>n. Option.bind (Vdm_M1371 n) id) = Some number"
    using first_target_Some[of u] by (auto simp: bind_eq_Some_conv)
  have says: "sart_says x u =
      (if FormatMMSI number = x \<and> take 2 x = ''97'' then (case ruleMatch (ku_Status u) of None \<Rightarrow> [] | Some m \<Rightarrow> [m]) else [])" for x
    using Some by (simp add: sart_says_def)
  show ?thesis
  proof (cases "take 2 (FormatMMSI number) = ''97'' \<and> ruleMatch (ku_Status u) \<noteq> None")
    case True
    then obtain m where m: "ruleMatch (ku_Status u) = Some m" by auto
    then obtain info where "c = Some (new_alert (md5 (ident_text Notice_Sart ''mmsi'' (FormatMMSI number))) Notice_Sart info, m)"
      using assms t True by (auto simp: sart_analyze_def Let_def rbind_eq_Inr)
    moreover have "(Notice_Sart, ''mmsi'', FormatMMSI number) \<in> set (hashed tid u)"
      using t by (simp add: hashed_def first_target_def)
    ultimately show ?thesis using says m True by (auto simp: new_alert_def)
  next
    case False
    then have "c = None" using assms t by (auto simp: sart_analyze_def Let_def split: if_splits option.splits)
    moreover have "sart_says x u = []" for x using False says[of x] by (auto split: option.splits)
    ultimately show ?thesis by simp
  qed
qed

lemma sart_calls:
  assumes "sart_analyze md5 u = Inr c" "ev \<in> {Notice_Sart, Notice_Sarsat}" "own_ident md5 tid us ev val" "u \<in> set us"
  shows "about_id (md5 (ident_of ev val)) c = (if ev = Notice_Sart then sart_says val u else [])"
  using sart_analyze_call[OF assms(1), of tid] own_ident_iff[OF assms(3,2,4)] assms(2) by (auto simp: about_id_def)

lemma sarsat_analyze_call:
  assumes "sarsat_analyze md5 tid u = Inr c"
  shows "((\<forall>x. beacon_says x u = []) \<and> (c = None \<or> (\<exists>a m x. c = Some (a, m) \<and> al_NoticeId a = md5 (ident_text Notice_SarsatDefaultHandling ''target'' x) \<and>
       (Notice_SarsatDefaultHandling, ''target'', x) \<in> set (hashed tid u)))) \<or>
    (\<exists>hex a m. c = Some (a, m) \<and> al_NoticeId a = md5 (ident_text Notice_Sarsat ''beacon'' hex) \<and>
       (Notice_Sarsat, ''beacon'', hex) \<in> set (hashed tid u) \<and> (\<forall>x. beacon_says x u = (if x = hex then [m] else [])))"
proof -
  obtain t where t: "ku_Track u = Some t" using assms by (auto simp: sarsat_analyze_def rbind_eq_Inr)
  show ?thesis
  proof (cases "Option.bind (first_target u) zt_Sarmsg")
    case None
    have "c = None"
    proof (cases "zk_Targets t")
      case (Cons tp tgts)
      then obtain tgt where "tp = Some tgt" using assms t by (auto simp: sarsat_analyze_def rbind_eq_Inr)
      then have "zt_Sarmsg tgt = None" using None t Cons by (simp add: first_target_def)
      then show ?thesis using assms t Cons \<open>tp = Some tgt\<close> by (simp add: sarsat_analyze_def)
    qed (use assms t in \<open>simp add: sarsat_analyze_def\<close>)
    then show ?thesis using None by (simp add: beacon_says_def)
  next
    case (Some sarmsg)
    then obtain tgt tgts where tg: "zk_Targets t = Some tgt # tgts" "zt_Sarmsg tgt = Some sarmsg"
      using t first_target_Some[of u] by (auto simp: bind_eq_Some_conv)
    show ?thesis
    proof (cases "ruleMatch (ku_Status u)")
      case None
      then have "c = None" using assms t tg by (simp add: sarsat_analyze_def)
      moreover have "beacon_says x u = []" for x using None Some by (auto simp: beacon_says_def split: option.splits)
      ultimately show ?thesis by simp
    next
      case (Some m)
      show ?thesis
      proof (cases sarmsg)
        case None
        then have "\<exists>a. c = Some (a, m) \<and> al_NoticeId a = md5 (ident_text Notice_SarsatDefaultHandling ''target'' (tid tgt))"
          using assms t tg Some by (auto simp: sarsat_analyze_def new_alert_def)
        moreover have "(Notice_SarsatDefaultHandling, ''target'', tid tgt) \<in> set (hashed tid u)"
          using None t tg by (simp add: hashed_def first_target_def)
        moreover have "beacon_says x u = []" for x using None t tg by (simp add: beacon_says_def first_target_def)
        ultimately show ?thesis by blast
      next
        case beacon: (Some b)
        then obtain hex where hex: "b = Some hex" "\<exists>a. c = Some (a, m) \<and> al_NoticeId a = md5 (ident_text Notice_Sarsat ''beacon'' hex)"
          using assms t tg Some by (auto simp: sarsat_analyze_def new_alert_def rbind_eq_Inr)
        moreover have "(Notice_Sarsat, ''beacon'', hex) \<in> set (hashed tid u)"
          using hex(1) beacon t tg by (simp add: hashed_def first_target_def)
        moreover have "beacon_says x u = (if x = hex then [m] else [])" for x
          using hex(1) beacon t tg Some by (simp add: beacon_says_def first_target_def)
        ultimately show ?thesis by blast
      qed
    qed
  qed
qed

lemma sarsat_calls:
  assumes "sarsat_analyze md5 tid u = Inr c" "ev \<in> {Notice_Sart, Notice_Sarsat}" "own_ident md5 tid us ev val" "u \<in> set us"
  shows "about_id (md5 (ident_of ev val)) c = (if ev = Notice_Sart then [] else beacon_says val u)"
  using sarsat_analyze_call[OF assms(1)] own_ident_iff[OF assms(3,2,4)] assms(2) by (auto simp: about_id_def)

lemma says_no_track: "ku_Track u = None \<Longrightarrow> says ev val u = []"
  by (simp add: says_def sart_says_def beacon_says_def first_target_def)

lemma stage_calls_about:
  assumes "stage_calls md5 tid us = Inr cs" "ev \<in> {Notice_Sart, Notice_Sarsat}" "own_ident md5 tid us ev val"
  shows "map snd (filter (\<lambda>(a, m). al_NoticeId a = md5 (ident_of ev val)) cs) = concat (map (says ev val) us)"
  using assms(1,3)
proof (induction us arbitrary: cs)
  case (Cons u us)
  have own: "own_ident md5 tid us ev val" using Cons.prems(2) by (simp add: own_ident_def)
  show ?case
  proof (cases "ku_Track u = None")
    case True
    then show ?thesis using Cons own says_no_track[of u ev val] by simp
  next
    case False
    then obtain a b cs' where c: "sarsat_analyze md5 tid u = Inr a" "sart_analyze md5 u = Inr b" "stage_calls md5 tid us = Inr cs'"
        "cs = (case a of None \<Rightarrow> [] | Some c \<Rightarrow> [c]) @ (case b of None \<Rightarrow> [] | Some c \<Rightarrow> [c]) @ cs'"
      using Cons.prems by (auto simp: rbind_eq_Inr)
    let ?f = "\<lambda>xs :: (alert \<times> bool) list. map snd (filter (\<lambda>(a, m). al_NoticeId a = md5 (ident_of ev val)) xs)"
    have opt: "?f (case x of None \<Rightarrow> [] | Some c \<Rightarrow> [c]) = about_id (md5 (ident_of ev val)) x" for x
      by (auto simp: about_id_def split: option.splits)
    have "?f cs = about_id (md5 (ident_of ev val)) a @ about_id (md5 (ident_of ev val)) b @ ?f cs'"
      unfolding c(4) filter_append map_append opt ..
    also have "\<dots> = says ev val u @ ?f cs'"
      using sarsat_calls[OF c(1) assms(2) Cons.prems(2)] sart_calls[OF c(2) assms(2) Cons.prems(2)] by (simp add: says_def)
    finally show ?thesis using Cons.IH[OF c(3) own] by simp
  qed
qed simp

text \<open>The alert as the notifier gets it.\<close>

definition alert_notice :: "alert \<Rightarrow> Notice" where
  "alert_notice a = \<lparr>DatabaseId = [], NoticeId = al_NoticeId a, Action = Notice_no_action, CreatedTime = None, AckTime = None,
     UpdatedTime = None, ClearedTime = None\<rparr>"

definition hand_alerts :: "env \<Rightarrow> (alert \<times> bool) list \<Rightarrow> Notices \<Rightarrow> Notices" where
  "hand_alerts e cs = fold (\<lambda>(a, m) n. fst (Notify e (alert_notice a) m n)) cs"

lemma stage_calls_ids: "stage_calls md5 tid us = Inr cs \<Longrightarrow> \<forall>x. md5 x \<noteq> [] \<Longrightarrow> \<forall>(a, m)\<in>set cs. al_NoticeId a \<noteq> []"
proof (induction us arbitrary: cs)
  case (Cons u us)
  show ?case
  proof (cases "ku_Track u = None")
    case False
    then obtain a b cs' where c: "sarsat_analyze md5 tid u = Inr a" "sart_analyze md5 u = Inr b" "stage_calls md5 tid us = Inr cs'"
        "cs = (case a of None \<Rightarrow> [] | Some c \<Rightarrow> [c]) @ (case b of None \<Rightarrow> [] | Some c \<Rightarrow> [c]) @ cs'"
      using Cons.prems by (auto simp: rbind_eq_Inr)
    have "case a of None \<Rightarrow> True | Some (x, m) \<Rightarrow> al_NoticeId x \<noteq> []" "case b of None \<Rightarrow> True | Some (x, m) \<Rightarrow> al_NoticeId x \<noteq> []"
      using sarsat_analyze_call[OF c(1)] sart_analyze_call[OF c(2), of tid] Cons.prems(2) by auto
    moreover have "\<forall>(x, m)\<in>set cs'. al_NoticeId x \<noteq> []" using Cons.IH[OF c(3) Cons.prems(2)] .
    ultimately show ?thesis unfolding c(4) by (auto split: option.splits)
  qed (use Cons in simp)
qed simp

text \<open>C24. C24.
  The alert of a rescue transmitter, or of a distress beacon, goes through the documented life cycle of its notice
  exactly as the reports and timeouts of the tracks that carry its identity say, whatever other tracks do. This holds
  when no other identity reported in the updates has the same hash, and until a notice that was acknowledged and
  cleared matches again, where the code departs from the documentation (\<open>cleared_notice_is_stuck\<close>).
\<close>

theorem distress_alert_life_cycle:
  assumes "stage_calls md5 tid us = Inr cs" "ev \<in> {Notice_Sart, Notice_Sarsat}" "own_ident md5 tid us ev val" "\<forall>x. md5 x \<noteq> []"
    and "all_up e" "filed n"
    and "documented (state_of n (''notifier:'' @ md5 (ident_of ev val))) (concat (map (says ev val) us))"
  shows "state_of (hand_alerts e cs n) (''notifier:'' @ md5 (ident_of ev val)) =
    foldl notice_next (state_of n (''notifier:'' @ md5 (ident_of ev val))) (concat (map (says ev val) us))"
proof -
  let ?i = "md5 (ident_of ev val)"
  let ?calls = "map (\<lambda>(a, m). (alert_notice a, m)) cs"
  have "\<forall>(x, m)\<in>set ?calls. NoticeId x \<noteq> []" using stage_calls_ids[OF assms(1,4)] by (auto simp: alert_notice_def)
  then have "state_of (fold (\<lambda>(x, m). (\<lambda>note m n. fst (Notify e note m n)) x m) ?calls n) (''notifier:'' @ ?i) =
      foldl notice_step (state_of n (''notifier:'' @ ?i)) (map snd (filter (\<lambda>(x, m). getRedisKeyByNote x = ''notifier:'' @ ?i) ?calls))"
    using nt.after_calls[of e n ?calls "''notifier:'' @ ?i"] assms(5,6) by blast
  moreover have "fold (\<lambda>(x, m). (\<lambda>note m n. fst (Notify e note m n)) x m) ?calls n = hand_alerts e cs n"
    by (simp add: hand_alerts_def fold_map comp_def case_prod_unfold)
  moreover have "map snd (filter (\<lambda>(x, m). getRedisKeyByNote x = ''notifier:'' @ ?i) ?calls) = map snd (filter (\<lambda>(a, m). al_NoticeId a = ?i) cs)"
    by (induction cs) (auto simp: getRedisKeyByNote_def alert_notice_def)
  ultimately show ?thesis using stage_calls_about[OF assms(1-3)] documented_steps[OF assms(7)] by simp
qed

section \<open>Witness\<close>

definition sart_update :: "status \<Rightarrow> nat ztrack_update" where
  "sart_update st = \<lparr>ku_Status = st, ku_Track = Some \<lparr>zk_Id = ''t'', zk_DatabaseId = [], zk_RegistryId = [],
     zk_Targets = [Some \<lparr>zt_Type = SART, zt_Position = None, zt_Nmea = Some \<lparr>Ttm_Number = None, Vdm_M1371 = Some (Some 970123456)\<rparr>,
       zt_Imei = None, zt_Nodeid = None, zt_Sarmsg = None\<rparr>], zk_Names = []\<rparr>\<rparr>"

lemma hashed_fields:
  "(ev, field, val) \<in> set (hashed tid u) \<Longrightarrow>
   (ev, field) \<in> {(Notice_Sart, ''mmsi''), (Notice_Sarsat, ''beacon''), (Notice_SarsatDefaultHandling, ''target'')}"
  unfolding hashed_def by (auto split: option.splits if_splits)

lemma sart_own: "own_ident (Cons CHR ''#'') tid us Notice_Sart ''970123456''"
proof -
  have "ev = Notice_Sart \<and> val = ''970123456''"
    if "(ev, field, val) \<in> set (hashed tid u)" "ident_text ev field val = ident_of Notice_Sart ''970123456''" for ev field val u
    using hashed_fields[OF that(1)] that(2) by (auto simp: ident_of_def ident_text_def)
  then show ?thesis unfolding own_ident_def by blast
qed

lemma digits_step:
  "n < 10 \<Longrightarrow> digits_of n = [char_of (48 + n)]" "\<not> n < 10 \<Longrightarrow> digits_of n = digits_of (n div 10) @ [char_of (48 + n mod 10)]"
  by (simp_all add: digits_of.simps[of n])

lemma char_digits:
  "char_of (48 :: nat) = CHR ''0''" "char_of (49 :: nat) = CHR ''1''" "char_of (50 :: nat) = CHR ''2''" "char_of (51 :: nat) = CHR ''3''"
  "char_of (52 :: nat) = CHR ''4''" "char_of (53 :: nat) = CHR ''5''" "char_of (54 :: nat) = CHR ''6''" "char_of (55 :: nat) = CHR ''7''"
  "char_of (57 :: nat) = CHR ''9''"
  by code_simp+

text \<open>The transmitter is reported, times out and is reported again.\<close>

theorem distress_alert_life_cycle_witness:
  "\<exists>cs. stage_calls (Cons CHR ''#'') (\<lambda>_. []) [sart_update Status_Current, sart_update Status_Timeout, sart_update Status_Current] = Inr cs \<and>
     state_of (hand_alerts ex_env cs NewNotifier) (''notifier:#'' @ ident_of Notice_Sart ''970123456'') = Some Notice_NEW"
proof -
  let ?us = "[sart_update Status_Current, sart_update Status_Timeout, sart_update Status_Current]"
  have m: "FormatMMSI 970123456 = ''970123456''" by (simp add: FormatMMSI_def digits_step char_digits del: digits_of.simps)
  obtain cs where cs: "stage_calls (Cons CHR ''#'') (\<lambda>_. []) ?us = Inr cs"
    by (simp add: sarsat_analyze_def sart_analyze_def sart_update_def m ruleMatch_def TargetInfoFromTrack_def Let_def)
  have f: "filed NewNotifier" by (simp add: filed_def NewNotifier_def)
  have st: "state_of NewNotifier k = None" for k by (simp add: state_of_def NewNotifier_def)
  have says: "concat (map (says Notice_Sart ''970123456'') ?us) = [True, False, True]"
    by (simp add: says_def sart_says_def first_target_def sart_update_def m ruleMatch_def)
  have "state_of (hand_alerts ex_env cs NewNotifier) (''notifier:#'' @ ident_of Notice_Sart ''970123456'') = Some Notice_NEW"
    using distress_alert_life_cycle[OF cs _ sart_own _ ex_up f] unfolding says st by simp
  with cs show ?thesis by blast
qed

end
