(* ===== verification/Timeout_Heap.thy ===== *)
theory Timeout_Heap
  imports Track_Types
begin

text \<open>
  \<^verbatim>\<open>tms/db/timeout_heap.go\<close>: a binary min-heap of objects that can time out, ordered by
  deadline, with an index from object id to heap position so that a deadline can be moved.
  The state is the record \<open>timeout_heap\<close> with the source's two fields. \<open>Less\<close>, \<open>Swap\<close>,
  \<open>heap_push\<close> and \<open>heap_pop\<close> are the methods the type supplies to Go's
  \<^verbatim>\<open>container/heap\<close>; \<open>up\<close>, \<open>down\<close>, \<open>Fix\<close>, \<open>Push\<close> and \<open>Pop\<close> are the
  algorithms of that package, which call them.

  The last part states what the rest of the code relies on as the locale \<open>timeout_queue\<close>
  (a finite map from ids to objects whose peek is a minimum) and the draining loop that both
  timeout stages run over it, and interprets the former on the heap.
\<close>

section \<open>Definitions\<close>

record timeout_heap =
  idxs :: "string \<rightharpoonup> nat"
  hp :: "timeout_info list"

definition Len :: "timeout_heap \<Rightarrow> nat" where
  "Len h = length (hp h)"

definition Less :: "timeout_heap \<Rightarrow> nat \<Rightarrow> nat \<Rightarrow> bool" where
  "Less h i j = (Deadline (hp h ! i) < Deadline (hp h ! j))"

definition Swap :: "timeout_heap \<Rightarrow> nat \<Rightarrow> nat \<Rightarrow> timeout_heap" where
  "Swap h i j =
     (let xs = list_swap (hp h) i j
      in h\<lparr>hp := xs, idxs := (idxs h)(ID (xs ! i) \<mapsto> i, ID (xs ! j) \<mapsto> j)\<rparr>)"

definition heap_push :: "timeout_heap \<Rightarrow> timeout_info \<Rightarrow> timeout_heap" where
  "heap_push h info =
     (let n = length (hp h)
      in h\<lparr>idxs := (idxs h)(ID info \<mapsto> n), hp := hp h @ [info]\<rparr>)"

definition heap_pop :: "timeout_heap \<Rightarrow> timeout_info \<times> timeout_heap" where
  "heap_pop h =
     (let old = hp h; n = length old; info = old ! (n - 1)
      in (info, h\<lparr>idxs := (idxs h)(ID info := None), hp := take (n - 1) old\<rparr>))"

text \<open>Sifting up: \<^verbatim>\<open>i := (j - 1) / 2\<close> truncates, so the parent of 0 is 0 as with \<open>nat\<close>
  subtraction.\<close>

definition parent :: "nat \<Rightarrow> nat" where
  "parent j = (j - 1) div 2"

function up :: "timeout_heap \<Rightarrow> nat \<Rightarrow> timeout_heap" where
  "up h j =
     (let i = parent j
      in if i = j \<or> \<not> Less h j i then h else up (Swap h i j) i)"
  by pat_completeness auto
termination
  by (relation "measure snd") (auto simp: parent_def)

definition least_child :: "timeout_heap \<Rightarrow> nat \<Rightarrow> nat \<Rightarrow> nat" where
  "least_child h i n =
     (let j1 = 2 * i + 1; j2 = j1 + 1 in if j2 < n \<and> Less h j2 j1 then j2 else j1)"

function down_loop :: "timeout_heap \<Rightarrow> nat \<Rightarrow> nat \<Rightarrow> timeout_heap \<times> nat" where
  "down_loop h i n =
     (if n \<le> 2 * i + 1 then (h, i)
      else let j = least_child h i n
           in if \<not> Less h j i then (h, i) else down_loop (Swap h i j) j n)"
  by pat_completeness auto
termination
  by (relation "measure (\<lambda>(h, i, n). n - i)") (auto simp: least_child_def Let_def)

declare up.simps [simp del] down_loop.simps [simp del]

definition down :: "timeout_heap \<Rightarrow> nat \<Rightarrow> nat \<Rightarrow> timeout_heap \<times> bool" where
  "down h i0 n = (let (h', i) = down_loop h i0 n in (h', i0 < i))"

definition Fix :: "timeout_heap \<Rightarrow> nat \<Rightarrow> timeout_heap" where
  "Fix h i = (let (h', moved) = down h i (Len h) in if moved then h' else up h' i)"

definition Push :: "timeout_heap \<Rightarrow> timeout_info \<Rightarrow> timeout_heap" where
  "Push h info = (let h' = heap_push h info in up h' (Len h' - 1))"

definition Pop :: "timeout_heap \<Rightarrow> (timeout_info \<times> timeout_heap) res" where
  "Pop h =
     (if Len h = 0 then Inl OutOfRange
      else let n = Len h - 1; (h', _) = down (Swap h 0 n) 0 n in Inr (heap_pop h'))"

definition Init :: "timeout_heap \<Rightarrow> timeout_heap" where
  "Init h = foldl (\<lambda>h i. fst (down h i (Len h))) h (rev [0..<Len h div 2])"

definition NewTimeoutHeap :: timeout_heap where
  "NewTimeoutHeap = Init \<lparr>idxs = Map.empty, hp = []\<rparr>"

definition Peek :: "timeout_heap \<Rightarrow> timeout_info option" where
  "Peek h = (if length (hp h) = 0 then None else Some (hp h ! 0))"

definition Upsert :: "timeout_heap \<Rightarrow> timeout_info \<Rightarrow> (timeout_heap \<times> bool) res" where
  "Upsert h info =
     (case idxs h (ID info) of
        Some idx \<Rightarrow>
          if \<not> idx < length (hp h) then Inl OutOfRange
          else if ID info \<noteq> ID (hp h ! idx) then Inl (Fatal ''Error looking up in heap!'')
          else Inr (Fix (h\<lparr>hp := (hp h)[idx := info]\<rparr>) idx, True)
      | None \<Rightarrow> Inr (Push h info, False))"

definition Exists :: "timeout_heap \<Rightarrow> timeout_info \<Rightarrow> bool" where
  "Exists h info = (idxs h (ID info) \<noteq> None)"

section \<open>The invariant\<close>

text \<open>The index and the heap agree: a key is stored exactly where its object stands.\<close>

definition idx_ok :: "timeout_heap \<Rightarrow> bool" where
  "idx_ok h \<longleftrightarrow> (\<forall>k i. idxs h k = Some i \<longleftrightarrow> i < length (hp h) \<and> ID (hp h ! i) = k)"

text \<open>\<open>ok_at xs k\<close>: the element at \<open>k\<close> is not before its parent.\<close>

definition ok_at :: "timeout_info list \<Rightarrow> nat \<Rightarrow> bool" where
  "ok_at xs k \<longleftrightarrow> Deadline (xs ! parent k) \<le> Deadline (xs ! k)"

definition heap_upto :: "nat \<Rightarrow> timeout_info list \<Rightarrow> bool" where
  "heap_upto n xs \<longleftrightarrow> (\<forall>k<n. ok_at xs k)"

definition heap_inv :: "timeout_heap \<Rightarrow> bool" where
  "heap_inv h \<longleftrightarrow> idx_ok h \<and> heap_upto (length (hp h)) (hp h)"

text \<open>What the heap stands for: a map from ids to objects.\<close>

definition objs :: "timeout_heap \<Rightarrow> string \<rightharpoonup> timeout_info" where
  "objs h k = map_option (\<lambda>i. hp h ! i) (idxs h k)"

text \<open>The order broken at one place only: at \<open>i\<close> against its parent and its children
  (\<open>gap\<close>), or only against its children (\<open>sink\<close>), or only against its parent
  (\<open>rise\<close>). In each case the children of \<open>i\<close> are not before the parent of \<open>i\<close>.\<close>

definition grand_ok :: "nat \<Rightarrow> timeout_info list \<Rightarrow> nat \<Rightarrow> bool" where
  "grand_ok n xs i \<longleftrightarrow>
     (\<forall>k<n. 0 < k \<longrightarrow> parent k = i \<longrightarrow> 0 < i \<longrightarrow>
        Deadline (xs ! parent i) \<le> Deadline (xs ! k))"

definition gap :: "nat \<Rightarrow> timeout_info list \<Rightarrow> nat \<Rightarrow> bool" where
  "gap n xs i \<longleftrightarrow>
     grand_ok n xs i \<and> (\<forall>k<n. 0 < k \<longrightarrow> k \<noteq> i \<longrightarrow> parent k \<noteq> i \<longrightarrow> ok_at xs k)"

definition sink :: "nat \<Rightarrow> timeout_info list \<Rightarrow> nat \<Rightarrow> bool" where
  "sink n xs i \<longleftrightarrow> grand_ok n xs i \<and> (\<forall>k<n. 0 < k \<longrightarrow> parent k \<noteq> i \<longrightarrow> ok_at xs k)"

definition rise :: "nat \<Rightarrow> timeout_info list \<Rightarrow> nat \<Rightarrow> bool" where
  "rise n xs i \<longleftrightarrow> grand_ok n xs i \<and> (\<forall>k<n. 0 < k \<longrightarrow> k \<noteq> i \<longrightarrow> ok_at xs k)"

lemmas order_defs = grand_ok_def gap_def sink_def rise_def ok_at_def heap_upto_def

section \<open>Index lemmas\<close>

lemma parent_le: "parent j \<le> j"
  unfolding parent_def by linarith

lemma parent_less: "0 < j \<Longrightarrow> parent j < j"
  unfolding parent_def by linarith

lemma parent_0 [simp]: "parent 0 = 0"
  by (simp add: parent_def)

lemma parent_eq_self: "parent j = j \<longleftrightarrow> j = 0"
  unfolding parent_def by linarith

lemma parent_child [simp]: "parent (2 * i + 1) = i" "parent (2 * i + 2) = i" "parent (Suc (2 * i)) = i"
  by (simp_all add: parent_def)

lemma child_cases: "parent k = i \<Longrightarrow> 0 < k \<Longrightarrow> k = 2 * i + 1 \<or> k = 2 * i + 2"
  unfolding parent_def by linarith

lemma idx_okD: "idx_ok h \<Longrightarrow> i < length (hp h) \<Longrightarrow> idxs h (ID (hp h ! i)) = Some i"
  by (auto simp: idx_ok_def)

lemma idx_ok_inj:
  "idx_ok h \<Longrightarrow> i < length (hp h) \<Longrightarrow> j < length (hp h) \<Longrightarrow> ID (hp h ! i) = ID (hp h ! j) \<Longrightarrow> i = j"
  by (metis idx_okD option.inject)

lemma objs_Some: "idx_ok h \<Longrightarrow> objs h k = Some x \<longleftrightarrow> x \<in> set (hp h) \<and> ID x = k"
  by (fastforce simp: objs_def idx_ok_def in_set_conv_nth)

lemma objs_cong:
  assumes "idx_ok h" "idx_ok h'" "set (hp h') = set (hp h)"
  shows "objs h' = objs h"
  using assms by (auto intro!: map_eqI_Some simp: objs_Some)

lemma ran_objs: "idx_ok h \<Longrightarrow> ran (objs h) = set (hp h)"
  by (auto simp: ran_def objs_Some)

lemma dom_objs: "dom (objs h) = dom (idxs h)"
  by (auto simp: objs_def dom_def)

lemma hp_Swap [simp]: "hp (Swap h i j) = list_swap (hp h) i j"
  by (simp add: Swap_def Let_def)

lemma idx_ok_Swap:
  assumes ok: "idx_ok h" and i: "i < length (hp h)" and j: "j < length (hp h)"
  shows "idx_ok (Swap h i j)"
  unfolding idx_ok_def
proof (intro allI)
  fix k m
  let ?xs = "list_swap (hp h) i j"
  have inj: "a < length (hp h) \<Longrightarrow> b < length (hp h) \<Longrightarrow> ID (hp h ! a) = ID (hp h ! b) \<longleftrightarrow> a = b"
    for a b using ok idx_ok_inj by blast
  have new: "idxs (Swap h i j) k =
      (if k = ID (hp h ! i) then Some j else if k = ID (hp h ! j) then Some i else idxs h k)"
    using i j by (auto simp: Swap_def Let_def nth_list_swap)
  show "idxs (Swap h i j) k = Some m
      \<longleftrightarrow> m < length (hp (Swap h i j)) \<and> ID (hp (Swap h i j) ! m) = k"
    unfolding new using ok i j inj by (auto simp: nth_list_swap idx_ok_def split: if_splits)
qed

section \<open>Sifting keeps the objects and restores the order\<close>

lemma up_frame:
  "j < length (hp h) \<Longrightarrow> idx_ok h \<Longrightarrow>
   idx_ok (up h j) \<and> set (hp (up h j)) = set (hp h) \<and> length (hp (up h j)) = length (hp h)"
proof (induction h j rule: up.induct)
  case (1 h j)
  show ?case
  proof (cases "parent j = j \<or> \<not> Less h j (parent j)")
    case True
    with 1 show ?thesis by (simp add: up.simps [of h j])
  next
    case False
    from "1.prems" have i: "parent j < length (hp h)" using parent_le le_less_trans by blast
    with 1 False show ?thesis
      by (simp add: up.simps [of h j] Let_def idx_ok_Swap)
  qed
qed

lemma rise_Swap:
  assumes rise: "rise n xs j" and n: "n \<le> length xs" "j < n"
    and less: "Deadline (xs ! j) < Deadline (xs ! parent j)"
  shows "rise n (list_swap xs (parent j) j) (parent j)"
proof -
  define i where "i = parent j"
  from less have j0: "0 < j" by (cases j) auto
  with i_def have ij: "i < j" by (simp add: parent_less)
  note sw = nth_list_swap [of i xs j]
  have ok: "ok_at (list_swap xs i j) k" if k: "k < n" "0 < k" "k \<noteq> i" for k
  proof -
    consider "k = j" | "k \<noteq> j" "parent k = j" | "k \<noteq> j" "parent k = i"
      | "k \<noteq> j" "parent k \<noteq> j" "parent k \<noteq> i" by blast
    then show ?thesis
    proof cases
      case 1
      with less ij n k show ?thesis by (simp add: ok_at_def sw i_def [symmetric])
    next
      case 2
      with rise k j0 have "Deadline (xs ! i) \<le> Deadline (xs ! k)"
        by (auto simp: rise_def grand_ok_def i_def)
      with 2 ij n k show ?thesis by (simp add: ok_at_def sw)
    next
      case 3
      with rise k have "Deadline (xs ! i) \<le> Deadline (xs ! k)"
        by (auto simp: rise_def ok_at_def)
      with less 3 ij n k show ?thesis by (simp add: ok_at_def sw i_def [symmetric])
    next
      case 4
      with rise k have "ok_at xs k" by (auto simp: rise_def)
      moreover have "parent k < length xs" using parent_le [of k] k n by linarith
      ultimately show ?thesis using 4 ij n k by (simp add: ok_at_def sw)
    qed
  qed
  have "Deadline (list_swap xs i j ! parent i) \<le> Deadline (list_swap xs i j ! k)"
    if k: "k < n" "0 < k" "parent k = i" "0 < i" for k
  proof -
    have ii: "parent i < i" using k by (simp add: parent_less)
    have up: "Deadline (xs ! parent i) \<le> Deadline (xs ! i)"
      using rise k ij n by (auto simp: rise_def ok_at_def)
    have "k = j \<or> Deadline (xs ! i) \<le> Deadline (xs ! k)"
      using rise k by (auto simp: rise_def ok_at_def)
    with up ii ij n k show ?thesis by (auto simp: sw)
  qed
  with ok show ?thesis
    by (simp add: rise_def grand_ok_def i_def)
qed

lemma rise_done:
  assumes "rise n xs j" "\<not> Deadline (xs ! j) < Deadline (xs ! parent j)"
  shows "heap_upto n xs"
    unfolding heap_upto_def
proof (intro allI impI)
  fix k assume "k < n"
  with assms show "ok_at xs k"
    by (cases "k = 0 \<or> k = j") (auto simp: rise_def ok_at_def)
qed

lemma up_heap:
  "j < length (hp h) \<Longrightarrow> rise (length (hp h)) (hp h) j \<Longrightarrow>
   heap_upto (length (hp h)) (hp (up h j))"
proof (induction h j rule: up.induct)
  case (1 h j)
  show ?case
  proof (cases "parent j = j \<or> \<not> Less h j (parent j)")
    case True
    then have "\<not> Deadline (hp h ! j) < Deadline (hp h ! parent j)"
      by (auto simp: Less_def parent_eq_self)
    with True rise_done "1.prems" show ?thesis by (simp add: up.simps [of h j])
  next
    case False
    with "1.prems" have "rise (length (hp h)) (hp (Swap h (parent j) j)) (parent j)"
      by (simp add: rise_Swap Less_def)
    moreover have "parent j < length (hp h)" using "1.prems" parent_le le_less_trans by blast
    ultimately show ?thesis
      using 1 False by (simp add: up.simps [of h j] Let_def)
  qed
qed

lemma least_child_bounds:
  "2 * i + 1 < n \<Longrightarrow> i < least_child h i n \<and> least_child h i n < n \<and> parent (least_child h i n) = i"
  by (auto simp: least_child_def Let_def parent_def)

lemma least_child_least:
  assumes "2 * i + 1 < n" "0 < k" "parent k = i" "k < n"
  shows "Deadline (hp h ! least_child h i n) \<le> Deadline (hp h ! k)"
  using child_cases [OF assms(3,2)] assms by (auto simp: least_child_def Let_def Less_def)

lemma down_loop_stop:
  "n \<le> 2 * i + 1 \<or> \<not> Less h (least_child h i n) i \<Longrightarrow> down_loop h i n = (h, i)"
  by (auto simp: down_loop.simps [of h i n] Let_def)

lemma down_loop_step:
  "\<not> (n \<le> 2 * i + 1 \<or> \<not> Less h (least_child h i n) i) \<Longrightarrow>
   down_loop h i n = down_loop (Swap h i (least_child h i n)) (least_child h i n) n"
  by (simp add: down_loop.simps [of h i n] Let_def)

lemma down_loop_cases [case_names stop step]:
  assumes "\<And>h i n. n \<le> 2 * i + 1 \<or> \<not> Less h (least_child h i n) i \<Longrightarrow> P h i n"
    and "\<And>h i n. \<not> (n \<le> 2 * i + 1 \<or> \<not> Less h (least_child h i n) i) \<Longrightarrow>
      P (Swap h i (least_child h i n)) (least_child h i n) n \<Longrightarrow> P h i n"
  shows "P h i n"
  by (induction h i n rule: down_loop.induct) (metis assms)

lemma down_loop_frame:
  "i < n \<Longrightarrow> n \<le> length (hp h) \<Longrightarrow> idx_ok h \<Longrightarrow>
   idx_ok (fst (down_loop h i n)) \<and> set (hp (fst (down_loop h i n))) = set (hp h) \<and>
   length (hp (fst (down_loop h i n))) = length (hp h) \<and>
   (\<forall>k. n \<le> k \<longrightarrow> k < length (hp h) \<longrightarrow> hp (fst (down_loop h i n)) ! k = hp h ! k) \<and>
   i \<le> snd (down_loop h i n)"
proof (induction h i n rule: down_loop_cases)
  case (stop h i n)
  then show ?case by (simp add: down_loop_stop)
next
  case (step h i n)
  from step.hyps have "i < least_child h i n" "least_child h i n < n"
    using least_child_bounds by auto
  with step show ?case by (auto simp: down_loop_step idx_ok_Swap nth_list_swap)
qed

text \<open>Swapping with the least child moves the gap down; the place left behind is in order.\<close>

lemma sink_Swap:
  assumes gap: "gap n (hp h) i" and n: "n \<le> length (hp h)" "i < n" "2 * i + 1 < n"
    and less: "Less h (least_child h i n) i"
  shows "sink n (list_swap (hp h) i (least_child h i n)) (least_child h i n)"
proof -
  define j where "j = least_child h i n"
  let ?xs = "hp h"
  have j: "i < j" "j < n" "parent j = i" using least_child_bounds [OF n(3), of h] by (auto simp: j_def)
  have least: "Deadline (?xs ! j) \<le> Deadline (?xs ! k)" if "0 < k" "parent k = i" "k < n" for k
    using least_child_least [OF n(3) that] by (simp add: j_def)
  have lt: "Deadline (?xs ! j) < Deadline (?xs ! i)" using less by (simp add: Less_def j_def)
  note sw = nth_list_swap [of i ?xs j]
  have ok: "ok_at (list_swap ?xs i j) k" if k: "k < n" "0 < k" "parent k \<noteq> j" for k
  proof -
    have pk: "parent k < k" "k < length ?xs" "j < length ?xs" "i < length ?xs"
      using k j n parent_less by auto
    consider "k = i" | "k = j" | "k \<noteq> i" "k \<noteq> j" "parent k = i"
      | "k \<noteq> i" "k \<noteq> j" "parent k \<noteq> i" by blast
    then show ?thesis
    proof cases
      case 1
      with gap j k have "Deadline (?xs ! parent i) \<le> Deadline (?xs ! j)"
        by (auto simp: gap_def grand_ok_def)
      with 1 pk k show ?thesis by (auto simp: ok_at_def sw)
    next
      case 2
      with lt pk j show ?thesis by (auto simp: ok_at_def sw)
    next
      case 3
      with least k pk j show ?thesis by (auto simp: ok_at_def sw)
    next
      case 4
      with gap k have "ok_at ?xs k" by (auto simp: gap_def)
      with 4 pk k show ?thesis by (auto simp: ok_at_def sw)
    qed
  qed
  have "Deadline (list_swap ?xs i j ! parent j) \<le> Deadline (list_swap ?xs i j ! k)"
    if k: "k < n" "0 < k" "parent k = j" for k
  proof -
    have "j < k" using k parent_less by blast
    with gap k j have "ok_at ?xs k" by (auto simp: gap_def)
    with k j n \<open>j < k\<close> show ?thesis by (auto simp: ok_at_def sw)
  qed
  with ok show ?thesis by (simp add: sink_def grand_ok_def j_def)
qed

lemma sink_gap: "sink n xs i \<Longrightarrow> gap n xs i"
  by (auto simp: sink_def gap_def)

lemma sink_done:
  assumes sink: "sink n (hp h) i" and stop: "n \<le> 2 * i + 1 \<or> \<not> Less h (least_child h i n) i"
  shows "heap_upto n (hp h)"
  unfolding heap_upto_def
proof (intro allI impI)
  fix k assume k: "k < n"
  consider "k = 0" | "0 < k" "parent k \<noteq> i" | "0 < k" "parent k = i" by blast
  then show "ok_at (hp h) k"
  proof cases
    case 3
    with k child_cases [of k i] have i: "2 * i + 1 < n" by auto
    from least_child_least [OF i 3 k, of h] i 3 stop show ?thesis
      by (simp add: ok_at_def Less_def)
  qed (use sink k in \<open>auto simp: ok_at_def sink_def\<close>)
qed

lemma down_loop_heap:
  "i < n \<Longrightarrow> n \<le> length (hp h) \<Longrightarrow> sink n (hp h) i \<Longrightarrow> heap_upto n (hp (fst (down_loop h i n)))"
proof (induction h i n rule: down_loop_cases)
  case (stop h i n)
  then show ?case by (simp add: down_loop_stop sink_done)
next
  case (step h i n)
  then have "sink n (hp (Swap h i (least_child h i n))) (least_child h i n)"
    by (simp add: sink_Swap sink_gap)
  with step least_child_bounds [of i n h] show ?case by (simp add: down_loop_step)
qed

section \<open>The operations\<close>

lemma rise_of_gap:
  assumes gap: "gap n (hp h) i" and stop: "n \<le> 2 * i + 1 \<or> \<not> Less h (least_child h i n) i"
  shows "rise n (hp h) i"
proof -
  have "ok_at (hp h) k" if k: "k < n" "0 < k" "k \<noteq> i" for k
  proof (cases "parent k = i")
    case True
    with k child_cases [of k i] have i: "2 * i + 1 < n" by auto
    from least_child_least [OF i k(2) True k(1), of h] i True stop show ?thesis
      by (simp add: ok_at_def Less_def)
  qed (use gap k in \<open>auto simp: gap_def\<close>)
  with gap show ?thesis by (auto simp: rise_def gap_def)
qed

lemma down_loop_moved:
  assumes "i < n" "n \<le> length (hp h)" "idx_ok h"
  shows "i < snd (down_loop h i n) \<longleftrightarrow> \<not> (n \<le> 2 * i + 1 \<or> \<not> Less h (least_child h i n) i)"
proof (cases "n \<le> 2 * i + 1 \<or> \<not> Less h (least_child h i n) i")
  case True
  then show ?thesis by (simp add: down_loop_stop)
next
  case False
  then have c: "i < least_child h i n" "least_child h i n < n"
    using least_child_bounds by auto
  with assms have "least_child h i n \<le> snd (down_loop (Swap h i (least_child h i n)) (least_child h i n) n)"
    by (simp add: down_loop_frame idx_ok_Swap)
  with False c show ?thesis by (simp add: down_loop_step)
qed

lemma Fix_correct:
  assumes i: "i < length (hp h)" and ok: "idx_ok h" and gap: "gap (length (hp h)) (hp h) i"
  shows "heap_inv (Fix h i)" and "objs (Fix h i) = objs h"
proof -
  let ?n = "length (hp h)"
  note frame = down_loop_frame [OF i order_refl ok]
  have "idx_ok (Fix h i) \<and> set (hp (Fix h i)) = set (hp h) \<and>
      length (hp (Fix h i)) = ?n \<and> heap_upto ?n (hp (Fix h i))"
  proof (cases "?n \<le> 2 * i + 1 \<or> \<not> Less h (least_child h i ?n) i")
    case True
    then have "Fix h i = up h i"
      by (simp add: Fix_def down_def Len_def down_loop_stop)
    with up_frame [OF i ok] up_heap [OF i rise_of_gap [OF gap True]] show ?thesis by simp
  next
    case False
    then have fix_eq: "Fix h i = fst (down_loop h i ?n)"
      using down_loop_moved [OF i order_refl ok]
      by (simp add: Fix_def down_def Len_def Let_def split_beta)
    from False have c: "least_child h i ?n < ?n" using least_child_bounds by auto
    from False sink_Swap [OF gap order_refl i]
    have "sink ?n (hp (Swap h i (least_child h i ?n))) (least_child h i ?n)" by simp
    with c have "heap_upto ?n (hp (fst (down_loop h i ?n)))"
      using down_loop_heap by (simp add: down_loop_step [OF False])
    with frame fix_eq show ?thesis by simp
  qed
  then show "heap_inv (Fix h i)" "objs (Fix h i) = objs h"
    using ok by (auto simp: heap_inv_def intro!: objs_cong)
qed

lemma gap_update: "heap_upto n xs \<Longrightarrow> n \<le> length xs \<Longrightarrow> gap n (xs[i := x]) i"
  unfolding gap_def
proof (intro conjI allI impI)
  assume h: "heap_upto n xs" "n \<le> length xs"
  show "grand_ok n (xs[i := x]) i"
    unfolding grand_ok_def
  proof (intro allI impI)
    fix k assume k: "k < n" "0 < k" "parent k = i" "0 < i"
    then have lt: "i < k" "parent i < i" using parent_less by auto
    have "ok_at xs k" "ok_at xs i" using h k lt by (auto simp: heap_upto_def)
    with k lt show "Deadline (xs[i := x] ! parent i) \<le> Deadline (xs[i := x] ! k)"
      by (simp add: ok_at_def)
  qed
qed (auto simp: heap_upto_def ok_at_def)

lemma Peek_min:
  assumes "heap_inv h" "objs h k = Some x"
  shows "\<exists>y. Peek h = Some y \<and> objs h (ID y) = Some y \<and> Deadline y \<le> Deadline x"
proof -
  from assms obtain i where i: "i < length (hp h)" "x = hp h ! i"
    by (auto simp: heap_inv_def objs_Some in_set_conv_nth)
  have "Deadline (hp h ! 0) \<le> Deadline (hp h ! m)" if "m < length (hp h)" for m
    using that
  proof (induction m rule: less_induct)
    case (less m)
    show ?case
    proof (cases "m = 0")
      case False
      with less have "Deadline (hp h ! 0) \<le> Deadline (hp h ! parent m)"
        using parent_less [of m] by simp
      also from less.prems assms(1) have "\<dots> \<le> Deadline (hp h ! m)"
        by (auto simp: heap_inv_def heap_upto_def ok_at_def)
      finally show ?thesis .
    qed simp
  qed
  with i assms(1) show ?thesis
    by (auto simp: Peek_def heap_inv_def objs_Some)
qed

lemma Peek_None: "heap_inv h \<Longrightarrow> Peek h = None \<longleftrightarrow> objs h = Map.empty"
proof -
  assume "heap_inv h"
  then have "ran (objs h) = set (hp h)" by (simp add: heap_inv_def ran_objs)
  then show ?thesis by (simp add: Peek_def map_empty_iff_ran)
qed

lemma Push_correct:
  assumes inv: "heap_inv h" and new: "idxs h (ID x) = None"
  shows "heap_inv (Push h x)" and "objs (Push h x) = (objs h)(ID x \<mapsto> x)"
proof -
  let ?g = "heap_push h x" and ?n = "length (hp h)"
  have g: "hp ?g = hp h @ [x]" by (simp add: heap_push_def Let_def)
  have notin: "\<And>i. i < ?n \<Longrightarrow> ID (hp h ! i) \<noteq> ID x"
    using inv new idx_okD by (fastforce simp: heap_inv_def)
  have ok: "idx_ok ?g"
    using inv notin by (auto simp: heap_inv_def idx_ok_def heap_push_def Let_def nth_append
        less_Suc_eq split: if_splits)
  have rise: "rise (Suc ?n) (hp ?g) ?n"
    unfolding rise_def
  proof (intro conjI allI impI)
    show "grand_ok (Suc ?n) (hp ?g) ?n"
      by (auto simp: grand_ok_def dest!: child_cases)
    fix k assume k: "k < Suc ?n" "0 < k" "k \<noteq> ?n"
    with parent_less [of k] inv show "ok_at (hp ?g) k"
      by (auto simp: g heap_inv_def heap_upto_def ok_at_def nth_append)
  qed
  have P: "Push h x = up ?g ?n" by (simp add: Push_def Len_def g)
  have r: "idx_ok (Push h x) \<and> set (hp (Push h x)) = insert x (set (hp h)) \<and>
      length (hp (Push h x)) = Suc ?n \<and> heap_upto (Suc ?n) (hp (Push h x))"
    using up_frame [of ?n ?g] up_heap [of ?n ?g] ok rise by (simp add: P g)
  then show "heap_inv (Push h x)" by (simp add: heap_inv_def)
  show "objs (Push h x) = (objs h)(ID x \<mapsto> x)"
  proof (rule map_eqI_Some)
    fix k y
    show "objs (Push h x) k = Some y \<longleftrightarrow> ((objs h)(ID x \<mapsto> x)) k = Some y"
      using r inv notin by (auto simp: objs_Some heap_inv_def in_set_conv_nth)
  qed
qed

lemma sink_root:
  assumes "heap_upto (Suc n) xs" "length xs = Suc n"
  shows "sink n (list_swap xs 0 n) 0"
  unfolding sink_def grand_ok_def
proof (intro conjI allI impI)
  fix k assume k: "k < n" "0 < k" "parent k \<noteq> 0"
  with parent_less [of k] have "parent k < n" by simp
  with assms k show "ok_at (list_swap xs 0 n) k"
    by (auto simp: heap_upto_def ok_at_def nth_list_swap)
qed simp

lemma Pop_correct:
  assumes inv: "heap_inv h" and peek: "Peek h = Some x"
  shows "\<exists>h'. Pop h = Inr (x, h') \<and> heap_inv h' \<and> objs h' = (objs h)(ID x := None)"
proof -
  from peek obtain n where n: "length (hp h) = Suc n" and x: "x = hp h ! 0"
    by (cases "hp h") (auto simp: Peek_def split: if_splits)
  define g where "g = fst (down_loop (Swap h 0 n) 0 n)"
  have ok: "idx_ok h" "heap_upto (Suc n) (hp h)" using inv n by (auto simp: heap_inv_def)
  have oks: "idx_ok (Swap h 0 n)" using ok n by (simp add: idx_ok_Swap)
  have g: "idx_ok g \<and> set (hp g) = set (hp h) \<and> length (hp g) = Suc n \<and> hp g ! n = x \<and>
      heap_upto n (hp g)"
  proof (cases "n = 0")
    case True
    with n oks x show ?thesis
      by (simp add: g_def down_loop_stop heap_upto_def nth_list_swap)
  next
    case False
    with n oks x sink_root [OF ok(2) n] show ?thesis
      using down_loop_frame [of 0 n "Swap h 0 n"] down_loop_heap [of 0 n "Swap h 0 n"]
      by (auto simp: g_def nth_list_swap)
  qed
  define h' where "h' = snd (heap_pop g)"
  have h': "h' = g\<lparr>idxs := (idxs g)(ID x := None), hp := take n (hp g)\<rparr>"
    using g by (simp add: h'_def heap_pop_def Let_def)
  have pop: "Pop h = Inr (x, h')"
    using n g by (simp add: Pop_def Len_def down_def Let_def split_beta flip: g_def h'_def)
      (simp add: h' heap_pop_def Let_def)
  have ok': "idx_ok h'"
    unfolding idx_ok_def
  proof (intro allI)
    fix k i
    have "i < Suc n \<Longrightarrow> ID (hp g ! i) = ID x \<longleftrightarrow> i = n"
      using g idx_ok_inj [of g i n] by auto
    then show "idxs h' k = Some i \<longleftrightarrow> i < length (hp h') \<and> ID (hp h' ! i) = k"
      using g by (auto simp: h' idx_ok_def less_Suc_eq)
  qed
  have "heap_inv h'"
    using g ok' le_less_trans [OF parent_le]
    by (auto simp: heap_inv_def heap_upto_def ok_at_def h')
  moreover have "objs h' = (objs h)(ID x := None)"
  proof (rule map_eqI_Some)
    fix k y
    have "hp g = take n (hp g) @ [x]"
      using g take_Suc_conv_app_nth [of n "hp g"] by simp
    then have "set (hp g) = insert x (set (take n (hp g)))"
      by (metis rotate1.simps(2) set_rotate1 list.simps(15))
    then have "set (hp h) = insert x (set (take n (hp g)))" using g by simp
    then have mem: "z \<in> set (hp h) \<longleftrightarrow> z = x \<or> z \<in> set (hp h')" for z
      by (simp add: h')
    have "ID (hp g ! i) \<noteq> ID x" if "i < n" for i
      using that g idx_ok_inj [of g i n] by auto
    then have new: "z \<in> set (hp h') \<Longrightarrow> ID z \<noteq> ID x" for z
      using g by (auto simp: in_set_conv_nth h')
    show "objs h' k = Some y \<longleftrightarrow> ((objs h)(ID x := None)) k = Some y"
      using mem [of y] new [of y] by (auto simp: objs_Some [OF ok(1)] objs_Some [OF ok'])
  qed
  ultimately show ?thesis using pop by blast
qed

lemma Upsert_correct:
  assumes inv: "heap_inv h"
  shows "\<exists>h'. Upsert h x = Inr (h', objs h (ID x) \<noteq> None) \<and> heap_inv h' \<and>
    objs h' = (objs h)(ID x \<mapsto> x)"
proof (cases "idxs h (ID x)")
  case None
  then show ?thesis
    using Push_correct [OF inv None] by (simp add: Upsert_def objs_def)
next
  case (Some i)
  with inv have i: "i < length (hp h)" "ID (hp h ! i) = ID x"
    by (auto simp: heap_inv_def idx_ok_def)
  define g where "g = h\<lparr>hp := (hp h)[i := x]\<rparr>"
  have ok: "idx_ok g"
    using inv i by (auto simp: heap_inv_def idx_ok_def g_def nth_list_update)
  have gap: "gap (length (hp g)) (hp g) i"
    using inv by (simp add: g_def heap_inv_def gap_update)
  have "objs g = (objs h)(ID x \<mapsto> x)"
  proof (rule map_eqI_Some)
    fix k y
    have uniq: "j < length (hp h) \<Longrightarrow> ID (hp h ! j) = ID x \<longleftrightarrow> j = i" for j
      using inv i idx_ok_inj [of h j i] by (auto simp: heap_inv_def)
    have "set (hp g) = insert x {z \<in> set (hp h). ID z \<noteq> ID x}"
    proof (intro equalityI subsetI)
      fix z assume "z \<in> set (hp g)"
      then obtain j where "j < length (hp h)" "z = (if j = i then x else hp h ! j)"
        by (auto simp: g_def in_set_conv_nth nth_list_update)
      then show "z \<in> insert x {z \<in> set (hp h). ID z \<noteq> ID x}"
        using uniq by auto
    next
      fix z assume "z \<in> insert x {z \<in> set (hp h). ID z \<noteq> ID x}"
      then show "z \<in> set (hp g)"
        using i by (auto simp: g_def set_update_memI in_set_conv_nth)
          (metis nth_list_update_neq)
    qed
    then show "objs g k = Some y \<longleftrightarrow> ((objs h)(ID x \<mapsto> x)) k = Some y"
      using inv ok by (auto simp: objs_Some heap_inv_def)
  qed
  with Fix_correct [OF _ ok gap] i Some show ?thesis
    by (simp add: Upsert_def objs_def g_def)
qed

lemma heap_inv_empty: "heap_inv NewTimeoutHeap" and objs_empty: "objs NewTimeoutHeap = Map.empty"
  by (auto simp: NewTimeoutHeap_def Init_def Len_def heap_inv_def idx_ok_def heap_upto_def objs_def)

lemma Exists_objs: "Exists h x \<longleftrightarrow> objs h (ID x) \<noteq> None"
  by (simp add: Exists_def objs_def)

section \<open>The interface of a timeout queue\<close>

text \<open>
  The contract the timeout stages rely on. \<open>lookup\<close> is the queue's contents as a map;
  \<open>peek\<close> is an entry with a least deadline, \<open>pop\<close> removes the entry \<open>peek\<close>
  shows, \<open>upsert\<close> stores an entry under its key and tells whether the key was there.
\<close>

locale timeout_queue =
  fixes invar :: "'q \<Rightarrow> bool"
    and lookup :: "'q \<Rightarrow> 'k \<rightharpoonup> 'x"
    and key :: "'x \<Rightarrow> 'k"
    and deadline :: "'x \<Rightarrow> time"
    and peek :: "'q \<Rightarrow> 'x option"
    and pop :: "'q \<Rightarrow> ('x \<times> 'q) res"
    and upsert :: "'q \<Rightarrow> 'x \<Rightarrow> ('q \<times> bool) res"
  assumes finite_lookup: "invar q \<Longrightarrow> finite (dom (lookup q))"
    and lookup_key: "invar q \<Longrightarrow> lookup q k = Some x \<Longrightarrow> key x = k"
    and peek_None: "invar q \<Longrightarrow> peek q = None \<longleftrightarrow> lookup q = Map.empty"
    and peek_lookup: "invar q \<Longrightarrow> peek q = Some y \<Longrightarrow> lookup q (key y) = Some y"
    and peek_least: "invar q \<Longrightarrow> peek q = Some y \<Longrightarrow> lookup q k = Some x \<Longrightarrow> deadline y \<le> deadline x"
    and pop_peek: "invar q \<Longrightarrow> peek q = Some x \<Longrightarrow>
      \<exists>q'. pop q = Inr (x, q') \<and> invar q' \<and> lookup q' = (lookup q)(key x := None)"
    and upsert_lookup: "invar q \<Longrightarrow>
      \<exists>q'. upsert q x = Inr (q', lookup q (key x) \<noteq> None) \<and> invar q' \<and>
        lookup q' = (lookup q)(key x \<mapsto> x)"

text \<open>
  What draining means for the contents, with the clock read once per turn: \<open>due i d\<close> says
  whether the deadline \<open>d\<close> has come at the \<open>i\<close>-th reading. The entries \<open>xs\<close> leave in
  the order of their deadlines, each one due when it left, everything else stays, and nothing
  that stays is due at the last reading.
\<close>

definition drained ::
  "('x \<Rightarrow> 'k) \<Rightarrow> ('x \<Rightarrow> time) \<Rightarrow> (nat \<Rightarrow> time \<Rightarrow> bool) \<Rightarrow> nat \<Rightarrow> ('k \<rightharpoonup> 'x) \<Rightarrow> 'x list \<Rightarrow> ('k \<rightharpoonup> 'x) \<Rightarrow> bool"
where
  "drained key deadline due n m xs m' \<longleftrightarrow>
     sorted (map deadline xs) \<and> distinct (map key xs) \<and> (\<forall>x\<in>set xs. m (key x) = Some x) \<and>
     m' = m |` (- (key ` set xs)) \<and> (\<forall>i<length xs. due (n + i) (deadline (xs ! i))) \<and>
     (\<forall>k x. m' k = Some x \<longrightarrow> \<not> due (n + length xs) (deadline x))"

locale drain_loop = timeout_queue +
  fixes due :: "nat \<Rightarrow> time \<Rightarrow> bool"
    and emit :: "'b \<Rightarrow> 'o res"
    and drain :: "nat \<Rightarrow> 'a \<Rightarrow> ('o list \<times> 'a) res"
  assumes due_down: "due n d \<Longrightarrow> d' \<le> d \<Longrightarrow> due n d'"
    and drain_unfold: "drain n q =
      (case peek q of
         None \<Rightarrow> Inr ([], q)
       | Some x \<Rightarrow>
           if \<not> due n (deadline x) then Inr ([], q)
           else rbind (pop q) (\<lambda>(_, q'). rbind (emit x) (\<lambda>out.
                  rbind (drain (Suc n) q') (\<lambda>(outs, q''). Inr (out # outs, q'')))))"
begin

lemma drained_Nil:
  assumes "invar q" "\<And>x. peek q = Some x \<Longrightarrow> \<not> due n (deadline x)"
  shows "drained key deadline due n (lookup q) [] (lookup q)"
proof -
  have "\<not> due n (deadline x)" if "lookup q k = Some x" for k x
  proof -
    from that assms(1) obtain y where "peek q = Some y" using peek_None by fastforce
    with assms that show ?thesis using peek_least due_down by blast
  qed
  then show ?thesis by (simp add: drained_def restrict_map_def)
qed

lemma drained_Cons:
  assumes "invar q" "peek q = Some x" "due n (deadline x)"
    and "drained key deadline due (Suc n) ((lookup q)(key x := None)) xs m'"
  shows "drained key deadline due n (lookup q) (x # xs) m'"
proof -
  note D = assms(4) [unfolded drained_def]
  have mem: "lookup q (key y) = Some y \<and> key y \<noteq> key x" if "y \<in> set xs" for y
    using D that by (metis fun_upd_apply option.distinct(1))
  then have "sorted (map deadline (x # xs))"
    using D assms(1,2) peek_least by fastforce
  moreover have "m' = lookup q |` (- (key ` set (x # xs)))"
    using D by (auto simp: fun_eq_iff restrict_map_def)
  moreover have "\<forall>i<length (x # xs). due (n + i) (deadline ((x # xs) ! i))"
    using D assms(3) by (auto simp: nth_Cons split: nat.split)
  moreover have "distinct (map key (x # xs))"
    using D mem by (auto simp: image_iff) metis
  moreover have "\<forall>y\<in>set (x # xs). lookup q (key y) = Some y"
    using mem peek_lookup [OF assms(1,2)] by simp
  moreover have "\<forall>k y. m' k = Some y \<longrightarrow> \<not> due (n + length (x # xs)) (deadline y)"
    using D by simp
  ultimately show ?thesis
    unfolding drained_def by blast
qed

lemma drain_correct:
  assumes "invar q" and "\<And>k x. lookup q k = Some x \<Longrightarrow> \<exists>out. emit x = Inr out"
  shows "\<exists>outs q' xs. drain n q = Inr (outs, q') \<and> invar q' \<and> map emit xs = map Inr outs \<and>
    drained key deadline due n (lookup q) xs (lookup q')"
  using assms
proof (induction "card (dom (lookup q))" arbitrary: q n rule: less_induct)
  case less
  show ?case
  proof (cases "\<exists>x. peek q = Some x \<and> due n (deadline x)")
    case False
    then have "drain n q = Inr ([], q)"
      by (subst drain_unfold) (auto split: option.split)
    moreover have "drained key deadline due n (lookup q) [] (lookup q)"
      using False less.prems(1) drained_Nil by blast
    ultimately show ?thesis using less.prems(1) by auto
  next
    case True
    then obtain x where x: "peek q = Some x" "due n (deadline x)" by blast
    with less.prems(1) obtain q1 where q1: "pop q = Inr (x, q1)" "invar q1"
      "lookup q1 = (lookup q)(key x := None)" using pop_peek by blast
    have lx: "lookup q (key x) = Some x" using less.prems(1) x(1) peek_lookup by blast
    with less.prems(2) obtain out where out: "emit x = Inr out" by blast
    have "card (dom (lookup q1)) < card (dom (lookup q))"
      using lx finite_lookup [OF less.prems(1)] by (auto simp: q1(3) intro: psubset_card_mono)
    moreover have "\<exists>out. emit y = Inr out" if "lookup q1 k = Some y" for k y
      using that less.prems(2) by (auto simp: q1(3) split: if_splits)
    ultimately obtain outs q' xs where IH: "drain (Suc n) q1 = Inr (outs, q')" "invar q'"
      "map emit xs = map Inr outs" "drained key deadline due (Suc n) (lookup q1) xs (lookup q')"
      using less.hyps q1(2) by meson
    have "drain n q = Inr (out # outs, q')"
      by (subst drain_unfold) (simp add: x q1(1) out IH(1))
    moreover have "drained key deadline due n (lookup q) (x # xs) (lookup q')"
      using drained_Cons less.prems(1) x IH(4) q1(3) by simp
    ultimately show ?thesis
      using IH(2,3) out by (metis list.simps(9))
  qed
qed

end

lemma objs_finite: "idx_ok h \<Longrightarrow> finite (dom (objs h))"
proof -
  assume "idx_ok h"
  then have "dom (objs h) \<subseteq> ID ` set (hp h)" by (auto simp: objs_Some)
  then show ?thesis by (rule finite_subset) simp
qed

interpretation th: timeout_queue heap_inv objs ID Deadline Peek Pop Upsert
proof unfold_locales
  fix h :: timeout_heap assume inv: "heap_inv h"
  then show "finite (dom (objs h))" by (simp add: heap_inv_def objs_finite)
  show "Peek h = None \<longleftrightarrow> objs h = Map.empty" using inv by (rule Peek_None)
  show "ID x = k" if "objs h k = Some x" for k x
    using that inv by (simp add: heap_inv_def objs_Some)
  show "objs h (ID y) = Some y" if "Peek h = Some y" for y
    using that inv by (auto simp: Peek_def heap_inv_def objs_Some split: if_splits)
  show "Deadline y \<le> Deadline x" if "Peek h = Some y" "objs h k = Some x" for y k x
    using Peek_min [OF inv that(2)] that(1) by auto
qed (use Pop_correct Upsert_correct in auto)

text \<open>\<open>Pop\<close> shortens the heap whatever its order, which bounds every draining loop.\<close>

lemma length_down_loop [simp]: "length (hp (fst (down_loop h i n))) = length (hp h)"
  by (induction h i n rule: down_loop_cases) (simp_all add: down_loop_stop down_loop_step)

lemma Pop_shorter: "Pop h = Inr (x, h') \<Longrightarrow> length (hp h') < length (hp h)"
  by (auto simp: Pop_def Len_def down_def heap_pop_def Let_def split_beta split: if_splits)

section \<open>Properties\<close>

text \<open>A client's calls, and what they may do to the contents: \<open>Upsert\<close> stores, removing
  the next entry removes one with a least deadline.\<close>

datatype heap_op = OpUpsert timeout_info | OpPopNext

fun heap_run :: "timeout_heap \<Rightarrow> heap_op list \<Rightarrow> timeout_heap res" where
  "heap_run h [] = Inr h"
| "heap_run h (OpUpsert x # ops) = rbind (Upsert h x) (\<lambda>(h', _). heap_run h' ops)"
| "heap_run h (OpPopNext # ops) =
     (case Peek h of None \<Rightarrow> heap_run h ops
      | Some _ \<Rightarrow> rbind (Pop h) (\<lambda>(_, h'). heap_run h' ops))"

inductive contents_run :: "(string \<rightharpoonup> timeout_info) \<Rightarrow> heap_op list \<Rightarrow> (string \<rightharpoonup> timeout_info) \<Rightarrow> bool" where
  idle: "contents_run m [] m"
| upsert: "contents_run (m(ID x \<mapsto> x)) ops m' \<Longrightarrow> contents_run m (OpUpsert x # ops) m'"
| pop_empty: "contents_run Map.empty ops m' \<Longrightarrow> contents_run Map.empty (OpPopNext # ops) m'"
| pop_least: "m k = Some x \<Longrightarrow> (\<And>k' y. m k' = Some y \<Longrightarrow> Deadline x \<le> Deadline y) \<Longrightarrow>
    contents_run (m(k := None)) ops m' \<Longrightarrow> contents_run m (OpPopNext # ops) m'"

lemma heap_run_contents:
  "heap_inv h \<Longrightarrow> \<exists>h'. heap_run h ops = Inr h' \<and> heap_inv h' \<and> contents_run (objs h) ops (objs h')"
proof (induction ops arbitrary: h)
  case Nil
  then show ?case by (auto intro: contents_run.idle)
next
  case (Cons op ops)
  show ?case
  proof (cases op)
    case (OpUpsert x)
    obtain h1 b where h1: "Upsert h x = Inr (h1, b)" "heap_inv h1" "objs h1 = (objs h)(ID x \<mapsto> x)"
      using th.upsert_lookup [OF Cons.prems] by blast
    from Cons.IH [OF h1(2)] obtain h2 where
      "heap_run h1 ops = Inr h2" "heap_inv h2" "contents_run ((objs h)(ID x \<mapsto> x)) ops (objs h2)"
      unfolding h1(3) by blast
    with OpUpsert h1(1) contents_run.upsert show ?thesis by simp
  next
    case OpPopNext
    show ?thesis
    proof (cases "Peek h")
      case None
      with th.peek_None [OF Cons.prems] have "objs h = Map.empty" by simp
      with None OpPopNext Cons.IH [OF Cons.prems] show ?thesis
        by (auto intro: contents_run.pop_empty)
    next
      case (Some x)
      obtain h1 where h1: "Pop h = Inr (x, h1)" "heap_inv h1" "objs h1 = (objs h)(ID x := None)"
        using th.pop_peek [OF Cons.prems Some] by blast
      have x: "objs h (ID x) = Some x" "\<And>k y. objs h k = Some y \<Longrightarrow> Deadline x \<le> Deadline y"
        using th.peek_lookup th.peek_least Cons.prems Some by blast+
      from Cons.IH [OF h1(2)] obtain h2 where
        "heap_run h1 ops = Inr h2" "heap_inv h2" "contents_run (objs h1) ops (objs h2)" by blast
      with OpPopNext Some h1 x contents_run.pop_least [of "objs h" "ID x" x] show ?thesis by auto
    qed
  qed
qed

text \<open>C1. The timeout heap implements a map with a least-deadline removal: any sequence of
  upserts and removals of the next entry, starting from a new heap, runs without a fault (the
  lookup check behind \<^verbatim>\<open>log.Fatal\<close> never fires), keeps index and order consistent, and changes the
  contents exactly as the abstract map allows.\<close>

theorem timeout_heap_refines_map:
  "\<exists>h. heap_run NewTimeoutHeap ops = Inr h \<and> heap_inv h \<and> contents_run Map.empty ops (objs h)"
  using heap_run_contents [OF heap_inv_empty] by (simp add: objs_empty)

text \<open>\<^verbatim>\<open>Upsert\<close> on a consistent heap returns whether the id was present, stores exactly the new
  object under its id and leaves every other object alone, and \<^verbatim>\<open>Peek\<close> then shows an object
  whose deadline no stored object undercuts, the new one included.\<close>

theorem Upsert_then_Peek:
  assumes "heap_inv h"
  shows "\<exists>h' y. Upsert h x = Inr (h', Exists h x) \<and> objs h' = (objs h)(ID x \<mapsto> x) \<and>
    Peek h' = Some y \<and> objs h' (ID y) = Some y \<and> (\<forall>z\<in>ran (objs h'). Deadline y \<le> Deadline z)"
proof -
  obtain h' where h': "Upsert h x = Inr (h', Exists h x)" "heap_inv h'"
    "objs h' = (objs h)(ID x \<mapsto> x)"
    using Upsert_correct [OF assms] by (auto simp: Exists_objs)
  moreover from h' obtain y where y: "Peek h' = Some y"
    using Peek_min [OF h'(2), of "ID x" x] by auto
  moreover have "\<forall>z\<in>ran (objs h'). Deadline y \<le> Deadline z"
    using th.peek_least [OF h'(2) y] unfolding ran_def by blast
  ultimately show ?thesis
    using th.peek_lookup [OF h'(2) y] by blast
qed

theorem Upsert_then_Peek_witness:
  "\<exists>h' y. Upsert NewTimeoutHeap (TrackTimeoutInfo ''a'' \<lparr>tr_Id = ''a'', tr_Targets = [], tr_Metadata = []\<rparr> 7)
      = Inr (h', False) \<and> Peek h' = Some y"
  using Upsert_then_Peek [OF heap_inv_empty,
      of "TrackTimeoutInfo ''a'' \<lparr>tr_Id = ''a'', tr_Targets = [], tr_Metadata = []\<rparr> 7"]
  by (auto simp: Exists_objs objs_empty)

end
