(* ===== verification/Track_Timeouts.thy ===== *)
theory Track_Timeouts
  imports Timeout_Heap
begin

text \<open>
  \<^verbatim>\<open>tms/db/track_timeouts.go\<close>: the pipeline stage that forwards track updates and reports a
  track as timed out once its deadline has passed. Every call of \<^verbatim>\<open>t.opts.Time.Now()\<close> is a
  reading of a clock: \<open>clock i\<close> is the \<open>i\<close>-th reading of the modelled call, and the
  functions thread the number of readings made so far. One turn of the thread's \<^verbatim>\<open>select\<close> is
  \<open>handle_step\<close>: an event in, the updates sent and whether the thread goes on out.
\<close>

section \<open>Definitions\<close>

definition standardTimeout :: duration where "standardTimeout = 15 * minute"
definition fastTimeout :: duration where "fastTimeout = 1 * minute"
definition maxTimeout :: duration where "maxTimeout = 24 * 365 * hour"

record static_timeout =
  Disable :: bool
  st_Timeout :: duration
  timeoutHeap :: timeout_heap

definition DefaultStaticTimeouts :: "bool \<Rightarrow> bool \<Rightarrow> static_timeout" where
  "DefaultStaticTimeouts fastTimers disable =
     \<lparr>Disable = disable, st_Timeout = (if fastTimers then fastTimeout else standardTimeout),
      timeoutHeap = NewTimeoutHeap\<rparr>"

definition DefaultMaxTimeouts :: "bool \<Rightarrow> static_timeout" where
  "DefaultMaxTimeouts disable =
     \<lparr>Disable = disable, st_Timeout = maxTimeout, timeoutHeap = NewTimeoutHeap\<rparr>"

definition GetTimeout :: "static_timeout \<Rightarrow> device_type \<Rightarrow> duration" where
  "GetTimeout t devType = st_Timeout t"

definition nextTimeoutIn :: "time \<Rightarrow> static_timeout \<Rightarrow> duration" where
  "nextTimeoutIn now t =
     (case Peek (timeoutHeap t) of
        None \<Rightarrow> 5 * second
      | Some nxt \<Rightarrow> if Deadline nxt < now then 0 else time_sub (Deadline nxt) now)"

text \<open>The update sent for a popped entry; the type assertion panics on a foreign entry.\<close>

fun timeout_update :: "timeout_info \<Rightarrow> track_update res" where
  "timeout_update (TrackTimeoutInfo i tr d) = Inr \<lparr>tu_Status = Status_Timeout, tu_Track = Some tr\<rparr>"
| "timeout_update (MiscTimeoutInfo ob d) = Inl (Panic ''Pulled a non-Track timeout info from heap!'')"

function sendTimeouts :: "(nat \<Rightarrow> time) \<Rightarrow> nat \<Rightarrow> timeout_heap \<Rightarrow> (track_update list \<times> timeout_heap) res"
where
  "sendTimeouts clock n h =
     (case Peek h of
        None \<Rightarrow> Inr ([], h)
      | Some nxt \<Rightarrow>
          if \<not> Deadline nxt < clock n then Inr ([], h)
          else case Pop h of
                 Inl e \<Rightarrow> Inl e
               | Inr (_, h') \<Rightarrow>
                   rbind (timeout_update nxt) (\<lambda>upd.
                     rbind (sendTimeouts clock (Suc n) h') (\<lambda>(upds, h''). Inr (upd # upds, h''))))"
  by pat_completeness auto
termination
  by (relation "measure (\<lambda>(clock, n, h). length (hp h))") (auto dest: Pop_shorter)

declare sendTimeouts.simps [simp del]

definition issue_timeout :: "target \<Rightarrow> bool" where
  "issue_timeout tg \<longleftrightarrow>
     tg_Type tg = DeviceType_Manual \<and>
     (case tg_Manual tg of None \<Rightarrow> False | Some m \<Rightarrow> IssueTimeout m)"

definition ttm_lost :: "target \<Rightarrow> bool" where
  "ttm_lost tg \<longleftrightarrow>
     (case tg_Nmea tg of None \<Rightarrow> False
      | Some nm \<Rightarrow> (case nm_Ttm nm of None \<Rightarrow> False | Some ttm \<Rightarrow> ttm_Status ttm = ''L''))"

text \<open>The loop over the targets. It ends early with a status, or gives the deadline it
  found; the last component counts the clock readings.\<close>

fun deadline_loop ::
  "(nat \<Rightarrow> time) \<Rightarrow> static_timeout \<Rightarrow> nat \<Rightarrow> time \<Rightarrow> target option list \<Rightarrow> (status option \<times> time \<times> nat) res"
where
  "deadline_loop clock t n deadline [] = Inr (None, deadline, n)"
| "deadline_loop clock t n deadline (None # tgs) = deadline_loop clock t n deadline tgs"
| "deadline_loop clock t n deadline (Some tg # tgs) =
     (if issue_timeout tg then Inr (Some Status_Timeout, deadline, n)
      else if ttm_lost tg then Inr (Some Status_Timeout, deadline, n)
      else case tg_UpdateTime tg of
             None \<Rightarrow> deadline_loop clock t n deadline tgs
           | Some ut \<Rightarrow>
               rbind (unix_of (Some ut)) (\<lambda>tutu.
               rbind (unix_of (tg_Time tg)) (\<lambda>ttu.
                 let asks = (\<not> tg_Repeat tg \<and> tutu \<noteq> ttu)
                 in if asks \<and> ttu + GetTimeout t (tg_Type tg) < clock n
                    then Inr (Some Status_Timeout, deadline, Suc n)
                    else let tm = tutu + GetTimeout t (tg_Type tg);
                             deadline' =
                               (if deadline < tm then
                                  if tg_Repeat tg \<or> tutu = ttu then tm
                                  else if ttu < tutu then tm + neg_duration (time_sub tutu ttu)
                                  else deadline
                                else deadline)
                         in deadline_loop clock t (if asks then Suc n else n) deadline' tgs)))"

definition updateDeadlines ::
  "(nat \<Rightarrow> time) \<Rightarrow> static_timeout \<Rightarrow> track option \<Rightarrow> (status \<times> static_timeout) res"
where
  "updateDeadlines clock t trk =
     (case trk of
        None \<Rightarrow> Inr (Status_Unknown, t)
      | Some tr \<Rightarrow>
          rbind (deadline_loop clock t 0 0 (tr_Targets tr)) (\<lambda>(early, deadline, n).
            case early of
              Some st \<Rightarrow> Inr (st, t)
            | None \<Rightarrow>
                if deadline < clock n then Inr (Status_Timeout, t)
                else rbind (Upsert (timeoutHeap t) (TrackTimeoutInfo (tr_Id tr) tr deadline))
                       (\<lambda>(h', _). Inr (Status_Current, t\<lparr>timeoutHeap := h'\<rparr>))))"

text \<open>The events of the stage: cancellation, the timer, the input channel closed, or an
  update; the flag of an update says whether cancellation won the \<^verbatim>\<open>select\<close> of the send.\<close>

datatype stage_event = EvDone | EvTimer | EvClosed | EvUpdate track_update bool

fun handle_step ::
  "(nat \<Rightarrow> time) \<Rightarrow> static_timeout \<Rightarrow> stage_event \<Rightarrow> (track_update list \<times> static_timeout \<times> bool) res"
where
  "handle_step clock t EvDone = Inr ([], t, False)"
| "handle_step clock t EvTimer =
     rbind (sendTimeouts clock 0 (timeoutHeap t)) (\<lambda>(out, h). Inr (out, t\<lparr>timeoutHeap := h\<rparr>, True))"
| "handle_step clock t EvClosed = Inr ([], t, False)"
| "handle_step clock t (EvUpdate upd cancel) =
     (case tu_Track upd of
        None \<Rightarrow> Inr ([upd], t, True)
      | Some tr \<Rightarrow>
          rbind (updateDeadlines clock t (Some tr)) (\<lambda>(status, t').
            if cancel then Inr ([], t', False)
            else if status = Status_Timeout
                 then Inr ([\<lparr>tu_Status = Status_Timeout, tu_Track = Some tr\<rparr>], t', True)
                 else Inr ([\<lparr>tu_Status = tu_Status upd, tu_Track = Some tr\<rparr>], t', True)))"

text \<open>A whole run of the thread; each turn has its own clock readings.\<close>

fun handle_run ::
  "static_timeout \<Rightarrow> ((nat \<Rightarrow> time) \<times> stage_event) list \<Rightarrow> (track_update list \<times> static_timeout) res"
where
  "handle_run t [] = Inr ([], t)"
| "handle_run t ((clock, ev) # evs) =
     rbind (handle_step clock t ev) (\<lambda>(out, t', continue).
       if \<not> continue then Inr (out, t')
       else rbind (handle_run t' evs) (\<lambda>(outs, t''). Inr (out @ outs, t'')))"

section \<open>The invariant of the stage\<close>

fun track_entry :: "timeout_info \<Rightarrow> bool" where
  "track_entry (TrackTimeoutInfo i tr d) \<longleftrightarrow> i = tr_Id tr"
| "track_entry (MiscTimeoutInfo ob d) \<longleftrightarrow> False"

definition stage_inv :: "static_timeout \<Rightarrow> bool" where
  "stage_inv t \<longleftrightarrow> heap_inv (timeoutHeap t) \<and> (\<forall>k x. objs (timeoutHeap t) k = Some x \<longrightarrow> track_entry x)"

text \<open>What the stage needs of an update: a target with an update time has a time.\<close>

definition timed :: "target option \<Rightarrow> bool" where
  "timed p \<longleftrightarrow> (\<forall>tg. p = Some tg \<longrightarrow> tg_UpdateTime tg \<noteq> None \<longrightarrow> tg_Time tg \<noteq> None)"

fun timed_event :: "stage_event \<Rightarrow> bool" where
  "timed_event (EvUpdate upd c) \<longleftrightarrow>
     (\<forall>tr. tu_Track upd = Some tr \<longrightarrow> (\<forall>p\<in>set (tr_Targets tr). timed p))"
| "timed_event ev \<longleftrightarrow> True"

lemma track_entry_emit: "track_entry x \<Longrightarrow> \<exists>upd. timeout_update x = Inr upd"
  by (cases x) auto

interpretation td: drain_loop heap_inv objs ID Deadline Peek Pop Upsert
  "\<lambda>n d. d < clock n" timeout_update "sendTimeouts clock" for clock
proof unfold_locales
  fix n q
  show "sendTimeouts clock n q =
    (case Peek q of
       None \<Rightarrow> Inr ([], q)
     | Some x \<Rightarrow>
         if \<not> Deadline x < clock n then Inr ([], q)
         else rbind (Pop q) (\<lambda>(_, q'). rbind (timeout_update x) (\<lambda>out.
                rbind (sendTimeouts clock (Suc n) q') (\<lambda>(outs, q''). Inr (out # outs, q'')))))"
    by (subst sendTimeouts.simps) (auto simp: rbind_def split: option.split sum.split)
qed auto

lemma sendTimeouts_drains:
  assumes "stage_inv t"
  shows "\<exists>upds h' xs. sendTimeouts clock n (timeoutHeap t) = Inr (upds, h') \<and>
    stage_inv (t\<lparr>timeoutHeap := h'\<rparr>) \<and> map timeout_update xs = map Inr upds \<and>
    drained ID Deadline (\<lambda>i d. d < clock i) n (objs (timeoutHeap t)) xs (objs h')"
proof -
  from assms have "\<exists>upds h' xs. sendTimeouts clock n (timeoutHeap t) = Inr (upds, h') \<and>
    heap_inv h' \<and> map timeout_update xs = map Inr upds \<and>
    drained ID Deadline (\<lambda>i d. d < clock i) n (objs (timeoutHeap t)) xs (objs h')"
    by (intro td.drain_correct) (auto simp: stage_inv_def track_entry_emit)
  then obtain upds h' xs where r: "sendTimeouts clock n (timeoutHeap t) = Inr (upds, h')"
    "heap_inv h'" "map timeout_update xs = map Inr upds"
    "drained ID Deadline (\<lambda>i d. d < clock i) n (objs (timeoutHeap t)) xs (objs h')" by blast
  moreover have "track_entry x" if "objs h' k = Some x" for k x
    using that r(4) assms by (auto simp: drained_def stage_inv_def restrict_map_def split: if_splits)
  ultimately show ?thesis by (auto simp: stage_inv_def)
qed

lemma deadline_loop_returns:
  "\<forall>p\<in>set tgs. timed p \<Longrightarrow> \<exists>r. deadline_loop clock t n d tgs = Inr r"
proof (induction clock t n d tgs rule: deadline_loop.induct)
  case (3 clock t n d tg tgs)
  then show ?case by (cases "tg_Time tg") (auto simp: timed_def Let_def split: option.split)
qed auto

lemma updateDeadlines_cases:
  assumes inv: "stage_inv t" and r: "deadline_loop clock t 0 0 (tr_Targets tr) = Inr (early, d, n)"
  shows "\<exists>t'. updateDeadlines clock t (Some tr) =
      Inr (case early of Some st \<Rightarrow> st | None \<Rightarrow> if d < clock n then Status_Timeout else Status_Current, t') \<and>
    stage_inv t' \<and> st_Timeout t' = st_Timeout t \<and>
    objs (timeoutHeap t') = (if early = None \<and> \<not> d < clock n
      then (objs (timeoutHeap t))(tr_Id tr \<mapsto> TrackTimeoutInfo (tr_Id tr) tr d)
      else objs (timeoutHeap t))"
proof (cases "early = None \<and> \<not> d < clock n")
  case True
  obtain h' b where "Upsert (timeoutHeap t) (TrackTimeoutInfo (tr_Id tr) tr d) = Inr (h', b)"
    "heap_inv h'" "objs h' = (objs (timeoutHeap t))(tr_Id tr \<mapsto> TrackTimeoutInfo (tr_Id tr) tr d)"
    using th.upsert_lookup [of "timeoutHeap t" "TrackTimeoutInfo (tr_Id tr) tr d"] inv
    by (auto simp: stage_inv_def)
  with True r inv show ?thesis
    by (auto simp: updateDeadlines_def stage_inv_def)
next
  case False
  with r inv show ?thesis
    by (auto simp: updateDeadlines_def split: option.split)
qed

lemma updateDeadlines_inv:
  assumes "stage_inv t" and "\<forall>p\<in>set (tr_Targets tr). timed p"
  shows "\<exists>st t'. updateDeadlines clock t (Some tr) = Inr (st, t') \<and> stage_inv t'"
proof -
  obtain early d n where "deadline_loop clock t 0 0 (tr_Targets tr) = Inr (early, d, n)"
    using deadline_loop_returns [OF assms(2)] by (metis prod_cases3)
  with updateDeadlines_cases [OF assms(1)] show ?thesis by meson
qed

lemma handle_step_inv:
  assumes "stage_inv t" and "timed_event ev"
  shows "\<exists>out t' c. handle_step clock t ev = Inr (out, t', c) \<and> stage_inv t'"
proof (cases ev)
  case EvTimer
  with sendTimeouts_drains [OF assms(1), of clock 0] show ?thesis by auto
next
  case (EvUpdate upd cancel)
  show ?thesis
  proof (cases "tu_Track upd")
    case (Some tr)
    with EvUpdate assms(2) updateDeadlines_inv [OF assms(1), of tr clock] show ?thesis by auto
  qed (use EvUpdate assms(1) in auto)
qed (use assms(1) in auto)

lemma handle_run_inv:
  "stage_inv t \<Longrightarrow> \<forall>(clock, ev)\<in>set evs. timed_event ev \<Longrightarrow>
   \<exists>out t'. handle_run t evs = Inr (out, t') \<and> stage_inv t'"
proof (induction evs arbitrary: t)
  case (Cons e evs)
  obtain clock ev where e: "e = (clock, ev)" by (cases e)
  with Cons.prems have "timed_event ev" by simp
  then obtain out t' c where s: "handle_step clock t ev = Inr (out, t', c)" "stage_inv t'"
    using handle_step_inv [OF Cons.prems(1)] by meson
  moreover have "\<exists>outs t''. handle_run t' evs = Inr (outs, t'') \<and> stage_inv t''"
    using Cons.IH [OF s(2)] Cons.prems(2) by simp
  ultimately show ?case by (cases c) (auto simp: e)
qed simp

lemma stage_inv_init: "stage_inv (DefaultStaticTimeouts f d)" "stage_inv (DefaultMaxTimeouts d)"
  by (simp_all add: stage_inv_def DefaultStaticTimeouts_def DefaultMaxTimeouts_def
      heap_inv_empty objs_empty)

section \<open>The deadline of a track\<close>

text \<open>The update times that count, and the targets for which the furthest one decides.\<close>

fun update_times :: "target option list \<Rightarrow> time list" where
  "update_times [] = []"
| "update_times (None # tgs) = update_times tgs"
| "update_times (Some tg # tgs) =
     (case tg_UpdateTime tg of None \<Rightarrow> update_times tgs
      | Some ut \<Rightarrow> (Seconds ut * second + Nanos ut) # update_times tgs)"

definition plain :: "target option \<Rightarrow> bool" where
  "plain p \<longleftrightarrow> (\<forall>tg. p = Some tg \<longrightarrow> \<not> issue_timeout tg \<and> \<not> ttm_lost tg \<and>
     (\<forall>ut. tg_UpdateTime tg = Some ut \<longrightarrow> (\<exists>ts. tg_Time tg = Some ts \<and>
        (tg_Repeat tg \<or> Seconds ts * second + Nanos ts = Seconds ut * second + Nanos ut))))"

lemma deadline_loop_plain:
  "\<forall>p\<in>set tgs. plain p \<Longrightarrow>
   deadline_loop clock t n d tgs = Inr (None, foldl max d (map (\<lambda>u. u + st_Timeout t) (update_times tgs)), n)"
proof (induction clock t n d tgs rule: deadline_loop.induct)
  case (3 clock t n d tg tgs)
  then have p: "plain (Some tg)" "\<forall>p\<in>set tgs. plain p" by auto
  show ?case
  proof (cases "tg_UpdateTime tg")
    case None
    with 3 p show ?thesis by (auto simp: plain_def)
  next
    case (Some ut)
    with p obtain ts where ts: "tg_Time tg = Some ts"
      "tg_Repeat tg \<or> Seconds ts * second + Nanos ts = Seconds ut * second + Nanos ut"
      by (auto simp: plain_def)
    have flags: "\<not> issue_timeout tg" "\<not> ttm_lost tg" using p by (auto simp: plain_def)
    from "3.IH"(2) [OF flags Some] ts p(2) Some flags show ?thesis
      by (auto simp: Let_def GetTimeout_def max_def)
  qed
qed auto

lemma foldl_max: "foldl max (d::int) xs = Max (set (d # xs))"
proof (induction xs arbitrary: d)
  case (Cons x xs)
  have "foldl max d (x # xs) = Max (insert (max d x) (set xs))" using Cons by simp
  also have "\<dots> = Max (insert d (insert x (set xs)))"
    by (cases "set xs = {}") (auto simp: max.assoc)
  finally show ?case by simp
qed simp

section \<open>Properties\<close>

text \<open>Whatever updates, timer expiries and cancellations a timeout stage sees, it never
  panics and its heap stays consistent with only track entries under their own track id,
  provided every target that carries an update time also carries a time.\<close>

theorem timeout_stage_safe:
  assumes "\<forall>(clock, ev)\<in>set evs. timed_event ev"
  shows "\<exists>out t. handle_run (DefaultStaticTimeouts fastTimers disable) evs = Inr (out, t) \<and> stage_inv t"
  by (rule handle_run_inv [OF stage_inv_init(1) assms])

theorem timeout_stage_safe_witness:
  "\<exists>out t. handle_run (DefaultStaticTimeouts False False)
     [(\<lambda>i. 0, EvUpdate \<lparr>tu_Status = Status_Current, tu_Track =
        Some \<lparr>tr_Id = ''t'', tr_Targets = [], tr_Metadata = []\<rparr>\<rparr> False),
      (\<lambda>i. 5 + int i, EvTimer)] = Inr (out, t) \<and> stage_inv t"
  by (rule timeout_stage_safe) simp

text \<open>C27. When the timer fires, the stage sends a timeout for exactly the tracks whose deadline
  has passed, in the order of their deadlines, removes them from the heap, keeps all others, and
  at the last look at the clock nothing overdue is left.\<close>

theorem sendTimeouts_exact:
  assumes "stage_inv t"
  shows "\<exists>upds h' xs. sendTimeouts clock 0 (timeoutHeap t) = Inr (upds, h') \<and> heap_inv h' \<and>
    map timeout_update xs = map Inr upds \<and>
    drained ID Deadline (\<lambda>i d. d < clock i) 0 (objs (timeoutHeap t)) xs (objs h')"
  using sendTimeouts_drains [OF assms, of clock 0] by (auto simp: stage_inv_def)

text \<open>Three tracks with the deadlines 100, 200 and 300; the timer fires at 250.\<close>

definition ex_track :: "string \<Rightarrow> track" where
  "ex_track i = \<lparr>tr_Id = i, tr_Targets = [], tr_Metadata = []\<rparr>"

definition ex_entry :: "string \<Rightarrow> time \<Rightarrow> timeout_info" where
  "ex_entry i d = TrackTimeoutInfo i (ex_track i) d"

definition ex_timeouts :: static_timeout where
  "ex_timeouts = \<lparr>Disable = False, st_Timeout = 5,
     timeoutHeap = \<lparr>idxs = [''a'' \<mapsto> 0, ''c'' \<mapsto> 1, ''b'' \<mapsto> 2], hp = [ex_entry ''a'' 100, ex_entry ''c'' 300, ex_entry ''b'' 200]\<rparr>\<rparr>"

lemma ex_objs: "objs (timeoutHeap ex_timeouts) = [''a'' \<mapsto> ex_entry ''a'' 100, ''b'' \<mapsto> ex_entry ''b'' 200, ''c'' \<mapsto> ex_entry ''c'' 300]"
  by (auto simp: ex_timeouts_def objs_def fun_eq_iff)

lemma ex_timeouts_inv: "stage_inv ex_timeouts"
proof -
  let ?h = "timeoutHeap ex_timeouts"
  have three: "i < length (hp ?h) \<longleftrightarrow> i = 0 \<or> i = 1 \<or> i = 2" for i by (auto simp: ex_timeouts_def)
  have "idx_ok ?h"
    unfolding idx_ok_def three
  proof (intro allI)
    fix k i
    show "(idxs ?h k = Some i) = ((i = 0 \<or> i = 1 \<or> i = 2) \<and> ID (hp ?h ! i) = k)"
      by (cases "i = 0"; cases "i = 1"; cases "i = 2") (auto simp: ex_timeouts_def ex_entry_def)
  qed
  moreover have "heap_upto (length (hp ?h)) (hp ?h)"
    unfolding heap_upto_def three by (auto simp: ok_at_def parent_def ex_timeouts_def ex_entry_def)
  ultimately have "heap_inv ?h" by (simp add: heap_inv_def)
  moreover have "track_entry x" if "objs (timeoutHeap ex_timeouts) k = Some x" for k x
    using that unfolding ex_objs by (auto simp: ex_entry_def ex_track_def split: if_splits)
  ultimately show ?thesis by (simp add: stage_inv_def)
qed

theorem sendTimeouts_exact_witness:
  "\<exists>upds h'. sendTimeouts (\<lambda>i. 250) 0 (timeoutHeap ex_timeouts) = Inr (upds, h') \<and>
     upds = [\<lparr>tu_Status = Status_Timeout, tu_Track = Some (ex_track ''a'')\<rparr>, \<lparr>tu_Status = Status_Timeout, tu_Track = Some (ex_track ''b'')\<rparr>] \<and>
     objs h' = [''c'' \<mapsto> ex_entry ''c'' 300]"
proof -
  let ?m = "[''a'' \<mapsto> ex_entry ''a'' 100, ''b'' \<mapsto> ex_entry ''b'' 200, ''c'' \<mapsto> ex_entry ''c'' 300]"
  obtain upds h' xs where r: "sendTimeouts (\<lambda>i. 250) 0 (timeoutHeap ex_timeouts) = Inr (upds, h')"
    "map timeout_update xs = map Inr upds" and d: "drained ID Deadline (\<lambda>i d. d < 250) 0 ?m xs (objs h')"
    using sendTimeouts_exact[OF ex_timeouts_inv, of "\<lambda>i. 250"] unfolding ex_objs by blast
  have D: "ID (ex_entry i t) = i" "Deadline (ex_entry i t) = t" "ex_entry i t = ex_entry j u \<longleftrightarrow> i = j \<and> t = u" for i j t u
    by (auto simp: ex_entry_def)
  have up: "x = ex_entry ''a'' 100 \<or> x = ex_entry ''b'' 200" if "x \<in> set xs" for x
  proof -
    have "?m (ID x) = Some x" "Deadline x < 250" using that d unfolding drained_def by (auto simp only: in_set_conv_nth)
    then show ?thesis by (auto simp: D split: if_splits)
  qed
  have late: "objs h' k = Some x \<longrightarrow> \<not> Deadline x < 250" for k x using d unfolding drained_def by blast
  have m': "objs h' = ?m |` (- (ID ` set xs))" using d by (simp add: drained_def)
  have "''a'' \<in> ID ` set xs" "''b'' \<in> ID ` set xs"
    using late[of "''a''" "ex_entry ''a'' 100"] late[of "''b''" "ex_entry ''b'' 200"]
    by (simp_all add: m' restrict_map_def D split: if_splits)
  then have ab: "ex_entry ''a'' 100 \<in> set xs" "ex_entry ''b'' 200 \<in> set xs"
    using up by (force simp: D dest!: sym[of "''a''"] sym[of "''b''"])+
  then have "set xs = {ex_entry ''a'' 100, ex_entry ''b'' 200}" using up by blast
  moreover have "distinct xs" "sorted (map Deadline xs)" using d by (auto simp: drained_def distinct_map)
  moreover from calculation have "length xs = 2" using distinct_card[of xs] by (simp add: D)
  then obtain x y where "xs = [x, y]" by (metis (no_types, lifting) One_nat_def Suc_1 length_0_conv length_Suc_conv)
  ultimately have xs: "xs = [ex_entry ''a'' 100, ex_entry ''b'' 200]" by (auto simp: D doubleton_eq_iff)
  let ?upds = "[\<lparr>tu_Status = Status_Timeout, tu_Track = Some (ex_track ''a'')\<rparr>, \<lparr>tu_Status = Status_Timeout, tu_Track = Some (ex_track ''b'')\<rparr>]"
  have "map Inr upds = (map Inr ?upds :: track_update res list)" using r(2) by (simp add: xs ex_entry_def)
  then have "upds = ?upds" by (simp only: inj_map_eq_map[OF inj_Inr])
  moreover have "objs h' = [''c'' \<mapsto> ex_entry ''c'' 300]"
    by (auto simp: m' xs D restrict_map_def fun_eq_iff)
  ultimately show ?thesis using r(1) by blast
qed

text \<open>The stage never sleeps past a deadline: the wait it asks of its timer is not negative,
  and for every tracked entry it either ends at once or no later than that entry's deadline.\<close>

theorem nextTimeoutIn_bounds:
  assumes "stage_inv t" and "objs (timeoutHeap t) k = Some x"
  shows "0 \<le> nextTimeoutIn now t \<and>
    (nextTimeoutIn now t = 0 \<or> now + nextTimeoutIn now t \<le> Deadline x)"
proof -
  from assms obtain y where y: "Peek (timeoutHeap t) = Some y" "Deadline y \<le> Deadline x"
    using Peek_min by (metis stage_inv_def)
  then show ?thesis
    by (auto simp: nextTimeoutIn_def time_sub_def min_duration_def max_duration_def)
qed

theorem nextTimeoutIn_bounds_witness:
  "\<exists>t. nextTimeoutIn 40 t = 60 \<and> 40 + nextTimeoutIn 40 t \<le> 100"
proof -
  let ?x = "TrackTimeoutInfo ''a'' \<lparr>tr_Id = ''a'', tr_Targets = [], tr_Metadata = []\<rparr> 100"
  let ?t = "\<lparr>Disable = False, st_Timeout = 5, timeoutHeap = \<lparr>idxs = [''a'' \<mapsto> 0], hp = [?x]\<rparr>\<rparr>"
  have inv: "stage_inv ?t"
    by (auto simp: stage_inv_def heap_inv_def idx_ok_def heap_upto_def ok_at_def objs_def
        split: if_splits)
  have "objs (timeoutHeap ?t) ''a'' = Some ?x" by (simp add: objs_def)
  from nextTimeoutIn_bounds [OF inv this, of 40] have "40 + nextTimeoutIn 40 ?t \<le> 100"
    by (simp add: nextTimeoutIn_def Peek_def time_sub_def min_duration_def max_duration_def)
  moreover have "nextTimeoutIn 40 ?t = 60"
    by (simp add: nextTimeoutIn_def Peek_def time_sub_def min_duration_def max_duration_def)
  ultimately show ?thesis by blast
qed

text \<open>For a track whose targets repeat, or whose update times are their sensing times, the
  new deadline is the latest update time plus the stage's timeout: a track already past it is
  reported as timed out and the heap is left as it was, any other is current and is stored under
  its id with that deadline.\<close>

theorem updateDeadlines_furthest:
  assumes "stage_inv t" and "\<forall>p\<in>set (tr_Targets tr). plain p"
    and "d = Max (set (0 # map (\<lambda>u. u + st_Timeout t) (update_times (tr_Targets tr))))"
  shows "\<exists>t'. updateDeadlines clock t (Some tr) =
      Inr (if d < clock 0 then Status_Timeout else Status_Current, t') \<and> stage_inv t' \<and>
    objs (timeoutHeap t') = (if d < clock 0 then objs (timeoutHeap t)
      else (objs (timeoutHeap t))(tr_Id tr \<mapsto> TrackTimeoutInfo (tr_Id tr) tr d))"
proof -
  have "deadline_loop clock t 0 0 (tr_Targets tr) = Inr (None, d, 0)"
    using deadline_loop_plain [OF assms(2), of clock t 0 0] unfolding assms(3) foldl_max by simp
  from updateDeadlines_cases [OF assms(1) this] show ?thesis by auto
qed

theorem updateDeadlines_furthest_witness:
  "\<exists>t'. updateDeadlines (\<lambda>i. 3) (DefaultStaticTimeouts True False)
     (Some \<lparr>tr_Id = ''t'', tr_Targets = [], tr_Metadata = []\<rparr>) = Inr (Status_Timeout, t')"
  using updateDeadlines_furthest [OF stage_inv_init(1),
      of "\<lparr>tr_Id = ''t'', tr_Targets = [], tr_Metadata = []\<rparr>" 0 True False "\<lambda>i. 3"] by auto

text \<open>The deadline is not always the one furthest in the future, as the comment in
  \<^verbatim>\<open>updateDeadlines\<close> says: a later target that does not repeat and was last updated after it was
  sensed is compared by its update time but stored with its sensing time, and so replaces the
  deadline 70 s of a repeating target by 61 s.\<close>

theorem deadline_can_move_back:
  "deadline_loop (\<lambda>i. 0) \<lparr>Disable = False, st_Timeout = 60 * second, timeoutHeap = NewTimeoutHeap\<rparr> 0 0
     [Some \<lparr>tg_Type = OtherDevice 2, tg_Time = Some \<lparr>Seconds = 10, Nanos = 0\<rparr>,
        tg_UpdateTime = Some \<lparr>Seconds = 10, Nanos = 0\<rparr>, tg_Repeat = True, tg_Manual = None,
        tg_Nmea = None, tg_rest = []\<rparr>,
      Some \<lparr>tg_Type = OtherDevice 2, tg_Time = Some \<lparr>Seconds = 1, Nanos = 0\<rparr>,
        tg_UpdateTime = Some \<lparr>Seconds = 20, Nanos = 0\<rparr>, tg_Repeat = False, tg_Manual = None,
        tg_Nmea = None, tg_rest = []\<rparr>]
   = Inr (None, 61 * second, 1)"
  by (simp add: issue_timeout_def ttm_lost_def GetTimeout_def time_sub_def neg_duration_def
      min_duration_def max_duration_def)

end
