(* ===== verification/Misc_Timeouts.thy ===== *)
theory Misc_Timeouts
  imports Timeout_Heap
begin

text \<open>
  \<^verbatim>\<open>tms/db/misc_data_timeout.go\<close>: the stream stage for generic objects. It keeps two timeout
  heaps: \<open>timeinHeap\<close> for objects whose creation time lies ahead (they are sent when it is
  reached) and \<open>mt_timeoutHeap\<close> for objects that will expire. Each modelled call reads the
  clock once, as the code does (\<open>qnow\<close>, \<open>now\<close>).
\<close>

section \<open>Definitions\<close>

record misc_timeout =
  mt_timeoutHeap :: timeout_heap
  timeinHeap :: timeout_heap

definition MiscTimeoutStream :: misc_timeout where
  "MiscTimeoutStream = \<lparr>mt_timeoutHeap = NewTimeoutHeap, timeinHeap = NewTimeoutHeap\<rparr>"

text \<open>\<^verbatim>\<open>nextTimeinIn\<close> and \<^verbatim>\<open>nextTimeoutIn\<close> are the same computation over the two heaps.\<close>

definition next_in :: "time \<Rightarrow> timeout_heap \<Rightarrow> duration" where
  "next_in now h =
     (case Peek h of
        None \<Rightarrow> 5 * second
      | Some nxt \<Rightarrow> if Deadline nxt < now then 0 else time_sub (Deadline nxt) now)"

definition nextTimeinIn :: "time \<Rightarrow> misc_timeout \<Rightarrow> duration" where
  "nextTimeinIn now t = next_in now (timeinHeap t)"

definition misc_nextTimeoutIn :: "time \<Rightarrow> misc_timeout \<Rightarrow> duration" where
  "misc_nextTimeoutIn now t = next_in now (mt_timeoutHeap t)"

text \<open>The wait at the top of the thread's loop; the two calls read the clock separately.\<close>

definition waitFor :: "time \<Rightarrow> time \<Rightarrow> misc_timeout \<Rightarrow> duration" where
  "waitFor now1 now2 t =
     (let to = misc_nextTimeoutIn now1 t; ti = nextTimeinIn now2 t in if ti < to then ti else to)"

fun misc_response :: "status \<Rightarrow> timeout_info \<Rightarrow> go_get_response res" where
  "misc_response st (MiscTimeoutInfo ob d) = Inr \<lparr>gr_Status = st, gr_Contents = Some ob\<rparr>"
| "misc_response st (TrackTimeoutInfo i tr d) = Inl (Panic ''Pulled a non-Track timeout info from heap!'')"

function send_timeins :: "time \<Rightarrow> timeout_heap \<Rightarrow> (go_get_response list \<times> timeout_heap) res" where
  "send_timeins qnow h =
     (case Peek h of
        None \<Rightarrow> Inr ([], h)
      | Some nxt \<Rightarrow>
          if qnow < Deadline nxt then Inr ([], h)
          else case Pop h of
                 Inl e \<Rightarrow> Inl e
               | Inr (_, h') \<Rightarrow>
                   rbind (misc_response Status_Current nxt) (\<lambda>out.
                     rbind (send_timeins qnow h') (\<lambda>(outs, h''). Inr (out # outs, h''))))"
  by pat_completeness auto
termination
  by (relation "measure (\<lambda>(qnow, h). length (hp h))") (auto dest: Pop_shorter)

function send_timeouts :: "time \<Rightarrow> timeout_heap \<Rightarrow> (go_get_response list \<times> timeout_heap) res" where
  "send_timeouts qnow h =
     (case Peek h of
        None \<Rightarrow> Inr ([], h)
      | Some nxt \<Rightarrow>
          if \<not> Deadline nxt < qnow then Inr ([], h)
          else case Pop h of
                 Inl e \<Rightarrow> Inl e
               | Inr (_, h') \<Rightarrow>
                   rbind (misc_response Status_Timeout nxt) (\<lambda>out.
                     rbind (send_timeouts qnow h') (\<lambda>(outs, h''). Inr (out # outs, h''))))"
  by pat_completeness auto
termination
  by (relation "measure (\<lambda>(qnow, h). length (hp h))") (auto dest: Pop_shorter)

declare send_timeins.simps [simp del] send_timeouts.simps [simp del]

definition misc_sendTimeouts :: "time \<Rightarrow> misc_timeout \<Rightarrow> (go_get_response list \<times> misc_timeout) res" where
  "misc_sendTimeouts qnow t =
     rbind (send_timeins qnow (timeinHeap t)) (\<lambda>(ins, h1).
       rbind (send_timeouts qnow (mt_timeoutHeap t)) (\<lambda>(outs, h2).
         Inr (ins @ outs, t\<lparr>timeinHeap := h1, mt_timeoutHeap := h2\<rparr>)))"

definition misc_updateDeadlines :: "time \<Rightarrow> misc_timeout \<Rightarrow> go_object \<Rightarrow> (bool \<times> misc_timeout) res" where
  "misc_updateDeadlines now t ob =
     (let etime = ExpirationTime ob; ctime = CreationTime ob in
      rbind (if now < ctime then
               rbind (Upsert (timeinHeap t) (MiscTimeoutInfo ob ctime)) (\<lambda>(h1, _).
               rbind (Upsert (mt_timeoutHeap t) (MiscTimeoutInfo ob etime)) (\<lambda>(h2, _).
                 Inr (False, t\<lparr>timeinHeap := h1, mt_timeoutHeap := h2\<rparr>)))
             else Inr (True, t)) (\<lambda>(ret, t1).
      let eti = MiscTimeoutInfo ob etime in
      if now < etime then
        rbind (Upsert (mt_timeoutHeap t1) eti) (\<lambda>(h, _). Inr (ret, t1\<lparr>mt_timeoutHeap := h\<rparr>))
      else if Exists (mt_timeoutHeap t1) eti then
        rbind (Upsert (mt_timeoutHeap t1) eti) (\<lambda>(h, _). Inr (False, t1\<lparr>mt_timeoutHeap := h\<rparr>))
      else Inr (False, t1)))"

datatype misc_event = MDone | MTimer | MClosed | MData go_get_response

fun misc_step ::
  "time \<Rightarrow> misc_timeout \<Rightarrow> misc_event \<Rightarrow> (go_get_response list \<times> misc_timeout \<times> bool) res"
where
  "misc_step now t MDone = Inr ([], t, False)"
| "misc_step now t MTimer = rbind (misc_sendTimeouts now t) (\<lambda>(out, t'). Inr (out, t', True))"
| "misc_step now t MClosed = Inr ([], t, False)"
| "misc_step now t (MData d) =
     (case gr_Contents d of
        None \<Rightarrow> Inr ([d], t, True)
      | Some ob \<Rightarrow>
          rbind (misc_updateDeadlines now t ob) (\<lambda>(sendOK, t').
            Inr (if sendOK then [d] else [], t', True)))"

fun misc_run ::
  "misc_timeout \<Rightarrow> (time \<times> misc_event) list \<Rightarrow> (go_get_response list \<times> misc_timeout) res"
where
  "misc_run t [] = Inr ([], t)"
| "misc_run t ((now, ev) # evs) =
     rbind (misc_step now t ev) (\<lambda>(out, t', continue).
       if \<not> continue then Inr (out, t')
       else rbind (misc_run t' evs) (\<lambda>(outs, t''). Inr (out @ outs, t'')))"

section \<open>The invariant\<close>

fun misc_entry :: "timeout_info \<Rightarrow> bool" where
  "misc_entry (MiscTimeoutInfo ob d) \<longleftrightarrow> True"
| "misc_entry (TrackTimeoutInfo i tr d) \<longleftrightarrow> False"

definition misc_heap :: "timeout_heap \<Rightarrow> bool" where
  "misc_heap h \<longleftrightarrow> heap_inv h \<and> (\<forall>k x. objs h k = Some x \<longrightarrow> misc_entry x)"

definition misc_inv :: "misc_timeout \<Rightarrow> bool" where
  "misc_inv t \<longleftrightarrow> misc_heap (mt_timeoutHeap t) \<and> misc_heap (timeinHeap t)"

lemma misc_entry_emit: "misc_entry x \<Longrightarrow> \<exists>out. misc_response st x = Inr out"
  by (cases x) auto

lemma misc_heap_drained:
  "heap_inv h' \<Longrightarrow> misc_heap h \<Longrightarrow> drained ID Deadline due n (objs h) xs (objs h') \<Longrightarrow> misc_heap h'"
  by (auto simp: misc_heap_def drained_def restrict_map_def split: if_splits)

lemma misc_heap_Upsert:
  assumes "misc_heap h" "misc_entry x"
  shows "\<exists>h' b. Upsert h x = Inr (h', b) \<and> misc_heap h' \<and> objs h' = (objs h)(ID x \<mapsto> x)"
proof -
  from assms(1) have inv: "heap_inv h" by (simp add: misc_heap_def)
  from th.upsert_lookup [OF inv, of x] obtain h' b where
    h': "Upsert h x = Inr (h', b)" "heap_inv h'" "objs h' = (objs h)(ID x \<mapsto> x)" by blast
  with assms have "misc_heap h'" by (auto simp: misc_heap_def)
  with h' show ?thesis by blast
qed

interpretation ti: drain_loop heap_inv objs ID Deadline Peek Pop Upsert
  "\<lambda>n d. \<not> qnow < d" "misc_response Status_Current" "\<lambda>n. send_timeins qnow" for qnow
proof unfold_locales
  fix n :: nat and q
  show "send_timeins qnow q =
    (case Peek q of
       None \<Rightarrow> Inr ([], q)
     | Some x \<Rightarrow>
         if \<not> \<not> qnow < Deadline x then Inr ([], q)
         else rbind (Pop q) (\<lambda>(_, q'). rbind (misc_response Status_Current x) (\<lambda>out.
                rbind (send_timeins qnow q') (\<lambda>(outs, q''). Inr (out # outs, q'')))))"
    by (subst send_timeins.simps) (auto simp: rbind_def split: option.split sum.split)
qed auto

interpretation mo: drain_loop heap_inv objs ID Deadline Peek Pop Upsert
  "\<lambda>n d. d < qnow" "misc_response Status_Timeout" "\<lambda>n. send_timeouts qnow" for qnow
proof unfold_locales
  fix n :: nat and q
  show "send_timeouts qnow q =
    (case Peek q of
       None \<Rightarrow> Inr ([], q)
     | Some x \<Rightarrow>
         if \<not> Deadline x < qnow then Inr ([], q)
         else rbind (Pop q) (\<lambda>(_, q'). rbind (misc_response Status_Timeout x) (\<lambda>out.
                rbind (send_timeouts qnow q') (\<lambda>(outs, q''). Inr (out # outs, q'')))))"
    by (subst send_timeouts.simps) (auto simp: rbind_def split: option.split sum.split)
qed auto

lemma misc_sendTimeouts_drains:
  assumes "misc_inv t"
  shows "\<exists>ins outs t' xs ys. misc_sendTimeouts qnow t = Inr (ins @ outs, t') \<and> misc_inv t' \<and>
    map (misc_response Status_Current) xs = map Inr ins \<and>
    drained ID Deadline (\<lambda>n d. \<not> qnow < d) 0 (objs (timeinHeap t)) xs (objs (timeinHeap t')) \<and>
    map (misc_response Status_Timeout) ys = map Inr outs \<and>
    drained ID Deadline (\<lambda>n d. d < qnow) 0 (objs (mt_timeoutHeap t)) ys (objs (mt_timeoutHeap t'))"
proof -
  have inv: "misc_heap (timeinHeap t)" "misc_heap (mt_timeoutHeap t)" using assms by (auto simp: misc_inv_def)
  obtain ins h1 xs where 1: "send_timeins qnow (timeinHeap t) = Inr (ins, h1)" "heap_inv h1"
    "map (misc_response Status_Current) xs = map Inr ins"
    "drained ID Deadline (\<lambda>n d. \<not> qnow < d) 0 (objs (timeinHeap t)) xs (objs h1)"
    using ti.drain_correct [of "timeinHeap t" qnow 0] inv(1) misc_entry_emit
    unfolding misc_heap_def by meson
  obtain outs h2 ys where 2: "send_timeouts qnow (mt_timeoutHeap t) = Inr (outs, h2)" "heap_inv h2"
    "map (misc_response Status_Timeout) ys = map Inr outs"
    "drained ID Deadline (\<lambda>n d. d < qnow) 0 (objs (mt_timeoutHeap t)) ys (objs h2)"
    using mo.drain_correct [of "mt_timeoutHeap t" qnow 0] inv(2) misc_entry_emit
    unfolding misc_heap_def by meson
  let ?t = "t\<lparr>timeinHeap := h1, mt_timeoutHeap := h2\<rparr>"
  have "misc_sendTimeouts qnow t = Inr (ins @ outs, ?t)"
    by (simp add: misc_sendTimeouts_def 1(1) 2(1))
  moreover have "misc_inv ?t"
    using misc_heap_drained [OF 1(2) inv(1) 1(4)] misc_heap_drained [OF 2(2) inv(2) 2(4)]
    by (simp add: misc_inv_def)
  ultimately show ?thesis
    using 1(3,4) 2(3,4)
    by (intro exI [of _ ins] exI [of _ outs] exI [of _ ?t] exI [of _ xs] exI [of _ ys]) simp
qed

lemma misc_updateDeadlines_spec:
  fixes now :: time and ob :: go_object
  assumes "misc_inv t"
  defines "future \<equiv> now < CreationTime ob"
  defines "alive \<equiv> now < ExpirationTime ob"
  shows "\<exists>t'. misc_updateDeadlines now t ob = Inr (\<not> future \<and> alive, t') \<and> misc_inv t' \<and>
    objs (timeinHeap t') = (if future
      then (objs (timeinHeap t))(ob_ID ob \<mapsto> MiscTimeoutInfo ob (CreationTime ob))
      else objs (timeinHeap t)) \<and>
    objs (mt_timeoutHeap t') = (if future \<or> alive \<or> objs (mt_timeoutHeap t) (ob_ID ob) \<noteq> None
      then (objs (mt_timeoutHeap t))(ob_ID ob \<mapsto> MiscTimeoutInfo ob (ExpirationTime ob))
      else objs (mt_timeoutHeap t))"
proof -
  let ?ci = "MiscTimeoutInfo ob (CreationTime ob)" and ?ei = "MiscTimeoutInfo ob (ExpirationTime ob)"
  have inv: "misc_heap (timeinHeap t)" "misc_heap (mt_timeoutHeap t)"
    using assms by (auto simp: misc_inv_def)
  obtain h1 b1 where h1: "Upsert (timeinHeap t) ?ci = Inr (h1, b1)" "misc_heap h1"
    "objs h1 = (objs (timeinHeap t))(ob_ID ob \<mapsto> ?ci)"
    using misc_heap_Upsert [OF inv(1), of ?ci] by auto
  obtain h2 b2 where h2: "Upsert (mt_timeoutHeap t) ?ei = Inr (h2, b2)" "misc_heap h2"
    "objs h2 = (objs (mt_timeoutHeap t))(ob_ID ob \<mapsto> ?ei)"
    using misc_heap_Upsert [OF inv(2), of ?ei] by auto
  obtain h3 b3 where h3: "Upsert h2 ?ei = Inr (h3, b3)" "misc_heap h3"
    "objs h3 = (objs h2)(ob_ID ob \<mapsto> ?ei)"
    using misc_heap_Upsert [OF h2(2), of ?ei] by auto
  consider (future) future | (alive) "\<not> future" alive
    | (known) "\<not> future" "\<not> alive" "objs (mt_timeoutHeap t) (ob_ID ob) \<noteq> None"
    | (stale) "\<not> future" "\<not> alive" "objs (mt_timeoutHeap t) (ob_ID ob) = None" by blast
  then show ?thesis
  proof cases
    case future
    let ?t = "t\<lparr>timeinHeap := h1, mt_timeoutHeap := h3\<rparr>"
    have "objs h2 (ob_ID ob) \<noteq> None" by (simp add: h2(3))
    then have "misc_updateDeadlines now t ob = Inr (False, ?t)"
      using future h1(1) h2(1,2) h3(1)
      by (simp add: misc_updateDeadlines_def Let_def future_def misc_heap_def Exists_objs)
    moreover have "misc_inv ?t" by (simp add: misc_inv_def h1(2) h3(2))
    ultimately show ?thesis using future by (intro exI [of _ ?t]) (simp add: h1(3) h2(3) h3(3))
  next
    case alive
    let ?t = "t\<lparr>mt_timeoutHeap := h2\<rparr>"
    have "misc_updateDeadlines now t ob = Inr (True, ?t)"
      using alive h2(1) by (simp add: misc_updateDeadlines_def Let_def future_def alive_def)
    moreover have "misc_inv ?t" by (simp add: misc_inv_def inv(1) h2(2))
    ultimately show ?thesis using alive by (intro exI [of _ ?t]) (simp add: h2(3))
  next
    case known
    let ?t = "t\<lparr>mt_timeoutHeap := h2\<rparr>"
    have "misc_updateDeadlines now t ob = Inr (False, ?t)"
      using known h2(1) inv(2)
      by (simp add: misc_updateDeadlines_def Let_def future_def alive_def misc_heap_def Exists_objs)
    moreover have "misc_inv ?t" by (simp add: misc_inv_def inv(1) h2(2))
    ultimately show ?thesis using known by (intro exI [of _ ?t]) (simp add: h2(3))
  next
    case stale
    have "misc_updateDeadlines now t ob = Inr (False, t)"
      using stale inv(2)
      by (simp add: misc_updateDeadlines_def Let_def future_def alive_def misc_heap_def Exists_objs)
    with stale assms(1) show ?thesis by (intro exI [of _ t]) simp
  qed
qed

lemma misc_step_inv:
  assumes "misc_inv t"
  shows "\<exists>out t' c. misc_step now t ev = Inr (out, t', c) \<and> misc_inv t'"
proof (cases ev)
  case MTimer
  with misc_sendTimeouts_drains [OF assms, of now] show ?thesis by auto
next
  case (MData d)
  show ?thesis
  proof (cases "gr_Contents d")
    case (Some ob)
    with MData misc_updateDeadlines_spec [OF assms, where now = now and ob = ob] show ?thesis by fastforce
  qed (use MData assms in auto)
qed (use assms in auto)

lemma misc_run_inv: "misc_inv t \<Longrightarrow> \<exists>out t'. misc_run t evs = Inr (out, t') \<and> misc_inv t'"
proof (induction evs arbitrary: t)
  case (Cons e evs)
  obtain now ev where e: "e = (now, ev)" by (cases e)
  obtain out t' c where s: "misc_step now t ev = Inr (out, t', c)" "misc_inv t'"
    using misc_step_inv [OF Cons.prems] by meson
  with Cons.IH [OF s(2)] show ?case by (cases c) (auto simp: e)
qed simp

lemma misc_inv_init: "misc_inv MiscTimeoutStream"
  by (simp add: misc_inv_def misc_heap_def MiscTimeoutStream_def heap_inv_empty objs_empty)

section \<open>Properties\<close>

text \<open>The object stage never panics and keeps both heaps consistent, over any sequence of
  incoming objects, timer expiries and cancellations; no hypothesis on the input is needed.\<close>

theorem misc_stage_safe: "\<exists>out t. misc_run MiscTimeoutStream evs = Inr (out, t) \<and> misc_inv t"
  by (rule misc_run_inv [OF misc_inv_init])

text \<open>An incoming object is passed on at once exactly when it has been created and has not
  expired. A future object enters the time-in heap with its creation time; the time-out heap
  learns its expiration time when it is in the future, alive or already known, and the heaps are
  otherwise unchanged.\<close>

theorem misc_updateDeadlines_exact:
  assumes "misc_inv t"
  shows "\<exists>t'. misc_updateDeadlines now t ob = Inr (CreationTime ob \<le> now \<and> now < ExpirationTime ob, t') \<and>
    objs (timeinHeap t') = (if now < CreationTime ob
      then (objs (timeinHeap t))(ob_ID ob \<mapsto> MiscTimeoutInfo ob (CreationTime ob))
      else objs (timeinHeap t)) \<and>
    objs (mt_timeoutHeap t') =
      (if now < CreationTime ob \<or> now < ExpirationTime ob \<or> objs (mt_timeoutHeap t) (ob_ID ob) \<noteq> None
       then (objs (mt_timeoutHeap t))(ob_ID ob \<mapsto> MiscTimeoutInfo ob (ExpirationTime ob))
       else objs (mt_timeoutHeap t))"
  using misc_updateDeadlines_spec [OF assms, where now = now and ob = ob] unfolding not_less by blast

theorem misc_updateDeadlines_exact_witness:
  "\<exists>t'. misc_updateDeadlines 5 MiscTimeoutStream
      \<lparr>ob_ID = ''o'', CreationTime = 1, ExpirationTime = 9, ob_Data = []\<rparr> = Inr (True, t')"
  using misc_updateDeadlines_exact [OF misc_inv_init, of 5
      "\<lparr>ob_ID = ''o'', CreationTime = 1, ExpirationTime = 9, ob_Data = []\<rparr>"] by auto

text \<open>When its timer fires, the object stage first announces every object whose creation time
  is reached and then expires every object whose expiration time has passed, each group in the
  order of its times; both heaps lose exactly these objects.\<close>

theorem misc_sendTimeouts_exact:
  assumes "misc_inv t"
  shows "\<exists>ins outs t' xs ys. misc_sendTimeouts qnow t = Inr (ins @ outs, t') \<and>
    map (misc_response Status_Current) xs = map Inr ins \<and>
    drained ID Deadline (\<lambda>n d. d \<le> qnow) 0 (objs (timeinHeap t)) xs (objs (timeinHeap t')) \<and>
    map (misc_response Status_Timeout) ys = map Inr outs \<and>
    drained ID Deadline (\<lambda>n d. d < qnow) 0 (objs (mt_timeoutHeap t)) ys (objs (mt_timeoutHeap t'))"
  using misc_sendTimeouts_drains [OF assms, of qnow] unfolding not_less by blast

theorem misc_sendTimeouts_exact_witness:
  "\<exists>ins outs t'. misc_sendTimeouts 5 MiscTimeoutStream = Inr (ins @ outs, t')"
  using misc_sendTimeouts_exact [OF misc_inv_init, of 5] by blast

end
