(* ===== verification/Track_Merge.thy ===== *)
theory Track_Merge
  imports Track_Types
begin

text \<open>
  \<^verbatim>\<open>tms/db/track_merge.go\<close>, the merger's memory: the in-memory tracks, the insertion of targets
  and metadata into them, and the reaction of the service goroutine to one received message
  (\<open>drain\<close>). The goroutines that feed it and the channels between them are in \<open>Merge_Service\<close>.

  \<open>insertTarget\<close> and \<open>insertMetadata\<close> are the same code over two element types; both are
  instances of \<open>merge_insert\<close>, which takes the accessors of \<^verbatim>\<open>Type\<close> and \<^verbatim>\<open>Time\<close>. List elements
  are pointers. A track sent on \<^verbatim>\<open>ch\<close> is recorded with the value it has when it is sent. The
  order in which \<^verbatim>\<open>range m.tracks\<close> visits the map is the argument \<open>ord\<close>.
\<close>

section \<open>Definitions\<close>

datatype merge_mode = MergeMode_None | MergeMode_TrackID | OtherMergeMode nat

record merge_options =
  Mode :: merge_mode
  Historical :: bool

definition DefaultMergeOptions :: merge_options where
  "DefaultMergeOptions = \<lparr>Mode = MergeMode_None, Historical = False\<rparr>"

record TrackMerger =
  opts :: merge_options
  Disable :: bool
  backlogCount :: int
  liveCount :: int
  setupFinished :: bool
  streamOut :: bool
  ch :: "track_update list"
  tracks :: "string \<rightharpoonup> track"
  idmap :: "string \<Rightarrow> string"
  count :: "64 word"
  total :: "64 word"

definition simpleMerge :: "string \<Rightarrow> string" where
  "simpleMerge t = t"

definition NewTrackMerger :: "merge_options \<Rightarrow> TrackMerger res" where
  "NewTrackMerger os =
     rbind (case Mode os of
              MergeMode_None \<Rightarrow> Inr True
            | MergeMode_TrackID \<Rightarrow> Inr False
            | OtherMergeMode n \<Rightarrow> Inl (Panic ''unknown merge mode''))
       (\<lambda>disable. Inr
          \<lparr>opts = os, Disable = disable, backlogCount = 0, liveCount = 0, setupFinished = False,
           streamOut = (\<not> Historical os), ch = [], tracks = Map.empty, idmap = simpleMerge,
           count = 0, total = 0\<rparr>)"

text \<open>The ordering test of the scan, with the short-circuit evaluation of the source: a Fusion
  item goes before a non-Fusion one without a look at the times.\<close>

definition item_before ::
  "('a \<Rightarrow> device_type) \<Rightarrow> ('a \<Rightarrow> timestamp option) \<Rightarrow> 'a option \<Rightarrow> 'a option \<Rightarrow> bool res"
where
  "item_before ty tm n i =
     rbind (deref n) (\<lambda>n.
     rbind (if ty n = DeviceType_Fusion
            then rbind (deref i) (\<lambda>i. Inr (ty i \<noteq> DeviceType_Fusion)) else Inr False) (\<lambda>fusion.
     if fusion then Inr True
     else rbind (deref (tm n)) (\<lambda>tn.
          rbind (deref i) (\<lambda>i.
          rbind (deref (tm i)) (\<lambda>ti.
            Inr (Seconds ti < Seconds tn \<or> (Seconds tn = Seconds ti \<and> Nanos ti \<le> Nanos tn)))))))"

fun scan_pos ::
  "('a option \<Rightarrow> 'a option \<Rightarrow> bool) \<Rightarrow> ('a \<Rightarrow> device_type) \<Rightarrow> ('a \<Rightarrow> timestamp option) \<Rightarrow> 'a option \<Rightarrow>
   int \<Rightarrow> int \<Rightarrow> int \<Rightarrow> 'a option list \<Rightarrow> (int \<times> int) res"
where
  "scan_pos repl ty tm n i ipos rpos [] = Inr (ipos, rpos)"
| "scan_pos repl ty tm n i ipos rpos (x # xs) =
     rbind (if ipos < 0 then rbind (item_before ty tm n x) (\<lambda>b. Inr (if b then i else ipos))
            else Inr ipos) (\<lambda>ipos'.
       scan_pos repl ty tm n (i + 1) ipos' (if rpos = -1 \<and> repl n x then i else rpos) xs)"

text \<open>The final placement at \<open>ipos\<close>, removing \<open>rpos\<close> when there is one.\<close>

definition place_item :: "int \<Rightarrow> int \<Rightarrow> 'a option \<Rightarrow> 'a option list \<Rightarrow> 'a option list" where
  "place_item ipos rpos n xs =
     (let ip = nat ipos; rp = nat rpos in
      if rpos = -1 then (let ys = xs @ [None] in (go_copy ys (ip + 1) (drop ip ys))[ip := n])
      else if ipos = rpos then xs[ip := n]
      else if rpos < ipos then (go_copy xs rp (slice xs (rp + 1) ip))[ip := n]
      else (go_copy xs (ip + 1) (slice xs ip rp))[ip := n])"

definition merge_insert ::
  "('a option \<Rightarrow> 'a option \<Rightarrow> bool) \<Rightarrow> ('a \<Rightarrow> device_type) \<Rightarrow> ('a \<Rightarrow> timestamp option) \<Rightarrow> bool \<Rightarrow>
   'a option \<Rightarrow> 'a option list \<Rightarrow> (bool \<times> 'a option list) res"
where
  "merge_insert repl ty tm historical n xs =
     rbind (scan_pos repl ty tm n 0 (-1) (-1) xs) (\<lambda>(ipos, rpos0).
     let rpos = (if historical then -1 else rpos0) in
     rbind (if 0 \<le> rpos
            then rbind (deref (xs ! nat rpos)) (\<lambda>o'. rbind (deref n) (\<lambda>n'.
                   Inr (\<not> FromTimestamp (tm o') < FromTimestamp (tm n'))))
            else Inr False) (\<lambda>stale.
     if stale then Inr (False, xs)
     else Inr (True, place_item (if ipos = -1 then 0 else ipos) rpos n xs)))"

definition targetReplaces :: "target option \<Rightarrow> target option \<Rightarrow> bool" where
  "targetReplaces n o' \<longleftrightarrow> True"

definition insertTarget :: "bool \<Rightarrow> target option \<Rightarrow> track \<Rightarrow> (bool \<times> track) res" where
  "insertTarget historical tgt tr =
     rbind (merge_insert targetReplaces tg_Type tg_Time historical tgt (tr_Targets tr))
       (\<lambda>(b, xs). Inr (b, tr\<lparr>tr_Targets := xs\<rparr>))"

definition metadataReplaces :: "track_metadata option \<Rightarrow> track_metadata option \<Rightarrow> bool" where
  "metadataReplaces n o' \<longleftrightarrow> True"

definition insertMetadata :: "bool \<Rightarrow> track_metadata option \<Rightarrow> track \<Rightarrow> (bool \<times> track) res" where
  "insertMetadata historical meta tr =
     rbind (merge_insert metadataReplaces md_Type md_Time historical meta (tr_Metadata tr))
       (\<lambda>(b, xs). Inr (b, tr\<lparr>tr_Metadata := xs\<rparr>))"

text \<open>\<^verbatim>\<open>getTrack\<close>: nil for an empty id, otherwise the track in memory, created on demand.\<close>

definition getTrack :: "TrackMerger \<Rightarrow> string \<Rightarrow> track option \<times> TrackMerger" where
  "getTrack m i =
     (if i = '''' then (None, m)
      else let mid = idmap m i in
           case tracks m mid of
             Some tr \<Rightarrow> (Some tr, m)
           | None \<Rightarrow>
               let n = \<lparr>tr_Id = mid, tr_Targets = [], tr_Metadata = []\<rparr>
               in (Some n, m\<lparr>tracks := (tracks m)(mid \<mapsto> n)\<rparr>))"

text \<open>The method \<^verbatim>\<open>track\<close>.\<close>

definition emit :: "TrackMerger \<Rightarrow> status \<Rightarrow> track option \<Rightarrow> TrackMerger" where
  "emit m st tr = m\<lparr>ch := ch m @ [\<lparr>tu_Status = st, tu_Track = tr\<rparr>]\<rparr>"

definition count_up :: "TrackMerger \<Rightarrow> TrackMerger" where
  "count_up m = m\<lparr>count := count m + 1, total := total m + 1\<rparr>"

definition send_track :: "TrackMerger \<Rightarrow> track \<Rightarrow> TrackMerger res" where
  "send_track m tr =
     (if Disable m then
        rbind (case tracks m (tr_Id tr) of
                 None \<Rightarrow> Inr False
               | Some prev \<Rightarrow>
                   rbind (Track_Time tr) (\<lambda>a. rbind (Track_Time prev) (\<lambda>b. Inr (a < b)))) (\<lambda>old.
          if old then Inr m
          else Inr (count_up (emit (m\<lparr>tracks := (tracks m)(tr_Id tr \<mapsto> tr)\<rparr>) Status_Current (Some tr))))
      else if 0 < length (tr_Targets tr) \<and> streamOut m then
        Inr (count_up (emit m Status_Current (Some tr)))
      else Inr m)"

text \<open>The two loops of \<^verbatim>\<open>object\<close> over the pointer \<open>memTrack\<close>.\<close>

fun insert_loop ::
  "('b \<Rightarrow> track \<Rightarrow> (bool \<times> track) res) \<Rightarrow> 'b list \<Rightarrow> track option \<Rightarrow> bool \<Rightarrow> (track option \<times> bool) res"
where
  "insert_loop ins [] mem send = Inr (mem, send)"
| "insert_loop ins (x # xs) mem send =
     rbind (deref mem) (\<lambda>tr. rbind (ins x tr) (\<lambda>(b, tr').
       insert_loop ins xs (Some tr') (if b then True else send)))"

definition object :: "TrackMerger \<Rightarrow> track_update \<Rightarrow> TrackMerger res" where
  "object m obj =
     (case tu_Track obj of
        None \<Rightarrow> Inr m
      | Some tr \<Rightarrow>
          if Disable m then send_track m tr
          else
            let (mem, m1) = getTrack m (tr_Id tr); hist = Historical (opts m) in
            rbind (insert_loop (insertTarget hist) (tr_Targets tr) mem False) (\<lambda>(mem1, send1).
            rbind (insert_loop (insertMetadata hist) (tr_Metadata tr) mem1 send1) (\<lambda>(mem2, send2).
            let m2 = (case mem2 of
                        None \<Rightarrow> m1
                      | Some t2 \<Rightarrow> m1\<lparr>tracks := (tracks m1)(idmap m (tr_Id tr) \<mapsto> t2)\<rparr>) in
            if send2 then rbind (deref mem2) (send_track m2) else Inr m2)))"

definition sendAll :: "string list \<Rightarrow> TrackMerger \<Rightarrow> TrackMerger" where
  "sendAll ord m =
     (let m1 = (if Disable m then m
                else fold (\<lambda>k m. count_up (emit m Status_Current (tracks m k))) ord m)
      in emit m1 Status_InitialLoadDone None)"

datatype drain_event =
    Canceled
  | Tick
  | FromBacklog track_update
  | FromLive track_update

definition on_backlog :: "TrackMerger \<Rightarrow> track_update \<Rightarrow> TrackMerger res" where
  "on_backlog m obj =
     (case tu_Status obj of
        Status_Starting \<Rightarrow> Inr (m\<lparr>backlogCount := backlogCount m + 1\<rparr>)
      | Status_Closing \<Rightarrow> Inr (m\<lparr>backlogCount := backlogCount m - 1\<rparr>)
      | Status_InitialLoadDone \<Rightarrow> Inr (m\<lparr>backlogCount := backlogCount m - 1\<rparr>)
      | Status_SetupDone \<Rightarrow> Inr (m\<lparr>setupFinished := True\<rparr>)
      | _ \<Rightarrow> object m obj)"

definition on_live :: "TrackMerger \<Rightarrow> track_update \<Rightarrow> TrackMerger res" where
  "on_live m obj =
     (case tu_Status obj of
        Status_Starting \<Rightarrow> Inr (m\<lparr>liveCount := liveCount m + 1\<rparr>)
      | Status_Closing \<Rightarrow> Inr (m\<lparr>liveCount := liveCount m - 1\<rparr>)
      | Status_InitialLoadDone \<Rightarrow> Inr (m\<lparr>liveCount := liveCount m - 1\<rparr>)
      | Status_SetupDone \<Rightarrow> Inr (m\<lparr>setupFinished := True\<rparr>)
      | _ \<Rightarrow> object m obj)"

text \<open>The check after the \<^verbatim>\<open>select\<close>: turn the output on once every backlog is through.\<close>

definition stream_out :: "string list \<Rightarrow> TrackMerger \<Rightarrow> TrackMerger" where
  "stream_out ord m =
     (if \<not> streamOut m \<and> setupFinished m \<and> backlogCount m = 0
      then sendAll ord (m\<lparr>streamOut := True\<rparr>) else m)"

text \<open>\<^verbatim>\<open>drain\<close> returns whether the service is to die.\<close>

fun drain :: "string list \<Rightarrow> TrackMerger \<Rightarrow> drain_event \<Rightarrow> (bool \<times> TrackMerger) res" where
  "drain ord m Canceled = Inr (True, m)"
| "drain ord m Tick = Inr (False, stream_out ord (m\<lparr>count := 0\<rparr>))"
| "drain ord m (FromBacklog obj) = rbind (on_backlog m obj) (\<lambda>m'. Inr (False, stream_out ord m'))"
| "drain ord m (FromLive obj) = rbind (on_live m obj) (\<lambda>m'. Inr (False, stream_out ord m'))"

text \<open>The loop condition of \<^verbatim>\<open>Service\<close>, less \<^verbatim>\<open>die\<close>.\<close>

definition serving :: "TrackMerger \<Rightarrow> bool" where
  "serving m \<longleftrightarrow> \<not> setupFinished m \<or> 0 < backlogCount m \<or> 0 < liveCount m"


section \<open>Ordering of targets and metadata\<close>

definition has_time :: "('a \<Rightarrow> timestamp option) \<Rightarrow> 'a option \<Rightarrow> bool" where
  "has_time tm p \<longleftrightarrow> (case p of None \<Rightarrow> False | Some x \<Rightarrow> tm x \<noteq> None)"

definition stamp :: "('a \<Rightarrow> timestamp option) \<Rightarrow> 'a option \<Rightarrow> timestamp" where
  "stamp tm p = the (tm (the p))"

definition stamp_le :: "timestamp \<Rightarrow> timestamp \<Rightarrow> bool" where
  "stamp_le a b \<longleftrightarrow> Seconds a < Seconds b \<or> Seconds a = Seconds b \<and> Nanos a \<le> Nanos b"

definition is_fusion :: "('a \<Rightarrow> device_type) \<Rightarrow> 'a option \<Rightarrow> bool" where
  "is_fusion ty p \<longleftrightarrow> ty (the p) = DeviceType_Fusion"

definition newest_first :: "('a \<Rightarrow> timestamp option) \<Rightarrow> 'a option list \<Rightarrow> bool" where
  "newest_first tm xs \<longleftrightarrow> sorted_wrt (\<lambda>a b. stamp_le (stamp tm b) (stamp tm a)) xs"

text \<open>The time of an item as the replacement check computes it.\<close>

definition item_time :: "('a \<Rightarrow> timestamp option) \<Rightarrow> 'a option \<Rightarrow> time" where
  "item_time tm p = FromTimestamp (tm (the p))"

text \<open>\<open>ys\<close> keeps one newest item of the candidates \<open>xs\<close>.\<close>

definition keeps_newest :: "('a \<Rightarrow> timestamp option) \<Rightarrow> 'a option list \<Rightarrow> 'a option list \<Rightarrow> bool" where
  "keeps_newest tm xs ys \<longleftrightarrow>
     (xs = [] \<and> ys = []) \<or>
     (\<exists>y\<in>set xs. ys = [y] \<and> (\<forall>x\<in>set xs. item_time tm x \<le> item_time tm y))"

lemma stamp_le_linear: "stamp_le a b \<or> stamp_le b a"
  by (auto simp: stamp_le_def)

lemma stamp_le_trans: "stamp_le a b \<Longrightarrow> stamp_le b c \<Longrightarrow> stamp_le a c"
  by (auto simp: stamp_le_def)

definition goes_before ::
  "('a \<Rightarrow> device_type) \<Rightarrow> ('a \<Rightarrow> timestamp option) \<Rightarrow> 'a option \<Rightarrow> 'a option \<Rightarrow> bool"
where
  "goes_before ty tm n i \<longleftrightarrow>
     (is_fusion ty n \<and> \<not> is_fusion ty i) \<or> stamp_le (stamp tm i) (stamp tm n)"

lemma item_before_timed:
  "has_time tm n \<Longrightarrow> has_time tm i \<Longrightarrow> item_before ty tm n i = Inr (goes_before ty tm n i)"
  by (cases n; cases i)
    (auto simp: has_time_def item_before_def goes_before_def is_fusion_def stamp_le_def stamp_def)

text \<open>Processing a list of items with \<open>merge_insert\<close>, as the loops of \<open>object\<close> do.\<close>

fun insert_items ::
  "('a option \<Rightarrow> 'a option list \<Rightarrow> (bool \<times> 'a option list) res) \<Rightarrow> 'a option list \<Rightarrow> 'a option list \<Rightarrow>
   bool \<Rightarrow> ('a option list \<times> bool) res"
where
  "insert_items ins [] xs send = Inr (xs, send)"
| "insert_items ins (n # ns) xs send =
     rbind (ins n xs) (\<lambda>(b, xs'). insert_items ins ns xs' (if b then True else send))"

locale merge_item =
  fixes repl :: "'a option \<Rightarrow> 'a option \<Rightarrow> bool"
    and ty :: "'a \<Rightarrow> device_type"
    and tm :: "'a \<Rightarrow> timestamp option"
  assumes replaces: "repl n i"
begin

lemma scan_found:
  "0 \<le> ipos \<Longrightarrow> 0 \<le> i \<Longrightarrow> scan_pos repl ty tm n i ipos rpos xs =
     Inr (ipos, if rpos = -1 \<and> xs \<noteq> [] then i else rpos)"
proof (induction xs arbitrary: i rpos)
  case (Cons x xs)
  then show ?case by (auto simp: replaces [of n x])
qed simp

lemma scan_timed:
  assumes "has_time tm n" "\<forall>x\<in>set xs. has_time tm x" "0 \<le> i"
  shows "scan_pos repl ty tm n i (-1) rpos xs =
    Inr (if \<exists>x\<in>set xs. goes_before ty tm n x
         then i + int (length (takeWhile (\<lambda>x. \<not> goes_before ty tm n x) xs)) else -1,
         if rpos = -1 \<and> xs \<noteq> [] then i else rpos)"
  using assms(2,3)
proof (induction xs arbitrary: i rpos)
  case (Cons x xs)
  have b: "item_before ty tm n x = Inr (goes_before ty tm n x)"
    using assms(1) Cons.prems(1) by (simp add: item_before_timed)
  show ?case
  proof (cases "goes_before ty tm n x")
    case True
    with b Cons.prems(2) show ?thesis by (auto simp: scan_found replaces [of n x])
  next
    case False
    with b Cons.IH [of "i + 1"] Cons.prems show ?thesis by (auto simp: replaces [of n x])
  qed
qed simp

lemma insert_historical:
  assumes "has_time tm n" "\<forall>x\<in>set xs. has_time tm x"
  shows "merge_insert repl ty tm True n xs = Inr (True,
    if \<exists>x\<in>set xs. goes_before ty tm n x
    then takeWhile (\<lambda>x. \<not> goes_before ty tm n x) xs @ n # dropWhile (\<lambda>x. \<not> goes_before ty tm n x) xs
    else n # xs)"
proof -
  let ?k = "length (takeWhile (\<lambda>x. \<not> goes_before ty tm n x) xs)"
  have k: "?k \<le> length xs" by (rule length_takeWhile_le)
  have t: "take ?k xs = takeWhile (\<lambda>x. \<not> goes_before ty tm n x) xs"
    "drop ?k xs = dropWhile (\<lambda>x. \<not> goes_before ty tm n x) xs"
    by (rule takeWhile_eq_take [symmetric], rule dropWhile_eq_drop [symmetric])
  have "place_item (int i) (-1) n xs = take i xs @ n # drop i xs" if "i \<le> length xs" for i
    using append_shift_insert [OF that, of None n] by (simp add: place_item_def Let_def)
  from this [OF k] this [of 0] show ?thesis
    using scan_timed [OF assms, of 0 "-1"] by (simp add: merge_insert_def t)
qed

lemma insert_fresh: "merge_insert repl ty tm h n [] = Inr (True, [n])"
  by (simp add: merge_insert_def place_item_def go_copy_def)

lemma insert_latest:
  assumes "has_time tm n" "has_time tm x"
  shows "merge_insert repl ty tm False n [x] =
    Inr (if item_time tm x < item_time tm n then (True, [n]) else (False, [x]))"
proof -
  from assms obtain n' x' where "n = Some n'" "x = Some x'" by (auto simp: has_time_def split: option.splits)
  then show ?thesis
    using scan_timed [of n "[x]" 0 "-1"] assms
    by (auto simp: merge_insert_def place_item_def item_time_def)
qed

lemma insert_items_latest:
  assumes "\<forall>x\<in>set ns. has_time tm x" "\<forall>x\<in>set xs. has_time tm x" "length xs \<le> 1"
  shows "\<exists>ys s'. insert_items (merge_insert repl ty tm False) ns xs s = Inr (ys, s') \<and>
    keeps_newest tm (xs @ ns) ys \<and> (s' \<longleftrightarrow> s \<or> ys \<noteq> xs) \<and>
    (xs = [] \<or> ys = xs \<or> item_time tm (hd xs) < item_time tm (hd ys))"
  using assms
proof (induction ns arbitrary: xs s)
  case Nil
  then show ?case by (cases xs) (auto simp: keeps_newest_def)
next
  case (Cons n ns)
  show ?case
  proof (cases xs)
    case Nil
    obtain ys s' where
      "insert_items (merge_insert repl ty tm False) ns [n] True = Inr (ys, s')"
      "keeps_newest tm ([n] @ ns) ys" "s' \<longleftrightarrow> True \<or> ys \<noteq> [n]"
      using Cons.IH [of "[n]" True] Cons.prems by auto
    moreover from this have "ys \<noteq> []" by (auto simp: keeps_newest_def)
    ultimately show ?thesis using Nil by (simp add: insert_fresh)
  next
    case (Cons x xs')
    with Cons.prems have x: "xs = [x]" "has_time tm x" "has_time tm n" by auto
    show ?thesis
    proof (cases "item_time tm x < item_time tm n")
      case True
      then have ne: "n \<noteq> x" by auto
      obtain ys s' where ys: "insert_items (merge_insert repl ty tm False) ns [n] True = Inr (ys, s')"
        "keeps_newest tm ([n] @ ns) ys" "s'" "ys = [n] \<or> item_time tm n < item_time tm (hd ys)"
        using Cons.IH [of "[n]" True] Cons.prems by auto
      have "insert_items (merge_insert repl ty tm False) (n # ns) xs s = Inr (ys, s')"
        using ys(1) x(1) insert_latest [OF x(3,2)] True by simp
      moreover have "keeps_newest tm (xs @ n # ns) ys"
        using ys(2) x(1) True by (fastforce simp: keeps_newest_def)
      ultimately show ?thesis using ys(3,4) x(1) True ne by auto
    next
      case False
      obtain ys s' where ys: "insert_items (merge_insert repl ty tm False) ns [x] s = Inr (ys, s')"
        "keeps_newest tm ([x] @ ns) ys" "s' \<longleftrightarrow> s \<or> ys \<noteq> [x]" "ys = [x] \<or> item_time tm x < item_time tm (hd ys)"
        using Cons.IH [of "[x]" s] Cons.prems x by auto
      have "insert_items (merge_insert repl ty tm False) (n # ns) xs s = Inr (ys, s')"
        using ys(1) x(1) insert_latest [OF x(3,2)] False by simp
      moreover have "keeps_newest tm (xs @ n # ns) ys"
        using ys(2) x(1) False by (fastforce simp: keeps_newest_def)
      ultimately show ?thesis using ys(3,4) x(1) by auto
    qed
  qed
qed

end

interpretation tg: merge_item targetReplaces tg_Type tg_Time
  by unfold_locales (simp add: targetReplaces_def)

interpretation md: merge_item metadataReplaces md_Type md_Time
  by unfold_locales (simp add: metadataReplaces_def)

section \<open>The merger's memory\<close>

lemma insert_loop_targets:
  "insert_loop (insertTarget h) ts (Some tr) s =
     rbind (insert_items (merge_insert targetReplaces tg_Type tg_Time h) ts (tr_Targets tr) s)
       (\<lambda>(ys, s'). Inr (Some (tr\<lparr>tr_Targets := ys\<rparr>), s'))"
  by (induction ts arbitrary: tr s) (auto simp: insertTarget_def split: rbind_split)

lemma insert_loop_metadata:
  "insert_loop (insertMetadata h) ts (Some tr) s =
     rbind (insert_items (merge_insert metadataReplaces md_Type md_Time h) ts (tr_Metadata tr) s)
       (\<lambda>(ys, s'). Inr (Some (tr\<lparr>tr_Metadata := ys\<rparr>), s'))"
  by (induction ts arbitrary: tr s) (auto simp: insertMetadata_def split: rbind_split)

definition timed_track :: "track \<Rightarrow> bool" where
  "timed_track tr \<longleftrightarrow>
     (\<forall>x\<in>set (tr_Targets tr). has_time tg_Time x) \<and> (\<forall>x\<in>set (tr_Metadata tr). has_time md_Time x)"

text \<open>What a merger that is enabled and keeps no history has in memory.\<close>

definition latest_inv :: "TrackMerger \<Rightarrow> bool" where
  "latest_inv m \<longleftrightarrow> \<not> Disable m \<and> \<not> Historical (opts m) \<and> idmap m = simpleMerge \<and>
     (\<forall>k tr. tracks m k = Some tr \<longrightarrow> tr_Id tr = k \<and> timed_track tr \<and>
        length (tr_Targets tr) \<le> 1 \<and> length (tr_Metadata tr) \<le> 1)"

text \<open>The track in memory under an id, an empty one if there is none.\<close>

definition mem_track :: "TrackMerger \<Rightarrow> string \<Rightarrow> track" where
  "mem_track m i =
     (case tracks m i of None \<Rightarrow> \<lparr>tr_Id = i, tr_Targets = [], tr_Metadata = []\<rparr> | Some tr \<Rightarrow> tr)"

lemma mem_track_inv:
  assumes "latest_inv m"
  shows "tr_Id (mem_track m i) = i" "timed_track (mem_track m i)"
    "length (tr_Targets (mem_track m i)) \<le> 1" "length (tr_Metadata (mem_track m i)) \<le> 1"
  using assms by (auto simp: latest_inv_def mem_track_def timed_track_def split: option.splits)

lemma getTrack_mem:
  "i \<noteq> '''' \<Longrightarrow> idmap m = simpleMerge \<Longrightarrow>
   getTrack m i = (Some (mem_track m i), m\<lparr>tracks := (tracks m)(i \<mapsto> mem_track m i)\<rparr>)"
  by (auto simp: getTrack_def mem_track_def simpleMerge_def Let_def fun_upd_idem split: option.splits)

lemma keeps_newest_sub: "keeps_newest tm xs ys \<Longrightarrow> set ys \<subseteq> set xs \<and> length ys \<le> 1"
  by (auto simp: keeps_newest_def)

lemma latest_inv_emit: "latest_inv (count_up (emit m st tr)) \<longleftrightarrow> latest_inv m"
  by (simp add: latest_inv_def count_up_def emit_def)

lemma object_latest:
  assumes inv: "latest_inv m" and upd: "tu_Track obj = Some tr" "tr_Id tr \<noteq> ''''" "timed_track tr"
  defines "old \<equiv> mem_track m (tr_Id tr)"
  shows "\<exists>m' new. object m obj = Inr m' \<and> latest_inv m' \<and>
    tracks m' = (tracks m)(tr_Id tr \<mapsto> new) \<and> tr_Id new = tr_Id tr \<and>
    keeps_newest tg_Time (tr_Targets old @ tr_Targets tr) (tr_Targets new) \<and>
    keeps_newest md_Time (tr_Metadata old @ tr_Metadata tr) (tr_Metadata new) \<and>
    ch m' = ch m @ (if new \<noteq> old \<and> tr_Targets new \<noteq> [] \<and> streamOut m
                    then [\<lparr>tu_Status = Status_Current, tu_Track = Some new\<rparr>] else [])"
proof -
  note old = mem_track_inv [OF inv, of "tr_Id tr", folded old_def]
  from old(2) have ot: "\<forall>x\<in>set (tr_Targets old). has_time tg_Time x" "\<forall>x\<in>set (tr_Metadata old). has_time md_Time x"
    by (auto simp: timed_track_def)
  from upd(3) have nt: "\<forall>x\<in>set (tr_Targets tr). has_time tg_Time x" "\<forall>x\<in>set (tr_Metadata tr). has_time md_Time x"
    by (auto simp: timed_track_def)
  obtain ts s1 where ts:
    "insert_items (merge_insert targetReplaces tg_Type tg_Time False) (tr_Targets tr) (tr_Targets old) False = Inr (ts, s1)"
    "keeps_newest tg_Time (tr_Targets old @ tr_Targets tr) ts" "s1 \<longleftrightarrow> ts \<noteq> tr_Targets old"
    using tg.insert_items_latest [OF nt(1) ot(1) old(3), of False] by auto
  obtain ms s2 where ms:
    "insert_items (merge_insert metadataReplaces md_Type md_Time False) (tr_Metadata tr) (tr_Metadata old) s1 = Inr (ms, s2)"
    "keeps_newest md_Time (tr_Metadata old @ tr_Metadata tr) ms" "s2 \<longleftrightarrow> s1 \<or> ms \<noteq> tr_Metadata old"
    using md.insert_items_latest [OF nt(2) ot(2) old(4), of s1] by auto
  let ?new = "old\<lparr>tr_Targets := ts, tr_Metadata := ms\<rparr>"
  let ?m = "m\<lparr>tracks := (tracks m)(tr_Id tr \<mapsto> ?new)\<rparr>"
  let ?m' = "if s2 \<and> ts \<noteq> [] \<and> streamOut m then count_up (emit ?m Status_Current (Some ?new)) else ?m"
  have fl: "\<not> Disable m" "\<not> Historical (opts m)" "idmap m = simpleMerge"
    using inv by (auto simp: latest_inv_def)
  have s2: "s2 \<longleftrightarrow> ?new \<noteq> old" using ts(3) ms(3) by (cases old) auto
  have "object m obj = Inr ?m'"
    using fl upd(1,2) ts(1) ms(1)
    by (simp add: object_def getTrack_mem old_def [symmetric] insert_loop_targets insert_loop_metadata
        simpleMerge_def send_track_def Let_def)
  moreover have new: "timed_track ?new" "length ts \<le> 1" "length ms \<le> 1"
    using keeps_newest_sub [OF ts(2)] keeps_newest_sub [OF ms(2)] ot nt by (auto simp: timed_track_def)
  moreover have "latest_inv ?m"
    using inv new old(1) by (auto simp: latest_inv_def)
  then have "latest_inv ?m'" by (simp add: latest_inv_emit)
  moreover have "tracks ?m' = (tracks m)(tr_Id tr \<mapsto> ?new)" by (simp add: count_up_def emit_def)
  moreover have "ch ?m' = ch m @ (if ?new \<noteq> old \<and> ts \<noteq> [] \<and> streamOut m
      then [\<lparr>tu_Status = Status_Current, tu_Track = Some ?new\<rparr>] else [])"
    by (simp add: count_up_def emit_def s2)
  ultimately show ?thesis
    using ts(2) ms(2) old(1) by (intro exI [of _ ?m'] exI [of _ ?new]) simp
qed

lemma latest_inv_init:
  "NewTrackMerger \<lparr>Mode = MergeMode_TrackID, Historical = False\<rparr> = Inr m \<Longrightarrow> latest_inv m"
  by (auto simp: NewTrackMerger_def latest_inv_def)

section \<open>A disabled merger\<close>

fun objects :: "TrackMerger \<Rightarrow> track_update list \<Rightarrow> TrackMerger res" where
  "objects m [] = Inr m"
| "objects m (u # us) = rbind (object m u) (\<lambda>m'. objects m' us)"

definition no_nil :: "track \<Rightarrow> bool" where
  "no_nil tr \<longleftrightarrow> None \<notin> set (tr_Targets tr) \<and> None \<notin> set (tr_Metadata tr)"

lemma Track_Time_returns: "no_nil tr \<Longrightarrow> \<exists>t. Track_Time tr = Inr t"
  unfolding no_nil_def Track_Time_def
  using latest_time_returns [of "map (map_option tg_Time) (tr_Targets tr)" zero_time]
    latest_time_returns [of "map (map_option md_Time) (tr_Metadata tr)"]
  by (auto simp: image_iff)

definition track_time :: "track \<Rightarrow> time" where
  "track_time tr = (case Track_Time tr of Inl e \<Rightarrow> zero_time | Inr t \<Rightarrow> t)"

text \<open>Of two tracks sent for the same id the second is not the older one.\<close>

definition in_time_order :: "track_update list \<Rightarrow> bool" where
  "in_time_order us \<longleftrightarrow> sorted_wrt (\<lambda>u v. \<forall>a b. tu_Track u = Some a \<longrightarrow> tu_Track v = Some b \<longrightarrow>
     tr_Id a = tr_Id b \<longrightarrow> track_time a \<le> track_time b) us"

definition passthrough_inv :: "TrackMerger \<Rightarrow> bool" where
  "passthrough_inv m \<longleftrightarrow> Disable m \<and> in_time_order (ch m) \<and>
     (\<forall>k tr. tracks m k = Some tr \<longrightarrow> no_nil tr) \<and>
     (\<forall>u\<in>set (ch m). \<forall>a. tu_Track u = Some a \<longrightarrow>
        (\<exists>l. tracks m (tr_Id a) = Some l \<and> track_time a \<le> track_time l))"

lemma send_track_passthrough:
  assumes inv: "passthrough_inv m" and "no_nil tr"
  shows "\<exists>m'. send_track m tr = Inr m' \<and> passthrough_inv m'"
proof -
  let ?old = "\<exists>l. tracks m (tr_Id tr) = Some l \<and> track_time tr < track_time l"
  let ?m = "count_up (emit (m\<lparr>tracks := (tracks m)(tr_Id tr \<mapsto> tr)\<rparr>) Status_Current (Some tr))"
  have d: "Disable m" and nn: "tracks m k = Some l \<Longrightarrow> no_nil l" for k l
    using inv by (auto simp: passthrough_inv_def)
  from Track_Time_returns [OF assms(2)] obtain a where a: "Track_Time tr = Inr a" by blast
  have "send_track m tr = Inr (if ?old then m else ?m)"
  proof (cases "tracks m (tr_Id tr)")
    case (Some l)
    with Track_Time_returns [OF nn] obtain b where "Track_Time l = Inr b" by blast
    with Some a d show ?thesis by (simp add: send_track_def track_time_def)
  qed (use d in \<open>simp add: send_track_def\<close>)
  moreover have "passthrough_inv ?m" if new: "\<not> ?old"
  proof -
    have "track_time b \<le> track_time tr"
      if "u \<in> set (ch m)" "tu_Track u = Some b" "tr_Id b = tr_Id tr" for u b
    proof -
      from that inv obtain l where "tracks m (tr_Id tr) = Some l" "track_time b \<le> track_time l"
        unfolding passthrough_inv_def by metis
      with new show ?thesis by force
    qed
    then show ?thesis
      using inv assms(2)
      by (auto simp: passthrough_inv_def in_time_order_def count_up_def emit_def sorted_wrt_append)
  qed
  ultimately show ?thesis using inv by auto
qed

lemma objects_passthrough:
  "passthrough_inv m \<Longrightarrow> \<forall>u\<in>set us. \<forall>tr. tu_Track u = Some tr \<longrightarrow> no_nil tr \<Longrightarrow>
   \<exists>m'. objects m us = Inr m' \<and> passthrough_inv m'"
proof (induction us arbitrary: m)
  case (Cons u us)
  have "\<exists>m'. object m u = Inr m' \<and> passthrough_inv m'"
  proof (cases "tu_Track u")
    case (Some tr)
    with Cons.prems have "no_nil tr" "Disable m" by (auto simp: passthrough_inv_def)
    with Some send_track_passthrough [OF Cons.prems(1)] show ?thesis by (simp add: object_def)
  qed (use Cons.prems in \<open>simp add: object_def\<close>)
  then obtain m' where "object m u = Inr m'" "passthrough_inv m'" by blast
  with Cons show ?case by simp
qed simp

section \<open>Properties\<close>

text \<open>C26. A merger in track-id mode without history keeps, per track id, one newest target and one
  newest metadata item: whatever is in memory, an incoming update leaves the newest of the old
  and the received items, touches no other track, and sends the merged track exactly when it
  changed, has a target and streaming is on. The code does not panic on such updates.\<close>

theorem object_keeps_latest:
  assumes "latest_inv m" "tu_Track obj = Some tr" "tr_Id tr \<noteq> ''''" "timed_track tr"
  shows "\<exists>m' new. object m obj = Inr m' \<and> latest_inv m' \<and>
    tracks m' = (tracks m)(tr_Id tr \<mapsto> new) \<and> tr_Id new = tr_Id tr \<and>
    keeps_newest tg_Time (tr_Targets (mem_track m (tr_Id tr)) @ tr_Targets tr) (tr_Targets new) \<and>
    keeps_newest md_Time (tr_Metadata (mem_track m (tr_Id tr)) @ tr_Metadata tr) (tr_Metadata new) \<and>
    ch m' = ch m @ (if new \<noteq> mem_track m (tr_Id tr) \<and> tr_Targets new \<noteq> [] \<and> streamOut m
                    then [\<lparr>tu_Status = Status_Current, tu_Track = Some new\<rparr>] else [])"
  using object_latest [OF assms] by blast

definition demo_target :: "int \<Rightarrow> target" where
  "demo_target s = \<lparr>tg_Type = DeviceType_Manual, tg_Time = Some \<lparr>Seconds = s, Nanos = 0\<rparr>,
     tg_UpdateTime = None, tg_Repeat = False, tg_Manual = None, tg_Nmea = None, tg_rest = []\<rparr>"

definition demo_track :: "int list \<Rightarrow> track" where
  "demo_track ss = \<lparr>tr_Id = ''t'', tr_Targets = map (Some \<circ> demo_target) ss, tr_Metadata = []\<rparr>"

theorem object_keeps_latest_witness:
  "\<exists>m m'. NewTrackMerger \<lparr>Mode = MergeMode_TrackID, Historical = False\<rparr> = Inr m \<and>
     object m \<lparr>tu_Status = Status_Current, tu_Track = Some (demo_track [3, 9, 4])\<rparr> = Inr m' \<and> latest_inv m'"
proof -
  obtain m where m: "NewTrackMerger \<lparr>Mode = MergeMode_TrackID, Historical = False\<rparr> = Inr m"
    by (simp add: NewTrackMerger_def)
  have "timed_track (demo_track [3, 9, 4])"
    by (simp add: timed_track_def demo_track_def demo_target_def has_time_def)
  with object_keeps_latest [OF latest_inv_init [OF m],
      of "\<lparr>tu_Status = Status_Current, tu_Track = Some (demo_track [3, 9, 4])\<rparr>"] m
  show ?thesis by (auto simp: demo_track_def)
qed

text \<open>With history requested, a target that is not older than everything already there is
  inserted without losing any target, and a list ordered newest first stays so (the targets are
  either all Fusion or all not, since Fusion targets jump the queue).\<close>

theorem historical_insert_ordered:
  assumes "has_time tg_Time tgt" "\<forall>x\<in>set (tr_Targets tr). has_time tg_Time x"
    and "\<forall>x\<in>set (tr_Targets tr). is_fusion tg_Type x = is_fusion tg_Type tgt"
    and "newest_first tg_Time (tr_Targets tr)"
    and "tr_Targets tr = [] \<or> (\<exists>x\<in>set (tr_Targets tr). stamp_le (stamp tg_Time x) (stamp tg_Time tgt))"
  shows "\<exists>tr'. insertTarget True tgt tr = Inr (True, tr') \<and>
    mset (tr_Targets tr') = add_mset tgt (mset (tr_Targets tr)) \<and> newest_first tg_Time (tr_Targets tr')"
proof -
  let ?xs = "tr_Targets tr" and ?P = "\<lambda>x. \<not> stamp_le (stamp tg_Time x) (stamp tg_Time tgt)"
  let ?R = "\<lambda>a b. stamp_le (stamp tg_Time b) (stamp tg_Time a)"
  have gb: "goes_before tg_Type tg_Time tgt x \<longleftrightarrow> \<not> ?P x" if "x \<in> set ?xs" for x
    using that assms(3) by (auto simp: goes_before_def)
  then have eq: "takeWhile (\<lambda>x. \<not> goes_before tg_Type tg_Time tgt x) ?xs = takeWhile ?P ?xs"
    "dropWhile (\<lambda>x. \<not> goes_before tg_Type tg_Time tgt x) ?xs = dropWhile ?P ?xs"
    by (auto cong: takeWhile_cong dropWhile_cong)
  let ?ys = "takeWhile ?P ?xs @ tgt # dropWhile ?P ?xs"
  have "insertTarget True tgt tr = Inr (True, tr\<lparr>tr_Targets := ?ys\<rparr>)"
    using tg.insert_historical [OF assms(1,2)] assms(5) gb by (auto simp: insertTarget_def eq)
  moreover have "mset ?ys = add_mset tgt (mset ?xs)"
    by (metis mset.simps(2) mset_append takeWhile_dropWhile_id union_mset_add_mset_right)
  moreover have "newest_first tg_Time ?ys"
  proof -
    have s: "sorted_wrt ?R (takeWhile ?P ?xs @ dropWhile ?P ?xs)"
      using assms(4) by (simp add: newest_first_def)
    have d: "?R tgt x" if "x \<in> set (dropWhile ?P ?xs)" for x
    proof -
      from that obtain y ys where y: "dropWhile ?P ?xs = y # ys" by (cases "dropWhile ?P ?xs") auto
      then have "\<not> ?P y" using hd_dropWhile [of ?P ?xs] by auto
      moreover have "x = y \<or> ?R y x" using s that by (auto simp: y sorted_wrt_append)
      ultimately show ?thesis using stamp_le_trans by auto
    qed
    have t: "?R x tgt" if "x \<in> set (takeWhile ?P ?xs)" for x
      using set_takeWhileD [OF that] stamp_le_linear by blast
    show ?thesis
      unfolding newest_first_def by (rule sorted_wrt_insert [OF s], erule t, erule d)
  qed
  ultimately show ?thesis by (intro exI [of _ "tr\<lparr>tr_Targets := ?ys\<rparr>"]) simp
qed

theorem historical_insert_ordered_witness:
  "\<exists>tr'. insertTarget True (Some (demo_target 5)) (demo_track [9, 3]) = Inr (True, tr') \<and>
     newest_first tg_Time (tr_Targets tr')"
  using historical_insert_ordered [of "Some (demo_target 5)" "demo_track [9, 3]"]
  by (auto simp: demo_track_def demo_target_def has_time_def is_fusion_def newest_first_def stamp_def stamp_le_def)

text \<open>A target older than the whole history is put at the front, so that a history ordered
  newest first loses its order, although the merger is documented to order these lists.\<close>

theorem historical_insert_misplaces_oldest:
  assumes "has_time tg_Time tgt" "\<forall>x\<in>set (tr_Targets tr). has_time tg_Time x" "tr_Targets tr \<noteq> []"
    and "\<not> is_fusion tg_Type tgt"
    and "\<forall>x\<in>set (tr_Targets tr). \<not> stamp_le (stamp tg_Time x) (stamp tg_Time tgt)"
  shows "insertTarget True tgt tr = Inr (True, tr\<lparr>tr_Targets := tgt # tr_Targets tr\<rparr>)
    \<and> \<not> newest_first tg_Time (tgt # tr_Targets tr)"
proof -
  have "\<not> (\<exists>x\<in>set (tr_Targets tr). goes_before tg_Type tg_Time tgt x)"
    using assms(4,5) by (auto simp: goes_before_def)
  with tg.insert_historical [OF assms(1,2)]
  have "insertTarget True tgt tr = Inr (True, tr\<lparr>tr_Targets := tgt # tr_Targets tr\<rparr>)"
    by (simp add: insertTarget_def)
  moreover have "\<not> newest_first tg_Time (tgt # tr_Targets tr)"
    using assms(3,5) by (cases "tr_Targets tr") (auto simp: newest_first_def)
  ultimately show ?thesis by simp
qed

theorem historical_insert_misplaces_oldest_witness:
  "\<not> newest_first tg_Time (Some (demo_target 1) # tr_Targets (demo_track [9, 3]))"
  using historical_insert_misplaces_oldest [of "Some (demo_target 1)" "demo_track [9, 3]"]
  by (auto simp: demo_track_def demo_target_def has_time_def is_fusion_def stamp_def stamp_le_def)

text \<open>A disabled merger passes tracks through but never sends old data: over any sequence of
  updates whose lists hold no nil pointer it does not panic, and of two tracks it sends for the
  same id the later one has the later (or the same) time.\<close>

theorem disabled_merger_in_order:
  assumes "NewTrackMerger DefaultMergeOptions = Inr m"
    and "\<forall>u\<in>set us. \<forall>tr. tu_Track u = Some tr \<longrightarrow> no_nil tr"
  shows "\<exists>m'. objects m us = Inr m' \<and> in_time_order (ch m')"
proof -
  have "passthrough_inv m"
    using assms(1) by (auto simp: NewTrackMerger_def DefaultMergeOptions_def passthrough_inv_def in_time_order_def)
  from objects_passthrough [OF this assms(2)] show ?thesis by (auto simp: passthrough_inv_def)
qed

theorem disabled_merger_in_order_witness:
  "\<exists>m m'. NewTrackMerger DefaultMergeOptions = Inr m \<and>
     objects m [\<lparr>tu_Status = Status_Current, tu_Track = Some (demo_track [3])\<rparr>,
       \<lparr>tu_Status = Status_Current, tu_Track = Some (demo_track [1])\<rparr>] = Inr m' \<and> in_time_order (ch m')"
proof -
  obtain m where m: "NewTrackMerger DefaultMergeOptions = Inr m"
    by (simp add: NewTrackMerger_def DefaultMergeOptions_def)
  with disabled_merger_in_order [OF m, of "[\<lparr>tu_Status = Status_Current, tu_Track = Some (demo_track [3])\<rparr>,
       \<lparr>tu_Status = Status_Current, tu_Track = Some (demo_track [1])\<rparr>]"]
  show ?thesis by (auto simp: no_nil_def demo_track_def)
qed

end
