(* ===== verification/Merge_Service.thy ===== *)
theory Merge_Service
  imports Track_Merge
begin

text \<open>
  \<^verbatim>\<open>tms/db/track_merge.go\<close>, the goroutines: the caller that adds the streams and ends the set-up
  (\<open>AddStream\<close>, \<open>SetupFinished\<close>), one goroutine per stream (the function literal in \<open>AddStream\<close>)
  and the service goroutine (\<open>Service\<close>), as a step relation over all their interleavings.

  The channels \<^verbatim>\<open>backlog\<close> and \<^verbatim>\<open>live\<close> are unbuffered, so a send and the service's receive are one
  step; a program counter of a stream goroutine names the message it is about to send. The output
  channel \<^verbatim>\<open>ch\<close> is the list of everything sent on it; waiting for room in its buffer only delays
  a step. Sending on a channel the service has closed crashes the goroutine, which cancels the
  group: the service closes all three channels when it ends and only \<^verbatim>\<open>ch\<close> when it panics. A
  caller that is still setting up gives up on cancellation and takes no further step. The parameter \<open>inp\<close>
  says which updates the input streams may deliver: \<open>inp False u\<close> while the stream is in backlog
  mode, \<open>inp True u\<close> in live mode.
\<close>

section \<open>Definitions\<close>

datatype stream_pc =
    InBacklog
  | SendBacklog track_update
  | CloseBacklog
  | ForwardLoad track_update
  | StartLive track_update
  | SwitchLive track_update
  | InLive
  | SendLive track_update
  | CloseLive
  | Stopped
  | Crashed

datatype service_state = Serving | Finished | Panicked go_fault

record sys =
  merger :: TrackMerger
  streams :: "stream_pc list"
  to_add :: nat
  setup_sent :: bool
  service :: service_state
  cancelled :: bool

definition msg :: "status \<Rightarrow> track_update" where
  "msg st = \<lparr>tu_Status = st, tu_Track = None\<rparr>"

text \<open>The goroutine's reaction to \<^verbatim>\<open>obj, ok := <-ch\<close>; \<open>None\<close> is a closed input channel.\<close>

fun read_backlog :: "track_update option \<Rightarrow> stream_pc" where
  "read_backlog None = CloseBacklog"
| "read_backlog (Some u) =
     (if tu_Status u = Status_Closing then CloseBacklog
      else if tu_Status u = Status_InitialLoadDone then ForwardLoad u
      else SendBacklog u)"

fun read_live :: "track_update option \<Rightarrow> stream_pc" where
  "read_live None = CloseLive"
| "read_live (Some u) = (if tu_Status u = Status_Closing then CloseLive else SendLive u)"

text \<open>The message a goroutine is about to hand to the service, and where it goes on.\<close>

fun handover :: "stream_pc \<Rightarrow> (drain_event \<times> stream_pc) option" where
  "handover (SendBacklog u) = Some (FromBacklog u, InBacklog)"
| "handover CloseBacklog = Some (FromBacklog (msg Status_Closing), Stopped)"
| "handover (StartLive u) = Some (FromLive (msg Status_Starting), SwitchLive u)"
| "handover (SwitchLive u) = Some (FromBacklog u, InLive)"
| "handover (SendLive u) = Some (FromLive u, InLive)"
| "handover CloseLive = Some (FromLive (msg Status_Closing), Stopped)"
| "handover _ = None"

text \<open>The service is at its \<^verbatim>\<open>select\<close> and handles the event; \<open>ord\<close> is an order of the map.\<close>

definition receives :: "sys \<Rightarrow> drain_event \<Rightarrow> (bool \<times> TrackMerger) res \<Rightarrow> bool" where
  "receives s ev r \<longleftrightarrow> service s = Serving \<and> serving (merger s) \<and>
     (\<exists>ord. distinct ord \<and> set ord = dom (tracks (merger s)) \<and> drain ord (merger s) ev = r)"

inductive step :: "(bool \<Rightarrow> track_update \<Rightarrow> bool) \<Rightarrow> sys \<Rightarrow> sys \<Rightarrow> bool" for inp where
  add_stream:
    "receives s (FromBacklog (msg Status_Starting)) (Inr (False, m)) \<Longrightarrow> to_add s = Suc n \<Longrightarrow>
     step inp s (s\<lparr>merger := m, streams := streams s @ [InBacklog], to_add := n\<rparr>)"
| setup_finished:
    "receives s (FromBacklog (msg Status_SetupDone)) (Inr (False, m)) \<Longrightarrow> to_add s = 0 \<Longrightarrow>
     \<not> setup_sent s \<Longrightarrow> step inp s (s\<lparr>merger := m, setup_sent := True\<rparr>)"
| backlog_read:
    "i < length (streams s) \<Longrightarrow> streams s ! i = InBacklog \<Longrightarrow> (\<forall>u. x = Some u \<longrightarrow> inp False u) \<Longrightarrow>
     step inp s (s\<lparr>streams := (streams s)[i := read_backlog x]\<rparr>)"
| live_read:
    "i < length (streams s) \<Longrightarrow> streams s ! i = InLive \<Longrightarrow> (\<forall>u. x = Some u \<longrightarrow> inp True u) \<Longrightarrow>
     step inp s (s\<lparr>streams := (streams s)[i := read_live x]\<rparr>)"
| forward_load:
    "i < length (streams s) \<Longrightarrow> streams s ! i = ForwardLoad u \<Longrightarrow> service s = Serving \<Longrightarrow>
     step inp s (s\<lparr>merger := (merger s)\<lparr>ch := ch (merger s) @ [u]\<rparr>, streams := (streams s)[i := StartLive u]\<rparr>)"
| hand_over:
    "i < length (streams s) \<Longrightarrow> handover (streams s ! i) = Some (ev, pc) \<Longrightarrow> receives s ev (Inr (False, m)) \<Longrightarrow>
     step inp s (s\<lparr>merger := m, streams := (streams s)[i := pc]\<rparr>)"
| hand_over_panic:
    "i < length (streams s) \<Longrightarrow> handover (streams s ! i) = Some (ev, pc) \<Longrightarrow> receives s ev (Inl e) \<Longrightarrow>
     step inp s (s\<lparr>service := Panicked e, cancelled := True, streams := (streams s)[i := pc]\<rparr>)"
| tick:
    "receives s Tick (Inr (False, m)) \<Longrightarrow> step inp s (s\<lparr>merger := m\<rparr>)"
| finish:
    "service s = Serving \<Longrightarrow> \<not> serving (merger s) \<Longrightarrow> step inp s (s\<lparr>service := Finished\<rparr>)"
| cancel:
    "step inp s (s\<lparr>cancelled := True\<rparr>)"
| die:
    "cancelled s \<Longrightarrow> service s = Serving \<Longrightarrow> step inp s (s\<lparr>service := Finished\<rparr>)"
| stream_cancelled:
    "cancelled s \<Longrightarrow> i < length (streams s) \<Longrightarrow> streams s ! i \<in> {InBacklog, InLive} \<Longrightarrow>
     step inp s (s\<lparr>streams := (streams s)[i := Stopped]\<rparr>)"
| send_on_closed:
    "i < length (streams s) \<Longrightarrow>
     handover (streams s ! i) \<noteq> None \<and> service s = Finished \<or>
     (\<exists>u. streams s ! i = ForwardLoad u) \<and> service s \<noteq> Serving \<Longrightarrow>
     step inp s (s\<lparr>streams := (streams s)[i := Crashed], cancelled := True\<rparr>)"

text \<open>A merger with \<open>n\<close> streams to add; \<^verbatim>\<open>Start\<close> adds one.\<close>

definition start_sys :: "merge_options \<Rightarrow> nat \<Rightarrow> sys res" where
  "start_sys os n = rbind (NewTrackMerger os) (\<lambda>m.
     Inr \<lparr>merger = m, streams = [], to_add = n, setup_sent = False, service = Serving, cancelled = False\<rparr>)"

text \<open>Streams that signal the end of their initial load once and keep to themselves the
  statuses that the merger uses internally.\<close>

definition well_behaved :: "bool \<Rightarrow> track_update \<Rightarrow> bool" where
  "well_behaved live u \<longleftrightarrow> tu_Status u \<notin> {Status_Starting, Status_SetupDone} \<and>
     (live \<longrightarrow> tu_Status u \<noteq> Status_InitialLoadDone)"

inductive_cases stepE: "step inp s s'"

section \<open>The counters\<close>

text \<open>The part of the merger that controls its service.\<close>

definition ctl :: "TrackMerger \<Rightarrow> int \<times> int \<times> bool \<times> bool" where
  "ctl m = (backlogCount m, liveCount m, setupFinished m, Historical (opts m))"

lemma ctl_frame [simp]:
  "ctl (emit m st tr) = ctl m" "ctl (count_up m) = ctl m" "ctl (m\<lparr>ch := c\<rparr>) = ctl m"
  "ctl (m\<lparr>tracks := t\<rparr>) = ctl m" "ctl (m\<lparr>streamOut := b\<rparr>) = ctl m" "ctl (m\<lparr>count := w\<rparr>) = ctl m"
  by (simp_all add: ctl_def emit_def count_up_def)

lemma streamOut_frame [simp]:
  "streamOut (emit m st tr) = streamOut m" "streamOut (count_up m) = streamOut m"
  by (simp_all add: emit_def count_up_def)

lemma send_track_frame: "send_track m tr = Inr m' \<Longrightarrow> ctl m' = ctl m \<and> streamOut m' = streamOut m"
  by (auto simp: send_track_def rbind_eq_Inr split: if_splits)

lemma getTrack_frame: "getTrack m i = (p, m') \<Longrightarrow> ctl m' = ctl m \<and> streamOut m' = streamOut m"
  by (auto simp: getTrack_def Let_def split: if_splits option.splits)

lemma object_frame: "object m u = Inr m' \<Longrightarrow> ctl m' = ctl m \<and> streamOut m' = streamOut m"
  by (auto simp: object_def rbind_eq_Inr Let_def split: option.splits if_splits prod.splits
      dest!: send_track_frame getTrack_frame)

lemma fold_emit_frame:
  "ctl (fold (\<lambda>k m. count_up (emit m st (tracks m k))) ord m) = ctl m \<and>
   streamOut (fold (\<lambda>k m. count_up (emit m st (tracks m k))) ord m) = streamOut m"
  by (induction ord arbitrary: m) auto

lemma sendAll_frame: "ctl (sendAll ord m) = ctl m" "streamOut (sendAll ord m) = streamOut m"
  by (simp_all add: sendAll_def Let_def fold_emit_frame)

lemma stream_out_frame:
  "ctl (stream_out ord m) = ctl m"
  "streamOut (stream_out ord m) \<longleftrightarrow> streamOut m \<or> setupFinished m \<and> backlogCount m = 0"
  by (auto simp: stream_out_def sendAll_frame)

fun in_backlog :: "stream_pc \<Rightarrow> bool" where
  "in_backlog InBacklog \<longleftrightarrow> True"
| "in_backlog (SendBacklog u) \<longleftrightarrow> True"
| "in_backlog CloseBacklog \<longleftrightarrow> True"
| "in_backlog (ForwardLoad u) \<longleftrightarrow> True"
| "in_backlog (StartLive u) \<longleftrightarrow> True"
| "in_backlog (SwitchLive u) \<longleftrightarrow> True"
| "in_backlog _ \<longleftrightarrow> False"

fun in_live :: "stream_pc \<Rightarrow> bool" where
  "in_live (SwitchLive u) \<longleftrightarrow> True"
| "in_live InLive \<longleftrightarrow> True"
| "in_live (SendLive u) \<longleftrightarrow> True"
| "in_live CloseLive \<longleftrightarrow> True"
| "in_live _ \<longleftrightarrow> False"

definition data_status :: "status \<Rightarrow> bool" where
  "data_status st \<longleftrightarrow>
     st \<notin> {Status_Starting, Status_Closing, Status_InitialLoadDone, Status_SetupDone}"

fun ok_pc :: "stream_pc \<Rightarrow> bool" where
  "ok_pc (SendBacklog u) \<longleftrightarrow> data_status (tu_Status u)"
| "ok_pc (SendLive u) \<longleftrightarrow> data_status (tu_Status u)"
| "ok_pc (ForwardLoad u) \<longleftrightarrow> tu_Status u = Status_InitialLoadDone"
| "ok_pc (StartLive u) \<longleftrightarrow> tu_Status u = Status_InitialLoadDone"
| "ok_pc (SwitchLive u) \<longleftrightarrow> tu_Status u = Status_InitialLoadDone"
| "ok_pc Crashed \<longleftrightarrow> False"
| "ok_pc _ \<longleftrightarrow> True"

lemma on_backlog_data: "data_status (tu_Status u) \<Longrightarrow> on_backlog m u = object m u"
  by (auto simp: data_status_def on_backlog_def split: status.splits)

lemma on_live_data: "data_status (tu_Status u) \<Longrightarrow> on_live m u = object m u"
  by (auto simp: data_status_def on_live_def split: status.splits)

text \<open>What a message does to the control part, before the check for \<open>streamOut\<close>.\<close>

fun delta :: "drain_event \<Rightarrow> int \<times> int" where
  "delta (FromBacklog u) = (if tu_Status u = Status_Starting then (1, 0)
     else if tu_Status u \<in> {Status_Closing, Status_InitialLoadDone} then (-1, 0) else (0, 0))"
| "delta (FromLive u) = (if tu_Status u = Status_Starting then (0, 1)
     else if tu_Status u \<in> {Status_Closing, Status_InitialLoadDone} then (0, -1) else (0, 0))"
| "delta _ = (0, 0)"

fun sets_up :: "drain_event \<Rightarrow> bool" where
  "sets_up (FromBacklog u) \<longleftrightarrow> tu_Status u = Status_SetupDone"
| "sets_up (FromLive u) \<longleftrightarrow> tu_Status u = Status_SetupDone"
| "sets_up _ \<longleftrightarrow> False"

definition out_switch :: "TrackMerger \<Rightarrow> TrackMerger \<Rightarrow> bool" where
  "out_switch m m' \<longleftrightarrow> (streamOut m' \<longrightarrow> streamOut m \<or> setupFinished m' \<and> backlogCount m' = 0)"

lemma ctl_fields:
  "ctl m' = ctl m \<Longrightarrow> backlogCount m' = backlogCount m \<and> liveCount m' = liveCount m \<and>
   setupFinished m' = setupFinished m \<and> Historical (opts m') = Historical (opts m)"
  by (simp add: ctl_def)

lemma on_backlog_ctl:
  "on_backlog m u = Inr m' \<Longrightarrow> streamOut m' = streamOut m \<and>
   ctl m' = (backlogCount m + fst (delta (FromBacklog u)), liveCount m,
             setupFinished m \<or> sets_up (FromBacklog u), Historical (opts m))"
  by (cases "tu_Status u") (auto simp: on_backlog_def ctl_def dest!: object_frame)

lemma on_live_ctl:
  "on_live m u = Inr m' \<Longrightarrow> streamOut m' = streamOut m \<and>
   ctl m' = (backlogCount m, liveCount m + snd (delta (FromLive u)),
             setupFinished m \<or> sets_up (FromLive u), Historical (opts m))"
  by (cases "tu_Status u") (auto simp: on_live_def ctl_def dest!: object_frame)

lemma drain_ctl:
  assumes "drain ord m ev = Inr (False, m')"
  shows "backlogCount m' = backlogCount m + fst (delta ev)" "liveCount m' = liveCount m + snd (delta ev)"
    "setupFinished m' \<longleftrightarrow> setupFinished m \<or> sets_up ev" "Historical (opts m') = Historical (opts m)"
    "out_switch m m'"
proof -
  have "ctl m' = (backlogCount m + fst (delta ev), liveCount m + snd (delta ev),
      setupFinished m \<or> sets_up ev, Historical (opts m)) \<and> out_switch m m'"
  proof (cases ev)
    case Tick
    with assms show ?thesis
      using ctl_fields [OF stream_out_frame(1)]
      by (auto simp: stream_out_frame out_switch_def) (auto simp: ctl_def)
  next
    case (FromBacklog u)
    with assms obtain n where n: "on_backlog m u = Inr n" "m' = stream_out ord n" by (auto simp: rbind_eq_Inr)
    from on_backlog_ctl [OF n(1)] ctl_fields [OF stream_out_frame(1), of ord n] show ?thesis
      by (auto simp: n(2) FromBacklog stream_out_frame out_switch_def split: if_splits)
  next
    case (FromLive u)
    with assms obtain n where n: "on_live m u = Inr n" "m' = stream_out ord n" by (auto simp: rbind_eq_Inr)
    from on_live_ctl [OF n(1)] ctl_fields [OF stream_out_frame(1), of ord n] show ?thesis
      by (auto simp: n(2) FromLive stream_out_frame out_switch_def split: if_splits)
  qed (use assms in simp)
  then show "backlogCount m' = backlogCount m + fst (delta ev)" "liveCount m' = liveCount m + snd (delta ev)"
    "setupFinished m' \<longleftrightarrow> setupFinished m \<or> sets_up ev" "Historical (opts m') = Historical (opts m)"
    "out_switch m m'"
    by (simp_all add: ctl_def)
qed

lemma handover_delta:
  assumes "handover pc = Some (ev, pc')" "ok_pc pc"
  shows "ok_pc pc'" "\<not> sets_up ev"
    "fst (delta ev) = of_bool (in_backlog pc') - of_bool (in_backlog pc)"
    "snd (delta ev) = of_bool (in_live pc') - of_bool (in_live pc)"
  using assms by (cases pc; auto simp: msg_def data_status_def)+

section \<open>The invariant\<close>

definition service_inv :: "sys \<Rightarrow> bool" where
  "service_inv s \<longleftrightarrow>
     (\<forall>pc\<in>set (streams s). ok_pc pc) \<and>
     backlogCount (merger s) = count_if in_backlog (streams s) \<and>
     liveCount (merger s) = count_if in_live (streams s) \<and>
     setupFinished (merger s) = setup_sent s \<and>
     (setup_sent s \<longrightarrow> to_add s = 0) \<and>
     (service s = Serving \<or> service s = Finished \<and> \<not> serving (merger s)) \<and>
     (Historical (opts (merger s)) \<and> streamOut (merger s) \<longrightarrow> setup_sent s \<and> backlogCount (merger s) = 0)"

lemma service_inv_quiet:
  assumes "service_inv s" "\<not> serving (merger s)" "pc \<in> set (streams s)"
  shows "pc = Stopped"
proof -
  have "\<not> in_backlog pc" "\<not> in_live pc" "ok_pc pc"
    using assms count_if_nonneg [of in_backlog "streams s"] count_if_nonneg [of in_live "streams s"]
    by (auto simp: service_inv_def serving_def dest: count_if_pos [of _ _ in_backlog] count_if_pos [of _ _ in_live])
  then show ?thesis by (cases pc) auto
qed

lemma ok_pc_update:
  "\<forall>pc\<in>set xs. ok_pc pc \<Longrightarrow> ok_pc x \<Longrightarrow> \<forall>pc\<in>set (xs[i := x]). ok_pc pc"
  using set_update_subset_insert [of xs i x] by blast

lemma sys_update_swap: "s\<lparr>streams := x, merger := m\<rparr> = s\<lparr>merger := m, streams := x\<rparr>"
  by simp

lemma service_inv_move:
  assumes "service_inv s" "i < length (streams s)" "ok_pc pc"
    and "in_backlog pc = in_backlog (streams s ! i)" "in_live pc = in_live (streams s ! i)"
  shows "service_inv (s\<lparr>streams := (streams s)[i := pc]\<rparr>)"
  using assms ok_pc_update [of "streams s" pc i] by (auto simp: service_inv_def count_if_update)

lemma service_inv_merger:
  assumes "service_inv s" "ctl m = ctl (merger s)" "out_switch (merger s) m"
  shows "service_inv (s\<lparr>merger := m\<rparr>)"
  using assms ctl_fields [OF assms(2)]
  by (auto simp: service_inv_def out_switch_def serving_def)

lemma service_inv_handover:
  assumes inv: "service_inv s" and i: "i < length (streams s)"
    and h: "handover (streams s ! i) = Some (ev, pc)" and r: "receives s ev (Inr (False, m))"
  shows "service_inv (s\<lparr>merger := m, streams := (streams s)[i := pc]\<rparr>)"
proof -
  have ok: "ok_pc (streams s ! i)" using inv i by (simp add: service_inv_def)
  note d = handover_delta [OF h ok]
  from r obtain ord where "drain ord (merger s) ev = Inr (False, m)" and sv: "service s = Serving"
    by (auto simp: receives_def)
  note c = drain_ctl [OF this(1)]
  have "backlogCount m = count_if in_backlog ((streams s)[i := pc])"
    "liveCount m = count_if in_live ((streams s)[i := pc])"
    using inv i c(1,2) d(3,4) by (simp_all add: service_inv_def count_if_update)
  moreover have "setup_sent s \<and> backlogCount m = 0" if "Historical (opts m)" "streamOut m"
  proof (cases "streamOut (merger s)")
    case True
    with inv that c(4) have *: "setup_sent s" "backlogCount (merger s) = 0" by (auto simp: service_inv_def)
    then have "\<not> in_backlog (streams s ! i)"
      using inv i by (auto simp: service_inv_def count_if_zero)
    with h have "\<not> in_backlog pc" by (cases "streams s ! i") auto
    with * c(1) d(3) \<open>\<not> in_backlog (streams s ! i)\<close> show ?thesis by simp
  next
    case False
    with that c(3,5) d(2) inv show ?thesis by (auto simp: out_switch_def service_inv_def)
  qed
  ultimately show ?thesis
    using inv c(3) d(1,2) sv ok_pc_update [of "streams s" pc i] by (simp add: service_inv_def)
qed

lemma service_inv_add:
  assumes inv: "service_inv s" and r: "receives s (FromBacklog (msg Status_Starting)) (Inr (False, m))"
    and n: "to_add s = Suc n"
  shows "service_inv (s\<lparr>merger := m, streams := streams s @ [InBacklog], to_add := n\<rparr>)"
proof -
  from r obtain ord where dr: "drain ord (merger s) (FromBacklog (msg Status_Starting)) = Inr (False, m)"
    and sv: "service s = Serving"
    by (auto simp: receives_def)
  note c = drain_ctl [OF dr]
  have "\<not> setup_sent s" using inv n by (auto simp: service_inv_def)
  with inv c sv show ?thesis by (auto simp: service_inv_def msg_def out_switch_def)
qed

lemma service_inv_setup:
  assumes inv: "service_inv s" and r: "receives s (FromBacklog (msg Status_SetupDone)) (Inr (False, m))"
    and n: "to_add s = 0" "\<not> setup_sent s"
  shows "service_inv (s\<lparr>merger := m, setup_sent := True\<rparr>)"
proof -
  from r obtain ord where dr: "drain ord (merger s) (FromBacklog (msg Status_SetupDone)) = Inr (False, m)"
    and sv: "service s = Serving"
    by (auto simp: receives_def)
  note c = drain_ctl [OF dr]
  with inv n sv show ?thesis by (auto simp: service_inv_def msg_def out_switch_def)
qed

lemma service_inv_tick:
  assumes inv: "service_inv s" and r: "receives s Tick (Inr (False, m))"
  shows "service_inv (s\<lparr>merger := m\<rparr>)"
proof -
  from r obtain ord where dr: "drain ord (merger s) Tick = Inr (False, m)" by (auto simp: receives_def)
  note c = drain_ctl [OF dr]
  from c have "ctl m = ctl (merger s)" by (simp add: ctl_def)
  from service_inv_merger [OF inv this c(5)] show ?thesis .
qed

lemma read_backlog_pc:
  "\<forall>u. x = Some u \<longrightarrow> well_behaved False u \<Longrightarrow>
   ok_pc (read_backlog x) \<and> in_backlog (read_backlog x) \<and> \<not> in_live (read_backlog x)"
  by (cases x) (auto simp: well_behaved_def data_status_def)

lemma read_live_pc:
  "\<forall>u. x = Some u \<longrightarrow> well_behaved True u \<Longrightarrow>
   ok_pc (read_live x) \<and> in_live (read_live x) \<and> \<not> in_backlog (read_live x)"
  by (cases x) (auto simp: well_behaved_def data_status_def)

lemma step_inv:
  assumes "step well_behaved s s'" "cancelled s \<or> service_inv s"
  shows "cancelled s' \<or> service_inv s'"
proof (cases "cancelled s")
  case True
  with assms(1) show ?thesis by (auto elim!: stepE)
next
  case False
  with assms(2) have inv: "service_inv s" by simp
  from assms(1) show ?thesis
  proof (cases rule: step.cases)
    case (backlog_read i x)
    with read_backlog_pc [of x] service_inv_move [OF inv, of i "read_backlog x"] show ?thesis by simp
  next
    case (live_read i x)
    with read_live_pc [of x] service_inv_move [OF inv, of i "read_live x"] show ?thesis by simp
  next
    case (forward_load i u)
    have "ok_pc (streams s ! i)" using inv forward_load(2) by (simp add: service_inv_def)
    then have "service_inv (s\<lparr>streams := (streams s)[i := StartLive u]\<rparr>)"
      using forward_load by (intro service_inv_move [OF inv]) auto
    from service_inv_merger [OF this, of "(merger s)\<lparr>ch := ch (merger s) @ [u]\<rparr>"] forward_load(1)
    show ?thesis by (simp add: out_switch_def sys_update_swap)
  next
    case (finish)
    with inv show ?thesis by (auto simp: service_inv_def)
  next
    case (die)
    with False show ?thesis by simp
  next
    case (stream_cancelled i)
    with False show ?thesis by simp
  qed (use service_inv_add [OF inv] service_inv_setup [OF inv] service_inv_handover [OF inv]
      service_inv_tick [OF inv] in auto)
qed

lemma start_inv: "start_sys os n = Inr s \<Longrightarrow> service_inv s"
  by (auto simp: start_sys_def rbind_eq_Inr NewTrackMerger_def service_inv_def)

lemma reachable_inv:
  assumes "start_sys os n = Inr s0" "(step well_behaved)\<^sup>*\<^sup>* s0 s"
  shows "cancelled s \<or> service_inv s"
  using assms(2)
proof (induction rule: rtranclp_induct)
  case base
  show ?case using start_inv [OF assms(1)] by simp
next
  case (step s s')
  then show ?case using step_inv by blast
qed

lemma rtrancl_snoc: "R\<^sup>*\<^sup>* a b \<Longrightarrow> R b c \<Longrightarrow> R\<^sup>*\<^sup>* a c"
  by (rule rtranclp.rtrancl_into_rtrancl)

text \<open>A run of a stream goroutine up to its first update, ready to be handed over.\<close>

lemma one_stream_sending:
  "\<exists>s0 s. start_sys DefaultMergeOptions 1 = Inr s0 \<and> (step well_behaved)\<^sup>*\<^sup>* s0 s \<and>
     streams s = [SendBacklog (msg Status_Current)] \<and> service s = Serving \<and> \<not> cancelled s"
proof -
  obtain s0 where s0: "start_sys DefaultMergeOptions 1 = Inr s0" "streams s0 = []" "to_add s0 = Suc 0"
    "service s0 = Serving" "\<not> cancelled s0" "tracks (merger s0) = Map.empty" "\<not> setupFinished (merger s0)"
    by (simp add: start_sys_def NewTrackMerger_def DefaultMergeOptions_def)
  let ?m = "stream_out [] ((merger s0)\<lparr>backlogCount := backlogCount (merger s0) + 1\<rparr>)"
  have "receives s0 (FromBacklog (msg Status_Starting)) (Inr (False, ?m))"
    unfolding receives_def
    using s0 by (intro conjI exI [of _ "[]"]) (auto simp: serving_def on_backlog_def msg_def)
  from step.add_stream [OF this s0(3)]
  have 1: "step well_behaved s0 (s0\<lparr>merger := ?m, streams := [InBacklog], to_add := 0\<rparr>)"
    (is "step _ _ ?s1") by (simp add: s0(2))
  have 2: "step well_behaved ?s1 (?s1\<lparr>streams := [SendBacklog (msg Status_Current)]\<rparr>)"
    using step.backlog_read [of 0 ?s1 "Some (msg Status_Current)" well_behaved]
    by (simp add: well_behaved_def msg_def)
  show ?thesis
    using s0 rtrancl_snoc [OF r_into_rtranclp [of "step well_behaved", OF 1] 2]
    by (intro exI [of _ s0] exI [of _ "?s1\<lparr>streams := [SendBacklog (msg Status_Current)]\<rparr>"]) simp
qed

section \<open>Properties\<close>

text \<open>C3. The merge service does not stop early and no goroutine sends on a closed channel: in every
  interleaving of the set-up, any number of well-behaved streams and the service, as long as the
  group is not cancelled, the service has not panicked, every running stream is counted in backlog or live mode, no
  stream has crashed, and if the service has finished then the set-up is over and every stream
  goroutine has stopped.\<close>

theorem merge_service_complete:
  assumes "start_sys os n = Inr s0" "(step well_behaved)\<^sup>*\<^sup>* s0 s" "\<not> cancelled s"
  shows "Crashed \<notin> set (streams s) \<and>
    backlogCount (merger s) = count_if in_backlog (streams s) \<and>
    liveCount (merger s) = count_if in_live (streams s) \<and>
    (service s = Serving \<or>
     service s = Finished \<and> setup_sent s \<and> to_add s = 0 \<and> (\<forall>pc\<in>set (streams s). pc = Stopped))"
proof -
  have inv: "service_inv s" using reachable_inv [OF assms(1,2)] assms(3) by simp
  then have "Crashed \<notin> set (streams s)" by (auto simp: service_inv_def)
  moreover have "setup_sent s \<and> to_add s = 0 \<and> (\<forall>pc\<in>set (streams s). pc = Stopped)"
    if "\<not> serving (merger s)"
    using inv that service_inv_quiet [OF inv that] by (auto simp: service_inv_def serving_def)
  ultimately show ?thesis using inv by (auto simp: service_inv_def)
qed

theorem merge_service_complete_witness:
  "\<exists>s0 s. start_sys DefaultMergeOptions 1 = Inr s0 \<and> (step well_behaved)\<^sup>*\<^sup>* s0 s \<and>
     streams s \<noteq> [] \<and> backlogCount (merger s) = 1"
proof -
  obtain s0 s where s: "start_sys DefaultMergeOptions 1 = Inr s0" "(step well_behaved)\<^sup>*\<^sup>* s0 s"
    "streams s = [SendBacklog (msg Status_Current)]" "\<not> cancelled s"
    using one_stream_sending by blast
  from merge_service_complete [OF s(1,2,4)] s show ?thesis by auto
qed

text \<open>With history requested, nothing of the merged tracks is streamed out before the backlog is
  complete: once the output is on, the set-up is over and no stream is in backlog mode.\<close>

theorem stream_out_after_backlog:
  assumes "start_sys os n = Inr s0" "(step well_behaved)\<^sup>*\<^sup>* s0 s" "\<not> cancelled s"
    and "Historical (opts (merger s))" "streamOut (merger s)"
  shows "setup_sent s \<and> to_add s = 0 \<and> (\<forall>pc\<in>set (streams s). \<not> in_backlog pc)"
  using reachable_inv [OF assms(1,2)] assms(3-5) by (auto simp: service_inv_def count_if_zero)

theorem stream_out_after_backlog_witness:
  "\<exists>s0 s. start_sys \<lparr>Mode = MergeMode_TrackID, Historical = True\<rparr> 0 = Inr s0 \<and>
     (step well_behaved)\<^sup>*\<^sup>* s0 s \<and> streamOut (merger s) \<and> setup_sent s"
proof -
  obtain s0 where s0: "start_sys \<lparr>Mode = MergeMode_TrackID, Historical = True\<rparr> 0 = Inr s0" "to_add s0 = 0"
    "\<not> setup_sent s0" "service s0 = Serving" "\<not> cancelled s0" "tracks (merger s0) = Map.empty"
    "\<not> setupFinished (merger s0)" "backlogCount (merger s0) = 0" "Historical (opts (merger s0))"
    by (simp add: start_sys_def NewTrackMerger_def)
  let ?m = "stream_out [] ((merger s0)\<lparr>setupFinished := True\<rparr>)"
  have "receives s0 (FromBacklog (msg Status_SetupDone)) (Inr (False, ?m))"
    unfolding receives_def
    using s0 by (intro conjI exI [of _ "[]"]) (auto simp: serving_def on_backlog_def msg_def)
  from step.setup_finished [OF this s0(2,3)]
  have 1: "(step well_behaved)\<^sup>*\<^sup>* s0 (s0\<lparr>merger := ?m, setup_sent := True\<rparr>)"
    (is "_ s0 ?s") by (rule r_into_rtranclp)
  have "streamOut ?m" "Historical (opts ?m)"
    using s0(8,9) ctl_fields [OF stream_out_frame(1), of "[]" "(merger s0)\<lparr>setupFinished := True\<rparr>"]
    by (simp_all add: stream_out_frame(2))
  with stream_out_after_backlog [OF s0(1) 1] s0 1 show ?thesis by auto
qed

text \<open>Cancelling the group while a stream goroutine is handing over an update makes that goroutine
  send on a channel the service has closed, which panics: its sends, unlike its reads, do not
  watch for the cancellation.\<close>

theorem cancel_sends_on_closed_channel:
  "\<exists>s0 s. start_sys DefaultMergeOptions 1 = Inr s0 \<and> (step well_behaved)\<^sup>*\<^sup>* s0 s \<and> Crashed \<in> set (streams s)"
proof -
  obtain s0 s where s: "start_sys DefaultMergeOptions 1 = Inr s0" "(step well_behaved)\<^sup>*\<^sup>* s0 s"
    "streams s = [SendBacklog (msg Status_Current)]" "service s = Serving"
    using one_stream_sending by blast
  let ?s1 = "s\<lparr>cancelled := True\<rparr>" and ?s2 = "s\<lparr>cancelled := True, service := Finished\<rparr>"
  let ?s3 = "s\<lparr>service := Finished, streams := [Crashed], cancelled := True\<rparr>"
  have "step well_behaved s ?s1" by (rule step.cancel)
  moreover have "step well_behaved ?s1 ?s2" using step.die [of ?s1 well_behaved] s(4) by simp
  moreover have "step well_behaved ?s2 ?s3"
    using step.send_on_closed [of 0 ?s2 well_behaved] s(3) by simp
  ultimately have "(step well_behaved)\<^sup>*\<^sup>* s0 ?s3" using rtrancl_snoc s(2) by metis
  with s(1) show ?thesis by (intro exI [of _ s0] exI [of _ ?s3]) simp
qed

end
