(* ===== verification/Sar_Bits.thy ===== *)
theory Sar_Bits
  imports Prisma_Prelude
begin

unbundle bit_operations_syntax

text \<open>
  \<^verbatim>\<open>tms/sar/bits.go\<close>: the bit reader and the bit writer over a byte array, and the
  modified-Baudot alphabet. Bytes are \<open>8 word\<close>, \<^verbatim>\<open>uint64\<close> and \<^verbatim>\<open>int\<close> values \<open>64 word\<close>. The nil
  slice of a fresh writer is the empty list (the code never has an empty slice that is not nil).
  A reader that fails is not used again by its callers, so a failing read returns no reader; a
  failing write returns the writer with what was written before.

  The abstract view of a reader is the list of the bits still to be read (\<open>remaining\<close>), that of a
  writer the list of the bits written (\<open>written\<close>).
\<close>

section \<open>Definitions\<close>

type_synonym byte = "8 word"
type_synonym u64 = "64 word"

record bits =
  bytes :: "byte list"
  pos :: nat
  nbits :: nat

definition NewBitReader :: "byte list \<Rightarrow> bits" where
  "NewBitReader data = \<lparr>bytes = data, pos = 0, nbits = 0\<rparr>"

definition Read :: "bits \<Rightarrow> (u64 \<times> bits) res" where
  "Read b =
     (if pos b < length (bytes b) then
        let v = (bytes b ! pos b) AND 0x80;
            b1 = b\<lparr>bytes := (bytes b)[pos b := push_bit 1 (bytes b ! pos b)], nbits := nbits b + 1\<rparr>;
            b2 = (if nbits b1 = 8 then b1\<lparr>nbits := 0, pos := pos b1 + 1\<rparr> else b1)
        in Inr (if v \<noteq> 0 then 1 else 0, b2)
      else Inl OutOfRange)"

fun readn_loop :: "nat \<Rightarrow> u64 \<Rightarrow> bits \<Rightarrow> (u64 \<times> bits) res" where
  "readn_loop 0 v b = Inr (v, b)"
| "readn_loop (Suc n) v b = rbind (Read b) (\<lambda>(r, b'). readn_loop n (push_bit 1 v OR r) b')"

definition ReadN :: "nat \<Rightarrow> bits \<Rightarrow> (u64 \<times> bits) res" where
  "ReadN n b = readn_loop n 0 b"

definition SkipN :: "nat \<Rightarrow> bits \<Rightarrow> bits res" where
  "SkipN n b = rbind (ReadN n b) (\<lambda>(_, b'). Inr b')"

text \<open>The two values of the Go type \<^verbatim>\<open>baudotSize\<close> (a named bool, so there is no other).\<close>

datatype baudotSize = baudotSixBit | baudotFiveBit

definition baudot_table :: "(nat \<times> char) list" where
  "baudot_table =
     [(56, CHR ''A''), (51, CHR ''B''), (46, CHR ''C''), (50, CHR ''D''), (48, CHR ''E''),
      (54, CHR ''F''), (43, CHR ''G''), (37, CHR ''H''), (44, CHR ''I''), (58, CHR ''J''),
      (62, CHR ''K''), (41, CHR ''L''), (39, CHR ''M''), (38, CHR ''N''), (35, CHR ''O''),
      (45, CHR ''P''), (61, CHR ''Q''), (42, CHR ''R''), (52, CHR ''S''), (33, CHR ''T''),
      (60, CHR ''U''), (47, CHR ''V''), (57, CHR ''W''), (55, CHR ''X''), (53, CHR ''Y''),
      (49, CHR ''Z''), (36, CHR '' ''), (24, CHR ''-''), (23, CHR ''/''), (13, CHR ''0''),
      (29, CHR ''1''), (25, CHR ''2''), (16, CHR ''3''), (10, CHR ''4''), (1, CHR ''5''),
      (21, CHR ''6''), (28, CHR ''7''), (12, CHR ''8''), (3, CHR ''9'')]"

definition baudotToRune :: "nat \<rightharpoonup> char" where
  "baudotToRune = map_of baudot_table"

text \<open>Filled by \<^verbatim>\<open>init\<close> from the other table.\<close>

definition runeToBaudot :: "char \<rightharpoonup> nat" where
  "runeToBaudot = map_of (map (\<lambda>(code, r). (r, code)) baudot_table)"

definition readBaudot :: "baudotSize \<Rightarrow> bits \<Rightarrow> (char \<times> bits) res" where
  "readBaudot sz b =
     rbind (case sz of
              baudotSixBit \<Rightarrow> ReadN 6 b
            | baudotFiveBit \<Rightarrow> rbind (ReadN 5 b) (\<lambda>(c, b'). Inr (c OR 32, b'))) (\<lambda>(code, b').
       case baudotToRune (unat code) of
         None \<Rightarrow> Inl (Err ''invalid baudot code'')
       | Some c \<Rightarrow> Inr (c, b'))"

definition ReadBaudot :: "bits \<Rightarrow> (char \<times> bits) res" where
  "ReadBaudot b = readBaudot baudotSixBit b"

definition ReadBaudot5 :: "bits \<Rightarrow> (char \<times> bits) res" where
  "ReadBaudot5 b = readBaudot baudotFiveBit b"

fun readBaudotN :: "nat \<Rightarrow> baudotSize \<Rightarrow> bits \<Rightarrow> (string \<times> bits) res" where
  "readBaudotN 0 sz b = Inr ([], b)"
| "readBaudotN (Suc n) sz b =
     rbind (readBaudot sz b) (\<lambda>(c, b1).
       rbind (readBaudotN n sz b1) (\<lambda>(cs, b2). Inr (c # cs, b2)))"

definition ReadBaudotN :: "nat \<Rightarrow> bits \<Rightarrow> (string \<times> bits) res" where
  "ReadBaudotN n b = readBaudotN n baudotSixBit b"

definition ReadBaudot5N :: "nat \<Rightarrow> bits \<Rightarrow> (string \<times> bits) res" where
  "ReadBaudot5N n b = readBaudotN n baudotFiveBit b"

definition new_writer :: bits where
  "new_writer = \<lparr>bytes = [], pos = 0, nbits = 0\<rparr>"

definition Write :: "bits \<Rightarrow> u64 \<Rightarrow> bits" where
  "Write b val =
     (let b1 = (if bytes b = [] then b\<lparr>bytes := [0], nbits := 8\<rparr>
                else if nbits b = 0 then b\<lparr>bytes := bytes b @ [0], nbits := 8, pos := pos b + 1\<rparr>
                else b);
          n = nbits b1 - 1;
          val' = (if val \<noteq> 0 then push_bit n 1 else val)
      in b1\<lparr>nbits := n, bytes := (bytes b1)[pos b1 := (bytes b1 ! pos b1) OR ucast val']\<rparr>)"

text \<open>\<open>WriteN\<close> counts its index down from \<open>n - 1\<close>.\<close>

fun WriteN :: "nat \<Rightarrow> u64 \<Rightarrow> bits \<Rightarrow> bits" where
  "WriteN 0 val b = b"
| "WriteN (Suc i) val b = WriteN i val (Write b (val AND push_bit i 1))"

fun WriteZeros :: "nat \<Rightarrow> bits \<Rightarrow> bits" where
  "WriteZeros 0 b = b"
| "WriteZeros (Suc n) b = WriteZeros n (Write b 0)"

definition writeBaudot :: "char \<Rightarrow> baudotSize \<Rightarrow> bits \<Rightarrow> go_fault option \<times> bits" where
  "writeBaudot r sz b =
     (case runeToBaudot r of
        None \<Rightarrow> (Some (Err ''no encoding for rune''), b)
      | Some code \<Rightarrow>
          (None, case sz of
                   baudotSixBit \<Rightarrow> WriteN 6 (of_nat code) b
                 | baudotFiveBit \<Rightarrow> WriteN 5 (of_nat code) b))"

fun write_chars :: "string \<Rightarrow> baudotSize \<Rightarrow> bits \<Rightarrow> go_fault option \<times> bits" where
  "write_chars [] sz b = (None, b)"
| "write_chars (c # cs) sz b =
     (case writeBaudot c sz b of
        (Some e, b') \<Rightarrow> (Some e, b')
      | (None, b') \<Rightarrow> write_chars cs sz b')"

text \<open>The padding loop and the loop over the string are \<open>write_chars\<close> over the padded string.\<close>

definition writeBaudotN :: "nat \<Rightarrow> string \<Rightarrow> baudotSize \<Rightarrow> bits \<Rightarrow> go_fault option \<times> bits" where
  "writeBaudotN n str sz b =
     (case write_chars (replicate (n - length str) CHR '' '') sz b of
        (Some e, b') \<Rightarrow> (Some e, b')
      | (None, b') \<Rightarrow> write_chars str sz b')"

definition WriteBaudotN :: "nat \<Rightarrow> string \<Rightarrow> bits \<Rightarrow> go_fault option \<times> bits" where
  "WriteBaudotN n str b = writeBaudotN n str baudotSixBit b"

definition WriteBaudot5N :: "nat \<Rightarrow> string \<Rightarrow> bits \<Rightarrow> go_fault option \<times> bits" where
  "WriteBaudot5N n str b = writeBaudotN n str baudotFiveBit b"

section \<open>Bits and values\<close>

definition byte_bits :: "byte \<Rightarrow> bool list" where
  "byte_bits w = map (bit w) [7, 6, 5, 4, 3, 2, 1, 0]"

definition bits_val :: "bool list \<Rightarrow> nat" where
  "bits_val bs = foldl (\<lambda>v b. 2 * v + of_bool b) 0 bs"

definition remaining :: "bits \<Rightarrow> bool list" where
  "remaining b =
     (if pos b < length (bytes b)
      then take (8 - nbits b) (byte_bits (bytes b ! pos b)) @ concat (map byte_bits (drop (pos b + 1) (bytes b)))
      else [])"

definition reader_ok :: "bits \<Rightarrow> bool" where
  "reader_ok b \<longleftrightarrow> nbits b < 8"

lemma length_byte_bits [simp]: "length (byte_bits w) = 8"
  by (simp add: byte_bits_def)

lemma bits_val_Nil [simp]: "bits_val [] = 0"
  by (simp add: bits_val_def)

lemma bits_val_snoc [simp]: "bits_val (bs @ [b]) = 2 * bits_val bs + of_bool b"
  by (simp add: bits_val_def)

lemma bits_val_less: "bits_val bs < 2 ^ length bs"
  by (induction bs rule: rev_induct) auto

lemma bits_val_append: "bits_val (xs @ ys) = bits_val xs * 2 ^ length ys + bits_val ys"
proof (induction ys rule: rev_induct)
  case (snoc y ys)
  then show ?case unfolding append_assoc [symmetric] bits_val_snoc by simp
qed simp

lemma byte_bits_shift: "byte_bits (push_bit 1 w) = tl (byte_bits w) @ [False]" for w :: byte
proof -
  have "bit (push_bit k w) n \<longleftrightarrow> k \<le> n \<and> n < 8 \<and> bit w (n - k)" for k n
    by (auto simp: bit_simps)
  from this [of 1] show ?thesis unfolding byte_bits_def by simp
qed

lemma byte_bits_top: "w AND 0x80 \<noteq> 0 \<longleftrightarrow> hd (byte_bits w)" for w :: byte
proof -
  have "(0x80 :: byte) = push_bit 7 1" by simp
  then show ?thesis by (simp only: byte_bits_def and_exp_eq_0_iff_not_bit push_bit_of_1) simp
qed

lemma Read_cons:
  assumes "reader_ok b" "remaining b = x # xs"
  shows "\<exists>b'. Read b = Inr (of_bool x, b') \<and> reader_ok b' \<and> remaining b' = xs"
proof -
  let ?w = "bytes b ! pos b"
  have lt: "pos b < length (bytes b)" using assms(2) by (auto simp: remaining_def split: if_splits)
  obtain y ys where w: "byte_bits ?w = y # ys" "length ys = 7"
    using length_byte_bits [of ?w] by (cases "byte_bits ?w") auto
  let ?bs = "(bytes b)[pos b := push_bit 1 ?w]"
  let ?rest = "concat (map byte_bits (drop (pos b + 1) (bytes b)))"
  have n: "nbits b < 8" using assms(1) by (simp add: reader_ok_def)
  then obtain k where k: "8 - nbits b = Suc k" "k \<le> 7" by (cases "8 - nbits b") auto
  have x: "x = y" "xs = take k ys @ ?rest"
    using assms(2) lt w k by (auto simp: remaining_def)
  have v: "(if ?w AND 0x80 \<noteq> 0 then 1 else 0) = (of_bool x :: u64)"
    using byte_bits_top [of ?w] w x by simp
  show ?thesis
  proof (cases "nbits b = 7")
    case True
    let ?b = "b\<lparr>bytes := ?bs, nbits := 0, pos := pos b + 1\<rparr>"
    have "Read b = Inr (of_bool x, ?b)" using lt True v by (simp add: Read_def Let_def)
    moreover have "remaining ?b = ?rest"
      by (cases "pos b + 1 < length (bytes b)")
        (auto simp: remaining_def Cons_nth_drop_Suc [symmetric] drop_update_cancel)
    ultimately show ?thesis using True k x by (auto simp: reader_ok_def)
  next
    case False
    let ?b = "b\<lparr>bytes := ?bs, nbits := nbits b + 1\<rparr>"
    have "Read b = Inr (of_bool x, ?b)" using lt False n v by (simp add: Read_def Let_def)
    moreover have "remaining ?b = take k ys @ ?rest"
    proof -
      have "8 - (nbits b + 1) = k" using k by simp
      with lt k w byte_bits_shift [of ?w] show ?thesis by (simp add: remaining_def)
    qed
    ultimately show ?thesis using False n x by (auto simp: reader_ok_def)
  qed
qed

lemma Read_nil: "remaining b = [] \<Longrightarrow> reader_ok b \<Longrightarrow> Read b = Inl OutOfRange"
  by (auto simp: remaining_def reader_ok_def Read_def byte_bits_def split: if_splits)

lemma readn_loop_bits:
  assumes "reader_ok b" "n \<le> length (remaining b)"
  shows "\<exists>b'. readn_loop n v b = Inr (word_of_nat (unat v * 2 ^ n + bits_val (take n (remaining b))), b') \<and>
    reader_ok b' \<and> remaining b' = drop n (remaining b)"
  using assms
proof (induction n arbitrary: v b)
  case 0
  then show ?case by auto
next
  case (Suc n)
  then obtain x xs where x: "remaining b = x # xs" by (cases "remaining b") auto
  with Read_cons [OF Suc.prems(1)] obtain b1 where
    b1: "Read b = Inr (of_bool x, b1)" "reader_ok b1" "remaining b1 = xs" by blast
  let ?v = "push_bit 1 v OR of_bool x"
  have v: "?v = 2 * v + of_bool x"
  proof -
    have "?v = push_bit 1 v + of_bool x"
      by (rule disjunctive_add [symmetric]) (auto simp: bit_simps bit_0)
    then show ?thesis by (simp add: push_bit_eq_mult mult.commute)
  qed
  obtain b' where b': "readn_loop n ?v b1 = Inr (word_of_nat (unat ?v * 2 ^ n + bits_val (take n xs)), b')"
    "reader_ok b'" "remaining b' = drop n xs"
    using Suc.IH [of b1 ?v] b1 Suc.prems x by auto
  have "word_of_nat (unat ?v * 2 ^ n + bits_val (take n xs))
      = (word_of_nat (unat v * 2 ^ Suc n + bits_val (x # take n xs)) :: u64)"
  proof -
    have "bits_val [x] = of_bool x" by (simp add: bits_val_def)
    then have "bits_val (x # take n xs) = of_bool x * 2 ^ n + bits_val (take n xs)"
      using bits_val_append [of "[x]" "take n xs"] Suc.prems x by simp
    then show ?thesis unfolding v by (simp add: algebra_simps)
  qed
  with b' b1 x show ?case by auto
qed

lemma ReadN_bits:
  assumes "reader_ok b" "n \<le> length (remaining b)"
  shows "\<exists>b'. ReadN n b = Inr (word_of_nat (bits_val (take n (remaining b))), b') \<and>
    reader_ok b' \<and> remaining b' = drop n (remaining b)"
  using readn_loop_bits [OF assms, of 0] by (simp add: ReadN_def)

lemma unat_bits_val: "length bs \<le> 64 \<Longrightarrow> unat (word_of_nat (bits_val bs) :: u64) = bits_val bs"
proof -
  assume "length bs \<le> 64"
  then have "(2::nat) ^ length bs \<le> 2 ^ 64" by (rule power_increasing) simp
  with bits_val_less [of bs] have "bits_val bs < 2 ^ LENGTH(64)" by simp
  then show ?thesis by (simp add: unsigned_of_nat take_bit_nat_eq_self)
qed

section \<open>The writer\<close>

definition written :: "bits \<Rightarrow> bool list" where
  "written b =
     (if bytes b = [] then []
      else concat (map byte_bits (butlast (bytes b))) @ take (8 - nbits b) (byte_bits (last (bytes b))))"

definition writer_ok :: "bits \<Rightarrow> bool" where
  "writer_ok b \<longleftrightarrow>
     (if bytes b = [] then pos b = 0 \<and> nbits b = 0
      else pos b = length (bytes b) - 1 \<and> nbits b < 8 \<and> (\<forall>i<nbits b. \<not> bit (last (bytes b)) i))"

lemma take_byte_bits: "k \<le> 8 \<Longrightarrow> take k (byte_bits w) = map (\<lambda>i. bit w (7 - i)) [0..<k]"
proof -
  assume "k \<le> 8"
  moreover have "byte_bits w = map (\<lambda>i. bit w (7 - i)) [0..<8]"
    by (simp add: byte_bits_def eval_nat_numeral)
  ultimately show ?thesis by (simp add: take_map)
qed

lemma nth_byte_bits: "k < 8 \<Longrightarrow> byte_bits w ! k = bit w (7 - k)"
  using take_byte_bits [of 8 w] by (simp del: upt_Suc)

lemma byte_write:
  fixes w :: byte and val :: u64
  assumes "n < 8" "\<forall>i<Suc n. \<not> bit w i"
  defines "w' \<equiv> w OR ucast (if val \<noteq> 0 then push_bit n 1 else val)"
  shows "take (8 - n) (byte_bits w') = take (7 - n) (byte_bits w) @ [val \<noteq> 0]" "\<forall>i<n. \<not> bit w' i"
proof -
  have b: "bit w' i \<longleftrightarrow> bit w i \<or> val \<noteq> 0 \<and> i = n" if "i < 8" for i
    using that assms(1) by (auto simp: w'_def bit_simps)
  have "[0..<8 - n] = [0..<7 - n] @ [7 - n]"
  proof -
    have "8 - n = Suc (7 - n)" using assms(1) by simp
    then show ?thesis by simp
  qed
  moreover have "bit w' (7 - i) = bit w (7 - i)" if "i < 7 - n" for i
    using that assms(1) b [of "7 - i"] by auto
  moreover have "bit w' (7 - (7 - n)) \<longleftrightarrow> val \<noteq> 0"
    using assms(1,2) b [of n] by simp
  ultimately show "take (8 - n) (byte_bits w') = take (7 - n) (byte_bits w) @ [val \<noteq> 0]"
    using assms(1) by (simp add: take_byte_bits)
  show "\<forall>i<n. \<not> bit w' i" using assms(1,2) b by auto
qed

lemma Write_bits:
  assumes "writer_ok b"
  shows "writer_ok (Write b val)" "written (Write b val) = written b @ [val \<noteq> 0]"
proof -
  let ?b1 = "if bytes b = [] then b\<lparr>bytes := [0], nbits := 8\<rparr>
     else if nbits b = 0 then b\<lparr>bytes := bytes b @ [0], nbits := 8, pos := pos b + 1\<rparr> else b"
  obtain xs w n where b1: "bytes ?b1 = xs @ [w]" "pos ?b1 = length xs" "nbits ?b1 = Suc n" "n < 8"
    "\<forall>i<Suc n. \<not> bit w i" "written b = concat (map byte_bits xs) @ take (7 - n) (byte_bits w)"
  proof (cases "bytes b" rule: rev_cases)
    case Nil
    with assms that [of "[]" 0 7] show ?thesis by (simp add: writer_ok_def written_def)
  next
    case (snoc ys y)
    show ?thesis
    proof (cases "nbits b")
      case 0
      with assms snoc that [of "bytes b" 0 7] show ?thesis by (simp add: writer_ok_def written_def)
    next
      case (Suc n)
      with assms snoc that [of ys y n] show ?thesis by (simp add: writer_ok_def written_def)
    qed
  qed
  let ?w = "w OR ucast (if val \<noteq> 0 then push_bit n 1 else val)"
  have W: "bytes (Write b val) = xs @ [?w]" "pos (Write b val) = length xs" "nbits (Write b val) = n"
    unfolding Write_def Let_def using b1(1-3) by (simp_all add: nth_append)
  note bw = byte_write [OF b1(4,5), of val]
  show "writer_ok (Write b val)" using bw(2) b1(4) by (simp add: writer_ok_def W)
  show "written (Write b val) = written b @ [val \<noteq> 0]"
    using bw(1) b1(6) by (simp add: written_def [of "Write b val"] W)
qed

definition val_bits :: "nat \<Rightarrow> u64 \<Rightarrow> bool list" where
  "val_bits n v = map (bit v) (rev [0..<n])"

lemma val_bits_simps [simp]: "val_bits 0 v = []" "val_bits (Suc n) v = bit v n # val_bits n v"
  "length (val_bits n v) = n"
  by (simp_all add: val_bits_def)

lemma WriteN_bits:
  "writer_ok b \<Longrightarrow> writer_ok (WriteN n v b) \<and> written (WriteN n v b) = written b @ val_bits n v"
proof (induction n arbitrary: b)
  case (Suc n)
  have "(v AND push_bit n 1 \<noteq> 0) = bit v n"
    by (simp only: push_bit_of_1 and_exp_eq_0_iff_not_bit) simp
  with Suc.IH [OF Write_bits(1) [OF Suc.prems, of "v AND push_bit n 1"]]
    Write_bits(2) [OF Suc.prems, of "v AND push_bit n 1"]
  show ?case by simp
qed simp

lemma WriteZeros_bits:
  "writer_ok b \<Longrightarrow> writer_ok (WriteZeros n b) \<and> written (WriteZeros n b) = written b @ replicate n False"
  by (induction n arbitrary: b) (simp_all add: Write_bits replicate_append_same)

lemma new_writer_ok [simp]: "writer_ok new_writer" "written new_writer = []"
  by (simp_all add: new_writer_def writer_ok_def written_def)

lemma written_remaining:
  assumes "writer_ok b"
  shows "remaining (NewBitReader (bytes b)) = written b @ replicate (nbits b) False"
proof (cases "bytes b" rule: rev_cases)
  case Nil
  with assms show ?thesis by (simp add: remaining_def NewBitReader_def written_def writer_ok_def)
next
  case (snoc xs w)
  have "drop (8 - nbits b) (byte_bits w) = replicate (nbits b) False"
  proof (rule nth_equalityI)
    fix i assume "i < length (drop (8 - nbits b) (byte_bits w))"
    then have i: "i < nbits b" "nbits b < 8" using assms snoc by (auto simp: writer_ok_def)
    have "byte_bits w ! (8 - nbits b + i) = bit w (7 - (8 - nbits b + i))"
      by (rule nth_byte_bits) (use i in simp)
    with i assms snoc show "drop (8 - nbits b) (byte_bits w) ! i = replicate (nbits b) False ! i"
      by (simp add: writer_ok_def)
  qed (use assms snoc in \<open>simp add: writer_ok_def\<close>)
  then have "byte_bits w = take (8 - nbits b) (byte_bits w) @ replicate (nbits b) False"
    by (metis append_take_drop_id)
  moreover have "remaining (NewBitReader (bytes b)) = concat (map byte_bits (bytes b))"
    using snoc by (cases xs) (simp_all add: remaining_def NewBitReader_def)
  ultimately show ?thesis by (simp add: written_def snoc)
qed

section \<open>Fields and characters\<close>

lemma bits_val_val_bits: "bits_val (val_bits n v) = take_bit n (unat v)"
proof (induction n)
  case (Suc n)
  have c: "bits_val (b # bs) = of_bool b * 2 ^ length bs + bits_val bs" for b bs
    using bits_val_append [of "[b]" bs] by (simp add: bits_val_def)
  have "take_bit (Suc n) (unat v) = of_bool (bit v n) * 2 ^ n + take_bit n (unat v)"
    by (simp add: take_bit_Suc_from_most bit_unsigned_iff)
  with Suc show ?case by (simp add: c)
qed simp

lemma word_val_bits: "n \<le> 64 \<Longrightarrow> word_of_nat (bits_val (val_bits n v)) = take_bit n v"
  by (rule word_unat_eq_iff [THEN iffD2])
    (simp add: unat_bits_val unsigned_take_bit_eq, simp add: bits_val_val_bits)

definition write_fields :: "(nat \<times> u64) list \<Rightarrow> bits \<Rightarrow> bits" where
  "write_fields fs b = fold (\<lambda>(n, v). WriteN n v) fs b"

fun read_fields :: "nat list \<Rightarrow> bits \<Rightarrow> (u64 list \<times> bits) res" where
  "read_fields [] b = Inr ([], b)"
| "read_fields (n # ns) b =
     rbind (ReadN n b) (\<lambda>(v, b1). rbind (read_fields ns b1) (\<lambda>(vs, b2). Inr (v # vs, b2)))"

lemma write_fields_bits:
  "writer_ok b \<Longrightarrow> writer_ok (write_fields fs b) \<and>
   written (write_fields fs b) = written b @ concat (map (\<lambda>(n, v). val_bits n v) fs)"
proof (induction fs arbitrary: b)
  case (Cons f fs)
  with WriteN_bits [OF Cons.prems] show ?case by (cases f) (simp add: write_fields_def)
qed (simp add: write_fields_def)

lemma ReadN_field:
  assumes "reader_ok b" "remaining b = val_bits n v @ rest" "n \<le> 64"
  shows "\<exists>b'. ReadN n b = Inr (take_bit n v, b') \<and> reader_ok b' \<and> remaining b' = rest"
  using ReadN_bits [OF assms(1), of n] assms(2,3) by (simp add: word_val_bits)

lemma read_fields_bits:
  "reader_ok b \<Longrightarrow> remaining b = concat (map (\<lambda>(n, v). val_bits n v) fs) @ rest \<Longrightarrow>
   \<forall>(n, v)\<in>set fs. n \<le> 64 \<Longrightarrow>
   \<exists>b'. read_fields (map fst fs) b = Inr (map (\<lambda>(n, v). take_bit n v) fs, b') \<and>
     reader_ok b' \<and> remaining b' = rest"
proof (induction fs arbitrary: b)
  case (Cons f fs)
  obtain n v where f: "f = (n, v)" by (cases f)
  with ReadN_field [OF Cons.prems(1), of n v] Cons.prems(2,3) obtain b1 where
    "ReadN n b = Inr (take_bit n v, b1)" "reader_ok b1"
    "remaining b1 = concat (map (\<lambda>(n, v). val_bits n v) fs) @ rest" by auto
  with Cons.IH [of b1] Cons.prems(3) f show ?case by auto
qed simp

definition char_width :: "baudotSize \<Rightarrow> nat" where
  "char_width sz = (case sz of baudotSixBit \<Rightarrow> 6 | baudotFiveBit \<Rightarrow> 5)"

text \<open>The characters the format can carry: five bits keep only codes whose sixth bit is set.\<close>

definition encodable :: "baudotSize \<Rightarrow> char \<Rightarrow> bool" where
  "encodable sz c \<longleftrightarrow>
     (case runeToBaudot c of None \<Rightarrow> False | Some code \<Rightarrow> sz = baudotSixBit \<or> 32 \<le> code)"

lemma char_width_le: "char_width sz \<le> 64"
  by (cases sz) (simp_all add: char_width_def)

lemma baudot_inverse: "runeToBaudot c = Some code \<Longrightarrow> (code, c) \<in> set baudot_table"
  by (auto simp: runeToBaudot_def dest!: map_of_SomeD)

lemma baudot_table_ok:
  "\<forall>(code, c)\<in>set baudot_table. baudotToRune code = Some c \<and>
     unat (take_bit 6 (word_of_nat code) :: u64) = code \<and>
     (32 \<le> code \<longrightarrow> unat (take_bit 5 (word_of_nat code) OR 32 :: u64) = code)"
  by code_simp

lemma writeBaudot_bits:
  assumes "writer_ok b" "runeToBaudot c = Some code"
  shows "\<exists>b'. writeBaudot c sz b = (None, b') \<and> writer_ok b' \<and>
    written b' = written b @ val_bits (char_width sz) (word_of_nat code)"
  using WriteN_bits [OF assms(1), of "char_width sz" "word_of_nat code"] assms(2)
  by (auto simp: writeBaudot_def char_width_def split: baudotSize.splits)

lemma readBaudot_bits:
  assumes "reader_ok b" "runeToBaudot c = Some code" "encodable sz c"
    and "remaining b = val_bits (char_width sz) (word_of_nat code) @ rest"
  shows "\<exists>b'. readBaudot sz b = Inr (c, b') \<and> reader_ok b' \<and> remaining b' = rest"
proof -
  have t: "baudotToRune code = Some c" "unat (take_bit 6 (word_of_nat code) :: u64) = code"
    "32 \<le> code \<Longrightarrow> unat (take_bit 5 (word_of_nat code) OR 32 :: u64) = code"
    using baudot_table_ok baudot_inverse [OF assms(2)] by auto
  obtain b' where b': "ReadN (char_width sz) b = Inr (take_bit (char_width sz) (word_of_nat code), b')"
    "reader_ok b'" "remaining b' = rest"
    using ReadN_field [OF assms(1,4)] char_width_le [of sz] by blast
  show ?thesis
    using b' t assms(2,3)
    by (cases sz) (simp_all add: readBaudot_def char_width_def encodable_def)
qed

definition chars_bits :: "baudotSize \<Rightarrow> string \<Rightarrow> bool list" where
  "chars_bits sz cs = concat (map (\<lambda>c. val_bits (char_width sz) (word_of_nat (the (runeToBaudot c)))) cs)"

lemma write_chars_bits:
  "writer_ok b \<Longrightarrow> \<forall>c\<in>set cs. encodable sz c \<Longrightarrow>
   \<exists>b'. write_chars cs sz b = (None, b') \<and> writer_ok b' \<and> written b' = written b @ chars_bits sz cs"
proof (induction cs arbitrary: b)
  case (Cons c cs)
  then obtain code where code: "runeToBaudot c = Some code"
    by (auto simp: encodable_def split: option.splits)
  with writeBaudot_bits [OF Cons.prems(1) code] obtain b1 where
    "writeBaudot c sz b = (None, b1)" "writer_ok b1"
    "written b1 = written b @ val_bits (char_width sz) (word_of_nat code)" by blast
  with Cons.IH [of b1] Cons.prems(2) code show ?case by (auto simp: chars_bits_def)
qed (simp add: chars_bits_def)

lemma readBaudotN_bits:
  "reader_ok b \<Longrightarrow> \<forall>c\<in>set cs. encodable sz c \<Longrightarrow> remaining b = chars_bits sz cs @ rest \<Longrightarrow>
   \<exists>b'. readBaudotN (length cs) sz b = Inr (cs, b') \<and> reader_ok b' \<and> remaining b' = rest"
proof (induction cs arbitrary: b)
  case (Cons c cs)
  then obtain code where code: "runeToBaudot c = Some code"
    by (auto simp: encodable_def split: option.splits)
  obtain b1 where "readBaudot sz b = Inr (c, b1)" "reader_ok b1" "remaining b1 = chars_bits sz cs @ rest"
    using readBaudot_bits [OF Cons.prems(1) code, of sz "chars_bits sz cs @ rest"] Cons.prems(2,3) code
    by (auto simp: chars_bits_def)
  with Cons.IH [of b1] Cons.prems(2) show ?case by auto
qed (simp add: chars_bits_def)

lemma new_reader_ok [simp]: "reader_ok (NewBitReader bs)"
  by (simp add: reader_ok_def NewBitReader_def)

section \<open>Properties\<close>

text \<open>Writing any sequence of bit fields and reading the bytes back with the same widths returns
  each value, cut to its width, and never runs past the array.\<close>

theorem fields_roundtrip:
  assumes "\<forall>(n, v)\<in>set fs. n \<le> 64"
  shows "\<exists>b. read_fields (map fst fs) (NewBitReader (bytes (write_fields fs new_writer))) =
    Inr (map (\<lambda>(n, v). take_bit n v) fs, b)"
proof -
  let ?w = "write_fields fs new_writer"
  have "writer_ok ?w" "written ?w = concat (map (\<lambda>(n, v). val_bits n v) fs)"
    using write_fields_bits [of new_writer fs] by simp_all
  with written_remaining [of ?w] read_fields_bits [OF new_reader_ok _ assms, of "bytes ?w"]
  show ?thesis by fastforce
qed

theorem fields_roundtrip_witness:
  "\<exists>b. read_fields [4, 24] (NewBitReader (bytes (write_fields [(4, 5), (24, 0xBCDEF9)] new_writer)))
     = Inr ([5, 0xBCDEF9], b)"
  using fields_roundtrip [of "[(4, 5), (24, 0xBCDEF9)]"] by simp

text \<open>A string of at most \<open>n\<close> Baudot characters written in a field of \<open>n\<close> characters is read back
  padded with spaces on the left; in the five-bit variant this holds for the letters and the
  space, the characters whose sixth code bit is set.\<close>

theorem baudot_roundtrip:
  assumes "length str \<le> n" "\<forall>c\<in>set str. encodable sz c"
  shows "\<exists>w b. writeBaudotN n str sz new_writer = (None, w) \<and>
    readBaudotN n sz (NewBitReader (bytes w)) = Inr (replicate (n - length str) CHR '' '' @ str, b)"
proof -
  let ?pad = "replicate (n - length str) CHR '' ''"
  have "encodable baudotSixBit CHR '' ''" "encodable baudotFiveBit CHR '' ''" by code_simp+
  then have sp: "encodable sz CHR '' ''" by (cases sz) simp_all
  obtain w1 where w1: "write_chars ?pad sz new_writer = (None, w1)" "writer_ok w1"
    "written w1 = chars_bits sz ?pad"
    using write_chars_bits [of new_writer ?pad sz] sp by auto
  obtain w where w: "write_chars str sz w1 = (None, w)" "writer_ok w"
    "written w = chars_bits sz ?pad @ chars_bits sz str"
    using write_chars_bits [OF w1(2) assms(2)] w1(3) by auto
  have "remaining (NewBitReader (bytes w)) = chars_bits sz (?pad @ str) @ replicate (nbits w) False"
    using written_remaining [OF w(2)] w(3) by (simp add: chars_bits_def)
  moreover have "\<forall>c\<in>set (?pad @ str). encodable sz c" using sp assms(2) by auto
  ultimately obtain b where "readBaudotN (length (?pad @ str)) sz (NewBitReader (bytes w)) = Inr (?pad @ str, b)"
    using readBaudotN_bits [OF new_reader_ok] by blast
  moreover have "length (?pad @ str) = n" using assms(1) by simp
  ultimately show ?thesis using w1(1) w(1) by (simp add: writeBaudotN_def)
qed

theorem baudot_roundtrip_witness:
  "\<exists>w b. writeBaudotN 7 ''C7518'' baudotSixBit new_writer = (None, w) \<and>
     readBaudotN 7 baudotSixBit (NewBitReader (bytes w)) = Inr (''  C7518'', b)"
proof -
  have "\<forall>c\<in>set ''C7518''. encodable baudotSixBit c" by code_simp
  from baudot_roundtrip [of "''C7518''" 7, OF _ this] show ?thesis by (simp add: eval_nat_numeral)
qed

end
