(* ===== verification/Sar_Decode.thy ===== *)
theory Sar_Decode
  imports Sar_Bits
begin

unbundle bit_operations_syntax

text \<open>
  \<^verbatim>\<open>tms/sar/decode.go\<close> and \<^verbatim>\<open>tms/sar/beacon_util.go\<close>: decoding of the 15-digit hexadecimal
  identification of a Cospas-Sarsat beacon, branch by branch. A protocol function takes the
  bit reader and the beacon and returns the beacon with its \<open>Protocol\<close> set; fields the code leaves
  alone keep Go's zero values. The functions of the Go standard library it uses
  (\<^verbatim>\<open>hex.DecodeString\<close>, \<^verbatim>\<open>strconv.ParseUint\<close>, \<^verbatim>\<open>strings.TrimSpace\<close>, \<^verbatim>\<open>fmt.Sprintf("%03x")\<close>,
  \<^verbatim>\<open>strconv.FormatUint\<close>) are written out for the arguments that occur.
\<close>

section \<open>Standard library\<close>

definition hex_val :: "char \<Rightarrow> nat option" where
  "hex_val c =
     (let n = of_char c :: nat in
      if 48 \<le> n \<and> n \<le> 57 then Some (n - 48)
      else if 97 \<le> n \<and> n \<le> 102 then Some (n - 87)
      else if 65 \<le> n \<and> n \<le> 70 then Some (n - 55)
      else None)"

fun hex_decode :: "string \<Rightarrow> (byte list) res" where
  "hex_decode [] = Inr []"
| "hex_decode [c] = Inl (Err ''encoding/hex: odd length hex string'')"
| "hex_decode (c # d # cs) =
     (case (hex_val c, hex_val d) of
        (Some h, Some l) \<Rightarrow> rbind (hex_decode cs) (\<lambda>bs. Inr (word_of_nat (16 * h + l) # bs))
      | _ \<Rightarrow> Inl (Err ''encoding/hex: invalid byte''))"

definition is_digit :: "char \<Rightarrow> bool" where
  "is_digit c \<longleftrightarrow> 48 \<le> (of_char c :: nat) \<and> (of_char c :: nat) \<le> 57"

definition digits_val :: "string \<Rightarrow> nat" where
  "digits_val cs = foldl (\<lambda>v c. 10 * v + (of_char c - 48)) 0 cs"

text \<open>\<^verbatim>\<open>ParseUint(s, 10, 0)\<close>, where a number has to fit in 64 bits.\<close>

definition ParseUint :: "string \<Rightarrow> u64 option" where
  "ParseUint s =
     (if s \<noteq> [] \<and> list_all is_digit s \<and> digits_val s < 2 ^ 64 then Some (word_of_nat (digits_val s)) else None)"

text \<open>White space among the ASCII characters.\<close>

definition is_space :: "char \<Rightarrow> bool" where
  "is_space c \<longleftrightarrow> (of_char c :: nat) \<in> {9, 10, 11, 12, 13, 32}"

definition TrimSpace :: "string \<Rightarrow> string" where
  "TrimSpace s = rev (dropWhile is_space (rev (dropWhile is_space s)))"

definition hex_digit :: "nat \<Rightarrow> char" where
  "hex_digit n = ''0123456789abcdef'' ! n"

fun hex_str :: "nat \<Rightarrow> string" where
  "hex_str n = (if n < 16 then [hex_digit n] else hex_str (n div 16) @ [hex_digit (n mod 16)])"

definition sprintf_03x :: "nat \<Rightarrow> string" where
  "sprintf_03x n = (let s = hex_str n in replicate (3 - length s) CHR ''0'' @ s)"

fun FormatUint :: "nat \<Rightarrow> string" where
  "FormatUint n = (if n < 10 then [char_of (48 + n)] else FormatUint (n div 10) @ [char_of (48 + n mod 10)])"

declare hex_str.simps [simp del] FormatUint.simps [simp del]

section \<open>Beacons\<close>

record AviationUser =
  AircraftRegistrationMarking :: string
  au_SpecificEltNumber :: u64
  au_AuxiliaryRadioLocatingDevice :: u64

record MaritimeUser =
  mu_Mmsi :: u64
  mu_CallSign :: string
  mu_SpecificBeaconNumber :: string
  mu_AuxiliaryRadioLocatingDevice :: u64

record SerialUser =
  su_BeaconType :: u64
  su_AircraftAddress :: u64
  su_SpecificEltNumber :: u64
  su_CertificateNumber :: u64
  su_NationalUse :: u64
  su_AircraftOperatorDesignator :: string
  su_SerialNumber :: u64
  su_AuxiliaryRadioLocatingDevice :: u64

record RadioCallSignUser =
  ru_CallSign :: string
  ru_SpecificBeaconNumber :: string
  ru_AuxiliaryRadioLocatingDevice :: u64

record MaritimeStandardLocation =
  ml_Mmsi :: u64
  ml_SpecificBeaconNumber :: u64

record SerialStandardLocation =
  sl_BeaconType :: u64
  sl_CertificateNumber :: u64
  sl_SerialNumber :: u64
  sl_AircraftOperatorDesignator :: string

record NationalLocation =
  nl_BeaconType :: u64
  nl_SerialNumber :: u64

record RLSLocation =
  rl_BeaconType :: u64
  HasMmsi :: bool
  MmsiSuffix :: u64
  TacNumber :: u64
  NationalRlsNumber :: u64
  rl_SerialNumber :: u64

datatype protocol =
    Beacon_AviationUser AviationUser
  | Beacon_MaritimeUser MaritimeUser
  | Beacon_SerialUser SerialUser
  | Beacon_RadioCallSignUser RadioCallSignUser
  | Beacon_NationalUser u64
  | Beacon_TestUser u64
  | Beacon_OrbitographyProtocol u64
  | Beacon_MaritimeStandardLocation MaritimeStandardLocation
  | Beacon_AviationStandardLocation u64
  | Beacon_SerialStandardLocation SerialStandardLocation
  | Beacon_ShipSecurityLocation u64
  | Beacon_NationalLocation NationalLocation
  | Beacon_RlsLocation RLSLocation

record Beacon =
  HexId :: string
  CountryCode :: u64
  Protocol :: "protocol option"

definition set_protocol :: "Beacon \<Rightarrow> protocol \<Rightarrow> Beacon" where
  "set_protocol b p = b\<lparr>Protocol := Some p\<rparr>"

definition combineMmsi :: "u64 \<Rightarrow> u64 \<Rightarrow> u64" where
  "combineMmsi countryCode mmsi6 = countryCode * 1000000 + mmsi6"

section \<open>User protocols\<close>

definition aviationUser :: "bits \<Rightarrow> Beacon \<Rightarrow> Beacon res" where
  "aviationUser i b =
     rbind (ReadBaudotN 7 i) (\<lambda>(marking, i).
     rbind (ReadN 2 i) (\<lambda>(elt, i).
     rbind (ReadN 2 i) (\<lambda>(aux, i).
       Inr (set_protocol b (Beacon_AviationUser
         \<lparr>AircraftRegistrationMarking = TrimSpace marking, au_SpecificEltNumber = elt,
          au_AuxiliaryRadioLocatingDevice = aux\<rparr>)))))"

definition maritimeUser :: "bits \<Rightarrow> Beacon \<Rightarrow> Beacon res" where
  "maritimeUser i b =
     rbind (ReadBaudotN 6 i) (\<lambda>(char6, i).
     let (mmsi, callSign) =
       (case ParseUint char6 of
          None \<Rightarrow> (0, TrimSpace char6)
        | Some digits6 \<Rightarrow> (combineMmsi (CountryCode b) digits6, '''')) in
     rbind (ReadBaudotN 1 i) (\<lambda>(beaconN, i).
     rbind (SkipN 2 i) (\<lambda>i.
     rbind (ReadN 2 i) (\<lambda>(aux, i).
       Inr (set_protocol b (Beacon_MaritimeUser
         \<lparr>mu_Mmsi = mmsi, mu_CallSign = callSign, mu_SpecificBeaconNumber = beaconN,
          mu_AuxiliaryRadioLocatingDevice = aux\<rparr>))))))"

definition zero_su :: SerialUser where
  "zero_su = \<lparr>su_BeaconType = 0, su_AircraftAddress = 0, su_SpecificEltNumber = 0,
     su_CertificateNumber = 0, su_NationalUse = 0, su_AircraftOperatorDesignator = '''',
     su_SerialNumber = 0, su_AuxiliaryRadioLocatingDevice = 0\<rparr>"

text \<open>The tail the cases 3 and 1 share: ten bits of certificate number or national use.\<close>

definition cert_or_national :: "u64 \<Rightarrow> SerialUser \<Rightarrow> bits \<Rightarrow> (SerialUser \<times> bits) res" where
  "cert_or_national hasCertNumber su i =
     (if hasCertNumber = 1 then rbind (ReadN 10 i) (\<lambda>(c, i). Inr (su\<lparr>su_CertificateNumber := c\<rparr>, i))
      else rbind (ReadN 10 i) (\<lambda>(c, i). Inr (su\<lparr>su_NationalUse := c\<rparr>, i)))"

definition serial_body :: "u64 \<Rightarrow> SerialUser \<Rightarrow> bits \<Rightarrow> (SerialUser \<times> bits) res" where
  "serial_body hasCertNumber su i =
     (if su_BeaconType su = 3 then
        rbind (ReadN 24 i) (\<lambda>(addr, i).
        rbind (ReadN 6 i) (\<lambda>(elt, i).
          cert_or_national hasCertNumber (su\<lparr>su_AircraftAddress := addr, su_SpecificEltNumber := elt\<rparr>) i))
      else if su_BeaconType su = 1 then
        rbind (ReadBaudotN 3 i) (\<lambda>(aod, i).
        rbind (ReadN 12 i) (\<lambda>(n, i).
          cert_or_national hasCertNumber (su\<lparr>su_AircraftOperatorDesignator := aod, su_SerialNumber := n\<rparr>) i))
      else
        rbind (ReadN 20 i) (\<lambda>(n, i).
          if hasCertNumber = 1 then
            rbind (ReadN 10 i) (\<lambda>(nu, i).
            rbind (ReadN 10 i) (\<lambda>(c, i).
              Inr (su\<lparr>su_SerialNumber := n, su_NationalUse := nu, su_CertificateNumber := c\<rparr>, i)))
          else rbind (ReadN 20 i) (\<lambda>(nu, i). Inr (su\<lparr>su_SerialNumber := n, su_NationalUse := nu\<rparr>, i))))"

definition serialUser :: "bits \<Rightarrow> Beacon \<Rightarrow> Beacon res" where
  "serialUser i b =
     rbind (ReadN 3 i) (\<lambda>(bt, i).
     rbind (Read i) (\<lambda>(hasCertNumber, i).
     rbind (serial_body hasCertNumber (zero_su\<lparr>su_BeaconType := bt\<rparr>) i) (\<lambda>(su, i).
     rbind (ReadN 2 i) (\<lambda>(aux, i).
       Inr (set_protocol b (Beacon_SerialUser (su\<lparr>su_AuxiliaryRadioLocatingDevice := aux\<rparr>)))))))"

definition radioCallSignUser :: "bits \<Rightarrow> Beacon \<Rightarrow> Beacon res" where
  "radioCallSignUser i b =
     rbind (ReadBaudotN 4 i) (\<lambda>(sign1, i).
     rbind (ReadN 12 i) (\<lambda>(sign2bcd, i).
     let sign2 = TrimSpace (map (\<lambda>c. if c = CHR ''a'' then CHR '' '' else c) (sprintf_03x (unat sign2bcd))) in
     rbind (ReadBaudotN 1 i) (\<lambda>(beaconN, i).
     rbind (SkipN 2 i) (\<lambda>i.
     rbind (ReadN 2 i) (\<lambda>(aux, i).
       Inr (set_protocol b (Beacon_RadioCallSignUser
         \<lparr>ru_CallSign = TrimSpace (sign1 @ sign2), ru_SpecificBeaconNumber = beaconN,
          ru_AuxiliaryRadioLocatingDevice = aux\<rparr>)))))))"

definition nationalUser :: "bits \<Rightarrow> Beacon \<Rightarrow> Beacon res" where
  "nationalUser i b = rbind (ReadN 45 i) (\<lambda>(v, i). Inr (set_protocol b (Beacon_NationalUser v)))"

definition testUser :: "bits \<Rightarrow> Beacon \<Rightarrow> Beacon res" where
  "testUser i b = rbind (ReadN 45 i) (\<lambda>(v, i). Inr (set_protocol b (Beacon_TestUser v)))"

definition orbitographyProtocol :: "bits \<Rightarrow> Beacon \<Rightarrow> Beacon res" where
  "orbitographyProtocol i b =
     rbind (ReadN 45 i) (\<lambda>(v, i). Inr (set_protocol b (Beacon_OrbitographyProtocol v)))"

definition userAndUserLocationProtocols :: "bits \<Rightarrow> Beacon \<Rightarrow> Beacon res" where
  "userAndUserLocationProtocols i b =
     rbind (ReadN 3 i) (\<lambda>(protocolCode, i).
       if protocolCode = 1 then aviationUser i b
       else if protocolCode = 2 then maritimeUser i b
       else if protocolCode = 3 then serialUser i b
       else if protocolCode = 6 then radioCallSignUser i b
       else if protocolCode = 4 then nationalUser i b
       else if protocolCode = 7 then testUser i b
       else if protocolCode = 0 then orbitographyProtocol i b
       else Inl (Err ''unhandled protocol code''))"

section \<open>Location protocols\<close>

definition maritimeStandardLocation :: "bits \<Rightarrow> Beacon \<Rightarrow> Beacon res" where
  "maritimeStandardLocation i b =
     rbind (ReadN 20 i) (\<lambda>(mmsi6, i).
     rbind (ReadN 4 i) (\<lambda>(n, i).
       Inr (set_protocol b (Beacon_MaritimeStandardLocation
         \<lparr>ml_Mmsi = combineMmsi (CountryCode b) mmsi6, ml_SpecificBeaconNumber = n\<rparr>))))"

definition aviationStandardLocation :: "bits \<Rightarrow> Beacon \<Rightarrow> Beacon res" where
  "aviationStandardLocation i b =
     rbind (ReadN 24 i) (\<lambda>(addr, i). Inr (set_protocol b (Beacon_AviationStandardLocation addr)))"

definition serialStandardLocation :: "bits \<Rightarrow> Beacon \<Rightarrow> u64 \<Rightarrow> Beacon res" where
  "serialStandardLocation i b protocolCode =
     (let sl = \<lparr>sl_BeaconType = protocolCode, sl_CertificateNumber = 0, sl_SerialNumber = 0,
                sl_AircraftOperatorDesignator = ''''\<rparr> in
      rbind (if protocolCode = 4 \<or> protocolCode = 6 \<or> protocolCode = 7 then
               rbind (ReadN 10 i) (\<lambda>(c, i).
               rbind (ReadN 14 i) (\<lambda>(n, i). Inr (sl\<lparr>sl_CertificateNumber := c, sl_SerialNumber := n\<rparr>)))
             else if protocolCode = 5 then
               rbind (ReadBaudot5N 3 i) (\<lambda>(aod, i).
               rbind (ReadN 9 i) (\<lambda>(n, i).
                 Inr (sl\<lparr>sl_AircraftOperatorDesignator := aod, sl_SerialNumber := n\<rparr>)))
             else Inr sl) (\<lambda>sl.
        Inr (set_protocol b (Beacon_SerialStandardLocation sl))))"

definition shipSecurityStandardLocation :: "bits \<Rightarrow> Beacon \<Rightarrow> Beacon res" where
  "shipSecurityStandardLocation i b =
     rbind (ReadN 20 i) (\<lambda>(mmsi6, i).
       Inr (set_protocol b (Beacon_ShipSecurityLocation (combineMmsi (CountryCode b) mmsi6))))"

definition nationalLocation :: "bits \<Rightarrow> Beacon \<Rightarrow> u64 \<Rightarrow> Beacon res" where
  "nationalLocation i b btype =
     rbind (ReadN 18 i) (\<lambda>(n, i).
       Inr (set_protocol b (Beacon_NationalLocation \<lparr>nl_BeaconType = btype, nl_SerialNumber = n\<rparr>)))"

text \<open>The number of a return-link beacon, by beacon type, and the field that takes it.\<close>

definition rls_num :: "u64 \<Rightarrow> u64 \<Rightarrow> u64" where
  "rls_num bt suffix =
     (if bt = 1 then 1000 + suffix
      else if bt = 0 then 2000 + suffix
      else if bt = 2 then 3000 + suffix
      else suffix)"

definition rls_store :: "u64 \<Rightarrow> u64 \<Rightarrow> RLSLocation \<Rightarrow> RLSLocation" where
  "rls_store suffix num rls =
     (if suffix < 920 then rls\<lparr>TacNumber := num\<rparr> else rls\<lparr>NationalRlsNumber := num\<rparr>)"

definition rlsLocation :: "bits \<Rightarrow> Beacon \<Rightarrow> Beacon res" where
  "rlsLocation i b =
     rbind (ReadN 2 i) (\<lambda>(bt, i).
     rbind (ReadN 4 i) (\<lambda>(b43to46, i).
     let rls = \<lparr>rl_BeaconType = bt, HasMmsi = False, MmsiSuffix = 0, TacNumber = 0,
                NationalRlsNumber = 0, rl_SerialNumber = 0\<rparr> in
     rbind (if b43to46 = 15 then
              rbind (ReadN 20 i) (\<lambda>(s, i). Inr (rls\<lparr>HasMmsi := True, MmsiSuffix := s\<rparr>))
            else
              rbind (ReadN 6 i) (\<lambda>(nxt, i).
              let suffix = push_bit 6 b43to46 OR nxt;
                  rls1 = rls_store suffix (rls_num bt suffix) rls in
              rbind (ReadN 14 i) (\<lambda>(n, i). Inr (rls1\<lparr>rl_SerialNumber := n\<rparr>)))) (\<lambda>rls.
       Inr (set_protocol b (Beacon_RlsLocation rls)))))"

definition standardAndNationalLocationProtocols :: "bits \<Rightarrow> Beacon \<Rightarrow> Beacon res" where
  "standardAndNationalLocationProtocols i b =
     rbind (ReadN 4 i) (\<lambda>(protocolCode, i).
       if protocolCode = 2 then maritimeStandardLocation i b
       else if protocolCode = 3 then aviationStandardLocation i b
       else if protocolCode \<in> {6, 4, 5, 7} then serialStandardLocation i b protocolCode
       else if protocolCode = 12 then shipSecurityStandardLocation i b
       else if protocolCode \<in> {10, 8, 11} then nationalLocation i b protocolCode
       else if protocolCode = 13 then rlsLocation i b
       else Inl (Err ''unhandled protocol code''))"

definition DecodeHexID :: "string \<Rightarrow> Beacon res" where
  "DecodeHexID hexID =
     (if length hexID \<noteq> 15 then Inl (Err ''invalid hex id length'')
      else
        rbind (hex_decode (hexID @ ''0'')) (\<lambda>bs.
        rbind (Read (NewBitReader bs)) (\<lambda>(protocolFlag, i).
        rbind (ReadN 10 i) (\<lambda>(countryCode, i).
        let b = \<lparr>HexId = hexID, CountryCode = countryCode, Protocol = None\<rparr> in
        if protocolFlag = 1 then userAndUserLocationProtocols i b
        else standardAndNationalLocationProtocols i b))))"

fun GetMmsi :: "Beacon \<Rightarrow> string" where
  "GetMmsi b =
     (case Protocol b of
        Some (Beacon_MaritimeUser mu) \<Rightarrow> FormatUint (unat (mu_Mmsi mu))
      | Some (Beacon_MaritimeStandardLocation ml) \<Rightarrow> FormatUint (unat (ml_Mmsi ml))
      | Some (Beacon_ShipSecurityLocation m) \<Rightarrow> FormatUint (unat m)
      | _ \<Rightarrow> '''')"

section \<open>Reading within the identifier\<close>

text \<open>The call returns a value satisfying \<open>P\<close> or reports an error, but does not panic.\<close>

definition outcome :: "('a \<Rightarrow> bool) \<Rightarrow> 'a res \<Rightarrow> bool" where
  "outcome P r \<longleftrightarrow> (case r of Inr x \<Rightarrow> P x | Inl (Err e) \<Rightarrow> True | Inl _ \<Rightarrow> False)"

definition has :: "nat \<Rightarrow> bits \<Rightarrow> bool" where
  "has k b \<longleftrightarrow> reader_ok b \<and> k \<le> length (remaining b)"

lemma outcome_simps [simp]: "outcome P (Inr x) = P x" "outcome P (Inl (Err e))"
  by (simp_all add: outcome_def)

lemma outcome_ReadN:
  assumes "has k b" "n \<le> k" "n \<le> 64"
    and "\<And>v b'. has (k - n) b' \<Longrightarrow> unat v < 2 ^ n \<Longrightarrow> outcome P (f (v, b'))"
  shows "outcome P (rbind (ReadN n b) f)"
proof -
  from assms(1,2) have n: "reader_ok b" "n \<le> length (remaining b)" by (auto simp: has_def)
  let ?bs = "take n (remaining b)"
  obtain b' where b': "ReadN n b = Inr (word_of_nat (bits_val ?bs), b')" "reader_ok b'"
    "remaining b' = drop n (remaining b)"
    using ReadN_bits [OF n] by blast
  have "unat (word_of_nat (bits_val ?bs) :: u64) < 2 ^ n"
    using unat_bits_val [of ?bs] bits_val_less [of ?bs] n(2) assms(3) by simp
  moreover have "has (k - n) b'" using assms(1) b' by (auto simp: has_def)
  ultimately show ?thesis using assms(4) b'(1) by simp
qed

lemma outcome_Read:
  assumes "has k b" "0 < k" "\<And>v b'. has (k - 1) b' \<Longrightarrow> v \<in> {0, 1} \<Longrightarrow> outcome P (f (v, b'))"
  shows "outcome P (rbind (Read b) f)"
proof -
  from assms(1,2) obtain x xs where x: "remaining b = x # xs" "k \<le> Suc (length xs)" "reader_ok b"
    by (cases "remaining b") (auto simp: has_def)
  with Read_cons obtain b' where "Read b = Inr (of_bool x, b')" "reader_ok b'" "remaining b' = xs"
    by blast
  with assms(3) [of b' "of_bool x"] x show ?thesis by (auto simp: has_def)
qed

lemma outcome_SkipN:
  assumes "has k b" "n \<le> k" "n \<le> 64" "\<And>b'. has (k - n) b' \<Longrightarrow> outcome P (f b')"
  shows "outcome P (rbind (SkipN n b) f)"
proof -
  have "rbind (SkipN n b) f = rbind (ReadN n b) (\<lambda>(v, b'). f b')"
    by (cases "ReadN n b") (auto simp: SkipN_def)
  moreover have "outcome P (rbind (ReadN n b) (\<lambda>(v, b'). f b'))"
    by (rule outcome_ReadN [OF assms(1-3)]) (simp add: assms(4))
  ultimately show ?thesis by simp
qed

lemma outcome_rbind: "outcome Q r \<Longrightarrow> (\<And>x. Q x \<Longrightarrow> outcome P (f x)) \<Longrightarrow> outcome P (rbind r f)"
  by (cases r) (auto simp: outcome_def split: go_fault.splits)

lemma readBaudot_outcome:
  assumes "has k b" "char_width sz \<le> k"
  shows "outcome (\<lambda>(c, b'). has (k - char_width sz) b') (readBaudot sz b)"
proof (cases sz)
  case baudotSixBit
  with assms show ?thesis
    by (auto simp: readBaudot_def char_width_def split: option.splits intro!: outcome_ReadN [of k])
next
  case baudotFiveBit
  have "outcome (\<lambda>(c, b'). has (k - 5) b') (rbind (ReadN 5 b) (\<lambda>(c, b'). Inr (c OR 32, b')))"
    using assms baudotFiveBit by (intro outcome_ReadN [of k]) (auto simp: char_width_def)
  then show ?thesis
    unfolding readBaudot_def baudotFiveBit baudotSize.case char_width_def
    by (rule outcome_rbind) (auto split: option.splits)
qed

lemma readBaudotN_outcome:
  "has k b \<Longrightarrow> n * char_width sz \<le> k \<Longrightarrow>
   outcome (\<lambda>(cs, b'). length cs = n \<and> has (k - n * char_width sz) b') (readBaudotN n sz b)"
proof (induction n arbitrary: k b)
  case (Suc n)
  have "outcome (\<lambda>(c, b'). has (k - char_width sz) b') (readBaudot sz b)"
    using Suc.prems by (intro readBaudot_outcome) auto
  moreover have "outcome (\<lambda>(cs, b2). length cs = n \<and> has (k - Suc n * char_width sz) b2) (readBaudotN n sz b1)"
    if "has (k - char_width sz) b1" for b1
    using Suc.IH [OF that] Suc.prems(2) by (simp add: diff_diff_left)
  ultimately show ?case
    by (fastforce intro!: outcome_rbind)
qed simp

lemma outcome_ReadBaudotN:
  assumes "has k b" "n * 6 \<le> k" "\<And>s b'. has (k - n * 6) b' \<Longrightarrow> length s = n \<Longrightarrow> outcome P (f (s, b'))"
  shows "outcome P (rbind (ReadBaudotN n b) f)"
  using readBaudotN_outcome [of k b n baudotSixBit] assms
  by (auto simp: ReadBaudotN_def char_width_def intro!: outcome_rbind)

lemma outcome_ReadBaudot5N:
  assumes "has k b" "n * 5 \<le> k" "\<And>s b'. has (k - n * 5) b' \<Longrightarrow> length s = n \<Longrightarrow> outcome P (f (s, b'))"
  shows "outcome P (rbind (ReadBaudot5N n b) f)"
  using readBaudotN_outcome [of k b n baudotFiveBit] assms
  by (auto simp: ReadBaudot5N_def char_width_def intro!: outcome_rbind)

text \<open>The same rules with the number of bits left as a function, for use as introduction rules.\<close>

definition avail :: "bits \<Rightarrow> nat" where
  "avail b = (if reader_ok b then length (remaining b) else 0)"

lemma has_avail: "has k b \<Longrightarrow> k \<le> avail b" "0 < avail b \<Longrightarrow> has (avail b) b"
  by (auto simp: has_def avail_def split: if_splits)

lemma has_avail_le: "has (k - n) b' \<Longrightarrow> k \<le> avail b' + n"
  by (auto simp: has_def avail_def)

lemma avail_ReadN:
  assumes "n \<le> avail b" "0 < n" "n \<le> 64"
    and "\<And>v b'. avail b \<le> avail b' + n \<Longrightarrow> unat v < 2 ^ n \<Longrightarrow> outcome P (f (v, b'))"
  shows "outcome P (rbind (ReadN n b) f)"
  by (rule outcome_ReadN [of "avail b"]) (use assms has_avail has_avail_le in auto)

lemma avail_Read:
  assumes "0 < avail b" "\<And>v b'. avail b \<le> avail b' + 1 \<Longrightarrow> v \<in> {0, 1} \<Longrightarrow> outcome P (f (v, b'))"
  shows "outcome P (rbind (Read b) f)"
proof (rule outcome_Read [of "avail b"])
  show "outcome P (f (v, b'))" if "has (avail b - 1) b'" "v \<in> {0, 1}" for v b'
    using assms(2) has_avail_le [OF that(1)] that(2) by blast
qed (use assms(1) has_avail in auto)

lemma avail_SkipN:
  assumes "n \<le> avail b" "0 < n" "n \<le> 64" "\<And>b'. avail b \<le> avail b' + n \<Longrightarrow> outcome P (f b')"
  shows "outcome P (rbind (SkipN n b) f)"
  by (rule outcome_SkipN [of "avail b"]) (use assms has_avail has_avail_le in auto)

lemma avail_ReadBaudotN:
  assumes "n * 6 \<le> avail b" "0 < n"
    and "\<And>s b'. avail b \<le> avail b' + n * 6 \<Longrightarrow> length s = n \<Longrightarrow> outcome P (f (s, b'))"
  shows "outcome P (rbind (ReadBaudotN n b) f)"
  by (rule outcome_ReadBaudotN [of "avail b"]) (use assms has_avail has_avail_le in auto)

lemma avail_ReadBaudot5N:
  assumes "n * 5 \<le> avail b" "0 < n"
    and "\<And>s b'. avail b \<le> avail b' + n * 5 \<Longrightarrow> length s = n \<Longrightarrow> outcome P (f (s, b'))"
  shows "outcome P (rbind (ReadBaudot5N n b) f)"
  by (rule outcome_ReadBaudot5N [of "avail b"]) (use assms has_avail has_avail_le in auto)

lemmas reads = avail_ReadN avail_Read avail_SkipN avail_ReadBaudotN avail_ReadBaudot5N

section \<open>Ranges of the decoded fields\<close>

abbreviation below :: "nat \<Rightarrow> u64 \<Rightarrow> bool" where
  "below n v \<equiv> unat v < 2 ^ n"

definition serial_ok :: "SerialUser \<Rightarrow> bool" where
  "serial_ok su \<longleftrightarrow> below 3 (su_BeaconType su) \<and> below 24 (su_AircraftAddress su) \<and>
     below 6 (su_SpecificEltNumber su) \<and> below 10 (su_CertificateNumber su) \<and>
     below 20 (su_NationalUse su) \<and> below 20 (su_SerialNumber su) \<and>
     length (su_AircraftOperatorDesignator su) \<in> {0, 3} \<and> below 2 (su_AuxiliaryRadioLocatingDevice su)"

definition rls_ok :: "RLSLocation \<Rightarrow> bool" where
  "rls_ok r \<longleftrightarrow> below 2 (rl_BeaconType r) \<and> below 20 (MmsiSuffix r) \<and>
     unat (TacNumber r) < 3920 \<and> unat (NationalRlsNumber r) < 4024 \<and> below 14 (rl_SerialNumber r) \<and>
     (TacNumber r = 0 \<or> NationalRlsNumber r = 0) \<and>
     (if HasMmsi r then TacNumber r = 0 \<and> NationalRlsNumber r = 0 \<and> rl_SerialNumber r = 0
      else MmsiSuffix r = 0)"

text \<open>A number that combines the country code with a suffix in the given range.\<close>

definition mmsi_of :: "u64 \<Rightarrow> nat \<Rightarrow> u64 \<Rightarrow> bool" where
  "mmsi_of cc bound m \<longleftrightarrow> (\<exists>s<bound. unat m = unat cc * 1000000 + s)"

fun proto_ok :: "u64 \<Rightarrow> protocol \<Rightarrow> bool" where
  "proto_ok cc (Beacon_AviationUser au) \<longleftrightarrow> length (AircraftRegistrationMarking au) \<le> 7 \<and>
     below 2 (au_SpecificEltNumber au) \<and> below 2 (au_AuxiliaryRadioLocatingDevice au)"
| "proto_ok cc (Beacon_MaritimeUser mu) \<longleftrightarrow>
     (mu_Mmsi mu = 0 \<and> length (mu_CallSign mu) \<le> 6 \<or> mu_CallSign mu = '''' \<and> mmsi_of cc 1000000 (mu_Mmsi mu)) \<and>
     length (mu_SpecificBeaconNumber mu) = 1 \<and> below 2 (mu_AuxiliaryRadioLocatingDevice mu)"
| "proto_ok cc (Beacon_SerialUser su) \<longleftrightarrow> serial_ok su"
| "proto_ok cc (Beacon_RadioCallSignUser ru) \<longleftrightarrow>
     length (ru_SpecificBeaconNumber ru) = 1 \<and> below 2 (ru_AuxiliaryRadioLocatingDevice ru)"
| "proto_ok cc (Beacon_NationalUser v) \<longleftrightarrow> below 45 v"
| "proto_ok cc (Beacon_TestUser v) \<longleftrightarrow> below 45 v"
| "proto_ok cc (Beacon_OrbitographyProtocol v) \<longleftrightarrow> below 45 v"
| "proto_ok cc (Beacon_MaritimeStandardLocation ml) \<longleftrightarrow>
     mmsi_of cc (2 ^ 20) (ml_Mmsi ml) \<and> below 4 (ml_SpecificBeaconNumber ml)"
| "proto_ok cc (Beacon_AviationStandardLocation addr) \<longleftrightarrow> below 24 addr"
| "proto_ok cc (Beacon_SerialStandardLocation sl) \<longleftrightarrow> sl_BeaconType sl \<in> {4, 5, 6, 7} \<and>
     below 10 (sl_CertificateNumber sl) \<and> below 14 (sl_SerialNumber sl) \<and>
     length (sl_AircraftOperatorDesignator sl) = (if sl_BeaconType sl = 5 then 3 else 0)"
| "proto_ok cc (Beacon_ShipSecurityLocation m) \<longleftrightarrow> mmsi_of cc (2 ^ 20) m"
| "proto_ok cc (Beacon_NationalLocation nl) \<longleftrightarrow>
     nl_BeaconType nl \<in> {8, 10, 11} \<and> below 18 (nl_SerialNumber nl)"
| "proto_ok cc (Beacon_RlsLocation r) \<longleftrightarrow> rls_ok r"

definition beacon_ok :: "Beacon \<Rightarrow> Beacon \<Rightarrow> bool" where
  "beacon_ok b b' \<longleftrightarrow> HexId b' = HexId b \<and> CountryCode b' = CountryCode b \<and>
     (\<exists>p. Protocol b' = Some p \<and> proto_ok (CountryCode b) p)"

lemma set_protocol_ok: "proto_ok (CountryCode b) p \<Longrightarrow> beacon_ok b (set_protocol b p)"
  by (simp add: beacon_ok_def set_protocol_def)

lemma unat_u64: "n < 2 ^ 64 \<Longrightarrow> unat (word_of_nat n :: u64) = n"
  by (simp add: unsigned_of_nat take_bit_nat_eq_self)

lemma combineMmsi_ok:
  assumes "below 10 cc" "unat s < bound" "bound \<le> 2 ^ 20"
  shows "mmsi_of cc bound (combineMmsi cc s)"
proof -
  have "combineMmsi cc s = word_of_nat (unat cc * 1000000 + unat s)"
    by (simp add: combineMmsi_def)
  moreover have "unat (word_of_nat (unat cc * 1000000 + unat s) :: u64) = unat cc * 1000000 + unat s"
    by (rule unat_u64) (use assms in simp)
  ultimately have "unat (combineMmsi cc s) = unat cc * 1000000 + unat s"
    by (simp only:)
  with assms(2) show ?thesis by (auto simp: mmsi_of_def)
qed

lemma length_TrimSpace: "length (TrimSpace s) \<le> length s"
  using length_dropWhile_le [of is_space "rev (dropWhile is_space s)"] length_dropWhile_le [of is_space s]
  by (simp add: TrimSpace_def)

lemma digits_val_bound: "list_all is_digit s \<Longrightarrow> digits_val s < 10 ^ length s"
proof (induction s rule: rev_induct)
  case (snoc c s)
  then have "digits_val s < 10 ^ length s" "(of_char c :: nat) - 48 \<le> 9" by (auto simp: is_digit_def)
  then show ?case by (simp add: digits_val_def)
qed (simp add: digits_val_def)

lemma ParseUint_bound:
  assumes "ParseUint s = Some v" "length s = 6"
  shows "unat v < 1000000"
  using assms digits_val_bound [of s] by (auto simp: ParseUint_def unat_u64 split: if_splits)

section \<open>Every protocol stays within its bits\<close>

lemma TrimSpace_le: "length s \<le> n \<Longrightarrow> length (TrimSpace s) \<le> n"
  using length_TrimSpace le_trans by blast

lemma aviationUser_ok: "46 \<le> avail i \<Longrightarrow> outcome (beacon_ok b) (aviationUser i b)"
  by (auto simp: aviationUser_def intro!: reads set_protocol_ok TrimSpace_le)

lemma maritimeUser_ok:
  "46 \<le> avail i \<Longrightarrow> below 10 (CountryCode b) \<Longrightarrow> outcome (beacon_ok b) (maritimeUser i b)"
  by (auto simp: maritimeUser_def Let_def split: option.splits
      intro!: reads set_protocol_ok TrimSpace_le combineMmsi_ok ParseUint_bound)

lemma cert_or_national_ok:
  "12 \<le> avail i \<Longrightarrow> serial_ok su \<Longrightarrow>
   outcome (\<lambda>(su', i'). serial_ok su' \<and> 2 \<le> avail i') (cert_or_national c su i)"
  by (auto simp: cert_or_national_def serial_ok_def intro!: reads)

lemma serial_body_ok:
  "42 \<le> avail i \<Longrightarrow> serial_ok su \<Longrightarrow>
   outcome (\<lambda>(su', i'). serial_ok su' \<and> 2 \<le> avail i') (serial_body c su i)"
  unfolding serial_body_def
  by (auto intro!: reads cert_or_national_ok; simp add: serial_ok_def)

lemma serialUser_ok: "46 \<le> avail i \<Longrightarrow> outcome (beacon_ok b) (serialUser i b)"
  unfolding serialUser_def
  by (auto intro!: reads outcome_rbind [OF serial_body_ok] set_protocol_ok; simp add: serial_ok_def zero_su_def)

lemma radioCallSignUser_ok: "46 \<le> avail i \<Longrightarrow> outcome (beacon_ok b) (radioCallSignUser i b)"
  by (auto simp: radioCallSignUser_def Let_def intro!: reads set_protocol_ok)

lemma userAndUserLocationProtocols_ok:
  "49 \<le> avail i \<Longrightarrow> below 10 (CountryCode b) \<Longrightarrow> outcome (beacon_ok b) (userAndUserLocationProtocols i b)"
  unfolding userAndUserLocationProtocols_def
  by (auto simp: nationalUser_def testUser_def orbitographyProtocol_def
      intro!: reads aviationUser_ok maritimeUser_ok serialUser_ok radioCallSignUser_ok set_protocol_ok)

lemma serialStandardLocation_ok:
  "24 \<le> avail i \<Longrightarrow> c \<in> {4, 5, 6, 7} \<Longrightarrow> outcome (beacon_ok b) (serialStandardLocation i b c)"
proof -
  assume a: "24 \<le> avail i" "c \<in> {4, 5, 6, 7}"
  have "n < 2 ^ 9 \<Longrightarrow> n < 2 ^ 14" for n :: nat by simp
  with a show ?thesis
    unfolding serialStandardLocation_def
    by (auto simp: Let_def intro!: reads outcome_rbind [where Q = "\<lambda>sl. proto_ok (CountryCode b) (Beacon_SerialStandardLocation sl)"]
        set_protocol_ok)
qed

lemma rls_suffix:
  fixes a x :: u64
  assumes "unat a < 2 ^ 4" "a \<noteq> 15" "unat x < 2 ^ 6"
  shows "unat (push_bit 6 a OR x) < 960"
proof -
  have "push_bit 6 a OR x = push_bit 6 a + x"
  proof (rule disjunctive_add [symmetric])
    fix n
    have "\<not> bit x n" if "6 \<le> n"
    proof -
      have "unat x < 2 ^ n" using assms(3) that by (meson le_less_trans less_le_not_le linorder_not_less one_le_numeral power_increasing)
      then have "\<not> bit (unat x) n" by (simp add: bit_iff_odd)
      then show ?thesis by (simp add: bit_unsigned_iff)
    qed
    then show "\<not> bit (push_bit 6 a) n \<or> \<not> bit x n" by (cases "6 \<le> n") (auto simp: bit_simps)
  qed
  also have "\<dots> = word_of_nat (unat a * 64 + unat x)" by (simp add: push_bit_eq_mult)
  finally have e: "push_bit 6 a OR x = word_of_nat (unat a * 64 + unat x)" .
  have "unat a \<noteq> 15"
  proof
    assume "unat a = 15"
    then have "word_of_nat (unat a) = (15 :: u64)" by (simp only:) simp
    with assms(2) show False by simp
  qed
  with assms have "unat a * 64 + unat x < 960" by simp
  moreover from this have "unat (word_of_nat (unat a * 64 + unat x) :: u64) = unat a * 64 + unat x"
    by (intro unat_u64) simp
  ultimately show ?thesis unfolding e by simp
qed

lemma rls_num_le:
  assumes "unat s < 960"
  shows "unat (rls_num bt s) \<le> 3000 + unat s"
proof -
  have add: "unat (word_of_nat k + s) = k + unat s" if "k \<le> 3000" for k
  proof -
    have "word_of_nat k + s = word_of_nat (k + unat s)" by simp
    moreover have "unat (word_of_nat (k + unat s) :: u64) = k + unat s"
      by (rule unat_u64) (use assms that in simp)
    ultimately show ?thesis by (simp only:)
  qed
  from add [of 1000] add [of 2000] add [of 3000] show ?thesis by (simp add: rls_num_def)
qed

lemma rls_store_ok:
  assumes "unat s < 960" "below 2 bt" "below 14 n" "HasMmsi r = False" "MmsiSuffix r = 0"
    "TacNumber r = 0" "NationalRlsNumber r = 0" "rl_BeaconType r = bt"
  shows "rls_ok ((rls_store s (rls_num bt s) r)\<lparr>rl_SerialNumber := n\<rparr>)"
  using assms rls_num_le [OF assms(1), of bt] by (auto simp: rls_store_def rls_ok_def word_less_nat_alt)

lemma rlsLocation_ok: "26 \<le> avail i \<Longrightarrow> outcome (beacon_ok b) (rlsLocation i b)"
  unfolding rlsLocation_def Let_def
  by (auto intro!: reads outcome_rbind [where Q = rls_ok] set_protocol_ok rls_store_ok rls_suffix;
      simp add: rls_ok_def)

lemma standardAndNationalLocationProtocols_ok:
  "49 \<le> avail i \<Longrightarrow> below 10 (CountryCode b) \<Longrightarrow>
   outcome (beacon_ok b) (standardAndNationalLocationProtocols i b)"
  unfolding standardAndNationalLocationProtocols_def
  by (auto simp: maritimeStandardLocation_def aviationStandardLocation_def shipSecurityStandardLocation_def
      nationalLocation_def
      intro!: reads serialStandardLocation_ok rlsLocation_ok set_protocol_ok combineMmsi_ok)

section \<open>The hexadecimal identifier as bits\<close>

definition nibble_bits :: "nat \<Rightarrow> bool list" where
  "nibble_bits n = [odd (n div 8), odd (n div 4), odd (n div 2), odd n]"

definition hex_bits :: "string \<Rightarrow> bool list" where
  "hex_bits s = concat (map (\<lambda>c. nibble_bits (the (hex_val c))) s)"

definition hex_ok :: "string \<Rightarrow> bool" where
  "hex_ok s \<longleftrightarrow> list_all (\<lambda>c. hex_val c \<noteq> None) s"

lemma hex_val_less: "hex_val c = Some n \<Longrightarrow> n < 16"
  by (auto simp: hex_val_def Let_def split: if_splits)

lemma byte_nibbles:
  assumes "h < 16" "l < 16"
  shows "byte_bits (word_of_nat (16 * h + l)) = nibble_bits h @ nibble_bits l"
proof -
  have "\<forall>h\<in>set [0..<16]. \<forall>l\<in>set [0..<16]. byte_bits (word_of_nat (16 * h + l)) = nibble_bits h @ nibble_bits l"
    by code_simp
  with assms show ?thesis by simp
qed

lemma hex_decode_bits:
  "even (length s) \<Longrightarrow> hex_ok s \<Longrightarrow> \<exists>bs. hex_decode s = Inr bs \<and> concat (map byte_bits bs) = hex_bits s"
proof (induction s rule: hex_decode.induct)
  case (3 c d cs)
  then obtain h l where hl: "hex_val c = Some h" "hex_val d = Some l" by (auto simp: hex_ok_def)
  from 3(1) [OF refl hl] 3(2,3) obtain bs where
    "hex_decode cs = Inr bs" "concat (map byte_bits bs) = hex_bits cs" by (auto simp: hex_ok_def)
  with hl byte_nibbles [of h l] hex_val_less show ?case by (auto simp: hex_bits_def)
qed (auto simp: hex_bits_def)

lemma hex_decode_bad: "even (length s) \<Longrightarrow> \<not> hex_ok s \<Longrightarrow> \<exists>e. hex_decode s = Inl (Err e)"
proof (induction s rule: hex_decode.induct)
  case (3 c d cs)
  show ?case
  proof (cases "hex_val c = None \<or> hex_val d = None")
    case False
    then obtain h l where hl: "hex_val c = Some h" "hex_val d = Some l" by auto
    with 3(1) [OF refl hl] 3(2,3) show ?thesis by (auto simp: hex_ok_def)
  qed (auto split: option.splits)
qed (auto simp: hex_ok_def)

lemma remaining_new_reader: "remaining (NewBitReader bs) = concat (map byte_bits bs)"
  by (cases bs) (simp_all add: remaining_def NewBitReader_def)

lemma length_hex_bits [simp]: "length (hex_bits s) = 4 * length s"
  by (induction s) (simp_all add: hex_bits_def nibble_bits_def)

lemma hex_val_0: "hex_val CHR ''0'' = Some 0"
  by code_simp

lemma replicate4: "replicate 4 x = [x, x, x, x]"
  by (simp add: numeral_eq_Suc)

text \<open>The reader \<open>DecodeHexID\<close> starts with: the 60 bits of the identifier and four zeros.\<close>

lemma hex_reader:
  assumes "length s = 15" "hex_ok s"
  shows "\<exists>bs. hex_decode (s @ ''0'') = Inr bs \<and>
    remaining (NewBitReader bs) = hex_bits s @ replicate 4 False"
proof -
  have "hex_ok (s @ ''0'')" using assms(2) by (simp add: hex_ok_def hex_val_0)
  moreover have "hex_bits (s @ ''0'') = hex_bits s @ replicate 4 False"
    by (simp add: hex_bits_def hex_val_0 nibble_bits_def replicate4)
  ultimately show ?thesis
    using hex_decode_bits [of "s @ ''0''"] assms(1) by (auto simp: remaining_new_reader)
qed

text \<open>A prefix of bits with a known value, as one \<open>ReadN\<close> sees it.\<close>

lemma ReadN_prefix:
  assumes "reader_ok b" "remaining b = bs @ rest" "n = length bs"
  shows "\<exists>b'. ReadN n b = Inr (word_of_nat (bits_val bs), b') \<and> reader_ok b' \<and> remaining b' = rest"
  using ReadN_bits [OF assms(1), of n] assms(2,3) by simp

lemma decode_header:
  assumes "length s = 15" "hex_ok s" "hex_bits s = flag # cc @ rest" "length cc = 10"
  shows "\<exists>i. reader_ok i \<and> remaining i = rest @ replicate 4 False \<and>
    DecodeHexID s =
      (let b = \<lparr>HexId = s, CountryCode = word_of_nat (bits_val cc), Protocol = None\<rparr>
       in if flag then userAndUserLocationProtocols i b else standardAndNationalLocationProtocols i b)"
proof -
  obtain bs where bs: "hex_decode (s @ ''0'') = Inr bs"
    "remaining (NewBitReader bs) = flag # (cc @ rest @ replicate 4 False)"
    using hex_reader [OF assms(1,2)] assms(3) by auto
  obtain i1 where i1: "Read (NewBitReader bs) = Inr (of_bool flag, i1)" "reader_ok i1"
    "remaining i1 = cc @ rest @ replicate 4 False"
    using Read_cons [OF new_reader_ok bs(2)] by blast
  obtain i2 where "ReadN 10 i1 = Inr (word_of_nat (bits_val cc), i2)" "reader_ok i2"
    "remaining i2 = rest @ replicate 4 False"
    using ReadN_prefix [OF i1(2,3), of 10] assms(4) by auto
  with bs i1 assms(1) show ?thesis
    by (intro exI [of _ i2]) (simp add: DecodeHexID_def)
qed

section \<open>Properties\<close>

text \<open>C28. Decoding a beacon identifier never panics, whatever the string: it reports an error or
  returns a beacon that carries the identifier, a ten-bit country code and exactly one protocol,
  all of whose fields are within the ranges their bit widths allow; an MMSI is the country code
  followed by its suffix, and an RLS beacon has either an MMSI suffix or a number of one kind.\<close>

theorem DecodeHexID_total:
  "outcome (\<lambda>b. HexId b = hexID \<and> below 10 (CountryCode b) \<and>
     (\<exists>p. Protocol b = Some p \<and> proto_ok (CountryCode b) p)) (DecodeHexID hexID)"
proof (cases "length hexID = 15 \<and> hex_ok hexID")
  case True
  then obtain bs where bs: "hex_decode (hexID @ ''0'') = Inr bs" "60 \<le> avail (NewBitReader bs)"
    using hex_reader [of hexID] by (auto simp: avail_def)
  have fin: "outcome (\<lambda>b. HexId b = hexID \<and> below 10 (CountryCode b) \<and>
      (\<exists>p. Protocol b = Some p \<and> proto_ok (CountryCode b) p)) r"
    if "outcome (beacon_ok \<lparr>HexId = hexID, CountryCode = c, Protocol = None\<rparr>) r" "below 10 c" for r c
    using that by (auto simp: outcome_def beacon_ok_def split: sum.splits go_fault.splits)
  let ?P = "\<lambda>b. HexId b = hexID \<and> below 10 (CountryCode b) \<and>
      (\<exists>p. Protocol b = Some p \<and> proto_ok (CountryCode b) p)"
  have body: "outcome ?P (userAndUserLocationProtocols i \<lparr>HexId = hexID, CountryCode = c, Protocol = None\<rparr>)"
    "outcome ?P (standardAndNationalLocationProtocols i \<lparr>HexId = hexID, CountryCode = c, Protocol = None\<rparr>)"
    if "49 \<le> avail i" "below 10 c" for i c
    using that
    by (auto intro: fin [OF userAndUserLocationProtocols_ok] fin [OF standardAndNationalLocationProtocols_ok]
        simp del: power_numeral)
  show ?thesis
    using True bs by (auto simp: DecodeHexID_def Let_def intro!: reads body [simplified])
next
  case False
  have "hex_decode (hexID @ ''0'') = Inl (Err e) \<Longrightarrow> DecodeHexID hexID = Inl (Err e) \<or> length hexID \<noteq> 15" for e
    by (simp add: DecodeHexID_def)
  moreover have "hex_ok (hexID @ ''0'') \<longleftrightarrow> hex_ok hexID" by (simp add: hex_ok_def hex_val_0)
  ultimately show ?thesis
    using False hex_decode_bad [of "hexID @ ''0''"] by (cases "length hexID = 15") (auto simp: DecodeHexID_def)
qed

text \<open>An identifier with the protocol flag clear and protocol code 2 decodes to a maritime standard
  location beacon whose fields are the bits 27-36, 41-60 and 61-64 of the message.\<close>

theorem decode_maritime_standard_location:
  assumes "length s = 15" "hex_ok s"
    and "hex_bits s = False # cc @ [False, False, True, False] @ mmsi6 @ beacon @ rest"
    and "length cc = 10" "length mmsi6 = 20" "length beacon = 4"
  shows "DecodeHexID s = Inr \<lparr>HexId = s, CountryCode = word_of_nat (bits_val cc),
    Protocol = Some (Beacon_MaritimeStandardLocation
      \<lparr>ml_Mmsi = word_of_nat (bits_val cc * 1000000 + bits_val mmsi6),
       ml_SpecificBeaconNumber = word_of_nat (bits_val beacon)\<rparr>)\<rparr>"
proof -
  let ?rest = "rest @ replicate 4 False"
  obtain i where i: "reader_ok i" "remaining i = [False, False, True, False] @ mmsi6 @ beacon @ ?rest"
    "DecodeHexID s = standardAndNationalLocationProtocols i
       \<lparr>HexId = s, CountryCode = word_of_nat (bits_val cc), Protocol = None\<rparr>"
    using decode_header [OF assms(1-4)] by auto
  have two: "bits_val [False, False, True, False] = 2" by code_simp
  obtain i1 where i1: "ReadN 4 i = Inr (2, i1)" "reader_ok i1" "remaining i1 = mmsi6 @ beacon @ ?rest"
    using ReadN_prefix [OF i(1,2), of 4] two by auto
  obtain i2 where i2: "ReadN 20 i1 = Inr (word_of_nat (bits_val mmsi6), i2)" "reader_ok i2"
    "remaining i2 = beacon @ ?rest"
    using ReadN_prefix [OF i1(2,3), of 20] assms(5) by auto
  obtain i3 where i3: "ReadN 4 i2 = Inr (word_of_nat (bits_val beacon), i3)"
    using ReadN_prefix [OF i2(2,3), of 4] assms(6) by auto
  show ?thesis
    by (simp add: i(3) standardAndNationalLocationProtocols_def maritimeStandardLocation_def i1(1) i2(1)
        i3 set_protocol_def combineMmsi_def)
qed

lemma hex_bits_sample:
  "hex_bits ''2024F72524FFBFF'' = False #
      [False, True, False, False, False, False, False, False, False, True] @
      [False, False, True, False] @
      [False, True, True, True, True, False, True, True, True, False, False, True, False,
      False, True, False, True, False, False, True] @
      [False, False, True, False] @
      [False, True, True, True, True, True, True, True, True, True, False, True, True, True,
      True, True, True, True, True, True, True]"
  "hex_ok ''2024F72524FFBFF''"
  by (simp_all add: hex_bits_def hex_ok_def hex_val_def nibble_bits_def)

theorem decode_maritime_standard_location_witness:
  "\<exists>b. DecodeHexID ''2024F72524FFBFF'' = Inr b \<and> CountryCode b = 257"
proof -
  note d = decode_maritime_standard_location [OF _ hex_bits_sample(2,1)]
  have "bits_val
      [False, True, False, False, False, False, False, False, False, True] = 257"
    by (simp add: bits_val_def)
  with d show ?thesis by simp
qed

text \<open>The national-use field of a national user beacon is meant to be the bits 40-85 of the
  message, but its last bit is never read: two identifiers that differ only there decode to the
  same value.\<close>

theorem national_user_drops_last_bit:
  assumes "length s = 15" "hex_ok s"
    and "hex_bits s = True # cc @ [True, False, False] @ nat_use @ [last_bit]"
    and "length cc = 10" "length nat_use = 45"
  shows "DecodeHexID s = Inr \<lparr>HexId = s, CountryCode = word_of_nat (bits_val cc),
    Protocol = Some (Beacon_NationalUser (word_of_nat (bits_val nat_use)))\<rparr>"
proof -
  let ?rest = "[last_bit] @ replicate 4 False"
  obtain i where i: "reader_ok i" "remaining i = [True, False, False] @ nat_use @ ?rest"
    "DecodeHexID s = userAndUserLocationProtocols i
       \<lparr>HexId = s, CountryCode = word_of_nat (bits_val cc), Protocol = None\<rparr>"
    using decode_header [OF assms(1-4)] by auto
  have four: "bits_val [True, False, False] = 4" by code_simp
  obtain i1 where i1: "ReadN 3 i = Inr (4, i1)" "reader_ok i1" "remaining i1 = nat_use @ ?rest"
    using ReadN_prefix [OF i(1,2), of 3] four by auto
  obtain i2 where i2: "ReadN 45 i1 = Inr (word_of_nat (bits_val nat_use), i2)"
    using ReadN_prefix [OF i1(2,3), of 45] assms(5) by auto
  show ?thesis
    by (simp add: i(3) userAndUserLocationProtocols_def nationalUser_def i1(1) i2 set_protocol_def)
qed

lemma hex_bits_national0:
  "hex_bits ''801000000000000'' = True #
      [False, False, False, False, False, False, False, False, False, False] @
      [True, False, False] @
      [False, False, False, False, False, False, False, False, False, False, False, False,
      False, False, False, False, False, False, False, False, False, False, False, False,
      False, False, False, False, False, False, False, False, False, False, False, False,
      False, False, False, False, False, False, False, False, False] @
      [False]"
  "hex_ok ''801000000000000''"
  by (simp_all add: hex_bits_def hex_ok_def hex_val_def nibble_bits_def)

lemma hex_bits_national1:
  "hex_bits ''801000000000001'' = True #
      [False, False, False, False, False, False, False, False, False, False] @
      [True, False, False] @
      [False, False, False, False, False, False, False, False, False, False, False, False,
      False, False, False, False, False, False, False, False, False, False, False, False,
      False, False, False, False, False, False, False, False, False, False, False, False,
      False, False, False, False, False, False, False, False, False] @
      [True]"
  "hex_ok ''801000000000001''"
  by (simp_all add: hex_bits_def hex_ok_def hex_val_def nibble_bits_def)

theorem national_user_drops_last_bit_witness:
  "map_sum id Protocol (DecodeHexID ''801000000000000'') = map_sum id Protocol (DecodeHexID ''801000000000001'')"
  using national_user_drops_last_bit [OF _ hex_bits_national0(2,1)]
    national_user_drops_last_bit [OF _ hex_bits_national1(2,1)]
  by simp

end
