(* ===== verification/Stream_Compress.thy ===== *)
theory Stream_Compress
  imports Track_Types "HOL-Library.Sublist"
begin

text \<open>
  \<^verbatim>\<open>tms/db/stream_compress.go\<close>: the stage that keeps a slow client from blocking its input stream.
  Tracks that cannot be sent at once are stored, one per id, and the ids queue up in the order in
  which they first got stuck. One event of the loop is one outcome of its \<^verbatim>\<open>select\<close>; \<open>Input p room\<close>
  carries whether the output channel had room for the immediate attempt to send.
\<close>

section \<open>Definitions\<close>

record latest_track =
  latest :: "string \<rightharpoonup> track"
  sendOrder :: "string list"
  toSend :: "track option"

definition LatestTrack :: latest_track where
  "LatestTrack = \<lparr>latest = Map.empty, sendOrder = [], toSend = None\<rparr>"

definition appendTrack :: "latest_track \<Rightarrow> track option \<Rightarrow> latest_track" where
  "appendTrack l p =
     (case p of
        None \<Rightarrow> l
      | Some tr \<Rightarrow>
          let i = tr_Id tr;
              l1 = (if latest l i = None then l\<lparr>sendOrder := sendOrder l @ [i]\<rparr> else l)
          in l1\<lparr>latest := (latest l1)(i \<mapsto> tr)\<rparr>)"

text \<open>The top of the loop: take the next stored track, if there is one.\<close>

definition next_to_send :: "latest_track \<Rightarrow> latest_track" where
  "next_to_send l =
     (case (toSend l, sendOrder l) of
        (None, i # rest) \<Rightarrow> l\<lparr>sendOrder := rest, toSend := latest l i, latest := (latest l)(i := None)\<rparr>
      | _ \<Rightarrow> l)"

datatype compress_event =
    Input "track option" bool
  | OutputReady
  | InputClosed
  | CtxtDone

text \<open>One iteration: the new state, what is sent and whether the loop goes on. \<open>OutputReady\<close> is no
  case of the \<^verbatim>\<open>select\<close> when there is nothing to send.\<close>

fun process_step :: "latest_track \<Rightarrow> compress_event \<Rightarrow> latest_track \<times> track option list \<times> bool" where
  "process_step l0 (Input p room) =
     (let l = next_to_send l0 in
      if toSend l \<noteq> None then (appendTrack l p, [], True)
      else if room then (l, [p], True)
      else (appendTrack l p, [], True))"
| "process_step l0 OutputReady =
     (let l = next_to_send l0 in
      case toSend l of
        Some tr \<Rightarrow> (l\<lparr>toSend := None\<rparr>, [Some tr], True)
      | None \<Rightarrow> (l, [], True))"
| "process_step l0 InputClosed = (next_to_send l0, [], False)"
| "process_step l0 CtxtDone = (next_to_send l0, [], False)"

fun process :: "latest_track \<Rightarrow> compress_event list \<Rightarrow> latest_track \<times> track option list" where
  "process l [] = (l, [])"
| "process l (e # es) =
     (let (l1, out, continue) = process_step l e in
      if continue then (let (l2, outs) = process l1 es in (l2, out @ outs)) else (l1, out))"

text \<open>The tracks received, up to the end of the loop.\<close>

fun received :: "compress_event list \<Rightarrow> track list" where
  "received [] = []"
| "received (Input (Some tr) room # es) = tr # received es"
| "received (Input None room # es) = received es"
| "received (OutputReady # es) = received es"
| "received (InputClosed # es) = []"
| "received (CtxtDone # es) = []"

section \<open>The invariant\<close>

definition compress_inv :: "latest_track \<Rightarrow> bool" where
  "compress_inv l \<longleftrightarrow> distinct (sendOrder l) \<and> set (sendOrder l) = dom (latest l) \<and>
     (\<forall>i tr. latest l i = Some tr \<longrightarrow> tr_Id tr = i)"

text \<open>What is still to be sent, in order.\<close>

definition pend :: "latest_track \<Rightarrow> track list" where
  "pend l = (case toSend l of None \<Rightarrow> [] | Some tr \<Rightarrow> [tr]) @ map (the \<circ> latest l) (sendOrder l)"

definition of_id :: "string \<Rightarrow> track list \<Rightarrow> track list" where
  "of_id i xs = filter (\<lambda>tr. tr_Id tr = i) xs"

lemma of_id_append [simp]: "of_id i (xs @ ys) = of_id i xs @ of_id i ys"
  by (simp add: of_id_def)

lemma of_id_single [simp]: "of_id i [tr] = (if tr_Id tr = i then [tr] else [])"
  by (simp add: of_id_def)

text \<open>The tracks among the pointers sent.\<close>

definition sent :: "track option list \<Rightarrow> track list" where
  "sent ps = map the (filter (\<lambda>p. p \<noteq> None) ps)"

lemma sent_simps [simp]: "sent [] = []" "sent (None # ps) = sent ps" "sent (Some tr # ps) = tr # sent ps"
  "sent (ps @ qs) = sent ps @ sent qs"
  by (simp_all add: sent_def)

text \<open>\<open>ys\<close> is a thinned-out \<open>xs\<close> that still ends with the last element.\<close>

definition conflates :: "'a list \<Rightarrow> 'a list \<Rightarrow> bool" where
  "conflates xs ys \<longleftrightarrow> subseq ys xs \<and> (xs \<noteq> [] \<longrightarrow> ys \<noteq> [] \<and> last ys = last xs)"

lemma conflates_refl: "conflates xs xs"
  by (simp add: conflates_def)

lemma conflates_trans: "conflates xs ys \<Longrightarrow> conflates ys zs \<Longrightarrow> conflates xs zs"
  unfolding conflates_def by (metis subseq_order.trans list_emb_Nil2)

lemma conflates_append: "conflates xs ys \<Longrightarrow> conflates (xs @ zs) (ys @ zs)"
  by (cases "zs = []") (auto simp: conflates_def last_append)

lemma conflates_prepend: "conflates xs ys \<Longrightarrow> conflates (zs @ xs) (zs @ ys)"
  using list_emb_append_mono [of "(=)" zs zs ys xs] by (auto simp: conflates_def last_append)

lemma next_to_send_inv:
  assumes "compress_inv l"
  shows "compress_inv (next_to_send l)" "pend (next_to_send l) = pend l"
    "toSend (next_to_send l) = None \<Longrightarrow> pend (next_to_send l) = []"
proof -
  have "compress_inv (next_to_send l) \<and> pend (next_to_send l) = pend l \<and>
    (toSend (next_to_send l) = None \<longrightarrow> pend (next_to_send l) = [])"
  proof (cases "toSend l = None \<and> sendOrder l \<noteq> []")
    case True
    then obtain i rest where so: "toSend l = None" "sendOrder l = i # rest" by (cases "sendOrder l") auto
    with assms have "i \<in> dom (latest l)" by (auto simp: compress_inv_def)
    then obtain tr where tr: "latest l i = Some tr" by blast
    have "map (the \<circ> (latest l)(i := None)) rest = map (the \<circ> latest l) rest"
      using assms so by (auto simp: compress_inv_def)
    with so tr assms show ?thesis
      by (auto simp: next_to_send_def compress_inv_def pend_def)
  next
    case False
    then have "next_to_send l = l" by (cases "toSend l"; cases "sendOrder l") (auto simp: next_to_send_def)
    with False assms show ?thesis by (auto simp: pend_def)
  qed
  then show "compress_inv (next_to_send l)" "pend (next_to_send l) = pend l"
    "toSend (next_to_send l) = None \<Longrightarrow> pend (next_to_send l) = []" by auto
qed

lemma appendTrack_inv: "compress_inv l \<Longrightarrow> compress_inv (appendTrack l p)"
  by (cases p) (auto simp: compress_inv_def appendTrack_def Let_def)

lemma of_id_latest:
  assumes "compress_inv l"
  shows "of_id i (map (the \<circ> latest l) (sendOrder l)) = (case latest l i of None \<Rightarrow> [] | Some tr \<Rightarrow> [tr])"
proof -
  have "of_id i (map (the \<circ> m) is) = (case m i of None \<Rightarrow> [] | Some tr \<Rightarrow> if i \<in> set is then [tr] else [])"
    if "distinct is" "\<forall>j\<in>set is. \<exists>tr. m j = Some tr \<and> tr_Id tr = j" for m and "is" :: "string list"
    using that by (induction "is") (auto simp: of_id_def split: option.splits)
  moreover have "\<forall>j\<in>set (sendOrder l). \<exists>tr. latest l j = Some tr \<and> tr_Id tr = j"
    using assms by (fastforce simp: compress_inv_def)
  ultimately show ?thesis
    using assms by (auto simp: compress_inv_def split: option.splits)
qed

lemma appendTrack_pend:
  assumes "compress_inv l"
  shows "conflates (of_id i (pend l) @ of_id i [tr]) (of_id i (pend (appendTrack l (Some tr))))"
proof -
  let ?front = "of_id i (case toSend l of None \<Rightarrow> [] | Some tr \<Rightarrow> [tr])"
  let ?stored = "case latest l i of None \<Rightarrow> [] | Some tr \<Rightarrow> [tr]"
  let ?l = "appendTrack l (Some tr)"
  have "of_id i (pend l) = ?front @ ?stored"
    using of_id_latest [OF assms] by (simp add: pend_def)
  moreover have "of_id i (pend ?l) = ?front @ (if tr_Id tr = i then [tr] else ?stored)"
    using of_id_latest [OF appendTrack_inv [OF assms], of i "Some tr"]
    by (auto simp: pend_def appendTrack_def Let_def)
  moreover have "conflates (zs @ [a, b]) (zs @ [b])" for zs :: "track list" and a b
    by (rule conflates_prepend) (simp add: conflates_def)
  ultimately show ?thesis
    by (cases "tr_Id tr = i"; cases "latest l i") (simp_all add: conflates_refl)
qed

lemma process_step_conflates:
  assumes "compress_inv l" "process_step l e = (l', outs, c)"
  shows "compress_inv l'"
    "conflates (of_id i (pend l) @ of_id i (received [e])) (of_id i (sent outs) @ of_id i (pend l'))"
proof -
  note n = next_to_send_inv [OF assms(1)]
  let ?l = "next_to_send l"
  have nil: "appendTrack k None = k" for k by (simp add: appendTrack_def)
  have "compress_inv l' \<and>
    conflates (of_id i (pend l) @ of_id i (received [e])) (of_id i (sent outs) @ of_id i (pend l'))"
  proof (cases e)
    case (Input p room)
    show ?thesis
    proof (cases "toSend ?l = None \<and> room")
      case True
      with n(3) have "pend ?l = []" by simp
      with True assms(2) n Input show ?thesis
        by (cases p) (auto simp: conflates_refl of_id_def)
    next
      case False
      with assms(2) Input have "l' = appendTrack ?l p" "outs = []" by (auto simp: Let_def split: if_splits)
      with n(1,2) appendTrack_inv [OF n(1)] appendTrack_pend [OF n(1), of i] Input show ?thesis
        by (cases p) (auto simp: nil of_id_def conflates_refl)
    qed
  next
    case OutputReady
    show ?thesis
    proof (cases "toSend ?l")
      case None
      with assms(2) n OutputReady show ?thesis
        by (auto simp: Let_def conflates_refl of_id_def)
    next
      case (Some tr)
      with assms(2) OutputReady have "l' = ?l\<lparr>toSend := None\<rparr>" "outs = [Some tr]" by (auto simp: Let_def)
      moreover have "compress_inv (?l\<lparr>toSend := None\<rparr>)" using n(1) by (simp add: compress_inv_def)
      moreover have "pend l = tr # pend (?l\<lparr>toSend := None\<rparr>)"
        using n(2) Some by (simp add: pend_def)
      ultimately show ?thesis using OutputReady
        by (simp add: of_id_def conflates_refl)
    qed
  qed (use assms(2) n in \<open>auto simp: conflates_refl of_id_def\<close>)
  then show "compress_inv l'"
    "conflates (of_id i (pend l) @ of_id i (received [e])) (of_id i (sent outs) @ of_id i (pend l'))"
    by auto
qed

lemma received_Cons:
  "process_step l e = (l', outs, c) \<Longrightarrow> received (e # es) = received [e] @ (if c then received es else [])"
proof (cases e)
  case (Input p room)
  moreover assume "process_step l e = (l', outs, c)"
  ultimately show ?thesis by (cases p) (auto simp: Let_def split: if_splits)
qed (auto simp: Let_def split: option.splits)

lemma process_conflates:
  assumes "compress_inv l" "process l es = (l', outs)"
  shows "conflates (of_id i (pend l) @ of_id i (received es)) (of_id i (sent outs) @ of_id i (pend l'))"
  using assms
proof (induction es arbitrary: l outs)
  case Nil
  then show ?case by (simp add: conflates_refl of_id_def)
next
  case (Cons e es)
  obtain l1 o1 c where s: "process_step l e = (l1, o1, c)" by (cases "process_step l e")
  note st = process_step_conflates [OF Cons.prems(1) s]
  show ?case
  proof (cases c)
    case True
    with Cons.prems(2) s obtain o2 where o2: "process l1 es = (l', o2)" "outs = o1 @ o2"
      by (auto simp: Let_def split: prod.splits)
    have 1: "conflates ((of_id i (pend l) @ of_id i (received [e])) @ of_id i (received es))
      ((of_id i (sent o1) @ of_id i (pend l1)) @ of_id i (received es))"
      by (rule conflates_append [OF st(2)])
    have 2: "conflates (of_id i (sent o1) @ (of_id i (pend l1) @ of_id i (received es)))
      (of_id i (sent o1) @ (of_id i (sent o2) @ of_id i (pend l')))"
      by (rule conflates_prepend) (rule Cons.IH [OF st(1) o2(1)])
    have "sent outs = sent o1 @ sent o2"
      by (simp add: o2(2))
    with conflates_trans [OF 1] 2 received_Cons [OF s, of es] True show ?thesis by simp
  next
    case False
    with Cons.prems(2) s have "l' = l1" "outs = o1" by auto
    with st(2) received_Cons [OF s, of es] False show ?thesis by simp
  qed
qed

lemma compress_inv_init: "compress_inv LatestTrack" "pend LatestTrack = []"
  by (simp_all add: compress_inv_def LatestTrack_def pend_def)

section \<open>Properties\<close>

text \<open>The compressing stage never loses the latest position of a track, whatever the timing of the
  client: for every track id, what has been sent together with what is still stored is a
  subsequence of the tracks received for that id and ends with the last one received.\<close>

theorem compress_keeps_latest:
  "case process LatestTrack es of (l, outs) \<Rightarrow>
     conflates (of_id i (received es)) (of_id i (sent outs @ pend l))"
  using process_conflates [OF compress_inv_init(1), of es _ _ i]
  by (auto simp: compress_inv_init(2) of_id_def split: prod.splits)

end
