(* ===== verification/Iridium.thy ===== *)
theory Iridium
  imports Byte_Codec
begin

unbundle bit_operations_syntax

text \<open>
  \<^verbatim>\<open>tms/iridium\<close>: the messages of the Iridium short-burst-data gateway as byte layouts. Go strings
  that are cut out of or copied into a message are byte lists here. The Omnicom sentences a payload
  carries are a type parameter \<open>'o\<close>; parsing, encoding and converting them (\<^verbatim>\<open>tms/omnicom\<close>) are
  function parameters, as is the acceptance test of \<^verbatim>\<open>strconv.ParseFloat\<close>. Coordinates are exact, in
  units of 1/60000 degree; the code rounds them to float64. A slice expression is checked against
  the length of the slice (Go checks the capacity, which the callers' buffers do not exceed the
  length by in a way the code relies on).
\<close>

section \<open>Strings\<close>

text \<open>\<^verbatim>\<open>string(b)\<close> of a byte: the UTF-8 encoding of the code point \<open>b\<close>.\<close>

definition utf8_of_byte :: "octet \<Rightarrow> go_bytes" where
  "utf8_of_byte b =
     (if b < 128 then [b] else [0xC0 OR drop_bit 6 b, 0x80 OR (b AND 0x3F)])"

text \<open>\<^verbatim>\<open>strconv.FormatInt(n, 10)\<close> for a non-negative \<open>n\<close>.\<close>

fun decimal :: "nat \<Rightarrow> go_bytes" where
  "decimal n = (if n < 10 then [word_of_nat (48 + n)] else decimal (n div 10) @ [word_of_nat (48 + n mod 10)])"

declare decimal.simps [simp del]

section \<open>Mobile originated header\<close>

record MOHeader =
  MO_IEI :: octet
  MOHL :: "16 word"
  CDR :: "32 word"
  mo_IMEI :: go_bytes
  SessStatus :: go_bytes
  MOMSN :: "16 word"
  MTMSN :: "16 word"
  TimeOfSession :: "32 word"

definition ParseMOHeader :: "go_bytes \<Rightarrow> MOHeader res" where
  "ParseMOHeader data =
     (if length data < 31 then Inl (Err ''Not enough data to process'')
      else Inr
        \<lparr>MO_IEI = rd8 data 0, MOHL = rd16 data 1, CDR = rd32 data 3,
         mo_IMEI = concat (map utf8_of_byte (slice data 7 22)),
         SessStatus = decimal (unat (rd8 data 22)),
         MOMSN = rd16 data 23, MTMSN = rd16 data 25, TimeOfSession = rd32 data 27\<rparr>)"

definition EncodeMO :: "MOHeader \<Rightarrow> go_bytes res" where
  "EncodeMO mo =
     (if length (mo_IMEI mo) \<noteq> 15 then Inl (Err ''Invalid IMEI'')
      else if SessStatus mo = [] then Inl OutOfRange
      else Inr ([MO_IEI mo] @ be16 (MOHL mo) @ be32 (CDR mo) @ mo_IMEI mo @ [SessStatus mo ! 0]
                @ be16 (MOMSN mo) @ be16 (MTMSN mo) @ be32 (TimeOfSession mo)))"

section \<open>Mobile originated location\<close>

record MOLocationInformation =
  ml_IEI :: octet
  ml_Length :: "16 word"
  Latitude :: int
  Longitude :: int
  CEP :: "32 word"

definition ParseMOlocationInformation :: "go_bytes \<Rightarrow> MOLocationInformation res" where
  "ParseMOlocationInformation data =
     (if length data < 14 then Inl OutOfRange
      else
        let dir = sint (rd8 data 3);
            lat = sint (rd8 data 4) * 60000 + uint (rd16 data 5);
            lon = sint (rd8 data 7) * 60000 + uint (rd16 data 8)
        in Inr
          \<lparr>ml_IEI = rd8 data 0, ml_Length = rd16 data 1,
           Latitude = (if dir = 1 then lat else - lat),
           Longitude = (if dir = 1 then - lon else lon),
           CEP = rd32 data 10\<rparr>)"

section \<open>Mobile terminated confirmation\<close>

record MTConfirmation =
  mtc_IEI :: octet
  MTCL :: "16 word"
  UCM_IF :: int
  mtc_IMEI :: go_bytes
  Auto_IDR :: "32 word"
  MT_Message_Status :: int

definition ParseMTConfirmation :: "go_bytes \<Rightarrow> MTConfirmation res" where
  "ParseMTConfirmation data =
     (if length data < 28 then Inl OutOfRange
      else Inr
        \<lparr>mtc_IEI = rd8 data 0, MTCL = rd16 data 1, UCM_IF = sint (rd32 data 3),
         mtc_IMEI = concat (map utf8_of_byte (slice data 7 22)),
         Auto_IDR = rd32 data 22, MT_Message_Status = sint (rd16 data 26)\<rparr>)"

section \<open>Mobile terminated header\<close>

record MTHeader =
  mh_IEI :: octet
  MTHL :: "16 word"
  UniqueClientMessageID :: go_bytes
  mh_IMEI :: go_bytes
  MTflag :: "16 word"

definition ParseMTHeader :: "(go_bytes \<Rightarrow> bool) \<Rightarrow> go_bytes \<Rightarrow> MTHeader res" where
  "ParseMTHeader parseFloat_ok data =
     (if length data < 24 then Inl (Err ''Not enough data to process'')
      else if \<not> parseFloat_ok (slice data 7 22) then Inl (Err ''IMEI is not numeric'')
      else Inr
        \<lparr>mh_IEI = rd8 data 0, MTHL = rd16 data 1, UniqueClientMessageID = slice data 3 7,
         mh_IMEI = slice data 7 22, MTflag = rd16 data 22\<rparr>)"

text \<open>The length field is \<^verbatim>\<open>len(raw[3:])\<close>, which is 21; the header's own field is not written.\<close>

definition MTHeader_Encode :: "MTHeader \<Rightarrow> go_bytes res" where
  "MTHeader_Encode mt =
     (if length (mh_IMEI mt) \<noteq> 15 then Inl (Err ''Invalid IMEI'')
      else if length (UniqueClientMessageID mt) < 4 then Inl OutOfRange
      else Inr ([mh_IEI mt] @ be16 (word_of_nat (24 - 3)) @ take 4 (UniqueClientMessageID mt)
                @ mh_IMEI mt @ be16 (MTflag mt)))"

section \<open>Mobile terminated response\<close>

text \<open>The status is the 16-bit pattern of the Go type \<^verbatim>\<open>SessionStatus int16\<close>.\<close>

record MTResponse =
  ProtocolVersion :: octet
  OverallLength :: "16 word"
  mr_IEI :: octet
  mr_Length :: "16 word"
  mr_UniqueClientMessageID :: go_bytes
  mr_IMEI :: go_bytes
  AutoIDReference :: "32 word"
  MTMessageStatus :: "16 word"

definition MTResponse_Parse :: "go_bytes \<Rightarrow> MTResponse res" where
  "MTResponse_Parse b =
     (if length b < 31 then Inl (Err ''buffer is too short'')
      else Inr
        \<lparr>ProtocolVersion = rd8 b 0, OverallLength = rd16 b 1, mr_IEI = rd8 b 3, mr_Length = rd16 b 4,
         mr_UniqueClientMessageID = slice b 6 10, mr_IMEI = slice b 10 25,
         AutoIDReference = rd32 b 25, MTMessageStatus = rd16 b 29\<rparr>)"

definition MTResponse_Encode :: "MTResponse \<Rightarrow> go_bytes res" where
  "MTResponse_Encode m =
     (if length (mr_IMEI m) \<noteq> 15 then Inl (Err ''Invalid IMEI'')
      else if length (mr_UniqueClientMessageID m) \<noteq> 4 then Inl (Err ''Invalid UniqueClientMessageID'')
      else
        let praw = mr_UniqueClientMessageID m @ mr_IMEI m @ be32 (AutoIDReference m) @ be16 (MTMessageStatus m)
        in Inr ([0x01] @ drop 2 (be32 (word_of_nat (length praw + 3)))
                @ [0x44] @ drop 2 (be32 (word_of_nat (length praw))) @ praw))"

section \<open>Payload\<close>

record 'o MPayload =
  pl_IEI :: octet
  PayloadL :: "16 word"
  Omn :: "'o option"

text \<open>The upper bound \<^verbatim>\<open>payload.PayloadL+3\<close> of the slice is computed in 16 bits.\<close>

definition ParseMOPayload :: "(go_bytes \<Rightarrow> 'o res) \<Rightarrow> go_bytes \<Rightarrow> 'o MPayload res" where
  "ParseMOPayload omnicom_Parse data =
     (if length data = 0 then Inl (Err ''empty payload'')
      else if length data < 3 then Inl OutOfRange
      else
        let l = rd16 data 1 in
        if l \<noteq> word_of_nat (length data - 3) then Inl (Err ''data payload length does not match field Payload Length value'')
        else
          let hi = unat (l + 3) in
          if hi < 3 \<or> length data < hi then Inl OutOfRange
          else case omnicom_Parse (slice data 3 hi) of
                 Inr om \<Rightarrow> Inr \<lparr>pl_IEI = rd8 data 0, PayloadL = l, Omn = Some om\<rparr>
               | Inl (Err e) \<Rightarrow> Inl (Err (''libomnicom error: '' @ e))
               | Inl f \<Rightarrow> Inl f)"

definition mt_sentences :: "string list" where
  "mt_sentences =
     [''omnicom.RMH'', ''omnicom.UIC'', ''omnicom.RSM'', ''omnicom.UGP'', ''omnicom.UAUP'',
      ''omnicom.UG_Polygon'', ''omnicom.UG_Circle'', ''omnicom.DG'', ''omnicom.SPR'', ''omnicom.AR'',
      ''omnicom.AA'', ''omnicom.TMA'']"

text \<open>All branches encode the sentence with the method of its type and write the same layout.\<close>

definition MPayload_Encode :: "('o \<Rightarrow> string) \<Rightarrow> ('o \<Rightarrow> go_bytes res) \<Rightarrow> 'o MPayload \<Rightarrow> go_bytes res" where
  "MPayload_Encode omnicom_type omnicom_Encode mt =
     (case Omn mt of
        None \<Rightarrow> Inl (Err ''MT omnicom payload is empty'')
      | Some om \<Rightarrow>
          if omnicom_type om \<in> set mt_sentences then
            rbind (omnicom_Encode om) (\<lambda>bs.
              Inr ([pl_IEI mt] @ be16 (word_of_nat (length bs)) @ bs))
          else Inl (Err ''MT data payload sentence not yet implemented''))"

section \<open>Protobuf messages\<close>

record MobileOriginatedHeader =
  pb_MO_IEI :: go_bytes
  pb_MOHL :: "32 word"
  pb_CDR :: "32 word"
  pb_mo_IMEI :: go_bytes
  pb_SessStatus :: go_bytes
  pb_MOMSN :: "32 word"
  pb_MTMSN :: "32 word"
  pb_TimeOfSession :: "32 word"

record MobileOriginatedLocation =
  pb_ml_IEI :: go_bytes
  pb_ml_Length :: "32 word"
  pb_Latitude :: int
  pb_Longitude :: int
  pb_CEP :: "32 word"

record MessageTerminatedConfirmation =
  pb_mtc_IEI :: go_bytes
  pb_MTCL :: "32 word"
  pb_UCM_IF :: int
  pb_mtc_IMEI :: go_bytes
  pb_Auto_IDR :: "32 word"
  pb_MT_Message_Status :: int

record MobileTerminatedHeader =
  pb_mh_IEI :: go_bytes
  pb_MTHL :: "32 word"
  pb_UniqueClientMessageID :: go_bytes
  pb_mh_IMEI :: go_bytes
  pb_MTflag :: "32 word"

record 'p PayloadPb =
  pb_pl_IEI :: go_bytes
  pb_PayloadL :: "32 word"
  pb_Omnicom :: "'p option"

record 'p IridiumPb =
  Moh :: "MobileOriginatedHeader option"
  Moli :: "MobileOriginatedLocation option"
  Mtc :: "MessageTerminatedConfirmation option"
  Mth :: "MobileTerminatedHeader option"
  Payload :: "'p PayloadPb option"

definition empty_pb :: "'p IridiumPb" where
  "empty_pb = \<lparr>Moh = None, Moli = None, Mtc = None, Mth = None, Payload = None\<rparr>"

definition pb_moh :: "MOHeader \<Rightarrow> MobileOriginatedHeader" where
  "pb_moh MOH =
     \<lparr>pb_MO_IEI = [MO_IEI MOH], pb_MOHL = ucast (MOHL MOH), pb_CDR = CDR MOH, pb_mo_IMEI = mo_IMEI MOH,
      pb_SessStatus = SessStatus MOH, pb_MOMSN = ucast (MOMSN MOH), pb_MTMSN = ucast (MTMSN MOH),
      pb_TimeOfSession = TimeOfSession MOH\<rparr>"

definition pb_payload :: "('o option \<Rightarrow> 'p res) \<Rightarrow> 'o MPayload \<Rightarrow> 'p PayloadPb res" where
  "pb_payload PopulateProtobuf MOP =
     rbind (PopulateProtobuf (Omn MOP)) (\<lambda>om.
       Inr \<lparr>pb_pl_IEI = [pl_IEI MOP], pb_PayloadL = ucast (PayloadL MOP), pb_Omnicom = Some om\<rparr>)"

definition PopulateMOProtobuf ::
  "('o option \<Rightarrow> 'p res) \<Rightarrow> MOHeader \<Rightarrow> 'o MPayload \<Rightarrow> 'p IridiumPb res"
where
  "PopulateMOProtobuf PopulateProtobuf MOH MOP =
     rbind (pb_payload PopulateProtobuf MOP) (\<lambda>pl.
       Inr (empty_pb\<lparr>Moh := Some (pb_moh MOH), Payload := Some pl\<rparr>))"

definition PopulateLocationProtobuf :: "MOHeader \<Rightarrow> MOLocationInformation \<Rightarrow> 'p IridiumPb res" where
  "PopulateLocationProtobuf MOH loc =
     Inr (empty_pb\<lparr>Moh := Some (pb_moh MOH), Moli := Some
       \<lparr>pb_ml_IEI = [ml_IEI loc], pb_ml_Length = ucast (ml_Length loc), pb_Latitude = Latitude loc,
        pb_Longitude = Longitude loc, pb_CEP = CEP loc\<rparr>\<rparr>)"

definition PopulateMobileTerminatedConfirmationProtobuf :: "MTConfirmation \<Rightarrow> 'p IridiumPb res" where
  "PopulateMobileTerminatedConfirmationProtobuf MTC =
     Inr (empty_pb\<lparr>Mtc := Some
       \<lparr>pb_mtc_IEI = [mtc_IEI MTC], pb_MTCL = ucast (MTCL MTC), pb_UCM_IF = UCM_IF MTC,
        pb_mtc_IMEI = mtc_IMEI MTC, pb_Auto_IDR = Auto_IDR MTC,
        pb_MT_Message_Status = MT_Message_Status MTC\<rparr>\<rparr>)"

definition first_byte :: "go_bytes \<Rightarrow> octet res" where
  "first_byte bs = (case bs of [] \<Rightarrow> Inl OutOfRange | b # _ \<Rightarrow> Inr b)"

definition PopulateProtobufToMobileTerminated ::
  "('p option \<Rightarrow> 'o res) \<Rightarrow> 'p IridiumPb \<Rightarrow> (MTHeader \<times> 'o MPayload) res"
where
  "PopulateProtobufToMobileTerminated PopulateOmnicom MT =
     rbind (deref (Mth MT)) (\<lambda>h.
     rbind (first_byte (pb_mh_IEI h)) (\<lambda>hiei.
     rbind (deref (Payload MT)) (\<lambda>p.
     rbind (first_byte (pb_pl_IEI p)) (\<lambda>piei.
     rbind (PopulateOmnicom (pb_Omnicom p)) (\<lambda>om.
       Inr (\<lparr>mh_IEI = hiei, MTHL = ucast (pb_MTHL h), UniqueClientMessageID = pb_UniqueClientMessageID h,
             mh_IMEI = pb_mh_IMEI h, MTflag = ucast (pb_MTflag h)\<rparr>,
            \<lparr>pl_IEI = piei, PayloadL = ucast (pb_PayloadL p), Omn = Some om\<rparr>))))))"

definition PopulateMTProtobuf ::
  "('o option \<Rightarrow> 'p res) \<Rightarrow> MTHeader \<Rightarrow> 'o MPayload \<Rightarrow> 'p IridiumPb res"
where
  "PopulateMTProtobuf PopulateProtobuf MTH MOP =
     rbind (pb_payload PopulateProtobuf MOP) (\<lambda>pl.
       Inr (empty_pb\<lparr>Mth := Some
         \<lparr>pb_mh_IEI = [mh_IEI MTH], pb_MTHL = ucast (MTHL MTH),
          pb_UniqueClientMessageID = UniqueClientMessageID MTH, pb_mh_IMEI = mh_IMEI MTH,
          pb_MTflag = ucast (MTflag MTH)\<rparr>, Payload := Some pl\<rparr>))"

section \<open>Layouts\<close>

text \<open>The layouts, split at the offsets the parsers use.\<close>

lemma mo_layout:
  fixes imei :: go_bytes and iei hl cdr st mo mt tm
  assumes "length imei = 15"
  defines "raw \<equiv> [iei] @ be16 hl @ be32 cdr @ imei @ [st] @ be16 mo @ be16 mt @ be32 tm"
  shows "length raw = 31" "rd8 raw 0 = iei" "rd16 raw 1 = hl" "rd32 raw 3 = cdr" "slice raw 7 22 = imei"
    "rd8 raw 22 = st" "rd16 raw 23 = mo" "rd16 raw 25 = mt" "rd32 raw 27 = tm"
proof -
  note [simp] = u16.enc_width u32.enc_width assms(1)
  show "length raw = 31" by (simp add: raw_def)
  show "rd8 raw 0 = iei" using u8.rd_at [of "[]" 0 iei] by (simp add: raw_def)
  show "rd16 raw 1 = hl" using u16.rd_at [of "[iei]" 1] by (simp add: raw_def)
  show "rd32 raw 3 = cdr" using u32.rd_at [of "[iei] @ be16 hl" 3] by (simp add: raw_def)
  show "slice raw 7 22 = imei" using slice_at [of "[iei] @ be16 hl @ be32 cdr" 7 imei 22] by (simp add: raw_def)
  show "rd8 raw 22 = st" using u8.rd_at [of "[iei] @ be16 hl @ be32 cdr @ imei" 22] by (simp add: raw_def)
  show "rd16 raw 23 = mo"
    using u16.rd_at [of "[iei] @ be16 hl @ be32 cdr @ imei @ [st]" 23] by (simp add: raw_def)
  show "rd16 raw 25 = mt"
    using u16.rd_at [of "[iei] @ be16 hl @ be32 cdr @ imei @ [st] @ be16 mo" 25] by (simp add: raw_def)
  show "rd32 raw 27 = tm"
    using u32.rd_at [of "[iei] @ be16 hl @ be32 cdr @ imei @ [st] @ be16 mo @ be16 mt" 27 tm "[]"]
    by (simp add: raw_def)
qed

lemma mt_layout:
  fixes ucm imei :: go_bytes and iei hl fl
  assumes "length ucm = 4" "length imei = 15"
  defines "raw \<equiv> [iei] @ be16 hl @ ucm @ imei @ be16 fl"
  shows "length raw = 24" "rd8 raw 0 = iei" "rd16 raw 1 = hl" "slice raw 3 7 = ucm" "slice raw 7 22 = imei"
    "rd16 raw 22 = fl"
proof -
  note [simp] = u16.enc_width assms(1,2)
  show "length raw = 24" by (simp add: raw_def)
  show "rd8 raw 0 = iei" using u8.rd_at [of "[]" 0 iei] by (simp add: raw_def)
  show "rd16 raw 1 = hl" using u16.rd_at [of "[iei]" 1] by (simp add: raw_def)
  show "slice raw 3 7 = ucm" using slice_at [of "[iei] @ be16 hl" 3 ucm 7] by (simp add: raw_def)
  show "slice raw 7 22 = imei" using slice_at [of "[iei] @ be16 hl @ ucm" 7 imei 22] by (simp add: raw_def)
  show "rd16 raw 22 = fl" using u16.rd_at [of "[iei] @ be16 hl @ ucm @ imei" 22 fl "[]"] by (simp add: raw_def)
qed

lemma response_layout:
  fixes ucm imei :: go_bytes and v ol iei l ref st
  assumes "length ucm = 4" "length imei = 15"
  defines "raw \<equiv> [v] @ be16 ol @ [iei] @ be16 l @ ucm @ imei @ be32 ref @ be16 st"
  shows "length raw = 31" "rd8 raw 0 = v" "rd16 raw 1 = ol" "rd8 raw 3 = iei" "rd16 raw 4 = l"
    "slice raw 6 10 = ucm" "slice raw 10 25 = imei" "rd32 raw 25 = ref" "rd16 raw 29 = st"
proof -
  note [simp] = u16.enc_width u32.enc_width assms(1,2)
  let ?p = "[v] @ be16 ol @ [iei] @ be16 l"
  show "length raw = 31" by (simp add: raw_def)
  show "rd8 raw 0 = v" using u8.rd_at [of "[]" 0 v] by (simp add: raw_def)
  show "rd16 raw 1 = ol" using u16.rd_at [of "[v]" 1] by (simp add: raw_def)
  show "rd8 raw 3 = iei" using u8.rd_at [of "[v] @ be16 ol" 3] by (simp add: raw_def)
  show "rd16 raw 4 = l" using u16.rd_at [of "[v] @ be16 ol @ [iei]" 4] by (simp add: raw_def)
  show "slice raw 6 10 = ucm" using slice_at [of ?p 6 ucm 10] by (simp add: raw_def)
  show "slice raw 10 25 = imei" using slice_at [of "?p @ ucm" 10 imei 25] by (simp add: raw_def)
  show "rd32 raw 25 = ref" using u32.rd_at [of "?p @ ucm @ imei" 25] by (simp add: raw_def)
  show "rd16 raw 29 = st" using u16.rd_at [of "?p @ ucm @ imei @ be32 ref" 29 st "[]"] by (simp add: raw_def)
qed

lemma utf8_ascii: "\<forall>b\<in>set bs. b < 128 \<Longrightarrow> concat (map utf8_of_byte bs) = bs"
  by (induction bs) (simp_all add: utf8_of_byte_def)

lemma ucast_up_down:
  "ucast (ucast w :: 32 word) = w" for w :: "16 word"
  by (rule bit_word_eqI) (auto simp: bit_simps)

section \<open>Properties\<close>

definition ascii_digits :: "go_bytes \<Rightarrow> bool" where
  "ascii_digits bs \<longleftrightarrow> (\<forall>b\<in>set bs. 48 \<le> b \<and> b \<le> 57)"

text \<open>A mobile terminated header with a 15-digit IMEI and a four-byte client message id is encoded
  in 24 bytes and parsed back unchanged, except that the length field holds the true length 21.
  The only hypothesis on \<^verbatim>\<open>strconv.ParseFloat\<close> is that it accepts strings of decimal digits.\<close>

theorem mt_header_roundtrip:
  assumes "length (mh_IMEI mt) = 15" "ascii_digits (mh_IMEI mt)" "length (UniqueClientMessageID mt) = 4"
    and parseFloat_digits: "\<And>bs. bs \<noteq> [] \<Longrightarrow> ascii_digits bs \<Longrightarrow> parseFloat_ok bs"
  shows "\<exists>raw. MTHeader_Encode mt = Inr raw \<and> length raw = 24 \<and>
    ParseMTHeader parseFloat_ok raw = Inr (mt\<lparr>MTHL := 21\<rparr>)"
proof -
  let ?raw = "[mh_IEI mt] @ be16 21 @ UniqueClientMessageID mt @ mh_IMEI mt @ be16 (MTflag mt)"
  note lay = mt_layout [OF assms(3,1), of "mh_IEI mt" 21 "MTflag mt"]
  have "mh_IMEI mt \<noteq> []" using assms(1) by auto
  then have "parseFloat_ok (mh_IMEI mt)" using assms(2) parseFloat_digits by blast
  then have "ParseMTHeader parseFloat_ok ?raw = Inr (mt\<lparr>MTHL := 21\<rparr>)"
    unfolding ParseMTHeader_def lay by simp
  moreover have "MTHeader_Encode mt = Inr ?raw" using assms(1,3) by (simp add: MTHeader_Encode_def)
  ultimately show ?thesis using lay(1) by blast
qed

theorem mt_header_roundtrip_witness:
  "\<exists>raw. MTHeader_Encode \<lparr>mh_IEI = 65, MTHL = 0, UniqueClientMessageID = [1, 2, 3, 4],
      mh_IMEI = replicate 15 51, MTflag = 7\<rparr> = Inr raw \<and> length raw = 24"
  using mt_header_roundtrip [of "\<lparr>mh_IEI = 65, MTHL = 0, UniqueClientMessageID = [1, 2, 3, 4],
      mh_IMEI = replicate 15 51, MTflag = 7\<rparr>" ascii_digits]
  by (auto simp: ascii_digits_def)

text \<open>A mobile terminated response with an IMEI of 15 and a client message id of 4 bytes is parsed
  back from its encoding with the protocol version, element id and lengths the encoder fixes.\<close>

theorem mt_response_roundtrip:
  assumes "length (mr_IMEI m) = 15" "length (mr_UniqueClientMessageID m) = 4"
  shows "\<exists>raw. MTResponse_Encode m = Inr raw \<and> length raw = 31 \<and>
    MTResponse_Parse raw = Inr (m\<lparr>ProtocolVersion := 1, OverallLength := 28, mr_IEI := 0x44, mr_Length := 25\<rparr>)"
proof -
  let ?raw = "[1] @ be16 28 @ [0x44] @ be16 25 @ mr_UniqueClientMessageID m @ mr_IMEI m
    @ be32 (AutoIDReference m) @ be16 (MTMessageStatus m)"
  note lay = response_layout [OF assms(2,1), of 1 28 "0x44" 25 "AutoIDReference m" "MTMessageStatus m"]
  have "MTResponse_Parse ?raw =
      Inr (m\<lparr>ProtocolVersion := 1, OverallLength := 28, mr_IEI := 0x44, mr_Length := 25\<rparr>)"
    unfolding MTResponse_Parse_def lay by simp
  moreover have "MTResponse_Encode m = Inr ?raw"
    using assms by (simp add: MTResponse_Encode_def be32_low u16.enc_width u32.enc_width del: of_nat_add)
  ultimately show ?thesis using lay(1) by blast
qed

theorem mt_response_roundtrip_witness:
  "\<exists>raw. MTResponse_Encode \<lparr>ProtocolVersion = 0, OverallLength = 0, mr_IEI = 0, mr_Length = 0,
      mr_UniqueClientMessageID = [1, 2, 3, 4], mr_IMEI = replicate 15 51, AutoIDReference = 9,
      MTMessageStatus = -1\<rparr> = Inr raw \<and> length raw = 31"
  using mt_response_roundtrip [of "\<lparr>ProtocolVersion = 0, OverallLength = 0, mr_IEI = 0, mr_Length = 0,
      mr_UniqueClientMessageID = [1, 2, 3, 4], mr_IMEI = replicate 15 51, AutoIDReference = 9,
      MTMessageStatus = -1\<rparr>"]
  by auto

text \<open>Encoding a mobile originated header with an ASCII IMEI and parsing it back preserves every
  field but the session status, which becomes the decimal form of its first character's code.\<close>

theorem mo_header_roundtrip:
  assumes "length (mo_IMEI mo) = 15" "\<forall>b\<in>set (mo_IMEI mo). b < 128" "SessStatus mo \<noteq> []"
  shows "\<exists>raw. EncodeMO mo = Inr raw \<and> length raw = 31 \<and>
    ParseMOHeader raw = Inr (mo\<lparr>SessStatus := decimal (unat (hd (SessStatus mo)))\<rparr>)"
proof -
  let ?st = "hd (SessStatus mo)"
  let ?raw = "[MO_IEI mo] @ be16 (MOHL mo) @ be32 (CDR mo) @ mo_IMEI mo @ [?st]
    @ be16 (MOMSN mo) @ be16 (MTMSN mo) @ be32 (TimeOfSession mo)"
  note lay = mo_layout [OF assms(1), of "MO_IEI mo" "MOHL mo" "CDR mo" ?st "MOMSN mo" "MTMSN mo" "TimeOfSession mo"]
  have "ParseMOHeader ?raw = Inr (mo\<lparr>SessStatus := decimal (unat ?st)\<rparr>)"
    unfolding ParseMOHeader_def lay by (simp add: utf8_ascii [OF assms(2)])
  moreover have "EncodeMO mo = Inr ?raw" using assms(1,3) by (simp add: EncodeMO_def hd_conv_nth)
  ultimately show ?thesis using lay(1) by blast
qed

definition demo_moh :: MOHeader where
  "demo_moh = \<lparr>MO_IEI = 1, MOHL = 28, CDR = 7, mo_IMEI = replicate 15 51, SessStatus = decimal 0,
     MOMSN = 1, MTMSN = 2, TimeOfSession = 3\<rparr>"

theorem mo_header_roundtrip_witness:
  "\<exists>raw. EncodeMO demo_moh = Inr raw \<and> ParseMOHeader raw = Inr (demo_moh\<lparr>SessStatus := decimal 48\<rparr>)"
proof -
  have "decimal 0 = [48]" by (simp add: decimal.simps)
  with mo_header_roundtrip [of demo_moh] show ?thesis by (auto simp: demo_moh_def)
qed

text \<open>The payload of a mobile terminated message survives encoding and parsing: for a sentence of
  one of the supported types whose encoding has at most 65532 bytes and is parsed back by the
  Omnicom parser, the parsed payload carries the same sentence and its true length.\<close>

theorem payload_roundtrip:
  assumes "Omn mt = Some om" "omnicom_type om \<in> set mt_sentences"
    and "omnicom_Encode om = Inr bs" "length bs < 65533"
    and omnicom_inverse: "\<And>x ys. omnicom_Encode x = Inr ys \<Longrightarrow> omnicom_Parse ys = Inr x"
  shows "\<exists>raw. MPayload_Encode omnicom_type omnicom_Encode mt = Inr raw \<and>
    ParseMOPayload omnicom_Parse raw = Inr (mt\<lparr>PayloadL := word_of_nat (length bs)\<rparr>)"
proof -
  let ?l = "word_of_nat (length bs) :: 16 word"
  let ?raw = "[pl_IEI mt] @ be16 ?l @ bs"
  have len: "length ?raw = length bs + 3" by (simp add: u16.enc_width)
  have l: "rd16 ?raw 1 = ?l" using u16.rd_at [of "[pl_IEI mt]" 1] by simp
  have "?l + 3 = word_of_nat (length bs + 3)" by simp
  then have hi: "unat (?l + 3) = length bs + 3"
    using assms(4) by (simp only: unsigned_of_nat) (simp add: take_bit_nat_eq_self)
  have "slice ?raw 3 (length bs + 3) = bs"
    using slice_at [of "[pl_IEI mt] @ be16 ?l" 3 bs "length bs + 3" "[]"] by (simp add: u16.enc_width)
  moreover have "rd8 ?raw 0 = pl_IEI mt" by (simp add: rd8_def)
  ultimately have "ParseMOPayload omnicom_Parse ?raw = Inr (mt\<lparr>PayloadL := ?l\<rparr>)"
    unfolding ParseMOPayload_def Let_def l len hi
    using assms(1) omnicom_inverse [OF assms(3)] by simp
  moreover have "MPayload_Encode omnicom_type omnicom_Encode mt = Inr ?raw"
    using assms(1-3) by (simp add: MPayload_Encode_def)
  ultimately show ?thesis by blast
qed

theorem payload_roundtrip_witness:
  "\<exists>raw. MPayload_Encode (\<lambda>_. ''omnicom.DG'') (\<lambda>b. Inr [b]) \<lparr>pl_IEI = 66, PayloadL = 0, Omn = Some 5\<rparr> = Inr raw \<and>
     ParseMOPayload (\<lambda>bs. Inr (hd bs)) raw = Inr \<lparr>pl_IEI = 66, PayloadL = 1, Omn = Some 5\<rparr>"
  using payload_roundtrip [of "\<lparr>pl_IEI = 66, PayloadL = 0, Omn = Some 5\<rparr>" 5 "\<lambda>_. ''omnicom.DG''"
      "\<lambda>b. Inr [b]" "[5]" "\<lambda>bs. Inr (hd bs)"]
  by (auto simp: mt_sentences_def)

text \<open>The payload parser panics instead of reporting an error in two situations: on data of one or
  two bytes, which pass the check for empty data, and on a consistent length field of 65533 or
  more, where adding 3 wraps around in 16 bits.\<close>

theorem ParseMOPayload_panics:
  assumes "length data \<in> {1, 2} \<or>
    3 \<le> length data \<and> rd16 data 1 = word_of_nat (length data - 3) \<and> 65533 \<le> unat (rd16 data 1)"
  shows "ParseMOPayload omnicom_Parse data = Inl OutOfRange"
proof (cases "length data < 3")
  case True
  then have "length data \<in> {1, 2}" using assms by auto
  with True show ?thesis by (auto simp: ParseMOPayload_def)
next
  case False
  let ?l = "rd16 data 1"
  from False assms have a: "?l = word_of_nat (length data - 3)" "65533 \<le> unat ?l" by auto
  have "unat ?l < 2 ^ 16" using unsigned_less [of ?l, where 'a = nat] by simp
  with a(2) have "unat ?l \<in> {65533, 65534, 65535}" by auto
  moreover have "unat (?l + 3) = (unat ?l + 3) mod 2 ^ 16"
    by (simp add: unat_word_ariths)
  ultimately have hi: "unat (?l + 3) < 3" by auto
  show ?thesis
  proof (cases "length data = 0")
    case nonzero: False
    then show ?thesis using False a(1) hi by (simp add: ParseMOPayload_def Let_def)
  qed (use False in simp)
qed

theorem ParseMOPayload_panics_witness:
  "ParseMOPayload (\<lambda>bs. Inr bs) [66] = Inl OutOfRange"
  by (rule ParseMOPayload_panics) simp

text \<open>Converting a mobile terminated message to its protobuf form and back gives the same header
  and payload, provided the conversion of the Omnicom sentence is inverted.\<close>

theorem mt_protobuf_roundtrip:
  assumes "Omn mop = Some om" "populateProtobuf (Some om) = Inr p"
    and populate_inverse: "\<And>x q. populateProtobuf (Some x) = Inr q \<Longrightarrow> populateOmnicom (Some q) = Inr x"
  shows "\<exists>pb. PopulateMTProtobuf populateProtobuf mth mop = Inr pb \<and>
    PopulateProtobufToMobileTerminated populateOmnicom pb = Inr (mth, mop)"
  using assms(1,2) populate_inverse [OF assms(2)]
  by (simp add: PopulateMTProtobuf_def PopulateProtobufToMobileTerminated_def pb_payload_def
      empty_pb_def first_byte_def ucast_up_down)

theorem mt_protobuf_roundtrip_witness:
  "\<exists>pb. PopulateMTProtobuf (\<lambda>x. deref x) \<lparr>mh_IEI = 1, MTHL = 21, UniqueClientMessageID = [1],
        mh_IMEI = [2], MTflag = 3\<rparr> \<lparr>pl_IEI = 66, PayloadL = 1, Omn = Some True\<rparr> = Inr pb \<and>
     PopulateProtobufToMobileTerminated (\<lambda>x. deref x) pb = Inr (\<lparr>mh_IEI = 1, MTHL = 21,
       UniqueClientMessageID = [1], mh_IMEI = [2], MTflag = 3\<rparr>, \<lparr>pl_IEI = 66, PayloadL = 1, Omn = Some True\<rparr>)"
  using mt_protobuf_roundtrip [of "\<lparr>pl_IEI = 66, PayloadL = 1, Omn = Some True\<rparr>" True deref True deref
      "\<lparr>mh_IEI = 1, MTHL = 21, UniqueClientMessageID = [1], mh_IMEI = [2], MTflag = 3\<rparr>"]
  by auto

end
