(* ===== verification/Tgwad_Listener.thy ===== *)
theory Tgwad_Listener
  imports Tgwad_Router "HOL-Library.Sublist"
begin

text \<open>
  \<^verbatim>\<open>tms/cmd/daemons/tgwad/listener.go\<close>: the channel of a connected client. One goroutine reads frames, hands
  them to the router and queues their ids for acknowledgement, another writes acknowledgements and routed
  messages. The two goroutines, the router at the other ends of their queues and the client are the steps of
  \<open>istep\<close>. The client's input is the reader of the channel; what is written is the list of frames \<open>io_written\<close>.
\<close>

definition ClientBuffer :: nat where "ClientBuffer = 128"
definition toRouter_cap :: nat where "toRouter_cap = 8"
definition acks_cap :: nat where "acks_cap = 8"

text \<open>The reading goroutine reads, waits to hand a message over, waits to queue an id, or has returned.\<close>

datatype read_pc = Reading | Forwarding TsiMessage "64 word" | Acking "64 word" | Returned

text \<open>The fields \<open>got\<close>, \<open>routed\<close> and \<open>acked\<close> are history: what was read, what the router took, what was acknowledged.\<close>

record IOChannelState =
  io_open :: bool
  io_r :: reader
  io_written :: "go_bytes list"
  toRouter :: "TsiMessage list"
  toRouter_open :: bool
  fromRouter :: "TsiMessage list"
  acks :: "64 word list"
  canceled :: bool
  msgsSent :: "64 word"
  msgsRecv :: "64 word"
  reg :: Registry
  rpc :: read_pc
  got :: "(64 word \<times> TsiMessage) list"
  routed :: "TsiMessage list"
  acked :: "64 word list"

definition NewIOChannel :: "go_bytes \<Rightarrow> IOChannelState" where
  "NewIOChannel input =
     \<lparr>io_open = True, io_r = \<lparr>coming = input, bufsize = nat MaxMessageSize\<rparr>, io_written = [], toRouter = [], toRouter_open = True,
      fromRouter = [], acks = [], canceled = False, msgsSent = 0, msgsRecv = 0,
      reg = \<lparr>SourceService = None, Entries = []\<rparr>, rpc = Reading, got = [], routed = [], acked = []\<rparr>"

definition IOChannel_Close :: "IOChannelState \<Rightarrow> IOChannelState" where
  "IOChannel_Close c = c\<lparr>canceled := True, toRouter_open := False, io_open := False\<rparr>"

text \<open>Messages the channel consumes itself.\<close>

definition dropped :: "TsiMessage \<Rightarrow> bool" where
  "dropped msg = (tm_Status msg = TsiMessage_ACK \<or> tm_Status msg = TsiMessage_KEEPALIVE)"

text \<open>
  One iteration of \<open>readProcess\<close> up to the point where \<open>handleMessage\<close> waits for the router. A panic of
  \<open>UnpackTo\<close> cancels the group.
\<close>

definition readProcess ::
  "(go_bytes \<Rightarrow> go_bytes) \<Rightarrow> (go_bytes \<Rightarrow> go_bytes res) \<Rightarrow> (go_bytes \<Rightarrow> TsiMessage res) \<Rightarrow> (any_pb \<Rightarrow> Registry res) \<Rightarrow>
   IOChannelState \<Rightarrow> IOChannelState"
where
  "readProcess sha unzlib unmarshal unpack_registry c =
     (if canceled c then c\<lparr>rpc := Returned\<rparr>
      else case ReadTsiMessageExtended sha unzlib unmarshal (io_r c) of
        (Inl (Err e), i, r') \<Rightarrow> IOChannel_Close (c\<lparr>io_r := r'\<rparr>)
      | (Inl f, i, r') \<Rightarrow> c\<lparr>io_r := r', canceled := True, rpc := Returned\<rparr>
      | (Inr msg, i, r') \<Rightarrow>
          let c1 = c\<lparr>io_r := r', got := got c @ [(i, msg)]\<rparr>;
              c2 = (if dropped msg then c1 else c1\<lparr>msgsSent := msgsSent c1 + 1\<rparr>) in
          case handleMessage unpack_registry (reg c2) msg of
            Inl f \<Rightarrow> c2\<lparr>canceled := True, rpc := Returned\<rparr>
          | Inr (reg', None) \<Rightarrow> c2\<lparr>reg := reg', rpc := Acking i\<rparr>
          | Inr (reg', Some m) \<Rightarrow> c2\<lparr>reg := reg', rpc := Forwarding m i\<rparr>)"

definition ack_message :: TsiMessage where
  "ack_message = \<lparr>tm_Source = None, tm_Destination = [], tm_Status = TsiMessage_ACK, RealTime = False,
                  NotifySent = 0, tm_Body = None\<rparr>"

text \<open>The two cases of the \<^verbatim>\<open>select\<close> of \<open>writeProcess\<close>; \<open>ok\<close> says whether the connection takes the frame.\<close>

definition write_ack ::
  "(go_bytes \<Rightarrow> go_bytes) \<Rightarrow> (go_bytes \<Rightarrow> go_bytes) \<Rightarrow> (TsiMessage \<Rightarrow> go_bytes res) \<Rightarrow> bool \<Rightarrow> 64 word \<Rightarrow> IOChannelState \<Rightarrow> IOChannelState"
where
  "write_ack sha zlib marshal ok i c =
     (case WriteTsiMessageExtended sha zlib marshal ack_message \<lparr>op_ID = i, Compress = False\<rparr> of
        Inl e \<Rightarrow> c\<lparr>canceled := True\<rparr>
      | Inr whole \<Rightarrow>
          if ok then c\<lparr>io_written := io_written c @ [whole], acked := acked c @ [i]\<rparr> else c\<lparr>canceled := True\<rparr>)"

definition write_message ::
  "(go_bytes \<Rightarrow> go_bytes) \<Rightarrow> (go_bytes \<Rightarrow> go_bytes) \<Rightarrow> (TsiMessage \<Rightarrow> go_bytes res) \<Rightarrow> bool \<Rightarrow> 64 word \<Rightarrow> TsiMessage \<Rightarrow>
   IOChannelState \<Rightarrow> IOChannelState"
where
  "write_message sha zlib marshal ok rnd msg c =
     (let c1 = c\<lparr>msgsRecv := msgsRecv c + 1\<rparr> in
      case WriteTsiMessageExtended sha zlib marshal msg \<lparr>op_ID = rnd, Compress = False\<rparr> of
        Inl e \<Rightarrow> c1\<lparr>canceled := True\<rparr>
      | Inr whole \<Rightarrow> if ok then c1\<lparr>io_written := io_written c1 @ [whole]\<rparr> else c1\<lparr>canceled := True\<rparr>)"

inductive istep ::
  "(go_bytes \<Rightarrow> go_bytes) \<Rightarrow> (go_bytes \<Rightarrow> go_bytes) \<Rightarrow> (go_bytes \<Rightarrow> go_bytes res) \<Rightarrow> (TsiMessage \<Rightarrow> go_bytes res) \<Rightarrow>
   (go_bytes \<Rightarrow> TsiMessage res) \<Rightarrow> (any_pb \<Rightarrow> Registry res) \<Rightarrow> IOChannelState \<Rightarrow> IOChannelState \<Rightarrow> bool"
  for sha zlib unzlib marshal unmarshal unpack_registry
where
  arrive:
    "istep sha zlib unzlib marshal unmarshal unpack_registry c
       (c\<lparr>io_r := (io_r c)\<lparr>coming := coming (io_r c) @ bs\<rparr>\<rparr>)"
| read:
    "rpc c = Reading \<Longrightarrow>
     istep sha zlib unzlib marshal unmarshal unpack_registry c (readProcess sha unzlib unmarshal unpack_registry c)"
| forward:
    "rpc c = Forwarding msg i \<Longrightarrow> toRouter_open c \<Longrightarrow> length (toRouter c) < toRouter_cap \<Longrightarrow>
     istep sha zlib unzlib marshal unmarshal unpack_registry c (c\<lparr>toRouter := toRouter c @ [msg], rpc := Acking i\<rparr>)"
| forward_canceled:
    "rpc c = Forwarding msg i \<Longrightarrow> canceled c \<Longrightarrow>
     istep sha zlib unzlib marshal unmarshal unpack_registry c (c\<lparr>rpc := Acking i\<rparr>)"
| forward_closed:
    "rpc c = Forwarding msg i \<Longrightarrow> \<not> toRouter_open c \<Longrightarrow>
     istep sha zlib unzlib marshal unmarshal unpack_registry c (c\<lparr>canceled := True, rpc := Returned\<rparr>)"
| queue_ack:
    "rpc c = Acking i \<Longrightarrow> length (acks c) < acks_cap \<Longrightarrow>
     istep sha zlib unzlib marshal unmarshal unpack_registry c (c\<lparr>acks := acks c @ [i], rpc := Reading\<rparr>)"
| ack:
    "acks c = i # rest \<Longrightarrow>
     istep sha zlib unzlib marshal unmarshal unpack_registry c (write_ack sha zlib marshal ok i (c\<lparr>acks := rest\<rparr>))"
| write_msg:
    "fromRouter c = msg # rest \<Longrightarrow>
     istep sha zlib unzlib marshal unmarshal unpack_registry c
       (write_message sha zlib marshal ok rnd msg (c\<lparr>fromRouter := rest\<rparr>))"
| offered:
    "length (fromRouter c) < ClientBuffer \<Longrightarrow>
     istep sha zlib unzlib marshal unmarshal unpack_registry c (c\<lparr>fromRouter := fromRouter c @ [msg]\<rparr>)"
| taken:
    "toRouter c = msg # rest \<Longrightarrow>
     istep sha zlib unzlib marshal unmarshal unpack_registry c (c\<lparr>toRouter := rest, routed := routed c @ [msg]\<rparr>)"
| router_closes:
    "istep sha zlib unzlib marshal unmarshal unpack_registry c (IOChannel_Close c)"

section \<open>Order of messages and acknowledgements\<close>

text \<open>The messages that go on to the router: neither acknowledgements, keepalives nor registrations.\<close>

definition forwards :: "TsiMessage \<Rightarrow> bool" where
  "forwards m = (\<not> dropped m \<and>
     (case tm_Body m of None \<Rightarrow> True
      | Some b \<Rightarrow> TrimPrefix (TypeUrl b) ''type.googleapis.com/'' \<noteq> ''prisma.tms.routing.Registry''))"

definition pending_id :: "read_pc \<Rightarrow> 64 word list" where
  "pending_id p = (case p of Forwarding m i \<Rightarrow> [i] | Acking i \<Rightarrow> [i] | _ \<Rightarrow> [])"

definition pending_msg :: "read_pc \<Rightarrow> TsiMessage list" where
  "pending_msg p = (case p of Forwarding m i \<Rightarrow> [m] | _ \<Rightarrow> [])"

definition ids_ok :: "IOChannelState \<Rightarrow> bool" where
  "ids_ok c = (subseq (acked c @ acks c @ pending_id (rpc c)) (map fst (got c)) \<and>
     (\<not> canceled c \<longrightarrow> acked c @ acks c @ pending_id (rpc c) = map fst (got c)))"

definition msgs_ok :: "IOChannelState \<Rightarrow> bool" where
  "msgs_ok c = (subseq (routed c @ toRouter c @ pending_msg (rpc c)) (filter forwards (map snd (got c))) \<and>
     (\<not> canceled c \<longrightarrow> routed c @ toRouter c @ pending_msg (rpc c) = filter forwards (map snd (got c))))"

definition caps_ok :: "IOChannelState \<Rightarrow> bool" where
  "caps_ok c = (length (toRouter c) \<le> toRouter_cap \<and> length (acks c) \<le> acks_cap \<and> length (fromRouter c) \<le> ClientBuffer)"

lemmas pending_simps [simp] = pending_id_def pending_msg_def

lemma handleMessage_forwards:
  "handleMessage unpack_registry rg m = Inr (rg', fwd) \<Longrightarrow> fwd = (if forwards m then Some m else None)"
  by (auto simp: handleMessage_def forwards_def dropped_def rbind_eq_Inr split: if_splits option.splits)

lemma subseq_drop_tail: "subseq (a @ b @ c) g \<Longrightarrow> subseq (a @ b) g"
  by (metis append.assoc list_emb_append_mono subseq_order.order_refl list_emb_Nil append_Nil2 subseq_order.trans)

lemma subseq_drop_mid: "subseq (a @ i # b) g \<Longrightarrow> subseq (a @ b) g"
  by (meson list_emb_append_mono list_emb_Cons subseq_order.order_refl subseq_order.trans)

text \<open>What a read does to the invariants.\<close>

lemma readProcess_cases:
  assumes "rpc c = Reading"
  obtains (stop) "readProcess sha unzlib unmarshal up c = c\<lparr>rpc := Returned\<rparr>" "canceled c"
  | (error) r' where "readProcess sha unzlib unmarshal up c = IOChannel_Close (c\<lparr>io_r := r'\<rparr>)"
  | (crash) r' where "readProcess sha unzlib unmarshal up c = c\<lparr>io_r := r', canceled := True, rpc := Returned\<rparr>"
  | (bad) r' n i m where "readProcess sha unzlib unmarshal up c =
      c\<lparr>io_r := r', got := got c @ [(i, m)], msgsSent := n, canceled := True, rpc := Returned\<rparr>"
  | (good) r' n i m rg where "readProcess sha unzlib unmarshal up c =
      c\<lparr>io_r := r', got := got c @ [(i, m)], msgsSent := n, reg := rg,
        rpc := (if forwards m then Forwarding m i else Acking i)\<rparr>"
      "ReadTsiMessageExtended sha unzlib unmarshal (io_r c) = (Inr m, i, r')" "\<not> canceled c"
proof (cases "canceled c")
  case True
  then show ?thesis using stop by (simp add: readProcess_def)
next
  case nc: False
  obtain res i r' where rd: "ReadTsiMessageExtended sha unzlib unmarshal (io_r c) = (res, i, r')"
    using prod_cases3 by blast
  show ?thesis
  proof (cases res)
    case (Inl f)
    then show ?thesis using nc rd error[of r'] crash[of r'] by (cases f) (simp_all add: readProcess_def)
  next
    case (Inr m)
    define n where "n = (if dropped m then msgsSent c else msgsSent c + 1)"
    show ?thesis
    proof (cases "handleMessage up (reg c) m")
      case (Inl f)
      then show ?thesis using nc rd Inr bad[where r' = r' and i = i and m = m and n = n] by (simp add: readProcess_def Let_def n_def)
    next
      case h: (Inr x)
      obtain rg fwd where x: "x = (rg, fwd)" by (cases x)
      with h have "fwd = (if forwards m then Some m else None)" using handleMessage_forwards by blast
      then show ?thesis
        using nc rd Inr h x good[where r' = r' and i = i and m = m and n = n and rg = rg] by (cases "forwards m") (simp_all add: readProcess_def Let_def n_def)
    qed
  qed
qed

lemma write_ack_cases:
  obtains "write_ack sha zlib marshal ok i c = c\<lparr>canceled := True\<rparr>"
  | w where "write_ack sha zlib marshal ok i c = c\<lparr>io_written := w, acked := acked c @ [i]\<rparr>"
  by (cases "WriteTsiMessageExtended sha zlib marshal ack_message \<lparr>op_ID = i, Compress = False\<rparr>"; cases ok)
    (simp_all add: write_ack_def)

lemma write_message_cases:
  obtains n where "write_message sha zlib marshal ok rnd m c = c\<lparr>msgsRecv := n, canceled := True\<rparr>"
  | n w where "write_message sha zlib marshal ok rnd m c = c\<lparr>msgsRecv := n, io_written := w\<rparr>"
  by (cases "WriteTsiMessageExtended sha zlib marshal m \<lparr>op_ID = rnd, Compress = False\<rparr>"; cases ok)
    (simp_all add: write_message_def Let_def)

lemma readProcess_inv:
  assumes "rpc c = Reading" "ids_ok c" "msgs_ok c" "caps_ok c"
  shows "ids_ok (readProcess sha unzlib unmarshal up c) \<and> msgs_ok (readProcess sha unzlib unmarshal up c) \<and>
    caps_ok (readProcess sha unzlib unmarshal up c)"
  using assms(1)
proof (cases rule: readProcess_cases[where sha = sha and unzlib = unzlib and unmarshal = unmarshal and up = up])
  case stop
  then show ?thesis unfolding stop using assms by (simp add: ids_ok_def msgs_ok_def caps_ok_def)
next
  case (error r')
  then show ?thesis unfolding error using assms by (simp add: ids_ok_def msgs_ok_def caps_ok_def IOChannel_Close_def)
next
  case (crash r')
  then show ?thesis unfolding crash using assms by (simp add: ids_ok_def msgs_ok_def caps_ok_def)
next
  case (bad r' n i m)
  have "subseq x (y @ [z])" if "subseq x y" for x y and z :: 'a
    using that by (metis append_Nil2 list_emb_append_mono list_emb_Nil)
  then show ?thesis unfolding bad using assms by (auto simp: ids_ok_def msgs_ok_def caps_ok_def)
next
  case (good r' n i m rg)
  then show ?thesis
    unfolding good(1) using assms by (auto simp: ids_ok_def msgs_ok_def caps_ok_def)
qed

lemma istep_inv:
  assumes "istep sha zlib unzlib marshal unmarshal up c c'" "ids_ok c" "msgs_ok c" "caps_ok c"
  shows "ids_ok c' \<and> msgs_ok c' \<and> caps_ok c'"
  using assms(1)
proof (cases rule: istep.cases)
  case (arrive bs)
  then show ?thesis using assms by (simp add: ids_ok_def msgs_ok_def caps_ok_def)
next
  case read
  then show ?thesis using readProcess_inv assms by simp
next
  case (forward msg i)
  then show ?thesis using assms by (simp add: ids_ok_def msgs_ok_def caps_ok_def)
next
  case (forward_canceled msg i)
  then show ?thesis
    using assms subseq_drop_tail[of "routed c" "toRouter c" "[msg]"] by (simp add: ids_ok_def msgs_ok_def caps_ok_def)
next
  case (forward_closed msg i)
  then show ?thesis
    using assms subseq_drop_tail[of "routed c" "toRouter c" "[msg]"] subseq_drop_tail[of "acked c" "acks c" "[i]"]
    by (simp add: ids_ok_def msgs_ok_def caps_ok_def)
next
  case (queue_ack i)
  then show ?thesis using assms by (simp add: ids_ok_def msgs_ok_def caps_ok_def)
next
  case (ack i rest ok)
  show ?thesis
    by (rule write_ack_cases[of sha zlib marshal ok i "c\<lparr>acks := rest\<rparr>"])
      (use ack assms subseq_drop_mid[of "acked c" i "rest @ pending_id (rpc c)"] in
        \<open>simp_all add: ids_ok_def msgs_ok_def caps_ok_def del: pending_simps\<close>)
next
  case (write_msg msg rest ok rnd)
  show ?thesis
    by (rule write_message_cases[of sha zlib marshal ok rnd msg "c\<lparr>fromRouter := rest\<rparr>"])
      (use write_msg assms in \<open>simp_all add: ids_ok_def msgs_ok_def caps_ok_def del: pending_simps\<close>)
next
  case (offered msg)
  then show ?thesis using assms by (simp add: ids_ok_def msgs_ok_def caps_ok_def)
next
  case (taken msg rest)
  then show ?thesis using assms by (simp add: ids_ok_def msgs_ok_def caps_ok_def)
next
  case router_closes
  then show ?thesis using assms by (simp add: ids_ok_def msgs_ok_def caps_ok_def IOChannel_Close_def)
qed

text \<open>C4. In every interleaving of the reading and the writing goroutine of a client channel with the client and the
  router, only what was read is acknowledged and routed, at most once and in the order of arrival; as long as the
  channel is not cancelled nothing is missing: the ids acknowledged and waiting are exactly those read, and the messages
  the router took and those waiting for it are exactly the messages read other than acknowledgements,
  keepalives and registrations. No queue exceeds its capacity.\<close>
theorem io_channel_in_order:
  assumes "(istep sha zlib unzlib marshal unmarshal unpack_registry)\<^sup>*\<^sup>* (NewIOChannel input) c"
  shows "subseq (acked c @ acks c @ pending_id (rpc c)) (map fst (got c)) \<and>
    subseq (routed c @ toRouter c @ pending_msg (rpc c)) (filter forwards (map snd (got c))) \<and>
    (\<not> canceled c \<longrightarrow> acked c @ acks c @ pending_id (rpc c) = map fst (got c) \<and>
      routed c @ toRouter c @ pending_msg (rpc c) = filter forwards (map snd (got c))) \<and>
    length (toRouter c) \<le> toRouter_cap \<and> length (acks c) \<le> acks_cap \<and> length (fromRouter c) \<le> ClientBuffer"
proof -
  have "ids_ok c \<and> msgs_ok c \<and> caps_ok c"
    using assms
  proof induction
    case base
    show ?case by (simp add: ids_ok_def msgs_ok_def caps_ok_def NewIOChannel_def)
  next
    case (step c c')
    then show ?case using istep_inv by blast
  qed
  then show ?thesis by (simp add: ids_ok_def msgs_ok_def caps_ok_def)
qed

text \<open>A run of the two goroutines that reads a message, hands it to the router and acknowledges it.\<close>

lemma channel_run:
  assumes "ReadTsiMessageExtended sha unzlib unmarshal (io_r c) = (Inr tmsg, i, r')" "forwards tmsg"
    and "WriteTsiMessageExtended sha zlib marshal ack_message \<lparr>op_ID = i, Compress = False\<rparr> = Inr whole"
    and "rpc c = Reading" "\<not> canceled c" "toRouter_open c" "acks c = []" "length (toRouter c) < toRouter_cap"
  shows "\<exists>c'. (istep sha zlib unzlib marshal unmarshal unpack_reg)\<^sup>*\<^sup>* c c' \<and>
    rpc c' = Reading \<and> \<not> canceled c' \<and> toRouter_open c' \<and> acks c' = [] \<and> io_r c' = r' \<and> routed c' = routed c \<and>
    toRouter c' = toRouter c @ [tmsg] \<and> io_written c' = io_written c @ [whole] \<and> acked c' = acked c @ [i] \<and>
    got c' = got c @ [(i, tmsg)]"
proof -
  let ?s = "istep sha zlib unzlib marshal unmarshal unpack_reg"
  have h: "handleMessage unpack_reg (reg c) tmsg = Inr (reg c, Some tmsg)"
    using assms(2) by (auto simp: forwards_def dropped_def handleMessage_def split: option.splits)
  define c1 where "c1 = c\<lparr>io_r := r', got := got c @ [(i, tmsg)], msgsSent := msgsSent c + 1, rpc := Forwarding tmsg i\<rparr>"
  have "readProcess sha unzlib unmarshal unpack_reg c = c1"
    using assms(1,2,5) h by (simp add: readProcess_def Let_def c1_def forwards_def)
  then have s1: "?s c c1" using istep.read[OF assms(4), of sha zlib unzlib marshal unmarshal unpack_reg] by simp
  define c2 where "c2 = c1\<lparr>toRouter := toRouter c @ [tmsg], rpc := Acking i\<rparr>"
  have s2: "?s c1 c2"
    using istep.forward[of c1 tmsg i sha zlib unzlib marshal unmarshal unpack_reg] assms(6,8) by (simp add: c2_def c1_def)
  define c3 where "c3 = c2\<lparr>acks := [i], rpc := Reading\<rparr>"
  have s3: "?s c2 c3"
    using istep.queue_ack[of c2 i sha zlib unzlib marshal unmarshal unpack_reg] assms(7)
    by (simp add: c3_def c2_def c1_def acks_cap_def)
  define c4 where "c4 = write_ack sha zlib marshal True i (c3\<lparr>acks := []\<rparr>)"
  have s4: "?s c3 c4"
    unfolding c4_def by (rule istep.ack) (simp add: c3_def)
  have "?s\<^sup>*\<^sup>* c c4" using s1 s2 s3 s4 by (meson converse_rtranclp_into_rtranclp rtranclp.rtrancl_refl)
  then show ?thesis
    using assms(3,5,6) by (intro exI[of _ c4]) (simp add: c4_def write_ack_def c3_def c2_def c1_def)
qed

end
