(* ===== verification/Tgwad_Remote.thy ===== *)
theory Tgwad_Remote
  imports Tgwad_Listener "HOL-Library.Char_ord"
begin

text \<open>
  \<^verbatim>\<open>tms/cmd/daemons/tgwad/{deliverer,remote}.go\<close>: delivery to a remote site. A \<open>NetDeliverer\<close> writes a frame
  and waits for its acknowledgement; the send workers of a site share a bounded queue and a message
  database that keeps what could not be sent.

  The network is explicit: the bytes the peer will send are the reader of the connection, whether a write
  succeeds and what a dial returns are arguments. \<open>wire\<close> bundles the parameters of the framing. The database
  (\<^verbatim>\<open>goejdb\<close>, a C library) is a list of documents; the outcome of a save and of a removal are arguments, \<^verbatim>\<open>Find\<close>
  returns the documents in any order, or none when it fails. The goroutines of a site are the step relation \<open>sstep\<close>,
  the shutdown of the daemon included: the group is cancelled, every \<^verbatim>\<open>select\<close> on \<^verbatim>\<open>Done\<close> may then return, and the
  router closes the site. A goroutine that panics is restarted by \<^verbatim>\<open>GoRestart\<close> unless the group is cancelled;
  the message it held is gone.
\<close>

section \<open>Deliverers\<close>

record wire =
  w_sha :: "go_bytes \<Rightarrow> go_bytes"
  w_zlib :: "go_bytes \<Rightarrow> go_bytes"
  w_unzlib :: "go_bytes \<Rightarrow> go_bytes res"
  w_marshal :: "TsiMessage \<Rightarrow> go_bytes res"
  w_unmarshal :: "go_bytes \<Rightarrow> TsiMessage res"

datatype Route_Status = Route_UP | Route_DOWN

record NetDeliverer =
  nd_Type :: string
  nd_Descr :: string
  nd_local :: EndPoint
  nd_ctr :: "64 word"
  nd_conn :: bool
  nd_buf :: reader
  nd_written :: go_bytes
  nd_status :: "Route_Status option"
  nd_tls :: bool

definition NewNetDeliverer :: "string \<Rightarrow> string \<Rightarrow> EndPoint \<Rightarrow> 64 word \<Rightarrow> NetDeliverer" where
  "NewNetDeliverer ty addrHost lcl rnd =
     \<lparr>nd_Type = ty, nd_Descr = addrHost, nd_local = lcl, nd_ctr = rnd, nd_conn = False,
      nd_buf = \<lparr>coming = [], bufsize = 0\<rparr>, nd_written = [], nd_status = None, nd_tls = False\<rparr>"

definition kill :: "NetDeliverer \<Rightarrow> NetDeliverer" where
  "kill d = d\<lparr>nd_conn := False, nd_status := Some Route_DOWN\<rparr>"

text \<open>The loop that waits for the acknowledgement; \<open>Inr False\<close> stands for the returns after \<open>kill\<close>.\<close>

function await_ack :: "wire \<Rightarrow> 64 word \<Rightarrow> reader \<Rightarrow> (bool \<times> reader) res" where
  "await_ack w i r =
     (case ReadTsiMessageExtended (w_sha w) (w_unzlib w) (w_unmarshal w) r of
        (Inl (Err e), ackid, r') \<Rightarrow> Inr (False, r')
      | (Inl f, ackid, r') \<Rightarrow> Inl f
      | (Inr resp, ackid, r') \<Rightarrow>
          if tm_Body resp \<noteq> None then await_ack w i r'
          else if tm_Status resp \<noteq> TsiMessage_ACK \<or> ackid \<noteq> i then Inr (False, r')
          else Inr (True, r'))"
  by pat_completeness auto
termination
  by (relation "measure (\<lambda>(w, i, r). length (coming r))") (auto dest: read_consumes[OF sym])

declare await_ack.simps [simp del]

definition Deliver :: "wire \<Rightarrow> bool \<Rightarrow> NetDeliverer \<Rightarrow> TsiMessage option \<Rightarrow> (NetDeliverer \<times> bool) res" where
  "Deliver w writes_ok d p =
     (case p of
        None \<Rightarrow> Inr (d, True)
      | Some msg \<Rightarrow>
          if \<not> nd_conn d then Inr (d, False)
          else
            let i = nd_ctr d; d1 = d\<lparr>nd_ctr := nd_ctr d + 1\<rparr> in
            case WriteTsiMessageExtended (w_sha w) (w_zlib w) (w_marshal w) msg \<lparr>op_ID = i, Compress = True\<rparr> of
              Inl e \<Rightarrow> Inr (kill d1, False)
            | Inr whole \<Rightarrow>
                if \<not> writes_ok then Inr (kill d1, False)
                else
                  let d2 = d1\<lparr>nd_written := nd_written d1 @ whole\<rparr> in
                  case await_ack w i (nd_buf d2) of
                    Inl f \<Rightarrow> Inl f
                  | Inr (ok, r') \<Rightarrow>
                      if ok then Inr (d2\<lparr>nd_buf := r'\<rparr>, True) else Inr (kill (d2\<lparr>nd_buf := r'\<rparr>), False))"

definition empty_message :: TsiMessage where
  "empty_message = \<lparr>tm_Source = None, tm_Destination = [], tm_Status = OtherTsiStatus 0, RealTime = False,
                    NotifySent = 0, tm_Body = None\<rparr>"

definition ping :: "wire \<Rightarrow> bool \<Rightarrow> NetDeliverer \<Rightarrow> NetDeliverer res" where
  "ping w ok d = rbind (Deliver w ok d (Some (empty_message\<lparr>tm_Status := TsiMessage_KEEPALIVE\<rparr>))) (\<lambda>(d', sent). Inr d')"

definition sendHello :: "wire \<Rightarrow> (Registry \<Rightarrow> any_pb res) \<Rightarrow> bool \<Rightarrow> NetDeliverer \<Rightarrow> NetDeliverer res" where
  "sendHello w pack_reg ok d =
     (let helloBody = (case pack_reg \<lparr>SourceService = Some (nd_local d), Entries = []\<rparr> of Inl e \<Rightarrow> None | Inr b \<Rightarrow> Some b) in
      rbind (Deliver w ok d (Some (empty_message\<lparr>tm_Source := Some (nd_local d), tm_Body := helloBody\<rparr>)))
        (\<lambda>(d', sent). Inr d'))"

text \<open>
  A dial yields no connection or one on which the peer will send some bytes; with TLS a handshake follows.
  \<^verbatim>\<open>bufio.NewReader\<close> has a buffer of 4096 bytes.
\<close>

definition default_bufsize :: nat where "default_bufsize = 4096"

definition tryConnectTCP :: "wire \<Rightarrow> (Registry \<Rightarrow> any_pb res) \<Rightarrow> bool \<Rightarrow> go_bytes option \<Rightarrow> NetDeliverer \<Rightarrow> NetDeliverer res" where
  "tryConnectTCP w pack_reg ok dial d =
     (case dial of
        None \<Rightarrow> Inr (d\<lparr>nd_conn := False, nd_status := Some Route_DOWN\<rparr>)
      | Some c \<Rightarrow> sendHello w pack_reg ok (d\<lparr>nd_status := Some Route_UP, nd_buf := \<lparr>coming = c, bufsize = default_bufsize\<rparr>, nd_conn := True\<rparr>))"

definition tryConnectTLS ::
  "wire \<Rightarrow> (Registry \<Rightarrow> any_pb res) \<Rightarrow> bool \<Rightarrow> go_bytes option \<Rightarrow> bool \<Rightarrow> NetDeliverer \<Rightarrow> NetDeliverer res"
where
  "tryConnectTLS w pack_reg ok dial handshake d =
     (case dial of
        None \<Rightarrow> Inr (d\<lparr>nd_conn := False, nd_status := Some Route_DOWN\<rparr>)
      | Some c \<Rightarrow>
          if \<not> handshake then Inr d
          else sendHello w pack_reg ok (d\<lparr>nd_status := Some Route_UP, nd_buf := \<lparr>coming = c, bufsize = default_bufsize\<rparr>, nd_conn := True\<rparr>))"

definition tryConnect ::
  "wire \<Rightarrow> (Registry \<Rightarrow> any_pb res) \<Rightarrow> bool \<Rightarrow> go_bytes option \<Rightarrow> bool \<Rightarrow> NetDeliverer \<Rightarrow> NetDeliverer res"
where
  "tryConnect w pack_reg ok dial handshake d =
     (if nd_tls d then tryConnectTLS w pack_reg ok dial handshake d else tryConnectTCP w pack_reg ok dial d)"

text \<open>What \<open>connect\<close> does on a tick.\<close>

definition connect_tick ::
  "wire \<Rightarrow> (Registry \<Rightarrow> any_pb res) \<Rightarrow> bool \<Rightarrow> go_bytes option \<Rightarrow> bool \<Rightarrow> NetDeliverer \<Rightarrow> NetDeliverer res"
where
  "connect_tick w pack_reg ok dial handshake d =
     (if \<not> nd_conn d then tryConnect w pack_reg ok dial handshake d else ping w ok d)"

record RemoteConfig =
  CA :: string
  Cert :: string
  PrivKey :: string

text \<open>\<open>pki\<close> reads the certificate files.\<close>

definition setupTLS :: "(RemoteConfig \<Rightarrow> unit res) \<Rightarrow> RemoteConfig \<Rightarrow> NetDeliverer \<Rightarrow> NetDeliverer res" where
  "setupTLS pki cfg d =
     (if CA cfg = '''' \<or> PrivKey cfg = '''' \<or> Cert cfg = '''' then
        Inl (Fatal ''If TCPS is specified CA, cert, and privkeys must also be'')
      else rbind (pki cfg) (\<lambda>_. Inr (d\<lparr>nd_tls := True\<rparr>)))"

fun go_split :: "char \<Rightarrow> string \<Rightarrow> string list" where
  "go_split c [] = [[]]"
| "go_split c (x # xs) = (if x = c then [] # go_split c xs else (x # hd (go_split c xs)) # tl (go_split c xs))"

fun go_join :: "char \<Rightarrow> string list \<Rightarrow> string" where
  "go_join c [] = []"
| "go_join c [x] = x"
| "go_join c (x # y # zs) = x @ c # go_join c (y # zs)"

definition to_lower :: "char \<Rightarrow> char" where
  "to_lower c = (if CHR ''A'' \<le> c \<and> c \<le> CHR ''Z'' then char_of (of_char c + 32 :: nat) else c)"

definition NewDeliverer ::
  "(RemoteConfig \<Rightarrow> unit res) \<Rightarrow> string option \<Rightarrow> EndPoint \<Rightarrow> RemoteConfig \<Rightarrow> 64 word \<Rightarrow> NetDeliverer res"
where
  "NewDeliverer pki r lcl cfg rnd =
     (case r of
        None \<Rightarrow> Inl (Err ''Nil route specified!'')
      | Some url \<Rightarrow>
          let parts = go_split CHR '':'' url; ty = map to_lower (parts ! 0); addr = go_join CHR '':'' (drop 1 parts) in
          if ty = ''tcp'' \<or> ty = ''tcp4'' \<or> ty = ''tcp6'' then Inr (NewNetDeliverer ty addr lcl rnd)
          else if ty = ''tcps'' then setupTLS pki cfg (NewNetDeliverer ''tcp'' addr lcl rnd)
          else Inl (Fatal ''Unknown connection method''))"

section \<open>The remote site and its send workers\<close>

definition MsgBuffer :: nat where "MsgBuffer = 8"
definition NumConnections :: nat where "NumConnections = 5"
definition toRemote_cap :: nat where "toRemote_cap = 32"

record DBMessage =
  db_ID :: nat
  SiteDest :: "32 word"
  SendTime :: time
  db_Msg :: TsiMessage

text \<open>
  A worker is before \<open>sendStoredMsgs\<close>, at the \<^verbatim>\<open>select\<close>, sends a message from the database or the queue, or has
  returned. \<open>None\<close> in the queue is the nil that a receive from the closed \<open>toRemote\<close> yields.
\<close>

datatype worker_pc =
  CheckStored | AtWorkerSelect | SendingStored TsiMessage | SendingQueued "TsiMessage option" | WorkerReturned

record SendWorker =
  deliverers :: "NetDeliverer list"
  numSent :: "64 word"
  numSaved :: "64 word"
  numNotSent :: "64 word"
  w_pc :: worker_pc

text \<open>
  \<open>rs_canceled\<close>: the group's context is done; \<open>rs_closed\<close>: the router has closed the channels of the site;
  \<open>receiver_returned\<close>: \<open>recieveMsgs\<close> has returned. \<open>rs_notified\<close> are the calls of \<open>NotifyMessage\<close>.

  \<open>handed\<close>, \<open>resent\<close> and \<open>lost\<close> are history: the messages the router put into \<open>toRemote\<close>, those taken from the
  database for sending while their removal from it failed, and those given up, with the reason.
\<close>

datatype loss = DatabaseFailed | NotDecoded | Panicked | ShutDown

record RemoteState =
  siteInfo :: SiteInfo
  toRemote :: "TsiMessage list"
  internalSend :: "TsiMessage option list"
  rs_db :: "DBMessage list"
  senders :: "SendWorker list"
  rs_canceled :: bool
  rs_closed :: bool
  receiver_returned :: bool
  rs_notified :: "(TsiMessage \<times> report_status) list"
  handed :: "TsiMessage list"
  resent :: "TsiMessage list"
  lost :: "(loss \<times> TsiMessage) list"

text \<open>\<open>rnd i j\<close> is the random counter of the deliverer for route \<open>j\<close> of worker \<open>i\<close>.\<close>

fun new_deliverers ::
  "(RemoteConfig \<Rightarrow> unit res) \<Rightarrow> EndPoint \<Rightarrow> RemoteConfig \<Rightarrow> string option list \<Rightarrow> (nat \<Rightarrow> 64 word) \<Rightarrow> nat \<Rightarrow>
   NetDeliverer list res"
where
  "new_deliverers pki lcl cfg [] rnd j = Inr []"
| "new_deliverers pki lcl cfg (route # routes) rnd j =
     rbind (NewDeliverer pki route lcl cfg (rnd j)) (\<lambda>d.
     rbind (new_deliverers pki lcl cfg routes rnd (j + 1)) (\<lambda>ds. Inr (d # ds)))"

definition NewSendWorker ::
  "(RemoteConfig \<Rightarrow> unit res) \<Rightarrow> EndPoint \<Rightarrow> RemoteConfig \<Rightarrow> string option list \<Rightarrow> (nat \<Rightarrow> 64 word) \<Rightarrow> SendWorker res"
where
  "NewSendWorker pki lcl cfg routes rnd =
     rbind (new_deliverers pki lcl cfg routes rnd 0) (\<lambda>ds.
       Inr \<lparr>deliverers = ds, numSent = 0, numSaved = 0, numNotSent = 0, w_pc = CheckStored\<rparr>)"

fun new_workers ::
  "(RemoteConfig \<Rightarrow> unit res) \<Rightarrow> EndPoint \<Rightarrow> RemoteConfig \<Rightarrow> string option list \<Rightarrow> (nat \<Rightarrow> nat \<Rightarrow> 64 word) \<Rightarrow> nat \<Rightarrow>
   SendWorker list res"
where
  "new_workers pki lcl cfg routes rnd 0 = Inr []"
| "new_workers pki lcl cfg routes rnd (Suc n) =
     rbind (NewSendWorker pki lcl cfg routes (rnd n)) (\<lambda>s.
     rbind (new_workers pki lcl cfg routes rnd n) (\<lambda>ss. Inr (s # ss)))"

text \<open>\<open>AddChannel\<close> puts the service info \<open>siMsg\<close> into \<open>toRemote\<close>.\<close>

definition NewRemoteSite ::
  "(RemoteConfig \<Rightarrow> unit res) \<Rightarrow> EndPoint \<Rightarrow> RemoteConfig \<Rightarrow> SiteInfo \<Rightarrow> string option list \<Rightarrow> (nat \<Rightarrow> nat \<Rightarrow> 64 word) \<Rightarrow>
   DBMessage list \<Rightarrow> TsiMessage \<Rightarrow> RemoteState res"
where
  "NewRemoteSite pki lcl cfg si routes rnd db siMsg =
     rbind (new_workers pki lcl cfg routes rnd NumConnections) (\<lambda>ss.
       Inr \<lparr>siteInfo = si, toRemote = [siMsg], internalSend = [], rs_db = db, senders = ss,
            rs_canceled = False, rs_closed = False, receiver_returned = False,
            rs_notified = [], handed = [siMsg], resent = [], lost = []\<rparr>)"

text \<open>What \<^verbatim>\<open>bson.Marshal\<close> and \<^verbatim>\<open>SaveBson\<close> do with a document: it is saved under a new id, or an error is logged.\<close>

datatype save_outcome = Saved nat | MarshalError | SaveError

definition storeMsg :: "save_outcome \<Rightarrow> time \<Rightarrow> TsiMessage \<Rightarrow> RemoteState \<Rightarrow> RemoteState" where
  "storeMsg sv now msg r =
     (if RealTime msg then r\<lparr>rs_notified := rs_notified r @ [(msg, DeliveryReport_FAILED)]\<rparr>
      else case sv of
        MarshalError \<Rightarrow> r\<lparr>lost := (DatabaseFailed, msg) # lost r\<rparr>
      | SaveError \<Rightarrow> r\<lparr>lost := (DatabaseFailed, msg) # lost r\<rparr>
      | Saved i \<Rightarrow>
          r\<lparr>rs_db := rs_db r @ [\<lparr>db_ID = i, SiteDest = si_Id (siteInfo r), SendTime = now, db_Msg = msg\<rparr>]\<rparr>)"

text \<open>
  \<open>recieveMsgs\<close> on what it takes from \<open>toRemote\<close>. The inner \<^verbatim>\<open>select\<close> has the cases \<^verbatim>\<open>Done\<close> and the send; where both
  are ready, \<open>quit\<close> is its choice. The default is taken only when neither is ready. \<open>storeMsg\<close> panics on nil,
  and the goroutine is restarted.
\<close>

definition recieveMsgs :: "bool \<Rightarrow> save_outcome \<Rightarrow> time \<Rightarrow> TsiMessage option \<Rightarrow> RemoteState \<Rightarrow> RemoteState" where
  "recieveMsgs quit sv now msg r =
     (if rs_canceled r \<and> (quit \<or> \<not> length (internalSend r) < MsgBuffer) then
        r\<lparr>receiver_returned := True, lost := (case msg of None \<Rightarrow> lost r | Some m \<Rightarrow> (ShutDown, m) # lost r)\<rparr>
      else if length (internalSend r) < MsgBuffer then r\<lparr>internalSend := internalSend r @ [msg]\<rparr>
      else case msg of None \<Rightarrow> r | Some m \<Rightarrow> storeMsg sv now m r)"

text \<open>The loop of \<open>sendMsg\<close> over the deliverers; the first that delivers ends it. \<open>NotifyMessage\<close> panics on nil.\<close>

fun try_deliver :: "wire \<Rightarrow> bool list \<Rightarrow> NetDeliverer list \<Rightarrow> TsiMessage option \<Rightarrow> (NetDeliverer list \<times> bool) res" where
  "try_deliver w oks [] msg = Inr ([], False)"
| "try_deliver w oks (d # ds) msg =
     rbind (Deliver w (oks = [] \<or> hd oks) d msg) (\<lambda>(d', sent).
       if sent then Inr (d' # ds, True)
       else rbind (try_deliver w (tl oks) ds msg) (\<lambda>(ds', b). Inr (d' # ds', b)))"

definition sendMsg :: "wire \<Rightarrow> bool list \<Rightarrow> nat \<Rightarrow> TsiMessage option \<Rightarrow> RemoteState \<Rightarrow> (RemoteState \<times> bool) res" where
  "sendMsg w oks k msg r =
     (let s = senders r ! k in
      rbind (try_deliver w oks (deliverers s) msg) (\<lambda>(ds, sent).
        if sent then
          case msg of
            None \<Rightarrow> Inl NilDeref
          | Some m \<Rightarrow>
              Inr (r\<lparr>rs_notified := rs_notified r @ [(m, DeliveryReport_SENT)],
                     senders := (senders r)[k := s\<lparr>deliverers := ds, numSent := numSent s + 1\<rparr>]\<rparr>, True)
        else Inr (r\<lparr>senders := (senders r)[k := s\<lparr>deliverers := ds, numNotSent := numNotSent s + 1\<rparr>]\<rparr>, False)))"

text \<open>\<open>sendMsg\<close> and, if it fails, \<open>storeMsg\<close>, as both callers do.\<close>

definition send_or_store ::
  "wire \<Rightarrow> bool list \<Rightarrow> save_outcome \<Rightarrow> time \<Rightarrow> nat \<Rightarrow> TsiMessage option \<Rightarrow> RemoteState \<Rightarrow> RemoteState res"
where
  "send_or_store w oks sv now k msg r =
     rbind (sendMsg w oks k msg r) (\<lambda>(r', sent).
       if sent then Inr r'
       else
         let s = senders r' ! k; r2 = r'\<lparr>senders := (senders r')[k := s\<lparr>numSaved := numSaved s + 1\<rparr>]\<rparr> in
         case msg of None \<Rightarrow> Inl NilDeref | Some m \<Rightarrow> Inr (storeMsg sv now m r2))"

definition set_pc :: "nat \<Rightarrow> worker_pc \<Rightarrow> RemoteState \<Rightarrow> RemoteState" where
  "set_pc k p r = r\<lparr>senders := (senders r)[k := (senders r ! k)\<lparr>w_pc := p\<rparr>]\<rparr>"

text \<open>
  The database part of \<open>sendStoredMsgs\<close>, under the lock: \<open>found\<close> is what \<^verbatim>\<open>Find\<close> returns, \<open>removed\<close> whether \<^verbatim>\<open>RmBson\<close>
  removes the document (its result is ignored). A document that cannot be unmarshalled is given up, and removed if
  its id had been read.
\<close>

datatype unmarshal_outcome = Unmarshalled | Undecodable bool

definition RmBson :: "nat \<Rightarrow> DBMessage list \<Rightarrow> DBMessage list" where
  "RmBson i db = filter (\<lambda>x. db_ID x \<noteq> i) db"

definition sendStoredMsgs :: "unmarshal_outcome \<Rightarrow> bool \<Rightarrow> DBMessage list \<Rightarrow> nat \<Rightarrow> RemoteState \<Rightarrow> RemoteState" where
  "sendStoredMsgs um removed found k r =
     (case found of
        [] \<Rightarrow> set_pc k AtWorkerSelect r
      | m # _ \<Rightarrow>
          case um of
            Unmarshalled \<Rightarrow>
              set_pc k (SendingStored (db_Msg m))
                (if removed then r\<lparr>rs_db := RmBson (db_ID m) (rs_db r)\<rparr> else r\<lparr>resent := db_Msg m # resent r\<rparr>)
          | Undecodable id_read \<Rightarrow>
              set_pc k AtWorkerSelect
                (if id_read \<and> removed
                 then r\<lparr>rs_db := RmBson (db_ID m) (rs_db r), lost := (NotDecoded, db_Msg m) # lost r\<rparr> else r))"

definition for_site :: "RemoteState \<Rightarrow> DBMessage list" where
  "for_site r = filter (\<lambda>x. SiteDest x = si_Id (siteInfo r)) (rs_db r)"

text \<open>What is left of a worker after a panic: its deliverers and counters are as the panic left them.\<close>

definition after_panic :: "nat \<Rightarrow> SendWorker \<Rightarrow> RemoteState \<Rightarrow> RemoteState" where
  "after_panic k s r =
     r\<lparr>senders := (senders r)[k := s\<lparr>w_pc := if rs_canceled r then WorkerReturned else CheckStored\<rparr>]\<rparr>"

inductive sstep :: "wire \<Rightarrow> RemoteState \<Rightarrow> RemoteState \<Rightarrow> bool" for w where
  hand:
    "length (toRemote r) < toRemote_cap \<Longrightarrow> \<not> rs_closed r \<Longrightarrow>
     sstep w r (r\<lparr>toRemote := toRemote r @ [msg], handed := msg # handed r\<rparr>)"
| recieve:
    "\<not> receiver_returned r \<Longrightarrow> toRemote r = msg # rest \<Longrightarrow> (\<And>i. sv = Saved i \<Longrightarrow> i \<notin> db_ID ` set (rs_db r)) \<Longrightarrow>
     sstep w r (recieveMsgs quit sv now (Some msg) (r\<lparr>toRemote := rest\<rparr>))"
| recieve_nil:
    "\<not> receiver_returned r \<Longrightarrow> toRemote r = [] \<Longrightarrow> rs_closed r \<Longrightarrow> sstep w r (recieveMsgs quit sv now None r)"
| receiver_done:
    "rs_canceled r \<Longrightarrow> sstep w r (r\<lparr>receiver_returned := True\<rparr>)"
| stored:
    "k < length (senders r) \<Longrightarrow> w_pc (senders r ! k) = CheckStored \<Longrightarrow>
     mset found = mset (for_site r) \<or> found = [] \<Longrightarrow>
     sstep w r (sendStoredMsgs um removed found k r)"
| tick:
    "k < length (senders r) \<Longrightarrow> w_pc (senders r ! k) = AtWorkerSelect \<Longrightarrow> sstep w r (set_pc k CheckStored r)"
| worker_done:
    "k < length (senders r) \<Longrightarrow> w_pc (senders r ! k) = AtWorkerSelect \<Longrightarrow> rs_canceled r \<Longrightarrow>
     sstep w r (set_pc k WorkerReturned r)"
| take_queued:
    "k < length (senders r) \<Longrightarrow> w_pc (senders r ! k) = AtWorkerSelect \<Longrightarrow> internalSend r = msg # rest \<Longrightarrow>
     sstep w r (set_pc k (SendingQueued msg) (r\<lparr>internalSend := rest\<rparr>))"
| sent_stored:
    "k < length (senders r) \<Longrightarrow> w_pc (senders r ! k) = SendingStored msg \<Longrightarrow>
     (\<And>i. sv = Saved i \<Longrightarrow> i \<notin> db_ID ` set (rs_db r)) \<Longrightarrow> send_or_store w oks sv now k (Some msg) r = Inr r' \<Longrightarrow>
     sstep w r (set_pc k AtWorkerSelect r')"
| sent_queued:
    "k < length (senders r) \<Longrightarrow> w_pc (senders r ! k) = SendingQueued msg \<Longrightarrow>
     (\<And>i. sv = Saved i \<Longrightarrow> i \<notin> db_ID ` set (rs_db r)) \<Longrightarrow> send_or_store w oks sv now k msg r = Inr r' \<Longrightarrow>
     sstep w r (set_pc k CheckStored r')"
| stored_panicked:
    "k < length (senders r) \<Longrightarrow> w_pc (senders r ! k) = SendingStored msg \<Longrightarrow>
     send_or_store w oks sv now k (Some msg) r = Inl f \<Longrightarrow>
     sstep w r (after_panic k s (r\<lparr>lost := (Panicked, msg) # lost r\<rparr>))"
| queued_panicked:
    "k < length (senders r) \<Longrightarrow> w_pc (senders r ! k) = SendingQueued (Some msg) \<Longrightarrow>
     send_or_store w oks sv now k (Some msg) r = Inl f \<Longrightarrow>
     sstep w r (after_panic k s (r\<lparr>lost := (Panicked, msg) # lost r\<rparr>))"
| nil_panicked:
    "k < length (senders r) \<Longrightarrow> w_pc (senders r ! k) = SendingQueued None \<Longrightarrow>
     send_or_store w oks sv now k None r = Inl f \<Longrightarrow> sstep w r (after_panic k s r)"
| reconnect:
    "k < length (senders r) \<Longrightarrow> j < length (deliverers (senders r ! k)) \<Longrightarrow>
     connect_tick w pack_reg ok dial handshake (deliverers (senders r ! k) ! j) = Inr d \<Longrightarrow>
     sstep w r (r\<lparr>senders := (senders r)[k := (senders r ! k)\<lparr>deliverers := (deliverers (senders r ! k))[j := d]\<rparr>]\<rparr>)"
| cancel: "sstep w r (r\<lparr>rs_canceled := True\<rparr>)"
| close: "rs_canceled r \<Longrightarrow> \<not> rs_closed r \<Longrightarrow> sstep w r (r\<lparr>rs_closed := True\<rparr>)"

section \<open>Where a message is\<close>

definition non_nil :: "TsiMessage option list \<Rightarrow> TsiMessage multiset" where
  "non_nil q = mset (map the (filter (\<lambda>m. m \<noteq> None) q))"

lemma non_nil_simps [simp]:
  "non_nil [] = {#}" "non_nil (Some m # q) = {#m#} + non_nil q" "non_nil (None # q) = non_nil q" "non_nil (p @ q) = non_nil p + non_nil q"
  by (simp_all add: non_nil_def)

definition flight :: "SendWorker \<Rightarrow> TsiMessage multiset" where
  "flight s = (case w_pc s of SendingStored m \<Rightarrow> {#m#} | SendingQueued m \<Rightarrow> non_nil [m] | _ \<Rightarrow> {#})"

definition in_flight :: "RemoteState \<Rightarrow> TsiMessage multiset" where
  "in_flight r = sum_list (map flight (senders r))"

text \<open>The messages the site still holds, and those it has answered for or given up.\<close>

definition kept :: "RemoteState \<Rightarrow> TsiMessage multiset" where
  "kept r = mset (toRemote r) + non_nil (internalSend r) + image_mset db_Msg (mset (for_site r)) + in_flight r"

definition settled :: "RemoteState \<Rightarrow> TsiMessage multiset" where
  "settled r = mset (map fst (rs_notified r)) + mset (map snd (lost r))"

definition account :: "RemoteState \<Rightarrow> TsiMessage multiset" where
  "account r = kept r + settled r"

text \<open>What came in: the messages handed over, and those that went out of the database and stayed in it.\<close>

definition income :: "RemoteState \<Rightarrow> TsiMessage multiset" where
  "income r = mset (handed r) + mset (resent r)"

definition shutdown_losses :: "RemoteState \<Rightarrow> (loss \<times> TsiMessage) list" where
  "shutdown_losses r = filter (\<lambda>x. fst x = ShutDown) (lost r)"

definition site_ok :: "RemoteState \<Rightarrow> bool" where
  "site_ok r = (distinct (map db_ID (rs_db r)) \<and> (\<forall>x\<in>set (for_site r). \<not> RealTime (db_Msg x)) \<and>
     (\<forall>m. (m, DeliveryReport_FAILED) \<in> set (rs_notified r) \<longrightarrow> RealTime m) \<and> length (internalSend r) \<le> MsgBuffer \<and>
     length (shutdown_losses r) \<le> (if receiver_returned r then 1 else 0) \<and>
     (receiver_returned r \<or> rs_closed r \<longrightarrow> rs_canceled r))"

lemma sum_list_map_update:
  fixes f :: "'a \<Rightarrow> 'b multiset"
  shows "k < length xs \<Longrightarrow> sum_list (map f (xs[k := x])) + f (xs ! k) = sum_list (map f xs) + f x"
  by (induction xs arbitrary: k) (auto split: nat.splits simp: ac_simps)

lemma in_flight_update:
  "k < length (senders r) \<Longrightarrow> in_flight (r\<lparr>senders := (senders r)[k := s]\<rparr>) + flight (senders r ! k) = in_flight r + flight s"
  unfolding in_flight_def by (simp add: sum_list_map_update)

lemma flight_idle [simp]:
  "flight (s\<lparr>w_pc := AtWorkerSelect\<rparr>) = {#}" "flight (s\<lparr>w_pc := CheckStored\<rparr>) = {#}"
  "flight (s\<lparr>w_pc := WorkerReturned\<rparr>) = {#}"
  "flight (s\<lparr>w_pc := SendingStored m\<rparr>) = {#m#}" "flight (s\<lparr>w_pc := SendingQueued x\<rparr>) = non_nil [x]"
  "flight (s\<lparr>deliverers := ds\<rparr>) = flight s" "flight (s\<lparr>numSent := a\<rparr>) = flight s"
  "flight (s\<lparr>numNotSent := a\<rparr>) = flight s" "flight (s\<lparr>numSaved := a\<rparr>) = flight s"
  by (simp_all add: flight_def)

text \<open>What no operation of the site touches: the documents of other sites.\<close>

definition others :: "RemoteState \<Rightarrow> DBMessage list" where
  "others r = filter (\<lambda>x. SiteDest x \<noteq> si_Id (siteInfo r)) (rs_db r)"

lemmas account_defs = account_def kept_def settled_def in_flight_def for_site_def

lemma set_pc_fields [simp]:
  "siteInfo (set_pc k p r) = siteInfo r" "rs_db (set_pc k p r) = rs_db r" "income (set_pc k p r) = income r"
  "length (senders (set_pc k p r)) = length (senders r)" "others (set_pc k p r) = others r"
  "site_ok (set_pc k p r) = site_ok r"
  by (simp_all add: set_pc_def others_def site_ok_def for_site_def shutdown_losses_def income_def)

lemma set_pc_account:
  assumes "k < length (senders r)"
  shows "account (set_pc k p r) + flight (senders r ! k) = account r + flight ((senders r ! k)\<lparr>w_pc := p\<rparr>)"
  using in_flight_update[OF assms, of "(senders r ! k)\<lparr>w_pc := p\<rparr>"]
  by (simp add: set_pc_def account_def kept_def settled_def for_site_def ac_simps)

lemma after_panic_step:
  assumes "k < length (senders r)"
  shows "account (after_panic k s r) + flight (senders r ! k) = account r"
    and "siteInfo (after_panic k s r) = siteInfo r" "income (after_panic k s r) = income r"
    and "others (after_panic k s r) = others r" "site_ok (after_panic k s r) = site_ok r"
  using in_flight_update[OF assms, of "s\<lparr>w_pc := if rs_canceled r then WorkerReturned else CheckStored\<rparr>"]
  by (cases "rs_canceled r"; simp add: after_panic_def account_def kept_def settled_def for_site_def others_def
      site_ok_def shutdown_losses_def income_def ac_simps)+

lemma storeMsg_account [simp]: "account (storeMsg sv now m r) = account r + {#m#}"
  by (simp add: storeMsg_def account_defs split: save_outcome.splits)

lemma storeMsg_fields [simp]:
  "siteInfo (storeMsg sv now m r) = siteInfo r" "senders (storeMsg sv now m r) = senders r"
  "income (storeMsg sv now m r) = income r" "others (storeMsg sv now m r) = others r"
  by (simp_all add: storeMsg_def others_def income_def split: save_outcome.splits)

lemma storeMsg_ok:
  "site_ok r \<Longrightarrow> (\<And>i. sv = Saved i \<Longrightarrow> i \<notin> db_ID ` set (rs_db r)) \<Longrightarrow> site_ok (storeMsg sv now m r)"
  by (auto simp: storeMsg_def site_ok_def for_site_def shutdown_losses_def split: save_outcome.splits)

lemma recieveMsgs_account [simp]: "account (recieveMsgs quit sv now m r) = account r + non_nil [m]"
  by (cases m) (simp_all add: recieveMsgs_def, simp_all add: account_defs)

lemma recieveMsgs_fields [simp]:
  "siteInfo (recieveMsgs quit sv now m r) = siteInfo r" "senders (recieveMsgs quit sv now m r) = senders r"
  "income (recieveMsgs quit sv now m r) = income r" "others (recieveMsgs quit sv now m r) = others r"
  by (simp_all add: recieveMsgs_def split: option.splits) (simp_all add: others_def income_def)

lemma recieveMsgs_ok:
  assumes "site_ok r" "\<not> receiver_returned r" "\<And>i. sv = Saved i \<Longrightarrow> i \<notin> db_ID ` set (rs_db r)"
  shows "site_ok (recieveMsgs quit sv now m r)"
  using assms storeMsg_ok[of r sv now]
  by (auto simp: recieveMsgs_def split: option.splits) (auto simp: site_ok_def for_site_def shutdown_losses_def)

lemma sendMsg_cases:
  assumes "sendMsg w oks k m r = Inr (r', sent)" "k < length (senders r)"
  shows "account r' = account r + (if sent then non_nil [m] else {#}) \<and> rs_db r' = rs_db r \<and> siteInfo r' = siteInfo r \<and>
    length (senders r') = length (senders r) \<and> flight (senders r' ! k) = flight (senders r ! k) \<and>
    income r' = income r \<and> site_ok r' = site_ok r"
proof -
  obtain s' ns where s: "r' = r\<lparr>rs_notified := rs_notified r @ ns, senders := (senders r)[k := s']\<rparr>"
    "flight s' = flight (senders r ! k)" "mset (map fst ns) = (if sent then non_nil [m] else {#})"
    "\<forall>x. (x, DeliveryReport_FAILED) \<notin> set ns"
    using assms by (fastforce simp: sendMsg_def Let_def rbind_eq_Inr split: if_splits option.splits)
  have "in_flight (r\<lparr>senders := (senders r)[k := s']\<rparr>) = in_flight r"
    using in_flight_update[OF assms(2), of s'] s(2) by simp
  then have "in_flight r' = in_flight r" by (simp add: s(1) in_flight_def)
  then show ?thesis
    using assms(2) s
    by (auto simp: account_def kept_def settled_def for_site_def site_ok_def shutdown_losses_def income_def)
qed

lemma send_or_store_cases:
  assumes "send_or_store w oks sv now k m r = Inr r'" "k < length (senders r)"
  shows "account r' = account r + non_nil [m] \<and> siteInfo r' = siteInfo r \<and> length (senders r') = length (senders r) \<and>
    flight (senders r' ! k) = flight (senders r ! k) \<and> income r' = income r \<and> others r' = others r"
    and "site_ok r \<Longrightarrow> (\<And>i. sv = Saved i \<Longrightarrow> i \<notin> db_ID ` set (rs_db r)) \<Longrightarrow> site_ok r'"
proof -
  obtain r1 sent where r1: "sendMsg w oks k m r = Inr (r1, sent)"
    "if sent then r' = r1 else (\<exists>x. m = Some x \<and> r' = storeMsg sv now x
       (r1\<lparr>senders := (senders r1)[k := (senders r1 ! k)\<lparr>numSaved := numSaved (senders r1 ! k) + 1\<rparr>]\<rparr>))"
    using assms(1) by (fastforce simp: send_or_store_def rbind_eq_Inr Let_def split: if_splits option.splits)
  note c = sendMsg_cases[OF r1(1) assms(2)]
  define r2 where "r2 = r1\<lparr>senders := (senders r1)[k := (senders r1 ! k)\<lparr>numSaved := numSaved (senders r1 ! k) + 1\<rparr>]\<rparr>"
  have "in_flight r2 = in_flight r1"
    using in_flight_update[of k r1 "(senders r1 ! k)\<lparr>numSaved := numSaved (senders r1 ! k) + 1\<rparr>"] c assms(2)
    by (simp add: r2_def)
  then have r2: "account r2 = account r1" "site_ok r2 = site_ok r1" "siteInfo r2 = siteInfo r1" "others r2 = others r1"
    "length (senders r2) = length (senders r1)" "income r2 = income r1" "rs_db r2 = rs_db r1"
    by (simp_all add: account_def kept_def settled_def for_site_def r2_def site_ok_def others_def income_def shutdown_losses_def)
  have o: "others r1 = others r" "flight (senders r2 ! k) = flight (senders r1 ! k)"
    using c assms(2) by (simp_all add: others_def r2_def)
  show "account r' = account r + non_nil [m] \<and> siteInfo r' = siteInfo r \<and> length (senders r') = length (senders r) \<and>
    flight (senders r' ! k) = flight (senders r ! k) \<and> income r' = income r \<and> others r' = others r"
    using r1(2)[folded r2_def] c r2 o assms(2) by (cases sent) auto
  show "site_ok r'" if "site_ok r" "\<And>i. sv = Saved i \<Longrightarrow> i \<notin> db_ID ` set (rs_db r)"
    using r1(2)[folded r2_def] c r2 that storeMsg_ok[of r2 sv now] by (cases sent) auto
qed

lemma RmBson_for_site:
  assumes "distinct (map db_ID db)" "m \<in> set (filter P db)"
  shows "mset (filter P (RmBson (db_ID m) db)) + {#m#} = mset (filter P db)"
    and "\<not> Q m \<Longrightarrow> filter Q (RmBson (db_ID m) db) = filter Q db"
    and "distinct (map db_ID (RmBson (db_ID m) db))"
proof -
  have iff: "db_ID x \<noteq> db_ID m \<longleftrightarrow> x \<noteq> m" if "x \<in> set db" for x
    using assms that by (auto simp: distinct_map dest: inj_onD)
  have rm: "RmBson (db_ID m) db = filter (\<lambda>x. x \<noteq> m) db"
    unfolding RmBson_def by (rule filter_cong[OF refl]) (use iff in auto)
  have "distinct db" using assms(1) by (simp add: distinct_map)
  then have "RmBson (db_ID m) db = remove1 m db"
    by (simp add: rm distinct_remove1_removeAll removeAll_filter_not_eq)
      (metis (full_types) neq_commute)
  then have "filter P (RmBson (db_ID m) db) = remove1 m (filter P db)"
    using assms(2) by (simp add: filter_remove1)
  with assms(2) show "mset (filter P (RmBson (db_ID m) db)) + {#m#} = mset (filter P db)"
    by (simp add: insert_DiffM)
  show "filter Q (RmBson (db_ID m) db) = filter Q db" if "\<not> Q m"
    unfolding rm filter_filter by (rule filter_cong) (use that in auto)
  show "distinct (map db_ID (RmBson (db_ID m) db))"
    using assms(1) by (simp add: RmBson_def distinct_map_filter)
qed

lemma remove_document:
  assumes "site_ok r" "m \<in> set (for_site r)"
  shows "account (r\<lparr>rs_db := RmBson (db_ID m) (rs_db r)\<rparr>) + {#db_Msg m#} = account r"
    and "others (r\<lparr>rs_db := RmBson (db_ID m) (rs_db r)\<rparr>) = others r"
    and "site_ok (r\<lparr>rs_db := RmBson (db_ID m) (rs_db r)\<rparr>)"
proof -
  let ?P = "\<lambda>x. SiteDest x = si_Id (siteInfo r)"
  have d: "distinct (map db_ID (rs_db r))" "m \<in> set (filter ?P (rs_db r))"
    using assms by (simp_all add: site_ok_def for_site_def)
  have "image_mset db_Msg (mset (filter ?P (RmBson (db_ID m) (rs_db r)))) + {#db_Msg m#} =
      image_mset db_Msg (mset (filter ?P (rs_db r)))"
    by (subst RmBson_for_site(1)[OF d, symmetric]) simp
  then show "account (r\<lparr>rs_db := RmBson (db_ID m) (rs_db r)\<rparr>) + {#db_Msg m#} = account r"
    by (simp add: account_def kept_def settled_def in_flight_def for_site_def ac_simps)
  show "others (r\<lparr>rs_db := RmBson (db_ID m) (rs_db r)\<rparr>) = others r"
    using RmBson_for_site(2)[OF d, of "\<lambda>x. SiteDest x \<noteq> si_Id (siteInfo r)"] d(2) by (simp add: others_def)
  show "site_ok (r\<lparr>rs_db := RmBson (db_ID m) (rs_db r)\<rparr>)"
    using assms(1) RmBson_for_site(3)[OF d] by (auto simp: site_ok_def for_site_def RmBson_def shutdown_losses_def)
qed

lemma lost_account [simp]:
  "account (r\<lparr>lost := (c, m) # lost r\<rparr>) = account r + {#m#}" "others (r\<lparr>lost := l\<rparr>) = others r"
  "c \<noteq> ShutDown \<Longrightarrow> site_ok (r\<lparr>lost := (c, m) # lost r\<rparr>) = site_ok r" "income (r\<lparr>lost := l\<rparr>) = income r"
  by (simp_all add: account_defs others_def site_ok_def shutdown_losses_def income_def)

lemma resent_account [simp]:
  "account (r\<lparr>resent := l\<rparr>) = account r" "others (r\<lparr>resent := l\<rparr>) = others r" "site_ok (r\<lparr>resent := l\<rparr>) = site_ok r"
  by (simp_all add: account_defs others_def site_ok_def shutdown_losses_def)

lemma sendStoredMsgs_step:
  assumes "k < length (senders r)" "w_pc (senders r ! k) = CheckStored" "site_ok r"
    and "mset found = mset (for_site r) \<or> found = []" "r' = sendStoredMsgs um removed found k r"
  shows "account r' + income r = account r + income r' \<and> others r' = others r \<and> site_ok r' \<and> siteInfo r' = siteInfo r"
proof -
  have idle: "flight (senders r ! k) = {#}" using assms(2) by (simp add: flight_def)
  note pc = set_pc_account[of k r, OF assms(1), unfolded idle]
  show ?thesis
  proof (cases found)
    case Nil
    then show ?thesis using pc[of AtWorkerSelect] assms(3,5) by (simp add: sendStoredMsgs_def)
  next
    case (Cons m rest)
    then have m: "m \<in> set (for_site r)" using assms(4) by (metis list.distinct(1) list.set_intros(1) mset_eq_setD)
    define r1 where "r1 = r\<lparr>rs_db := RmBson (db_ID m) (rs_db r)\<rparr>"
    note r1 = remove_document[OF assms(3) m, folded r1_def]
    have s: "senders r1 = senders r" "siteInfo r1 = siteInfo r" "income r1 = income r" "lost r1 = lost r"
      by (simp_all add: r1_def income_def)
    define r2 where "r2 = r1\<lparr>lost := (NotDecoded, db_Msg m) # lost r1\<rparr>"
    have "site_ok r2"
      unfolding r2_def using r1(3) lost_account(3)[where c = NotDecoded and m = "db_Msg m" and r = r1] by blast
    then have r2: "site_ok r2" "account r2 = account r" "others r2 = others r" "senders r2 = senders r" "siteInfo r2 = siteInfo r" "income r2 = income r"
      unfolding r2_def lost_account(1,2,4) using r1 by (simp_all add: s)
    have eq: "r\<lparr>rs_db := RmBson (db_ID m) (rs_db r), lost := (NotDecoded, db_Msg m) # lost r\<rparr> = r2" by (simp add: r2_def r1_def)
    show ?thesis
    proof (cases um)
      case Unmarshalled
      define r3 where "r3 = r\<lparr>resent := db_Msg m # resent r\<rparr>"
      have r3: "account r3 = account r" "others r3 = others r" "site_ok r3" "senders r3 = senders r" "siteInfo r3 = siteInfo r"
        "income r3 = income r + {#db_Msg m#}" unfolding r3_def using assms(3) by (simp_all add: income_def)
      show ?thesis
        using Unmarshalled Cons r1 s r3 assms(1,5) idle
          set_pc_account[of k r1 "SendingStored (db_Msg m)"] set_pc_account[of k r3 "SendingStored (db_Msg m)"]
        by (cases removed) (simp_all add: sendStoredMsgs_def r1_def[symmetric] r3_def[symmetric])
    next
      case (Undecodable b)
      then show ?thesis
        using Cons r2 set_pc_account[of k r2 AtWorkerSelect] pc[of AtWorkerSelect] assms(1,3,5) idle
        by (cases "b \<and> removed") (simp_all add: sendStoredMsgs_def eq)
    qed
  qed
qed

lemma sstep_account:
  assumes "sstep w r r'" "site_ok r"
  shows "account r' + income r = account r + income r' \<and> site_ok r' \<and> others r' = others r \<and> siteInfo r' = siteInfo r"
  using assms(1)
proof (cases rule: sstep.cases)
  case (hand msg)
  then show ?thesis using assms(2) by (simp add: account_defs site_ok_def others_def income_def shutdown_losses_def)
next
  case (recieve msg rest sv quit now)
  define r1 where "r1 = r\<lparr>toRemote := rest\<rparr>"
  have "account r = account r1 + {#msg#}" "site_ok r1" "others r1 = others r" "rs_db r1 = rs_db r" "siteInfo r1 = siteInfo r"
    "income r1 = income r" "\<not> receiver_returned r1"
    using recieve assms(2) by (simp_all add: r1_def account_defs site_ok_def others_def income_def shutdown_losses_def)
  then show ?thesis
    using recieve recieveMsgs_ok[of r1 sv quit now "Some msg"] unfolding r1_def[symmetric] by simp
next
  case (recieve_nil quit sv now)
  have "recieveMsgs quit sv now None r = recieveMsgs quit SaveError now None r"
    by (simp add: recieveMsgs_def)
  with recieve_nil assms(2) recieveMsgs_ok[of r SaveError quit now None] show ?thesis by simp
next
  case receiver_done
  then show ?thesis
    using assms(2) by (auto simp: account_defs site_ok_def others_def income_def shutdown_losses_def split: if_splits)
next
  case (stored k found um removed)
  then show ?thesis using sendStoredMsgs_step[OF stored(2,3) assms(2) stored(4,1)] by blast
next
  case (tick k)
  then show ?thesis using set_pc_account[of k r CheckStored] assms(2) by (simp add: flight_def)
next
  case (worker_done k)
  then show ?thesis using set_pc_account[of k r WorkerReturned] assms(2) by (simp add: flight_def)
next
  case (take_queued k msg rest)
  define r1 where "r1 = r\<lparr>internalSend := rest\<rparr>"
  have "account r = account r1 + non_nil [msg]"
    using take_queued by (cases msg) (simp_all add: account_defs r1_def)
  moreover have "site_ok r1" "others r1 = others r" "income r1 = income r" "siteInfo r1 = siteInfo r" "senders r1 = senders r"
    using take_queued assms(2) by (simp_all add: r1_def site_ok_def others_def for_site_def income_def shutdown_losses_def)
  ultimately show ?thesis
    using take_queued set_pc_account[of k r1 "SendingQueued msg"] unfolding r1_def[symmetric] by (simp add: flight_def)
next
  case (sent_stored k msg sv oks now ra)
  note c = send_or_store_cases[OF sent_stored(5,2)]
  have "flight (senders ra ! k) = {#msg#}" using c(1) sent_stored(3) by (simp add: flight_def)
  then show ?thesis
    using c sent_stored assms(2) set_pc_account[of k ra AtWorkerSelect] by simp
next
  case (sent_queued k msg sv oks now ra)
  note c = send_or_store_cases[OF sent_queued(5,2)]
  have "flight (senders ra ! k) = non_nil [msg]" using c(1) sent_queued(3) by (simp add: flight_def)
  then show ?thesis
    using c sent_queued assms(2) set_pc_account[of k ra CheckStored] by simp
next
  case (stored_panicked k msg oks sv now f s)
  then show ?thesis
    using assms(2) after_panic_step[of k "r\<lparr>lost := (Panicked, msg) # lost r\<rparr>" s] by (simp add: flight_def)
next
  case (queued_panicked k msg oks sv now f s)
  then show ?thesis
    using assms(2) after_panic_step[of k "r\<lparr>lost := (Panicked, msg) # lost r\<rparr>" s] by (simp add: flight_def)
next
  case (nil_panicked k oks sv now f s)
  then show ?thesis using assms(2) after_panic_step[of k r s] by (simp add: flight_def)
next
  case (reconnect k j pack_reg ok dial handshake d)
  then show ?thesis
    using in_flight_update[of k r "(senders r ! k)\<lparr>deliverers := (deliverers (senders r ! k))[j := d]\<rparr>"] assms(2)
    by (simp add: account_def kept_def settled_def for_site_def site_ok_def others_def income_def shutdown_losses_def)
next
  case cancel
  then show ?thesis using assms(2) by (simp add: account_defs site_ok_def others_def income_def shutdown_losses_def)
next
  case close
  then show ?thesis using assms(2) by (simp add: account_defs site_ok_def others_def income_def shutdown_losses_def)
qed

text \<open>C2. In every interleaving of the router, the receiver, the send workers and the reconnecting goroutines of a
  remote site, failures of the database and the shutdown of the daemon included, every message is accounted for. The
  messages handed to the site and those found in the database at the start, together with one more copy of each message
  whose removal from the database failed when it was taken from there to be sent, are as a multiset exactly those
  waiting in a queue or the database, those being sent, those for which \<^verbatim>\<open>NotifyMessage\<close> was called (as sent, or as
  failed, which happens to real-time messages only) and those given up: because saving failed, a document could not be
  decoded, the worker panicked, or the receiver saw the shutdown with the message in hand, which happens at most once
  and only after the group was cancelled. No real-time message is ever stored, and the documents of other sites are
  untouched.\<close>
theorem remote_site_conserves:
  assumes "NewRemoteSite pki lcl cfg si routes rnd db siMsg = Inr r0" "(sstep w)\<^sup>*\<^sup>* r0 r"
    and "distinct (map db_ID db)" "\<forall>x\<in>set db. \<not> RealTime (db_Msg x)"
  shows "mset (handed r) + mset (map db_Msg (for_site r0)) + mset (resent r) =
      mset (toRemote r) + non_nil (internalSend r) + mset (map db_Msg (for_site r)) + in_flight r +
      mset (map fst (rs_notified r)) + mset (map snd (lost r)) \<and>
    (\<forall>m. (m, DeliveryReport_FAILED) \<in> set (rs_notified r) \<longrightarrow> RealTime m) \<and>
    (\<forall>x\<in>set (for_site r). \<not> RealTime (db_Msg x)) \<and>
    length (shutdown_losses r) \<le> (if rs_canceled r then 1 else 0) \<and>
    others r = others r0 \<and> length (internalSend r) \<le> MsgBuffer"
proof -
  have nw: "new_workers pki lcl cfg routes rnd n = Inr ss \<Longrightarrow> sum_list (map flight ss) = {#}" for n ss
    by (induction n arbitrary: ss) (auto simp: rbind_eq_Inr NewSendWorker_def flight_def)
  obtain ss where r0: "r0 = \<lparr>siteInfo = si, toRemote = [siMsg], internalSend = [], rs_db = db, senders = ss,
      rs_canceled = False, rs_closed = False, receiver_returned = False,
      rs_notified = [], handed = [siMsg], resent = [], lost = []\<rparr>" "sum_list (map flight ss) = {#}"
    using assms(1) nw by (auto simp: NewRemoteSite_def rbind_eq_Inr)
  have start: "account r0 = income r0 + mset (map db_Msg (for_site r0))" "site_ok r0"
    using r0(2) assms(3,4) by (auto simp: r0(1) account_defs site_ok_def income_def shutdown_losses_def)
  have "account r + income r0 = account r0 + income r \<and> site_ok r \<and> others r = others r0"
    using assms(2)
  proof induction
    case (step ra rb)
    then have "(account rb + income r0) + income ra = (account r0 + income rb) + income ra"
      using sstep_account[OF step(2)] by (metis (no_types, lifting) add.assoc add.commute)
    then show ?case using step sstep_account[OF step(2)] by auto
  qed (use start in simp)
  then have eq: "account r + income r0 = mset (map db_Msg (for_site r0)) + income r + income r0"
    and ok: "site_ok r" and oth: "others r = others r0"
    using start(1) by (auto simp: ac_simps)
  from eq have "account r = mset (map db_Msg (for_site r0)) + income r" by simp
  then have "mset (handed r) + mset (map db_Msg (for_site r0)) + mset (resent r) =
      mset (toRemote r) + non_nil (internalSend r) + mset (map db_Msg (for_site r)) + in_flight r +
      mset (map fst (rs_notified r)) + mset (map snd (lost r))"
    by (simp add: account_def kept_def settled_def income_def ac_simps)
  then show ?thesis
    using ok oth by (auto simp: site_ok_def split: if_splits)
qed

section \<open>Acknowledgements\<close>

lemma await_ack_True:
  "await_ack w i r = Inr (True, r') \<Longrightarrow>
   \<exists>ra resp. ReadTsiMessageExtended (w_sha w) (w_unzlib w) (w_unmarshal w) ra = (Inr resp, i, r') \<and>
     tm_Body resp = None \<and> tm_Status resp = TsiMessage_ACK \<and> length (coming ra) \<le> length (coming r)"
proof (induction w i r rule: await_ack.induct)
  case (1 w i r)
  obtain res ackid rb where rd: "ReadTsiMessageExtended (w_sha w) (w_unzlib w) (w_unmarshal w) r = (res, ackid, rb)"
    using prod_cases3 by blast
  show ?case
  proof (cases res)
    case (Inl f)
    with "1.prems" rd show ?thesis by (cases f) (auto simp: await_ack.simps[of w i r])
  next
    case (Inr resp)
    note rd' = rd[unfolded Inr]
    show ?thesis
    proof (cases "tm_Body resp = None")
      case True
      with "1.prems" rd' show ?thesis by (auto simp: await_ack.simps[of w i r] split: if_splits)
    next
      case False
      with "1.prems" rd' have "await_ack w i rb = Inr (True, r')" by (simp add: await_ack.simps[of w i r])
      with "1.IH"[OF rd'[symmetric] refl refl False] obtain ra rp where
        "ReadTsiMessageExtended (w_sha w) (w_unzlib w) (w_unmarshal w) ra = (Inr rp, i, r')"
        "tm_Body rp = None" "tm_Status rp = TsiMessage_ACK" "length (coming ra) \<le> length (coming rb)"
        by blast
      with read_consumes[OF rd'] show ?thesis by (intro exI[of _ ra] exI[of _ rp]) simp
    qed
  qed
qed

text \<open>A deliverer reports a message as delivered only if it was connected, wrote the frame of that message under a
  fresh id and read, after it, an acknowledgement of that very id; it stays connected exactly after such a
  delivery, and after a failure of a connected deliverer the route is reported down.\<close>
theorem Deliver_confirmed:
  assumes "Deliver w ok d (Some msg) = Inr (d', sent)"
  shows "nd_conn d' = sent \<and>
    (sent \<longrightarrow> nd_conn d \<and> nd_ctr d' = nd_ctr d + 1 \<and>
       (\<exists>whole. WriteTsiMessageExtended (w_sha w) (w_zlib w) (w_marshal w) msg \<lparr>op_ID = nd_ctr d, Compress = True\<rparr> = Inr whole \<and>
          nd_written d' = nd_written d @ whole) \<and>
       (\<exists>ra resp. ReadTsiMessageExtended (w_sha w) (w_unzlib w) (w_unmarshal w) ra = (Inr resp, nd_ctr d, nd_buf d') \<and>
          tm_Body resp = None \<and> tm_Status resp = TsiMessage_ACK)) \<and>
    (nd_conn d \<and> \<not> sent \<longrightarrow> nd_status d' = Some Route_DOWN)"
proof (cases "nd_conn d")
  case False
  then show ?thesis using assms by (simp add: Deliver_def)
next
  case True
  show ?thesis
  proof (cases "WriteTsiMessageExtended (w_sha w) (w_zlib w) (w_marshal w) msg \<lparr>op_ID = nd_ctr d, Compress = True\<rparr>")
    case (Inl e)
    then show ?thesis using assms True by (auto simp: Deliver_def Let_def kill_def)
  next
    case (Inr whole)
    show ?thesis
    proof (cases ok)
      case False
      then show ?thesis using assms True Inr by (auto simp: Deliver_def Let_def kill_def)
    next
      case ok: True
      obtain b r' where a: "await_ack w (nd_ctr d) (nd_buf d) = Inr (b, r')"
        using assms True Inr ok by (cases "await_ack w (nd_ctr d) (nd_buf d)") (auto simp: Deliver_def Let_def)
      show ?thesis
      proof (cases b)
        case b: True
        with assms True Inr ok a have d': "sent" "d' = d\<lparr>nd_ctr := nd_ctr d + 1, nd_written := nd_written d @ whole, nd_buf := r'\<rparr>"
          by (auto simp: Deliver_def Let_def)
        show ?thesis unfolding d'(2) using d'(1) True Inr await_ack_True[of w "nd_ctr d" "nd_buf d" r'] a b by auto
      next
        case False
        with assms True Inr ok a show ?thesis by (auto simp: Deliver_def Let_def kill_def)
      qed
    qed
  qed
qed

text \<open>What the peer's \<^verbatim>\<open>writeProcess\<close> puts on the connection: messages and acknowledgements, frame after frame.\<close>

fun peer_bytes :: "wire \<Rightarrow> (TsiMessage \<times> Opts) list \<Rightarrow> go_bytes res" where
  "peer_bytes w [] = Inr []"
| "peer_bytes w ((m, os) # ms) =
     rbind (WriteTsiMessageExtended (w_sha w) (w_zlib w) (w_marshal w) m os) (\<lambda>a.
     rbind (peer_bytes w ms) (\<lambda>b. Inr (a @ b)))"

definition wire_ok :: "wire \<Rightarrow> bool" where
  "wire_ok w = ((\<forall>x. length (w_sha w x) = 64) \<and> (\<forall>x. w_unzlib w (w_zlib w x) = Inr x) \<and>
     (\<forall>x y. w_marshal w x = Inr y \<longrightarrow> w_unmarshal w y = Inr x))"

definition frames_fit :: "wire \<Rightarrow> nat \<Rightarrow> (TsiMessage \<times> Opts) list \<Rightarrow> bool" where
  "frames_fit w bsz ms = (\<forall>(m, os) \<in> set ms. \<forall>whole.
     WriteTsiMessageExtended (w_sha w) (w_zlib w) (w_marshal w) m os = Inr whole \<longrightarrow> length whole \<le> bsz)"

lemma wire_read:
  assumes "wire_ok w" "WriteTsiMessageExtended (w_sha w) (w_zlib w) (w_marshal w) msg os = Inr whole"
    and "length whole \<le> bsz"
  shows "ReadTsiMessageExtended (w_sha w) (w_unzlib w) (w_unmarshal w) \<lparr>coming = whole @ rest, bufsize = bsz\<rparr> =
    (Inr msg, op_ID os, \<lparr>coming = rest, bufsize = bsz\<rparr>)"
  by (rule written_is_read[OF assms(2,3)]) (use assms(1) in \<open>simp_all add: wire_ok_def\<close>)

lemma await_ack_peer:
  assumes "wire_ok w" "\<forall>(m, os) \<in> set ms. tm_Body m \<noteq> None"
  shows "peer_bytes w (ms @ [(ack_message, \<lparr>op_ID = i, Compress = False\<rparr>)]) = Inr bs \<Longrightarrow>
    frames_fit w bsz (ms @ [(ack_message, \<lparr>op_ID = i, Compress = False\<rparr>)]) \<Longrightarrow>
    await_ack w i \<lparr>coming = bs @ rest, bufsize = bsz\<rparr> = Inr (True, \<lparr>coming = rest, bufsize = bsz\<rparr>)"
  using assms(2)
proof (induction ms arbitrary: bs)
  case Nil
  then have "WriteTsiMessageExtended (w_sha w) (w_zlib w) (w_marshal w) ack_message \<lparr>op_ID = i, Compress = False\<rparr> = Inr bs"
    by (auto simp: rbind_eq_Inr)
  from wire_read[OF assms(1) this, of bsz rest] Nil.prems(2) this show ?case
    by (subst await_ack.simps) (simp add: frames_fit_def ack_message_def)
next
  case (Cons mo ms)
  obtain m os where mo: "mo = (m, os)" by (cases mo)
  obtain a b where ab: "WriteTsiMessageExtended (w_sha w) (w_zlib w) (w_marshal w) m os = Inr a" "bs = a @ b"
    "peer_bytes w (ms @ [(ack_message, \<lparr>op_ID = i, Compress = False\<rparr>)]) = Inr b"
    using Cons.prems(1) by (auto simp: mo rbind_eq_Inr)
  have "tm_Body m \<noteq> None" using Cons.prems(3) by (simp add: mo)
  with wire_read[OF assms(1) ab(1), of bsz "b @ rest"] Cons.IH[OF ab(3)] Cons.prems(2,3) ab(1) show ?case
    by (subst await_ack.simps) (simp add: ab(2) mo frames_fit_def)
qed

text \<open>A connected deliverer whose message can be framed and whose peer answers, possibly after any number of messages
  of its own, with the acknowledgement of the id the deliverer used, in frames that fit the reader's buffer, delivers the message, skips exactly what the peer
  sent up to the acknowledgement, and keeps the connection. SHA-512, zlib and protobuf behave as documented (\<open>wire_ok\<close>).\<close>
theorem Deliver_acknowledged:
  assumes "wire_ok w" "nd_conn d"
    and "frames_fit w (bufsize (nd_buf d)) (ms @ [(ack_message, \<lparr>op_ID = nd_ctr d, Compress = False\<rparr>)])"
    and "WriteTsiMessageExtended (w_sha w) (w_zlib w) (w_marshal w) msg \<lparr>op_ID = nd_ctr d, Compress = True\<rparr> = Inr whole"
    and "peer_bytes w (ms @ [(ack_message, \<lparr>op_ID = nd_ctr d, Compress = False\<rparr>)]) = Inr bs"
    and "\<forall>(m, os) \<in> set ms. tm_Body m \<noteq> None" "coming (nd_buf d) = bs @ rest"
  shows "Deliver w True d (Some msg) =
    Inr (d\<lparr>nd_ctr := nd_ctr d + 1, nd_written := nd_written d @ whole, nd_buf := (nd_buf d)\<lparr>coming := rest\<rparr>\<rparr>, True)"
proof -
  have "nd_buf d = \<lparr>coming = bs @ rest, bufsize = bufsize (nd_buf d)\<rparr>" using assms(7) by simp
  with await_ack_peer[OF assms(1,6,5,3), of rest]
  have "await_ack w (nd_ctr d) (nd_buf d) = Inr (True, (nd_buf d)\<lparr>coming := rest\<rparr>)" by simp
  with assms(2,4) show ?thesis by (simp add: Deliver_def Let_def)
qed

section \<open>A sample connection and site\<close>

definition ex_wire :: wire where
  "ex_wire = \<lparr>w_sha = \<lambda>_. replicate 64 7, w_zlib = \<lambda>x. x, w_unzlib = Inr,
     w_marshal = (\<lambda>m. if m = ack_message then Inr [1] else if m = ex_msg then Inr [2] else Inl (Err ''marshal'')),
     w_unmarshal = (\<lambda>bs. if bs = [1] then Inr ack_message else if bs = [2] then Inr ex_msg else Inl (Err ''unmarshal''))\<rparr>"

definition ex_frame :: "64 word \<Rightarrow> octet \<Rightarrow> go_bytes" where
  "ex_frame i b = header_bytes \<lparr>MsgStart = MsgStartMagicNumber, MsgRandomId = i, MsgSize = 1\<rparr> @ [b] @
     footer_bytes \<lparr>ft_MsgRandomId = i, MsgSha512Hash = replicate 64 7\<rparr>"

definition ex_deliverer :: NetDeliverer where
  "ex_deliverer = (NewNetDeliverer ''tcp'' ''hq:31228'' \<lparr>Site = 7, Aid = 0, Eid = 0, Pid = 0\<rparr> 5)
     \<lparr>nd_conn := True, nd_buf := \<lparr>coming = ex_frame 5 1, bufsize = 4096\<rparr>\<rparr>"

lemma length_ex_frame: "length (ex_frame i b) = 97"
  using header_roundtrip(2) footer_roundtrip(2)[of "\<lparr>ft_MsgRandomId = i, MsgSha512Hash = replicate 64 7\<rparr>"]
  by (simp add: ex_frame_def HdrSize_def FtrSize_def)

lemma ex_write:
  assumes "w_marshal ex_wire m = Inr [b]"
  shows "WriteTsiMessageExtended (w_sha ex_wire) (w_zlib ex_wire) (w_marshal ex_wire) m \<lparr>op_ID = i, Compress = c\<rparr> = Inr (ex_frame i b)"
  using assms length_ex_frame[of i b] unfolding WriteTsiMessageExtended_def
  by (simp add: ex_wire_def ex_frame_def MaxMessageSize_def)

lemma ex_wire_ok: "wire_ok ex_wire"
  by (simp add: wire_ok_def ex_wire_def)

lemma ex_marshal: "w_marshal ex_wire ack_message = Inr [1]" "w_marshal ex_wire ex_msg = Inr [2]"
  by (simp_all add: ex_wire_def ack_message_def ex_msg_def)

lemma ex_peer: "peer_bytes ex_wire [(ack_message, \<lparr>op_ID = 5, Compress = False\<rparr>)] = Inr (ex_frame 5 1)"
  by (simp add: ex_write[OF ex_marshal(1)])

text \<open>Reading the sample message on a client channel, forwarding it, and acknowledging it.\<close>

abbreviation ex_istep :: "IOChannelState \<Rightarrow> IOChannelState \<Rightarrow> bool" where
  "ex_istep \<equiv> istep (w_sha ex_wire) (w_zlib ex_wire) (w_unzlib ex_wire) (w_marshal ex_wire) (w_unmarshal ex_wire) (\<lambda>_. Inl NilDeref)"

lemma ex_forwards: "forwards ex_msg"
  by (simp add: forwards_def dropped_def ex_msg_def)

text \<open>A client sends the message twice, under the identifiers 5 and 6; the router then takes the first.\<close>

lemma ex_channel_run:
  "\<exists>c. ex_istep\<^sup>*\<^sup>* (NewIOChannel (ex_frame 5 2 @ ex_frame 6 2)) c \<and> routed c = [ex_msg] \<and> toRouter c = [ex_msg] \<and>
     rpc c = Reading \<and> acks c = [] \<and> acked c = [5, 6] \<and> got c = [(5, ex_msg), (6, ex_msg)] \<and> \<not> canceled c"
proof -
  let ?c = "NewIOChannel (ex_frame 5 2 @ ex_frame 6 2)"
  have read: "ReadTsiMessageExtended (w_sha ex_wire) (w_unzlib ex_wire) (w_unmarshal ex_wire) (io_r c) =
      (Inr ex_msg, i, \<lparr>coming = rest, bufsize = nat MaxMessageSize\<rparr>)"
    if "io_r c = \<lparr>coming = ex_frame i 2 @ rest, bufsize = nat MaxMessageSize\<rparr>" for c i rest
    using wire_read[OF ex_wire_ok ex_write[OF ex_marshal(2), of i True], of "nat MaxMessageSize" rest] that
    by (simp add: length_ex_frame MaxMessageSize_def)
  note run = channel_run[OF read ex_forwards ex_write[OF ex_marshal(1)], of _ _ _ "\<lambda>_. Inl NilDeref"]
  have "io_r ?c = \<lparr>coming = ex_frame 5 2 @ ex_frame 6 2, bufsize = nat MaxMessageSize\<rparr>" by (simp add: NewIOChannel_def)
  from run[OF this] obtain c1 where c1: "ex_istep\<^sup>*\<^sup>* ?c c1" "rpc c1 = Reading" "\<not> canceled c1" "toRouter_open c1" "acks c1 = []"
    "io_r c1 = \<lparr>coming = ex_frame 6 2 @ [], bufsize = nat MaxMessageSize\<rparr>" "routed c1 = []" "toRouter c1 = [ex_msg]"
    "acked c1 = [5]" "got c1 = [(5, ex_msg)]"
    by (auto simp: NewIOChannel_def toRouter_cap_def)
  from run[OF c1(6)] obtain c2 where c2: "ex_istep\<^sup>*\<^sup>* c1 c2" "rpc c2 = Reading" "\<not> canceled c2" "acks c2 = []" "routed c2 = []"
    "toRouter c2 = [ex_msg, ex_msg]" "acked c2 = [5, 6]" "got c2 = [(5, ex_msg), (6, ex_msg)]"
    using c1 by (auto simp: toRouter_cap_def)
  have "ex_istep c2 (c2\<lparr>toRouter := [ex_msg], routed := [ex_msg]\<rparr>)"
    using istep.taken[of c2 ex_msg "[ex_msg]" "w_sha ex_wire"] c2(5,6) by simp
  with c1(1) c2(1) have "ex_istep\<^sup>*\<^sup>* ?c (c2\<lparr>toRouter := [ex_msg], routed := [ex_msg]\<rparr>)" by simp
  with c2 show ?thesis by (intro exI[of _ "c2\<lparr>toRouter := [ex_msg], routed := [ex_msg]\<rparr>"]) simp
qed

theorem io_channel_in_order_witness:
  "\<exists>c. ex_istep\<^sup>*\<^sup>* (NewIOChannel (ex_frame 5 2 @ ex_frame 6 2)) c \<and> \<not> canceled c \<and>
     acked c = [5, 6] \<and> routed c = [ex_msg] \<and> toRouter c = [ex_msg] \<and>
     acked c @ acks c @ pending_id (rpc c) = map fst (got c) \<and>
     routed c @ toRouter c @ pending_msg (rpc c) = filter forwards (map snd (got c)) \<and> length (toRouter c) \<le> toRouter_cap"
proof -
  obtain c where c: "ex_istep\<^sup>*\<^sup>* (NewIOChannel (ex_frame 5 2 @ ex_frame 6 2)) c" "\<not> canceled c"
    "acked c = [5, 6]" "routed c = [ex_msg]" "toRouter c = [ex_msg]"
    using ex_channel_run by blast
  from io_channel_in_order[OF c(1)] c show ?thesis by blast
qed

theorem Deliver_acknowledged_witness:
  "Deliver ex_wire True ex_deliverer (Some ex_msg) =
    Inr (ex_deliverer\<lparr>nd_ctr := 6, nd_written := ex_frame 5 2, nd_buf := \<lparr>coming = [], bufsize = 4096\<rparr>\<rparr>, True)"
proof -
  have "frames_fit ex_wire 4096 [(ack_message, \<lparr>op_ID = 5, Compress = False\<rparr>)]"
    by (simp add: frames_fit_def ex_write[OF ex_marshal(1)] length_ex_frame)
  with Deliver_acknowledged[OF ex_wire_ok, of ex_deliverer "[]" ex_msg "ex_frame 5 2" "ex_frame 5 1" "[]"]
    ex_peer ex_write[OF ex_marshal(2)]
  show ?thesis by (simp add: ex_deliverer_def NewNetDeliverer_def)
qed

lemma ex_Deliver: "Deliver ex_wire False ex_deliverer (Some ex_msg) = Inr (kill (ex_deliverer\<lparr>nd_ctr := 6\<rparr>), False)"
  by (simp add: Deliver_def ex_write[OF ex_marshal(2)] ex_deliverer_def NewNetDeliverer_def Let_def)

theorem Deliver_confirmed_witness: "\<not> nd_conn (kill (ex_deliverer\<lparr>nd_ctr := 6\<rparr>))"
  using Deliver_confirmed[OF ex_Deliver] by simp

text \<open>A site without routes, whose first worker takes the service info from the queue and has to store it.\<close>

definition ex_site :: RemoteState where
  "ex_site = \<lparr>siteInfo = \<lparr>si_Id = 9, si_Name = ''b''\<rparr>, toRemote = [empty_message], internalSend = [], rs_db = [],
     senders = replicate 5 \<lparr>deliverers = [], numSent = 0, numSaved = 0, numNotSent = 0, w_pc = CheckStored\<rparr>,
     rs_canceled = False, rs_closed = False, receiver_returned = False,
     rs_notified = [], handed = [empty_message], resent = [], lost = []\<rparr>"

lemma ex_NewRemoteSite:
  "NewRemoteSite (\<lambda>_. Inr ()) \<lparr>Site = 7, Aid = 0, Eid = 0, Pid = 0\<rparr> \<lparr>CA = [], Cert = [], PrivKey = []\<rparr>
     \<lparr>si_Id = 9, si_Name = ''b''\<rparr> [] (\<lambda>_ _. 0) [] empty_message = Inr ex_site"
  by (simp add: NewRemoteSite_def NumConnections_def NewSendWorker_def ex_site_def eval_nat_numeral)

text \<open>The first worker finds no document, takes the message from the queue, cannot send it and stores it.\<close>

definition ex_queued :: RemoteState where
  "ex_queued = recieveMsgs False SaveError 0 (Some empty_message) (ex_site\<lparr>toRemote := []\<rparr>)"

definition ex_waiting :: RemoteState where
  "ex_waiting = sendStoredMsgs Unmarshalled True [] 0 ex_queued"

definition ex_taken :: RemoteState where
  "ex_taken = set_pc 0 (SendingQueued (Some empty_message)) (ex_waiting\<lparr>internalSend := []\<rparr>)"

definition ex_stored :: RemoteState where
  "ex_stored = set_pc 0 CheckStored (storeMsg (Saved 1) 0 empty_message
     (ex_taken\<lparr>senders := (senders ex_taken)[0 := (senders ex_taken ! 0)\<lparr>numNotSent := 1, numSaved := 1\<rparr>]\<rparr>))"

text \<open>Two workers then take the document, because the first one's removal fails.\<close>

definition ex_resent :: RemoteState where
  "ex_resent = sendStoredMsgs Unmarshalled True (rs_db ex_stored) 1
     (sendStoredMsgs Unmarshalled False (rs_db ex_stored) 0 ex_stored)"

lemmas ex_run_defs = ex_resent_def ex_stored_def ex_taken_def ex_waiting_def ex_queued_def ex_site_def sendStoredMsgs_def
  recieveMsgs_def storeMsg_def set_pc_def MsgBuffer_def RmBson_def for_site_def eval_nat_numeral empty_message_def

lemma ex_site_run: "(sstep ex_wire)\<^sup>*\<^sup>* ex_site ex_resent"
proof -
  have 1: "sstep ex_wire ex_site ex_queued"
    unfolding ex_queued_def by (rule sstep.recieve) (simp_all add: ex_site_def)
  have 2: "sstep ex_wire ex_queued ex_waiting"
    unfolding ex_waiting_def by (rule sstep.stored) (simp_all add: ex_run_defs)
  have 3: "sstep ex_wire ex_waiting ex_taken"
    unfolding ex_taken_def by (rule sstep.take_queued) (simp_all add: ex_run_defs)
  have 4: "sstep ex_wire ex_taken ex_stored"
    unfolding ex_stored_def
    by (rule sstep.sent_queued[where sv = "Saved 1" and oks = "[]" and now = 0 and msg = "Some empty_message"])
      (simp_all add: send_or_store_def sendMsg_def ex_run_defs)
  have 5: "sstep ex_wire ex_stored (sendStoredMsgs Unmarshalled False (rs_db ex_stored) 0 ex_stored)"
    by (rule sstep.stored) (simp_all add: ex_run_defs)
  have 6: "sstep ex_wire (sendStoredMsgs Unmarshalled False (rs_db ex_stored) 0 ex_stored) ex_resent"
    unfolding ex_resent_def by (rule sstep.stored) (simp_all add: ex_run_defs)
  show ?thesis using 1 2 3 4 5 6 by (meson converse_rtranclp_into_rtranclp rtranclp.rtrancl_refl)
qed

theorem remote_site_conserves_witness:
  "(sstep ex_wire)\<^sup>*\<^sup>* ex_site ex_resent \<and> rs_db ex_resent = [] \<and> in_flight ex_resent = {#empty_message, empty_message#} \<and>
   mset (handed ex_resent) + mset (map db_Msg (for_site ex_site)) + mset (resent ex_resent) =
     mset (toRemote ex_resent) + non_nil (internalSend ex_resent) + mset (map db_Msg (for_site ex_resent)) + in_flight ex_resent +
     mset (map fst (rs_notified ex_resent)) + mset (map snd (lost ex_resent)) \<and> shutdown_losses ex_resent = []"
proof -
  have "rs_db ex_resent = []" "\<not> rs_canceled ex_resent" by (simp_all add: ex_run_defs)
  moreover have "in_flight ex_resent = {#empty_message, empty_message#}"
    by (simp add: in_flight_def ex_run_defs flight_def)
  ultimately show ?thesis using ex_site_run remote_site_conserves[OF ex_NewRemoteSite ex_site_run] by simp
qed

text \<open>A message in the receiver's hand at the shutdown is lost: neither queued, stored nor reported.\<close>
theorem shutdown_loses_message:
  "\<exists>r. (sstep ex_wire)\<^sup>*\<^sup>* ex_site r \<and> toRemote r = [] \<and> internalSend r = [] \<and> rs_db r = [] \<and> in_flight r = {#} \<and>
     rs_notified r = [] \<and> lost r = [(ShutDown, empty_message)]"
proof -
  define r1 where "r1 = ex_site\<lparr>rs_canceled := True\<rparr>"
  define r where "r = recieveMsgs True SaveError 0 (Some empty_message) (r1\<lparr>toRemote := []\<rparr>)"
  have "sstep ex_wire ex_site r1" unfolding r1_def by (rule sstep.cancel)
  moreover have "sstep ex_wire r1 r"
    unfolding r_def by (rule sstep.recieve) (simp_all add: r1_def ex_site_def)
  ultimately have "(sstep ex_wire)\<^sup>*\<^sup>* ex_site r" by (meson converse_rtranclp_into_rtranclp rtranclp.rtrancl_refl)
  moreover have "in_flight r = {#}" by (simp add: in_flight_def r_def r1_def recieveMsgs_def ex_site_def flight_def eval_nat_numeral)
  ultimately show ?thesis by (intro exI[of _ r]) (simp add: r_def r1_def recieveMsgs_def ex_site_def)
qed

end
