(* ===== verification/Viewport.thy ===== *)
theory Viewport
  imports Prisma_Prelude
begin

text \<open>
  \<^verbatim>\<open>tms/db/viewport.go\<close>: the part of a feature view one client sees. The viewport tracks which features lie
  within its bounds, counts them, sends the changes to the client and switches to a heat map when too many are visible.

  A feature has a geometry of type \<open>'g\<close>, bounds are of type \<open>'b\<close>; the floating-point geometry (\<open>isect\<close> for
  \<^verbatim>\<open>IntersectsBBox\<close>, \<open>cell_of\<close> for \<^verbatim>\<open>PointToCell\<close>) is a parameter, collected with the two thresholds of the view in \<open>view\<close>.
  The features of the view are the list \<open>vw_features\<close> in the order of \<^verbatim>\<open>Scan\<close>. The messages sent to the client are \<open>out\<close>.

  Starting a heat map may stop it at once, which recounts the features and may start it again: \<open>sendHeatmap\<close> takes the
  number of nested calls allowed; \<open>None\<close> means that it needs more.
\<close>

section \<open>Features and updates\<close>

datatype prop_value = PStr string | POther

datatype 'g geometry = Point 'g | OtherGeometry 'g

record 'g feature =
  f_ID :: string
  f_mmsi :: "prop_value option"
  f_type :: "prop_value option"
  f_geom :: "'g geometry"

datatype vstatus =
  Status_Current | Status_Timeout | Status_LeftGeoRange | Status_HeatmapStart | Status_HeatmapStop | Status_Heatmap |
  Status_CountOnly | Status_Other

type_synonym cell = "int \<times> int"

record 'g feature_update =
  fu_Status :: vstatus
  fu_Feature :: "'g feature option"
  fu_Heatmap :: "(cell \<times> nat) list"
  fu_Counts :: "int \<times> int"

record ('g, 'b) view =
  vw_features :: "'g feature list"
  startHeatmapCount :: int
  stopHeatmapCount :: int
  isect :: "'g geometry \<Rightarrow> 'b \<Rightarrow> bool"
  cell_of :: "'g \<Rightarrow> 'b \<Rightarrow> cell"

record ('g, 'b) viewport =
  Count :: int
  Total :: int
  vbounds :: 'b
  Visible :: "string \<rightharpoonup> bool"
  heatmapActive :: bool
  timer :: bool
  prevCount :: int
  prevTotal :: int
  out :: "'g feature_update list"
  vdone :: bool

definition NewViewport :: "'b \<Rightarrow> ('g, 'b) viewport" where
  "NewViewport b0 = \<lparr>Count = 0, Total = 0, vbounds = b0, Visible = Map.empty, heatmapActive = False, timer = False,
                    prevCount = 0, prevTotal = 0, out = [], vdone = False\<rparr>"

definition inHeatmap :: "'g feature \<Rightarrow> bool" where
  "inHeatmap f =
     (case f_mmsi f of
        Some (PStr mmsi) \<Rightarrow> take 2 mmsi \<noteq> ''97''
      | Some POther \<Rightarrow> False
      | None \<Rightarrow> (case f_type f of Some (PStr t) \<Rightarrow> t = ''track:Radar'' | _ \<Rightarrow> False))"

definition shouldCount :: "'g feature \<Rightarrow> bool" where
  "shouldCount f = (case f_type f of Some (PStr t) \<Rightarrow> t \<noteq> ''zones'' | _ \<Rightarrow> False)"

definition upd :: "vstatus \<Rightarrow> 'g feature option \<Rightarrow> 'g feature_update" where
  "upd st f = \<lparr>fu_Status = st, fu_Feature = f, fu_Heatmap = [], fu_Counts = (0, 0)\<rparr>"

definition vsend :: "'g feature_update \<Rightarrow> ('g, 'b) viewport \<Rightarrow> ('g, 'b) viewport" where
  "vsend u v =
     (let v1 = v\<lparr>prevTotal := Total v, prevCount := Count v\<rparr> in
      if vdone v then v1 else v1\<lparr>out := out v @ [u\<lparr>fu_Counts := (Total v, Count v)\<rparr>]\<rparr>)"

section \<open>The heat map\<close>

fun count_cell :: "cell \<Rightarrow> (cell \<times> nat) list \<Rightarrow> (cell \<times> nat) list" where
  "count_cell c [] = [(c, 1)]"
| "count_cell c ((c', k) # cs) = (if c = c' then (c', k + 1) # cs else (c', k) # count_cell c cs)"

fun heat_scan ::
  "('g, 'b) view \<Rightarrow> 'b \<Rightarrow> 'g feature list \<Rightarrow> (cell \<times> nat) list \<Rightarrow> int \<Rightarrow> ((cell \<times> nat) list \<times> int) res"
where
  "heat_scan vw b [] cells tot = Inr (cells, tot)"
| "heat_scan vw b (f # fs) cells tot =
     (if inHeatmap f \<and> isect vw (f_geom f) b then
        (case f_geom f of
           Point g \<Rightarrow> heat_scan vw b fs (count_cell (cell_of vw g b) cells) (tot + 1)
         | OtherGeometry g \<Rightarrow> Inl (Panic ''interface conversion''))
      else heat_scan vw b fs cells tot)"

text \<open>The cells and the viewport, or nothing if there are too few features.\<close>

definition heatmap :: "('g, 'b) view \<Rightarrow> ('g, 'b) viewport \<Rightarrow> ((cell \<times> nat) list option \<times> ('g, 'b) viewport) res" where
  "heatmap vw v =
     rbind (heat_scan vw (vbounds v) (vw_features vw) [] 0) (\<lambda>(cells, tot).
       if tot \<le> stopHeatmapCount vw then Inr (None, v) else Inr (Some cells, v\<lparr>Count := tot\<rparr>))"

section \<open>Counting and sending\<close>

text \<open>
  The operations below get \<open>sendHeatmap\<close> at the nesting depth that is left as \<open>sh\<close>. A result \<open>None\<close> means that
  the depth was used up, \<open>Some (Inl f)\<close> is a fault.
\<close>

type_synonym ('g, 'b) vresult = "('g, 'b) viewport res option"

definition vbind :: "('g, 'b) vresult \<Rightarrow> (('g, 'b) viewport \<Rightarrow> ('g, 'b) vresult) \<Rightarrow> ('g, 'b) vresult" where
  "vbind r f = (case r of Some (Inr v) \<Rightarrow> f v | _ \<Rightarrow> r)"

definition ret :: "('g, 'b) viewport \<Rightarrow> ('g, 'b) vresult" where
  "ret v = Some (Inr v)"

definition changeCount ::
  "('g, 'b) view \<Rightarrow> (('g, 'b) viewport \<Rightarrow> ('g, 'b) vresult) \<Rightarrow> int \<Rightarrow> ('g, 'b) viewport \<Rightarrow> ('g, 'b) vresult"
where
  "changeCount vw sh value v =
     (let v1 = v\<lparr>Count := Count v + value\<rparr> in
      if Count v1 \<ge> startHeatmapCount vw \<and> \<not> heatmapActive v1 then
        sh (vsend (upd Status_HeatmapStart None) (v1\<lparr>heatmapActive := True\<rparr>))
      else ret v1)"

definition increment ::
  "('g, 'b) view \<Rightarrow> (('g, 'b) viewport \<Rightarrow> ('g, 'b) vresult) \<Rightarrow> ('g, 'b) viewport \<Rightarrow> ('g, 'b) vresult" where
  "increment vw sh = changeCount vw sh 1"

definition decrement ::
  "('g, 'b) view \<Rightarrow> (('g, 'b) viewport \<Rightarrow> ('g, 'b) vresult) \<Rightarrow> ('g, 'b) viewport \<Rightarrow> ('g, 'b) vresult" where
  "decrement vw sh = changeCount vw sh (-1)"

definition add ::
  "('g, 'b) view \<Rightarrow> (('g, 'b) viewport \<Rightarrow> ('g, 'b) vresult) \<Rightarrow> 'g feature_update \<Rightarrow> 'g feature \<Rightarrow> ('g, 'b) viewport \<Rightarrow>
   ('g, 'b) vresult"
where
  "add vw sh u f v =
     (let vis = isect vw (f_geom f) (vbounds v);
          v1 = v\<lparr>Visible := (Visible v)(f_ID f \<mapsto> vis)\<rparr>;
          v2 = (if shouldCount f then v1\<lparr>Total := Total v1 + 1\<rparr> else v1) in
      if vis then
        let v3 = vsend u v2 in if shouldCount f then increment vw sh v3 else ret v3
      else ret v2)"

definition update ::
  "('g, 'b) view \<Rightarrow> (('g, 'b) viewport \<Rightarrow> ('g, 'b) vresult) \<Rightarrow> 'g feature_update \<Rightarrow> 'g feature \<Rightarrow> ('g, 'b) viewport \<Rightarrow>
   ('g, 'b) vresult"
where
  "update vw sh u f v =
     (case Visible v (f_ID f) of
        None \<Rightarrow> add vw sh u f v
      | Some was \<Rightarrow>
          let now = isect vw (f_geom f) (vbounds v);
              v1 = v\<lparr>Visible := (Visible v)(f_ID f \<mapsto> now)\<rparr> in
          if was \<and> \<not> now then
            let v2 = vsend u v1 in if shouldCount f then decrement vw sh v2 else ret v2
          else if \<not> was \<and> now then
            let v2 = vsend u v1 in if shouldCount f then increment vw sh v2 else ret v2
          else if now then ret (vsend u v1)
          else ret v1)"

definition remove ::
  "('g, 'b) view \<Rightarrow> (('g, 'b) viewport \<Rightarrow> ('g, 'b) vresult) \<Rightarrow> 'g feature_update \<Rightarrow> 'g feature \<Rightarrow> ('g, 'b) viewport \<Rightarrow>
   ('g, 'b) vresult"
where
  "remove vw sh u f v =
     (let was = Visible v (f_ID f) in
      vbind
        (if was = Some True then
           let v1 = vsend u v in if shouldCount f then decrement vw sh v1 else ret v1
         else ret v)
        (\<lambda>v2.
           let v3 = v2\<lparr>Visible := (Visible v2)(f_ID f := None)\<rparr> in
           ret (if was \<noteq> None \<and> shouldCount f then v3\<lparr>Total := Total v3 - 1\<rparr> else v3)))"

definition vprocess ::
  "('g, 'b) view \<Rightarrow> (('g, 'b) viewport \<Rightarrow> ('g, 'b) vresult) \<Rightarrow> vstatus \<Rightarrow> 'g feature \<Rightarrow> ('g, 'b) viewport \<Rightarrow> ('g, 'b) vresult"
where
  "vprocess vw sh st f v =
     (if heatmapActive v \<and> inHeatmap f then ret v
      else if st = Status_Current then update vw sh (upd st (Some f)) f v
      else if st = Status_Timeout then remove vw sh (upd st (Some f)) f v
      else ret v)"

definition revalidate ::
  "('g, 'b) view \<Rightarrow> (('g, 'b) viewport \<Rightarrow> ('g, 'b) vresult) \<Rightarrow> 'g feature \<Rightarrow> ('g, 'b) viewport \<Rightarrow> ('g, 'b) vresult"
where
  "revalidate vw sh f v =
     (case Visible v (f_ID f) of
        None \<Rightarrow> vprocess vw sh Status_Current f v
      | Some was \<Rightarrow>
          let now = isect vw (f_geom f) (vbounds v) in
          vbind
            (if was \<and> \<not> now then
               vbind (if shouldCount f then decrement vw sh v else ret v)
                 (\<lambda>v1. ret (vsend (upd Status_LeftGeoRange (Some f)) v1))
             else if \<not> was \<and> now then
               vbind (if shouldCount f then increment vw sh v else ret v)
                 (\<lambda>v1. ret (vsend (upd Status_Current (Some f)) v1))
             else ret v)
            (\<lambda>v2. ret (v2\<lparr>Visible := (Visible v2)(f_ID f \<mapsto> now)\<rparr>)))"

fun revalidate_scan ::
  "('g, 'b) view \<Rightarrow> (('g, 'b) viewport \<Rightarrow> ('g, 'b) vresult) \<Rightarrow> 'g feature list \<Rightarrow> ('g, 'b) viewport \<Rightarrow> ('g, 'b) vresult"
where
  "revalidate_scan vw sh [] v = ret v"
| "revalidate_scan vw sh (f # fs) v =
     vbind (if heatmapActive v then ret v else revalidate vw sh f v) (revalidate_scan vw sh fs)"

definition revalidateAll ::
  "('g, 'b) view \<Rightarrow> (('g, 'b) viewport \<Rightarrow> ('g, 'b) vresult) \<Rightarrow> ('g, 'b) viewport \<Rightarrow> ('g, 'b) vresult" where
  "revalidateAll vw sh v = revalidate_scan vw sh (vw_features vw) v"

definition stopHeatmap ::
  "('g, 'b) view \<Rightarrow> (('g, 'b) viewport \<Rightarrow> ('g, 'b) vresult) \<Rightarrow> ('g, 'b) viewport \<Rightarrow> ('g, 'b) vresult" where
  "stopHeatmap vw sh v =
     revalidateAll vw sh
       (vsend (upd Status_HeatmapStop None)
         (v\<lparr>heatmapActive := False, Visible := (\<lambda>k. map_option (\<lambda>_. False) (Visible v k)), Count := 0\<rparr>))"

fun sendHeatmap :: "('g, 'b) view \<Rightarrow> nat \<Rightarrow> ('g, 'b) viewport \<Rightarrow> ('g, 'b) vresult" where
  "sendHeatmap vw 0 v = None"
| "sendHeatmap vw (Suc n) v =
     (if \<not> heatmapActive v then ret v
      else case heatmap vw v of
        Inl e \<Rightarrow> Some (Inl e)
      | Inr (None, v1) \<Rightarrow> stopHeatmap vw (sendHeatmap vw n) v1
      | Inr (Some cells, v1) \<Rightarrow> ret (vsend ((upd Status_Heatmap None)\<lparr>fu_Heatmap := cells\<rparr>) v1))"

section \<open>Entry points\<close>

definition sendCounts :: "('g, 'b) viewport \<Rightarrow> ('g, 'b) viewport" where
  "sendCounts v = (if Count v = prevCount v \<and> Total v = prevTotal v then v else vsend (upd Status_CountOnly None) v)"

definition tick :: "('g, 'b) view \<Rightarrow> nat \<Rightarrow> ('g, 'b) viewport \<Rightarrow> ('g, 'b) vresult" where
  "tick vw n v = (if heatmapActive v then sendHeatmap vw n v else ret (sendCounts v))"

definition SetBounds :: "('g, 'b) view \<Rightarrow> nat \<Rightarrow> 'b \<Rightarrow> ('g, 'b) viewport \<Rightarrow> ('g, 'b) vresult" where
  "SetBounds vw n b v =
     (let v1 = v\<lparr>vbounds := b\<rparr> in
      vbind (if heatmapActive v1 then sendHeatmap vw n v1 else revalidateAll vw (sendHeatmap vw n) v1)
        (\<lambda>v2. ret (v2\<lparr>timer := True\<rparr>)))"

definition Process :: "('g, 'b) view \<Rightarrow> nat \<Rightarrow> vstatus \<Rightarrow> 'g feature \<Rightarrow> ('g, 'b) viewport \<Rightarrow> ('g, 'b) vresult" where
  "Process vw n st f v = vprocess vw (sendHeatmap vw n) st f v"

section \<open>Sequencing and elementary steps\<close>

lemma vbind_simps [simp]: "vbind (ret v) f = f v" "vbind None f = None" "vbind (Some (Inl e)) f = Some (Inl e)"
  by (simp_all add: vbind_def ret_def)

lemma ret_not_None [simp]: "ret v \<noteq> None" "None \<noteq> ret v"
  by (simp_all add: ret_def)

lemma ret_inject [simp]: "ret v = ret v' \<longleftrightarrow> v = v'"
  by (simp add: ret_def)

lemma vsend_fields [simp]:
  "Count (vsend u v) = Count v" "Total (vsend u v) = Total v" "vbounds (vsend u v) = vbounds v"
  "Visible (vsend u v) = Visible v" "heatmapActive (vsend u v) = heatmapActive v" "vdone (vsend u v) = vdone v"
  by (simp_all add: vsend_def Let_def)

lemma changeCount_small:
  "Count v + value < startHeatmapCount vw \<Longrightarrow> changeCount vw sh value v = ret (v\<lparr>Count := Count v + value\<rparr>)"
  by (simp add: changeCount_def Let_def)

lemmas counting = increment_def decrement_def changeCount_small

section \<open>Exact counts\<close>

text \<open>
  \<open>K\<close> says of an id whether its feature is counted, \<open>S\<close> contains every id that occurs; \<open>shown\<close> are the
  counted features in view, \<open>known\<close> all counted ones.
\<close>

definition shown :: "(string \<Rightarrow> bool) \<Rightarrow> (string \<rightharpoonup> bool) \<Rightarrow> string set" where
  "shown K vis = {k. vis k = Some True \<and> K k}"

definition known :: "(string \<Rightarrow> bool) \<Rightarrow> (string \<rightharpoonup> bool) \<Rightarrow> string set" where
  "known K vis = {k. vis k \<noteq> None \<and> K k}"

text \<open>The counts the client was sent last, and that the viewport remembers them.\<close>

definition last_sent :: "('g, 'b) viewport \<Rightarrow> int \<times> int" where
  "last_sent v = (if out v = [] then (0, 0) else fu_Counts (last (out v)))"

definition sent_ok :: "('g, 'b) viewport \<Rightarrow> bool" where
  "sent_ok v = (\<not> vdone v \<and> last_sent v = (prevTotal v, prevCount v))"

lemma sent_ok_simps [simp]:
  "sent_ok v \<Longrightarrow> sent_ok (vsend u v)" "sent_ok (v\<lparr>Count := c\<rparr>) = sent_ok v" "sent_ok (v\<lparr>Total := c\<rparr>) = sent_ok v"
  "sent_ok (v\<lparr>Visible := vs\<rparr>) = sent_ok v" "sent_ok (v\<lparr>vbounds := b\<rparr>) = sent_ok v" "sent_ok (v\<lparr>timer := t\<rparr>) = sent_ok v"
  by (simp_all add: sent_ok_def last_sent_def vsend_def Let_def)

lemma sent_ok_tick: "sent_ok v \<Longrightarrow> last_sent (sendCounts v) = (Total v, Count v)"
  by (auto simp: sendCounts_def sent_ok_def last_sent_def vsend_def Let_def)

definition counts_ok :: "('g, 'b) view \<Rightarrow> string set \<Rightarrow> (string \<Rightarrow> bool) \<Rightarrow> ('g, 'b) viewport \<Rightarrow> bool" where
  "counts_ok vw S K v =
     (finite S \<and> int (card {k \<in> S. K k}) < startHeatmapCount vw \<and> dom (Visible v) \<subseteq> S \<and> \<not> heatmapActive v \<and>
      Count v = int (card (shown K (Visible v))) \<and> Total v = int (card (known K (Visible v))) \<and> sent_ok v)"

lemma shown_upd:
  "shown K (vis(k \<mapsto> b)) = (if b \<and> K k then insert k (shown K vis) else shown K vis - {k})"
  "shown K (vis(k := None)) = shown K vis - {k}"
  by (auto simp: shown_def)

lemma known_upd:
  "known K (vis(k \<mapsto> b)) = (if K k then insert k (known K vis) else known K vis)"
  "known K (vis(k := None)) = known K vis - {k}"
  by (auto simp: known_def)

lemma shown_known: "dom vis \<subseteq> S \<Longrightarrow> shown K vis \<subseteq> {k \<in> S. K k}" "dom vis \<subseteq> S \<Longrightarrow> known K vis \<subseteq> {k \<in> S. K k}"
  by (auto simp: shown_def known_def)

lemma mem_shown: "k \<in> shown K vis \<longleftrightarrow> vis k = Some True \<and> K k" "k \<in> known K vis \<longleftrightarrow> vis k \<noteq> None \<and> K k"
  by (simp_all add: shown_def known_def)

lemma counts_ok_finite:
  assumes "counts_ok vw S K v"
  shows "finite (shown K (Visible v))" "finite (known K (Visible v))"
  using assms shown_known[of "Visible v" S K] by (auto simp: counts_ok_def intro: finite_subset)

text \<open>The viewport with the visibility of one id changed and the counts moved accordingly.\<close>

definition set_visible :: "(string \<Rightarrow> bool) \<Rightarrow> string \<Rightarrow> bool option \<Rightarrow> ('g, 'b) viewport \<Rightarrow> ('g, 'b) viewport" where
  "set_visible K k b v =
     v\<lparr>Visible := (Visible v)(k := b),
       Count := Count v + of_bool (b = Some True \<and> K k) - of_bool (k \<in> shown K (Visible v)),
       Total := Total v + of_bool (b \<noteq> None \<and> K k) - of_bool (k \<in> known K (Visible v))\<rparr>"

lemma card_insert_or_remove:
  "finite A \<Longrightarrow> int (card (if b then insert k A else A - {k})) = int (card A) + of_bool b - of_bool (k \<in> A)"
proof -
  assume "finite A"
  then have "0 < card A" if "k \<in> A" using that by (auto simp: card_gt_0_iff)
  with \<open>finite A\<close> show ?thesis by (auto simp: card_Diff_singleton_if insert_absorb of_nat_diff)
qed

lemma counts_ok_set_visible:
  assumes "counts_ok vw S K v" "k \<in> S"
  shows "counts_ok vw S K (set_visible K k b v)"
proof -
  have s: "shown K ((Visible v)(k := b)) = (if b = Some True \<and> K k then insert k (shown K (Visible v)) else shown K (Visible v) - {k})"
    "known K ((Visible v)(k := b)) = (if b \<noteq> None \<and> K k then insert k (known K (Visible v)) else known K (Visible v) - {k})"
    by (auto simp: shown_def known_def)
  have "dom ((Visible v)(k := b)) \<subseteq> S" using assms by (auto simp: counts_ok_def)
  with assms s counts_ok_finite[OF assms(1)] show ?thesis
    by (simp add: counts_ok_def set_visible_def card_insert_or_remove)
qed

lemma counts_ok_bound:
  assumes "counts_ok vw S K v" shows "Count v < startHeatmapCount vw"
proof -
  have "card (shown K (Visible v)) \<le> card {k \<in> S. K k}"
    using assms shown_known(1)[of "Visible v" S K] by (intro card_mono) (auto simp: counts_ok_def)
  then show ?thesis using assms by (simp add: counts_ok_def)
qed

text \<open>A result that is \<open>v\<close> up to what was sent.\<close>

definition same_view :: "('g, 'b) viewport \<Rightarrow> ('g, 'b) viewport \<Rightarrow> bool" where
  "same_view v v' = (Count v' = Count v \<and> Total v' = Total v \<and> Visible v' = Visible v \<and> vbounds v' = vbounds v \<and>
     heatmapActive v' = heatmapActive v \<and> (sent_ok v \<longrightarrow> sent_ok v'))"

lemma counts_ok_same: "same_view v v' \<Longrightarrow> counts_ok vw S K v \<Longrightarrow> counts_ok vw S K v'"
  by (simp add: same_view_def counts_ok_def)

lemma update_counts:
  assumes "counts_ok vw S K v" "f_ID f \<in> S" "K (f_ID f) = shouldCount f"
  shows "\<exists>v'. update vw sh u f v = ret v' \<and> vbounds v' = vbounds v \<and>
    same_view (set_visible K (f_ID f) (Some (isect vw (f_geom f) (vbounds v))) v) v'"
proof -
  let ?now = "isect vw (f_geom f) (vbounds v)"
  have lim: "Count (set_visible K (f_ID f) (Some ?now) v) < startHeatmapCount vw"
    using counts_ok_bound[OF counts_ok_set_visible[OF assms(1,2)]] .
  show ?thesis
  proof (cases "Visible v (f_ID f)")
    case None
    then show ?thesis using lim assms(3)
      by (auto simp: update_def add_def Let_def counting set_visible_def mem_shown same_view_def)
  next
    case (Some was)
    then show ?thesis using lim assms(3)
      by (cases was; cases ?now) (auto simp: update_def Let_def counting set_visible_def mem_shown same_view_def)
  qed
qed

lemma remove_counts:
  assumes "counts_ok vw S K v" "f_ID f \<in> S" "K (f_ID f) = shouldCount f"
  shows "\<exists>v'. remove vw sh u f v = ret v' \<and> vbounds v' = vbounds v \<and> same_view (set_visible K (f_ID f) None v) v'"
proof -
  have lim: "Count (set_visible K (f_ID f) None v) < startHeatmapCount vw"
    using counts_ok_bound[OF counts_ok_set_visible[OF assms(1,2)]] .
  show ?thesis
  proof (cases "Visible v (f_ID f)")
    case None
    then show ?thesis using assms(3)
      by (auto simp: remove_def Let_def set_visible_def mem_shown same_view_def)
  next
    case (Some was)
    then show ?thesis using lim assms(3)
      by (cases was) (auto simp: remove_def Let_def counting set_visible_def mem_shown same_view_def)
  qed
qed

lemma revalidate_counts:
  assumes "counts_ok vw S K v" "f_ID f \<in> S" "K (f_ID f) = shouldCount f"
  shows "\<exists>v'. revalidate vw sh f v = ret v' \<and> vbounds v' = vbounds v \<and>
    same_view (set_visible K (f_ID f) (Some (isect vw (f_geom f) (vbounds v))) v) v'"
proof (cases "Visible v (f_ID f)")
  case None
  have "\<not> heatmapActive v" using assms(1) by (simp add: counts_ok_def)
  with None show ?thesis using update_counts[OF assms] by (simp add: revalidate_def vprocess_def)
next
  case (Some was)
  let ?now = "isect vw (f_geom f) (vbounds v)"
  have "Count (set_visible K (f_ID f) (Some ?now) v) < startHeatmapCount vw"
    using counts_ok_bound[OF counts_ok_set_visible[OF assms(1,2)]] .
  then show ?thesis using Some assms(3)
    by (cases was; cases ?now) (auto simp: revalidate_def Let_def counting set_visible_def mem_shown same_view_def)
qed

lemma revalidate_scan_counts:
  assumes "counts_ok vw S K v" "\<forall>f\<in>set fs. f_ID f \<in> S \<and> K (f_ID f) = shouldCount f"
  shows "\<exists>v'. revalidate_scan vw sh fs v = ret v' \<and> counts_ok vw S K v' \<and> vbounds v' = vbounds v"
  using assms
proof (induction fs arbitrary: v)
  case (Cons f fs)
  obtain v1 where v1: "revalidate vw sh f v = ret v1" "vbounds v1 = vbounds v"
    "same_view (set_visible K (f_ID f) (Some (isect vw (f_geom f) (vbounds v))) v) v1"
    using revalidate_counts[of vw S K v f sh] Cons.prems by auto
  have "counts_ok vw S K v1"
    using counts_ok_same[OF v1(3)] counts_ok_set_visible[OF Cons.prems(1)] Cons.prems(2) by auto
  with Cons.IH[of v1] Cons.prems v1(1,2) show ?case
    by (auto simp: counts_ok_def)
qed simp

text \<open>The calls the feature stream and the timer make; \<open>Bounds\<close> comes with the features of the view at that time.\<close>

datatype ('g, 'b) viewport_call = Feature vstatus "'g feature" | Bounds 'b "'g feature list" | Tick

fun vcall :: "('g, 'b) view \<Rightarrow> nat \<Rightarrow> ('g, 'b) viewport_call \<Rightarrow> ('g, 'b) viewport \<Rightarrow> ('g, 'b) vresult" where
  "vcall vw n (Feature st f) v = Process vw n st f v"
| "vcall vw n (Bounds b fs) v = SetBounds (vw\<lparr>vw_features := fs\<rparr>) n b v"
| "vcall vw n Tick v = tick vw n v"

fun vcalls :: "('g, 'b) view \<Rightarrow> nat \<Rightarrow> ('g, 'b) viewport_call list \<Rightarrow> ('g, 'b) viewport \<Rightarrow> ('g, 'b) vresult" where
  "vcalls vw n [] v = ret v"
| "vcalls vw n (c # cs) v = vbind (vcall vw n c v) (vcalls vw n cs)"

fun call_features :: "('g, 'b) viewport_call \<Rightarrow> 'g feature list" where
  "call_features (Feature st f) = [f]"
| "call_features (Bounds b fs) = fs"
| "call_features Tick = []"

lemma counts_ok_view [simp]: "counts_ok (vw\<lparr>vw_features := fs\<rparr>) S K v = counts_ok vw S K v"
  by (simp add: counts_ok_def)

lemma vcall_counts:
  assumes "counts_ok vw S K v" "\<forall>f\<in>set (call_features c). f_ID f \<in> S \<and> K (f_ID f) = shouldCount f"
  shows "\<exists>v'. vcall vw n c v = ret v' \<and> counts_ok vw S K v'"
proof (cases c)
  case (Feature st f)
  have inact: "\<not> heatmapActive v" using assms(1) by (simp add: counts_ok_def)
  have f: "f_ID f \<in> S" "K (f_ID f) = shouldCount f" using assms(2) Feature by simp_all
  show ?thesis
    using update_counts[OF assms(1) f] remove_counts[OF assms(1) f] counts_ok_set_visible[OF assms(1) f(1)] counts_ok_same
      Feature inact assms(1)
    by (cases "st = Status_Current"; cases "st = Status_Timeout") (auto simp: Process_def vprocess_def, blast+)
next
  case (Bounds b fs)
  have "counts_ok (vw\<lparr>vw_features := fs\<rparr>) S K (v\<lparr>vbounds := b\<rparr>)" using assms(1) by (simp add: counts_ok_def)
  from revalidate_scan_counts[OF this, of fs] obtain v1 where
    "revalidate_scan (vw\<lparr>vw_features := fs\<rparr>) (sendHeatmap (vw\<lparr>vw_features := fs\<rparr>) n) fs (v\<lparr>vbounds := b\<rparr>) = ret v1"
    "counts_ok vw S K v1"
    using assms(2) Bounds by auto
  then show ?thesis
    using Bounds assms(1) by (auto simp: SetBounds_def revalidateAll_def counts_ok_def)
next
  case Tick
  then show ?thesis using assms(1) by (auto simp: tick_def sendCounts_def counts_ok_def)
qed

text \<open>The features that the comment on \<open>shouldCount\<close> wants counted: \<^verbatim>\<open>feature/track.go\<close> gives every track such a type.\<close>

definition is_track :: "'g feature \<Rightarrow> bool" where
  "is_track f = (case f_type f of Some (PStr t) \<Rightarrow> take 6 t = ''track:'' | _ \<Rightarrow> False)"

lemma is_track_counted: "is_track f \<Longrightarrow> shouldCount f"
  by (auto simp: is_track_def shouldCount_def split: option.splits prop_value.splits)

text \<open>C22. For a view whose features are tracks and features that are not counted, and as long as fewer tracks exist
  than start a heat map, the viewport handles every sequence of updates, timeouts, changes of bounds and ticks without
  heat maps, and the counts it keeps are exact: \<open>Count\<close> is the number of tracks in view, \<open>Total\<close> the number of tracks it
  knows. The counts the client was last sent are these exact counts after every tick; an update of a feature is
  sent with the counts from before the update (\<open>counts_sent_before_change\<close>).\<close>
theorem viewport_counts_exact:
  assumes "finite S" "int (card {k \<in> S. K k}) < startHeatmapCount vw"
    and "\<forall>c\<in>set cs. \<forall>f\<in>set (call_features c). f_ID f \<in> S \<and> K (f_ID f) = is_track f \<and> (is_track f \<or> \<not> shouldCount f)"
  shows "\<exists>v. vcalls vw n cs (NewViewport b) = ret v \<and> \<not> heatmapActive v \<and>
    Count v = int (card {k. Visible v k = Some True \<and> K k}) \<and> Total v = int (card {k. Visible v k \<noteq> None \<and> K k}) \<and>
    (cs \<noteq> [] \<and> last cs = Tick \<longrightarrow> last_sent v = (Total v, Count v))"
proof -
  have start: "counts_ok vw S K (NewViewport b)"
    using assms(1,2) by (simp add: counts_ok_def NewViewport_def shown_def known_def sent_ok_def last_sent_def)
  have "\<exists>v'. vcalls vw n cs v = ret v' \<and> counts_ok vw S K v' \<and> (cs \<noteq> [] \<and> last cs = Tick \<longrightarrow> last_sent v' = (Total v', Count v'))"
    if "counts_ok vw S K v" for v
    using that assms(3)
  proof (induction cs arbitrary: v)
    case (Cons c cs)
    obtain v1 where v1: "vcall vw n c v = ret v1" "counts_ok vw S K v1"
      using vcall_counts[OF Cons.prems(1), of c n] Cons.prems(2) is_track_counted by (metis list.set_intros(1))
    have "c = Tick \<Longrightarrow> last_sent v1 = (Total v1, Count v1)"
      using v1(1) Cons.prems(1) sent_ok_tick[of v] by (auto simp: tick_def counts_ok_def sendCounts_def)
    with v1 Cons.IH[of v1] Cons.prems(2) show ?case by (cases "cs = []") auto
  qed simp
  from this[OF start] show ?thesis by (auto simp: counts_ok_def shown_def known_def)
qed

text \<open>The first track in view is sent with the counts of no track in view: \<open>add\<close> sends before it counts.\<close>
theorem counts_sent_before_change:
  assumes "isect vw (f_geom f) b" "is_track f" "1 < startHeatmapCount vw"
  shows "\<exists>v u. vcall vw n (Feature Status_Current f) (NewViewport b) = ret v \<and> out v = [u] \<and> fu_Counts u = (1, 0) \<and>
    (Total v, Count v) = (1, 1)"
  using assms is_track_counted[OF assms(2)]
  by (auto simp: Process_def vprocess_def update_def add_def Let_def counting vsend_def upd_def NewViewport_def)

section \<open>Starting and stopping the heat map\<close>

definition hot :: "('g, 'b) view \<Rightarrow> 'b \<Rightarrow> 'g feature list \<Rightarrow> 'g feature list" where
  "hot vw b fs = filter (\<lambda>f. inHeatmap f \<and> isect vw (f_geom f) b) fs"

definition in_view :: "('g, 'b) view \<Rightarrow> 'b \<Rightarrow> 'g feature list \<Rightarrow> 'g feature list" where
  "in_view vw b fs = filter (\<lambda>f. shouldCount f \<and> isect vw (f_geom f) b) fs"

definition all_points :: "'g feature list \<Rightarrow> bool" where
  "all_points fs = (\<forall>f\<in>set fs. \<exists>g. f_geom f = Point g)"

lemma sum_count_cell: "sum_list (map snd (count_cell c cells)) = sum_list (map snd cells) + 1"
  by (induction c cells rule: count_cell.induct) auto

lemma heat_scan_total:
  assumes "all_points (hot vw b fs)"
  shows "\<exists>cells'. heat_scan vw b fs cells tot = Inr (cells', tot + int (length (hot vw b fs))) \<and>
    sum_list (map snd cells') = sum_list (map snd cells) + length (hot vw b fs)"
  using assms
proof (induction fs arbitrary: cells tot)
  case (Cons f fs)
  show ?case
  proof (cases "inHeatmap f \<and> isect vw (f_geom f) b")
    case True
    obtain g where g: "f_geom f = Point g" using Cons.prems True by (auto simp: all_points_def hot_def)
    show ?thesis
      using Cons.IH[of "count_cell (cell_of vw g b) cells" "tot + 1"] Cons.prems True g
      by (auto simp: hot_def all_points_def sum_count_cell)
  next
    case False
    have "all_points (hot vw b fs)" using Cons.prems by (auto simp: all_points_def hot_def)
    with Cons.IH[of cells tot] False show ?thesis by (auto simp: hot_def)
  qed
qed (simp add: hot_def)

lemma heatmap_cases:
  assumes "all_points (hot vw (vbounds v) (vw_features vw))"
  obtains cells where "heatmap vw v =
      (if int (length (hot vw (vbounds v) (vw_features vw))) \<le> stopHeatmapCount vw then Inr (None, v)
       else Inr (Some cells, v\<lparr>Count := int (length (hot vw (vbounds v) (vw_features vw)))\<rparr>))"
    "sum_list (map snd cells) = length (hot vw (vbounds v) (vw_features vw))"
  using heat_scan_total[OF assms, of "[]" 0] by (auto simp: heatmap_def)

text \<open>A recount that stays below the threshold never starts a heat map.\<close>

lemma revalidate_below:
  assumes "\<not> heatmapActive v" "Count v + of_bool (shouldCount f \<and> isect vw (f_geom f) (vbounds v)) < startHeatmapCount vw"
  shows "\<exists>v'. revalidate vw sh f v = ret v' \<and> \<not> heatmapActive v' \<and> vbounds v' = vbounds v \<and>
    Count v' \<le> Count v + of_bool (shouldCount f \<and> isect vw (f_geom f) (vbounds v))"
proof (cases "Visible v (f_ID f)")
  case None
  then show ?thesis using assms
    by (cases "isect vw (f_geom f) (vbounds v)"; cases "shouldCount f")
      (auto simp: revalidate_def vprocess_def update_def add_def Let_def counting)
next
  case (Some was)
  then show ?thesis using assms
    by (cases was; cases "isect vw (f_geom f) (vbounds v)"; cases "shouldCount f")
      (auto simp: revalidate_def Let_def counting)
qed

lemma revalidate_scan_below:
  assumes "\<not> heatmapActive v" "Count v + int (length (in_view vw (vbounds v) fs)) < startHeatmapCount vw"
  shows "\<exists>v'. revalidate_scan vw sh fs v = ret v' \<and> \<not> heatmapActive v'"
  using assms
proof (induction fs arbitrary: v)
  case (Cons f fs)
  have "int (length (in_view vw (vbounds v) (f # fs))) =
      of_bool (shouldCount f \<and> isect vw (f_geom f) (vbounds v)) + int (length (in_view vw (vbounds v) fs))"
    by (simp add: in_view_def)
  then have lim: "Count v + of_bool (shouldCount f \<and> isect vw (f_geom f) (vbounds v)) + int (length (in_view vw (vbounds v) fs)) <
      startHeatmapCount vw"
    using Cons.prems(2) by simp
  then have "Count v + of_bool (shouldCount f \<and> isect vw (f_geom f) (vbounds v)) < startHeatmapCount vw" by linarith
  from revalidate_below[OF Cons.prems(1) this, of sh] obtain v1 where
    v1: "revalidate vw sh f v = ret v1" "\<not> heatmapActive v1" "vbounds v1 = vbounds v"
    "Count v1 \<le> Count v + of_bool (shouldCount f \<and> isect vw (f_geom f) (vbounds v))" by blast
  with lim have "Count v1 + int (length (in_view vw (vbounds v1) fs)) < startHeatmapCount vw" by simp
  from Cons.IH[OF v1(2) this] v1(1) Cons.prems(1) show ?case by auto
qed simp

lemma in_view_hot: "\<forall>f\<in>set fs. shouldCount f \<longrightarrow> inHeatmap f \<Longrightarrow> length (in_view vw b fs) \<le> length (hot vw b fs)"
  by (induction fs) (auto simp: in_view_def hot_def)

text \<open>If every counted feature of the view belongs to the heat map, its heat map features are points and the stop threshold
  lies below the start threshold, then sending a heat map ends after at most one nested stop: with a depth of two
  it returns a viewport, at rest or with a heat map whose cell counts add up to \<open>Count\<close>.\<close>
theorem sendHeatmap_terminates:
  assumes "\<forall>f\<in>set (vw_features vw). shouldCount f \<longrightarrow> inHeatmap f" "all_points (hot vw (vbounds v) (vw_features vw))"
    and "stopHeatmapCount vw < startHeatmapCount vw" "heatmapActive v" "0 < startHeatmapCount vw"
  shows "\<exists>v'. sendHeatmap vw (Suc (Suc n)) v = ret v' \<and>
    (heatmapActive v' \<longrightarrow> vdone v \<or>
      (\<exists>u. out v' = out v @ [u] \<and> fu_Status u = Status_Heatmap \<and> int (sum_list (map snd (fu_Heatmap u))) = Count v'))"
proof -
  obtain cells where h: "heatmap vw v =
      (if int (length (hot vw (vbounds v) (vw_features vw))) \<le> stopHeatmapCount vw then Inr (None, v)
       else Inr (Some cells, v\<lparr>Count := int (length (hot vw (vbounds v) (vw_features vw)))\<rparr>))"
    "sum_list (map snd cells) = length (hot vw (vbounds v) (vw_features vw))"
    using heatmap_cases[OF assms(2)] .
  show ?thesis
  proof (cases "int (length (hot vw (vbounds v) (vw_features vw))) \<le> stopHeatmapCount vw")
    case True
    define v0 where "v0 = vsend (upd Status_HeatmapStop None)
      (v\<lparr>heatmapActive := False, Visible := (\<lambda>k. map_option (\<lambda>_. False) (Visible v k)), Count := 0\<rparr>)"
    have v0: "\<not> heatmapActive v0" "Count v0 = 0" "vbounds v0 = vbounds v" by (simp_all add: v0_def)
    have "int (length (in_view vw (vbounds v) (vw_features vw))) < startHeatmapCount vw"
      using in_view_hot[OF assms(1), of vw "vbounds v"] True assms(3) by linarith
    then obtain v1 where "revalidate_scan vw (sendHeatmap vw (Suc n)) (vw_features vw) v0 = ret v1" "\<not> heatmapActive v1"
      using revalidate_scan_below[of v0 vw "vw_features vw" "sendHeatmap vw (Suc n)"] v0 by auto
    moreover have "sendHeatmap vw (Suc (Suc n)) v = revalidate_scan vw (sendHeatmap vw (Suc n)) (vw_features vw) v0"
      using assms(4) h(1) True by (simp add: stopHeatmap_def revalidateAll_def v0_def)
    ultimately show ?thesis by simp
  next
    case False
    then show ?thesis using assms(4) h by (auto simp: vsend_def Let_def upd_def)
  qed
qed

text \<open>The first feature that brings the count to the threshold starts a heat map.\<close>

lemma revalidate_scan_reaches:
  assumes "\<And>x. heatmapActive x \<Longrightarrow> vbounds x = b \<Longrightarrow> sh x = None"
    and "\<not> heatmapActive v" "vbounds v = b" "Count v < startHeatmapCount vw"
    and "startHeatmapCount vw \<le> Count v + int (length (in_view vw b fs))"
    and "distinct (map f_ID fs)" "\<forall>f\<in>set fs. Visible v (f_ID f) \<noteq> Some True"
  shows "revalidate_scan vw sh fs v = None"
  using assms(2-7)
proof (induction fs arbitrary: v)
  case Nil
  then show ?case by (simp add: in_view_def)
next
  case (Cons f fs)
  let ?n = "isect vw (f_geom f) b"
  show ?case
  proof (cases "shouldCount f \<and> ?n \<and> Count v + 1 \<ge> startHeatmapCount vw")
    case True
    have none: "increment vw sh x = None" if "Count x = Count v" "\<not> heatmapActive x" "vbounds x = b" for x
      using that True assms(1) by (simp add: increment_def changeCount_def Let_def)
    have "revalidate vw sh f v = None"
    proof (cases "Visible v (f_ID f)")
      case None
      then show ?thesis using True Cons.prems(1,2) none
        by (simp add: revalidate_def vprocess_def update_def add_def Let_def)
    next
      case (Some was)
      then show ?thesis using True Cons.prems(1,2,6) none by (simp add: revalidate_def Let_def)
    qed
    then show ?thesis using Cons.prems(1) by simp
  next
    case False
    have vis: "Visible v (f_ID f) \<noteq> Some True" using Cons.prems(6) by simp
    have "\<exists>v1. revalidate vw sh f v = ret v1 \<and> \<not> heatmapActive v1 \<and> vbounds v1 = b \<and>
        Count v1 = Count v + of_bool (shouldCount f \<and> ?n) \<and> Visible v1 = (Visible v)(f_ID f \<mapsto> ?n)"
    proof (cases "Visible v (f_ID f)")
      case None
      then show ?thesis using False Cons.prems(1-3)
        by (cases ?n; cases "shouldCount f") (auto simp: revalidate_def vprocess_def update_def add_def Let_def counting)
    next
      case (Some was)
      then show ?thesis using vis False Cons.prems(1-3)
        by (cases ?n; cases "shouldCount f") (auto simp: revalidate_def Let_def counting)
    qed
    then obtain v1 where v1: "revalidate vw sh f v = ret v1" "\<not> heatmapActive v1" "vbounds v1 = b"
      "Count v1 = Count v + of_bool (shouldCount f \<and> ?n)" "Visible v1 = (Visible v)(f_ID f \<mapsto> ?n)" by blast
    have "Count v1 < startHeatmapCount vw" using v1(4) False Cons.prems(3) by auto
    moreover have "startHeatmapCount vw \<le> Count v1 + int (length (in_view vw b fs))"
      using Cons.prems(4) v1(4) by (auto simp: in_view_def)
    moreover have "\<forall>f'\<in>set fs. Visible v1 (f_ID f') \<noteq> Some True"
      using Cons.prems(5,6) by (auto simp: v1(5) image_iff)
    ultimately have "revalidate_scan vw sh fs v1 = None"
      using Cons.IH[OF v1(2,3)] Cons.prems(5) by simp
    then show ?thesis using v1(1) Cons.prems(1) by simp
  qed
qed

text \<open>The viewport can recurse without end: if at least as many counted features are in view as start a heat map while too
  few of them belong to the heat map to keep it, every start is followed by a stop, whose recount starts it
  again, and no nesting depth is enough.\<close>
theorem heatmap_recursion_diverges:
  assumes "heatmapActive v" "vbounds v = b" "all_points (hot vw b (vw_features vw))"
    and "int (length (hot vw b (vw_features vw))) \<le> stopHeatmapCount vw"
    and "startHeatmapCount vw \<le> int (length (in_view vw b (vw_features vw)))" "0 < startHeatmapCount vw"
    and "distinct (map f_ID (vw_features vw))"
  shows "sendHeatmap vw n v = None"
  using assms(1,2)
proof (induction n arbitrary: v)
  case (Suc n)
  define v0 where "v0 = vsend (upd Status_HeatmapStop None)
    (v\<lparr>heatmapActive := False, Visible := (\<lambda>k. map_option (\<lambda>_. False) (Visible v k)), Count := 0\<rparr>)"
  obtain cells where "heatmap vw v =
      (if int (length (hot vw (vbounds v) (vw_features vw))) \<le> stopHeatmapCount vw then Inr (None, v)
       else Inr (Some cells, v\<lparr>Count := int (length (hot vw (vbounds v) (vw_features vw)))\<rparr>))"
    using heatmap_cases[of vw v] assms(3) Suc.prems(2) by blast
  then have "sendHeatmap vw (Suc n) v = revalidate_scan vw (sendHeatmap vw n) (vw_features vw) v0"
    using Suc.prems assms(4) by (simp add: stopHeatmap_def revalidateAll_def v0_def)
  also have "\<dots> = None"
    by (rule revalidate_scan_reaches[where b = b])
      (use Suc.IH Suc.prems assms(5-7) in \<open>auto simp: v0_def\<close>)
  finally show ?case .
qed simp

text \<open>An update that moves a visible feature out of the bounds reaches the client with the status of an
  ordinary update: the status is changed to \<open>LeftGeoRange\<close> only after the update has been sent.\<close>
theorem leaving_update_sent_as_current:
  assumes "Visible v (f_ID f) = Some True" "\<not> isect vw (f_geom f) (vbounds v)" "\<not> heatmapActive v" "\<not> vdone v"
    and "Count v \<le> startHeatmapCount vw"
  shows "\<exists>v' u. Process vw n Status_Current f v = ret v' \<and> out v' = out v @ [u] \<and> fu_Feature u = Some f \<and>
    fu_Status u = Status_Current \<and> Visible v' (f_ID f) = Some False"
  using assms
  by (cases "shouldCount f")
    (auto simp: Process_def vprocess_def update_def Let_def counting vsend_def upd_def)

section \<open>Sample views\<close>

definition ex_ship :: "unit feature" where
  "ex_ship = \<lparr>f_ID = ''t1'', f_mmsi = Some (PStr ''235000001''), f_type = Some (PStr ''track:AIS''), f_geom = Point ()\<rparr>"

definition ex_beacon :: "unit feature" where
  "ex_beacon = \<lparr>f_ID = ''t2'', f_mmsi = None, f_type = Some (PStr ''track:Omnicom''), f_geom = Point ()\<rparr>"

definition ex_view :: "unit feature list \<Rightarrow> int \<Rightarrow> (unit, bool) view" where
  "ex_view fs start = \<lparr>vw_features = fs, startHeatmapCount = start, stopHeatmapCount = 0,
                       isect = (\<lambda>_ b. b), cell_of = (\<lambda>_ _. (0, 0))\<rparr>"

lemmas ex_view_simps = ex_view_def ex_ship_def ex_beacon_def shouldCount_def inHeatmap_def all_points_def hot_def in_view_def

text \<open>Two tracks come into view, one times out, and a tick follows.\<close>

theorem viewport_counts_exact_witness:
  "\<exists>v. vcalls (ex_view [] 3) 1 [Bounds True [ex_ship, ex_beacon], Feature Status_Timeout ex_ship, Tick] (NewViewport False) = ret v \<and>
     Count v = int (card {k. Visible v k = Some True \<and> k \<in> {''t1'', ''t2''}}) \<and> last_sent v = (Total v, Count v) \<and> last_sent v = (1, 1)"
proof -
  let ?cs = "[Bounds True [ex_ship, ex_beacon], Feature Status_Timeout ex_ship, Tick]"
  have "{k \<in> {''t1'', ''t2''}. k \<in> {''t1'', ''t2''}} = {''t1'', ''t2''}" by blast
  then have c: "int (card {k \<in> {''t1'', ''t2''}. k \<in> {''t1'', ''t2''}}) < startHeatmapCount (ex_view [] 3)"
    unfolding ex_view_def by simp
  have f: "\<forall>c\<in>set ?cs. \<forall>f\<in>set (call_features c). f_ID f \<in> {''t1'', ''t2''} \<and>
      (f_ID f \<in> {''t1'', ''t2''}) = is_track f \<and> (is_track f \<or> \<not> shouldCount f)"
    by (simp add: ex_ship_def ex_beacon_def is_track_def)
  obtain v where v: "vcalls (ex_view [] 3) 1 ?cs (NewViewport False) = ret v"
      "Count v = int (card {k. Visible v k = Some True \<and> k \<in> {''t1'', ''t2''}})" "last_sent v = (Total v, Count v)"
    using viewport_counts_exact[OF _ c f, of 1 False] by auto
  have "last_sent v = (1, 1)"
    using v(1) by (simp add: SetBounds_def revalidateAll_def revalidate_def vprocess_def update_def add_def Let_def counting
        Process_def remove_def tick_def sendCounts_def vsend_def upd_def NewViewport_def ex_view_simps last_sent_def ex_bool_eq) auto
  with v show ?thesis by blast
qed

theorem sendHeatmap_terminates_witness:
  "\<exists>v'. sendHeatmap (ex_view [ex_ship] 1) 2 ((NewViewport True)\<lparr>heatmapActive := True\<rparr>) = ret v'"
  using sendHeatmap_terminates[of "ex_view [ex_ship] 1" "(NewViewport True)\<lparr>heatmapActive := True\<rparr>" 0]
  by (simp add: ex_view_simps NewViewport_def numeral_2_eq_2) blast

theorem heatmap_recursion_diverges_witness:
  "sendHeatmap (ex_view [ex_beacon] 1) 1000 ((NewViewport True)\<lparr>heatmapActive := True\<rparr>) = None"
  using heatmap_recursion_diverges[of "(NewViewport True)\<lparr>heatmapActive := True\<rparr>" True "ex_view [ex_beacon] 1" 1000]
  by (simp add: ex_view_simps NewViewport_def)

theorem leaving_update_sent_as_current_witness:
  "\<exists>v' u. Process (ex_view [] 10) 1 Status_Current ex_ship
      ((NewViewport False)\<lparr>Visible := [''t1'' \<mapsto> True], Count := 1, Total := 1\<rparr>) = ret v' \<and> out v' = [u] \<and>
     fu_Status u = Status_Current \<and> Visible v' ''t1'' = Some False"
  using leaving_update_sent_as_current[of "(NewViewport False)\<lparr>Visible := [''t1'' \<mapsto> True], Count := 1, Total := 1\<rparr>" ex_ship
      "ex_view [] 10" 1]
  by (auto simp: ex_view_def ex_ship_def NewViewport_def)

end
