(* ===== verification/Mmsi.thy ===== *)
theory Mmsi
  imports Prisma_Prelude "HOL-Library.Char_ord"
begin

text \<open>
  \<^verbatim>\<open>tms/validate/mmsi.go\<close>: validation of Maritime Mobile Service Identities. A value is the list of its
  characters; it is taken to be ASCII, so that its bytes are its runes. A result is the list of the validation errors.
\<close>

section \<open>The validator\<close>

datatype mmsi_error =
  BadLength nat | BadMID string | NotDigit char | ExpectedRune char char | Expected024 char | Expected789 char

definition is_digit :: "char \<Rightarrow> bool" where
  "is_digit c = (CHR ''0'' \<le> c \<and> c \<le> CHR ''9'')"

definition digit :: "char \<Rightarrow> int" where
  "digit c = int (of_char c :: nat) - 48"

definition number :: "string \<Rightarrow> int" where
  "number s = foldl (\<lambda>n c. 10 * n + digit c) 0 s"

text \<open>\<^verbatim>\<open>strconv.Atoi\<close> on short strings: an optional sign and at least one digit.\<close>

definition Atoi :: "string \<Rightarrow> int option" where
  "Atoi s =
     (let neg = (s \<noteq> [] \<and> hd s = CHR ''-''); ds = (if s \<noteq> [] \<and> (hd s = CHR ''-'' \<or> hd s = CHR ''+'') then tl s else s) in
      if ds = [] \<or> \<not> list_all is_digit ds then None else Some (if neg then - number ds else number ds))"

definition mid :: "string \<Rightarrow> nat \<Rightarrow> mmsi_error list" where
  "mid arr start =
     (let s = slice arr start (start + 3) in
      (if Atoi s = None then [BadMID s] else []) @
      (let n = (case Atoi s of None \<Rightarrow> 0 | Some n \<Rightarrow> n) in if n < 201 \<or> n > 775 then [BadMID s] else []))"

definition xnumbers :: "string \<Rightarrow> nat \<Rightarrow> nat \<Rightarrow> mmsi_error list" where
  "xnumbers arr start cnt = map NotDigit (filter (\<lambda>c. \<not> is_digit c) (slice arr start (start + cnt)))"

definition repeated :: "string \<Rightarrow> nat \<Rightarrow> nat \<Rightarrow> char \<Rightarrow> mmsi_error list" where
  "repeated arr start cnt r = map (ExpectedRune r) (filter (\<lambda>c. c \<noteq> r) (slice arr start (start + cnt)))"

definition parseMMSI :: "string \<Rightarrow> mmsi_error list" where
  "parseMMSI arr =
     (if arr ! 0 = CHR ''8'' then mid arr 1 @ xnumbers arr 4 5
      else if arr ! 0 = CHR ''0'' then
        (if arr ! 1 = CHR ''0'' then
           (if arr ! 2 = CHR ''9'' then repeated arr 2 3 (CHR ''9'') @ xnumbers arr 5 4
            else mid arr 2 @ xnumbers arr 5 4)
         else mid arr 1 @ xnumbers arr 4 5)
      else if arr ! 0 = CHR ''1'' then repeated arr 1 2 (CHR ''1'') @ mid arr 3 @ xnumbers arr 6 3
      else if arr ! 0 = CHR ''9'' then
        (if arr ! 1 = CHR ''9'' then mid arr 2 @ xnumbers arr 5 4
         else if arr ! 1 = CHR ''8'' then mid arr 2 @ xnumbers arr 5 4
         else if arr ! 1 = CHR ''7'' then
           (if arr ! 2 \<in> {CHR ''0'', CHR ''2'', CHR ''4''} then xnumbers arr 3 6 else [Expected024 (arr ! 2)])
         else [Expected789 (arr ! 1)])
      else mid arr 0 @ xnumbers arr 3 6)"

definition MMSI :: "string \<Rightarrow> mmsi_error list" where
  "MMSI value = (if length value \<noteq> 9 then [BadLength (length value)] else parseMMSI value)"

section \<open>The formats\<close>

text \<open>The formats of an identity: a prefix, and whether Maritime Identification Digits follow it.\<close>

definition formats :: "(string \<times> bool) list" where
  "formats = [('''', True), (''0'', True), (''00'', True), (''00999'', False), (''111'', True), (''8'', True),
              (''98'', True), (''99'', True), (''970'', False), (''972'', False), (''974'', False)]"

definition fits :: "string \<Rightarrow> string \<times> bool \<Rightarrow> bool" where
  "fits value fm =
     (case fm of (p, has_mid) \<Rightarrow>
        take (length p) value = p \<and>
        (has_mid \<longrightarrow> 201 \<le> number (take 3 (drop (length p) value)) \<and> number (take 3 (drop (length p) value)) \<le> 775))"

definition valid_mmsi :: "string \<Rightarrow> bool" where
  "valid_mmsi value = (length value = 9 \<and> list_all is_digit value \<and> list_ex (fits value) formats)"

lemma slice3: "k + 3 \<le> length arr \<Longrightarrow> slice arr k (k + 3) = [arr ! k, arr ! (k + 1), arr ! (k + 2)]"
  by (rule nth_equalityI) (auto simp: less_Suc_eq numeral_3_eq_3)

lemma is_digit_code: "is_digit c \<longleftrightarrow> 0 \<le> digit c \<and> digit c \<le> 9"
proof -
  have "is_digit c \<longleftrightarrow> 48 \<le> (of_char c :: nat) \<and> (of_char c :: nat) \<le> 57"
    by (simp add: is_digit_def less_eq_char_def)
  moreover have "digit c = int (of_char c :: nat) - 48" by (simp add: digit_def)
  ultimately show ?thesis by linarith
qed

lemma digit_inj: "digit c = digit d \<longleftrightarrow> c = d"
  by (simp add: digit_def)

lemma digit_of:
  "digit CHR ''0'' = 0" "digit CHR ''1'' = 1" "digit CHR ''2'' = 2" "digit CHR ''4'' = 4" "digit CHR ''7'' = 7"
  "digit CHR ''8'' = 8" "digit CHR ''9'' = 9" "digit CHR ''+'' = -5" "digit CHR ''-'' = -3"
  by (simp_all add: digit_def)

lemma eq_char_digit:
  "c = CHR ''0'' \<longleftrightarrow> digit c = 0" "c = CHR ''1'' \<longleftrightarrow> digit c = 1" "c = CHR ''2'' \<longleftrightarrow> digit c = 2"
  "c = CHR ''4'' \<longleftrightarrow> digit c = 4" "c = CHR ''7'' \<longleftrightarrow> digit c = 7" "c = CHR ''8'' \<longleftrightarrow> digit c = 8"
  "c = CHR ''9'' \<longleftrightarrow> digit c = 9" "c = CHR ''+'' \<longleftrightarrow> digit c = -5" "c = CHR ''-'' \<longleftrightarrow> digit c = -3"
  using digit_inj[of c] digit_of by metis+

text \<open>Three digits with a leading digit from 2 to 7; a sign leaves too small a number.\<close>

lemma mid_ok:
  assumes "k + 3 \<le> length arr"
  shows "mid arr k = [] \<longleftrightarrow> is_digit (arr ! k) \<and> is_digit (arr ! (k + 1)) \<and> is_digit (arr ! (k + 2)) \<and>
    201 \<le> 100 * digit (arr ! k) + 10 * digit (arr ! (k + 1)) + digit (arr ! (k + 2)) \<and>
    100 * digit (arr ! k) + 10 * digit (arr ! (k + 1)) + digit (arr ! (k + 2)) \<le> 775"
proof -
  define a b c where "a = arr ! k" "b = arr ! (k + 1)" "c = arr ! (k + 2)"
  note abc = this
  have s: "slice arr k (k + 3) = [a, b, c]" using slice3[OF assms] by (simp add: abc)
  show ?thesis
  proof (cases "a = CHR ''-'' \<or> a = CHR ''+''")
    case True
    then have "Atoi [a, b, c] = (if is_digit b \<and> is_digit c then
        Some ((if a = CHR ''-'' then -1 else 1) * (10 * digit b + digit c)) else None)" "\<not> is_digit a"
      by (auto simp: Atoi_def number_def Let_def is_digit_code eq_char_digit)
    then show ?thesis unfolding abc[symmetric]
      by (auto simp: mid_def Let_def s is_digit_code)
  next
    case False
    then have "Atoi [a, b, c] = (if is_digit a \<and> is_digit b \<and> is_digit c then
        Some (100 * digit a + 10 * digit b + digit c) else None)"
      by (auto simp: Atoi_def number_def Let_def)
    then show ?thesis unfolding abc[symmetric]
      by (auto simp: mid_def Let_def s)
  qed
qed

lemma xnumbers_ok:
  "k + n \<le> length arr \<Longrightarrow> xnumbers arr k n = [] \<longleftrightarrow> (\<forall>i<n. is_digit (arr ! (k + i)))"
  by (auto simp: xnumbers_def filter_empty_conv in_set_conv_nth Ball_def)

lemma repeated_ok:
  "k + n \<le> length arr \<Longrightarrow> repeated arr k n r = [] \<longleftrightarrow> (\<forall>i<n. arr ! (k + i) = r)"
  by (auto simp: repeated_def filter_empty_conv in_set_conv_nth Ball_def)

text \<open>Maritime Identification Digits at a position.\<close>

definition mid_at :: "string \<Rightarrow> nat \<Rightarrow> bool" where
  "mid_at v k = (201 \<le> 100 * digit (v ! k) + 10 * digit (v ! (k + 1)) + digit (v ! (k + 2)) \<and>
    100 * digit (v ! k) + 10 * digit (v ! (k + 1)) + digit (v ! (k + 2)) \<le> 775)"

lemma mid_at_number:
  "k + 3 \<le> length v \<Longrightarrow> mid_at v k \<longleftrightarrow> 201 \<le> number (take 3 (drop k v)) \<and> number (take 3 (drop k v)) \<le> 775"
  using slice3[of k v] by (simp add: mid_at_def slice_def number_def)

lemma mid_at_leading:
  assumes "mid_at v k" "is_digit (v ! (k + 1))" "is_digit (v ! (k + 2))"
  shows "2 \<le> digit (v ! k) \<and> digit (v ! k) \<le> 7"
  using assms unfolding mid_at_def is_digit_code by linarith

lemma less_few:
  "(\<forall>i<9. P i) \<longleftrightarrow> P 0 \<and> P 1 \<and> P 2 \<and> P 3 \<and> P 4 \<and> P 5 \<and> P 6 \<and> P 7 \<and> P (8 :: nat)"
  "(\<forall>i<6. P i) \<longleftrightarrow> P 0 \<and> P 1 \<and> P 2 \<and> P 3 \<and> P 4 \<and> P (5 :: nat)"
  "(\<forall>i<5. P i) \<longleftrightarrow> P 0 \<and> P 1 \<and> P 2 \<and> P 3 \<and> P (4 :: nat)"
  "(\<forall>i<4. P i) \<longleftrightarrow> P 0 \<and> P 1 \<and> P 2 \<and> P (3 :: nat)"
  "(\<forall>i<3. P i) \<longleftrightarrow> P 0 \<and> P 1 \<and> P (2 :: nat)" "(\<forall>i<2. P i) \<longleftrightarrow> P 0 \<and> P (1 :: nat)"
  by (simp_all add: eval_nat_numeral All_less_Suc conj_ac)

text \<open>What the validator accepts, by its branches.\<close>

definition branches :: "string \<Rightarrow> bool" where
  "branches v =
     (let d = (\<lambda>i. digit (v ! i)) in
      if d 0 = 8 then mid_at v 1
      else if d 0 = 0 then
        (if d 1 = 0 then (if d 2 = 9 then d 3 = 9 \<and> d 4 = 9 else mid_at v 2) else mid_at v 1)
      else if d 0 = 1 then d 1 = 1 \<and> d 2 = 1 \<and> mid_at v 3
      else if d 0 = 9 then
        (if d 1 = 9 then mid_at v 2 else if d 1 = 8 then mid_at v 2
         else d 1 = 7 \<and> (d 2 = 0 \<or> d 2 = 2 \<or> d 2 = 4))
      else mid_at v 0)"

lemma is_digit_if: "digit c \<in> {0, 1, 2, 4, 7, 8, 9} \<Longrightarrow> is_digit c"
  by (auto simp: is_digit_code)

lemma parse_branches:
  assumes "length v = 9"
  shows "parseMMSI v = [] \<longleftrightarrow> (\<forall>i<9. is_digit (v ! i)) \<and> branches v"
proof -
  have m: "mid v 0 = [] \<longleftrightarrow> is_digit (v ! 0) \<and> is_digit (v ! 1) \<and> is_digit (v ! 2) \<and> mid_at v 0"
    "mid v 1 = [] \<longleftrightarrow> is_digit (v ! 1) \<and> is_digit (v ! 2) \<and> is_digit (v ! 3) \<and> mid_at v 1"
    "mid v 2 = [] \<longleftrightarrow> is_digit (v ! 2) \<and> is_digit (v ! 3) \<and> is_digit (v ! 4) \<and> mid_at v 2"
    "mid v 3 = [] \<longleftrightarrow> is_digit (v ! 3) \<and> is_digit (v ! 4) \<and> is_digit (v ! 5) \<and> mid_at v 3"
    using mid_ok[of 0 v] mid_ok[of 1 v] mid_ok[of 2 v] mid_ok[of 3 v] assms
    by (simp_all add: mid_at_def one_add_one del: One_nat_def add_2_eq_Suc add_2_eq_Suc')
  have x: "xnumbers v 3 6 = [] \<longleftrightarrow> is_digit (v ! 3) \<and> is_digit (v ! 4) \<and> is_digit (v ! 5) \<and> is_digit (v ! 6) \<and> is_digit (v ! 7) \<and> is_digit (v ! 8)"
    "xnumbers v 4 5 = [] \<longleftrightarrow> is_digit (v ! 4) \<and> is_digit (v ! 5) \<and> is_digit (v ! 6) \<and> is_digit (v ! 7) \<and> is_digit (v ! 8)"
    "xnumbers v 5 4 = [] \<longleftrightarrow> is_digit (v ! 5) \<and> is_digit (v ! 6) \<and> is_digit (v ! 7) \<and> is_digit (v ! 8)"
    "xnumbers v 6 3 = [] \<longleftrightarrow> is_digit (v ! 6) \<and> is_digit (v ! 7) \<and> is_digit (v ! 8)"
    using assms by (simp_all add: xnumbers_ok less_few)
  have r: "repeated v 2 3 CHR ''9'' = [] \<longleftrightarrow> digit (v ! 2) = 9 \<and> digit (v ! 3) = 9 \<and> digit (v ! 4) = 9"
    "repeated v 1 2 CHR ''1'' = [] \<longleftrightarrow> digit (v ! 1) = 1 \<and> digit (v ! 2) = 1"
    using assms by (simp_all add: repeated_ok less_few eq_char_digit one_add_one del: One_nat_def add_2_eq_Suc add_2_eq_Suc')
  have dg: "digit (v ! i) = 0 \<Longrightarrow> is_digit (v ! i)" "digit (v ! i) = 1 \<Longrightarrow> is_digit (v ! i)" "digit (v ! i) = 2 \<Longrightarrow> is_digit (v ! i)"
    "digit (v ! i) = 4 \<Longrightarrow> is_digit (v ! i)" "digit (v ! i) = 7 \<Longrightarrow> is_digit (v ! i)" "digit (v ! i) = 8 \<Longrightarrow> is_digit (v ! i)"
    "digit (v ! i) = 9 \<Longrightarrow> is_digit (v ! i)" for i
    using is_digit_if[of "v ! i"] by simp_all
  note u = parseMMSI_def branches_def Let_def less_few(1) eq_char_digit append_is_Nil_conv insert_iff empty_iff
  consider "digit (v ! 0) = 8" | "digit (v ! 0) = 0" | "digit (v ! 0) = 1" | "digit (v ! 0) = 9"
    | "digit (v ! 0) \<notin> {8, 0, 1, 9}" by auto
  then show ?thesis
  proof cases
    case 1
    then show ?thesis using dg(6)[of 0] by (simp add: u m x r del: One_nat_def) blast
  next
    case 2
    then show ?thesis using dg(1)[of 0] dg(1)[of 1] dg(7)[of 2] dg(7)[of 3] dg(7)[of 4]
      by (cases "digit (v ! 1) = 0"; cases "digit (v ! 2) = 9") (simp_all add: u m x r del: One_nat_def, blast+)
  next
    case 3
    then show ?thesis using dg(2)[of 0] dg(2)[of 1] dg(2)[of 2] by (simp add: u m x r del: One_nat_def) blast
  next
    case 4
    then show ?thesis
      using dg(7)[of 0] dg(7)[of 1] dg(6)[of 1] dg(5)[of 1] dg(1)[of 2] dg(3)[of 2] dg(4)[of 2]
      by (cases "digit (v ! 1) = 9"; cases "digit (v ! 1) = 8"; cases "digit (v ! 1) = 7")
        (simp_all add: u m x r del: One_nat_def, blast+)
  next
    case 5
    then show ?thesis by (simp add: u m x r del: One_nat_def) blast
  qed
qed

lemma prefix_digits:
  assumes "length v = 9"
  shows "take 1 v = ''0'' \<longleftrightarrow> digit (v ! 0) = 0"
    "take 1 v = ''8'' \<longleftrightarrow> digit (v ! 0) = 8"
    "take 2 v = ''00'' \<longleftrightarrow> digit (v ! 0) = 0 \<and> digit (v ! 1) = 0"
    "take 2 v = ''98'' \<longleftrightarrow> digit (v ! 0) = 9 \<and> digit (v ! 1) = 8"
    "take 2 v = ''99'' \<longleftrightarrow> digit (v ! 0) = 9 \<and> digit (v ! 1) = 9"
    "take 3 v = ''111'' \<longleftrightarrow> digit (v ! 0) = 1 \<and> digit (v ! 1) = 1 \<and> digit (v ! 2) = 1"
    "take 3 v = ''970'' \<longleftrightarrow> digit (v ! 0) = 9 \<and> digit (v ! 1) = 7 \<and> digit (v ! 2) = 0"
    "take 3 v = ''972'' \<longleftrightarrow> digit (v ! 0) = 9 \<and> digit (v ! 1) = 7 \<and> digit (v ! 2) = 2"
    "take 3 v = ''974'' \<longleftrightarrow> digit (v ! 0) = 9 \<and> digit (v ! 1) = 7 \<and> digit (v ! 2) = 4"
    "take 5 v = ''00999'' \<longleftrightarrow> digit (v ! 0) = 0 \<and> digit (v ! 1) = 0 \<and> digit (v ! 2) = 9 \<and> digit (v ! 3) = 9 \<and> digit (v ! 4) = 9"
proof -
  obtain a b c d e r where "v = a # b # c # d # e # r"
    using assms by (auto simp: eval_nat_numeral length_Suc_conv)
  then show "take 1 v = ''0'' \<longleftrightarrow> digit (v ! 0) = 0"
    "take 1 v = ''8'' \<longleftrightarrow> digit (v ! 0) = 8"
    "take 2 v = ''00'' \<longleftrightarrow> digit (v ! 0) = 0 \<and> digit (v ! 1) = 0"
    "take 2 v = ''98'' \<longleftrightarrow> digit (v ! 0) = 9 \<and> digit (v ! 1) = 8"
    "take 2 v = ''99'' \<longleftrightarrow> digit (v ! 0) = 9 \<and> digit (v ! 1) = 9"
    "take 3 v = ''111'' \<longleftrightarrow> digit (v ! 0) = 1 \<and> digit (v ! 1) = 1 \<and> digit (v ! 2) = 1"
    "take 3 v = ''970'' \<longleftrightarrow> digit (v ! 0) = 9 \<and> digit (v ! 1) = 7 \<and> digit (v ! 2) = 0"
    "take 3 v = ''972'' \<longleftrightarrow> digit (v ! 0) = 9 \<and> digit (v ! 1) = 7 \<and> digit (v ! 2) = 2"
    "take 3 v = ''974'' \<longleftrightarrow> digit (v ! 0) = 9 \<and> digit (v ! 1) = 7 \<and> digit (v ! 2) = 4"
    "take 5 v = ''00999'' \<longleftrightarrow> digit (v ! 0) = 0 \<and> digit (v ! 1) = 0 \<and> digit (v ! 2) = 9 \<and> digit (v ! 3) = 9 \<and> digit (v ! 4) = 9"
    by (simp_all add: eq_char_digit)
qed

lemma formats_fit:
  assumes "length v = 9"
  shows "list_ex (fits v) formats \<longleftrightarrow>
    mid_at v 0 \<or> digit (v ! 0) = 0 \<and> mid_at v 1 \<or> digit (v ! 0) = 0 \<and> digit (v ! 1) = 0 \<and> mid_at v 2 \<or>
    digit (v ! 0) = 0 \<and> digit (v ! 1) = 0 \<and> digit (v ! 2) = 9 \<and> digit (v ! 3) = 9 \<and> digit (v ! 4) = 9 \<or>
    digit (v ! 0) = 1 \<and> digit (v ! 1) = 1 \<and> digit (v ! 2) = 1 \<and> mid_at v 3 \<or>
    digit (v ! 0) = 8 \<and> mid_at v 1 \<or> digit (v ! 0) = 9 \<and> digit (v ! 1) = 8 \<and> mid_at v 2 \<or>
    digit (v ! 0) = 9 \<and> digit (v ! 1) = 9 \<and> mid_at v 2 \<or>
    digit (v ! 0) = 9 \<and> digit (v ! 1) = 7 \<and> (digit (v ! 2) = 0 \<or> digit (v ! 2) = 2 \<or> digit (v ! 2) = 4)"
proof -
  note pd = prefix_digits[OF assms]
  have m: "201 \<le> number (take 3 (drop k v)) \<and> number (take 3 (drop k v)) \<le> 775 \<longleftrightarrow> mid_at v k" if "k \<le> 3" for k
    using mid_at_number[of k v] that assms by simp
  have t: "fits v (p, True) \<longleftrightarrow> take (length p) v = p \<and> mid_at v (length p)" if "length p \<le> 3" for p
    using m[OF that] by (simp add: fits_def)
  have f: "fits v (p, False) \<longleftrightarrow> take (length p) v = p" for p
    by (simp add: fits_def)
  have "fits v ('''', True) \<longleftrightarrow> mid_at v 0"
    "fits v (''0'', True) \<longleftrightarrow> take 1 v = ''0'' \<and> mid_at v 1"
    "fits v (''00'', True) \<longleftrightarrow> take 2 v = ''00'' \<and> mid_at v 2"
    "fits v (''111'', True) \<longleftrightarrow> take 3 v = ''111'' \<and> mid_at v 3"
    "fits v (''8'', True) \<longleftrightarrow> take 1 v = ''8'' \<and> mid_at v 1"
    "fits v (''98'', True) \<longleftrightarrow> take 2 v = ''98'' \<and> mid_at v 2"
    "fits v (''99'', True) \<longleftrightarrow> take 2 v = ''99'' \<and> mid_at v 2"
    using t[of "''''"] t[of "''0''"] t[of "''00''"] t[of "''111''"] t[of "''8''"] t[of "''98''"] t[of "''99''"] 
    by (simp_all add: numeral_2_eq_2 numeral_3_eq_3)
  moreover have "fits v (''00999'', False) \<longleftrightarrow> take 5 v = ''00999''" "fits v (''970'', False) \<longleftrightarrow> take 3 v = ''970''"
    "fits v (''972'', False) \<longleftrightarrow> take 3 v = ''972''" "fits v (''974'', False) \<longleftrightarrow> take 3 v = ''974''"
    by (simp_all add: f eval_nat_numeral)
  moreover have "list_ex P formats \<longleftrightarrow> P ('''', True) \<or> P (''0'', True) \<or> P (''00'', True) \<or> P (''00999'', False) \<or>
      P (''111'', True) \<or> P (''8'', True) \<or> P (''98'', True) \<or> P (''99'', True) \<or> P (''970'', False) \<or>
      P (''972'', False) \<or> P (''974'', False)" for P
    by (simp add: formats_def)
  ultimately show ?thesis
    unfolding pd by (simp only: conj_disj_distribL conj_assoc disj_ac)
qed

text \<open>C29. 
  The validator reports no error exactly for the identities of one of the formats: nine digits; a ship, coast or group
  station's prefix followed by identification digits between 201 and 775; or one of the prefixes without them.
\<close>

theorem MMSI_accepts_formats: "MMSI v = [] \<longleftrightarrow> valid_mmsi v"
proof (cases "length v = 9")
  case True
  have d: "list_all is_digit v \<longleftrightarrow> (\<forall>i<9. is_digit (v ! i))"
    using True by (simp add: list_all_length)
  have "branches v \<longleftrightarrow> list_ex (fits v) formats" if g: "\<forall>i<9. is_digit (v ! i)"
  proof -
    have l: "mid_at v k \<Longrightarrow> 2 \<le> digit (v ! k) \<and> digit (v ! k) \<le> 7" if "k \<le> 3" for k
      using mid_at_leading[of v k] g that by simp
    show ?thesis
      using l[of 0] l[of 1] l[of 2] unfolding formats_fit[OF True] branches_def Let_def
      by (auto simp del: One_nat_def)
  qed
  then show ?thesis
    using parse_branches[OF True] True d by (auto simp: MMSI_def valid_mmsi_def)
qed (simp add: MMSI_def valid_mmsi_def)

end
