(* ===== verification/Rule_Engine.thy ===== *)
theory Rule_Engine
  imports Complex_Main Zone_Stage "HOL-Library.Char_ord" "HOL-Library.List_Lexorder"
begin

text \<open>
  The rule engine of \<^verbatim>\<open>tms/rule\<close> (\<^verbatim>\<open>engine.go\<close>, \<^verbatim>\<open>tree.go\<close>, \<^verbatim>\<open>checker.go\<close>, \<^verbatim>\<open>check_rules_gen.go\<close>,
  \<^verbatim>\<open>cmp_targets_gen.go\<close>, \<^verbatim>\<open>store.go\<close>, \<^verbatim>\<open>zone.go\<close>) and the stage of the analysis daemon that applies it
  (\<^verbatim>\<open>tms/cmd/daemons/tanalyzed/rule.go\<close>).

  The engine reads the fields of a target by reflection, so a target is a value with named fields. A float is a
  rational number, an infinity or not a number, and is compared as IEEE floats are. Regular expressions
  (\<open>compile\<close>), the test of a point against a polygon (\<open>nearby\<close>) and the database are parameters. A Go map is
  ranged over in the order of a list of keys.
\<close>

section \<open>Values seen by reflection\<close>

datatype gfloat = NaN | NegInf | PosInf | Fin rat

fun f_less :: "gfloat \<Rightarrow> gfloat \<Rightarrow> bool" where
  "f_less NaN y = False"
| "f_less x NaN = False"
| "f_less NegInf y = (y \<noteq> NegInf)"
| "f_less x NegInf = False"
| "f_less PosInf y = False"
| "f_less (Fin a) PosInf = True"
| "f_less (Fin a) (Fin b) = (a < b)"

definition f_eq :: "gfloat \<Rightarrow> gfloat \<Rightarrow> bool" where
  "f_eq x y \<longleftrightarrow> x \<noteq> NaN \<and> x = y"

definition f_less_eq :: "gfloat \<Rightarrow> gfloat \<Rightarrow> bool" where
  "f_less_eq x y \<longleftrightarrow> f_less x y \<or> f_eq x y"

text \<open>
  \<open>GDouble\<close> is a pointer to a \<^verbatim>\<open>DoubleValue\<close>, \<open>GPtr\<close> a pointer to another struct type, \<open>GOther\<close> a value of any other
  kind (an enum, a bool, a slice). Integers are those of their type.
\<close>

datatype gval =
    GInt32 int | GInt64 int | GUint32 int | GUint64 int | GFloat32 gfloat | GFloat64 gfloat | GString string
  | GDouble "gfloat option"
  | GPtr string "(string \<times> gval) list option"
  | GStruct string "(string \<times> gval) list"
  | GOther nat

definition lower_char :: "char \<Rightarrow> char" where
  "lower_char c = (if CHR ''A'' \<le> c \<and> c \<le> CHR ''Z'' then char_of (of_char c + 32 :: nat) else c)"

definition ToLower :: "string \<Rightarrow> string" where
  "ToLower s = map lower_char s"

fun Split :: "string \<Rightarrow> char \<Rightarrow> string list" where
  "Split [] sep = [[]]"
| "Split (c # s) sep =
     (if c = sep then [] # Split s sep else (case Split s sep of [] \<Rightarrow> [[c]] | w # ws \<Rightarrow> (c # w) # ws))"

text \<open>\<^verbatim>\<open>reflect.Indirect\<close> and the fields; \<^verbatim>\<open>NumField\<close> panics on anything but a struct.\<close>

fun fields_of :: "gval \<Rightarrow> (string \<times> gval) list res" where
  "fields_of (GStruct ty fs) = Inr fs"
| "fields_of (GPtr ty (Some fs)) = Inr fs"
| "fields_of (GDouble (Some x)) = Inr [(''Value'', GFloat64 x)]"
| "fields_of v = Inl (Panic ''reflect: call of NumField'')"

definition getValueFieldByNameICase :: "gval \<Rightarrow> string \<Rightarrow> gval option res" where
  "getValueFieldByNameICase ref field =
     rbind (fields_of ref) (\<lambda>fs. Inr (map_option snd (find (\<lambda>(name, v). ToLower name = ToLower field) fs)))"

text \<open>\<^verbatim>\<open>Value.Elem\<close>: nil gives the invalid value, a value that is no pointer panics.\<close>

fun elem :: "gval \<Rightarrow> gval option res" where
  "elem (GPtr ty p) = Inr (map_option (GStruct ty) p)"
| "elem (GDouble p) = Inr (map_option (\<lambda>x. GStruct ''DoubleValue'' [(''Value'', GFloat64 x)]) p)"
| "elem v = Inl (Panic ''reflect: call of Elem'')"

definition both_valid :: "gval option \<Rightarrow> gval option \<Rightarrow> (gval \<times> gval) res" where
  "both_valid a b = (case (a, b) of (Some x, Some y) \<Rightarrow> Inr (x, y) | _ \<Rightarrow> Inl (Err ''Value is invalid''))"

fun walk_fields :: "gval \<Rightarrow> gval \<Rightarrow> string list \<Rightarrow> (gval \<times> gval) res" where
  "walk_fields goal original [] = Inr (goal, original)"
| "walk_fields goal original (f # fs) =
     rbind (getValueFieldByNameICase goal f) (\<lambda>g.
       rbind (getValueFieldByNameICase original f) (\<lambda>o'.
         rbind (both_valid g o') (\<lambda>(g, o').
           if fs = [] then Inr (g, o')
           else rbind (elem g) (\<lambda>g. rbind (elem o') (\<lambda>o'. rbind (both_valid g o') (\<lambda>(g, o'). walk_fields g o' fs))))))"

definition getValueBySpecificField :: "gval \<Rightarrow> gval \<Rightarrow> string \<Rightarrow> (gval \<times> gval) res" where
  "getValueBySpecificField goal original field = walk_fields goal original (Split field CHR ''.'')"

section \<open>Comparisons\<close>

text \<open>The generated comparisons differ only in the operator; the value of the target is on its left.\<close>

definition comp_value ::
  "(int \<Rightarrow> int \<Rightarrow> bool) \<Rightarrow> (gfloat \<Rightarrow> gfloat \<Rightarrow> bool) \<Rightarrow> (string \<Rightarrow> string \<Rightarrow> bool) \<Rightarrow> gval \<Rightarrow> gval \<Rightarrow> bool res"
where
  "comp_value icmp fcmp scmp val valOrigin =
     (let bad = Inl (Err ''Bad type for valOrigin'') in
      case val of
        GInt32 d \<Rightarrow> (case valOrigin of GInt32 r \<Rightarrow> Inr (icmp r d) | _ \<Rightarrow> bad)
      | GInt64 d \<Rightarrow> (case valOrigin of GInt64 r \<Rightarrow> Inr (icmp r d) | _ \<Rightarrow> bad)
      | GUint32 d \<Rightarrow> (case valOrigin of GUint32 r \<Rightarrow> Inr (icmp r d) | _ \<Rightarrow> bad)
      | GUint64 d \<Rightarrow> (case valOrigin of GUint64 r \<Rightarrow> Inr (icmp r d) | _ \<Rightarrow> bad)
      | GFloat32 d \<Rightarrow> (case valOrigin of GFloat32 r \<Rightarrow> Inr (fcmp r d) | _ \<Rightarrow> bad)
      | GFloat64 d \<Rightarrow> (case valOrigin of GFloat64 r \<Rightarrow> Inr (fcmp r d) | _ \<Rightarrow> bad)
      | GString d \<Rightarrow> (case valOrigin of GString r \<Rightarrow> Inr (scmp r d) | _ \<Rightarrow> bad)
      | GDouble d \<Rightarrow>
          (case valOrigin of
             GDouble r \<Rightarrow> (case (r, d) of (Some x, Some y) \<Rightarrow> Inr (fcmp x y) | _ \<Rightarrow> Inr False)
           | _ \<Rightarrow> bad)
      | _ \<Rightarrow> Inl (Err ''unknown type''))"

definition compGreaterEqualValue :: "gval \<Rightarrow> gval \<Rightarrow> bool res" where
  "compGreaterEqualValue = comp_value (\<lambda>r d. d \<le> r) (\<lambda>r d. f_less_eq d r) (\<lambda>r d. d \<le> r)"

definition compLesserValue :: "gval \<Rightarrow> gval \<Rightarrow> bool res" where
  "compLesserValue = comp_value (<) f_less (<)"

definition compLesserEqualValue :: "gval \<Rightarrow> gval \<Rightarrow> bool res" where
  "compLesserEqualValue = comp_value (\<le>) f_less_eq (\<le>)"

definition compEqualValue :: "gval \<Rightarrow> gval \<Rightarrow> bool res" where
  "compEqualValue = comp_value (=) f_eq (=)"

definition compGreaterValue :: "gval \<Rightarrow> gval \<Rightarrow> bool res" where
  "compGreaterValue = comp_value (\<lambda>r d. d < r) (\<lambda>r d. f_less d r) (\<lambda>r d. d < r)"

definition compRegExValue :: "(string \<Rightarrow> (string \<Rightarrow> bool) option) \<Rightarrow> gval \<Rightarrow> gval \<Rightarrow> bool res" where
  "compRegExValue compile val valOrigin =
     (case (val, valOrigin) of
        (GString re, GString str) \<Rightarrow>
          (case compile re of None \<Rightarrow> Inl (Err ''regexp'') | Some match \<Rightarrow> Inr (match str))
      | _ \<Rightarrow> Inl (Err ''bad types''))"

section \<open>Rules\<close>

datatype OperandType = OperandType_TRACK | OperandType_TARGET | OperandType_ZONE | UnknownOperand int

datatype Operation =
    Rule_EQUAL | Rule_TOWARD | Rule_IN | Rule_OUT | Rule_GREATER | Rule_GREATER_EQUAL | Rule_LESSER | Rule_LESSER_EQUAL
  | Rule_REGEX | OtherOperation int

text \<open>
  A condition without the conditions nested in it: of its track the registry id is read, of its zone the name, of its
  target the fields.
\<close>

record cond =
  OperandType :: OperandType
  Operation :: Operation
  cn_Track :: "string option"
  cn_Target :: "(string \<times> gval) list option"
  cn_Zone :: "string option"
  CheckFields :: "string list"

datatype Rule_IfAll = IfAll cond "Rule_IfAny option" "Rule_IfAll option"
  and Rule_IfAny = IfAny cond "Rule_IfAny option" "Rule_IfAll option"

datatype action = ThenNotice string | ThenForward "string list"

record Rule =
  rl_Id :: string
  rl_Name :: string
  rl_State :: int
  rl_Any :: "Rule_IfAny option"
  rl_All :: "Rule_IfAll option"
  rl_Notice :: "string option"
  rl_Forward :: "string list option"

text \<open>A track with the fields of its targets as reflection shows them, one list of fields for each target.\<close>

record 'p rtrack = "'p ztrack" +
  rt_Fields :: "(string \<times> gval) list list"

definition track_key :: "'p rtrack \<Rightarrow> string" where
  "track_key t = LookupID (ztrack.truncate t)"

definition first_fields :: "'p rtrack \<Rightarrow> (string \<times> gval) list" where
  "first_fields t = (case rt_Fields t of [] \<Rightarrow> [] | fs # _ \<Rightarrow> fs)"

section \<open>Conditions\<close>

text \<open>The generated functions for \<^verbatim>\<open>IfAny\<close> and \<^verbatim>\<open>IfAll\<close> have the same text.\<close>

fun check_fields :: "(gval \<Rightarrow> gval \<Rightarrow> bool res) \<Rightarrow> gval \<Rightarrow> gval \<Rightarrow> string list \<Rightarrow> bool res" where
  "check_fields cmp goal original [] = Inr True"
| "check_fields cmp goal original (field # fds) =
     (case getValueBySpecificField goal original field of
        Inl (Err e) \<Rightarrow> Inr False
      | Inl f \<Rightarrow> Inl f
      | Inr (val, valOriginal) \<Rightarrow>
          (case cmp val valOriginal of
             Inl (Err e) \<Rightarrow> Inr False
           | Inl f \<Rightarrow> Inl f
           | Inr b \<Rightarrow> if \<not> b then Inr False else check_fields cmp goal original fds))"

definition checkTargetByOperationAny :: "cond \<Rightarrow> (string \<times> gval) list \<Rightarrow> (gval \<Rightarrow> gval \<Rightarrow> bool res) \<Rightarrow> bool res" where
  "checkTargetByOperationAny c original cmp =
     (case cn_Target c of
        None \<Rightarrow> Inr False
      | Some goal \<Rightarrow> check_fields cmp (GPtr ''Target'' (Some goal)) (GStruct ''Target'' original) (CheckFields c))"

definition checkTargetByOperationAll :: "cond \<Rightarrow> (string \<times> gval) list \<Rightarrow> (gval \<Rightarrow> gval \<Rightarrow> bool res) \<Rightarrow> bool res" where
  "checkTargetByOperationAll c original cmp =
     (case cn_Target c of
        None \<Rightarrow> Inr False
      | Some goal \<Rightarrow> check_fields cmp (GPtr ''Target'' (Some goal)) (GStruct ''Target'' original) (CheckFields c))"

fun operation_cmp :: "(string \<Rightarrow> (string \<Rightarrow> bool) option) \<Rightarrow> Operation \<Rightarrow> (gval \<Rightarrow> gval \<Rightarrow> bool res) option" where
  "operation_cmp compile Rule_EQUAL = Some compEqualValue"
| "operation_cmp compile Rule_LESSER = Some compLesserValue"
| "operation_cmp compile Rule_LESSER_EQUAL = Some compLesserEqualValue"
| "operation_cmp compile Rule_GREATER = Some compGreaterValue"
| "operation_cmp compile Rule_GREATER_EQUAL = Some compGreaterEqualValue"
| "operation_cmp compile Rule_REGEX = Some (compRegExValue compile)"
| "operation_cmp compile op = None"

definition checkRuleForTargetAny :: "(string \<Rightarrow> (string \<Rightarrow> bool) option) \<Rightarrow> cond \<Rightarrow> 'p rtrack \<Rightarrow> bool res" where
  "checkRuleForTargetAny compile c t =
     (case zk_Targets t of
        [] \<Rightarrow> Inr False
      | target # _ \<Rightarrow>
          (case operation_cmp compile (Operation c) of
             None \<Rightarrow> Inr False
           | Some cmp \<Rightarrow> rbind (deref target) (\<lambda>g. checkTargetByOperationAny c (first_fields t) cmp)))"

definition checkRuleForTargetAll :: "(string \<Rightarrow> (string \<Rightarrow> bool) option) \<Rightarrow> cond \<Rightarrow> 'p rtrack \<Rightarrow> bool res" where
  "checkRuleForTargetAll compile c t =
     (case zk_Targets t of
        [] \<Rightarrow> Inr False
      | target # _ \<Rightarrow>
          (case operation_cmp compile (Operation c) of
             None \<Rightarrow> Inr False
           | Some cmp \<Rightarrow> rbind (deref target) (\<lambda>g. checkTargetByOperationAll c (first_fields t) cmp)))"

text \<open>
  The objects inside the zones, by the name of the zone. Of a stored zone the polygon is read, which may be nil;
  \<open>nearby\<close> tests a point against a polygon.
\<close>

type_synonym inside_map = "string \<rightharpoonup> string set"

definition zone_objects :: "inside_map \<Rightarrow> string \<Rightarrow> string set" where
  "zone_objects ins name = (case ins name of None \<Rightarrow> {} | Some ids \<Rightarrow> ids)"

definition checkRuleForZoneAny ::
  "('g \<Rightarrow> 'p \<Rightarrow> bool) \<Rightarrow> cond \<Rightarrow> 'p rtrack \<Rightarrow> (string \<rightharpoonup> 'g option) \<Rightarrow> inside_map \<Rightarrow> (bool \<times> inside_map) res"
where
  "checkRuleForZoneAny nearby c t zs insideZone =
     (case (zk_Targets t, cn_Zone c) of
        (target # _, Some name) \<Rightarrow>
          (case zs name of
             None \<Rightarrow> Inr (False, insideZone)
           | Some zoneByName \<Rightarrow>
               rbind (deref zoneByName) (\<lambda>poly.
               rbind (deref (Option.bind target zt_Position)) (\<lambda>point.
                 let ids = zone_objects insideZone name;
                     isInside = nearby poly point;
                     ids1 = (if isInside then insert (track_key t) ids else ids);
                     wasInside = (track_key t \<in> ids1) in
                 if Operation c = Rule_IN \<and> isInside then Inr (True, insideZone(name \<mapsto> insert (track_key t) ids1))
                 else if Operation c = Rule_OUT \<and> \<not> isInside \<and> wasInside then Inr (True, insideZone(name \<mapsto> ids1 - {track_key t}))
                 else Inr (False, insideZone(name \<mapsto> ids1)))))
      | _ \<Rightarrow> Inr (False, insideZone))"

definition checkRuleForZoneAll ::
  "('g \<Rightarrow> 'p \<Rightarrow> bool) \<Rightarrow> cond \<Rightarrow> 'p rtrack \<Rightarrow> (string \<rightharpoonup> 'g option) \<Rightarrow> inside_map \<Rightarrow> (bool \<times> inside_map) res"
where
  "checkRuleForZoneAll nearby c t zs insideZone =
     (case (zk_Targets t, cn_Zone c) of
        (target # _, Some name) \<Rightarrow>
          (case zs name of
             None \<Rightarrow> Inr (False, insideZone)
           | Some zoneByName \<Rightarrow>
               rbind (deref zoneByName) (\<lambda>poly.
               rbind (deref (Option.bind target zt_Position)) (\<lambda>point.
                 let ids = zone_objects insideZone name;
                     isInside = nearby poly point;
                     ids1 = (if isInside then insert (track_key t) ids else ids);
                     wasInside = (track_key t \<in> ids1) in
                 if Operation c = Rule_IN \<and> isInside then Inr (True, insideZone(name \<mapsto> insert (track_key t) ids1))
                 else if Operation c = Rule_OUT \<and> \<not> isInside \<and> wasInside then Inr (True, insideZone(name \<mapsto> ids1 - {track_key t}))
                 else Inr (False, insideZone(name \<mapsto> ids1)))))
      | _ \<Rightarrow> Inr (False, insideZone))"

definition checkRuleForTrackAny :: "cond \<Rightarrow> 'p rtrack \<Rightarrow> bool" where
  "checkRuleForTrackAny c t \<longleftrightarrow> Operation c = Rule_TOWARD \<and> cn_Track c = Some (zk_RegistryId t)"

definition checkRuleForTrackAll :: "cond \<Rightarrow> 'p rtrack \<Rightarrow> bool" where
  "checkRuleForTrackAll c t \<longleftrightarrow> Operation c = Rule_TOWARD \<and> cn_Track c = Some (zk_RegistryId t)"

section \<open>The expression tree\<close>

datatype TreeExpression = Tree (Result: bool) (Left: "TreeExpression option") (Right: "TreeExpression option")

fun calculate_from :: "bool \<Rightarrow> TreeExpression \<Rightarrow> bool" where
  "calculate_from result (Tree r None None) = result"
| "calculate_from result (Tree r l (Some t)) = calculate_from (Result t \<and> result) t"
| "calculate_from result (Tree r (Some t) None) = calculate_from (Result t \<or> result) t"

definition Calculate :: "TreeExpression \<Rightarrow> bool" where
  "Calculate tree = calculate_from (Result tree) tree"

text \<open>What the engine is given: regular expressions, the geometry, the zones.\<close>

record ('p, 'g) rule_env =
  compile :: "string \<Rightarrow> (string \<Rightarrow> bool) option"
  nearby :: "'g \<Rightarrow> 'p \<Rightarrow> bool"
  zone_polys :: "string \<rightharpoonup> 'g option"

text \<open>The result of one condition and the zone state after it; \<open>None\<close> for an undefined operand type.\<close>

definition check_all :: "('p, 'g) rule_env \<Rightarrow> cond \<Rightarrow> 'p rtrack \<Rightarrow> inside_map \<Rightarrow> (bool \<times> inside_map) option res" where
  "check_all E c t ins =
     (case OperandType c of
        OperandType_TARGET \<Rightarrow> rbind (checkRuleForTargetAll (compile E) c t) (\<lambda>b. Inr (Some (b, ins)))
      | OperandType_ZONE \<Rightarrow> rbind (checkRuleForZoneAll (nearby E) c t (zone_polys E) ins) (\<lambda>r. Inr (Some r))
      | OperandType_TRACK \<Rightarrow> Inr (Some (checkRuleForTrackAll c t, ins))
      | UnknownOperand _ \<Rightarrow> Inr None)"

definition check_any :: "('p, 'g) rule_env \<Rightarrow> cond \<Rightarrow> 'p rtrack \<Rightarrow> inside_map \<Rightarrow> (bool \<times> inside_map) option res" where
  "check_any E c t ins =
     (case OperandType c of
        OperandType_TARGET \<Rightarrow> rbind (checkRuleForTargetAny (compile E) c t) (\<lambda>b. Inr (Some (b, ins)))
      | OperandType_ZONE \<Rightarrow> rbind (checkRuleForZoneAny (nearby E) c t (zone_polys E) ins) (\<lambda>r. Inr (Some r))
      | OperandType_TRACK \<Rightarrow> Inr (Some (checkRuleForTrackAny c t, ins))
      | UnknownOperand _ \<Rightarrow> Inr None)"

text \<open>
  Building the tree. \<open>None\<close> for the tree is the early \<^verbatim>\<open>return false\<close>; the zone state is changed up to that point.
  The nested \<^verbatim>\<open>All\<close> is preferred to the nested \<^verbatim>\<open>Any\<close>; the child of an \<^verbatim>\<open>IfAll\<close> goes to the right, of an
  \<^verbatim>\<open>IfAny\<close> to the left.
\<close>

type_synonym built = "(TreeExpression option \<times> inside_map) res"

definition grown :: "(TreeExpression \<Rightarrow> TreeExpression) \<Rightarrow> TreeExpression option \<times> inside_map \<Rightarrow> built" where
  "grown f r = Inr (map_option f (fst r), snd r)"

fun build_all :: "('p, 'g) rule_env \<Rightarrow> 'p rtrack \<Rightarrow> Rule_IfAll \<Rightarrow> inside_map \<Rightarrow> built"
  and build_any :: "('p, 'g) rule_env \<Rightarrow> 'p rtrack \<Rightarrow> Rule_IfAny \<Rightarrow> inside_map \<Rightarrow> built" where
  "build_all E t (IfAll c anyc allc) ins =
     rbind (check_all E c t ins) (\<lambda>r.
       case r of
         None \<Rightarrow> Inr (None, ins)
       | Some (b, ins1) \<Rightarrow>
           (case allc of
              Some n \<Rightarrow> rbind (build_all E t n ins1) (grown (\<lambda>tr. Tree b None (Some tr)))
            | None \<Rightarrow>
                (case anyc of
                   Some n \<Rightarrow> rbind (build_any E t n ins1) (grown (\<lambda>tr. Tree b None (Some tr)))
                 | None \<Rightarrow> Inr (Some (Tree b None None), ins1))))"
| "build_any E t (IfAny c anyc allc) ins =
     rbind (check_any E c t ins) (\<lambda>r.
       case r of
         None \<Rightarrow> Inr (None, ins)
       | Some (b, ins1) \<Rightarrow>
           (case allc of
              Some n \<Rightarrow> rbind (build_all E t n ins1) (grown (\<lambda>tr. Tree b (Some tr) None))
            | None \<Rightarrow>
                (case anyc of
                   Some n \<Rightarrow> rbind (build_any E t n ins1) (grown (\<lambda>tr. Tree b (Some tr) None))
                 | None \<Rightarrow> Inr (Some (Tree b None None), ins1))))"

definition checkRuleTree :: "('p, 'g) rule_env \<Rightarrow> Rule \<Rightarrow> 'p rtrack \<Rightarrow> inside_map \<Rightarrow> (bool \<times> inside_map) res" where
  "checkRuleTree E r t ins =
     rbind
       (case rl_All r of
          Some n \<Rightarrow> build_all E t n ins
        | None \<Rightarrow> (case rl_Any r of Some n \<Rightarrow> build_any E t n ins | None \<Rightarrow> Inr (Some (Tree False None None), ins)))
       (\<lambda>(tree, ins'). Inr ((case tree of None \<Rightarrow> False | Some tr \<Rightarrow> Calculate tr), ins'))"

definition rule_action :: "Rule \<Rightarrow> action option" where
  "rule_action r =
     (case rl_Notice r of
        Some n \<Rightarrow> Some (ThenNotice n)
      | None \<Rightarrow> (case rl_Forward r of Some dcs \<Rightarrow> Some (ThenForward dcs) | None \<Rightarrow> None))"

fun CheckRule :: "('p, 'g) rule_env \<Rightarrow> Rule list \<Rightarrow> 'p rtrack \<Rightarrow> inside_map \<Rightarrow> ((action option \<times> string) list \<times> inside_map) res" where
  "CheckRule E [] t ins = Inr ([], ins)"
| "CheckRule E (r # rs) t ins =
     rbind (checkRuleTree E r t ins) (\<lambda>(b, ins1).
       rbind (CheckRule E rs t ins1) (\<lambda>(acts, ins2).
         Inr ((if b then [(rule_action r, rl_Name r)] else []) @ acts, ins2)))"

section \<open>The store of rules\<close>

text \<open>
  The cache of the rules of one process, and the database the processes share: the documents and the time kept in the
  document with id 0. Outcomes of database calls are arguments; \<open>None\<close> is no error.
\<close>

record StorageMongoDBRule =
  hashMap :: "string \<rightharpoonup> Rule"
  lastModified :: time
  database :: bool

record rules_db =
  db_rules :: "string \<rightharpoonup> Rule"
  db_time :: "time option"

definition NewStorageMongoDBRule :: "bool \<Rightarrow> StorageMongoDBRule" where
  "NewStorageMongoDBRule client = \<lparr>hashMap = Map.empty, lastModified = zero_time, database = client\<rparr>"

text \<open>
  The answers of the database to a reload: the time if it was found, the number of documents, the documents the
  iterator yields and the error at its end.
\<close>

record reload_answers =
  ra_time :: "time option"
  ra_count :: "nat res"
  ra_docs :: "Rule list"
  ra_close :: "go_fault option"

definition updatedHashMap :: "reload_answers \<Rightarrow> StorageMongoDBRule \<Rightarrow> StorageMongoDBRule \<times> go_fault option" where
  "updatedHashMap ra st =
     (if \<not> database st then (st, None)
      else if ra_time ra = Some (lastModified st) then (st, None)
      else case ra_count ra of
        Inl e \<Rightarrow> (st, Some e)
      | Inr n \<Rightarrow>
          if n > 99999 then (st, Some (Err ''a lot of records''))
          else (st\<lparr>hashMap := foldl (\<lambda>m r. m(rl_Id r \<mapsto> r)) (hashMap st) (ra_docs ra),
                   lastModified := (case ra_time ra of None \<Rightarrow> zero_time | Some tm \<Rightarrow> tm)\<rparr>, ra_close ra))"

definition UpsertRule ::
  "time \<Rightarrow> go_fault option \<Rightarrow> go_fault option \<Rightarrow> Rule \<Rightarrow> StorageMongoDBRule \<times> rules_db \<Rightarrow>
   (StorageMongoDBRule \<times> rules_db) \<times> go_fault option"
where
  "UpsertRule now err1 err2 r sd =
     (case sd of (st, db) \<Rightarrow>
        let st1 = st\<lparr>hashMap := (hashMap st)(rl_Id r \<mapsto> r)\<rparr> in
        if \<not> database st then ((st1, db), None)
        else if err1 \<noteq> None then ((st1, db), err1)
        else
          let db1 = db\<lparr>db_rules := (db_rules db)(rl_Id r \<mapsto> r)\<rparr> in
          if err2 \<noteq> None then ((st1, db1), err2) else ((st1, db1\<lparr>db_time := Some now\<rparr>), None))"

definition DeleteRule ::
  "go_fault option \<Rightarrow> string \<Rightarrow> StorageMongoDBRule \<times> rules_db \<Rightarrow> (StorageMongoDBRule \<times> rules_db) \<times> go_fault option"
where
  "DeleteRule err i sd =
     (case sd of (st, db) \<Rightarrow>
        let st1 = st\<lparr>hashMap := (hashMap st)(i := None)\<rparr> in
        if \<not> database st then ((st1, db), None)
        else if err \<noteq> None then ((st1, db), err)
        else ((st1, db\<lparr>db_rules := (db_rules db)(i := None)\<rparr>), None))"

text \<open>\<open>found\<close> is the answer of the database when the rule is not in the cache.\<close>

definition GetRule :: "Rule res \<Rightarrow> string \<Rightarrow> StorageMongoDBRule \<Rightarrow> Rule res" where
  "GetRule found i st =
     (case hashMap st i of
        Some r \<Rightarrow> Inr r
      | None \<Rightarrow> if \<not> database st then Inl (Err ''not found'') else found)"

definition GetAll :: "reload_answers \<Rightarrow> string list \<Rightarrow> StorageMongoDBRule \<Rightarrow> Rule list \<times> StorageMongoDBRule" where
  "GetAll ra ord st = (let st1 = fst (updatedHashMap ra st) in (List.map_filter (hashMap st1) ord, st1))"

text \<open>
  \<^verbatim>\<open>getByType\<close> on a nil pointer in a non-nil interface: the getters of nil return the first operand type and nil.
\<close>

fun all_has_type :: "OperandType \<Rightarrow> Rule_IfAll \<Rightarrow> bool"
  and any_has_type :: "OperandType \<Rightarrow> Rule_IfAny \<Rightarrow> bool" where
  "all_has_type ty (IfAll c anyc allc) \<longleftrightarrow>
     OperandType c = ty \<or>
     (case allc of Some n \<Rightarrow> all_has_type ty n | None \<Rightarrow> (case anyc of Some n \<Rightarrow> any_has_type ty n | None \<Rightarrow> False))"
| "any_has_type ty (IfAny c anyc allc) \<longleftrightarrow>
     OperandType c = ty \<or>
     (case allc of Some n \<Rightarrow> all_has_type ty n | None \<Rightarrow> (case anyc of Some n \<Rightarrow> any_has_type ty n | None \<Rightarrow> False))"

definition getByType_all :: "OperandType \<Rightarrow> Rule_IfAll option \<Rightarrow> bool" where
  "getByType_all ty p = (case p of None \<Rightarrow> ty = OperandType_TRACK | Some n \<Rightarrow> all_has_type ty n)"

definition getByType_any :: "OperandType \<Rightarrow> Rule_IfAny option \<Rightarrow> bool" where
  "getByType_any ty p = (case p of None \<Rightarrow> ty = OperandType_TRACK | Some n \<Rightarrow> any_has_type ty n)"

text \<open>Every pointer appended points to the loop variable, which holds the last rule of the iteration in the end.\<close>

definition GetByType :: "OperandType \<Rightarrow> string list \<Rightarrow> StorageMongoDBRule \<Rightarrow> Rule list" where
  "GetByType ty ord st =
     (let rs = List.map_filter (hashMap st) ord;
          hits = concat (map (\<lambda>r. replicate (of_bool (getByType_all ty (rl_All r)) + of_bool (getByType_any ty (rl_Any r))) ()) rs) in
      map (\<lambda>_. last rs) hits)"

section \<open>The store of zones\<close>

record 'g szone =
  sz_Name :: string
  sz_Poly :: "'g option"

text \<open>The contents of a response are nil, a zone, or data of another type, on which the type assertion panics.\<close>

datatype 'g zone_data = ZoneData "'g szone" | OtherData

definition assert_zone :: "'g zone_data option \<Rightarrow> 'g szone res" where
  "assert_zone d =
     rbind (deref d) (\<lambda>d. case d of ZoneData z \<Rightarrow> Inr z | OtherData \<Rightarrow> Inl (Panic ''interface conversion''))"

definition put_zone :: "'g szone \<Rightarrow> (string \<rightharpoonup> 'g szone) \<Rightarrow> (string \<rightharpoonup> 'g szone)" where
  "put_zone z zs = zs(sz_Name z \<mapsto> z)"

fun load_zones :: "(status \<times> 'g zone_data option) list \<Rightarrow> (string \<rightharpoonup> 'g szone) \<Rightarrow> (string \<rightharpoonup> 'g szone) res" where
  "load_zones [] zs = Inr zs"
| "load_zones ((st, d) # us) zs =
     (if st = Status_InitialLoadDone then Inr zs else rbind (assert_zone d) (\<lambda>z. load_zones us (put_zone z zs)))"

definition watch_zone :: "status \<Rightarrow> 'g zone_data option \<Rightarrow> (string \<rightharpoonup> 'g szone) \<Rightarrow> (string \<rightharpoonup> 'g szone) res" where
  "watch_zone st d zs =
     (if st = Status_InitialLoadDone then Inr zs
      else if st = Status_Current then rbind (assert_zone d) (\<lambda>z. Inr (put_zone z zs))
      else rbind (deref d) (\<lambda>d. case d of ZoneData z \<Rightarrow> Inr (zs(sz_Name z := None)) | OtherData \<Rightarrow> Inr zs))"

definition GetByName :: "string \<Rightarrow> (string \<rightharpoonup> 'g szone) \<Rightarrow> 'g szone res" where
  "GetByName name zs = (case zs name of None \<Rightarrow> Inl (Err ''The zone is not found'') | Some z \<Rightarrow> Inr z)"

section \<open>The rule stage\<close>

datatype rule_priority = Notice_Info | Notice_Alert

record rule_notice =
  rn_NoticeId :: string
  rn_Priority :: rule_priority
  rn_Target :: target_info

datatype 'p rule_call = NotifyRule rule_notice bool | ShareTrack "'p rtrack" "string list"

definition ruleNotice :: "(string \<Rightarrow> string) \<Rightarrow> 'p rtrack \<Rightarrow> string \<Rightarrow> rule_priority \<Rightarrow> rule_notice res" where
  "ruleNotice md5 t name priority =
     rbind (TargetInfoFromTrack (ztrack.truncate t)) (\<lambda>info.
       Inr \<lparr>rn_NoticeId = md5 (''(event:Rule)(track:'' @ zk_RegistryId t @ '')(id:'' @ zk_Id t @ '')(name:'' @ name @ '')''),
            rn_Priority = priority, rn_Target = info\<rparr>)"

fun perform :: "(string \<Rightarrow> string) \<Rightarrow> bool \<Rightarrow> 'p rtrack \<Rightarrow> (action option \<times> string) list \<Rightarrow> 'p rule_call list res" where
  "perform md5 ruleMatch t [] = Inr []"
| "perform md5 ruleMatch t ((Some (ThenNotice act), name) # as) =
     rbind (ruleNotice md5 t name (if act = ''alert'' then Notice_Alert else Notice_Info)) (\<lambda>n.
       rbind (perform md5 ruleMatch t as) (\<lambda>cs. Inr (NotifyRule n ruleMatch # cs)))"
| "perform md5 ruleMatch t ((Some (ThenForward dcs), name) # as) =
     rbind (perform md5 ruleMatch t as) (\<lambda>cs. Inr (ShareTrack t dcs # cs))"
| "perform md5 ruleMatch t ((None, name) # as) = perform md5 ruleMatch t as"

definition analyze_rules ::
  "(string \<Rightarrow> string) \<Rightarrow> ('p, 'g) rule_env \<Rightarrow> bool \<Rightarrow> Rule list \<Rightarrow> status \<Rightarrow> 'p rtrack option \<Rightarrow> inside_map \<Rightarrow>
   ('p rule_call list \<times> inside_map) res"
where
  "analyze_rules md5 E ready rules st tr ins =
     (if \<not> ready then Inr ([], ins)
      else case tr of
        None \<Rightarrow> Inl (Err ''empty update'')
      | Some t \<Rightarrow>
          rbind (CheckRule E rules t ins) (\<lambda>(acts, ins1).
            rbind (perform md5 (st = Status_Current) t acts) (\<lambda>cs. Inr (cs, ins1))))"

section \<open>The value of a rule\<close>

text \<open>
  The conditions of a rule in the order in which they are nested, with the connective each has to the next one
  (\<open>True\<close>: and), and their evaluation from left to right without a tree.
\<close>

fun links_all :: "Rule_IfAll \<Rightarrow> (bool \<times> cond) list" and links_any :: "Rule_IfAny \<Rightarrow> (bool \<times> cond) list" where
  "links_all (IfAll c anyc allc) =
     (True, c) # (case allc of Some n \<Rightarrow> links_all n | None \<Rightarrow> (case anyc of Some n \<Rightarrow> links_any n | None \<Rightarrow> []))"
| "links_any (IfAny c anyc allc) =
     (False, c) # (case allc of Some n \<Rightarrow> links_all n | None \<Rightarrow> (case anyc of Some n \<Rightarrow> links_any n | None \<Rightarrow> []))"

definition links :: "Rule \<Rightarrow> (bool \<times> cond) list" where
  "links r = (case rl_All r of Some n \<Rightarrow> links_all n | None \<Rightarrow> (case rl_Any r of Some n \<Rightarrow> links_any n | None \<Rightarrow> []))"

definition join :: "bool option \<Rightarrow> bool \<Rightarrow> bool \<Rightarrow> bool" where
  "join conn acc b = (case conn of None \<Rightarrow> b | Some k \<Rightarrow> if k then acc \<and> b else acc \<or> b)"

fun eval_links ::
  "('p, 'g) rule_env \<Rightarrow> 'p rtrack \<Rightarrow> bool option \<Rightarrow> bool \<Rightarrow> (bool \<times> cond) list \<Rightarrow> inside_map \<Rightarrow> (bool \<times> inside_map) res"
where
  "eval_links E t conn acc [] ins = Inr (acc, ins)"
| "eval_links E t conn acc ((k, c) # ls) ins =
     rbind (check_all E c t ins) (\<lambda>r.
       case r of
         None \<Rightarrow> Inr (False, ins)
       | Some (b, ins1) \<Rightarrow> eval_links E t (Some k) (join conn acc b) ls ins1)"

lemma any_is_all:
  "checkTargetByOperationAny = checkTargetByOperationAll" "checkRuleForTargetAny = checkRuleForTargetAll"
  "checkRuleForZoneAny = checkRuleForZoneAll" "checkRuleForTrackAny = checkRuleForTrackAll"
proof -
  show *: "checkTargetByOperationAny = checkTargetByOperationAll"
    by (intro ext) (simp add: checkTargetByOperationAny_def checkTargetByOperationAll_def)
  show "checkRuleForTargetAny = checkRuleForTargetAll"
    by (intro ext) (unfold checkRuleForTargetAny_def checkRuleForTargetAll_def *, rule refl)
  show "checkRuleForZoneAny = checkRuleForZoneAll"
    by (intro ext) (simp add: checkRuleForZoneAny_def checkRuleForZoneAll_def)
  show "checkRuleForTrackAny = checkRuleForTrackAll"
    by (intro ext) (simp add: checkRuleForTrackAny_def checkRuleForTrackAll_def)
qed

lemma check_any_all: "check_any = check_all"
  by (intro ext) (unfold check_any_def check_all_def any_is_all, rule refl)

text \<open>The value of a tree grown below a node that has the value \<open>acc\<close> so far.\<close>

definition valued :: "bool option \<Rightarrow> bool \<Rightarrow> built \<Rightarrow> (bool \<times> inside_map) res" where
  "valued conn acc b =
     rbind b (\<lambda>(tree, ins). Inr ((case tree of None \<Rightarrow> False | Some tr \<Rightarrow> calculate_from (join conn acc (Result tr)) tr), ins))"

lemma valued_simps:
  "valued conn acc (Inl e) = Inl e" "valued conn acc (Inr (None, ins)) = Inr (False, ins)"
  "valued conn acc (Inr (Some tr, ins)) = Inr (calculate_from (join conn acc (Result tr)) tr, ins)"
  by (simp_all add: valued_def)

lemma grown_simps [simp]: "grown f (None, ins) = Inr (None, ins)" "grown f (Some tr, ins) = Inr (Some (f tr), ins)"
  by (simp_all add: grown_def)

lemma built_cases: obtains e where "b = Inl e" | ins where "b = Inr (None, ins)" | tr ins where "b = (Inr (Some tr, ins) :: built)"
  by (metis old.sum.exhaust option.exhaust surj_pair)

lemma valued_grown_right:
  "valued conn acc (rbind b (grown (\<lambda>tr. Tree v None (Some tr)))) = valued (Some True) (join conn acc v) b"
  by (rule built_cases[of b]) (simp_all add: valued_simps join_def conj_commute)

lemma valued_grown_left:
  "valued conn acc (rbind b (grown (\<lambda>tr. Tree v (Some tr) None))) = valued (Some False) (join conn acc v) b"
  by (rule built_cases[of b]) (simp_all add: valued_simps join_def disj_commute)

lemma build_links:
  "valued conn acc (build_all E t n ins) = eval_links E t conn acc (links_all n) ins"
  "valued conn acc (build_any E t m ins) = eval_links E t conn acc (links_any m) ins"
proof (induction E t n ins and E t m ins arbitrary: conn acc and conn acc rule: build_all_build_any.induct)
  case (1 E t c anyc allc ins)
  show ?case
  proof (cases "check_all E c t ins")
    case (Inl e)
    then show ?thesis by (simp add: valued_def)
  next
    case (Inr r)
    show ?thesis
    proof (cases r)
      case None
      then show ?thesis using Inr by (simp add: valued_def)
    next
      case (Some p)
      then obtain b ins1 where p: "r = Some (b, ins1)" by (cases p) auto
      then show ?thesis using Inr 1
        by (cases allc; cases anyc) (simp_all add: valued_grown_right, simp add: valued_def)
    qed
  qed
next
  case (2 E t c anyc allc ins)
  show ?case
  proof (cases "check_all E c t ins")
    case (Inl e)
    then show ?thesis by (simp add: valued_def check_any_all)
  next
    case (Inr r)
    show ?thesis
    proof (cases r)
      case None
      then show ?thesis using Inr by (simp add: valued_def check_any_all)
    next
      case (Some p)
      then obtain b ins1 where p: "r = Some (b, ins1)" by (cases p) auto
      then show ?thesis using Inr 2
        by (cases allc; cases anyc) (simp_all add: valued_grown_left check_any_all, simp add: valued_def)
    qed
  qed
qed

text \<open>C25. 
  The tree the engine builds for a rule and then calculates has the value of the rule's conditions joined from left to
  right, each connective taken from the kind of the condition before it, also when a condition faults, changes the
  zone state or has an undefined operand type.
\<close>

theorem checkRuleTree_evaluates_links:
  "checkRuleTree E r t ins = eval_links E t None False (links r) ins"
proof -
  have v: "rbind b (\<lambda>(tree, ins'). Inr ((case tree of None \<Rightarrow> False | Some tr \<Rightarrow> Calculate tr), ins')) = valued None False b" for b
    by (rule built_cases[of b]) (simp_all add: valued_def Calculate_def join_def)
  show ?thesis
    unfolding checkRuleTree_def v links_def
    by (cases "rl_All r"; cases "rl_Any r") (simp_all add: build_links valued_simps join_def)
qed

fun nest_all :: "cond \<Rightarrow> cond list \<Rightarrow> Rule_IfAll" where
  "nest_all c [] = IfAll c None None"
| "nest_all c (d # ds) = IfAll c None (Some (nest_all d ds))"

fun nest_any :: "cond \<Rightarrow> cond list \<Rightarrow> Rule_IfAny" where
  "nest_any c [] = IfAny c None None"
| "nest_any c (d # ds) = IfAny c (Some (nest_any d ds)) None"

text \<open>The value of a condition on a target or a track, when it is defined.\<close>

definition value_of :: "('p, 'g) rule_env \<Rightarrow> 'p rtrack \<Rightarrow> cond \<Rightarrow> bool option" where
  "value_of E t c =
     (case OperandType c of
        OperandType_TARGET \<Rightarrow> (case checkRuleForTargetAll (compile E) c t of Inl _ \<Rightarrow> None | Inr b \<Rightarrow> Some b)
      | OperandType_TRACK \<Rightarrow> Some (checkRuleForTrackAll c t)
      | _ \<Rightarrow> None)"

lemma value_of_check: "value_of E t c = Some b \<Longrightarrow> check_all E c t ins = Inr (Some (b, ins))"
  by (auto simp: value_of_def check_all_def split: OperandType.splits sum.splits)

lemma links_nest: "links_all (nest_all c cs) = map (Pair True) (c # cs)" "links_any (nest_any c cs) = map (Pair False) (c # cs)"
  by (induction cs arbitrary: c) simp_all

lemma eval_uniform:
  assumes "\<forall>c\<in>set cs. value_of E t c \<noteq> None"
  shows "eval_links E t (Some k) acc (map (Pair k) cs) ins =
    Inr (if k then acc \<and> (\<forall>c\<in>set cs. value_of E t c = Some True) else acc \<or> (\<exists>c\<in>set cs. value_of E t c = Some True), ins)"
  using assms
proof (induction cs arbitrary: acc)
  case (Cons c cs)
  then obtain b where b: "value_of E t c = Some b" by auto
  have "\<forall>c\<in>set cs. value_of E t c \<noteq> None" using Cons.prems by simp
  from Cons.IH[OF this] show ?case
    by (simp add: value_of_check[OF b] b join_def)
qed simp

text \<open>
  A rule of nested \<^verbatim>\<open>IfAll\<close> conditions on targets and tracks matches exactly when all of them hold, a rule of nested
  \<^verbatim>\<open>IfAny\<close> conditions exactly when one of them holds.
\<close>

theorem nested_rule_value:
  assumes "\<forall>x\<in>set (c # cs). value_of E t x \<noteq> None"
  shows "checkRuleTree E (r\<lparr>rl_All := Some (nest_all c cs)\<rparr>) t ins = Inr (\<forall>x\<in>set (c # cs). value_of E t x = Some True, ins) \<and>
    checkRuleTree E (r\<lparr>rl_All := None, rl_Any := Some (nest_any c cs)\<rparr>) t ins = Inr (\<exists>x\<in>set (c # cs). value_of E t x = Some True, ins)"
proof -
  obtain b where b: "value_of E t c = Some b" using assms by auto
  have cs: "\<forall>x\<in>set cs. value_of E t x \<noteq> None" using assms by simp
  have e: "eval_links E t None False (map (Pair k) (c # cs)) ins = eval_links E t (Some k) b (map (Pair k) cs) ins" for k
    by (simp add: value_of_check[OF b] join_def)
  have l: "links (r\<lparr>rl_All := Some (nest_all c cs)\<rparr>) = map (Pair True) (c # cs)"
    "links (r\<lparr>rl_All := None, rl_Any := Some (nest_any c cs)\<rparr>) = map (Pair False) (c # cs)"
    by (simp_all add: links_def links_nest)
  show ?thesis
    unfolding checkRuleTree_evaluates_links l e eval_uniform[OF cs] by (simp add: b)
qed

section \<open>Rules on zones\<close>

definition zone_rule :: "Operation \<Rightarrow> string \<Rightarrow> Rule \<Rightarrow> bool" where
  "zone_rule op name r \<longleftrightarrow>
     (\<exists>c. rl_All r = Some (IfAll c None None) \<and> OperandType c = OperandType_ZONE \<and> Operation c = op \<and> cn_Zone c = Some name)"

definition located :: "string \<Rightarrow> 'p rtrack \<Rightarrow> 'p \<Rightarrow> bool" where
  "located k t p \<longleftrightarrow> track_key t = k \<and> (\<exists>tgt ts. zk_Targets t = Some tgt # ts \<and> zt_Position tgt = Some p)"

lemma zone_rule_step:
  assumes "zone_rule op name r" "located k t p" "zone_polys E name = Some (Some poly)"
  shows "checkRuleTree E r t ins =
    (if nearby E poly p then Inr (op = Rule_IN, ins(name \<mapsto> insert k (zone_objects ins name)))
     else if op = Rule_OUT \<and> k \<in> zone_objects ins name then Inr (True, ins(name \<mapsto> zone_objects ins name - {k}))
     else Inr (False, ins(name \<mapsto> zone_objects ins name)))"
  using assms
  by (auto simp: checkRuleTree_evaluates_links links_def zone_rule_def located_def check_all_def checkRuleForZoneAll_def
      Let_def join_def)

text \<open>A rule applied to the successive updates of a track, and what leaving means.\<close>

fun apply_rule :: "('p, 'g) rule_env \<Rightarrow> Rule \<Rightarrow> 'p rtrack list \<Rightarrow> inside_map \<Rightarrow> (bool list \<times> inside_map) res" where
  "apply_rule E r [] ins = Inr ([], ins)"
| "apply_rule E r (t # ts) ins =
     rbind (checkRuleTree E r t ins) (\<lambda>(b, ins1). rbind (apply_rule E r ts ins1) (\<lambda>(bs, ins2). Inr (b # bs, ins2)))"

fun leavings :: "bool \<Rightarrow> bool list \<Rightarrow> bool list" where
  "leavings was [] = []"
| "leavings was (now # rest) = (was \<and> \<not> now) # leavings now rest"

lemma zone_objects_upd [simp]: "zone_objects (ins(name \<mapsto> ids)) name = ids"
  by (simp add: zone_objects_def)

text \<open>
  A rule that asks for a zone to be entered matches exactly on the updates inside it; a rule that asks for it to be
  left matches exactly on the first update outside after one inside.
\<close>

theorem zone_rule_fires_on_edges:
  assumes "zone_polys E name = Some (Some poly)" "list_all2 (located k) ts ps"
  shows "(zone_rule Rule_IN name r \<longrightarrow> (\<exists>ins'. apply_rule E r ts ins = Inr (map (nearby E poly) ps, ins'))) \<and>
    (zone_rule Rule_OUT name r \<longrightarrow>
       (\<exists>ins'. apply_rule E r ts ins = Inr (leavings (k \<in> zone_objects ins name) (map (nearby E poly) ps), ins')))"
  using assms(2)
proof (induction ts ps arbitrary: ins rule: list_all2_induct)
  case (Cons t ts p ps)
  note st = zone_rule_step[OF _ Cons.hyps(1) assms(1), of _ r ins]
  have "\<exists>ins'. apply_rule E r (t # ts) ins = Inr (map (nearby E poly) (p # ps), ins')" if z: "zone_rule Rule_IN name r"
  proof -
    obtain ins1 where "checkRuleTree E r t ins = Inr (nearby E poly p, ins1)" using st[OF z] by (auto split: if_splits)
    then show ?thesis using Cons.IH[of ins1] z by auto
  qed
  moreover have "\<exists>ins'. apply_rule E r (t # ts) ins = Inr (leavings (k \<in> zone_objects ins name) (map (nearby E poly) (p # ps)), ins')"
    if z: "zone_rule Rule_OUT name r"
  proof -
    obtain ins1 where "checkRuleTree E r t ins = Inr (k \<in> zone_objects ins name \<and> \<not> nearby E poly p, ins1)"
      "k \<in> zone_objects ins1 name \<longleftrightarrow> nearby E poly p"
      using st[OF z] by (cases "nearby E poly p"; cases "k \<in> zone_objects ins name") auto
    then show ?thesis using Cons.IH[of ins1] z by auto
  qed
  ultimately show ?case by blast
qed simp

text \<open>
  Two rules that ask for the same zone to be left compete: the one evaluated first forgets the track, so of the two
  only that one matches when the track leaves, although the other one alone would.
\<close>

theorem leave_rules_compete:
  assumes "zone_rule Rule_OUT name r1" "zone_rule Rule_OUT name r2" "located k t p" "zone_polys E name = Some (Some poly)"
    and "\<not> nearby E poly p" "k \<in> zone_objects ins name"
  shows "(\<exists>ins'. CheckRule E [r1, r2] t ins = Inr ([(rule_action r1, rl_Name r1)], ins')) \<and>
    (\<exists>ins'. CheckRule E [r2] t ins = Inr ([(rule_action r2, rl_Name r2)], ins'))"
  using zone_rule_step[OF assms(1,3,4), of ins] zone_rule_step[OF assms(2,3,4), of ins]
    zone_rule_step[OF assms(2,3,4), of "ins(name \<mapsto> zone_objects ins name - {k})"] assms(5,6)
  by simp

section \<open>State and storage\<close>

text \<open>The state of a rule (inactive, deleted, \<dots>) has no influence on whether it is applied.\<close>

theorem rule_state_ignored:
  "CheckRule E (map (\<lambda>r. r\<lparr>rl_State := f r\<rparr>) rs) t ins = CheckRule E rs t ins"
proof (induction rs arbitrary: ins)
  case (Cons r rs)
  have "checkRuleTree E (r\<lparr>rl_State := f r\<rparr>) t ins = checkRuleTree E r t ins"
    by (simp add: checkRuleTree_evaluates_links links_def split: option.split)
  moreover have "rule_action (r\<lparr>rl_State := f r\<rparr>) = rule_action r" "rl_Name (r\<lparr>rl_State := f r\<rparr>) = rl_Name r"
    by (simp_all add: rule_action_def split: option.split)
  ultimately show ?case by (simp only: list.map CheckRule.simps Cons.IH)
qed simp

lemma foldl_put: "m i = Some r \<Longrightarrow> \<forall>x\<in>set docs. rl_Id x \<noteq> i \<Longrightarrow> foldl (\<lambda>m r. m(rl_Id r \<mapsto> r)) m docs i = Some r"
  by (induction docs arbitrary: m) auto

text \<open>
  A rule that another process deletes from the database stays in the cache of this process and is still returned by
  \<^verbatim>\<open>GetAll\<close>, whatever the reload answers: the deletion does not change the time of the rules, and a reload only adds.
\<close>

theorem deleted_rule_stays:
  assumes "DeleteRule None i (web, db) = ((web', db'), None)" "database web" "hashMap st i = Some r" "i \<in> set ord"
    and "\<forall>x\<in>set (ra_docs ra). db_rules db' (rl_Id x) = Some x"
  shows "r \<in> set (fst (GetAll ra ord st)) \<and> db_rules db' i = None \<and> db_time db' = db_time db"
proof -
  have db': "db' = db\<lparr>db_rules := (db_rules db)(i := None)\<rparr>"
    using assms(1,2) by (simp add: DeleteRule_def Let_def)
  then have "\<forall>x\<in>set (ra_docs ra). rl_Id x \<noteq> i" using assms(5) by auto
  from foldl_put[of "hashMap st", OF assms(3) this] have "hashMap (fst (updatedHashMap ra st)) i = Some r"
    using assms(3) by (simp add: updatedHashMap_def split: sum.splits)
  then have "r \<in> set (fst (GetAll ra ord st))"
    using assms(4) by (force simp: GetAll_def Let_def List.map_filter_def)
  then show ?thesis using db' by simp
qed

lemma perform_match: "perform md5 m t as = Inr cs \<Longrightarrow> NotifyRule n b \<in> set cs \<Longrightarrow> b = m"
  by (induction md5 m t as arbitrary: cs rule: perform.induct) (auto simp: rbind_def split: sum.splits)

text \<open>
  The stage never tells the notifier that a rule has stopped matching: on a current update every notice it sends
  says that the rule matches, and for a rule that does not match it sends none.
\<close>

theorem rule_notice_not_withdrawn:
  assumes "analyze_rules md5 E ready rules Status_Current tr ins = Inr (cs, ins')" "NotifyRule n b \<in> set cs"
  shows b
  using assms
  by (auto simp: analyze_rules_def rbind_def split: if_splits option.splits sum.splits prod.splits dest: perform_match)

section \<open>Witnesses\<close>

definition no_cond :: cond where
  "no_cond = \<lparr>OperandType = OperandType_TRACK, Operation = Rule_TOWARD, cn_Track = Some ''r7'', cn_Target = None,
     cn_Zone = None, CheckFields = []\<rparr>"

definition fast :: cond where
  "fast = no_cond\<lparr>OperandType := OperandType_TARGET, Operation := Rule_GREATER,
     cn_Target := Some [(''Speed'', GDouble (Some (Fin 5)))], CheckFields := [''Speed'']\<rparr>"

definition leaves :: "string \<Rightarrow> string \<Rightarrow> Rule" where
  "leaves rname name = \<lparr>rl_Id = rname, rl_Name = rname, rl_State = 0, rl_Any = None,
     rl_All = Some (IfAll (no_cond\<lparr>OperandType := OperandType_ZONE, Operation := Rule_OUT, cn_Zone := Some name\<rparr>) None None),
     rl_Notice = Some ''alert'', rl_Forward = None\<rparr>"

definition ferry :: "int \<Rightarrow> rat \<Rightarrow> int rtrack" where
  "ferry x v = \<lparr>zk_Id = ''f'', zk_DatabaseId = [], zk_RegistryId = ''r7'',
     zk_Targets = [Some \<lparr>zt_Type = zdevice.OtherDevice 0, zt_Position = Some x, zt_Nmea = None, zt_Imei = None,
                        zt_Nodeid = None, zt_Sarmsg = None\<rparr>],
     zk_Names = [], rt_Fields = [[(''Speed'', GDouble (Some (Fin v)))]]\<rparr>"

definition coast :: "(int, int set) rule_env" where
  "coast = \<lparr>compile = (\<lambda>_. None), nearby = (\<lambda>g p. p \<in> g), zone_polys = [''bay'' \<mapsto> Some {1, 2, 3}]\<rparr>"

lemma ferry_located: "located ''r7'' (ferry x v) x"
  by (simp add: located_def ferry_def track_key_def LookupID_def ztrack.truncate_def)

lemma leaves_bay: "zone_rule Rule_OUT ''bay'' (leaves rname ''bay'')"
  by (simp add: zone_rule_def leaves_def no_cond_def)

lemma ferry_values:
  "value_of coast (ferry 0 v) no_cond = Some True" "value_of coast (ferry 0 v) fast = Some (5 < v)"
  by (simp_all add: value_of_def no_cond_def fast_def checkRuleForTrackAll_def ferry_def checkRuleForTargetAll_def
      checkTargetByOperationAll_def first_fields_def getValueBySpecificField_def getValueFieldByNameICase_def both_valid_def
      compGreaterValue_def comp_value_def)

theorem nested_rule_value_witness:
  "checkRuleTree coast ((leaves ''x'' ''bay'')\<lparr>rl_All := Some (nest_all no_cond [fast])\<rparr>) (ferry 0 9) Map.empty = Inr (True, Map.empty) \<and>
   checkRuleTree coast ((leaves ''x'' ''bay'')\<lparr>rl_All := Some (nest_all no_cond [fast])\<rparr>) (ferry 0 4) Map.empty = Inr (False, Map.empty)"
  using nested_rule_value[of no_cond "[fast]" coast "ferry 0 9" "leaves ''x'' ''bay''" Map.empty]
    nested_rule_value[of no_cond "[fast]" coast "ferry 0 4" "leaves ''x'' ''bay''" Map.empty]
  by (auto simp: ferry_values)

theorem zone_rule_fires_on_edges_witness:
  "\<exists>ins'. apply_rule coast (leaves ''x'' ''bay'') [ferry 0 1, ferry 1 1, ferry 2 1, ferry 7 1, ferry 8 1] Map.empty =
     Inr ([False, False, False, True, False], ins')"
  using zone_rule_fires_on_edges[of coast "''bay''" "{1, 2, 3}" "''r7''"
      "[ferry 0 1, ferry 1 1, ferry 2 1, ferry 7 1, ferry 8 1]" "[0, 1, 2, 7, 8]" "leaves ''x'' ''bay''" Map.empty]
  by (simp add: ferry_located leaves_bay zone_objects_def) (simp add: coast_def)

theorem leave_rules_compete_witness:
  "\<exists>ins'. CheckRule coast [leaves ''x'' ''bay'', leaves ''y'' ''bay''] (ferry 7 1) [''bay'' \<mapsto> {''r7''}] =
     Inr ([(Some (ThenNotice ''alert''), ''x'')], ins')"
  using leave_rules_compete[OF leaves_bay leaves_bay ferry_located, of coast "{1, 2, 3}" 7 "[''bay'' \<mapsto> {''r7''}]" "''x''" "''y''" 1]
  by (simp add: zone_objects_def coast_def rule_action_def leaves_def)

definition cached :: StorageMongoDBRule where
  "cached = (NewStorageMongoDBRule True)\<lparr>hashMap := [''x'' \<mapsto> leaves ''x'' ''bay'']\<rparr>"

definition shared_db :: rules_db where
  "shared_db = \<lparr>db_rules = [''x'' \<mapsto> leaves ''x'' ''bay''], db_time = Some 5\<rparr>"

theorem deleted_rule_stays_witness:
  "leaves ''x'' ''bay'' \<in> set (fst (GetAll \<lparr>ra_time = Some 6, ra_count = Inr 0, ra_docs = [], ra_close = None\<rparr> [''x''] cached)) \<and>
   db_rules (snd (fst (DeleteRule None ''x'' (cached, shared_db)))) ''x'' = None"
  using deleted_rule_stays[of "''x''" cached shared_db "cached\<lparr>hashMap := Map.empty\<rparr>" "shared_db\<lparr>db_rules := Map.empty\<rparr>"
      cached "leaves ''x'' ''bay''" "[''x'']" "\<lparr>ra_time = Some 6, ra_count = Inr 0, ra_docs = [], ra_close = None\<rparr>"]
  by (simp add: DeleteRule_def cached_def NewStorageMongoDBRule_def shared_db_def)

definition told_leaving :: "int rule_call list" where
  "told_leaving = (case analyze_rules rev coast True [leaves ''x'' ''bay''] Status_Current (Some (ferry 7 1)) [''bay'' \<mapsto> {''r7''}] of
     Inl _ \<Rightarrow> [] | Inr (cs, _) \<Rightarrow> cs)"

theorem rule_notice_not_withdrawn_witness:
  "\<exists>n b. told_leaving = [NotifyRule n b] \<and> b"
proof -
  have "checkRuleTree coast (leaves ''x'' ''bay'') (ferry 7 1) [''bay'' \<mapsto> {''r7''}] = Inr (True, [''bay'' \<mapsto> {}])"
    using zone_rule_step[OF leaves_bay ferry_located, of coast "{1, 2, 3}" "''x''" 7 1 "[''bay'' \<mapsto> {''r7''}]"]
    by (simp add: coast_def zone_objects_def)
  moreover obtain n where "ruleNotice rev (ferry 7 1) ''x'' Notice_Alert = Inr n"
    by (simp add: ruleNotice_def ferry_def ztrack.truncate_def TargetInfoFromTrack_def)
  ultimately have r: "analyze_rules rev coast True [leaves ''x'' ''bay''] Status_Current (Some (ferry 7 1)) [''bay'' \<mapsto> {''r7''}] =
      Inr ([NotifyRule n True], [''bay'' \<mapsto> {}])"
    by (simp add: analyze_rules_def rule_action_def leaves_def)
  then have "told_leaving = [NotifyRule n True]" by (simp add: told_leaving_def)
  then show ?thesis using rule_notice_not_withdrawn[OF r] by auto
qed

end
