(* ===== verification/Nmea_Sentence.thy ===== *)
theory Nmea_Sentence
  imports Byte_Codec
begin

unbundle bit_operations_syntax

text \<open>
  The hand-written part of \<^verbatim>\<open>tms/nmea\<close>: sentences and their checksum (\<^verbatim>\<open>nmea.go\<close>) and the access to the bits of an
  armoured AIS payload (\<^verbatim>\<open>nmea_util.go\<close>). Strings are lists of bytes. A \<^verbatim>\<open>uint\<close> is a 64-bit word; shifts by 32
  and more give zero. Sentences are ASCII, so that \<^verbatim>\<open>SplitN(sentence, "", 3)\<close> separates the first two bytes.
\<close>

section \<open>The bits of a payload\<close>

definition DecodeAisChar :: "8 word \<Rightarrow> 8 word" where
  "DecodeAisChar character = (let c = character - 48 in if c > 40 then c - 8 else c)"

definition MessageType :: "8 word list \<Rightarrow> 8 word res" where
  "MessageType payload = (case payload of [] \<Rightarrow> Inl OutOfRange | c # _ \<Rightarrow> Inr (DecodeAisChar c))"

definition shl :: "32 word \<Rightarrow> 64 word \<Rightarrow> 32 word" where
  "shl w n = (if n < 32 then push_bit (unat n) w else 0)"

definition shr :: "32 word \<Rightarrow> 64 word \<Rightarrow> 32 word" where
  "shr w n = (if n < 32 then drop_bit (unat n) w else 0)"

definition bits_step ::
  "nat \<Rightarrow> nat \<Rightarrow> 8 word list \<Rightarrow> nat \<Rightarrow> 64 word \<times> 32 word \<Rightarrow> 64 word \<times> 32 word"
where
  "bits_step first lst payload i st =
     (case st of (processed, result) \<Rightarrow>
        let size = (word_of_nat lst - word_of_nat first :: 64 word); from' = first div 6; forTimes = int (lst div 6) - int from' in
        if length payload > from' + i then
          let temp = ucast (DecodeAisChar (payload ! (from' + i))) in
          if i = 0 then
            let remain = word_of_nat (first mod 6) + 1; processed = 6 - remain in
            (processed, result OR shr (shl temp (31 - processed)) (31 - size))
          else if int i < forTimes then
            let processed = processed + 6 in (processed, result OR shl temp (size - processed))
          else
            let remain = word_of_nat (lst mod 6) + 1 in (processed, result OR shr temp (6 - remain))
        else (processed, result))"

definition BitsToInt :: "nat \<Rightarrow> nat \<Rightarrow> 8 word list \<Rightarrow> 32 word" where
  "BitsToInt first lst payload =
     snd (fold (bits_step first lst payload) [0..<nat (int (lst div 6) - int (first div 6) + 1)] (0, 0))"

definition CbnBool :: "nat \<Rightarrow> 8 word list \<Rightarrow> bool" where
  "CbnBool n payload = (BitsToInt n n payload = 1)"

text \<open>Integer division rounds towards zero.\<close>

definition go_div :: "int \<Rightarrow> int \<Rightarrow> int" where
  "go_div a b = (if a < 0 then - ((- a) div b) else a div b)"

text \<open>Since \<^verbatim>\<open>remain\<close> is at most 5, the second branch of \<^verbatim>\<open>BitsToString\<close> is never taken.\<close>

fun text_loop :: "nat \<Rightarrow> nat \<Rightarrow> 8 word list \<Rightarrow> nat \<Rightarrow> nat \<Rightarrow> 8 word list res" where
  "text_loop start remain payload i 0 = Inr []"
| "text_loop start remain payload i (Suc n) =
     (if \<not> start + i + 1 < length payload then Inl OutOfRange
      else
        let char = (drop_bit 2 (push_bit (remain + 2) (DecodeAisChar (payload ! (start + i))))) OR
                   drop_bit (6 - remain) (DecodeAisChar (payload ! (start + i + 1)));
            char = (if char < 32 then char + 64 else char) in
        rbind (text_loop start remain payload (Suc i) n) (\<lambda>rest. Inr (char # rest)))"

definition BitsToString :: "nat \<Rightarrow> nat \<Rightarrow> 8 word list \<Rightarrow> 8 word list res" where
  "BitsToString first lst payload =
     (let available = length payload * 6 in
      if available < lst + 1 \<and> available < first + 5 then Inr []
      else
        let len = (if available < lst + 1 then int ((available - first) div 6) else go_div (int lst - int first + 1) 6) in
        if len < 0 then Inl (Panic ''makeslice: len out of range'')
        else rbind (text_loop (first div 6) (first mod 6) payload 0 (nat len)) (\<lambda>text. Inr (takeWhile (\<lambda>c. c \<noteq> 64) text)))"

section \<open>Sentences\<close>

definition bytes :: "string \<Rightarrow> 8 word list" where
  "bytes s = map (\<lambda>c. word_of_nat (of_char c)) s"

fun split_on :: "8 word \<Rightarrow> 8 word list \<Rightarrow> 8 word list list" where
  "split_on sep [] = [[]]"
| "split_on sep (c # s) =
     (if c = sep then [] # split_on sep s else (case split_on sep s of [] \<Rightarrow> [[c]] | w # ws \<Rightarrow> (c # w) # ws))"

text \<open>What follows the first occurrence of a substring.\<close>

fun after_first :: "8 word list \<Rightarrow> 8 word list \<Rightarrow> 8 word list option" where
  "after_first sub s =
     (if take (length sub) s = sub then Some (drop (length sub) s)
      else (case s of [] \<Rightarrow> None | _ # s' \<Rightarrow> after_first sub s'))"

declare after_first.simps [simp del]

definition index_of :: "'a list \<Rightarrow> nat \<Rightarrow> 'a res" where
  "index_of xs i = (if i < length xs then Inr (xs ! i) else Inl OutOfRange)"

definition upper :: "8 word \<Rightarrow> 8 word" where
  "upper c = (if 97 \<le> c \<and> c \<le> 122 then c - 32 else c)"

definition aisTalkers :: "8 word list list" where
  "aisTalkers = map bytes [''AB'', ''AD'', ''AI'', ''AN'', ''AR'', ''AS'', ''AT'', ''AX'', ''BS'', ''SA'']"

record BaseSentence =
  SOS :: "8 word"
  Talker :: "8 word list"
  Format :: "8 word list"
  Fields :: "8 word list list"
  Sum :: "8 word list"
  Raw :: "8 word list"

definition hex_digit :: "nat \<Rightarrow> 8 word" where
  "hex_digit d = (if d < 10 then word_of_nat (48 + d) else word_of_nat (55 + d))"

text \<open>\<^verbatim>\<open>%X\<close> of a byte, with a zero in front of a single digit.\<close>

definition hex_byte :: "8 word \<Rightarrow> 8 word list" where
  "hex_byte w = (if unat w < 16 then 48 # [hex_digit (unat w)] else [hex_digit (unat w div 16), hex_digit (unat w mod 16)])"

definition xor_of :: "8 word list \<Rightarrow> 8 word" where
  "xor_of s = foldl (\<lambda>x c. x XOR c) 0 s"

definition Checksum :: "8 word list \<Rightarrow> 8 word list" where
  "Checksum raw = 42 # hex_byte (xor_of (drop 1 raw))"

definition sumOk :: "BaseSentence \<Rightarrow> bool" where
  "sumOk s \<longleftrightarrow> hex_byte (xor_of (takeWhile (\<lambda>c. c \<noteq> 42) (drop 1 (Raw s)))) = Sum s"

text \<open>The fields of the part of a sentence after the talker, the format first.\<close>

definition fill :: "8 word \<Rightarrow> 8 word list \<Rightarrow> 8 word list \<Rightarrow> 8 word list \<Rightarrow> BaseSentence res" where
  "fill sos talker body raw =
     (let fieldSum = split_on 42 body; fds = split_on 44 (hd fieldSum) in
      rbind (index_of fieldSum 1) (\<lambda>sum.
        Inr \<lparr>SOS = sos, Talker = talker, Format = hd fds, Fields = tl fds, Sum = map upper sum, Raw = raw\<rparr>))"

definition split_sentence :: "8 word list \<Rightarrow> BaseSentence res" where
  "split_sentence raw =
     (let token = hd (split_on 44 raw) in
      case find (\<lambda>talker. after_first (talker @ bytes ''VD'') token \<noteq> None) aisTalkers of
        Some talker \<Rightarrow>
          rbind (index_of (split_on 33 raw) 1) (\<lambda>sentence.
            (case after_first talker sentence of None \<Rightarrow> Inl OutOfRange | Some body \<Rightarrow> fill 33 talker body raw))
      | None \<Rightarrow>
          rbind (if 33 \<in> set raw then index_of (split_on 33 raw) 1 else index_of (split_on 36 raw) 1) (\<lambda>sentence.
            if length sentence < 3 then Inl OutOfRange
            else fill 36 (take 2 sentence) (drop 2 sentence) raw))"

definition nmea_parse :: "8 word list \<Rightarrow> BaseSentence res" where
  "nmea_parse input =
     (if length (filter (\<lambda>c. c = 42) input) \<noteq> 1 then Inl (Err ''Sentence does not contain single checksum separator'')
      else if 36 \<notin> set input \<and> 33 \<notin> set input then Inl (Err ''Sentence does not contain a start character'')
      else rbind (split_sentence input) (\<lambda>s.
        if sumOk s then Inr s else Inl (Err ''Sentence checksum mismatch'')))"

section \<open>Reading bit fields\<close>

text \<open>Bit \<open>j\<close> of a payload, six to a character, the most significant first; missing characters are zero.\<close>

definition payload_bit :: "8 word list \<Rightarrow> nat \<Rightarrow> bool" where
  "payload_bit payload j \<longleftrightarrow> j div 6 < length payload \<and> bit (DecodeAisChar (payload ! (j div 6))) (5 - j mod 6)"

definition armoured :: "8 word list \<Rightarrow> bool" where
  "armoured payload \<longleftrightarrow> (\<forall>c\<in>set payload. DecodeAisChar c < 64)"

lemma bit_shl: "n < 32 \<Longrightarrow> bit (shl w n) k \<longleftrightarrow> k < 32 \<and> unat n \<le> k \<and> bit w (k - unat n)"
  by (auto simp: shl_def bit_push_bit_iff bit_simps dest: bit_imp_le_length)

lemma bit_shr: "n < 32 \<Longrightarrow> bit (shr w n) k \<longleftrightarrow> bit w (k + unat n)"
  by (simp add: shr_def bit_drop_bit_eq add.commute)

lemma small_bits:
  assumes "(w :: 8 word) < 64" "bit w k"
  shows "k < 6"
proof (rule ccontr)
  assume "\<not> k < 6"
  then have "(64 :: nat) \<le> 2 ^ k" using power_increasing[of 6 k "2 :: nat"] by simp
  moreover have "bit (unat w) k" using assms(2) by (simp add: bit_unsigned_iff)
  then have "unat w div 2 ^ k \<noteq> 0" unfolding bit_iff_odd by (metis even_zero)
  ultimately show False using assms(1) by (simp add: word_less_nat_alt)
qed

lemma unat_small: "k < 2 ^ 63 \<Longrightarrow> unat (word_of_nat k :: 64 word) = k"
  by (simp add: unat_of_nat)

lemma unat_diff: "b \<le> a \<Longrightarrow> a < 2 ^ 63 \<Longrightarrow> unat (word_of_nat a - word_of_nat b :: 64 word) = a - b"
  by (simp add: unat_sub word_le_nat_alt unat_small)

text \<open>The contribution of the first character to a field of \<open>s + 1\<close> bits that starts at its bit \<open>b\<close>.\<close>

lemma first_char:
  assumes "b < 6" "s < 32" "(c :: 8 word) < 64"
  shows "bit (shr (shl (ucast c) (31 - (6 - (word_of_nat b + 1)))) (31 - word_of_nat s)) n \<longleftrightarrow>
    n \<le> s \<and> s - n \<le> 5 - b \<and> bit c (5 - b - (s - n))"
proof -
  have "(31 - (6 - (word_of_nat b + 1)) :: 64 word) = word_of_nat (26 + b)" by simp
  then have u: "unat (31 - (6 - (word_of_nat b + 1)) :: 64 word) = 26 + b" using assms(1) unat_small[of "26 + b"] by simp
  have v: "unat (31 - word_of_nat s :: 64 word) = 31 - s" using unat_diff[of s 31] assms(2) by simp
  have l: "31 - (6 - (word_of_nat b + 1)) < (32 :: 64 word)" "31 - word_of_nat s < (32 :: 64 word)"
    using u v assms(1) by (simp_all add: word_less_nat_alt)
  show ?thesis
    unfolding bit_shr[OF l(2)] bit_shl[OF l(1)] u v
    using assms small_bits[OF assms(3)] by (auto simp: bit_ucast_iff add.commute)
qed

lemma middle_char:
  assumes "(c :: 8 word) < 64" "p \<le> s" "s < 32"
  shows "bit (shl (ucast c) (word_of_nat s - word_of_nat p)) n \<longleftrightarrow> s - p \<le> n \<and> n < 32 \<and> bit c (n - (s - p))"
proof -
  have u: "unat (word_of_nat s - word_of_nat p :: 64 word) = s - p" using unat_diff[of p s] assms by simp
  then have "word_of_nat s - word_of_nat p < (32 :: 64 word)" using assms(3) by (simp add: word_less_nat_alt)
  from bit_shl[OF this] show ?thesis using u by (auto simp: bit_ucast_iff)
qed

lemma last_char:
  assumes "d < 6"
  shows "bit (shr (ucast (c :: 8 word)) (6 - (word_of_nat d + 1))) n \<longleftrightarrow> bit c (n + (5 - d))"
proof -
  have "(6 - (word_of_nat d + 1) :: 64 word) = word_of_nat 5 - word_of_nat d" by simp
  then have u: "unat (6 - (word_of_nat d + 1) :: 64 word) = 5 - d" using unat_diff[of d 5] assms by simp
  then have "6 - (word_of_nat d + 1) < (32 :: 64 word)" by (simp add: word_less_nat_alt)
  from bit_shr[OF this] show ?thesis
    using u by (auto simp: bit_ucast_iff dest: bit_imp_le_length)
qed

lemma div6: "(x :: nat) div 6 = k \<longleftrightarrow> 6 * k \<le> x \<and> x < 6 * k + 6"
  by linarith

lemma mod6: "(x :: nat) div 6 = k \<Longrightarrow> x mod 6 = x - 6 * k"
  by (simp add: minus_mult_div_eq_mod[symmetric])

lemma middle_position:
  assumes "lst = 6 * a + b + s" "b < 6" "5 - b + 6 * m \<le> s" "n \<le> (s :: nat)"
  shows "(lst - n) div 6 = a + m \<longleftrightarrow> s - (5 - b + 6 * m) \<le> n \<and> n - (s - (5 - b + 6 * m)) \<le> 5"
    and "(lst - n) div 6 = a + m \<Longrightarrow> 5 - (lst - n) mod 6 = n - (s - (5 - b + 6 * m))"
proof -
  obtain b' where b': "5 = b + b'" using assms(2) nat_le_iff_add[of b 5] by auto
  then have P: "5 - b + 6 * m = b' + 6 * m" by simp
  obtain w where w: "s = b' + 6 * m + w" using assms(3) P nat_le_iff_add by auto
  obtain v where v: "s = n + v" using assms(4) le_Suc_ex by blast
  have e: "lst - n = 6 * a + b + v" "s - (5 - b + 6 * m) = w" using assms(1) v w P by simp_all
  show "(lst - n) div 6 = a + m \<longleftrightarrow> s - (5 - b + 6 * m) \<le> n \<and> n - (s - (5 - b + 6 * m)) \<le> 5"
    unfolding e div6 using b' w v by auto
  show "5 - (lst - n) mod 6 = n - (s - (5 - b + 6 * m))" if "(lst - n) div 6 = a + m"
  proof -
    have le: "6 * (a + m) \<le> 6 * a + b + v" using that unfolding e div6 by blast
    obtain u where u: "6 * a + b + v = 6 * (a + m) + u" using le_Suc_ex[OF le] by blast
    then have r: "u < 6" "(6 * a + b + v) mod 6 = u" using that mod6[OF that] unfolding e div6 by auto
    have "b + v = 6 * m + u" "b' + 6 * m + w = n + v" using u w v by simp_all
    then have "n + u = 5 + w" using b' by linarith
    then have "5 - u = n - w" using r(1) by arith
    then show ?thesis unfolding e r(2) .
  qed
qed

text \<open>The characters read so far have set exactly the bits of the field that they hold.\<close>

definition read_upto :: "nat \<Rightarrow> nat \<Rightarrow> 8 word list \<Rightarrow> nat \<Rightarrow> 64 word \<times> 32 word \<Rightarrow> bool" where
  "read_upto first lst payload m st \<longleftrightarrow>
     (0 < m \<and> first div 6 + m \<le> length payload \<and> (m = 1 \<or> first div 6 + m \<le> lst div 6) \<longrightarrow> fst st = word_of_nat (5 - first mod 6 + 6 * (m - 1))) \<and>
     (\<forall>n. bit (snd st) n \<longleftrightarrow> n \<le> lst - first \<and> payload_bit payload (lst - n) \<and> (lst - n) div 6 < first div 6 + m)"

lemma bits_step_reads:
  assumes "armoured payload" "first \<le> lst" "lst - first < 32" "first div 6 + m \<le> lst div 6" "lst < 2 ^ 63"
    and "read_upto first lst payload m st"
  shows "read_upto first lst payload (Suc m) (bits_step first lst payload m st)"
proof -
  define a b s d where "a = first div 6" "b = first mod 6" "s = lst - first" "d = lst mod 6"
  note defs = this
  have fst_eq: "first = 6 * a + b" "b < 6" "lst = 6 * (lst div 6) + d" "d < 6" "lst = first + s" "s < 32"
    using assms(2,3) by (auto simp: defs)
  obtain p r where st: "st = (p, r)" by (cases st)
  have sz: "(word_of_nat lst - word_of_nat first :: 64 word) = word_of_nat s"
    using assms(2) by (simp add: defs of_nat_diff)
  have old: "bit r n \<longleftrightarrow> n \<le> s \<and> payload_bit payload (lst - n) \<and> (lst - n) div 6 < a + m" for n
    using assms(6) st by (simp add: read_upto_def defs)
  show ?thesis
  proof (cases "a + m < length payload")
    case False
    then have "bits_step first lst payload m st = st" by (simp add: bits_step_def st defs)
    moreover have "(lst - n) div 6 < a + Suc m \<longleftrightarrow> (lst - n) div 6 < a + m" if "payload_bit payload (lst - n)" for n
      using that False by (auto simp: payload_bit_def)
    ultimately show ?thesis using old st False by (auto simp: read_upto_def defs)
  next
    case True
    let ?c = "DecodeAisChar (payload ! (a + m))"
    have c: "?c < 64" using assms(1) True by (simp add: armoured_def)
    define t where "t = (if m = 0 then shr (shl (ucast ?c) (31 - (6 - (word_of_nat b + 1)))) (31 - word_of_nat s)
      else if a + m < lst div 6 then shl (ucast ?c) (word_of_nat s - (p + 6)) else shr (ucast ?c) (6 - (word_of_nat d + 1)))"
    define p' where "p' = (if m = 0 then 6 - (word_of_nat b + 1) else if a + m < lst div 6 then p + 6 else p)"
    have k: "int m < int (lst div 6) - int a \<longleftrightarrow> a + m < lst div 6" by linarith
    have e: "bits_step first lst payload m st = (p', r OR t)"
      unfolding bits_step_def st prod.case Let_def sz defs(1,2,4)[symmetric] k using True by (simp add: t_def p'_def)
    have pp: "p' = word_of_nat (5 - b + 6 * m)" if "m = 0 \<or> a + m < lst div 6"
    proof (cases m)
      case 0
      have "(6 - (word_of_nat b + 1) :: 64 word) = word_of_nat (5 - b)" using fst_eq(2) by (simp add: of_nat_diff)
      then show ?thesis using 0 by (simp add: p'_def)
    next
      case (Suc k)
      then have "p = word_of_nat (5 - b + 6 * k)"
        using assms(6) st True that by (auto simp: read_upto_def defs)
      then show ?thesis using Suc that by (simp add: p'_def algebra_simps)
    qed
    have tb: "bit t n \<longleftrightarrow> n \<le> s \<and> (lst - n) div 6 = a + m \<and> bit ?c (5 - (lst - n) mod 6)" for n
    proof -
      have e1: "lst = 6 * a + b + s" and e3: "lst = 6 * (lst div 6) + d" using fst_eq by simp_all
      consider "m = 0" | "0 < m" "a + m < lst div 6" | "0 < m" "a + m = lst div 6" using assms(4) defs(1) by linarith
      then show ?thesis
      proof cases
        case 1
        have q: "n \<le> s \<Longrightarrow> (lst - n) div 6 = a \<longleftrightarrow> s - n \<le> 5 - b" using e1 fst_eq(2) unfolding div6 by linarith
        moreover have "5 - (lst - n) mod 6 = 5 - b - (s - n)" if "n \<le> s" "s - n \<le> 5 - b"
        proof -
          have "(lst - n) mod 6 = lst - n - 6 * a" using q[OF that(1)] that(2) by (intro mod6) simp
          then show ?thesis using that e1 by linarith
        qed
        ultimately show ?thesis using first_char[OF fst_eq(2,6) c, of n] 1 by (auto simp: t_def)
      next
        case 2
        let ?P = "5 - b + 6 * m"
        have P: "?P \<le> s" using 2 e1 e3 fst_eq(2,4) by linarith
        note q = middle_position(1)[OF e1 fst_eq(2) P] and x = middle_position(2)[OF e1 fst_eq(2) P]
        have "p + 6 = word_of_nat ?P" using pp 2 by (simp add: p'_def)
        then have "bit t n \<longleftrightarrow> s - ?P \<le> n \<and> n < 32 \<and> bit ?c (n - (s - ?P))"
          using middle_char[OF c P fst_eq(6)] 2 by (simp add: t_def)
        moreover have "n \<le> s" if "n - (s - ?P) \<le> 5" "s - ?P \<le> n" using that fst_eq(2) P 2(1) by linarith
        moreover have "bit ?c (n - (s - ?P)) \<Longrightarrow> n - (s - ?P) \<le> 5" using small_bits[OF c] by fastforce
        ultimately show ?thesis using q[of n] x[of n] fst_eq(6) by auto
      next
        case 3
        have L: "lst = 6 * (a + m) + d" using e3 3(2) by simp
        have q: "(lst - n) div 6 = a + m \<longleftrightarrow> n \<le> d" if "n \<le> s" using e1 fst_eq(4) that unfolding L div6 by auto
        have x: "5 - (lst - n) mod 6 = n + (5 - d)" if "n \<le> s" "n \<le> d"
        proof -
          have "(lst - n) mod 6 = lst - n - 6 * (a + m)" using q[OF that(1)] that(2) by (intro mod6) simp
          then show ?thesis using that L fst_eq(4) by simp
        qed
        have "n \<le> s" if "n \<le> d" using that e1 e3 fst_eq(2,4) 3 by linarith
        moreover have "bit ?c (n + (5 - d)) \<Longrightarrow> n \<le> d" using small_bits[OF c, of "n + (5 - d)"] fst_eq(4) by linarith
        ultimately show ?thesis using q x last_char[OF fst_eq(4)] 3 by (auto simp: t_def)
      qed
    qed
    then have "bit (r OR t) n \<longleftrightarrow> n \<le> s \<and> payload_bit payload (lst - n) \<and> (lst - n) div 6 < a + Suc m" for n
      using old True by (auto simp: bit_or_iff payload_bit_def less_Suc_eq)
    then show ?thesis using e pp by (auto simp: read_upto_def defs)
  qed
qed

text \<open>
  A field of up to 32 bits read from an armoured payload is the number whose binary digits are the bits of the payload
  from the first to the last position; positions behind the end of the payload count as zeros.
\<close>

theorem BitsToInt_exact:
  assumes "armoured payload" "first \<le> lst" "lst - first < 32" "lst < 2 ^ 63"
  shows "BitsToInt first lst payload = horner_sum of_bool 2 (map (\<lambda>n. payload_bit payload (lst - n)) [0..<Suc (lst - first)])"
proof -
  let ?T = "lst div 6 - first div 6"
  have le: "first div 6 \<le> lst div 6" using assms(2) by (simp add: div_le_mono)
  have "read_upto first lst payload m (fold (bits_step first lst payload) [0..<m] (0, 0))" if "m \<le> Suc ?T" for m
    using that
  proof (induction m)
    case 0
    have "\<not> (lst - n) div 6 < first div 6" if "n \<le> lst - first" for n
    proof -
      have "first \<le> lst - n" using that assms(2) by simp
      then show ?thesis by (simp add: div_le_mono not_less)
    qed
    then show ?case by (auto simp: read_upto_def)
  next
    case (Suc m)
    then have "first div 6 + m \<le> lst div 6" using le by simp
    from bits_step_reads[OF assms(1-3) this assms(4)] Suc show ?case by simp
  qed
  from this[of "Suc ?T"] have r: "read_upto first lst payload (Suc ?T) (fold (bits_step first lst payload) [0..<Suc ?T] (0, 0))" by simp
  have e: "nat (int (lst div 6) - int (first div 6) + 1) = Suc ?T" using le by simp
  have "(lst - n) div 6 < first div 6 + Suc ?T" for n
    using le div_le_mono[of "lst - n" lst 6] by simp
  then have b: "bit (BitsToInt first lst payload) n \<longleftrightarrow> n \<le> lst - first \<and> payload_bit payload (lst - n)" for n
    using r unfolding BitsToInt_def e read_upto_def by blast
  show ?thesis
    by (rule bit_word_eqI) (auto simp: b bit_horner_sum_bit_word_iff simp del: upt_Suc)
qed

text \<open>A text field that would start behind the end of a short message makes the slice length negative, which panics.\<close>

theorem short_text_panics:
  assumes "length payload \<noteq> 0" "6 * length payload < first"
  shows "BitsToString first (6 * (length payload - 1)) payload = Inl (Panic ''makeslice: len out of range'')"
proof -
  obtain k where k: "length payload = Suc k" using assms(1) by (cases "length payload") auto
  have "6 \<le> int first - 6 * int k - 1" using assms(2) k by linarith
  then have "go_div (int (6 * (length payload - 1)) - int first + 1) 6 < 0" by (simp add: go_div_def k)
  moreover have "\<not> length payload * 6 < 6 * (length payload - 1) + 1" using assms(1) by (cases "length payload") auto
  ultimately show ?thesis by (simp add: BitsToString_def Let_def)
qed

lemma text_loop_overrun:
  "k < n \<Longrightarrow> length payload \<le> start + i + k + 1 \<Longrightarrow> text_loop start remain payload i n = Inl OutOfRange"
proof (induction n arbitrary: i k)
  case (Suc n)
  show ?case
  proof (cases "start + i + 1 < length payload")
    case True
    then obtain k' where "k = Suc k'" using Suc.prems by (cases k) auto
    then have "text_loop start remain payload (Suc i) n = Inl OutOfRange" using Suc.prems by (intro Suc.IH[of k']) auto
    then show ?thesis using True by (simp add: rbind_def)
  qed simp
qed simp

text \<open>
  A text field that is aligned with the characters of the payload and cut short by its end is read one character too
  far, so that a truncated message panics instead of giving a shorter text.
\<close>

theorem truncated_text_panics:
  assumes "first mod 6 = 0" "first + 6 \<le> 6 * length payload" "6 * length payload \<le> lst"
  shows "BitsToString first lst payload = Inl OutOfRange"
proof -
  obtain k where k: "first = 6 * k" using assms(1) by auto
  obtain m where m: "length payload = k + Suc m"
    using assms(2) less_iff_Suc_add[of k "length payload"] unfolding k by auto
  have "text_loop k 0 payload 0 (Suc m) = Inl OutOfRange" by (rule text_loop_overrun[of m]) (simp_all add: m)
  moreover have "length payload * 6 < lst + 1" "\<not> length payload * 6 < first + 5" using assms(2,3) by linarith+
  moreover have "(length payload * 6 - first) div 6 = Suc m" by (simp add: k m)
  ultimately show ?thesis by (simp add: BitsToString_def Let_def k rbind_def del: text_loop.simps of_nat_Suc)
qed

section \<open>The checksum\<close>

lemma hex_digit_inj: "a < 16 \<Longrightarrow> b < 16 \<Longrightarrow> hex_digit a = hex_digit b \<longleftrightarrow> a = b"
proof -
  assume "a < 16" "b < 16"
  then have "a \<in> set [0..<16]" "b \<in> set [0..<16]" by simp_all
  moreover have "\<forall>a\<in>set [0..<16]. \<forall>b\<in>set [0..<16]. hex_digit a = hex_digit b \<longleftrightarrow> a = b" by code_simp
  ultimately show ?thesis by blast
qed

lemma hex_byte_digits: "hex_byte w = [hex_digit (unat w div 16), hex_digit (unat w mod 16)]"
  by (simp add: hex_byte_def hex_digit_def)

lemma unat8: "unat (w :: 8 word) < 256"
  using unsigned_less[of w] by simp

lemma hex_byte_inj: "hex_byte v = hex_byte w \<longleftrightarrow> v = w"
proof
  assume h: "hex_byte v = hex_byte w"
  have "unat v < 256" "unat w < 256" using unat8 by blast+
  then have "unat v div 16 < 16" "unat w div 16 < 16" by simp_all
  then have "unat v div 16 = unat w div 16" "unat v mod 16 = unat w mod 16"
    using h hex_digit_inj by (auto simp: hex_byte_digits)
  then have "unat v = unat w" by (metis div_mult_mod_eq)
  then show "v = w" by (simp add: unsigned_word_eqI)
qed simp

lemma upper_hex: "map upper (hex_byte w) = hex_byte w"
proof -
  have "\<forall>d\<in>set [0..<16]. upper (hex_digit d) = hex_digit d" by code_simp
  moreover have "unat w div 16 < 16" using unat8[of w] by simp
  ultimately show ?thesis by (simp add: hex_byte_digits)
qed

lemma xor_foldl: "foldl (\<lambda>x c. x XOR c) (a :: 8 word) s = a XOR foldl (\<lambda>x c. x XOR c) 0 s"
proof (induction s arbitrary: a)
  case (Cons c s)
  show ?case using Cons[of "a XOR c"] Cons[of c] by (simp add: xor.assoc)
qed simp

lemma xor_cancel: "(a :: 8 word) XOR b = a XOR c \<longleftrightarrow> b = c"
proof
  assume "a XOR b = a XOR c"
  then have "a XOR (a XOR b) = a XOR (a XOR c)" by simp
  then show "b = c" by (simp add: xor.assoc[symmetric])
qed simp

lemma xor_cancel2: "(b :: 8 word) XOR a = c XOR a \<longleftrightarrow> b = c"
  using xor_cancel[of a b c] by (simp add: xor.commute)

lemma xor_of_append: "xor_of (a @ b) = xor_of a XOR xor_of b"
  using xor_foldl[of "foldl (\<lambda>x c. x XOR c) 0 a" b] by (simp add: xor_of_def)

lemma xor_of_Cons: "xor_of (c # s) = c XOR xor_of s"
  using xor_foldl[of c s] by (simp add: xor_of_def)

section \<open>Accepted sentences\<close>

lemma split_on_none: "sep \<notin> set s \<Longrightarrow> split_on sep s = [s]"
  by (induction s) auto

lemma split_on_one: "sep \<notin> set a \<Longrightarrow> sep \<notin> set b \<Longrightarrow> split_on sep (a @ sep # b) = [a, b]"
  by (induction a) (auto simp: split_on_none)

lemma split_on_segment:
  assumes "w \<in> set (split_on sep (pre @ 42 # cs))" "42 \<in> set w" "sep \<noteq> 42" "sep \<notin> set cs" "42 \<notin> set pre" "42 \<notin> set cs"
  shows "\<exists>q. w = q @ 42 # cs \<and> 42 \<notin> set q"
  using assms
proof (induction pre arbitrary: w)
  case Nil
  then have "split_on sep (42 # cs) = [42 # cs]" by (intro split_on_none) auto
  then show ?case using Nil.prems(1) by auto
next
  case (Cons c pre)
  show ?case
  proof (cases "c = sep")
    case True
    then show ?thesis using Cons.prems Cons.IH[of w] by auto
  next
    case False
    obtain w0 ws where s: "split_on sep (pre @ 42 # cs) = w0 # ws" by (cases "split_on sep (pre @ 42 # cs)"; cases pre) (auto split: if_splits list.splits)
    then have "w = c # w0 \<or> w \<in> set ws" using Cons.prems(1) False by auto
    moreover have "\<exists>q. v = q @ 42 # cs \<and> 42 \<notin> set q" if "v \<in> {w0} \<union> set ws" "42 \<in> set v" for v
      using that Cons.IH[of v] Cons.prems s by auto
    ultimately show ?thesis using Cons.prems(2,5)
      by (metis UnCI append_Cons insertI1 list.set_intros(1) set_ConsD)
  qed
qed

lemma after_first_drop: "after_first sub s = Some b \<Longrightarrow> \<exists>k. b = drop k s"
proof (induction sub s rule: after_first.induct)
  case (1 sub s)
  show ?case
  proof (cases "take (length sub) s = sub")
    case True
    then show ?thesis using 1(2) by (auto simp: after_first.simps[of sub s])
  next
    case False
    then obtain c s' where s: "s = c # s'" using 1(2) by (cases s) (auto simp: after_first.simps[of sub "[]"])
    then have "after_first sub s' = Some b" using 1(2) False by (simp add: after_first.simps[of sub "c # s'"])
    then obtain k where "b = drop k s'" using 1(1)[OF False s] by blast
    then show ?thesis using s by (intro exI[of _ "Suc k"]) simp
  qed
qed

lemma fill_sum:
  assumes "fill sos tk (drop k (q @ 42 # cs)) raw = Inr s" "42 \<notin> set q" "42 \<notin> set cs"
  shows "Sum s = map upper cs \<and> Raw s = raw"
proof (cases "k \<le> length q")
  case True
  have "42 \<notin> set (drop k q)" using assms(2) by (meson in_set_dropD)
  from split_on_one[OF this assms(3)] True show ?thesis using assms(1) by (auto simp: fill_def index_of_def Let_def)
next
  case False
  then obtain j where "k = length q + Suc j" using less_iff_Suc_add[of "length q" k] by auto
  then have "drop k (q @ 42 # cs) = drop j cs" by simp
  moreover have "42 \<notin> set (drop j cs)" using assms(3) by (meson in_set_dropD)
  ultimately show ?thesis using assms(1) split_on_none[of 42 "drop j cs"] by (simp add: fill_def index_of_def Let_def)
qed

lemma index_of_in: "index_of xs i = Inr x \<Longrightarrow> x \<in> set xs"
  by (auto simp: index_of_def split: if_splits)

lemma fill_has_sum: "fill sos tk body raw = Inr s \<Longrightarrow> 42 \<in> set body"
  by (rule ccontr) (simp add: fill_def index_of_def Let_def split_on_none)

lemma split_sentence_sum:
  assumes "split_sentence (pre @ 42 # cs) = Inr s" "42 \<notin> set pre" "42 \<notin> set cs" "33 \<notin> set cs" "36 \<notin> set cs"
  shows "Sum s = map upper cs \<and> Raw s = pre @ 42 # cs"
proof -
  let ?raw = "pre @ 42 # cs"
  obtain w sep k sos tk where w: "index_of (split_on sep ?raw) 1 = Inr w" "sep = 33 \<or> sep = 36" "fill sos tk (drop k w) ?raw = Inr s"
  proof (cases "find (\<lambda>talker. after_first (talker @ bytes ''VD'') (hd (split_on 44 ?raw)) \<noteq> None) aisTalkers")
    case None
    then obtain w where "(if 33 \<in> set ?raw then index_of (split_on 33 ?raw) 1 else index_of (split_on 36 ?raw) 1) = Inr w"
        "fill 36 (take 2 w) (drop 2 w) ?raw = Inr s"
      using assms(1) by (auto simp: split_sentence_def Let_def rbind_def split: sum.splits if_splits)
    then show ?thesis using that by (auto split: if_splits)
  next
    case (Some tk)
    then obtain w b where "index_of (split_on 33 ?raw) 1 = Inr w" "after_first tk w = Some b" "fill 33 tk b ?raw = Inr s"
      using assms(1) by (auto simp: split_sentence_def Let_def rbind_def split: sum.splits option.splits)
    then show ?thesis using that after_first_drop by blast
  qed
  have "42 \<in> set w" using fill_has_sum[OF w(3)] by (meson in_set_dropD)
  then obtain q where "w = q @ 42 # cs" "42 \<notin> set q"
    using split_on_segment[OF index_of_in[OF w(1)]] w(2) assms by auto
  then show ?thesis using fill_sum[of sos tk k q cs ?raw s] w(3) assms(3) by simp
qed

lemma takeWhile_upto: "c \<notin> set b \<Longrightarrow> takeWhile (\<lambda>d. d \<noteq> c) (b @ c # cs) = b"
  by (induction b) auto

lemma parsed_sum:
  assumes "nmea_parse (c # body @ 42 # cs) = Inr s" "c \<noteq> 42" "42 \<notin> set body" "42 \<notin> set cs" "33 \<notin> set cs" "36 \<notin> set cs"
  shows "hex_byte (xor_of body) = map upper cs"
proof -
  have sp: "split_sentence ((c # body) @ 42 # cs) = Inr s" "sumOk s"
    using assms(1) by (auto simp: nmea_parse_def rbind_def split: if_splits sum.splits)
  have "Sum s = map upper cs \<and> Raw s = (c # body) @ 42 # cs"
    using split_sentence_sum[OF sp(1) _ assms(4-6)] assms(2,3) by auto
  moreover note takeWhile_upto[OF assms(3), of cs]
  ultimately show ?thesis using sp(2) by (simp add: sumOk_def)
qed

text \<open>
  A sentence in which one byte in front of the checksum has been changed is not accepted, whatever the talker and
  format, as long as the byte is not changed to or from the separator of the checksum.
\<close>

theorem corrupted_sentence_rejected:
  assumes "nmea_parse (c # a @ x # b @ 42 # cs) = Inr s" "x \<noteq> y" "42 \<notin> set (c # a @ x # y # b @ cs)" "33 \<notin> set cs" "36 \<notin> set cs"
  shows "\<nexists>s'. nmea_parse (c # a @ y # b @ 42 # cs) = Inr s'"
proof
  assume "\<exists>s'. nmea_parse (c # a @ y # b @ 42 # cs) = Inr s'"
  then obtain s' where s': "nmea_parse (c # (a @ y # b) @ 42 # cs) = Inr s'" by auto
  have "hex_byte (xor_of (a @ x # b)) = map upper cs" "hex_byte (xor_of (a @ y # b)) = map upper cs"
    using parsed_sum[of c "a @ x # b" cs s] parsed_sum[OF s'] assms by auto
  then have "xor_of (a @ x # b) = xor_of (a @ y # b)" using hex_byte_inj by metis
  then show False using assms(2) by (simp add: xor_of_append xor_of_Cons xor_cancel xor_cancel2)
qed

fun joined :: "8 word \<Rightarrow> 8 word list list \<Rightarrow> 8 word list" where
  "joined sep [] = []"
| "joined sep [w] = w"
| "joined sep (w # ws) = w @ sep # joined sep ws"

lemma split_on_append: "sep \<notin> set w \<Longrightarrow> split_on sep (w @ sep # s) = w # split_on sep s"
  by (induction w) auto

lemma split_joined: "ws \<noteq> [] \<Longrightarrow> \<forall>w\<in>set ws. sep \<notin> set w \<Longrightarrow> split_on sep (joined sep ws) = ws"
  by (induction sep ws rule: joined.induct) (auto simp: split_on_none split_on_append)

lemma set_joined: "set (joined sep ws) \<subseteq> insert sep (\<Union>w\<in>set ws. set w)"
  by (induction sep ws rule: joined.induct) auto

lemma hex_byte_plain: "set (hex_byte w) \<inter> {33, 36, 42, 44} = {}"
proof -
  have "\<forall>d\<in>set [0..<16]. hex_digit d \<notin> {33, 36, 42, 44}" by code_simp
  moreover have "unat w div 16 < 16" using unat8[of w] by simp
  ultimately show ?thesis by (simp add: hex_byte_digits)
qed

definition ais_talker :: "8 word list \<Rightarrow> 8 word list option" where
  "ais_talker raw = find (\<lambda>talker. after_first (talker @ bytes ''VD'') (hd (split_on 44 raw)) \<noteq> None) aisTalkers"

lemma ais_talker_found:
  assumes "tk \<in> set aisTalkers" "fmt \<in> set [bytes ''VDM'', bytes ''VDO'']" "fds \<noteq> []"
  shows "ais_talker ((33 # tk @ joined 44 (fmt # fds)) @ cs) = Some tk"
proof -
  have "\<forall>tk\<in>set aisTalkers. \<forall>fmt\<in>set [bytes ''VDM'', bytes ''VDO'']. 44 \<notin> set (33 # tk @ fmt) \<and>
      find (\<lambda>talker. after_first (talker @ bytes ''VD'') (33 # tk @ fmt) \<noteq> None) aisTalkers = Some tk"
    by code_simp
  then have f: "44 \<notin> set (33 # tk @ fmt)"
      "find (\<lambda>talker. after_first (talker @ bytes ''VD'') (33 # tk @ fmt) \<noteq> None) aisTalkers = Some tk"
    using assms(1,2) by blast+
  obtain y where "(33 # tk @ joined 44 (fmt # fds)) @ cs = (33 # tk @ fmt) @ 44 # y" using assms(3) by (cases fds) auto
  then have "hd (split_on 44 ((33 # tk @ joined 44 (fmt # fds)) @ cs)) = 33 # tk @ fmt"
    using split_on_append[OF f(1), of y] by (simp only: list.sel)
  then show ?thesis unfolding ais_talker_def using f(2) by simp
qed

text \<open>
  A sentence written with its checksum behind it is read back: its talker, format and fields are those it was written
  with, for the \<^verbatim>\<open>VDM\<close> and \<^verbatim>\<open>VDO\<close> sentences of the AIS talkers and for the other sentences that start with a dollar sign.
\<close>

theorem sentence_roundtrip:
  fixes sos :: "8 word" and tk fmt :: "8 word list" and fds :: "8 word list list"
  defines "raw \<equiv> sos # tk @ joined 44 (fmt # fds)"
  assumes "fmt \<noteq> []" "\<forall>w\<in>set (tk # fmt # fds). set w \<inter> {33, 36, 42, 44} = {}"
    and "sos = 36 \<and> length tk = 2 \<and> ais_talker (raw @ Checksum raw) = None \<or>
         sos = 33 \<and> tk \<in> set aisTalkers \<and> fmt \<in> set [bytes ''VDM'', bytes ''VDO''] \<and> fds \<noteq> []"
  shows "nmea_parse (raw @ Checksum raw) =
    Inr \<lparr>SOS = sos, Talker = tk, Format = fmt, Fields = fds, Sum = hex_byte (xor_of (tl raw)), Raw = raw @ Checksum raw\<rparr>"
proof -
  let ?j = "joined 44 (fmt # fds)" and ?h = "hex_byte (xor_of (tl raw))"
  have r: "raw @ Checksum raw = sos # (tk @ ?j) @ 42 # ?h" by (simp add: raw_def Checksum_def)
  have "set ?j \<subseteq> insert 44 (\<Union>w\<in>set (fmt # fds). set w)" by (rule set_joined)
  then have "33 \<notin> set ?j" "36 \<notin> set ?j" "42 \<notin> set ?j" using assms(3) by auto
  moreover have "33 \<notin> set tk" "36 \<notin> set tk" "42 \<notin> set tk" using assms(3) by auto
  ultimately have j: "33 \<notin> set (tk @ ?j)" "36 \<notin> set (tk @ ?j)" "42 \<notin> set (tk @ ?j)" "42 \<notin> set ?j" by auto
  have h: "33 \<notin> set ?h" "36 \<notin> set ?h" "42 \<notin> set ?h" using hex_byte_plain[of "xor_of (tl raw)"] by auto
  have sos: "sos \<in> {33, 36}" using assms(4) by blast
  have "filter (\<lambda>c. c = 42) ((tk @ ?j) @ 42 # ?h) = [42]"
  proof -
    have "filter (\<lambda>c. c = 42) (tk @ ?j) = []" "filter (\<lambda>c. c = 42) ?h = []" using j(3) h(3) by (auto simp: filter_empty_conv)
    then show ?thesis unfolding filter_append by auto
  qed
  then have c: "length (filter (\<lambda>c. c = 42) (raw @ Checksum raw)) = 1" unfolding r using sos by auto
  have s: "index_of (split_on sos (raw @ Checksum raw)) 1 = Inr ((tk @ ?j) @ 42 # ?h)"
    using split_on_one[of sos "[]" "(tk @ ?j) @ 42 # ?h"] j h sos unfolding r by (auto simp: index_of_def)
  have "split_on 44 ?j = fmt # fds" using assms(3) by (intro split_joined) auto
  then have f: "fill sos tk (?j @ 42 # ?h) x =
      Inr \<lparr>SOS = sos, Talker = tk, Format = fmt, Fields = fds, Sum = ?h, Raw = x\<rparr>" for x
    using split_on_one[OF j(4) h(3)] by (simp add: fill_def index_of_def upper_hex)
  have sp: "split_sentence (raw @ Checksum raw) =
      Inr \<lparr>SOS = sos, Talker = tk, Format = fmt, Fields = fds, Sum = ?h, Raw = raw @ Checksum raw\<rparr>" (is "_ = Inr ?s")
    using assms(4)
  proof
    assume a: "sos = 36 \<and> length tk = 2 \<and> ais_talker (raw @ Checksum raw) = None"
    have "33 \<notin> set (raw @ Checksum raw)" using a j(1) h(1) unfolding r by auto
    then show ?thesis
      using a s f unfolding split_sentence_def Let_def ais_talker_def by (simp add: rbind_def)
  next
    assume a: "sos = 33 \<and> tk \<in> set aisTalkers \<and> fmt \<in> set [bytes ''VDM'', bytes ''VDO''] \<and> fds \<noteq> []"
    then have "ais_talker (raw @ Checksum raw) = Some tk" unfolding raw_def using ais_talker_found by blast
    moreover have "after_first tk ((tk @ ?j) @ 42 # ?h) = Some (?j @ 42 # ?h)" by (simp add: after_first.simps)
    ultimately show ?thesis
      using a s f unfolding split_sentence_def Let_def ais_talker_def by (simp add: rbind_def)
  qed
  have "takeWhile (\<lambda>c. c \<noteq> 42) (drop 1 (raw @ Checksum raw)) = tl raw" unfolding r using takeWhile_upto[OF j(3)] by (simp add: raw_def)
  then have "sumOk ?s" by (simp add: sumOk_def)
  moreover have "\<not> (36 \<notin> set (raw @ Checksum raw) \<and> 33 \<notin> set (raw @ Checksum raw))" using sos unfolding r by auto
  ultimately show ?thesis unfolding nmea_parse_def c sp by (simp add: rbind_def)
qed

section \<open>Witnesses\<close>

theorem BitsToInt_exact_witness: "BitsToInt 8 13 (bytes ''177K'') = 28"
proof -
  have "armoured (bytes ''177K'')" by (simp add: armoured_def bytes_def DecodeAisChar_def)
  from BitsToInt_exact[OF this, of 8 13] show ?thesis
    by (simp add: payload_bit_def bytes_def DecodeAisChar_def upt_rec bit_numeral_rec)
qed

theorem short_text_panics_witness:
  "BitsToString 72 (6 * (length (bytes ''<5MwpV'') - 1)) (bytes ''<5MwpV'') = Inl (Panic ''makeslice: len out of range'')"
  by (rule short_text_panics) (simp_all add: bytes_def)

theorem truncated_text_panics_witness: "BitsToString 90 131 (replicate 20 48) = Inl OutOfRange"
  by (rule truncated_text_panics) simp_all

definition rate_sentence :: "8 word list" where
  "rate_sentence = 36 # [71, 80] @ joined 44 [bytes ''ROT'', bytes ''35'', bytes ''A'']"

lemma rate_talker: "ais_talker (rate_sentence @ Checksum rate_sentence) = None"
  by code_simp

theorem sentence_roundtrip_witness:
  "\<exists>s. nmea_parse (rate_sentence @ Checksum rate_sentence) = Inr s \<and> Talker s = bytes ''GP'' \<and> Format s = bytes ''ROT'' \<and>
     Fields s = [bytes ''35'', bytes ''A'']"
  using sentence_roundtrip[of "bytes ''ROT''" "[71, 80]" "[bytes ''35'', bytes ''A'']"] rate_talker
  by (simp add: rate_sentence_def) (simp add: bytes_def)

theorem corrupted_sentence_rejected_witness:
  "\<nexists>s. nmea_parse (36 # [71, 80] @ 83 # bytes ''OT,35,A'' @ 42 # hex_byte (xor_of (tl rate_sentence))) = Inr s"
proof -
  let ?b = "bytes ''OT,35,A''" and ?h = "hex_byte (xor_of (tl rate_sentence))"
  have r: "rate_sentence @ Checksum rate_sentence = 36 # [71, 80] @ 82 # ?b @ 42 # ?h"
    by (simp add: rate_sentence_def Checksum_def bytes_def)
  obtain s where s: "nmea_parse (36 # [71, 80] @ 82 # ?b @ 42 # ?h) = Inr s"
    using sentence_roundtrip[of "bytes ''ROT''" "[71, 80]" "[bytes ''35'', bytes ''A'']"] rate_talker r
    by (simp add: rate_sentence_def) (simp add: bytes_def)
  show ?thesis
    by (rule corrupted_sentence_rejected[OF s])
      (use hex_byte_plain[of "xor_of (tl rate_sentence)"] in \<open>auto simp: bytes_def\<close>)
qed

end
