(* ===== verification/Omnicom_Bits.thy ===== *)
theory Omnicom_Bits
  imports Byte_Codec
begin

text \<open>
  The bit strings of \<^verbatim>\<open>tms/omnicom/Omnicom.go\<close>: numbers of a fixed width, byte strings and the cyclic redundancy check of
  a beacon message. The code keeps a message as a string of the characters \<^verbatim>\<open>0\<close> and \<^verbatim>\<open>1\<close>, all of which come from
  \<^verbatim>\<open>strconv.FormatUint\<close> and from literals; a bit string is a list of booleans here.
\<close>

section \<open>Numbers\<close>

type_synonym bitstring = "bool list"

text \<open>\<^verbatim>\<open>strconv.FormatUint(n, 2)\<close> and \<^verbatim>\<open>strconv.ParseUint(s, 2, bitSize)\<close>.\<close>

fun FormatUint :: "nat \<Rightarrow> bitstring" where
  "FormatUint n = (if n < 2 then [n = 1] else FormatUint (n div 2) @ [odd n])"

declare FormatUint.simps [simp del]

definition value_of :: "bitstring \<Rightarrow> nat" where
  "value_of s = foldl (\<lambda>n b. 2 * n + of_bool b) 0 s"

definition ParseUint :: "bitstring \<Rightarrow> nat \<Rightarrow> nat res" where
  "ParseUint s bitSize =
     (if s = [] then Inl (Err ''invalid syntax'')
      else if 2 ^ bitSize \<le> value_of s then Inl (Err ''value out of range'')
      else Inr (value_of s))"

definition pad :: "bitstring \<Rightarrow> nat \<Rightarrow> bitstring" where
  "pad str len = (if len \<le> length str then str else replicate (len - length str) False @ str)"

section \<open>Bytes\<close>

text \<open>The text decoder stops at a zero byte, the decoder of whole messages does not.\<close>

fun text_bytes :: "nat \<Rightarrow> bitstring \<Rightarrow> octet list res" where
  "text_bytes 0 s = Inr []"
| "text_bytes (Suc n) s =
     rbind (ParseUint (take 8 s) 32) (\<lambda>num.
       if num = 0 then Inr [] else rbind (text_bytes n (drop 8 s)) (\<lambda>rest. Inr (word_of_nat num # rest)))"

definition decodeToByte :: "bitstring \<Rightarrow> octet list res" where
  "decodeToByte input = text_bytes (length input div 8) input"

definition encFromByte :: "octet list \<Rightarrow> bitstring" where
  "encFromByte byteList = concat (map (\<lambda>b. pad (FormatUint (unat b)) 8) byteList)"

definition encodeFromByte :: "octet list \<Rightarrow> nat \<Rightarrow> bitstring" where
  "encodeFromByte byteList bits =
     encFromByte byteList @
     concat (replicate ((bits - length byteList * 8 + 7) div 8) [False, False, True, False, False, False, False, False])"

fun dec_bytes :: "nat \<Rightarrow> bitstring \<Rightarrow> octet list res" where
  "dec_bytes 0 s = Inr []"
| "dec_bytes (Suc n) s =
     rbind (ParseUint (take 8 s) 32) (\<lambda>num. rbind (dec_bytes n (drop 8 s)) (\<lambda>rest. Inr (word_of_nat num # rest)))"

definition decToByte :: "bitstring \<Rightarrow> octet list res" where
  "decToByte input = dec_bytes (length input div 8) input"

section \<open>The cyclic redundancy check\<close>

definition divisor :: bitstring where
  "divisor = [True, False, False, True, True, False, False, False, True]"

text \<open>A bit of the result is zero where dividend and divisor agree.\<close>

definition divide :: "bitstring \<Rightarrow> nat \<Rightarrow> bitstring" where
  "divide dividend index =
     take index dividend @ map2 (\<lambda>a b. a \<noteq> b) (slice dividend index (index + 9)) divisor @ drop (index + 9) dividend"

definition crc_step :: "nat \<Rightarrow> bitstring \<Rightarrow> bitstring" where
  "crc_step index dividend = (if dividend ! index then divide dividend index else dividend)"

definition crc_loop :: "bitstring \<Rightarrow> bitstring" where
  "crc_loop dividend = fold crc_step [0..<length dividend - 8] dividend"

definition checkCRC :: "bitstring \<Rightarrow> unit res" where
  "checkCRC input =
     (if length input < 8 then Inl OutOfRange
      else if drop (length input - 8) (crc_loop input) \<noteq> replicate 8 False
      then Inl (Err ''CRC check failed for input string'')
      else Inr ())"

definition attachCRC :: "bitstring \<Rightarrow> bitstring res" where
  "attachCRC input =
     (if length input < 8 then Inl OutOfRange
      else
        let result = take (length input - 8) input; dividend = crc_loop (result @ replicate 8 False) in
        Inr (result @ drop (length dividend - 8) dividend))"

subsection \<open>The division is linear\<close>

lemma length_divide [simp]: "index + 9 \<le> length d \<Longrightarrow> length (divide d index) = length d"
  by (simp add: divide_def divisor_def)

lemma nth_divide:
  assumes "index + 9 \<le> length d" "j < length d"
  shows "divide d index ! j = (if index \<le> j \<and> j < index + 9 then d ! j \<noteq> divisor ! (j - index) else d ! j)"
proof -
  have l: "length (map2 (\<lambda>a b. a \<noteq> b) (slice d index (index + 9)) divisor) = 9" using assms by (simp add: divisor_def)
  consider "j < index" | "index \<le> j" "j < index + 9" | "index + 9 \<le> j" by linarith
  then show ?thesis
  proof cases
    case 2
    have "length divisor = 9" "j - index < 9" using 2 by (auto simp: divisor_def)
    then show ?thesis using 2 assms l by (simp add: divide_def nth_append)
  next
    case 3
    then have "\<not> j - index < 9" by simp
    then show ?thesis using 3 assms l by (simp add: divide_def nth_append)
  qed (use assms in \<open>simp add: divide_def nth_append\<close>)
qed

lemma length_crc_step [simp]: "index + 9 \<le> length d \<Longrightarrow> length (crc_step index d) = length d"
  by (simp add: crc_step_def)

lemma nth_crc_step:
  assumes "index + 9 \<le> length d" "j < length d"
  shows "crc_step index d ! j = (d ! j \<noteq> (d ! index \<and> index \<le> j \<and> j < index + 9 \<and> divisor ! (j - index)))"
  using nth_divide[OF assms] by (auto simp: crc_step_def)

definition bxor :: "bitstring \<Rightarrow> bitstring \<Rightarrow> bitstring" where
  "bxor a b = map2 (\<lambda>x y. x \<noteq> y) a b"

lemma length_bxor [simp]: "length (bxor a b) = min (length a) (length b)"
  by (simp add: bxor_def)

lemma nth_bxor [simp]: "j < length a \<Longrightarrow> j < length b \<Longrightarrow> bxor a b ! j = (a ! j \<noteq> b ! j)"
  by (simp add: bxor_def)

lemma crc_step_bxor:
  assumes "length a = length b" "index + 9 \<le> length a"
  shows "crc_step index (bxor a b) = bxor (crc_step index a) (crc_step index b)"
proof (rule nth_equalityI)
  fix j assume "j < length (crc_step index (bxor a b))"
  then have "j < length a" "j < length b" "index < length a" "index < length b" using assms by auto
  then show "crc_step index (bxor a b) ! j = bxor (crc_step index a) (crc_step index b) ! j"
    using assms by (auto simp: nth_crc_step)
qed (use assms in auto)

definition divided :: "nat \<Rightarrow> nat \<Rightarrow> bitstring \<Rightarrow> bitstring" where
  "divided i j d = fold crc_step [i..<j] d"

lemma crc_loop_divided: "crc_loop d = divided 0 (length d - 8) d"
  by (simp add: crc_loop_def divided_def)

lemma divided_Suc: "i \<le> j \<Longrightarrow> divided i (Suc j) d = crc_step j (divided i j d)"
  by (simp add: divided_def)

lemma divided_none [simp]: "divided i i d = d"
  by (simp add: divided_def)

lemma divided_trans: "i \<le> j \<Longrightarrow> j \<le> k \<Longrightarrow> divided j k (divided i j d) = divided i k d"
  using upt_add_eq_append[of i j "k - j"] by (simp add: divided_def)

lemma length_divided [simp]: "j + 8 \<le> length d \<Longrightarrow> length (divided i j d) = length d"
proof (induction j)
  case (Suc j)
  then show ?case by (cases "i \<le> j") (auto simp: divided_Suc divided_def)
qed (simp add: divided_def)

lemma length_crc_loop [simp]: "8 \<le> length d \<Longrightarrow> length (crc_loop d) = length d"
  by (simp add: crc_loop_divided)

lemma divided_bxor: "length a = length b \<Longrightarrow> j + 8 \<le> length a \<Longrightarrow> divided i j (bxor a b) = bxor (divided i j a) (divided i j b)"
proof (induction j)
  case (Suc j)
  show ?case
  proof (cases "i \<le> j")
    case True
    then show ?thesis using Suc crc_step_bxor[of "divided i j a" "divided i j b" j] by (simp add: divided_Suc)
  qed (simp add: divided_def)
qed (simp add: divided_def)

text \<open>The division clears the positions it has passed.\<close>

lemma divided_cleared: "j + 8 \<le> length d \<Longrightarrow> k < j \<Longrightarrow> \<not> divided 0 j d ! k"
proof (induction j)
  case (Suc j)
  have "k < j \<or> k = j" using Suc.prems by auto
  then show ?case using Suc by (auto simp: divided_Suc nth_crc_step divisor_def)
qed simp

lemma crc_loop_cleared: "k < length d - 8 \<Longrightarrow> \<not> crc_loop d ! k"
  by (simp add: crc_loop_divided divided_cleared)

lemma divided_zero: "\<forall>k<j. i \<le> k \<longrightarrow> \<not> d ! k \<Longrightarrow> divided i j d = d"
proof (induction j)
  case (Suc j)
  then show ?case by (cases "i \<le> j") (auto simp: divided_Suc crc_step_def divided_def)
qed (simp add: divided_def)

text \<open>Only positions before the last eight are inspected, so a remainder is not changed by dividing it again.\<close>

lemma accepts_remainder:
  assumes "8 \<le> length d"
  shows "checkCRC d = Inr () \<longleftrightarrow> (\<forall>k<length d. \<not> crc_loop d ! k)"
proof -
  let ?l = "length d - 8"
  have "drop ?l (crc_loop d) = replicate 8 False \<longleftrightarrow> (\<forall>k<8. \<not> crc_loop d ! (?l + k))"
    using assms by (auto simp: list_eq_iff_nth_eq)
  also have "\<dots> \<longleftrightarrow> (\<forall>k<length d. \<not> crc_loop d ! k)"
  proof
    assume h: "\<forall>k<8. \<not> crc_loop d ! (?l + k)"
    have "\<not> crc_loop d ! k" if "k < length d" for k
    proof (cases "k < ?l")
      case True
      then show ?thesis by (rule crc_loop_cleared)
    next
      case False
      then have "k - ?l < 8" "?l + (k - ?l) = k" using that by linarith+
      then show ?thesis using h by metis
    qed
    then show "\<forall>k<length d. \<not> crc_loop d ! k" by blast
  qed (use assms in auto)
  finally show ?thesis using assms by (auto simp: checkCRC_def)
qed

lemma accepts_linear:
  assumes "8 \<le> length d" "length e = length d" "checkCRC d = Inr ()" "checkCRC (bxor d e) = Inr ()"
  shows "checkCRC e = Inr ()"
proof -
  have "crc_loop (bxor d e) = bxor (crc_loop d) (crc_loop e)"
    using assms(1,2) divided_bxor[of d e "length d - 8" 0] by (simp add: crc_loop_divided)
  then show ?thesis using assms accepts_remainder[of d] accepts_remainder[of e] accepts_remainder[of "bxor d e"] by auto
qed

subsection \<open>What it detects\<close>

text \<open>Once a division step has set a bit, the last set bit only moves on.\<close>

lemma last_one_moves:
  assumes "j + 8 \<le> length d" "i \<le> j" "h < length d" "d ! h" "h < i + 8" "\<forall>k<length d. h < k \<longrightarrow> \<not> d ! k"
  shows "\<exists>h'<length d. divided i j d ! h' \<and> h' < j + 8 \<and> (\<forall>k<length d. h' < k \<longrightarrow> \<not> divided i j d ! k)"
  using assms(2,1)
proof (induction j rule: dec_induct)
  case base
  show ?case using assms(3-6) by (intro exI[of _ h]) simp
next
  case (step j)
  let ?d = "divided i j d"
  have l: "j + 9 \<le> length ?d" "length ?d = length d" using step.prems by auto
  obtain h where h: "h < length d" "?d ! h" "h < j + 8" "\<forall>k<length d. h < k \<longrightarrow> \<not> ?d ! k"
    using step.IH step.prems by auto
  show ?case
  proof (cases "?d ! j")
    case False
    then have "divided i (Suc j) d = ?d" using step.hyps by (simp add: divided_Suc crc_step_def)
    then show ?thesis using h by auto
  next
    case True
    have n: "divided i (Suc j) d ! k = (?d ! k \<noteq> (j \<le> k \<and> k < j + 9 \<and> divisor ! (k - j)))" if "k < length d" for k
      using nth_crc_step[OF l(1), of k] that l(2) True step.hyps by (simp add: divided_Suc)
    have "divided i (Suc j) d ! (j + 8)" using n[of "j + 8"] h l by (simp add: divisor_def)
    moreover have "\<forall>k<length d. j + 8 < k \<longrightarrow> \<not> divided i (Suc j) d ! k" using n h by auto
    ultimately show ?thesis using l by (intro exI[of _ "j + 8"]) auto
  qed
qed

text \<open>Flipped bits that are at most seven positions apart.\<close>

definition burst :: "bitstring \<Rightarrow> bool" where
  "burst e \<longleftrightarrow> (\<exists>p<length e. e ! p \<and> (\<forall>k<length e. e ! k \<longrightarrow> p \<le> k \<and> k < p + 8))"

lemma burst_rejected:
  assumes "8 \<le> length e" "burst e"
  shows "checkCRC e \<noteq> Inr ()"
proof -
  obtain p where p: "p < length e" "e ! p" "\<forall>k<length e. e ! k \<longrightarrow> p \<le> k \<and> k < p + 8" using assms(2) by (auto simp: burst_def)
  let ?n = "length e - 8"
  show ?thesis
  proof (cases "p < ?n")
    case False
    have "\<not> e ! k" if "k < ?n" for k
    proof
      assume "e ! k"
      then have "p \<le> k" using p(3) that by auto
      then show False using that False by simp
    qed
    then have "crc_loop e = e" unfolding crc_loop_divided by (intro divided_zero) auto
    then show ?thesis using accepts_remainder[OF assms(1)] p by auto
  next
    case True
    define h where "h = Max {k. k < length e \<and> e ! k}"
    have "finite {k. k < length e \<and> e ! k}" "{k. k < length e \<and> e ! k} \<noteq> {}" using p by auto
    then have h: "h < length e" "e ! h" "\<forall>k<length e. h < k \<longrightarrow> \<not> e ! k"
      using Max_in[of "{k. k < length e \<and> e ! k}"] Max_ge[of "{k. k < length e \<and> e ! k}"] unfolding h_def by force+
    then have "h < p + 8" using p(3) by auto
    from last_one_moves[of ?n e p h] h this True assms(1)
    obtain h' where "h' < length e" "divided p ?n e ! h'" by auto
    moreover have "divided 0 p e = e" using p(3) True by (intro divided_zero) (meson leD less_trans p(1))
    then have "divided p ?n e = crc_loop e" using divided_trans[of 0 p ?n e] True by (simp add: crc_loop_divided)
    ultimately show ?thesis using accepts_remainder[OF assms(1)] by auto
  qed
qed

primrec parity :: "bitstring \<Rightarrow> bool" where
  "parity [] = False"
| "parity (b # d) = (b \<noteq> parity d)"

lemma parity_append: "parity (a @ b) = (parity a \<noteq> parity b)"
  by (induction a) auto

lemma parity_map2: "length a = length b \<Longrightarrow> parity (map2 (\<lambda>x y. x \<noteq> y) a b) = (parity a \<noteq> parity b)"
  by (induction a b rule: list_induct2) auto

lemma parity_count: "parity d \<longleftrightarrow> odd (count_list d True)"
  by (induction d) auto

lemma parity_divide:
  assumes "index + 9 \<le> length d"
  shows "parity (divide d index) = parity d"
proof -
  let ?m = "slice d index (index + 9)"
  have "d = take index d @ ?m @ drop (index + 9) d" by (simp add: slice_def) (metis append_take_drop_id drop_drop add.commute)
  then have d: "parity d = (parity (take index d) \<noteq> (parity ?m \<noteq> parity (drop (index + 9) d)))" by (metis parity_append)
  have "parity (map2 (\<lambda>x y. x \<noteq> y) ?m divisor) = (parity ?m \<noteq> parity divisor)"
    using assms by (intro parity_map2) (simp add: divisor_def)
  then show ?thesis unfolding d divide_def parity_append by (simp add: divisor_def)
qed

lemma parity_divided: "j + 8 \<le> length d \<Longrightarrow> parity (divided 0 j d) = parity d"
proof (induction j)
  case (Suc j)
  then show ?case by (auto simp: divided_Suc crc_step_def parity_divide)
qed simp

lemma parity_zero: "\<forall>k<length d. \<not> d ! k \<Longrightarrow> \<not> parity d"
proof (induction d)
  case (Cons b d)
  have "\<not> d ! k" if "k < length d" for k using Cons.prems[rule_format, of "Suc k"] that by simp
  then show ?case using Cons.IH Cons.prems[rule_format, of 0] by simp
qed simp

lemma odd_rejected: "8 \<le> length e \<Longrightarrow> parity e \<Longrightarrow> checkCRC e \<noteq> Inr ()"
  using accepts_remainder[of e] parity_zero[of "crc_loop e"] parity_divided[of "length e - 8" e]
  by (auto simp: crc_loop_divided)

lemma accepted_length: "checkCRC d = Inr () \<Longrightarrow> 8 \<le> length d"
  by (auto simp: checkCRC_def split: if_splits)

text \<open>C30. 
  A message that passes the check no longer passes it after an odd number of its bits, or bits that are at most seven
  positions apart, have been flipped.
\<close>

theorem CRC_detects_errors:
  assumes "checkCRC d = Inr ()" "length e = length d" "burst e \<or> odd (count_list e True)"
  shows "checkCRC (bxor d e) = Inl (Err ''CRC check failed for input string'')"
proof -
  have l: "8 \<le> length d" by (rule accepted_length[OF assms(1)])
  have "checkCRC e \<noteq> Inr ()" using assms(2,3) l burst_rejected odd_rejected by (auto simp: parity_count)
  then have "checkCRC (bxor d e) \<noteq> Inr ()" using accepts_linear[OF l assms(2,1)] by blast
  then show ?thesis using l assms(2) by (auto simp: checkCRC_def split: if_splits)
qed

text \<open>Attaching the check to a message replaces its last eight bits and gives one that passes.\<close>

lemma attachCRC_accepted:
  assumes "8 \<le> length s"
  shows "\<exists>t. attachCRC s = Inr t \<and> checkCRC t = Inr () \<and> length t = length s \<and> take (length s - 8) t = take (length s - 8) s"
proof -
  let ?n = "length s - 8"
  define z where "z = take ?n s @ replicate 8 False"
  define r where "r = replicate ?n False @ drop ?n (crc_loop z)"
  have l: "length z = length s" "length r = length s" using assms by (auto simp: z_def r_def)
  have zr: "crc_loop z = r"
    by (rule nth_equalityI) (use l assms crc_loop_cleared[of _ z] in \<open>auto simp: r_def nth_append\<close>)
  have "divided 0 ?n r = r" by (rule divided_zero) (auto simp: r_def nth_append)
  then have "crc_loop (bxor z r) = bxor r r"
    using divided_bxor[of z r ?n 0] l assms zr by (simp add: crc_loop_divided)
  then have "checkCRC (bxor z r) = Inr ()" using accepts_remainder[of "bxor z r"] l assms by auto
  moreover have "bxor z r = take ?n s @ drop ?n (crc_loop z)"
  proof (rule nth_equalityI)
    fix j assume "j < length (bxor z r)"
    then show "bxor z r ! j = (take ?n s @ drop ?n (crc_loop z)) ! j"
      using l assms by (auto simp: nth_append z_def r_def)
  qed (use l assms in auto)
  moreover have "attachCRC s = Inr (take ?n s @ drop ?n (crc_loop z))"
    using assms l by (auto simp: attachCRC_def Let_def z_def)
  ultimately show ?thesis using l assms by (intro exI[of _ "bxor z r"]) auto
qed

section \<open>Round trips of numbers and bytes\<close>

lemma value_of_Nil [simp]: "value_of [] = 0"
  by (simp add: value_of_def)

lemma value_of_snoc [simp]: "value_of (s @ [b]) = 2 * value_of s + of_bool b"
  by (simp add: value_of_def)

lemma value_of_append: "value_of (a @ b) = value_of a * 2 ^ length b + value_of b"
proof (induction b rule: rev_induct)
  case (snoc x b)
  then show ?case unfolding append_assoc[symmetric] value_of_snoc by simp
qed simp

lemma value_of_zeros [simp]: "value_of (replicate k False) = 0"
proof (induction k)
  case (Suc k)
  have "replicate (Suc k) False = [] @ False # replicate k False" by simp
  then show ?case using Suc value_of_append[of "[False]" "replicate k False"] by (simp add: value_of_def)
qed simp

lemma value_of_bound: "value_of s < 2 ^ length s"
  by (induction s rule: rev_induct) (auto simp: of_bool_def)

lemma value_of_inj: "length a = length b \<Longrightarrow> value_of a = value_of b \<Longrightarrow> a = b"
proof (induction a arbitrary: b rule: rev_induct)
  case (snoc x a)
  then obtain y b' where b: "b = b' @ [y]" by (metis length_0_conv rev_exhaust snoc_eq_iff_butlast)
  then have "2 * value_of a + of_bool x = 2 * value_of b' + of_bool y" using snoc.prems by simp
  then have "x = y \<and> value_of a = value_of b'" by (cases x; cases y; simp; presburger)
  then show ?case using snoc b by simp
qed simp

lemma value_of_FormatUint [simp]: "value_of (FormatUint n) = n"
proof (induction n rule: FormatUint.induct)
  case (1 n)
  show ?case
  proof (cases "n < 2")
    case True
    then have "n = 0 \<or> n = 1" by auto
    then show ?thesis by (auto simp: FormatUint.simps[of 0] FormatUint.simps[of "Suc 0"] value_of_def)
  next
    case False
    then have "value_of (FormatUint n) = 2 * (n div 2) + of_bool (odd n)" using 1 by (simp add: FormatUint.simps[of n])
    then show ?thesis by (simp add: of_bool_odd_eq_mod_2)
  qed
qed

lemma FormatUint_nonempty [simp]: "FormatUint n \<noteq> []"
  by (simp add: FormatUint.simps[of n])

lemma length_FormatUint: "0 < w \<Longrightarrow> length (FormatUint n) \<le> w \<longleftrightarrow> n < 2 ^ w"
proof (induction n arbitrary: w rule: FormatUint.induct)
  case (1 n)
  show ?case
  proof (cases "n < 2")
    case True
    have "(2 :: nat) ^ 1 \<le> 2 ^ w" using 1(2) by (intro power_increasing) auto
    then show ?thesis using True 1(2) by (simp add: FormatUint.simps[of n])
  next
    case False
    obtain v where w: "w = Suc v" using 1(2) by (cases w) auto
    show ?thesis
    proof (cases v)
      case 0
      then show ?thesis using False w by (simp add: FormatUint.simps[of n])
    next
      case (Suc u)
      then have "length (FormatUint (n div 2)) \<le> v \<longleftrightarrow> n div 2 < 2 ^ v" using 1(1)[OF False, of v] by simp
      moreover have "n div 2 < 2 ^ v \<longleftrightarrow> n < 2 ^ w" using w by (simp add: div_less_iff_less_mult mult.commute)
      ultimately show ?thesis using False w by (simp add: FormatUint.simps[of n])
    qed
  qed
qed

lemma value_of_pad [simp]: "value_of (pad s w) = value_of s"
  by (simp add: pad_def value_of_append)

lemma length_pad: "length (pad s w) = max w (length s)"
  by (simp add: pad_def)

lemma length_number: "0 < w \<Longrightarrow> n < 2 ^ w \<Longrightarrow> length (pad (FormatUint n) w) = w"
  using length_FormatUint[of w n] by (simp add: length_pad)

lemma pad_value: "0 < length s \<Longrightarrow> pad (FormatUint (value_of s)) (length s) = s"
  using length_number[of "length s" "value_of s"] value_of_bound[of s] by (intro value_of_inj) auto

lemma length_byte [simp]: "length (pad (FormatUint (unat (b :: octet))) 8) = 8"
  using unsigned_less[of b] by (intro length_number) auto

lemma encFromByte_Cons: "encFromByte (b # bs) = pad (FormatUint (unat b)) 8 @ encFromByte bs"
  by (simp add: encFromByte_def)

lemma encFromByte_Nil [simp]: "encFromByte [] = []"
  by (simp add: encFromByte_def)

lemma length_encFromByte [simp]: "length (encFromByte bs) = 8 * length bs"
  by (induction bs) (auto simp: encFromByte_Cons)

lemma parse_byte: "length s = 8 \<Longrightarrow> ParseUint s 32 = Inr (value_of s)"
  using value_of_bound[of s] by (auto simp: ParseUint_def)

lemma dec_bytes_parses:
  "length s = 8 * n \<Longrightarrow> \<exists>bs. dec_bytes n s = Inr bs \<and> encFromByte bs = s \<and> length bs = n"
proof (induction n arbitrary: s)
  case (Suc n)
  let ?a = "take 8 s"
  have a: "length ?a = 8" using Suc.prems by simp
  obtain bs where bs: "dec_bytes n (drop 8 s) = Inr bs" "encFromByte bs = drop 8 s" "length bs = n"
    using Suc.IH[of "drop 8 s"] Suc.prems by auto
  have "value_of ?a < 256" using value_of_bound[of ?a] a by simp
  then have "unat (word_of_nat (value_of ?a) :: octet) = value_of ?a" by (simp add: unat_of_nat)
  then have "pad (FormatUint (unat (word_of_nat (value_of ?a) :: octet))) 8 = ?a" using pad_value[of ?a] a by (metis zero_less_numeral)
  then have "encFromByte (word_of_nat (value_of ?a) # bs) = s" using bs by (simp add: encFromByte_Cons)
  then show ?case using bs parse_byte[OF a] by simp
qed simp

lemma decToByte_parses: "length s mod 8 = 0 \<Longrightarrow> \<exists>bs. decToByte s = Inr bs \<and> encFromByte bs = s \<and> 8 * length bs = length s"
proof -
  assume "length s mod 8 = 0"
  then have "length s = 8 * (length s div 8)" by auto
  from dec_bytes_parses[OF this] show ?thesis using \<open>length s = 8 * (length s div 8)\<close> unfolding decToByte_def by metis
qed

lemma text_bytes_encFromByte: "0 \<notin> set bs \<Longrightarrow> text_bytes (length bs) (encFromByte bs) = Inr bs"
proof (induction bs)
  case (Cons b bs)
  have "unat b \<noteq> 0" using Cons.prems unat_eq_zero[of b] by auto
  then show ?case using Cons parse_byte[of "pad (FormatUint (unat b)) 8"] by (simp add: encFromByte_Cons)
qed simp

lemma decodeToByte_encFromByte: "0 \<notin> set bs \<Longrightarrow> decodeToByte (encFromByte bs) = Inr bs"
  by (simp add: decodeToByte_def text_bytes_encFromByte)

text \<open>A byte string with a zero byte in it is cut there.\<close>

lemma decodeToByte_cut: "0 \<notin> set bs \<Longrightarrow> decodeToByte (encFromByte (bs @ 0 # cs)) = Inr bs"
proof -
  assume "0 \<notin> set bs"
  then have "text_bytes (length bs + Suc (length cs)) (encFromByte (bs @ 0 # cs)) = Inr bs"
  proof (induction bs)
    case Nil
    show ?case using parse_byte[of "pad (FormatUint 0) 8"] length_byte[of 0] by (simp add: encFromByte_Cons)
  next
    case (Cons b bs)
    have "unat b \<noteq> 0" using Cons.prems unat_eq_zero[of b] by auto
    then show ?case using Cons parse_byte[of "pad (FormatUint (unat b)) 8"] by (simp add: encFromByte_Cons)
  qed
  then show ?thesis by (simp add: decodeToByte_def)
qed

theorem CRC_detects_errors_witness:
  "checkCRC (bxor (replicate 24 False) (replicate 3 False @ [True] @ replicate 20 False)) =
     Inl (Err ''CRC check failed for input string'')"
  by (rule CRC_detects_errors) (simp_all add: checkCRC_def crc_loop_def crc_step_def upt_rec)

end
