(* ===== verification/Split_Packet.thy ===== *)
theory Split_Packet
  imports Omnicom_Bits
begin

text \<open>
  Split packets: the message \<^verbatim>\<open>SPM\<close> (\<^verbatim>\<open>tms/omnicom/SPM.go\<close>) that carries a part of a longer message, the splitting of
  a message for a beacon and the joining of the parts from a beacon (\<^verbatim>\<open>tfleetd/SplitPacket.go\<close>). The random message
  identifier is an argument.
\<close>

section \<open>The message\<close>

record SPM =
  Header :: "8 word"
  Split_Msg_ID :: "64 word"
  Packet_Number :: "32 word"
  Packets_Total_Count :: "32 word"
  Length_Msg_Data_Part_in_Byte :: "32 word"
  Padding1 :: "32 word"
  Msg_Data_Part :: "octet list"
  CRC :: "32 word"

text \<open>A number of \<open>w\<close> bits at position \<open>pos\<close>; multiplication by 1 and subtraction of 0 are left out.\<close>

definition spm_number :: "bitstring \<Rightarrow> nat \<Rightarrow> nat \<Rightarrow> nat res" where
  "spm_number input pos w =
     (if length input < pos + w then Inl (Err ''Input message length of SPM is shorter than required'')
      else ParseUint (slice input pos (pos + w)) 32)"

definition SPM_Parse :: "bitstring \<Rightarrow> SPM res" where
  "SPM_Parse input =
     (if length input < 8 then Inl (Err ''Input message length of SPM is shorter than required'')
      else
        rbind (spm_number input 8 64) (\<lambda>msgid.
        rbind (spm_number input 72 8) (\<lambda>number.
        rbind (spm_number input 80 8) (\<lambda>tot.
        rbind (spm_number input 88 9) (\<lambda>len.
        rbind (spm_number input 97 7) (\<lambda>padding.
        if length input < 104 + len * 8 then Inl (Err ''Input message length of SPM is shorter than required'')
        else if 2608 < len * 8 then Inl (Err ''SPM.Length_Msg_Data_Part_in_Byte is larger than limit'')
        else
          rbind (decodeToByte (slice input 104 (104 + len * 8))) (\<lambda>part.
          rbind (spm_number input (104 + len * 8) 8) (\<lambda>crc.
            Inr \<lparr>Header = 0, Split_Msg_ID = word_of_nat msgid, Packet_Number = word_of_nat number,
                 Packets_Total_Count = word_of_nat tot, Length_Msg_Data_Part_in_Byte = word_of_nat len,
                 Padding1 = word_of_nat padding, Msg_Data_Part = part, CRC = word_of_nat crc\<rparr>))))))))"

text \<open>The case of \<^verbatim>\<open>Parse\<close> for the header of a split packet; the check of the CRC is commented out there.\<close>

definition Parse_SPM :: "octet list \<Rightarrow> SPM res" where
  "Parse_SPM input =
     (let str = encFromByte input in
      if length str < 8 then Inl OutOfRange
      else if take 8 str = [False, True, False, False, False, False, False, False]
      then rbind (SPM_Parse str) (\<lambda>m. Inr (m\<lparr>Header := input ! 0\<rparr>))
      else Inl (Err ''No messages match''))"

definition put_number :: "nat \<Rightarrow> nat \<Rightarrow> string \<Rightarrow> bitstring res" where
  "put_number n w name =
     (let s = pad (FormatUint n) w in if w < length s then Inl (Err (''Value assigned for SPM.'' @ name @ '' exceeds limit'')) else Inr s)"

definition SPM_Encode :: "SPM \<Rightarrow> octet list res" where
  "SPM_Encode m =
     rbind (put_number (unat (Split_Msg_ID m)) 64 ''Split_Msg_ID'') (\<lambda>s1.
     rbind (put_number (unat (Packet_Number m)) 8 ''Packet_Number'') (\<lambda>s2.
     rbind (put_number (unat (Packets_Total_Count m)) 8 ''Packets_Total_Count'') (\<lambda>s3.
     rbind (put_number (unat (Length_Msg_Data_Part_in_Byte m)) 9 ''Length_Msg_Data_Part_in_Byte'') (\<lambda>s4.
     rbind (put_number (unat (Padding1 m)) 7 ''Padding1'') (\<lambda>s5.
     if 2608 < unat (Length_Msg_Data_Part_in_Byte m) * 8
     then Inl (Err ''SPM.Length_Msg_Data_Part_in_Byte is larger than limit'')
     else
       let s6 = encodeFromByte (Msg_Data_Part m) (unat (Length_Msg_Data_Part_in_Byte m) * 8) in
       rbind (put_number (unat (CRC m)) 8 ''CRC'') (\<lambda>s7.
       rbind (attachCRC (pad (FormatUint (unat (Header m))) 8 @ s1 @ s2 @ s3 @ s4 @ s5 @ s6 @ s7)) (\<lambda>str.
         decToByte str)))))))"

section \<open>Splitting\<close>

definition mtstep :: nat where
  "mtstep = 256"

text \<open>The loop sets the key to \<^verbatim>\<open>+mtstep\<close> after each part.\<close>

fun mt_loop :: "octet list \<Rightarrow> nat \<Rightarrow> nat \<Rightarrow> octet list list \<times> nat" where
  "mt_loop mt key 0 = ([], key)"
| "mt_loop mt key (Suc n) = (let (pts, key') = mt_loop mt mtstep n in (slice mt key (key + mtstep) # pts, key'))"

definition mt_parts :: "octet list \<Rightarrow> octet list list" where
  "mt_parts mt =
     (let (pts, key) = mt_loop mt 0 (length mt div mtstep); rdr = length mt mod mtstep in
      if rdr \<noteq> 0 then pts @ [slice mt key (key + rdr)] else pts)"

definition spm_packet :: "64 word \<Rightarrow> nat \<Rightarrow> nat \<Rightarrow> octet list \<Rightarrow> SPM" where
  "spm_packet msgid tot k pt =
     \<lparr>Header = 0x40, Split_Msg_ID = msgid, Packet_Number = word_of_nat (k + 1), Packets_Total_Count = word_of_nat tot,
      Length_Msg_Data_Part_in_Byte = word_of_nat (length pt), Padding1 = 0, Msg_Data_Part = pt, CRC = 0\<rparr>"

fun encode_parts :: "64 word \<Rightarrow> nat \<Rightarrow> nat \<Rightarrow> octet list list \<Rightarrow> octet list list res" where
  "encode_parts msgid tot k [] = Inr []"
| "encode_parts msgid tot k (pt # pts) =
     rbind (SPM_Encode (spm_packet msgid tot k pt)) (\<lambda>bts.
     rbind (encode_parts msgid tot (Suc k) pts) (\<lambda>mts. Inr (bts # mts)))"

definition SplitMtData :: "64 word \<Rightarrow> octet list \<Rightarrow> (octet list list \<times> 64 word) res" where
  "SplitMtData msgid mt =
     (let pts = mt_parts mt in
      if pts = [] then Inl (Err ''Could not construct raw MT payloads'')
      else rbind (encode_parts msgid (length pts) 0 pts) (\<lambda>mts. Inr (mts, msgid)))"

section \<open>Joining\<close>

record SplitMessage =
  MessageID :: "64 word"
  PacketNumbers :: "32 word list"
  PacketTotalCount :: "32 word"
  MessageDataParts :: "octet list list"

fun contains :: "SplitMessage list \<Rightarrow> 64 word \<Rightarrow> nat \<Rightarrow> nat option" where
  "contains [] e i = None"
| "contains (m # ms) e i = (if MessageID m = e then Some i else contains ms e (Suc i))"

text \<open>
  The slice the parts are copied to is nil, so that storing the first byte panics. A call gives the stored messages
  and its result.
\<close>

definition joined_parts :: "octet list list \<Rightarrow> octet list res" where
  "joined_parts parts = (if concat parts = [] then Inr [] else Inl OutOfRange)"

definition SplitPacketMessageHandler :: "SplitMessage list \<Rightarrow> SPM \<Rightarrow> SplitMessage list \<times> octet list res" where
  "SplitPacketMessageHandler msgs p =
     (case contains msgs (Split_Msg_ID p) 0 of
        Some index \<Rightarrow>
          let m = msgs ! index; k = unat (Packet_Number p - 1) in
          if Packet_Number p \<le> PacketTotalCount m \<and> length (PacketNumbers m) \<le> k then (msgs, Inl OutOfRange)
          else
            let m' = (if Packet_Number p \<le> PacketTotalCount m
                      then m\<lparr>PacketNumbers := (PacketNumbers m)[k := Packet_Number p],
                             MessageDataParts := (MessageDataParts m)[k := Msg_Data_Part p]\<rparr>
                      else m);
                msgs' = msgs[index := m'] in
            if Packet_Number p = PacketTotalCount m then
              (case joined_parts (MessageDataParts m') of
                 Inl e \<Rightarrow> (msgs', Inl e)
               | Inr barray \<Rightarrow> (take index msgs' @ drop (Suc index) msgs', Inr barray))
            else (msgs', Inl (Err ''message is not a correct split message''))
      | None \<Rightarrow>
          if length (Msg_Data_Part p) \<noteq> unat (Length_Msg_Data_Part_in_Byte p)
          then (msgs, Inl (Err ''Length of message data part and value of field Length mismatch''))
          else if Packet_Number p \<noteq> 1 then (msgs, Inl (Err ''Packet number should be 1''))
          else
            let tot = unat (Packets_Total_Count p) in
            if tot = 0
            then (msgs @ [\<lparr>MessageID = Split_Msg_ID p, PacketNumbers = [], PacketTotalCount = 0, MessageDataParts = []\<rparr>],
                  Inl OutOfRange)
            else
              (msgs @ [\<lparr>MessageID = Split_Msg_ID p, PacketNumbers = (replicate tot 0)[0 := Packet_Number p],
                        PacketTotalCount = Packets_Total_Count p,
                        MessageDataParts = (replicate tot [])[0 := Msg_Data_Part p]\<rparr>],
               Inr (if Packet_Number p = Packets_Total_Count p then Msg_Data_Part p else [])))"

section \<open>A packet is read back\<close>

definition fits :: "SPM \<Rightarrow> bool" where
  "fits m \<longleftrightarrow> unat (Packet_Number m) < 256 \<and> unat (Packets_Total_Count m) < 256 \<and> unat (Padding1 m) < 128 \<and>
     unat (CRC m) < 256 \<and> unat (Length_Msg_Data_Part_in_Byte m) = length (Msg_Data_Part m) \<and> length (Msg_Data_Part m) \<le> 326"

lemma put_number_fits: "0 < w \<Longrightarrow> n < 2 ^ w \<Longrightarrow> put_number n w name = Inr (pad (FormatUint n) w)"
  using length_number[of w n] by (simp add: put_number_def)

definition spm_bits :: "SPM \<Rightarrow> bitstring" where
  "spm_bits m = pad (FormatUint (unat (Header m))) 8 @ pad (FormatUint (unat (Split_Msg_ID m))) 64 @
     pad (FormatUint (unat (Packet_Number m))) 8 @ pad (FormatUint (unat (Packets_Total_Count m))) 8 @
     pad (FormatUint (unat (Length_Msg_Data_Part_in_Byte m))) 9 @ pad (FormatUint (unat (Padding1 m))) 7 @
     encFromByte (Msg_Data_Part m)"

lemma length_id [simp]: "length (pad (FormatUint (unat (i :: 64 word))) 64) = 64"
  using unsigned_less[of i] by (intro length_number) auto

lemma put_id: "put_number (unat (i :: 64 word)) 64 name = Inr (pad (FormatUint (unat i)) 64)"
  by (simp add: put_number_def)

lemma number_widths:
  assumes "fits m"
  shows "length (pad (FormatUint (unat (Packet_Number m))) 8) = 8" "length (pad (FormatUint (unat (Packets_Total_Count m))) 8) = 8"
    "length (pad (FormatUint (unat (Length_Msg_Data_Part_in_Byte m))) 9) = 9" "length (pad (FormatUint (unat (Padding1 m))) 7) = 7"
    "length (pad (FormatUint (unat (CRC m))) 8) = 8"
  using assms by (auto simp: fits_def length_number)

lemma length_spm_bits: "fits m \<Longrightarrow> length (spm_bits m) = 104 + 8 * length (Msg_Data_Part m)"
  using number_widths[of m] by (simp add: spm_bits_def)

lemma SPM_Encode_bits:
  assumes "fits m"
  shows "\<exists>bs crc. SPM_Encode m = Inr bs \<and> encFromByte bs = spm_bits m @ crc \<and> length crc = 8 \<and>
    checkCRC (spm_bits m @ crc) = Inr () \<and> length bs = 14 + length (Msg_Data_Part m)"
proof -
  let ?c = "pad (FormatUint (unat (CRC m))) 8"
  have l: "length (spm_bits m @ ?c) = 112 + 8 * length (Msg_Data_Part m)"
    using length_spm_bits[OF assms] number_widths(5)[OF assms] by simp
  obtain t where t: "attachCRC (spm_bits m @ ?c) = Inr t" "checkCRC t = Inr ()" "length t = length (spm_bits m @ ?c)"
      "take (length (spm_bits m @ ?c) - 8) t = take (length (spm_bits m @ ?c) - 8) (spm_bits m @ ?c)"
    using attachCRC_accepted[of "spm_bits m @ ?c"] l by auto
  define crc where "crc = drop (length (spm_bits m)) t"
  have "take (length (spm_bits m)) t = spm_bits m" using t(4) number_widths(5)[OF assms] by simp
  then have tc: "t = spm_bits m @ crc" unfolding crc_def by (metis append_take_drop_id)
  have e6: "encodeFromByte (Msg_Data_Part m) (unat (Length_Msg_Data_Part_in_Byte m) * 8) = encFromByte (Msg_Data_Part m)"
    using assms by (simp add: fits_def encodeFromByte_def)
  have "length t mod 8 = 0" using t(3) l by simp
  then obtain bs where bs: "decToByte t = Inr bs" "encFromByte bs = t" "8 * length bs = length t" using decToByte_parses[of t] by auto
  have "SPM_Encode m = rbind (attachCRC (spm_bits m @ ?c)) decToByte"
    unfolding SPM_Encode_def e6 using assms by (simp add: fits_def put_id put_number_fits spm_bits_def)
  then have "SPM_Encode m = Inr bs" using t(1) bs(1) by simp
  moreover have "length crc = 8" using t(3) tc number_widths(5)[OF assms] by simp
  moreover have "length bs = 14 + length (Msg_Data_Part m)" using bs(3) t(3) l by simp
  ultimately show ?thesis using bs(2) t(2) tc by auto
qed

lemma spm_number_at:
  "input = pre @ f @ post \<Longrightarrow> length pre = pos \<Longrightarrow> length f = w \<Longrightarrow> spm_number input pos w = ParseUint f 32"
  by (simp add: spm_number_def slice_at)

lemma ParseUint_number: "n < 2 ^ 32 \<Longrightarrow> ParseUint (pad (FormatUint n) w) 32 = Inr n"
  by (auto simp: ParseUint_def pad_def value_of_append)

lemma ParseUint_too_big: "2 ^ 32 \<le> n \<Longrightarrow> ParseUint (pad (FormatUint n) w) 32 = Inl (Err ''value out of range'')"
  by (auto simp: ParseUint_def pad_def value_of_append)

lemma SPM_Parse_bits:
  assumes "fits m" "length crc = 8" "unat (Split_Msg_ID m) < 2 ^ 32" "0 \<notin> set (Msg_Data_Part m)"
  shows "SPM_Parse (spm_bits m @ crc) = Inr (m\<lparr>Header := 0, CRC := word_of_nat (value_of crc)\<rparr>)"
proof -
  let ?n = "\<lambda>k w. pad (FormatUint k) w"
  let ?h = "?n (unat (Header m)) 8" and ?i = "?n (unat (Split_Msg_ID m)) 64" and ?p = "?n (unat (Packet_Number m)) 8"
    and ?t = "?n (unat (Packets_Total_Count m)) 8" and ?l = "?n (unat (Length_Msg_Data_Part_in_Byte m)) 9"
    and ?g = "?n (unat (Padding1 m)) 7" and ?d = "encFromByte (Msg_Data_Part m)"
  let ?s = "spm_bits m @ crc" and ?len = "length (Msg_Data_Part m)"
  note w = number_widths[OF assms(1)]
  have b: "unat (Packet_Number m) < 2 ^ 32" "unat (Packets_Total_Count m) < 2 ^ 32" "unat (Length_Msg_Data_Part_in_Byte m) < 2 ^ 32"
      "unat (Padding1 m) < 2 ^ 32" using assms(1) by (auto simp: fits_def)
  have f1: "spm_number ?s 8 64 = Inr (unat (Split_Msg_ID m))"
    using spm_number_at[of ?s ?h ?i "?p @ ?t @ ?l @ ?g @ ?d @ crc" 8 64] assms(3) by (simp add: spm_bits_def ParseUint_number)
  have f2: "spm_number ?s 72 8 = Inr (unat (Packet_Number m))"
    using spm_number_at[of ?s "?h @ ?i" ?p "?t @ ?l @ ?g @ ?d @ crc" 72 8] w b by (simp add: spm_bits_def ParseUint_number)
  have f3: "spm_number ?s 80 8 = Inr (unat (Packets_Total_Count m))"
    using spm_number_at[of ?s "?h @ ?i @ ?p" ?t "?l @ ?g @ ?d @ crc" 80 8] w b by (simp add: spm_bits_def ParseUint_number)
  have f4: "spm_number ?s 88 9 = Inr ?len"
    using spm_number_at[of ?s "?h @ ?i @ ?p @ ?t" ?l "?g @ ?d @ crc" 88 9] w b assms(1) by (simp add: spm_bits_def ParseUint_number fits_def)
  have f5: "spm_number ?s 97 7 = Inr (unat (Padding1 m))"
    using spm_number_at[of ?s "?h @ ?i @ ?p @ ?t @ ?l" ?g "?d @ crc" 97 7] w b by (simp add: spm_bits_def ParseUint_number)
  have f6: "slice ?s 104 (104 + ?len * 8) = ?d"
    using slice_at[of "?h @ ?i @ ?p @ ?t @ ?l @ ?g" 104 ?d "104 + ?len * 8" crc] w by (simp add: spm_bits_def)
  have f7: "spm_number ?s (104 + ?len * 8) 8 = Inr (value_of crc)"
    using spm_number_at[of ?s "spm_bits m" crc "[]" "104 + ?len * 8" 8] assms(1,2) length_spm_bits[OF assms(1)] parse_byte[of crc] by simp
  have "?len = unat (Length_Msg_Data_Part_in_Byte m)" "\<not> 2608 < ?len * 8" using assms(1) by (auto simp: fits_def)
  then show ?thesis
    unfolding SPM_Parse_def f1 f2 f3 f4 f5 rbind_Inr f6 f7 using length_spm_bits[OF assms(1)] assms(2,4)
    by (simp add: decodeToByte_encFromByte)
qed

lemma header_bits: "Header m = 0x40 \<Longrightarrow> take 8 (spm_bits m) = [False, True, False, False, False, False, False, False]"
proof -
  assume h: "Header m = 0x40"
  have "pad (FormatUint 64) 8 = [False, True, False, False, False, False, False, False]" by code_simp
  then show ?thesis using h by (simp add: spm_bits_def)
qed

lemma Parse_SPM_bits:
  assumes "SPM_Encode m = Inr bs" "fits m" "Header m = 0x40"
  shows "\<exists>crc. length crc = 8 \<and> Parse_SPM bs = rbind (SPM_Parse (spm_bits m @ crc)) (\<lambda>p. Inr (p\<lparr>Header := 0x40\<rparr>)) \<and>
    checkCRC (encFromByte bs) = Inr ()"
proof -
  obtain crc where crc: "encFromByte bs = spm_bits m @ crc" "length crc = 8" "checkCRC (spm_bits m @ crc) = Inr ()"
      "length bs = 14 + length (Msg_Data_Part m)"
    using SPM_Encode_bits[OF assms(2)] assms(1) by auto
  have l: "length (spm_bits m) = 104 + 8 * length (Msg_Data_Part m)" by (rule length_spm_bits[OF assms(2)])
  obtain b bs' where bs: "bs = b # bs'" using crc(4) by (cases bs) auto
  have "pad (FormatUint (unat b)) 8 = take 8 (encFromByte bs)" by (simp add: bs encFromByte_Cons)
  also have "\<dots> = pad (FormatUint (unat (Header m))) 8" unfolding crc(1) by (simp add: spm_bits_def)
  finally have "unat b = unat (Header m)" using value_of_pad value_of_FormatUint by metis
  then have "bs ! 0 = 0x40" using bs assms(3) by (simp add: word_unat_eq_iff)
  then show ?thesis using crc(1-3) l header_bits[OF assms(3)] by (intro exI[of _ crc]) (simp add: Parse_SPM_def Let_def)
qed

lemma spm_reads_back:
  assumes "fits m" "Header m = 0x40" "unat (Split_Msg_ID m) < 2 ^ 32" "0 \<notin> set (Msg_Data_Part m)"
  shows "\<exists>bs crc. SPM_Encode m = Inr bs \<and> checkCRC (encFromByte bs) = Inr () \<and> Parse_SPM bs = Inr (m\<lparr>CRC := crc\<rparr>)"
proof -
  obtain bs where bs: "SPM_Encode m = Inr bs" using SPM_Encode_bits[OF assms(1)] by blast
  obtain crc where "length crc = 8" "Parse_SPM bs = rbind (SPM_Parse (spm_bits m @ crc)) (\<lambda>p. Inr (p\<lparr>Header := 0x40\<rparr>))"
      "checkCRC (encFromByte bs) = Inr ()"
    using Parse_SPM_bits[OF bs assms(1,2)] by blast
  then show ?thesis
    using bs SPM_Parse_bits[OF assms(1) _ assms(3,4)] assms(2) by (intro exI[of _ bs] exI[of _ "word_of_nat (value_of crc)"]) simp
qed

text \<open>
  A split packet that fits its fields is encoded into a message with a valid checksum, which is read back as the same
  packet, when its identifier has 32 bits and no byte of its data is zero.
\<close>

theorem spm_roundtrip:
  assumes "fits m" "Header m = 0x40" "unat (Split_Msg_ID m) < 2 ^ 32" "0 \<notin> set (Msg_Data_Part m)"
  shows "\<exists>bs crc. SPM_Encode m = Inr bs \<and> checkCRC (encFromByte bs) = Inr () \<and> Parse_SPM bs = Inr (m\<lparr>CRC := crc\<rparr>)"
  by (rule spm_reads_back[OF assms])

text \<open>The identifier is written with 64 bits and read as a number of 32 bits, so a larger one is not accepted.\<close>

theorem long_spm_id_rejected:
  assumes "fits m" "Header m = 0x40" "2 ^ 32 \<le> unat (Split_Msg_ID m)"
  shows "\<exists>bs. SPM_Encode m = Inr bs \<and> Parse_SPM bs = Inl (Err ''value out of range'')"
proof -
  let ?h = "pad (FormatUint (unat (Header m))) 8" and ?i = "pad (FormatUint (unat (Split_Msg_ID m))) 64"
  obtain bs where bs: "SPM_Encode m = Inr bs" using SPM_Encode_bits[OF assms(1)] by blast
  obtain crc where crc: "length crc = 8" "Parse_SPM bs = rbind (SPM_Parse (spm_bits m @ crc)) (\<lambda>p. Inr (p\<lparr>Header := 0x40\<rparr>))"
    using Parse_SPM_bits[OF bs assms(1,2)] by blast
  have "spm_bits m @ crc = ?h @ ?i @ (drop 72 (spm_bits m) @ crc)" by (simp add: spm_bits_def)
  from spm_number_at[OF this, of 8 64] have "spm_number (spm_bits m @ crc) 8 64 = Inl (Err ''value out of range'')"
    using ParseUint_too_big[OF assms(3)] by simp
  then have "SPM_Parse (spm_bits m @ crc) = Inl (Err ''value out of range'')"
    using length_spm_bits[OF assms(1)] by (simp add: SPM_Parse_def)
  then show ?thesis using bs crc by simp
qed

section \<open>Splitting a message\<close>

lemma mt_loop_after: "mt_loop mt mtstep n = (replicate n (slice mt 256 512), mtstep)"
  by (induction n) (auto simp: mtstep_def)

lemma mt_loop_eq:
  "mt_loop mt 0 n = (case n of 0 \<Rightarrow> ([], 0) | Suc k \<Rightarrow> (take 256 mt # replicate k (slice mt 256 512), 256))"
  by (cases n) (auto simp: mt_loop_after, auto simp: slice_def mtstep_def)

lemma mt_parts_eq:
  "mt_parts mt = (case length mt div 256 of
      0 \<Rightarrow> if mt = [] then [] else [mt]
    | Suc k \<Rightarrow> take 256 mt # replicate k (slice mt 256 512) @
        (if length mt mod 256 = 0 then [] else [slice mt 256 (256 + length mt mod 256)]))"
proof (cases "length mt div 256")
  case 0
  then have "length mt mod 256 = length mt" by (auto simp: div_eq_0_iff)
  then show ?thesis using 0 by (simp add: mt_parts_def mt_loop_eq mtstep_def slice_def)
next
  case (Suc k)
  have "mt_loop mt 0 (Suc k) = (take 256 mt # replicate k (slice mt 256 512), 256)" unfolding mt_loop_eq by simp
  then show ?thesis using Suc unfolding mt_parts_def mtstep_def by (simp del: mt_loop.simps)
qed

lemma mt_parts_small: "pt \<in> set (mt_parts mt) \<Longrightarrow> length pt \<le> 256"
proof -
  have "length mt mod 256 < 256" by simp
  then have r: "length mt mod 256 \<le> 256" by linarith
  have "length mt div 256 = 0 \<Longrightarrow> length mt \<le> 256" by (simp add: div_eq_0_iff)
  then show "pt \<in> set (mt_parts mt) \<Longrightarrow> length pt \<le> 256" using r
    by (auto simp: mt_parts_eq split: nat.splits if_splits)
qed

lemma length_mt_parts: "length (mt_parts mt) = (length mt + 255) div 256"
proof -
  define n where "n = length mt"
  have "(n + 255) div 256 = n div 256 + (if n mod 256 = 0 then 0 else 1)"
  proof -
    define q m where "q = n div 256" "m = n mod 256"
    then have n: "n = m + 256 * q" "m < 256" by simp_all
    then have e: "(n + 255) div 256 = q + (m + 255) div 256" by (metis add.assoc add.commute div_mult_self2 zero_neq_numeral)
    have "(m + 255) div 256 = (if m = 0 then 0 else 1)" using n(2) by (auto intro: div_nat_eqI)
    then show ?thesis using e by (simp add: \<open>q = n div 256\<close> \<open>m = n mod 256\<close>)
  qed
  then have r: "(length mt + 255) div 256 = length mt div 256 + (if length mt mod 256 = 0 then 0 else 1)" by (simp add: n_def)
  show ?thesis
  proof (cases "length mt div 256")
    case 0
    then have "length mt mod 256 = length mt" by (auto simp: div_eq_0_iff)
    then show ?thesis using 0 r by (simp add: mt_parts_eq)
  qed (use r in \<open>simp add: mt_parts_eq\<close>)
qed

lemma mt_parts_whole:
  assumes "length mt \<le> 512"
  shows "concat (mt_parts mt) = mt"
proof -
  consider "length mt div 256 = 0" | "length mt div 256 = 1" | "length mt = 512" using assms by linarith
  then show ?thesis
  proof cases
    case 2
    have "length mt = 256 + length mt mod 256" using 2 by (metis div_mult_mod_eq mult_1)
    moreover have "take 256 mt @ drop 256 mt = mt" by simp
    ultimately show ?thesis using 2 by (auto simp: mt_parts_eq slice_def)
  next
    case 3
    then have "length mt div 256 = Suc 1" "length mt mod 256 = 0" "drop 512 mt = []" by simp_all
    then show ?thesis using append_take_drop_id[of 256 mt] 3 by (simp add: mt_parts_eq slice_def)
  qed (simp add: mt_parts_eq)
qed

lemma spm_packet_fits:
  assumes "length pt \<le> 256" "tot \<le> 255" "k < tot"
  shows "fits (spm_packet msgid tot k pt)" "Header (spm_packet msgid tot k pt) = 0x40"
    "unat (Packet_Number (spm_packet msgid tot k pt)) = Suc k" "unat (Packets_Total_Count (spm_packet msgid tot k pt)) = tot"
proof -
  have u: "unat (word_of_nat n :: 32 word) = n" if "n \<le> 256" for n using that by (simp add: unat_of_nat)
  have "unat (word_of_nat (length pt) :: 32 word) = length pt" "unat (word_of_nat tot :: 32 word) = tot"
      "unat (word_of_nat (k + 1) :: 32 word) = k + 1" using assms by (intro u; simp)+
  then show "fits (spm_packet msgid tot k pt)" "Header (spm_packet msgid tot k pt) = 0x40"
    "unat (Packet_Number (spm_packet msgid tot k pt)) = Suc k" "unat (Packets_Total_Count (spm_packet msgid tot k pt)) = tot"
    using assms unfolding fits_def spm_packet_def by (simp_all del: of_nat_Suc of_nat_add)
qed

lemma encode_parts_each:
  assumes "\<forall>pt\<in>set pts. length pt \<le> 256" "k + length pts \<le> tot" "tot \<le> 255"
  shows "\<exists>mts. encode_parts msgid tot k pts = Inr mts \<and> length mts = length pts \<and>
    (\<forall>j<length pts. SPM_Encode (spm_packet msgid tot (k + j) (pts ! j)) = Inr (mts ! j) \<and> length (mts ! j) = 14 + length (pts ! j))"
  using assms
proof (induction pts arbitrary: k)
  case (Cons pt pts)
  have "fits (spm_packet msgid tot k pt)" using Cons.prems by (intro spm_packet_fits) auto
  then obtain bs where bs: "SPM_Encode (spm_packet msgid tot k pt) = Inr bs" "length bs = 14 + length pt"
    using SPM_Encode_bits by (fastforce simp: spm_packet_def)
  obtain mts where mts: "encode_parts msgid tot (Suc k) pts = Inr mts" "length mts = length pts"
      "\<forall>j<length pts. SPM_Encode (spm_packet msgid tot (Suc k + j) (pts ! j)) = Inr (mts ! j) \<and> length (mts ! j) = 14 + length (pts ! j)"
    using Cons.IH[of "Suc k"] Cons.prems by auto
  have "SPM_Encode (spm_packet msgid tot (k + j) ((pt # pts) ! j)) = Inr ((bs # mts) ! j) \<and>
      length ((bs # mts) ! j) = 14 + length ((pt # pts) ! j)" if "j < length (pt # pts)" for j
    using that bs mts(3) by (cases j) auto
  then show ?case using bs mts by (intro exI[of _ "bs # mts"]) auto
qed simp

lemma SplitMtData_each:
  assumes "mt \<noteq> []" "length mt \<le> 255 * 256"
  shows "\<exists>mts. SplitMtData msgid mt = Inr (mts, msgid) \<and> length mts = length (mt_parts mt) \<and> length (mt_parts mt) \<le> 255 \<and>
    (\<forall>j<length mts. SPM_Encode (spm_packet msgid (length mts) j (mt_parts mt ! j)) = Inr (mts ! j) \<and>
      length (mts ! j) = 14 + length (mt_parts mt ! j))"
proof -
  have "(length mt + 255) div 256 \<le> (255 * 256 + 255) div 256" using assms(2) by (intro div_le_mono) simp
  then have l: "length (mt_parts mt) \<le> 255" by (simp add: length_mt_parts)
  have "1 \<le> length mt" using assms(1) by (cases mt) auto
  then have "(1 + 255) div 256 \<le> (length mt + 255) div 256" by (intro div_le_mono) simp
  then have n: "mt_parts mt \<noteq> []" using length_mt_parts[of mt] by auto
  from encode_parts_each[of "mt_parts mt" 0 "length (mt_parts mt)" msgid] l mt_parts_small
  show ?thesis using n l by (auto simp: SplitMtData_def Let_def)
qed

text \<open>Every message of up to 255 parts is split into packets that respect the maximum size of a transmission.\<close>

theorem split_packets_fit:
  assumes "mt \<noteq> []" "length mt \<le> 255 * 256"
  shows "\<exists>mts. SplitMtData msgid mt = Inr (mts, msgid) \<and> length mts = (length mt + 255) div 256 \<and> (\<forall>p\<in>set mts. length p \<le> 270)"
proof -
  obtain mts where m: "SplitMtData msgid mt = Inr (mts, msgid)" "length mts = length (mt_parts mt)"
      "\<forall>j<length mts. length (mts ! j) = 14 + length (mt_parts mt ! j)"
    using SplitMtData_each[OF assms, of msgid] by blast
  have "length p \<le> 270" if p: "p \<in> set mts" for p
  proof -
    obtain j where j: "j < length mts" "p = mts ! j" using p by (auto simp: in_set_conv_nth)
    then have "length (mt_parts mt ! j) \<le> 256" using m(2) mt_parts_small[of _ mt] by (metis nth_mem)
    then show ?thesis using m(3) j by auto
  qed
  then show ?thesis using m length_mt_parts[of mt] by auto
qed

text \<open>
  A message of up to 512 bytes without zero bytes, split under an identifier of 32 bits, is recovered from its packets:
  they parse, are numbered from one, and their data put together is the message.
\<close>

theorem split_message_recovered:
  assumes "mt \<noteq> []" "length mt \<le> 512" "0 \<notin> set mt" "unat msgid < 2 ^ 32"
  shows "\<exists>mts ps. SplitMtData msgid mt = Inr (mts, msgid) \<and> map Parse_SPM mts = map Inr ps \<and>
    concat (map Msg_Data_Part ps) = mt \<and> map (\<lambda>p. unat (Packet_Number p)) ps = [1..<Suc (length ps)] \<and>
    (\<forall>p\<in>set ps. Split_Msg_ID p = msgid \<and> unat (Packets_Total_Count p) = length ps)"
proof -
  let ?pts = "mt_parts mt" and ?p = "\<lambda>j. spm_packet msgid (length (mt_parts mt)) j (mt_parts mt ! j)"
  obtain mts where m: "SplitMtData msgid mt = Inr (mts, msgid)" "length mts = length ?pts" "length ?pts \<le> 255"
      "\<forall>j<length mts. SPM_Encode (spm_packet msgid (length mts) j (?pts ! j)) = Inr (mts ! j)"
    using SplitMtData_each[of mt msgid] assms(1,2) by auto
  have w: "concat ?pts = mt" by (rule mt_parts_whole[OF assms(2)])
  have "\<exists>crc. Parse_SPM (mts ! j) = Inr ((?p j)\<lparr>CRC := crc\<rparr>)" if j: "j < length mts" for j
  proof -
    have "?pts ! j \<in> set ?pts" using j m(2) by simp
    moreover from this have "set (?pts ! j) \<subseteq> set (concat ?pts)" by auto
    ultimately have "length (?pts ! j) \<le> 256" "0 \<notin> set (?pts ! j)" using mt_parts_small assms(3) unfolding w by blast+
    then have "fits (?p j)" "Header (?p j) = 0x40" "unat (Split_Msg_ID (?p j)) < 2 ^ 32" "0 \<notin> set (Msg_Data_Part (?p j))"
      using spm_packet_fits[of "?pts ! j" "length ?pts" j msgid] m(2,3) j assms(4) by (auto simp: spm_packet_def)
    from spm_reads_back[OF this] show ?thesis using m(2,4) j by auto
  qed
  then obtain crc where crc: "\<forall>j<length mts. Parse_SPM (mts ! j) = Inr ((?p j)\<lparr>CRC := crc j\<rparr>)" by metis
  define ps where "ps = map (\<lambda>j. (?p j)\<lparr>CRC := crc j\<rparr>) [0..<length mts]"
  have "map Parse_SPM mts = map Inr ps" using crc by (intro nth_equalityI) (auto simp: ps_def)
  moreover have "map Msg_Data_Part ps = ?pts" using m(2) by (intro nth_equalityI) (auto simp: ps_def spm_packet_def)
  moreover have "unat (Packet_Number (?p j)) = Suc j \<and> unat (Packets_Total_Count (?p j)) = length ?pts" if "j < length mts" for j
    using spm_packet_fits[of "?pts ! j" "length ?pts" j msgid] m(2,3) that mt_parts_small[of "?pts ! j" mt] by auto
  then have "map (\<lambda>p. unat (Packet_Number p)) ps = [1..<Suc (length ps)]"
      "\<forall>p\<in>set ps. Split_Msg_ID p = msgid \<and> unat (Packets_Total_Count p) = length ps"
    using m(2) by (auto simp: ps_def spm_packet_def intro!: nth_equalityI simp del: upt_Suc of_nat_Suc of_nat_add)
  ultimately show ?thesis using m(1) w by (intro exI[of _ mts] exI[of _ ps]) auto
qed

text \<open>
  Of a longer message only the first 512 bytes are sent: two messages of the same length that agree there are split into
  the same packets.
\<close>

theorem long_message_lost:
  assumes "length a = length b" "take 512 a = take 512 b"
  shows "SplitMtData msgid a = SplitMtData msgid b"
proof -
  have t: "take k a = take k b" if "k \<le> 512" for k
    using arg_cong[OF assms(2), of "take k"] that by (simp add: min.absorb1)
  then have s: "slice a 256 (256 + k) = slice b 256 (256 + k)" if "k \<le> 256" for k
    using that by (simp add: slice_def take_drop)
  have "mt_parts a = mt_parts b"
  proof (cases "length a div 256")
    case 0
    then have "length a \<le> 512" by (simp add: div_eq_0_iff)
    then have "a = b" using assms by simp
    then show ?thesis by simp
  next
    case (Suc k)
    have "length a mod 256 \<le> 256" by (simp add: less_imp_le)
    then have "slice a 256 (256 + length a mod 256) = slice b 256 (256 + length a mod 256)" by (rule s)
    moreover have "take 256 a = take 256 b" "slice a 256 512 = slice b 256 512" using t[of 256] s[of 256] by simp_all
    ultimately show ?thesis using Suc assms(1) unfolding mt_parts_eq by simp
  qed
  then show ?thesis by (simp add: SplitMtData_def)
qed

section \<open>Joining packets\<close>

text \<open>The stored messages have different identifiers and a place for each of their packets.\<close>

definition well_kept :: "SplitMessage list \<Rightarrow> bool" where
  "well_kept msgs \<longleftrightarrow> distinct (map MessageID msgs) \<and>
     (\<forall>m\<in>set msgs. length (PacketNumbers m) = unat (PacketTotalCount m) \<and> length (MessageDataParts m) = unat (PacketTotalCount m))"

lemma contains_None: "contains msgs e i = None \<longleftrightarrow> e \<notin> MessageID ` set msgs"
  by (induction msgs arbitrary: i) auto

lemma contains_Some: "contains msgs e i = Some j \<Longrightarrow> i \<le> j \<and> j < i + length msgs \<and> MessageID (msgs ! (j - i)) = e"
proof (induction msgs arbitrary: i)
  case (Cons m msgs)
  show ?case
  proof (cases "MessageID m = e")
    case False
    then have "contains msgs e (Suc i) = Some j" using Cons.prems by simp
    from Cons.IH[OF this] have j: "Suc i \<le> j" "j < Suc i + length msgs" "MessageID (msgs ! (j - Suc i)) = e" by auto
    then have "j - i = Suc (j - Suc i)" by simp
    then show ?thesis using j by simp
  qed (use Cons.prems in auto)
qed simp

lemma contains_Some0: "contains msgs e 0 = Some j \<Longrightarrow> j < length msgs \<and> MessageID (msgs ! j) = e"
  using contains_Some[of msgs e 0 j] by simp

lemma well_kept_update:
  "well_kept msgs \<Longrightarrow> j < length msgs \<Longrightarrow> MessageID m = MessageID (msgs ! j) \<Longrightarrow>
   length (PacketNumbers m) = unat (PacketTotalCount m) \<Longrightarrow> length (MessageDataParts m) = unat (PacketTotalCount m) \<Longrightarrow>
   well_kept (msgs[j := m])"
  by (auto simp: well_kept_def map_update distinct_list_update dest!: subsetD[OF set_update_subset_insert])

lemma well_kept_remove: "well_kept msgs \<Longrightarrow> well_kept (take j msgs @ drop (Suc j) msgs)"
proof -
  assume w: "well_kept msgs"
  have "distinct (take j (map MessageID msgs) @ drop (Suc j) (map MessageID msgs))"
    using w set_take_disj_set_drop_if_distinct[of "map MessageID msgs" j "Suc j"] by (simp add: well_kept_def)
  moreover have "set (take j msgs @ drop (Suc j) msgs) \<subseteq> set msgs" by (auto dest: in_set_takeD in_set_dropD)
  ultimately show ?thesis using w unfolding well_kept_def by (auto simp: take_map drop_map)
qed

text \<open>
  Whatever packets arrive, the stored messages keep different identifiers and exactly one place per packet, also when
  a call fails.
\<close>

theorem SplitPacketMessageHandler_keeps:
  assumes "well_kept msgs"
  shows "well_kept (fst (SplitPacketMessageHandler msgs p))"
proof (cases "contains msgs (Split_Msg_ID p) 0")
  case None
  have n: "Split_Msg_ID p \<notin> MessageID ` set msgs" using None by (simp add: contains_None)
  have "well_kept (msgs @ [m])" if "MessageID m = Split_Msg_ID p" "length (PacketNumbers m) = unat (PacketTotalCount m)"
      "length (MessageDataParts m) = unat (PacketTotalCount m)" for m
    using that assms n by (auto simp: well_kept_def)
  then show ?thesis using None assms by (simp add: SplitPacketMessageHandler_def Let_def)
next
  case (Some j)
  let ?m = "msgs ! j" and ?k = "unat (Packet_Number p - 1)"
  define m' where "m' = (if Packet_Number p \<le> PacketTotalCount ?m
      then ?m\<lparr>PacketNumbers := (PacketNumbers ?m)[?k := Packet_Number p], MessageDataParts := (MessageDataParts ?m)[?k := Msg_Data_Part p]\<rparr>
      else ?m)"
  have j: "j < length msgs" using contains_Some0[OF Some] by simp
  then have "?m \<in> set msgs" by simp
  then have m: "length (PacketNumbers ?m) = unat (PacketTotalCount ?m)" "length (MessageDataParts ?m) = unat (PacketTotalCount ?m)"
    using assms by (auto simp: well_kept_def)
  have "well_kept (msgs[j := m'])" by (rule well_kept_update[OF assms j]) (auto simp: m'_def m)
  then show ?thesis
    using assms Some well_kept_remove[of "msgs[j := m']" j] unfolding SplitPacketMessageHandler_def
    by (auto simp: Let_def m'_def[symmetric] split: sum.splits simp del: length_list_update)
qed

text \<open>
  The handler never gives a message of more than one packet: the packet that completes it, if any of its data is not
  empty, panics, and data is given only for messages of a single packet.
\<close>

theorem joining_panics:
  assumes "well_kept msgs"
  shows "(contains msgs (Split_Msg_ID p) 0 = Some j \<and> Packet_Number p = PacketTotalCount (msgs ! j) \<and> Msg_Data_Part p \<noteq> [] \<longrightarrow>
      snd (SplitPacketMessageHandler msgs p) = Inl OutOfRange) \<and>
    (snd (SplitPacketMessageHandler msgs p) = Inr bs \<and> bs \<noteq> [] \<longrightarrow>
      Packets_Total_Count p = 1 \<and> Packet_Number p = 1 \<and> bs = Msg_Data_Part p \<and> Split_Msg_ID p \<notin> MessageID ` set msgs)"
proof (intro conjI impI)
  assume c: "contains msgs (Split_Msg_ID p) 0 = Some j \<and> Packet_Number p = PacketTotalCount (msgs ! j) \<and> Msg_Data_Part p \<noteq> []"
  let ?m = "msgs ! j" and ?k = "unat (Packet_Number p - 1)"
  have "msgs ! j \<in> set msgs" using contains_Some0[of msgs "Split_Msg_ID p" j] c by simp
  then have l: "length (MessageDataParts ?m) = length (PacketNumbers ?m)" using assms by (auto simp: well_kept_def)
  show "snd (SplitPacketMessageHandler msgs p) = Inl OutOfRange"
  proof (cases "length (PacketNumbers ?m) \<le> ?k")
    case False
    then have "Msg_Data_Part p \<in> set ((MessageDataParts ?m)[?k := Msg_Data_Part p])" using l by (simp add: set_update_memI)
    then have "concat ((MessageDataParts ?m)[?k := Msg_Data_Part p]) \<noteq> []" using c by auto
    then show ?thesis using False c by (simp add: SplitPacketMessageHandler_def Let_def joined_parts_def)
  qed (use c in \<open>simp add: SplitPacketMessageHandler_def Let_def\<close>)
next
  assume r: "snd (SplitPacketMessageHandler msgs p) = Inr bs \<and> bs \<noteq> []"
  have n: "contains msgs (Split_Msg_ID p) 0 = None"
  proof (cases "contains msgs (Split_Msg_ID p) 0")
    case (Some j)
    then show ?thesis using r by (auto simp: SplitPacketMessageHandler_def Let_def joined_parts_def split: if_splits)
  qed
  then show "Split_Msg_ID p \<notin> MessageID ` set msgs" by (simp add: contains_None)
  show "Packets_Total_Count p = 1" "Packet_Number p = 1" "bs = Msg_Data_Part p"
    using r n by (auto simp: SplitPacketMessageHandler_def Let_def split: if_splits)
qed

section \<open>Witnesses\<close>

definition sample_packet :: "nat \<Rightarrow> octet list \<Rightarrow> SPM" where
  "sample_packet k pt = spm_packet 7 2 k pt"

theorem spm_roundtrip_witness:
  "\<exists>bs crc. SPM_Encode (sample_packet 0 [1, 2, 3]) = Inr bs \<and> checkCRC (encFromByte bs) = Inr () \<and>
     Parse_SPM bs = Inr (sample_packet 0 [1, 2, 3]\<lparr>CRC := crc\<rparr>)"
  by (rule spm_roundtrip) (simp_all add: sample_packet_def spm_packet_def fits_def)

theorem long_spm_id_rejected_witness:
  "\<exists>bs. SPM_Encode (spm_packet 0x100000000 2 0 [1]) = Inr bs \<and> Parse_SPM bs = Inl (Err ''value out of range'')"
  by (rule long_spm_id_rejected) (simp_all add: spm_packet_def fits_def)

theorem split_packets_fit_witness:
  "\<exists>mts. SplitMtData 7 (replicate 600 1) = Inr (mts, 7) \<and> length mts = (length (replicate 600 (1 :: octet)) + 255) div 256 \<and>
     (\<forall>p\<in>set mts. length p \<le> 270)"
  by (rule split_packets_fit) simp_all

theorem split_message_recovered_witness:
  "\<exists>mts ps. SplitMtData 7 (replicate 300 1) = Inr (mts, 7) \<and> map Parse_SPM mts = map Inr ps \<and>
    concat (map Msg_Data_Part ps) = replicate 300 1 \<and> map (\<lambda>p. unat (Packet_Number p)) ps = [1..<Suc (length ps)] \<and>
    (\<forall>p\<in>set ps. Split_Msg_ID p = 7 \<and> unat (Packets_Total_Count p) = length ps)"
  by (rule split_message_recovered) simp_all

theorem long_message_lost_witness:
  "SplitMtData 7 (replicate 512 1 @ [2]) = SplitMtData 7 (replicate 512 1 @ [3])"
  by (rule long_message_lost) simp_all

theorem SplitPacketMessageHandler_keeps_witness:
  "well_kept (fst (SplitPacketMessageHandler [] (sample_packet 0 [1, 2, 3])))"
  by (rule SplitPacketMessageHandler_keeps) (simp add: well_kept_def)

theorem joining_panics_witness:
  "snd (SplitPacketMessageHandler (fst (SplitPacketMessageHandler [] (sample_packet 0 [1, 2, 3]))) (sample_packet 1 [4])) = Inl OutOfRange"
proof -
  let ?s = "fst (SplitPacketMessageHandler [] (sample_packet 0 [1, 2, 3]))"
  have "well_kept ?s" "contains ?s 7 0 = Some 0" "PacketTotalCount (?s ! 0) = 2"
    by (simp_all add: SplitPacketMessageHandler_def sample_packet_def spm_packet_def Let_def well_kept_def)
  then show ?thesis
    using joining_panics[of ?s "sample_packet 1 [4]" 0] by (simp add: sample_packet_def spm_packet_def)
qed

end
