(* ===== verification/Spec2Isabelle.thy ===== *)
theory Spec2Isabelle
  imports Note_Resource Incident_Tracks Tsi_Client Supervisor Incident_Transfer Track_Extender Alert_Stages Track_Timeouts Misc_Timeouts Merge_Service Sar_Decode Stream_Compress Iridium Tgwad_Remote Notifier Viewport Mmsi Rule_Engine Zone_Notices Nmea_Sentence Split_Packet
begin

text \<open>
  Verification of the core of the PRISMA tactical management system (Go code under \<^verbatim>\<open>src/tms\<close>).

  \<^bold>\<open>The program.\<close> Daemons read positions, beacon messages and alerts from receivers and satellites, exchange them as
  framed protobuf messages through the gateway \<^verbatim>\<open>tgwad\<close>, store them in MongoDB and stream them to map clients. The
  streams of tracks run through stages: \<^verbatim>\<open>tms/db\<close> merges updates, drops updates a slow client does not need, times tracks
  out and filters by the viewport of the client; \<^verbatim>\<open>tanalyzed\<close> applies zones and rules to every update and keeps the
  notices an operator has to acknowledge. \<^verbatim>\<open>tms/nmea\<close>, \<^verbatim>\<open>tms/sar\<close>, \<^verbatim>\<open>tms/iridium\<close> and \<^verbatim>\<open>tms/omnicom\<close> decode what the receivers send.

  \<^bold>\<open>Representation.\<close> A struct is a record, an enumeration a datatype, a fixed-width integer a word where its width
  matters. A call that can fail gives a sum (\<open>'a res\<close>, theory \<open>Prisma_Prelude\<close>): the left side is an error or a panic
  (nil dereference, index out of range). A method takes the state of its receiver and gives the new one. Clock
  readings, random numbers, replies of databases and sockets are arguments. A goroutine with a \<^verbatim>\<open>select\<close> loop is a step
  function over the event it received, and where several goroutines share state their interleaving is an inductive
  step relation, whose properties hold for every reachable state.

  \<^bold>\<open>Timeouts.\<close> \<open>Timeout_Heap\<close> is \<^verbatim>\<open>db/timeout_heap.go\<close> with the loops of \<^verbatim>\<open>container/heap\<close> it uses, an array with an index
  map; it refines a map from identifiers to entries. The locale \<open>timeout_queue\<close> states what its clients rely on, \<open>drain_loop\<close>
  the loop that pops what is due; \<open>Track_Timeouts\<close> (\<^verbatim>\<open>db/track_timeouts.go\<close>) and \<open>Misc_Timeouts\<close> (\<^verbatim>\<open>db/misc_data_timeout.go\<close>)
  interpret them. Shown: the heap invariant, that exactly the expired entries are sent, in order, that the stages never
  panic, and the bounds of the waiting time. \<open>Track_Types\<close> has the tracks and their times.

  \<^bold>\<open>Track streams.\<close> \<open>Track_Merge\<close> and \<open>Merge_Service\<close> are \<^verbatim>\<open>db/track_merge.go\<close>: the merger's state (locale \<open>merge_item\<close> for
  targets and metadata alike) and the goroutines of the service. Shown: the newest target and metadata are kept, the
  service ends only when all streams have, and cancellation can lead to a send on a closed channel. \<open>Stream_Compress\<close>
  (\<^verbatim>\<open>db/stream_compress.go\<close>) never loses the latest position. \<open>Viewport\<close> (\<^verbatim>\<open>db/viewport.go\<close>): the counts of tracks are exact without
  a heat map, and so are those last sent to the client after a tick; sending the heat map ends within two nested calls when leaving it does not start it again
  (the fuel of \<open>sendHeatmap\<close> is that nesting depth), and does not end otherwise.

  \<^bold>\<open>Messages between sites.\<close> \<open>Tmsg_Frame\<close> (\<^verbatim>\<open>tmsg/msgparser.go\<close>, \<^verbatim>\<open>any.go\<close>, \<^verbatim>\<open>matcher.go\<close>) over \<open>Byte_Codec\<close> (locale
  \<open>field_codec\<close>): round trip of frames, acceptance only of intact frames, progress of the retry (its fuel is the length of
  the input). \<open>Tgwad_Router\<close>, \<open>Tgwad_Listener\<close> and \<open>Tgwad_Remote\<close> are the files of \<^verbatim>\<open>tgwad\<close> with the same names and
  \<^verbatim>\<open>deliverer.go\<close>: routing, client channels, remote sites. Shown: who receives a message, that a channel acknowledges what
  it read in order, that every message for a remote site is accounted for, with the database
  failures, panics and the shutdown that lose one, that a delivery is reported only with its
  acknowledgement, and a deadlock of the router. SHA-512, zlib and protobuf are parameters with the laws that decoding
  inverts encoding. This theory composes the deliverer of one site with the client channel of another.

  \<^bold>\<open>Analysis.\<close> \<open>Zone_Stage\<close> (\<^verbatim>\<open>tanalyzed/zones.go\<close>, \<^verbatim>\<open>moc/zone_extra.go\<close>), \<open>Rule_Engine\<close> (\<^verbatim>\<open>tms/rule\<close>, \<^verbatim>\<open>tanalyzed/rule.go\<close>),
  \<open>Notifier\<close> (\<^verbatim>\<open>tanalyzed/notifier.go\<close>) and \<open>Zone_Notices\<close>, which composes zones and notices through the locale
  \<open>notice_keeper\<close>. Shown: zone alerts are exactly the crossings, rule trees have the value of their conditions, a notice
  goes through the life cycle that the comment on \<^verbatim>\<open>Notifier\<close> documents, but for the match of a cleared notice, on which the
  code departs from it. Polygon tests, regular expressions and MD5 are
  parameters.
  \<open>Alert_Stages\<close> (\<^verbatim>\<open>tanalyzed/sart.go\<close>, \<^verbatim>\<open>sarsat.go\<close>) composes the distress alerts with the notices in the same way.

  \<^bold>\<open>Track extension.\<close> \<open>Track_Extender\<close> (\<^verbatim>\<open>tanalyzed/extender.go\<close>, \<^verbatim>\<open>db/mongo/trackex.go\<close>): the calls
  are split where they release the mutex, and the step relation \<open>gstep\<close> interleaves the four goroutines of the stage. Shown: as long as
  no two goroutines are busy with the same track and writes succeed, the collection is the map of watched tracks; overlapping
  calls can store a track twice; a check times out exactly the expired tracks and repeats exactly those due, a restart
  finds what was watched; a check that works on a stale copy times out a track that reports.

  \<^bold>\<open>Incident transfer.\<close> \<open>Multicast\<close> (\<^verbatim>\<open>tanalyzed/multicast.go\<close>) and \<open>Incident_Transfer\<close> (\<^verbatim>\<open>siteCreate\<close> of
  \<^verbatim>\<open>twebd/public/multicast.go\<close>, \<^verbatim>\<open>db/inserter.go\<close>, \<^verbatim>\<open>tanalyzed/incident.go\<close>) model the hand-over of an incident to another site
  from the request to the last delivery report. Shown: reports decide the state of a transmission whatever their order, a
  multicast is sent once, the incident arrives with its log and the transmission succeeds, a failure reopens it, and the
  requests and files with which this goes wrong. A report is tried three times, as in the code; what other goroutines do
  between the tries is an argument.

  \<^bold>\<open>Client of the gateway.\<close> \<open>Tsi_Client\<close> (\<^verbatim>\<open>tmsg/tsiclient.go\<close>, \<^verbatim>\<open>constants.go\<close>): the connection every daemon has to its \<^verbatim>\<open>tgwad\<close>. The step
  relation \<open>cstep\<close> interleaves the receiving goroutine, which may hold the mutex while it waits for a full channel, with the calls of
  the daemon. Shown: a request returns only its own reply, and a request answered by the handler of another client returns what the
  handler gave; a registered listener is known to the router and gets its messages; a callback runs once; messages are written in
  order; serial numbers are unique while the clock does not go back; and the states in which the receiver is blocked.

  \<^bold>\<open>Supervisor.\<close> \<open>Tmsd_Config\<close> (\<^verbatim>\<open>tmsd/lib/config.go\<close>) and \<open>Supervisor\<close> (\<^verbatim>\<open>tmsd/lib/tmsd.go\<close>): a configuration file is read back as what
  it was written from, the file of process ids gives exactly the processes still running unless the line of one contains number and name of another, a
  monitored process is relaunched as a
  counter of its unstable launches says, a shutdown ends, the processor usage is exact. The fuel of \<open>control\<close> counts loop tests
  between two launches: five are enough, and more than any bound is what a negative limit needs.

  \<^bold>\<open>Incident requests.\<close> \<open>Incident_Resource\<close> (\<^verbatim>\<open>twebd/public/incident.go\<close>, \<^verbatim>\<open>moc/incident_extra.go\<close>, parts of \<^verbatim>\<open>db/mongo/misc.go\<close>): the handlers
  that create, read, change, close and assign incidents, as functions of the collections, the requests for track extensions and the
  audit trail. Shown: without permission nothing changes, the log of a closed incident is locked, a created incident is read back, the
  requested extensions are exactly the tracks of open incidents as long as no entry is removed; and the requests after which they are
  not, after which a new entry is hidden, and which close another incident than they name. \<open>Incident_Tracks\<close> composes them with the
  extender: its count of a track is the number of entries of the track in open incidents, and no check gives such a track up; a
  report that the track has timed out does, and a check with an outdated copy loses a request.

  \<^bold>\<open>Notes.\<close> \<open>Note_Resource\<close> (\<^verbatim>\<open>twebd/public/note.go\<close>, \<^verbatim>\<open>DetachLogEntry\<close> of \<^verbatim>\<open>incident.go\<close>, \<^verbatim>\<open>db/mongo/notedb.go\<close>, \<^verbatim>\<open>db/mongo/incidentdb.go\<close>): the
  requests that create, change, delete, assign and detach notes. Shown: the requests move a note as their names say, a note is never
  in two places whatever fails unless it is detached from an incident it has left, assigning and detaching gives the note back; and that an unknown incident loses it, an update
  doubles it, a second assignment brings back its old text, and a closed incident takes it.

  \<^bold>\<open>Decoders.\<close> \<open>Sar_Bits\<close> and \<open>Sar_Decode\<close> (\<^verbatim>\<open>tms/sar\<close>): bit fields round trip, decoding a beacon identifier never panics.
  \<open>Mmsi\<close> (\<^verbatim>\<open>validate/mmsi.go\<close>): exactly the documented formats are accepted. \<open>Nmea_Sentence\<close> (\<^verbatim>\<open>nmea/nmea.go\<close>, \<^verbatim>\<open>nmea_util.go\<close>):
  sentences round trip, one changed byte is detected, bit fields have the value of their bits. \<open>Iridium\<close> (\<^verbatim>\<open>tms/iridium\<close>):
  the information elements round trip. \<open>Omnicom_Bits\<close> and \<open>Split_Packet\<close> (\<^verbatim>\<open>omnicom/Omnicom.go\<close>, \<^verbatim>\<open>SPM.go\<close>,
  \<^verbatim>\<open>tfleetd/SplitPacket.go\<close>): the cyclic redundancy check detects odd numbers of errors and short bursts, messages of up to
  512 bytes are recovered from their packets, longer ones lose the rest.

  \<^bold>\<open>Not modelled.\<close> Floating-point geometry and coordinate conversions; the generated per-sentence parsers of \<^verbatim>\<open>tms/nmea\<close> and
  \<^verbatim>\<open>tms/omnicom\<close>, which are sequences of the field accesses modelled here; MongoDB queries, the other REST handlers, websockets and
  authentication, which are input and output around data; the adapters of single protocols; copies of
  third-party packages under \<^verbatim>\<open>tms/geojson\<close> and the binding under \<^verbatim>\<open>tms/goejdb\<close>; simulators and code generators.
\<close>

section \<open>From a deliverer through a client channel and back\<close>

text \<open>C31. A message sent to another site arrives there and is confirmed: when the bytes a connected deliverer writes
  for a message reach the client channel of the other router, the channel can run so that it hands exactly this
  message to its router and answers with bytes on which the deliverer reports the delivery.\<close>
theorem delivery_round_trip:
  assumes "wire_ok w" "nd_conn d" "forwards tmsg"
    and "WriteTsiMessageExtended (w_sha w) (w_zlib w) (w_marshal w) tmsg \<lparr>op_ID = nd_ctr d, Compress = True\<rparr> = Inr whole"
    and "WriteTsiMessageExtended (w_sha w) (w_zlib w) (w_marshal w) ack_message \<lparr>op_ID = nd_ctr d, Compress = False\<rparr> = Inr ackf"
    and "length ackf \<le> bufsize (nd_buf d)"
  shows "\<exists>c. (istep (w_sha w) (w_zlib w) (w_unzlib w) (w_marshal w) (w_unmarshal w) unpack_reg)\<^sup>*\<^sup>* (NewIOChannel whole) c \<and>
    toRouter c = [tmsg] \<and> coming (io_r c) = [] \<and> \<not> canceled c \<and>
    Deliver w True (d\<lparr>nd_buf := (nd_buf d)\<lparr>coming := concat (io_written c)\<rparr>\<rparr>) (Some tmsg) =
      Inr (d\<lparr>nd_ctr := nd_ctr d + 1, nd_written := nd_written d @ whole, nd_buf := (nd_buf d)\<lparr>coming := []\<rparr>\<rparr>, True)"
proof -
  have "length whole \<le> nat MaxMessageSize" using written_size[OF assms(4)] by (simp add: MaxMessageSize_def)
  from wire_read[OF assms(1,4) this, of "[]"]
  have rd: "ReadTsiMessageExtended (w_sha w) (w_unzlib w) (w_unmarshal w) (io_r (NewIOChannel whole)) =
      (Inr tmsg, nd_ctr d, \<lparr>coming = [], bufsize = nat MaxMessageSize\<rparr>)"
    by (simp add: NewIOChannel_def)
  obtain c where c: "(istep (w_sha w) (w_zlib w) (w_unzlib w) (w_marshal w) (w_unmarshal w) unpack_reg)\<^sup>*\<^sup>* (NewIOChannel whole) c"
    "toRouter c = [tmsg]" "io_written c = [ackf]" "coming (io_r c) = []" "\<not> canceled c"
    using channel_run[OF rd assms(3,5), of unpack_reg] by (auto simp: NewIOChannel_def toRouter_cap_def)
  let ?d = "d\<lparr>nd_buf := (nd_buf d)\<lparr>coming := ackf\<rparr>\<rparr>"
  have "await_ack w (nd_ctr d) (nd_buf ?d) = Inr (True, (nd_buf d)\<lparr>coming := []\<rparr>)"
    using await_ack_peer[OF assms(1), of "[]" "nd_ctr d" ackf "bufsize (nd_buf d)" "[]"] assms(5,6)
    by (cases "nd_buf d") (simp add: frames_fit_def)
  then have "Deliver w True ?d (Some tmsg) =
      Inr (d\<lparr>nd_ctr := nd_ctr d + 1, nd_written := nd_written d @ whole, nd_buf := (nd_buf d)\<lparr>coming := []\<rparr>\<rparr>, True)"
    using assms(2,4) by (simp add: Deliver_def Let_def)
  with c show ?thesis by (intro exI[of _ c]) simp
qed

theorem delivery_round_trip_witness:
  "\<exists>c. ex_istep\<^sup>*\<^sup>* (NewIOChannel (ex_frame 5 2)) c \<and> toRouter c = [ex_msg] \<and>
     Deliver ex_wire True (ex_deliverer\<lparr>nd_buf := \<lparr>coming = concat (io_written c), bufsize = 4096\<rparr>\<rparr>) (Some ex_msg) =
       Inr (ex_deliverer\<lparr>nd_ctr := 6, nd_written := ex_frame 5 2, nd_buf := \<lparr>coming = [], bufsize = 4096\<rparr>\<rparr>, True)"
  using delivery_round_trip[OF ex_wire_ok, of ex_deliverer ex_msg "ex_frame 5 2" "ex_frame 5 1" "\<lambda>_. Inl NilDeref"]
    ex_forwards ex_write[OF ex_marshal(1)] ex_write[OF ex_marshal(2)] length_ex_frame
  by (auto simp: ex_deliverer_def NewNetDeliverer_def)

end
